(* ===== verification/Prelude.thy ===== *)
theory Prelude
  imports Main "HOL-Library.Word" "HOL-Library.Monad_Syntax" "HOL-Library.Multiset"
begin

text \<open>
  Shared vocabulary of the development: the machine types of the C sources, the
  collections of rewrite rules the component proofs use, generic facts on words,
  lists and options, and the interface of a bounded first-in first-out store that
  the ring buffer of the channels and the job queues of the schedulers implement.

  Conventions used by every component theory:
  \<^item> a C pointer is a \<open>ptr\<close>: \<open>None\<close> is \<open>NULL\<close>, \<open>Some a\<close> the address \<open>a\<close>;
  \<^item> \<open>size_t\<close> and \<open>uint64_t\<close> are \<open>64 word\<close>, \<open>int\<close> is \<open>32 word\<close> read by \<open>sint\<close>, so
    every addition and subtraction wraps as the machine's does;
  \<^item> a C function that can run into undefined behaviour (a dereference of \<open>NULL\<close>
    or of a freed cell, an access past the end of an array) returns an \<open>option\<close>, and
    \<open>None\<close> is that case; functional-correctness theorems therefore include memory
    safety.
\<close>

type_synonym u8 = "8 word"
type_synonym u32 = "32 word"
type_synonym u64 = "64 word"
type_synonym ptr = "nat option"

abbreviation NULL :: ptr where
  "NULL \<equiv> None"

named_theorems heap_simps \<open>rewriting with the cells of a pointer structure\<close>
named_theorems state_defs \<open>definitions of the operations of a state machine\<close>

subsection \<open>Words\<close>

lemma unat_u64_lt [simp]: "unat (x :: u64) < 2 ^ 64"
  using unsigned_less [of x, where 'a = nat] by simp

lemma unat_add_small: "unat a + unat b < 2 ^ 64 \<Longrightarrow> unat (a + b :: u64) = unat a + unat b"
  using unat_add_lem [of a b] by simp

lemma unat_succ_small: "unat a < unat (b :: u64) \<Longrightarrow> unat (a + 1 :: u64) = unat a + 1"
  using unat_add_small [of a 1] unat_u64_lt [of b] by simp

lemma unat_sub_small: "unat b \<le> unat a \<Longrightarrow> unat (a - b :: u64) = unat a - unat b"
  by (simp add: unat_sub word_le_nat_alt)

lemma unat_pred_small: "0 < unat a \<Longrightarrow> unat (a - 1 :: u64) = unat a - 1"
  using unat_sub_small [of 1 a] by simp

lemma unat_of_nat_small: "n < 2 ^ 64 \<Longrightarrow> unat (of_nat n :: u64) = n"
  by (simp add: unat_of_nat take_bit_nat_eq_self)

lemma of_nat_u64_eq_0: "n < 2 ^ 64 \<Longrightarrow> (of_nat n :: u64) = 0 \<longleftrightarrow> n = 0"
  by (auto dest: arg_cong [where f = unat] simp: unat_of_nat_small)

lemma of_nat_u64_inject:
  "m < 2 ^ 64 \<Longrightarrow> n < 2 ^ 64 \<Longrightarrow> (of_nat m :: u64) = of_nat n \<longleftrightarrow> m = n"
  by (auto dest: arg_cong [where f = unat] simp: unat_of_nat_small)

lemma unat_u64_max: "unat (- 1 :: u64) = 2 ^ 64 - 1"
  by (simp add: unsigned_minus_1_eq_mask mask_eq_exp_minus_1)

subsection \<open>Lists\<close>

lemma filter_key_neq [simp]: "a \<notin> fst ` set xs \<Longrightarrow> filter (\<lambda>n. fst n \<noteq> a) xs = xs"
  by (induction xs) auto

lemma mset_takeWhile_dropWhile: "mset (takeWhile P xs) + mset (dropWhile P xs) = mset xs"
  by (metis mset_append takeWhile_dropWhile_id)

lemma map_upt_Cons:
  "0 < n \<Longrightarrow> map f [0..<n] = f 0 # map (\<lambda>i. f (Suc i)) [0..<n - 1]"
  by (cases n) (simp_all add: map_upt_Suc del: upt_Suc)

lemma mod_window_inj:
  assumes "i < j" "j < (c::nat)"
  shows "(n + i) mod c \<noteq> (n + j) mod c"
proof
  assume "(n + i) mod c = (n + j) mod c"
  then have "c dvd (n + j) - (n + i)"
    using assms mod_eq_dvd_iff_nat [of "n + i" "n + j" c] by simp
  then have "c dvd j - i" by simp
  then show False using assms by (auto dest: dvd_imp_le)
qed

lemma mod_add_window:
  "i < c \<Longrightarrow> j < (c::nat) \<Longrightarrow> (n + i) mod c = (n + j) mod c \<longleftrightarrow> i = j"
  using mod_window_inj [of i j c n] mod_window_inj [of j i c n] by (metis linorder_neqE_nat)

end
