(* ===== verification/Dll.thy ===== *)
theory Dll
  imports Prelude
begin

text \<open>
  The node heap shared by the linked lists of the repository. All three list modules
  (\<open>linked_list.c\<close> of the simulator lab, of the concurrency project and of homework 1)
  link nodes with a \<open>next\<close> and a \<open>prev\<close> pointer; this theory gives the cells, the reads and
  writes through pointers (undefined on \<open>NULL\<close> and on freed cells) and the
  representation predicate \<open>linked\<close>: a chain of cells carries a list of
  (address, datum) pairs. The component theories prove their operations against it.
\<close>

subsection \<open>Cells and accesses\<close>

record 'd list_node =
  node_next :: ptr
  node_prev :: ptr
  node_data :: 'd

type_synonym 'd heap = "nat \<rightharpoonup> 'd list_node"

definition load :: "'d heap \<Rightarrow> ptr \<Rightarrow> 'd list_node option" where
  "load h p = (case p of None \<Rightarrow> None | Some a \<Rightarrow> h a)"

definition set_next :: "'d heap \<Rightarrow> ptr \<Rightarrow> ptr \<Rightarrow> 'd heap option" where
  "set_next h p q =
     (case p of None \<Rightarrow> None
      | Some a \<Rightarrow> (case h a of None \<Rightarrow> None | Some n \<Rightarrow> Some (h(a \<mapsto> n\<lparr>node_next := q\<rparr>))))"

definition set_prev :: "'d heap \<Rightarrow> ptr \<Rightarrow> ptr \<Rightarrow> 'd heap option" where
  "set_prev h p q =
     (case p of None \<Rightarrow> None
      | Some a \<Rightarrow> (case h a of None \<Rightarrow> None | Some n \<Rightarrow> Some (h(a \<mapsto> n\<lparr>node_prev := q\<rparr>))))"

text \<open>\<open>free\<close>: nothing on \<open>NULL\<close>, undefined on an address that is not allocated.\<close>

definition free_node :: "'d heap \<Rightarrow> ptr \<Rightarrow> 'd heap option" where
  "free_node h p =
     (case p of None \<Rightarrow> Some h
      | Some a \<Rightarrow> (case h a of None \<Rightarrow> None | Some _ \<Rightarrow> Some (h(a := None))))"

lemmas heap_defs = load_def set_next_def set_prev_def free_node_def

lemma load_Some [simp, heap_simps]: "load h (Some a) = h a"
  by (simp add: load_def)

lemma load_NULL [simp, heap_simps]: "load h NULL = None"
  by (simp add: load_def)

lemma set_next_Some [heap_simps]: "h a = Some n \<Longrightarrow> set_next h (Some a) q = Some (h(a \<mapsto> n\<lparr>node_next := q\<rparr>))"
  by (simp add: set_next_def)

lemma set_prev_Some [heap_simps]: "h a = Some n \<Longrightarrow> set_prev h (Some a) q = Some (h(a \<mapsto> n\<lparr>node_prev := q\<rparr>))"
  by (simp add: set_prev_def)

lemma free_node_Some [heap_simps]: "h a = Some n \<Longrightarrow> free_node h (Some a) = Some (h(a := None))"
  by (simp add: free_node_def)

subsection \<open>Chains of cells\<close>

text \<open>The address a chain starts at, or \<open>nx\<close> if it is empty; the address it ends at, or \<open>pv\<close>.\<close>

definition first_of :: "(nat \<times> 'd) list \<Rightarrow> ptr \<Rightarrow> ptr" where
  "first_of ns nx = (case ns of [] \<Rightarrow> nx | n # _ \<Rightarrow> Some (fst n))"

definition last_of :: "ptr \<Rightarrow> (nat \<times> 'd) list \<Rightarrow> ptr" where
  "last_of pv ns = (if ns = [] then pv else Some (fst (last ns)))"

lemma first_of_simps [simp]:
  "first_of [] nx = nx" "first_of (n # ns) nx = Some (fst n)"
  by (simp_all add: first_of_def)

lemma last_of_simps [simp]:
  "last_of pv [] = pv" "last_of pv (ns @ [n]) = Some (fst n)"
  by (simp_all add: last_of_def)

lemma last_of_Cons [simp]: "last_of pv (n # ns) = last_of (Some (fst n)) ns"
  by (simp add: last_of_def)

lemma first_of_append [simp]: "first_of (ns @ ms) nx = first_of ns (first_of ms nx)"
  by (cases ns) simp_all

lemma last_of_append [simp]: "last_of pv (ns @ ms) = last_of (last_of pv ns) ms"
  by (simp add: last_of_def)

fun linked :: "'d heap \<Rightarrow> ptr \<Rightarrow> (nat \<times> 'd) list \<Rightarrow> ptr \<Rightarrow> bool" where
  "linked h pv [] nx = True"
| "linked h pv ((a, x) # ns) nx =
     (h a = Some \<lparr>node_next = first_of ns nx, node_prev = pv, node_data = x\<rparr> \<and>
      linked h (Some a) ns nx)"

lemma linked_append:
  "linked h pv (ns @ ms) nx \<longleftrightarrow> linked h pv ns (first_of ms nx) \<and> linked h (last_of pv ns) ms nx"
  by (induction h pv ns nx rule: linked.induct) auto

lemma linked_dom: "linked h pv ns nx \<Longrightarrow> a \<in> fst ` set ns \<Longrightarrow> a \<in> dom h"
  by (induction h pv ns nx rule: linked.induct) auto

lemma linked_frame:
  "(\<And>a. a \<in> fst ` set ns \<Longrightarrow> h' a = h a) \<Longrightarrow> linked h' pv ns nx = linked h pv ns nx"
  by (induction h pv ns nx rule: linked.induct) auto

lemma linked_upd [simp]:
  "a \<notin> fst ` set ns \<Longrightarrow> linked (h(a := v)) pv ns nx = linked h pv ns nx"
  by (rule linked_frame) auto

text \<open>Redirecting the successor of the last cell, and the predecessor of the first.\<close>

lemma linked_retarget:
  assumes "linked h pv (ns @ [(a, x)]) nx" "distinct (map fst (ns @ [(a, x)]))"
  shows "linked (h(a \<mapsto> \<lparr>node_next = nx', node_prev = last_of pv ns, node_data = x\<rparr>))
           pv (ns @ [(a, x)]) nx'"
  using assms by (auto simp: linked_append)

lemma linked_reprev:
  assumes "linked h pv ((a, x) # ns) nx" "distinct (map fst ((a, x) # ns))"
  shows "linked (h(a \<mapsto> \<lparr>node_next = first_of ns nx, node_prev = pv', node_data = x\<rparr>))
           pv' ((a, x) # ns) nx"
  using assms by auto

subsection \<open>Linking a cell out of and into a chain\<close>

text \<open>
  The two conditional assignments every removal makes:
  \<^verbatim>\<open>if (node->prev) node->prev->next = node->next;
  if (node->next) node->next->prev = node->prev;\<close>
\<close>

definition bypass :: "'d heap \<Rightarrow> ptr \<Rightarrow> 'd heap option" where
  "bypass h node = do {
     n \<leftarrow> load h node;
     h \<leftarrow> (if node_prev n \<noteq> NULL then set_next h (node_prev n) (node_next n) else Some h);
     n \<leftarrow> load h node;
     (if node_next n \<noteq> NULL then set_prev h (node_next n) (node_prev n) else Some h)
   }"

lemma bypass_linked:
  assumes lk: "linked h None (as @ (a, x) # bs) None"
    and dist: "distinct (map fst (as @ (a, x) # bs))"
  shows "\<exists>h'. bypass h (Some a) = Some h' \<and> linked h' None (as @ bs) None \<and> h' a = h a \<and>
              dom h' = dom h \<and> (\<forall>b. b \<notin> fst ` set (as @ bs) \<longrightarrow> h' b = h b)"
proof -
  have ha: "h a = Some \<lparr>node_next = first_of bs None, node_prev = last_of None as, node_data = x\<rparr>"
    and lk1: "linked h None as (Some a)" and lk2: "linked h (Some a) bs None"
    using lk by (auto simp: linked_append)
  obtain h1 where h1: "(if last_of None as \<noteq> NULL then set_next h (last_of None as) (first_of bs None)
                        else Some h) = Some h1"
    and lk1': "linked h1 None as (first_of bs None)" and lk2': "linked h1 (Some a) bs None"
    and fr1: "\<forall>b. b \<notin> fst ` set as \<longrightarrow> h1 b = h b" and d1: "dom h1 = dom h"
  proof (cases as rule: rev_cases)
    case Nil
    then show ?thesis using that [of h] lk2 by simp
  next
    case (snoc as' c)
    obtain b y where c: "c = (b, y)" by (cases c)
    let ?h = "h(b \<mapsto> \<lparr>node_next = first_of bs None, node_prev = last_of None as', node_data = y\<rparr>)"
    have hb: "h b = Some \<lparr>node_next = Some a, node_prev = last_of None as', node_data = y\<rparr>"
      using lk1 snoc c by (simp add: linked_append)
    have "linked ?h None as (first_of bs None)"
      using linked_retarget [of h None as' b y "Some a"] lk1 dist snoc c by simp
    moreover have "linked ?h (Some a) bs None"
      using lk2 dist snoc c by (subst linked_upd) auto
    ultimately show ?thesis
      using that [of ?h] hb snoc c by (auto simp: set_next_Some)
  qed
  have h1a: "h1 a = h a" using fr1 dist by auto
  obtain h2 where h2: "(if first_of bs None \<noteq> NULL then set_prev h1 (first_of bs None) (last_of None as)
                        else Some h1) = Some h2"
    and lk3: "linked h2 None as (first_of bs None)" and lk4: "linked h2 (last_of None as) bs None"
    and fr2: "\<forall>b. b \<notin> fst ` set bs \<longrightarrow> h2 b = h1 b" and d2: "dom h2 = dom h1"
  proof (cases bs)
    case Nil
    then show ?thesis using that [of h1] lk1' by simp
  next
    case (Cons c bs')
    obtain b y where c: "c = (b, y)" by (cases c)
    let ?h = "h1(b \<mapsto> \<lparr>node_next = first_of bs' None, node_prev = last_of None as, node_data = y\<rparr>)"
    have hb: "h1 b = Some \<lparr>node_next = first_of bs' None, node_prev = Some a, node_data = y\<rparr>"
      using lk2' Cons c by simp
    have "linked ?h (last_of None as) bs None"
      using linked_reprev [of h1 "Some a" b y bs' None "last_of None as"] lk2' dist Cons c by simp
    moreover have "linked ?h None as (first_of bs None)"
      using lk1' dist Cons c by (subst linked_upd) auto
    ultimately show ?thesis
      using that [of ?h] hb Cons c by (auto simp: set_prev_Some)
  qed
  have "bypass h (Some a) = Some h2"
    unfolding bypass_def using ha h1 h2 h1a by (auto split: if_splits)
  moreover have "linked h2 None (as @ bs) None"
    using lk3 lk4 by (simp add: linked_append)
  moreover have "h2 a = h a" using fr2 dist h1a by auto
  moreover have "\<forall>b. b \<notin> fst ` set (as @ bs) \<longrightarrow> h2 b = h b"
    using fr1 fr2 by (simp add: image_Un)
  ultimately show ?thesis using d1 d2 by metis
qed

subsection \<open>The loops over a chain\<close>

text \<open>
  The loop of \<open>list_destroy\<close> frees the cells one after the other; \<open>None\<close> is undefined
  behaviour (a double free) or, on a cyclic chain, no result at all.
\<close>

partial_function (option) destroy_nodes :: "'d heap \<Rightarrow> ptr \<Rightarrow> 'd heap option" where
  [code]: "destroy_nodes h cur =
     (case cur of
        None \<Rightarrow> Some h
      | Some a \<Rightarrow> do {
          n \<leftarrow> load h cur;
          h \<leftarrow> free_node h cur;
          destroy_nodes h (node_next n)
        })"

partial_function (option) find_node :: "'d heap \<Rightarrow> 'd \<Rightarrow> ptr \<Rightarrow> ptr option" where
  [code]: "find_node h d cur =
     (case cur of
        None \<Rightarrow> Some NULL
      | Some a \<Rightarrow> do {
          n \<leftarrow> load h cur;
          (if node_data n = d then Some cur else find_node h d (node_next n))
        })"

text \<open>The abstract removal of a node and search for a datum; the cells an operation leaves alone.\<close>

definition l_remove :: "(nat \<times> 'd) list \<Rightarrow> nat \<Rightarrow> (nat \<times> 'd) list" where
  "l_remove ns a = filter (\<lambda>n. fst n \<noteq> a) ns"

definition l_find :: "(nat \<times> 'd) list \<Rightarrow> 'd \<Rightarrow> ptr" where
  "l_find ns d = map_option fst (List.find (\<lambda>n. snd n = d) ns)"

definition frame :: "'d heap \<Rightarrow> 'd heap \<Rightarrow> nat set \<Rightarrow> bool" where
  "frame h h' A \<longleftrightarrow> (\<forall>b. b \<notin> A \<longrightarrow> h' b = h b)"

lemma l_remove_append:
  "distinct (map fst (as @ (a, x) # bs)) \<Longrightarrow> l_remove (as @ (a, x) # bs) a = as @ bs"
  by (simp add: l_remove_def)

lemma find_node_linked:
  "linked h pv ns None \<Longrightarrow> find_node h d (first_of ns None) = Some (l_find ns d)"
  by (induction h pv ns "None :: ptr" rule: linked.induct)
     (subst find_node.simps, simp add: l_find_def)+

lemma destroy_nodes_linked:
  "linked h pv ns None \<Longrightarrow> distinct (map fst ns) \<Longrightarrow>
   destroy_nodes h (first_of ns None) = Some (h |` (- fst ` set ns))"
proof (induction ns arbitrary: h pv)
  case Nil
  then show ?case by (subst destroy_nodes.simps) (simp add: restrict_map_def)
next
  case (Cons n ns)
  obtain a x where n: "n = (a, x)" by (cases n)
  have lk: "linked (h(a := None)) (Some a) ns None" using Cons.prems n by simp
  have "destroy_nodes (h(a := None)) (first_of ns None) = Some ((h(a := None)) |` (- fst ` set ns))"
    using Cons.prems(2) by (intro Cons.IH [OF lk]) simp
  moreover have "(h(a := None)) |` (- fst ` set ns) = h |` (- fst ` set (n # ns))"
    using n by (auto simp: restrict_map_def)
  ultimately show ?case
    using Cons.prems n by (subst destroy_nodes.simps) (simp add: free_node_def)
qed

end
