(* ===== verification/Conc_List.thy ===== *)
theory Conc_List
  imports Dll
begin

text \<open>
  The linked list of the concurrency project (\<open>linked_list.h\<close>, \<open>linked_list.c\<close>), which
  holds the semaphores of the \<open>channel_select\<close> calls registered on a channel. It differs
  from the simulator's list: there is no comparator, insertion appends at the tail, and
  removal frees the node without clearing it. The refinement lemmas read the list as the
  sequence of its data: insertion is \<open>xs @ [d]\<close>, and removing the node \<open>list_find\<close> returns
  is \<open>remove1 d xs\<close>, which is how the channel model uses it.
\<close>

subsection \<open>Data and operations\<close>

record list_t =
  head :: ptr
  tail :: ptr
  count :: u64

definition list_create :: "bool \<Rightarrow> list_t option" where
  "list_create malloc_ok =
     (if \<not> malloc_ok then None else Some \<lparr>head = NULL, tail = NULL, count = 0\<rparr>)"

definition list_destroy :: "'d heap \<Rightarrow> list_t option \<Rightarrow> 'd heap option" where
  "list_destroy h list = (case list of None \<Rightarrow> Some h | Some l \<Rightarrow> destroy_nodes h (head l))"

definition list_head :: "list_t option \<Rightarrow> ptr" where
  "list_head list = (case list of None \<Rightarrow> NULL | Some l \<Rightarrow> head l)"

definition list_tail :: "list_t option \<Rightarrow> ptr" where
  "list_tail list = (case list of None \<Rightarrow> NULL | Some l \<Rightarrow> tail l)"

definition list_next :: "'d heap \<Rightarrow> ptr \<Rightarrow> ptr option" where
  "list_next h node = (case node of None \<Rightarrow> Some NULL | Some a \<Rightarrow> map_option node_next (load h node))"

definition list_prev :: "'d heap \<Rightarrow> ptr \<Rightarrow> ptr option" where
  "list_prev h node = (case node of None \<Rightarrow> Some NULL | Some a \<Rightarrow> map_option node_prev (load h node))"

definition list_end :: "list_t option \<Rightarrow> ptr" where
  "list_end list = (case list of None \<Rightarrow> NULL | Some l \<Rightarrow> tail l)"

definition list_data :: "'d heap \<Rightarrow> ptr \<Rightarrow> 'd option option" where
  "list_data h node =
     (case node of None \<Rightarrow> Some None | Some a \<Rightarrow> map_option (\<lambda>n. Some (node_data n)) (load h node))"

definition list_count :: "list_t option \<Rightarrow> u64" where
  "list_count list = (case list of None \<Rightarrow> 0 | Some l \<Rightarrow> count l)"

definition list_find :: "'d heap \<Rightarrow> list_t option \<Rightarrow> 'd \<Rightarrow> ptr option" where
  "list_find h list d = (case list of None \<Rightarrow> Some NULL | Some l \<Rightarrow> find_node h d (head l))"

definition list_insert ::
  "'d heap \<Rightarrow> list_t option \<Rightarrow> 'd \<Rightarrow> ptr \<Rightarrow> ('d heap \<times> list_t option \<times> ptr) option" where
  "list_insert h list d new =
     (case list of
        None \<Rightarrow> Some (h, None, NULL)
      | Some l \<Rightarrow>
         (case new of
            None \<Rightarrow> Some (h, list, NULL)
          | Some a \<Rightarrow> do {
              let h = h(a \<mapsto> \<lparr>node_next = NULL, node_prev = tail l, node_data = d\<rparr>);
              (h, l) \<leftarrow> (if tail l \<noteq> NULL
                        then do { h \<leftarrow> set_next h (tail l) new; Some (h, l) }
                        else Some (h, l\<lparr>head := new\<rparr>));
              let l = l\<lparr>tail := new\<rparr>;
              Some (h, Some (l\<lparr>count := count l + 1\<rparr>), new)
            }))"

definition list_remove :: "'d heap \<Rightarrow> list_t option \<Rightarrow> ptr \<Rightarrow> ('d heap \<times> list_t option) option" where
  "list_remove h list node =
     (case list of
        None \<Rightarrow> Some (h, None)
      | Some l \<Rightarrow>
         if node = NULL then Some (h, list)
         else do {
           n \<leftarrow> load h node;
           let l = (if node = head l then l\<lparr>head := node_next n\<rparr> else l);
           let l = (if node = tail l then l\<lparr>tail := node_prev n\<rparr> else l);
           h \<leftarrow> bypass h node;
           let l = l\<lparr>count := count l - 1\<rparr>;
           h \<leftarrow> free_node h node;
           Some (h, Some l)
         })"

subsection \<open>Representation and refinement\<close>

definition list_rep :: "'d heap \<Rightarrow> list_t \<Rightarrow> (nat \<times> 'd) list \<Rightarrow> bool" where
  "list_rep h l ns \<longleftrightarrow>
     linked h None ns None \<and> distinct (map fst ns) \<and>
     head l = first_of ns None \<and> tail l = last_of None ns \<and> count l = of_nat (length ns)"

lemma fresh_not_in_selectors: "list_rep h l ns \<Longrightarrow> a \<notin> dom h \<Longrightarrow> a \<notin> fst ` set ns"
  using linked_dom by (fastforce simp: list_rep_def)

lemma selector_insert_refines:
  assumes rep: "list_rep h l ns" and new: "a \<notin> dom h"
  shows "\<exists>h' l'. list_insert h (Some l) d (Some a) = Some (h', Some l', Some a) \<and>
            list_rep h' l' (ns @ [(a, d)]) \<and> frame h h' (insert a (fst ` set ns))"
proof (cases ns rule: rev_cases)
  case Nil
  with rep show ?thesis by (simp add: list_insert_def list_rep_def frame_def)
next
  case (snoc ms n)
  obtain b y where n: "n = (b, y)" by (cases n)
  have a: "a \<notin> fst ` set ns" using rep new by (rule fresh_not_in_selectors)
  from rep snoc n have "h b = Some \<lparr>node_next = None, node_prev = last_of None ms, node_data = y\<rparr>"
    "linked h None ms (Some b)" "tail l = Some b" "b \<notin> fst ` set ms" "distinct (map fst ms)"
    by (auto simp: list_rep_def linked_append)
  then show ?thesis
    using rep a snoc n
    by (auto simp: frame_def list_insert_def set_next_def list_rep_def linked_append)
qed

lemma selector_remove_refines:
  assumes rep: "list_rep h l ns" and node: "a \<in> fst ` set ns"
  shows "\<exists>h' l'. list_remove h (Some l) (Some a) = Some (h', Some l') \<and>
            list_rep h' l' (l_remove ns a) \<and> frame h h' (fst ` set ns) \<and> h' a = None"
proof -
  obtain as x bs where ns: "ns = as @ (a, x) # bs"
    using node by (metis imageE prod.collapse split_list)
  have lk: "linked h None (as @ (a, x) # bs) None" and dist: "distinct (map fst (as @ (a, x) # bs))"
    using rep ns by (auto simp: list_rep_def)
  obtain h' where h': "bypass h (Some a) = Some h'" "linked h' None (as @ bs) None" "h' a = h a"
    "\<forall>b. b \<notin> fst ` set (as @ bs) \<longrightarrow> h' b = h b"
    using bypass_linked [OF lk dist] by blast
  have ha: "h a = Some \<lparr>node_next = first_of bs None, node_prev = last_of None as, node_data = x\<rparr>"
    using lk by (simp add: linked_append)
  have notin: "a \<notin> fst ` set (as @ bs)" using dist by auto
  have hd: "head l = Some a \<longleftrightarrow> as = []" "as \<noteq> [] \<Longrightarrow> head l = first_of as None"
    using rep ns notin by (cases as; force simp: list_rep_def)+
  have tl: "tail l = Some a \<longleftrightarrow> bs = []" "bs \<noteq> [] \<Longrightarrow> tail l = last_of None bs"
    using rep ns notin by (cases bs rule: rev_cases; force simp: list_rep_def)+
  let ?l1 = "if Some a = head l then l\<lparr>head := first_of bs None\<rparr> else l"
  let ?l2 = "if Some a = tail ?l1 then ?l1\<lparr>tail := last_of None as\<rparr> else ?l1"
  let ?l3 = "?l2\<lparr>count := count ?l2 - 1\<rparr>"
  have rem: "list_remove h (Some l) (Some a) = Some (h'(a := None), Some ?l3)"
    using ha h' by (simp add: list_remove_def Let_def free_node_def)
  have "list_rep (h'(a := None)) ?l3 (as @ bs)"
    using rep ns h' notin dist hd tl
    by (cases as; cases bs rule: rev_cases) (auto simp: list_rep_def)
  moreover have "frame h (h'(a := None)) (fst ` set ns)"
    using h' ns by (auto simp: frame_def)
  ultimately show ?thesis
    using rem ns dist l_remove_append [of as a x bs] by auto
qed

text \<open>Removing the node found for a datum removes its first occurrence.\<close>

lemma l_remove_found:
  "distinct (map fst ns) \<Longrightarrow> l_find ns d = Some a \<Longrightarrow>
   a \<in> fst ` set ns \<and> map snd (l_remove ns a) = remove1 d (map snd ns)"
proof (induction ns)
  case Nil
  then show ?case by (simp add: l_find_def)
next
  case (Cons n ns)
  show ?case
  proof (cases "snd n = d")
    case True
    then show ?thesis using Cons.prems by (auto simp: l_find_def l_remove_def)
  next
    case False
    then have "l_find ns d = Some a" using Cons.prems by (simp add: l_find_def)
    with Cons have IH: "a \<in> fst ` set ns" "map snd (l_remove ns a) = remove1 d (map snd ns)" by auto
    moreover have "fst n \<noteq> a" using IH(1) Cons.prems by auto
    ultimately show ?thesis using False by (simp add: l_remove_def)
  qed
qed

lemma l_find_None: "l_find ns d = None \<longleftrightarrow> d \<notin> set (map snd ns)"
  by (force simp: l_find_def find_None_iff)

subsection \<open>Properties\<close>

text \<open>
  Registering and deregistering a semaphore: on a well-formed selector list holding the
  semaphores \<open>xs\<close>, \<open>list_insert\<close> gives a well-formed list holding \<open>xs @ [d]\<close>, and
  \<open>list_remove(list, list_find(list, d))\<close>, the body of \<open>remove_select_sender\<close> and
  \<open>remove_select_receiver\<close>, always returns and gives one holding \<open>remove1 d xs\<close>, also when \<open>d\<close>
  does not occur.
\<close>

lemma selector_list_refines:
  assumes "list_rep h l ns" and "a \<notin> dom h"
  shows "(\<exists>h' l' ns'. list_insert h (Some l) d (Some a) = Some (h', Some l', Some a) \<and>
            list_rep h' l' ns' \<and> map snd ns' = map snd ns @ [d]) \<and>
         (\<exists>node h' l' ns'. list_find h (Some l) d = Some node \<and>
            list_remove h (Some l) node = Some (h', Some l') \<and>
            list_rep h' l' ns' \<and> map snd ns' = remove1 d (map snd ns))"
proof (intro conjI)
  show "\<exists>h' l' ns'. list_insert h (Some l) d (Some a) = Some (h', Some l', Some a) \<and>
            list_rep h' l' ns' \<and> map snd ns' = map snd ns @ [d]"
    using selector_insert_refines [OF assms, of d] by fastforce
  have find: "list_find h (Some l) d = Some (l_find ns d)"
    using assms(1) find_node_linked [of h None ns d] by (simp add: list_find_def list_rep_def)
  show "\<exists>node h' l' ns'. list_find h (Some l) d = Some node \<and>
            list_remove h (Some l) node = Some (h', Some l') \<and>
            list_rep h' l' ns' \<and> map snd ns' = remove1 d (map snd ns)"
  proof (cases "l_find ns d")
    case None
    then have "list_remove h (Some l) NULL = Some (h, Some l)" "remove1 d (map snd ns) = map snd ns"
      by (auto simp: list_remove_def l_find_None intro: remove1_idem)
    then show ?thesis using find None assms(1) by metis
  next
    case (Some b)
    have "distinct (map fst ns)" using assms(1) by (simp add: list_rep_def)
    then have "b \<in> fst ` set ns" "map snd (l_remove ns b) = remove1 d (map snd ns)"
      using l_remove_found Some by metis+
    then show ?thesis
      using find Some selector_remove_refines [OF assms(1), of b] by metis
  qed
qed

definition example_sems :: "nat heap" where
  "example_sems = [16 \<mapsto> \<lparr>node_next = Some 32, node_prev = NULL, node_data = 5\<rparr>,
                   32 \<mapsto> \<lparr>node_next = NULL, node_prev = Some 16, node_data = 6\<rparr>]"

definition example_selectors :: list_t where
  "example_selectors = \<lparr>head = Some 16, tail = Some 32, count = 2\<rparr>"

lemma selector_list_refines_example:
  "\<exists>node h' l' ns'. list_find example_sems (Some example_selectors) 5 = Some node \<and>
     list_remove example_sems (Some example_selectors) node = Some (h', Some l') \<and>
     list_rep h' l' ns' \<and> map snd ns' = [6]"
proof -
  have rep: "list_rep example_sems example_selectors [(16, 5), (32, 6)]"
    by (simp add: list_rep_def example_sems_def example_selectors_def)
  have new: "48 \<notin> dom example_sems" by (simp add: example_sems_def)
  show ?thesis using selector_list_refines [OF rep new, of 5] by simp
qed

end
