(* ===== verification/Sim_List.thy ===== *)
theory Sim_List
  imports Dll
begin

text \<open>
  The linked list of the simulator lab (\<open>linked_list.h\<close>, \<open>linked_list.c\<close>), the data
  structure under the event queue and the schedulers' job queues. The list is a heap of
  cells and a \<open>list_t\<close>; every operation is translated pointer by pointer. The abstract
  list is the list of (address, datum) pairs, and the refinement lemmas state each
  operation as an operation on that list; the event queue and the schedulers are
  modelled over it.

  \<open>malloc\<close> is a parameter of the operations that call it: the argument is the pointer it
  returns, \<open>NULL\<close> or the address of a cell that is not in use.
\<close>

subsection \<open>Data\<close>

type_synonym 'd compare_fn = "'d \<Rightarrow> 'd \<Rightarrow> int"

record 'd list_t =
  head :: ptr
  tail :: ptr
  count :: u64
  compare :: "'d compare_fn option"

subsection \<open>Operations\<close>

definition list_create :: "bool \<Rightarrow> 'd compare_fn option \<Rightarrow> 'd list_t option" where
  "list_create malloc_ok cmp =
     (if \<not> malloc_ok then None
      else Some \<lparr>head = NULL, tail = NULL, count = 0, compare = cmp\<rparr>)"

definition list_destroy :: "'d heap \<Rightarrow> 'd list_t option \<Rightarrow> 'd heap option" where
  "list_destroy h list = (case list of None \<Rightarrow> Some h | Some l \<Rightarrow> destroy_nodes h (head l))"

definition list_head :: "'d list_t option \<Rightarrow> ptr" where
  "list_head list = (case list of None \<Rightarrow> NULL | Some l \<Rightarrow> head l)"

definition list_tail :: "'d list_t option \<Rightarrow> ptr" where
  "list_tail list = (case list of None \<Rightarrow> NULL | Some l \<Rightarrow> tail l)"

definition list_next :: "'d heap \<Rightarrow> ptr \<Rightarrow> ptr option" where
  "list_next h node = (case node of None \<Rightarrow> Some NULL | Some a \<Rightarrow> map_option node_next (load h node))"

definition list_prev :: "'d heap \<Rightarrow> ptr \<Rightarrow> ptr option" where
  "list_prev h node = (case node of None \<Rightarrow> Some NULL | Some a \<Rightarrow> map_option node_prev (load h node))"

text \<open>The end marker the code returns is the last node, not \<open>NULL\<close>.\<close>

definition list_end :: "'d list_t option \<Rightarrow> ptr" where
  "list_end list = (case list of None \<Rightarrow> NULL | Some l \<Rightarrow> tail l)"

text \<open>\<open>list_data\<close> of a null node is a null datum, hence the inner option.\<close>

definition list_data :: "'d heap \<Rightarrow> ptr \<Rightarrow> 'd option option" where
  "list_data h node =
     (case node of None \<Rightarrow> Some None | Some a \<Rightarrow> map_option (\<lambda>n. Some (node_data n)) (load h node))"

definition list_count :: "'d list_t option \<Rightarrow> u64" where
  "list_count list = (case list of None \<Rightarrow> 0 | Some l \<Rightarrow> count l)"

definition list_find :: "'d heap \<Rightarrow> 'd list_t option \<Rightarrow> 'd \<Rightarrow> ptr option" where
  "list_find h list d = (case list of None \<Rightarrow> Some NULL | Some l \<Rightarrow> find_node h d (head l))"

text \<open>The scan of \<open>list_insert\<close>: the first node whose datum is not before the new one.\<close>

partial_function (option) scan_pos :: "'d heap \<Rightarrow> 'd compare_fn \<Rightarrow> 'd \<Rightarrow> ptr \<Rightarrow> ptr option" where
  [code]: "scan_pos h cmp d cur =
     (case cur of
        None \<Rightarrow> Some NULL
      | Some a \<Rightarrow> do {
          n \<leftarrow> load h cur;
          (if cmp (node_data n) d < 0 then scan_pos h cmp d (node_next n) else Some cur)
        })"

definition insert_at_head :: "'d heap \<Rightarrow> 'd list_t \<Rightarrow> ptr \<Rightarrow> ('d heap \<times> 'd list_t) option" where
  "insert_at_head h l new = do {
     h \<leftarrow> set_next h new (head l);
     (h, l) \<leftarrow> (if head l \<noteq> NULL
               then do { h \<leftarrow> set_prev h (head l) new; Some (h, l) }
               else Some (h, l\<lparr>tail := new\<rparr>));
     Some (h, l\<lparr>head := new\<rparr>)
   }"

definition append_at_tail :: "'d heap \<Rightarrow> 'd list_t \<Rightarrow> ptr \<Rightarrow> ('d heap \<times> 'd list_t) option" where
  "append_at_tail h l new = do {
     h \<leftarrow> set_prev h new (tail l);
     h \<leftarrow> set_next h (tail l) new;
     Some (h, l\<lparr>tail := new\<rparr>)
   }"

definition insert_before :: "'d heap \<Rightarrow> 'd list_t \<Rightarrow> ptr \<Rightarrow> ptr \<Rightarrow> ('d heap \<times> 'd list_t) option" where
  "insert_before h l new cur = do {
     h \<leftarrow> set_next h new cur;
     c \<leftarrow> load h cur;
     h \<leftarrow> set_prev h new (node_prev c);
     (h, l) \<leftarrow> (if node_prev c \<noteq> NULL
               then do { h \<leftarrow> set_next h (node_prev c) new; Some (h, l) }
               else Some (h, l\<lparr>head := new\<rparr>));
     h \<leftarrow> set_prev h cur new;
     Some (h, l)
   }"

definition list_insert ::
  "'d heap \<Rightarrow> 'd list_t option \<Rightarrow> 'd \<Rightarrow> ptr \<Rightarrow> ('d heap \<times> 'd list_t option \<times> ptr) option" where
  "list_insert h list d new =
     (case list of
        None \<Rightarrow> Some (h, None, NULL)
      | Some l \<Rightarrow>
         (case new of
            None \<Rightarrow> Some (h, list, NULL)
          | Some a \<Rightarrow> do {
              let h = h(a \<mapsto> \<lparr>node_next = NULL, node_prev = NULL, node_data = d\<rparr>);
              (h, l) \<leftarrow>
                (case compare l of
                   None \<Rightarrow> insert_at_head h l new
                 | Some cmp \<Rightarrow>
                     if head l = NULL then insert_at_head h l new
                     else do {
                       cur \<leftarrow> scan_pos h cmp d (head l);
                       (if cur = NULL then append_at_tail h l new
                        else insert_before h l new cur)
                     });
              Some (h, Some (l\<lparr>count := count l + 1\<rparr>), new)
            }))"

definition list_remove :: "'d heap \<Rightarrow> 'd list_t option \<Rightarrow> ptr \<Rightarrow> ('d heap \<times> 'd list_t option) option" where
  "list_remove h list node =
     (case list of
        None \<Rightarrow> Some (h, None)
      | Some l \<Rightarrow>
         if node = NULL then Some (h, list)
         else do {
           n \<leftarrow> load h node;
           let l = (if node = head l then l\<lparr>head := node_next n\<rparr> else l);
           let l = (if node = tail l then l\<lparr>tail := node_prev n\<rparr> else l);
           h \<leftarrow> bypass h node;
           let l = l\<lparr>count := count l - 1\<rparr>;
           h \<leftarrow> set_next h node NULL;
           h \<leftarrow> set_prev h node NULL;
           h \<leftarrow> free_node h node;
           Some (h, Some l)
         })"

subsection \<open>The abstract list\<close>

text \<open>The abstract counterparts: lists of (node, datum) pairs.\<close>

definition l_insert :: "'d compare_fn option \<Rightarrow> (nat \<times> 'd) list \<Rightarrow> nat \<Rightarrow> 'd \<Rightarrow> (nat \<times> 'd) list" where
  "l_insert cmp ns a d =
     (case cmp of
        None \<Rightarrow> (a, d) # ns
      | Some c \<Rightarrow> takeWhile (\<lambda>n. c (snd n) d < 0) ns @ (a, d) # dropWhile (\<lambda>n. c (snd n) d < 0) ns)"

definition l_count :: "(nat \<times> 'd) list \<Rightarrow> u64" where
  "l_count ns = of_nat (length ns)"

text \<open>The representation: the cells reachable from \<open>head\<close> carry the list, doubly linked.\<close>

definition list_rep :: "'d heap \<Rightarrow> 'd list_t \<Rightarrow> (nat \<times> 'd) list \<Rightarrow> bool" where
  "list_rep h l ns \<longleftrightarrow>
     linked h None ns None \<and> distinct (map fst ns) \<and>
     head l = first_of ns None \<and> tail l = last_of None ns \<and> count l = of_nat (length ns)"

lemma list_create_rep:
  "\<exists>l. list_create True cmp = Some l \<and> list_rep h l [] \<and> compare l = cmp"
  by (simp add: list_create_def list_rep_def)

subsection \<open>Refinement of the reading operations\<close>

lemma list_count_refines: "list_rep h l ns \<Longrightarrow> list_count (Some l) = l_count ns"
  by (simp add: list_rep_def list_count_def l_count_def)

lemma list_ends_refine:
  "list_rep h l ns \<Longrightarrow> list_head (Some l) = first_of ns None \<and> list_tail (Some l) = last_of None ns"
  by (simp add: list_rep_def list_head_def list_tail_def)

lemma list_data_refines:
  "list_rep h l ns \<Longrightarrow> (a, d) \<in> set ns \<Longrightarrow> list_data h (Some a) = Some (Some d)"
  by (auto simp: list_rep_def list_data_def dest!: split_list simp: linked_append)

lemma scan_pos_linked:
  "linked h pv ns None \<Longrightarrow>
   scan_pos h cmp d (first_of ns None) = Some (first_of (dropWhile (\<lambda>n. cmp (snd n) d < 0) ns) None)"
  by (induction h pv ns "None :: ptr" rule: linked.induct) (subst scan_pos.simps, simp)+

subsection \<open>Refinement of insertion\<close>

text \<open>
  Insertion touches the new cell \<open>a\<close> and cells of the list only; \<open>fresh_cell\<close> is the heap
  after the allocation and initialisation of the new node.
\<close>

abbreviation fresh_cell :: "'d heap \<Rightarrow> nat \<Rightarrow> 'd \<Rightarrow> 'd heap" where
  "fresh_cell h a d \<equiv> h(a \<mapsto> \<lparr>node_next = NULL, node_prev = NULL, node_data = d\<rparr>)"

definition inserted :: "'d heap \<Rightarrow> 'd list_t \<Rightarrow> (nat \<times> 'd) list \<Rightarrow> nat \<Rightarrow> (nat \<times> 'd) list
    \<Rightarrow> ('d heap \<times> 'd list_t) option \<Rightarrow> bool" where
  "inserted h l ns a ns' r \<longleftrightarrow>
     (\<exists>h' l'. r = Some (h', l') \<and> list_rep h' (l'\<lparr>count := count l' + 1\<rparr>) ns' \<and>
              compare l' = compare l \<and> frame h h' (insert a (fst ` set ns)))"

lemma fresh_not_in_list: "list_rep h l ns \<Longrightarrow> a \<notin> dom h \<Longrightarrow> a \<notin> fst ` set ns"
  using linked_dom by (fastforce simp: list_rep_def)

lemma insert_at_head_rep:
  assumes rep: "list_rep h l ns" and new: "a \<notin> dom h"
  shows "inserted h l ns a ((a, d) # ns) (insert_at_head (fresh_cell h a d) l (Some a))"
proof (cases ns)
  case Nil
  with rep show ?thesis
    by (simp add: inserted_def frame_def insert_at_head_def list_rep_def set_next_def)
next
  case (Cons n ns')
  obtain b y where n: "n = (b, y)" by (cases n)
  have a: "a \<notin> fst ` set ns" using rep new by (rule fresh_not_in_list)
  from rep Cons n have "h b = Some \<lparr>node_next = first_of ns' None, node_prev = None, node_data = y\<rparr>"
    "linked h (Some b) ns' None" "head l = Some b" "b \<notin> fst ` set ns'" "distinct (map fst ns')"
    by (auto simp: list_rep_def)
  then show ?thesis
    using rep a Cons n
    by (auto simp: inserted_def frame_def insert_at_head_def set_next_def set_prev_def list_rep_def)
qed

lemma append_at_tail_rep:
  assumes rep: "list_rep h l (ms @ [(b, y)])" and new: "a \<notin> dom h"
  shows "inserted h l (ms @ [(b, y)]) a (ms @ [(b, y), (a, d)])
           (append_at_tail (fresh_cell h a d) l (Some a))"
proof -
  have a: "a \<notin> fst ` set (ms @ [(b, y)])" using rep new by (rule fresh_not_in_list)
  from rep have "h b = Some \<lparr>node_next = None, node_prev = last_of None ms, node_data = y\<rparr>"
    "linked h None ms (Some b)" "tail l = Some b" "b \<notin> fst ` set ms" "distinct (map fst ms)"
    by (auto simp: list_rep_def linked_append)
  then show ?thesis
    using rep a
    by (auto simp: inserted_def frame_def append_at_tail_def set_next_def set_prev_def list_rep_def
        linked_append)
qed

lemma insert_before_rep:
  assumes rep: "list_rep h l (ms @ (b, y) # ns)" and new: "a \<notin> dom h"
  shows "inserted h l (ms @ (b, y) # ns) a (ms @ (a, d) # (b, y) # ns)
           (insert_before (fresh_cell h a d) l (Some a) (Some b))"
proof (cases ms rule: rev_cases)
  case Nil
  have a: "a \<notin> fst ` set ((b, y) # ns)" using fresh_not_in_list [OF rep new] Nil by simp
  show ?thesis
    using rep a Nil
    by (auto simp: inserted_def frame_def insert_before_def set_next_def set_prev_def list_rep_def)
next
  case (snoc ms' m)
  obtain c z where m: "m = (c, z)" by (cases m)
  have a: "a \<notin> fst ` set (ms @ (b, y) # ns)" using rep new by (rule fresh_not_in_list)
  show ?thesis
    using rep a snoc m
    by (auto simp: inserted_def frame_def insert_before_def set_next_def set_prev_def list_rep_def
        linked_append image_Un)
qed

text \<open>The position \<open>list_insert\<close> chooses is the one of the abstract insertion.\<close>

lemma list_insert_refines:
  assumes rep: "list_rep h l ns" and new: "a \<notin> dom h"
  shows "\<exists>h' l'. list_insert h (Some l) d (Some a) = Some (h', Some l', Some a) \<and>
            list_rep h' l' (l_insert (compare l) ns a d) \<and> compare l' = compare l \<and>
            frame h h' (insert a (fst ` set ns))"
proof -
  let ?h = "fresh_cell h a d"
  have hd: "head l = first_of ns None" using rep by (simp add: list_rep_def)
  have scan: "scan_pos ?h cmp d (head l) = Some (first_of (dropWhile (\<lambda>n. cmp (snd n) d < 0) ns) None)"
    for cmp
    unfolding hd using rep fresh_not_in_list [OF rep new]
    by (intro scan_pos_linked) (auto simp: list_rep_def)
  let ?place = "case compare l of None \<Rightarrow> insert_at_head ?h l (Some a)
     | Some cmp \<Rightarrow> if head l = NULL then insert_at_head ?h l (Some a)
         else do { cur \<leftarrow> scan_pos ?h cmp d (head l);
                   (if cur = NULL then append_at_tail ?h l (Some a) else insert_before ?h l (Some a) cur) }"
  have "inserted h l ns a (l_insert (compare l) ns a d) ?place"
  proof (cases "compare l")
    case None
    then show ?thesis using insert_at_head_rep [OF rep new] by (simp add: l_insert_def)
  next
    case (Some cmp)
    let ?before = "\<lambda>n. cmp (snd n) d < 0"
    show ?thesis
    proof (cases "ns = []")
      case True
      then show ?thesis using Some hd insert_at_head_rep [OF rep new] by (simp add: l_insert_def)
    next
      case False
      show ?thesis
      proof (cases "dropWhile ?before ns")
        case Nil
        then have "ns = takeWhile ?before ns" by (metis append_Nil2 takeWhile_dropWhile_id)
        moreover obtain ms b y where "ns = ms @ [(b, y)]" using False by (metis rev_exhaust prod.exhaust)
        ultimately show ?thesis
          using Some Nil hd scan False append_at_tail_rep [of h l ms b y a d] rep new
          by (auto simp: l_insert_def first_of_def split: list.splits)
      next
        case (Cons n ms)
        obtain b y where n: "n = (b, y)" by (cases n)
        have "ns = takeWhile ?before ns @ (b, y) # ms" using Cons n by (metis takeWhile_dropWhile_id)
        then show ?thesis
          using Some Cons n hd scan False insert_before_rep [of h l "takeWhile ?before ns" b y ms a d] rep new
          by (auto simp: l_insert_def first_of_def split: list.splits)
      qed
    qed
  qed
  then show ?thesis
    by (auto simp: inserted_def list_insert_def)
qed

subsection \<open>Refinement of removal and destruction\<close>

lemma list_remove_refines:
  assumes rep: "list_rep h l ns" and node: "a \<in> fst ` set ns"
  shows "\<exists>h' l'. list_remove h (Some l) (Some a) = Some (h', Some l') \<and>
            list_rep h' l' (l_remove ns a) \<and> compare l' = compare l \<and>
            frame h h' (fst ` set ns) \<and> h' a = None"
proof -
  obtain as x bs where ns: "ns = as @ (a, x) # bs"
    using node by (metis imageE prod.collapse split_list)
  have lk: "linked h None (as @ (a, x) # bs) None" and dist: "distinct (map fst (as @ (a, x) # bs))"
    using rep ns by (auto simp: list_rep_def)
  obtain h' where h': "bypass h (Some a) = Some h'" "linked h' None (as @ bs) None" "h' a = h a"
    "\<forall>b. b \<notin> fst ` set (as @ bs) \<longrightarrow> h' b = h b"
    using bypass_linked [OF lk dist] by blast
  have ha: "h a = Some \<lparr>node_next = first_of bs None, node_prev = last_of None as, node_data = x\<rparr>"
    using lk by (simp add: linked_append)
  have notin: "a \<notin> fst ` set (as @ bs)" using dist by auto
  have hd: "head l = Some a \<longleftrightarrow> as = []" "as \<noteq> [] \<Longrightarrow> head l = first_of as None"
    using rep ns notin by (cases as; force simp: list_rep_def)+
  have tl: "tail l = Some a \<longleftrightarrow> bs = []" "bs \<noteq> [] \<Longrightarrow> tail l = last_of None bs"
    using rep ns notin by (cases bs rule: rev_cases; force simp: list_rep_def)+
  let ?l1 = "if Some a = head l then l\<lparr>head := first_of bs None\<rparr> else l"
  let ?l2 = "if Some a = tail ?l1 then ?l1\<lparr>tail := last_of None as\<rparr> else ?l1"
  let ?l3 = "?l2\<lparr>count := count ?l2 - 1\<rparr>"
  have rem: "list_remove h (Some l) (Some a) = Some (h'(a := None), Some ?l3)"
    using ha h' by (simp add: list_remove_def Let_def set_next_def set_prev_def free_node_def)
  have "list_rep (h'(a := None)) ?l3 (as @ bs)"
    using rep ns h' notin dist hd tl
    by (cases as; cases bs rule: rev_cases) (auto simp: list_rep_def)
  moreover have "frame h (h'(a := None)) (fst ` set ns)"
    using h' ns by (auto simp: frame_def)
  ultimately show ?thesis
    using rem ns dist l_remove_append [of as a x bs] by auto
qed

subsection \<open>Comparators\<close>

text \<open>
  What a client must supply for the list to be kept in order: a comparison that is total
  and transitive. The lemma proved here once is that insertion keeps a sorted list
  sorted; the simulator interprets the locale with \<open>simulatorEventCompare\<close>.
\<close>

definition ordered :: "'d compare_fn \<Rightarrow> (nat \<times> 'd) list \<Rightarrow> bool" where
  "ordered cmp ns \<longleftrightarrow> sorted_wrt (\<lambda>m n. cmp (snd m) (snd n) \<le> 0) ns"

locale comparator =
  fixes cmp :: "'d compare_fn"
  assumes total: "\<not> cmp x y < 0 \<Longrightarrow> cmp y x \<le> 0"
    and trans: "cmp x y \<le> 0 \<Longrightarrow> cmp y z \<le> 0 \<Longrightarrow> cmp x z \<le> 0"
    and asym: "cmp x y < 0 \<Longrightarrow> \<not> cmp y x \<le> 0"
begin

lemma ordered_insert: "ordered cmp ns \<Longrightarrow> ordered cmp (l_insert (Some cmp) ns a d)"
proof (induction ns)
  case Nil
  then show ?case by (simp add: ordered_def l_insert_def)
next
  case (Cons n ns)
  show ?case
  proof (cases "cmp (snd n) d < 0")
    case True
    have "m \<in> set (l_insert (Some cmp) ns a d) \<Longrightarrow> m = (a, d) \<or> m \<in> set ns" for m
      by (auto simp: l_insert_def dest: set_takeWhileD set_dropWhileD)
    then show ?thesis
      using Cons True by (force simp: ordered_def l_insert_def)
  next
    case False
    then have "cmp d (snd n) \<le> 0" by (rule total)
    then show ?thesis
      using Cons False trans [of d "snd n"] by (auto simp: ordered_def l_insert_def)
  qed
qed

text \<open>On an ordered list the scan splits the list by the comparison with the new datum.\<close>

lemma takeWhile_ordered:
  "ordered cmp ns \<Longrightarrow>
   takeWhile (\<lambda>n. cmp (snd n) d < 0) ns = filter (\<lambda>n. cmp (snd n) d < 0) ns \<and>
   dropWhile (\<lambda>n. cmp (snd n) d < 0) ns = filter (\<lambda>n. \<not> cmp (snd n) d < 0) ns"
proof (induction ns)
  case (Cons n ns)
  show ?case
  proof (cases "cmp (snd n) d < 0")
    case False
    have "\<not> cmp (snd m) d < 0" if "m \<in> set ns" for m
      using that False Cons.prems total [of "snd n" d] trans [of d "snd n" "snd m"] asym
      by (auto simp: ordered_def)
    then show ?thesis using False by simp
  qed (use Cons in \<open>simp add: ordered_def\<close>)
qed simp

lemma insert_filter:
  "ordered cmp ns \<Longrightarrow> l_insert (Some cmp) ns a d =
     filter (\<lambda>n. cmp (snd n) d < 0) ns @ (a, d) # filter (\<lambda>n. \<not> cmp (snd n) d < 0) ns"
  using takeWhile_ordered by (simp add: l_insert_def)

lemma remove_insert_commute:
  assumes "ordered cmp ns" "a \<noteq> b"
  shows "l_remove (l_insert (Some cmp) ns a d) b = l_insert (Some cmp) (l_remove ns b) a d"
proof -
  have "ordered cmp (l_remove ns b)"
    using assms(1) unfolding ordered_def l_remove_def by (rule sorted_wrt_filter)
  then show ?thesis
    using assms by (simp add: insert_filter) (simp add: l_remove_def conj_commute)
qed

lemma ordered_remove: "ordered cmp ns \<Longrightarrow> ordered cmp (l_remove ns a)"
  unfolding ordered_def l_remove_def by (rule sorted_wrt_filter)

end

lemma mset_l_insert: "mset (l_insert cmp ns a d) = add_mset (a, d) (mset ns)"
  by (cases cmp) (simp_all add: l_insert_def mset_takeWhile_dropWhile)

lemma l_remove_insert:
  assumes "a \<notin> fst ` set ns"
  shows "l_remove (l_insert cmp ns a d) a = ns"
proof (cases cmp)
  case (Some c)
  have "a \<notin> fst ` set (takeWhile (\<lambda>n. c (snd n) d < 0) ns)"
    "a \<notin> fst ` set (dropWhile (\<lambda>n. c (snd n) d < 0) ns)"
    using assms by (auto dest: set_takeWhileD set_dropWhileD)
  then show ?thesis using Some by (simp add: l_insert_def l_remove_def)
qed (use assms in \<open>simp add: l_insert_def l_remove_def\<close>)

subsection \<open>Properties\<close>

text \<open>
  C30. \<open>list_insert\<close> with a total, transitive comparator, on a well-formed doubly linked list
  whose data are in order, allocates one node, leaves a well-formed list whose data are
  in order again, and that list holds exactly the old nodes and the new one; cells of
  other lists in the same heap are untouched.
\<close>

theorem list_insert_keeps_order:
  assumes "comparator cmp" and "list_rep h l ns" and "compare l = Some cmp"
    and "ordered cmp ns" and "a \<notin> dom h"
  shows "\<exists>h' l' ns'. list_insert h (Some l) d (Some a) = Some (h', Some l', Some a) \<and>
           list_rep h' l' ns' \<and> ordered cmp ns' \<and> mset ns' = add_mset (a, d) (mset ns) \<and>
           compare l' = Some cmp \<and> frame h h' (insert a (fst ` set ns))"
  using list_insert_refines [OF assms(2,5), of d] assms(3)
    comparator.ordered_insert [OF assms(1,4), of a d] mset_l_insert [of "Some cmp" ns a d]
  by metis

definition example_cmp :: "int compare_fn" where
  "example_cmp x y = x - y"

definition example_list :: "int list_t" where
  "example_list = \<lparr>head = NULL, tail = NULL, count = 0, compare = Some example_cmp\<rparr>"

theorem list_insert_keeps_order_witness:
  "\<exists>h' l' ns'. list_insert Map.empty (Some example_list) 7 (Some 16) = Some (h', Some l', Some 16) \<and>
     list_rep h' l' ns' \<and> mset ns' = {#(16, 7)#}"
proof -
  have 1: "comparator example_cmp" by unfold_locales (auto simp: example_cmp_def)
  have 2: "list_rep Map.empty example_list []" by (simp add: list_rep_def example_list_def)
  have 3: "compare example_list = Some example_cmp" by (simp add: example_list_def)
  have 4: "ordered example_cmp []" by (simp add: ordered_def)
  show ?thesis using list_insert_keeps_order [OF 1 2 3 4, of 16 7] by auto
qed

text \<open>
  C31. Insertion followed by removal of the node it returned is the identity: the list
  represents the same nodes and data again, the new cell is freed, and no cell outside
  the list was changed, whatever comparator the list uses.
\<close>

theorem list_remove_undoes_insert:
  assumes "list_rep h l ns" and "a \<notin> dom h"
  shows "\<exists>h1 l1 h2 l2. list_insert h (Some l) d (Some a) = Some (h1, Some l1, Some a) \<and>
           list_remove h1 (Some l1) (Some a) = Some (h2, Some l2) \<and>
           list_rep h2 l2 ns \<and> h2 a = None \<and> frame h h2 (fst ` set ns)"
proof -
  let ?ms = "l_insert (compare l) ns a d"
  obtain h1 l1 where ins: "list_insert h (Some l) d (Some a) = Some (h1, Some l1, Some a)"
    "list_rep h1 l1 ?ms" "frame h h1 (insert a (fst ` set ns))"
    using list_insert_refines [OF assms, of d] by blast
  have keys: "fst ` set ?ms = insert a (fst ` set ns)"
    using mset_l_insert [of "compare l" ns a d] by (metis fst_conv image_insert set_mset_add_mset_insert set_mset_mset)
  obtain h2 l2 where rem: "list_remove h1 (Some l1) (Some a) = Some (h2, Some l2)"
    "list_rep h2 l2 (l_remove ?ms a)" "frame h1 h2 (fst ` set ?ms)" "h2 a = None"
    using list_remove_refines [OF ins(2), of a] keys by blast
  have "l_remove ?ms a = ns"
    using assms by (intro l_remove_insert fresh_not_in_list)
  moreover have "frame h h2 (fst ` set ns)"
    using ins(3) rem(3,4) keys assms(2) unfolding frame_def domIff by (metis insert_iff)
  ultimately show ?thesis using ins rem by metis
qed

theorem list_remove_undoes_insert_witness:
  "\<exists>h1 l1 h2 l2. list_insert Map.empty (Some example_list) 7 (Some 16) = Some (h1, Some l1, Some 16) \<and>
     list_remove h1 (Some l1) (Some 16) = Some (h2, Some l2) \<and> list_rep h2 l2 []"
proof -
  have rep: "list_rep Map.empty example_list []" by (simp add: list_rep_def example_list_def)
  show ?thesis using list_remove_undoes_insert [OF rep, of 16 7] by auto
qed

text \<open>
  \<open>list_find\<close> ends on every well-formed list, returns the first node holding the datum
  (\<open>NULL\<close> exactly when no node does), and \<open>list_destroy\<close> frees every node of the list, no
  other cell, and no cell twice.
\<close>

lemma list_find_and_destroy:
  assumes "list_rep h l ns"
  shows "list_find h (Some l) d = Some (map_option fst (List.find (\<lambda>n. snd n = d) ns)) \<and>
         list_destroy h (Some l) = Some (h |` (- fst ` set ns))"
proof -
  have lk: "linked h None ns None" and dist: "distinct (map fst ns)" and hd: "head l = first_of ns None"
    using assms by (simp_all add: list_rep_def)
  show ?thesis
    using find_node_linked [OF lk, of d] destroy_nodes_linked [OF lk dist]
    by (simp add: list_find_def list_destroy_def hd l_find_def)
qed

definition example_heap :: "int heap" where
  "example_heap = [16 \<mapsto> \<lparr>node_next = Some 32, node_prev = NULL, node_data = 7\<rparr>,
                   32 \<mapsto> \<lparr>node_next = NULL, node_prev = Some 16, node_data = 9\<rparr>]"

definition example_list2 :: "int list_t" where
  "example_list2 = \<lparr>head = Some 16, tail = Some 32, count = 2, compare = Some example_cmp\<rparr>"

lemma list_find_and_destroy_example:
  "list_rep example_heap example_list2 [(16, 7), (32, 9)] \<and>
   list_find example_heap (Some example_list2) 9 = Some (Some 32) \<and>
   list_find example_heap (Some example_list2) 8 = Some NULL"
proof -
  have rep: "list_rep example_heap example_list2 [(16, 7), (32, 9)]"
    by (simp add: list_rep_def example_heap_def example_list2_def)
  show ?thesis
    using rep list_find_and_destroy [OF rep, of 9] list_find_and_destroy [OF rep, of 8] by simp
qed

end
