(* ===== verification/Simulator.thy ===== *)
theory Simulator
  imports Sim_List
begin

text \<open>
  The discrete event simulator (\<open>simulator.h\<close>, \<open>simulator.c\<close>): a queue of events sorted by
  (time, type, id), the simulated clock, and the main loop that pops the earliest event
  and invokes its callback.

  The simulator is an extensible record, so that a callback, which in the C code reaches
  the simulator, the scheduler and the trace through its data pointer, is a function on
  any extension of it. The queue is the abstract list of \<open>Sim_List\<close>: nodes with their
  events, inserted by \<open>l_insert\<close> with the event comparator and removed by \<open>l_remove\<close>, which
  the pointer-level list refines. An event is identified by the address of its node.
  The \<open>k\<close>-th call of \<open>malloc\<close> returns the address \<open>k\<close>, or fails, as the field
  \<open>malloc_ok\<close> decides. \<open>None\<close> is a failed \<open>assert\<close> or undefined behaviour.
\<close>

subsection \<open>Data\<close>

datatype event_type_t = EVENT_COMPLETION | EVENT_ARRIVAL

text \<open>The enumeration is ordered by the values C gives its constants: completions first.\<close>

instantiation event_type_t :: linorder
begin

definition less_eq_event_type_t :: "event_type_t \<Rightarrow> event_type_t \<Rightarrow> bool" where
  "x \<le> y \<longleftrightarrow> x = EVENT_COMPLETION \<or> y = EVENT_ARRIVAL"

definition less_event_type_t :: "event_type_t \<Rightarrow> event_type_t \<Rightarrow> bool" where
  "x < y \<longleftrightarrow> x = EVENT_COMPLETION \<and> y = EVENT_ARRIVAL"

instance
proof
  fix x y z :: event_type_t
  note defs = less_eq_event_type_t_def less_event_type_t_def
  show "x < y \<longleftrightarrow> x \<le> y \<and> \<not> y \<le> x" by (cases x; cases y) (simp_all add: defs)
  show "x \<le> x" by (cases x) (simp_all add: defs)
  show "x \<le> z" if "x \<le> y" "y \<le> z" using that by (cases x; cases y; cases z) (simp_all add: defs)
  show "x = y" if "x \<le> y" "y \<le> x" using that by (cases x; cases y) (simp_all add: defs)
  show "x \<le> y \<or> y \<le> x" by (cases x; cases y) (simp_all add: defs)
qed

end

record 'c event_t =
  timestamp :: u64
  etype :: event_type_t
  eid :: u64
  callback :: 'c

record 'c simulator_t =
  queue :: "(nat \<times> 'c event_t) list"
  simTime :: u64
  sim_id :: u64
  malloc_ctr :: nat
  malloc_ok :: "nat \<Rightarrow> bool"

definition malloc :: "('c, 'z) simulator_t_scheme \<Rightarrow> ptr \<times> ('c, 'z) simulator_t_scheme" where
  "malloc s = (if malloc_ok s (malloc_ctr s) then Some (malloc_ctr s) else NULL,
               s\<lparr>malloc_ctr := Suc (malloc_ctr s)\<rparr>)"

subsection \<open>Operations\<close>

definition simulatorSimTime :: "('c, 'z) simulator_t_scheme \<Rightarrow> u64" where
  "simulatorSimTime s = simTime s"

definition simulatorEventCompare :: "'c event_t compare_fn" where
  "simulatorEventCompare event1 event2 =
     (if timestamp event1 < timestamp event2 then -1
      else if timestamp event1 = timestamp event2 then
        (if etype event1 < etype event2 then -1
         else if etype event1 = etype event2 then
           (if eid event1 < eid event2 then -1
            else if eid event1 = eid event2 then 0
            else 1)
         else 1)
      else 1)"

text \<open>\<open>simulatorCreate\<close> allocates the simulator and its queue; the clock starts at 0.\<close>

definition simulatorCreate :: "nat \<Rightarrow> (nat \<Rightarrow> bool) \<Rightarrow> 'c simulator_t option" where
  "simulatorCreate ctr ok =
     (if \<not> ok ctr then None
      else if \<not> ok (Suc ctr) then None
      else Some \<lparr>queue = [], simTime = 0, sim_id = 0, malloc_ctr = ctr + 2, malloc_ok = ok\<rparr>)"

definition simulatorSchedule ::
  "('c, 'z) simulator_t_scheme \<Rightarrow> u64 \<Rightarrow> event_type_t \<Rightarrow> 'c \<Rightarrow> (ptr \<times> ('c, 'z) simulator_t_scheme) option" where
  "simulatorSchedule s ts ty cb =
     (if \<not> ts \<ge> simulatorSimTime s then None
      else
        let (ev, s) = malloc s in
        if ev = NULL then Some (NULL, s)
        else
          let event = \<lparr>timestamp = ts, etype = ty, eid = sim_id s, callback = cb\<rparr>;
              s = s\<lparr>sim_id := sim_id s + 1\<rparr>;
              (node, s) = malloc s
          in case node of
               None \<Rightarrow> Some (NULL, s)
             | Some a \<Rightarrow> Some (node, s\<lparr>queue := l_insert (Some simulatorEventCompare) (queue s) a event\<rparr>))"

text \<open>
  Removing an event frees it and unlinks its node; on a node that is not in the queue
  (freed before) this is undefined.
\<close>

definition simulatorRemoveEvent ::
  "('c, 'z) simulator_t_scheme \<Rightarrow> ptr \<Rightarrow> ('c, 'z) simulator_t_scheme option" where
  "simulatorRemoveEvent s ref =
     (case ref of
        None \<Rightarrow> Some s
      | Some a \<Rightarrow> if a \<in> fst ` set (queue s) then Some (s\<lparr>queue := l_remove (queue s) a\<rparr>) else None)"

partial_function (option) simulatorDestroy :: "('c, 'z) simulator_t_scheme \<Rightarrow> ('c, 'z) simulator_t_scheme option" where
  [code]: "simulatorDestroy s =
     (if l_count (queue s) > 0
      then do { s \<leftarrow> simulatorRemoveEvent s (first_of (queue s) NULL); simulatorDestroy s }
      else Some s)"

text \<open>
  The main loop. The current event stays in the queue while its callback runs and is
  removed afterwards; if the callback removed it already, the removal is a use after
  free.
\<close>

partial_function (option) simulatorRun ::
  "('c \<Rightarrow> ('c, 'z) simulator_t_scheme \<Rightarrow> ('c, 'z) simulator_t_scheme option)
    \<Rightarrow> ('c, 'z) simulator_t_scheme \<Rightarrow> ('c, 'z) simulator_t_scheme option" where
  [code]: "simulatorRun invoke s =
     (if l_count (queue s) > 0
      then (case queue s of
              [] \<Rightarrow> None
            | (node, event) # _ \<Rightarrow> do {
                s \<leftarrow> invoke (callback event) (s\<lparr>simTime := timestamp event\<rparr>);
                s \<leftarrow> simulatorRemoveEvent s (Some node);
                simulatorRun invoke s
              })
      else Some s)"

subsection \<open>The event order\<close>

text \<open>The comparator orders events by the lexicographic order on (time, type, id).\<close>

definition event_key :: "'c event_t \<Rightarrow> u64 \<times> event_type_t \<times> u64" where
  "event_key e = (timestamp e, etype e, eid e)"

definition key_less :: "u64 \<times> event_type_t \<times> u64 \<Rightarrow> u64 \<times> event_type_t \<times> u64 \<Rightarrow> bool" where
  "key_less k k' \<longleftrightarrow>
     fst k < fst k' \<or> fst k = fst k' \<and>
       (fst (snd k) < fst (snd k') \<or> fst (snd k) = fst (snd k') \<and> snd (snd k) < snd (snd k'))"

lemma simulatorEventCompare_less:
  "simulatorEventCompare e1 e2 < 0 \<longleftrightarrow> key_less (event_key e1) (event_key e2)"
  by (auto simp: simulatorEventCompare_def key_less_def event_key_def)

lemma simulatorEventCompare_le:
  "simulatorEventCompare e1 e2 \<le> 0 \<longleftrightarrow> \<not> key_less (event_key e2) (event_key e1)"
  by (auto simp: simulatorEventCompare_def key_less_def event_key_def)

lemma key_less_trans_le:
  "\<not> key_less y x \<Longrightarrow> \<not> key_less z y \<Longrightarrow> \<not> key_less z x"
  by (auto simp: key_less_def)

interpretation events: comparator simulatorEventCompare
proof
  fix x y z :: "'a event_t"
  show "simulatorEventCompare y x \<le> 0" if "\<not> simulatorEventCompare x y < 0"
    using that by (simp add: simulatorEventCompare_less simulatorEventCompare_le)
  show "simulatorEventCompare x z \<le> 0" if "simulatorEventCompare x y \<le> 0" "simulatorEventCompare y z \<le> 0"
    using that key_less_trans_le unfolding simulatorEventCompare_le by metis
  show "\<not> simulatorEventCompare y x \<le> 0" if "simulatorEventCompare x y < 0"
    using that by (simp add: simulatorEventCompare_less simulatorEventCompare_le)
qed

subsection \<open>Scheduling and removing events\<close>

abbreviation event_ordered :: "(nat \<times> 'c event_t) list \<Rightarrow> bool" where
  "event_ordered \<equiv> ordered simulatorEventCompare"

abbreviation event_insert :: "(nat \<times> 'c event_t) list \<Rightarrow> nat \<Rightarrow> 'c event_t \<Rightarrow> (nat \<times> 'c event_t) list" where
  "event_insert \<equiv> l_insert (Some simulatorEventCompare)"

text \<open>A queue the simulator maintains: in order, its nodes distinct and allocated.\<close>

definition sim_inv :: "('c, 'z) simulator_t_scheme \<Rightarrow> bool" where
  "sim_inv s \<longleftrightarrow> event_ordered (queue s) \<and> distinct (map fst (queue s)) \<and>
     (\<forall>a \<in> fst ` set (queue s). a < malloc_ctr s)"

lemma set_l_insert: "set (l_insert cmp ns a d) = insert (a, d) (set ns)"
  by (metis mset_l_insert set_mset_add_mset_insert set_mset_mset)

lemma distinct_l_insert:
  "distinct (map fst ns) \<Longrightarrow> a \<notin> fst ` set ns \<Longrightarrow> distinct (map fst (l_insert cmp ns a d))"
  by (metis mset_l_insert mset_map mset_eq_imp_distinct_iff image_mset_add_mset fst_conv
      distinct.simps(2) list.simps(9) list.set_map mset.simps(2))

lemma simulatorSchedule_ok:
  assumes "ts \<ge> simTime s" "\<And>n. malloc_ok s n"
  shows "simulatorSchedule s ts ty cb =
     Some (Some (Suc (malloc_ctr s)),
           s\<lparr>sim_id := sim_id s + 1, malloc_ctr := Suc (Suc (malloc_ctr s)),
             queue := event_insert (queue s) (Suc (malloc_ctr s))
                        \<lparr>timestamp = ts, etype = ty, eid = sim_id s, callback = cb\<rparr>\<rparr>)"
  using assms by (simp add: simulatorSchedule_def malloc_def simulatorSimTime_def)

end
