(* ===== verification/Job.thy ===== *)
theory Job
  imports Prelude
begin

text \<open>
  The jobs of the scheduling simulator (\<open>job.h\<close>). Jobs are heap objects shared by the
  trace reader, the event callbacks and the schedulers' queues, so they live in a store
  from addresses to records; reading through a pointer that is \<open>NULL\<close> or freed is undefined
  (\<open>None\<close>).
\<close>

record job_t =
  arrivalTime :: u64
  jobTime :: u64
  remainingTime :: u64
  jobId :: u64

type_synonym job_store = "nat \<rightharpoonup> job_t"

definition job_at :: "job_store \<Rightarrow> ptr \<Rightarrow> job_t option" where
  "job_at js p = (case p of None \<Rightarrow> None | Some a \<Rightarrow> js a)"

definition jobCreate :: "job_store \<Rightarrow> ptr \<Rightarrow> u64 \<Rightarrow> u64 \<Rightarrow> u64 \<Rightarrow> ptr \<times> job_store" where
  "jobCreate js new arrival time jid =
     (case new of
        None \<Rightarrow> (NULL, js)
      | Some a \<Rightarrow> (new, js(a \<mapsto> \<lparr>arrivalTime = arrival, jobTime = time, remainingTime = time, jobId = jid\<rparr>)))"

definition jobDestroy :: "job_store \<Rightarrow> ptr \<Rightarrow> job_store option" where
  "jobDestroy js p =
     (case p of None \<Rightarrow> Some js
      | Some a \<Rightarrow> (case js a of None \<Rightarrow> None | Some _ \<Rightarrow> Some (js(a := None))))"

definition jobGetArrivalTime :: "job_store \<Rightarrow> ptr \<Rightarrow> u64 option" where
  "jobGetArrivalTime js p = map_option arrivalTime (job_at js p)"

definition jobGetJobTime :: "job_store \<Rightarrow> ptr \<Rightarrow> u64 option" where
  "jobGetJobTime js p = map_option jobTime (job_at js p)"

definition jobGetRemainingTime :: "job_store \<Rightarrow> ptr \<Rightarrow> u64 option" where
  "jobGetRemainingTime js p = map_option remainingTime (job_at js p)"

definition jobSetRemainingTime :: "job_store \<Rightarrow> ptr \<Rightarrow> u64 \<Rightarrow> job_store option" where
  "jobSetRemainingTime js p r =
     (case p of None \<Rightarrow> None
      | Some a \<Rightarrow> (case js a of None \<Rightarrow> None | Some j \<Rightarrow> Some (js(a \<mapsto> j\<lparr>remainingTime := r\<rparr>))))"

definition jobGetCompletedTime :: "job_store \<Rightarrow> ptr \<Rightarrow> u64 option" where
  "jobGetCompletedTime js p = map_option (\<lambda>j. jobTime j - remainingTime j) (job_at js p)"

definition jobGetId :: "job_store \<Rightarrow> ptr \<Rightarrow> u64 option" where
  "jobGetId js p = map_option jobId (job_at js p)"

lemma job_at_Some [simp]: "job_at js (Some a) = js a"
  by (simp add: job_at_def)

lemmas job_gets [simp] = jobGetArrivalTime_def jobGetJobTime_def jobGetRemainingTime_def
  jobGetCompletedTime_def jobGetId_def

end
