(* ===== verification/Scheduler.thy ===== *)
theory Scheduler
  imports Simulator Job
begin

text \<open>
  The scheduler framework (\<open>scheduler.h\<close>, \<open>scheduler.c\<close>) and the four policies
  (\<open>schedulerFCFS.c\<close>, \<open>schedulerLCFS.c\<close>, \<open>schedulerSJF.c\<close>, \<open>schedulerMLFQ.c\<close>).

  The world is the simulator extended with the scheduler's state and the trace's state.
  The four function pointers of \<open>scheduler_t\<close> and its \<open>void* schedulerInfo\<close> are one
  datatype \<open>scheduler_info\<close>, whose constructor says which policy was selected and carries
  the policy's struct. A job queue is the abstract list of \<open>Sim_List\<close> over job addresses
  (for MLFQ, over the addresses of the wrapper structs \<open>mlfq_job_t\<close>).
\<close>

subsection \<open>The scheduler's and the trace's state\<close>

datatype callback_fn = TraceArrivalCallback | SchedulerCompleteJob

record mlfq_job_t =
  mjob :: ptr
  mlevel :: int

record scheduler_FCFS_t =
  fcfs_jobQueue :: "(nat \<times> ptr) list"

record scheduler_LCFS_t =
  lcfs_jobQueue :: "(nat \<times> ptr) list"
  lcfs_currentJob :: ptr

record scheduler_SJF_t =
  sjf_jobQueue :: "(nat \<times> ptr) list"
  sjf_currentJob :: ptr

record scheduler_MLFQ_t =
  mlfq_queues :: "(nat \<times> ptr) list option list"
  mlfq_running :: ptr
  mlfq_last_time :: u64
  mlfq_wrappers :: "nat \<rightharpoonup> mlfq_job_t"

datatype scheduler_info =
    FCFS scheduler_FCFS_t | LCFS scheduler_LCFS_t | SJF scheduler_SJF_t | MLFQ scheduler_MLFQ_t

record world = "callback_fn simulator_t" +
  completionEvent :: ptr
  schedulerInfo :: scheduler_info
  jobs :: job_store
  traceFile :: "(u64 \<times> u64 \<times> u64) option list"
  currentJob :: ptr
  outFile :: "(u64 \<times> u64) list"

text \<open>
  \<open>traceFile\<close> is what is left to read: a triple (id, arrival time, job time), or \<open>None\<close> for
  input that \<open>fscanf\<close> does not convert; \<open>outFile\<close> is what was written, oldest line first.
\<close>

abbreviation UINT64_MAX :: u64 where
  "UINT64_MAX \<equiv> - 1"

subsection \<open>The completion event\<close>

definition schedulerScheduleNextCompletion :: "world \<Rightarrow> u64 \<Rightarrow> (bool \<times> world) option" where
  "schedulerScheduleNextCompletion w ts =
     (if completionEvent w \<noteq> NULL then Some (False, w)
      else do {
        (ev, w) \<leftarrow> simulatorSchedule w ts EVENT_COMPLETION SchedulerCompleteJob;
        let w = w\<lparr>completionEvent := ev\<rparr>;
        (if ev = NULL then Some (False, w) else Some (True, w))
      })"

definition schedulerCancelNextCompletion :: "world \<Rightarrow> (bool \<times> world) option" where
  "schedulerCancelNextCompletion w =
     (if completionEvent w = NULL then Some (False, w)
      else do {
        w \<leftarrow> simulatorRemoveEvent w (completionEvent w);
        Some (True, w\<lparr>completionEvent := NULL\<rparr>)
      })"

text \<open>
  \<open>list_insert\<close> on a job queue with no comparator: a node is allocated and put at the
  head; when the allocation fails the queue is unchanged and the caller does not notice.
\<close>

definition queue_insert :: "'d compare_fn option \<Rightarrow> (nat \<times> 'd) list \<Rightarrow> 'd \<Rightarrow> world \<Rightarrow> (nat \<times> 'd) list \<times> world" where
  "queue_insert cmp q d w =
     (let (node, w) = malloc w in
      case node of None \<Rightarrow> (q, w) | Some a \<Rightarrow> (l_insert cmp q a d, w))"

subsection \<open>First come, first served\<close>

definition schedulerFCFSCreate :: "world \<Rightarrow> scheduler_FCFS_t option \<times> world" where
  "schedulerFCFSCreate w =
     (let (info, w) = malloc w in
      if info = NULL then (None, w)
      else let (l, w) = malloc w in
        if l = NULL then (None, w) else (Some \<lparr>fcfs_jobQueue = []\<rparr>, w))"

text \<open>The destroy functions free the nodes of the queue: the result lists their addresses.\<close>

definition schedulerFCFSDestroy :: "scheduler_FCFS_t option \<Rightarrow> nat list" where
  "schedulerFCFSDestroy info = (case info of None \<Rightarrow> [] | Some i \<Rightarrow> map fst (fcfs_jobQueue i))"

definition schedulerFCFSScheduleJob :: "scheduler_FCFS_t \<Rightarrow> world \<Rightarrow> ptr \<Rightarrow> u64 \<Rightarrow> world option" where
  "schedulerFCFSScheduleJob info w job now = do {
     let (q, w) = queue_insert None (fcfs_jobQueue info) job w;
     let w = w\<lparr>schedulerInfo := FCFS (info\<lparr>fcfs_jobQueue := q\<rparr>)\<rparr>;
     (if l_count q = 1
      then do {
        t \<leftarrow> jobGetJobTime (jobs w) job;
        (_, w) \<leftarrow> schedulerScheduleNextCompletion w (now + t);
        Some w
      }
      else Some w)
   }"

definition schedulerFCFSCompleteJob :: "scheduler_FCFS_t \<Rightarrow> world \<Rightarrow> u64 \<Rightarrow> (ptr \<times> world) option" where
  "schedulerFCFSCompleteJob info w now =
     (if l_count (fcfs_jobQueue info) = 0 then Some (NULL, w)
      else case fcfs_jobQueue info of
        [] \<Rightarrow> None
      | _ # _ \<Rightarrow> do {
          let (node, finishedJob) = last (fcfs_jobQueue info);
          let q = l_remove (fcfs_jobQueue info) node;
          let w = w\<lparr>schedulerInfo := FCFS (info\<lparr>fcfs_jobQueue := q\<rparr>)\<rparr>;
          (if l_count q > 0
           then do {
             let nextJob = snd (last q);
             t \<leftarrow> jobGetRemainingTime (jobs w) nextJob;
             (_, w) \<leftarrow> schedulerScheduleNextCompletion w (now + t);
             Some (finishedJob, w)
           }
           else Some (finishedJob, w))
        })"

subsection \<open>Last come, first served\<close>

definition schedulerLCFSCreate :: "world \<Rightarrow> scheduler_LCFS_t option \<times> world" where
  "schedulerLCFSCreate w =
     (let (info, w) = malloc w in
      if info = NULL then (None, w)
      else let (l, w) = malloc w in
        if l = NULL then (None, w) else (Some \<lparr>lcfs_jobQueue = [], lcfs_currentJob = NULL\<rparr>, w))"

definition schedulerLCFSDestroy :: "scheduler_LCFS_t option \<Rightarrow> nat list" where
  "schedulerLCFSDestroy info = (case info of None \<Rightarrow> [] | Some i \<Rightarrow> map fst (lcfs_jobQueue i))"

definition schedulerLCFSScheduleJob :: "scheduler_LCFS_t \<Rightarrow> world \<Rightarrow> ptr \<Rightarrow> u64 \<Rightarrow> world option" where
  "schedulerLCFSScheduleJob info w job now = do {
     let (q, w) = queue_insert None (lcfs_jobQueue info) job w;
     let info = info\<lparr>lcfs_jobQueue := q\<rparr>;
     (if l_count q = 1
      then do {
        let w = w\<lparr>schedulerInfo := LCFS (info\<lparr>lcfs_currentJob := job\<rparr>)\<rparr>;
        t \<leftarrow> jobGetJobTime (jobs w) job;
        (_, w) \<leftarrow> schedulerScheduleNextCompletion w (now + t);
        Some w
      }
      else Some (w\<lparr>schedulerInfo := LCFS info\<rparr>))
   }"

definition schedulerLCFSCompleteJob :: "scheduler_LCFS_t \<Rightarrow> world \<Rightarrow> u64 \<Rightarrow> (ptr \<times> world) option" where
  "schedulerLCFSCompleteJob info w now =
     (if lcfs_currentJob info = NULL then Some (NULL, w)
      else do {
        let finished = lcfs_currentJob info;
        let q = (case l_find (lcfs_jobQueue info) finished of
                   None \<Rightarrow> lcfs_jobQueue info
                 | Some a \<Rightarrow> l_remove (lcfs_jobQueue info) a);
        let info = info\<lparr>lcfs_jobQueue := q\<rparr>;
        (if l_count q > 0
         then (case q of
                 [] \<Rightarrow> None
               | (_, nextj) # _ \<Rightarrow> do {
                   let w = w\<lparr>schedulerInfo := LCFS (info\<lparr>lcfs_currentJob := nextj\<rparr>)\<rparr>;
                   t \<leftarrow> jobGetJobTime (jobs w) nextj;
                   (_, w) \<leftarrow> schedulerScheduleNextCompletion w (now + t);
                   Some (finished, w)
                 })
         else Some (finished, w\<lparr>schedulerInfo := LCFS (info\<lparr>lcfs_currentJob := NULL\<rparr>)\<rparr>))
      })"

subsection \<open>Shortest job first\<close>

definition schedulerSJFCreate :: "world \<Rightarrow> scheduler_SJF_t option \<times> world" where
  "schedulerSJFCreate w =
     (let (info, w) = malloc w in
      if info = NULL then (None, w)
      else let (l, w) = malloc w in
        if l = NULL then (None, w) else (Some \<lparr>sjf_jobQueue = [], sjf_currentJob = NULL\<rparr>, w))"

definition schedulerSJFDestroy :: "scheduler_SJF_t \<Rightarrow> nat list" where
  "schedulerSJFDestroy info = map fst (sjf_jobQueue info)"

definition schedulerSJFScheduleJob :: "scheduler_SJF_t \<Rightarrow> world \<Rightarrow> ptr \<Rightarrow> u64 \<Rightarrow> world option" where
  "schedulerSJFScheduleJob info w job now = do {
     let (q, w) = queue_insert None (sjf_jobQueue info) job w;
     let info = info\<lparr>sjf_jobQueue := q\<rparr>;
     (if sjf_currentJob info = NULL
      then do {
        let w = w\<lparr>schedulerInfo := SJF (info\<lparr>sjf_currentJob := job\<rparr>)\<rparr>;
        t \<leftarrow> jobGetJobTime (jobs w) job;
        (_, w) \<leftarrow> schedulerScheduleNextCompletion w (now + t);
        Some w
      }
      else Some (w\<lparr>schedulerInfo := SJF info\<rparr>))
   }"

text \<open>The scan for the shortest job: best time, best id and candidate so far.\<close>

fun sjf_scan :: "job_store \<Rightarrow> (nat \<times> ptr) list \<Rightarrow> u64 \<Rightarrow> u64 \<Rightarrow> ptr \<Rightarrow> ptr option" where
  "sjf_scan js [] bestTime bestId nextJob = Some nextJob"
| "sjf_scan js ((_, candidate) # q) bestTime bestId nextJob = do {
     t \<leftarrow> jobGetJobTime js candidate;
     jid \<leftarrow> jobGetId js candidate;
     (if t < bestTime \<or> (t = bestTime \<and> jid < bestId)
      then sjf_scan js q t jid candidate
      else sjf_scan js q bestTime bestId nextJob)
   }"

definition schedulerSJFCompleteJob :: "scheduler_SJF_t \<Rightarrow> world \<Rightarrow> u64 \<Rightarrow> (ptr \<times> world) option" where
  "schedulerSJFCompleteJob info w now = do {
     let finished = sjf_currentJob info;
     let q = (case l_find (sjf_jobQueue info) finished of
                None \<Rightarrow> sjf_jobQueue info
              | Some a \<Rightarrow> l_remove (sjf_jobQueue info) a);
     let info = info\<lparr>sjf_jobQueue := q\<rparr>;
     nextJob \<leftarrow> sjf_scan (jobs w) q UINT64_MAX UINT64_MAX NULL;
     (if nextJob \<noteq> NULL
      then do {
        let w = w\<lparr>schedulerInfo := SJF (info\<lparr>sjf_currentJob := nextJob\<rparr>)\<rparr>;
        t \<leftarrow> jobGetJobTime (jobs w) nextJob;
        (_, w) \<leftarrow> schedulerScheduleNextCompletion w (now + t);
        Some (finished, w)
      }
      else Some (finished, w\<lparr>schedulerInfo := SJF (info\<lparr>sjf_currentJob := NULL\<rparr>)\<rparr>))
   }"

subsection \<open>Multi-level feedback queue\<close>

abbreviation MAX_MLFQ_LEVELS :: nat where
  "MAX_MLFQ_LEVELS \<equiv> 10"

definition always_less :: "ptr compare_fn" where
  "always_less d1 d2 = -1"

text \<open>
  A queue whose \<open>list_create\<close> failed is \<open>None\<close>: \<open>list_count\<close> of it is 0 and \<open>list_insert\<close> into it
  does nothing. The level indexes the array unchecked.
\<close>

definition mlfq_insert :: "scheduler_MLFQ_t \<Rightarrow> int \<Rightarrow> ptr \<Rightarrow> world \<Rightarrow> (scheduler_MLFQ_t \<times> world) option" where
  "mlfq_insert info lvl wrapper w =
     (if 0 \<le> lvl \<and> nat lvl < length (mlfq_queues info)
      then (case mlfq_queues info ! nat lvl of
              None \<Rightarrow> Some (info, w)
            | Some q \<Rightarrow>
                let (q, w) = queue_insert (Some always_less) q wrapper w
                in Some (info\<lparr>mlfq_queues := (mlfq_queues info)[nat lvl := Some q]\<rparr>, w))
      else None)"

text \<open>The search of \<open>schedule_next\<close>: take the head of the first queue that is not empty.\<close>

fun pop_highest :: "(nat \<times> ptr) list option list \<Rightarrow> ptr \<times> (nat \<times> ptr) list option list" where
  "pop_highest [] = (NULL, [])"
| "pop_highest (None # qs) = (let (p, qs) = pop_highest qs in (p, None # qs))"
| "pop_highest (Some q # qs) =
     (if l_count q > 0
      then (case q of
              [] \<Rightarrow> (NULL, Some q # qs)
            | (node, p) # _ \<Rightarrow> (p, Some (l_remove q node) # qs))
      else (let (p, qs) = pop_highest qs in (p, Some q # qs)))"

definition schedule_next :: "world \<Rightarrow> scheduler_MLFQ_t \<Rightarrow> u64 \<Rightarrow> world option" where
  "schedule_next w info now = do {
     let (nxt, qs) = pop_highest (mlfq_queues info);
     let info = info\<lparr>mlfq_queues := qs, mlfq_running := nxt\<rparr>;
     (case nxt of
        None \<Rightarrow> Some (w\<lparr>schedulerInfo := MLFQ info\<rparr>)
      | Some a \<Rightarrow> do {
          let w = w\<lparr>schedulerInfo := MLFQ (info\<lparr>mlfq_last_time := now\<rparr>)\<rparr>;
          wr \<leftarrow> mlfq_wrappers info a;
          rem \<leftarrow> jobGetRemainingTime (jobs w) (mjob wr);
          let run = (if rem < 1 then rem else 1);
          (_, w) \<leftarrow> schedulerScheduleNextCompletion w (now + run);
          Some w
        })
   }"

fun create_queues :: "nat \<Rightarrow> world \<Rightarrow> (nat \<times> ptr) list option list \<times> world" where
  "create_queues 0 w = ([], w)"
| "create_queues (Suc n) w =
     (let (l, w) = malloc w; (qs, w) = create_queues n w
      in ((if l = NULL then None else Some []) # qs, w))"

definition schedulerMLFQCreate :: "world \<Rightarrow> scheduler_MLFQ_t option \<times> world" where
  "schedulerMLFQCreate w =
     (let (info, w) = malloc w in
      if info = NULL then (None, w)
      else let (qs, w) = create_queues MAX_MLFQ_LEVELS w in
        (Some \<lparr>mlfq_queues = qs, mlfq_running = NULL, mlfq_last_time = 0, mlfq_wrappers = Map.empty\<rparr>, w))"

text \<open>
  The loop of the destroy function over one queue stops at \<open>list_end\<close>, which is the last
  node: it frees the wrappers of all nodes but the last. The result is the wrapper store
  after the frees (\<open>None\<close> on a double free); what is left in it was leaked.
\<close>

fun free_wrappers :: "(nat \<rightharpoonup> mlfq_job_t) \<Rightarrow> ptr list \<Rightarrow> (nat \<rightharpoonup> mlfq_job_t) option" where
  "free_wrappers ws [] = Some ws"
| "free_wrappers ws (None # ps) = free_wrappers ws ps"
| "free_wrappers ws (Some a # ps) =
     (case ws a of None \<Rightarrow> None | Some _ \<Rightarrow> free_wrappers (ws(a := None)) ps)"

definition schedulerMLFQDestroy :: "scheduler_MLFQ_t \<Rightarrow> (nat \<rightharpoonup> mlfq_job_t) option" where
  "schedulerMLFQDestroy info =
     free_wrappers (mlfq_wrappers info)
       (mlfq_running info # concat (map (\<lambda>q. case q of None \<Rightarrow> [] | Some ns \<Rightarrow> map snd (butlast ns))
                                        (mlfq_queues info)))"

definition schedulerMLFQScheduleJob :: "scheduler_MLFQ_t \<Rightarrow> world \<Rightarrow> ptr \<Rightarrow> u64 \<Rightarrow> world option" where
  "schedulerMLFQScheduleJob info w job now = do {
     let (nw, w) = malloc w;
     a \<leftarrow> nw;
     let info = info\<lparr>mlfq_wrappers := (mlfq_wrappers info)(a \<mapsto> \<lparr>mjob = job, mlevel = 0\<rparr>)\<rparr>;
     (info, w) \<leftarrow> mlfq_insert info 0 nw w;
     (case mlfq_running info of
        None \<Rightarrow> schedule_next w info now
      | Some r \<Rightarrow> do {
          wr \<leftarrow> mlfq_wrappers info r;
          (if 0 < mlevel wr
           then do {
             (_, w) \<leftarrow> schedulerCancelNextCompletion (w\<lparr>schedulerInfo := MLFQ info\<rparr>);
             let run = now - mlfq_last_time info;
             (wr, w) \<leftarrow>
               (if run > 0
                then do {
                  rem \<leftarrow> jobGetRemainingTime (jobs w) (mjob wr);
                  let run = (if run > rem then rem else run);
                  js \<leftarrow> jobSetRemainingTime (jobs w) (mjob wr) (rem - run);
                  let w = w\<lparr>jobs := js\<rparr>;
                  (if run \<ge> 1 \<and> mlevel wr < int MAX_MLFQ_LEVELS - 1
                   then Some (wr\<lparr>mlevel := mlevel wr + 1\<rparr>, w)
                   else Some (wr, w))
                }
                else Some (wr, w));
             let info = info\<lparr>mlfq_wrappers := (mlfq_wrappers info)(r \<mapsto> wr)\<rparr>;
             (info, w) \<leftarrow> mlfq_insert info (mlevel wr) (Some r) w;
             schedule_next w (info\<lparr>mlfq_running := NULL\<rparr>) now
           }
           else Some (w\<lparr>schedulerInfo := MLFQ info\<rparr>))
        })
   }"

definition schedulerMLFQCompleteJob :: "scheduler_MLFQ_t \<Rightarrow> world \<Rightarrow> u64 \<Rightarrow> (ptr \<times> world) option" where
  "schedulerMLFQCompleteJob info w now = do {
     let run = mlfq_running info;
     let info = info\<lparr>mlfq_running := NULL\<rparr>;
     (finished, info, w) \<leftarrow>
       (case run of
          None \<Rightarrow> Some (NULL, info, w)
        | Some r \<Rightarrow> do {
            wr \<leftarrow> mlfq_wrappers info r;
            rem \<leftarrow> jobGetRemainingTime (jobs w) (mjob wr);
            (if rem > 1
             then do {
               js \<leftarrow> jobSetRemainingTime (jobs w) (mjob wr) (rem - 1);
               let wr = (if mlevel wr < int MAX_MLFQ_LEVELS - 1 then wr\<lparr>mlevel := mlevel wr + 1\<rparr> else wr);
               let info = info\<lparr>mlfq_wrappers := (mlfq_wrappers info)(r \<mapsto> wr)\<rparr>;
               (info, w) \<leftarrow> mlfq_insert info (mlevel wr) run (w\<lparr>jobs := js\<rparr>);
               Some (NULL, info, w)
             }
             else do {
               js \<leftarrow> jobSetRemainingTime (jobs w) (mjob wr) 0;
               Some (mjob wr, info\<lparr>mlfq_wrappers := (mlfq_wrappers info)(r := None)\<rparr>, w\<lparr>jobs := js\<rparr>)
             })
          });
     w \<leftarrow> schedule_next w info now;
     Some (finished, w)
   }"

subsection \<open>The framework\<close>

text \<open>\<open>schedulerCreate\<close>: false for a null scheduler; the name selects the policy.\<close>

definition schedulerCreate :: "string \<Rightarrow> world \<Rightarrow> bool \<times> world" where
  "schedulerCreate name w =
     (let (sp, w) = malloc w in
      if sp = NULL then (False, w)
      else
        let w = w\<lparr>completionEvent := NULL\<rparr>
        in if name = ''FCFS'' then
             (case schedulerFCFSCreate w of (None, w) \<Rightarrow> (False, w)
              | (Some i, w) \<Rightarrow> (True, w\<lparr>schedulerInfo := FCFS i\<rparr>))
           else if name = ''LCFS'' then
             (case schedulerLCFSCreate w of (None, w) \<Rightarrow> (False, w)
              | (Some i, w) \<Rightarrow> (True, w\<lparr>schedulerInfo := LCFS i\<rparr>))
           else if name = ''SJF'' then
             (case schedulerSJFCreate w of (None, w) \<Rightarrow> (False, w)
              | (Some i, w) \<Rightarrow> (True, w\<lparr>schedulerInfo := SJF i\<rparr>))
           else if name = ''MLFQ'' then
             (case schedulerMLFQCreate w of (None, w) \<Rightarrow> (False, w)
              | (Some i, w) \<Rightarrow> (True, w\<lparr>schedulerInfo := MLFQ i\<rparr>))
           else (False, w))"

text \<open>
  \<open>schedulerDestroy\<close> cancels a pending completion and frees the policy's memory: the
  result is the world and, for MLFQ, what is left in the wrapper store.
\<close>

definition schedulerDestroy :: "world \<Rightarrow> (world \<times> (nat \<rightharpoonup> mlfq_job_t)) option" where
  "schedulerDestroy w = do {
     (_, w) \<leftarrow> (if completionEvent w \<noteq> NULL then schedulerCancelNextCompletion w else Some (False, w));
     (case schedulerInfo w of
        MLFQ info \<Rightarrow> do { ws \<leftarrow> schedulerMLFQDestroy info; Some (w, ws) }
      | _ \<Rightarrow> Some (w, Map.empty))
   }"

definition schedulerScheduleJob :: "world \<Rightarrow> ptr \<Rightarrow> world option" where
  "schedulerScheduleJob w job =
     (let now = simulatorSimTime w in
      case schedulerInfo w of
        FCFS info \<Rightarrow> schedulerFCFSScheduleJob info w job now
      | LCFS info \<Rightarrow> schedulerLCFSScheduleJob info w job now
      | SJF info \<Rightarrow> schedulerSJFScheduleJob info w job now
      | MLFQ info \<Rightarrow> schedulerMLFQScheduleJob info w job now)"

definition schedulerCompleteJob :: "(ptr \<Rightarrow> world \<Rightarrow> world option) \<Rightarrow> world \<Rightarrow> world option" where
  "schedulerCompleteJob completionCallback w = do {
     let w = w\<lparr>completionEvent := NULL\<rparr>;
     let now = simulatorSimTime w;
     (job, w) \<leftarrow>
       (case schedulerInfo w of
          FCFS info \<Rightarrow> schedulerFCFSCompleteJob info w now
        | LCFS info \<Rightarrow> schedulerLCFSCompleteJob info w now
        | SJF info \<Rightarrow> schedulerSJFCompleteJob info w now
        | MLFQ info \<Rightarrow> schedulerMLFQCompleteJob info w now);
     (if job \<noteq> NULL then completionCallback job w else Some w)
   }"

end
