(* ===== verification/Trace.thy ===== *)
theory Trace
  imports Scheduler
begin

text \<open>
  The trace driver of the simulator (\<open>trace.h\<close>, \<open>trace.c\<close>): it reads one job at a time,
  schedules its arrival, hands arriving jobs to the scheduler and writes one line per
  completed job. \<open>traceRun\<close> is the whole program: create, run to the end, destroy.
\<close>

text \<open>
  \<open>fscanf\<close> converts three numbers, or fails: at the end of the file the function returns,
  otherwise the \<open>assert\<close> on \<open>feof\<close> aborts. The allocation of the job and the scheduling of
  its arrival are asserted to succeed.
\<close>

definition traceScheduleNextArrival :: "world \<Rightarrow> world option" where
  "traceScheduleNextArrival w =
     (case traceFile w of
        [] \<Rightarrow> Some w
      | None # _ \<Rightarrow> None
      | Some (jid, arrival, time) # rest \<Rightarrow> do {
          let w = w\<lparr>traceFile := rest\<rparr>;
          let (new, w) = malloc w;
          let (job, js) = jobCreate (jobs w) new arrival time jid;
          let w = w\<lparr>jobs := js, currentJob := job\<rparr>;
          (if job = NULL then None else Some ());
          t \<leftarrow> jobGetArrivalTime (jobs w) (currentJob w);
          (ref, w) \<leftarrow> simulatorSchedule w t EVENT_ARRIVAL TraceArrivalCallback;
          (if ref = NULL then None else Some w)
        })"

definition traceArrivalCallback :: "world \<Rightarrow> world option" where
  "traceArrivalCallback w = do {
     w \<leftarrow> schedulerScheduleJob w (currentJob w);
     traceScheduleNextArrival w
   }"

definition traceCompletionCallback :: "ptr \<Rightarrow> world \<Rightarrow> world option" where
  "traceCompletionCallback job w = do {
     jid \<leftarrow> jobGetId (jobs w) job;
     let w = w\<lparr>outFile := outFile w @ [(jid, simulatorSimTime w)]\<rparr>;
     js \<leftarrow> jobDestroy (jobs w) job;
     Some (w\<lparr>jobs := js\<rparr>)
   }"

text \<open>The callbacks the simulator invokes: the two function pointers stored in events.\<close>

fun invoke :: "callback_fn \<Rightarrow> world \<Rightarrow> world option" where
  "invoke TraceArrivalCallback w = traceArrivalCallback w"
| "invoke SchedulerCompleteJob w = schedulerCompleteJob traceCompletionCallback w"

text \<open>
  \<open>traceRun\<close>: the two flags say whether the files could be opened. The result is the
  returned boolean and the lines written, \<open>None\<close> when the process aborts or does not end.
\<close>

definition traceRun ::
  "(nat \<Rightarrow> bool) \<Rightarrow> bool \<Rightarrow> bool \<Rightarrow> (u64 \<times> u64 \<times> u64) option list \<Rightarrow> string \<Rightarrow> (bool \<times> (u64 \<times> u64) list) option" where
  "traceRun ok in_ok out_ok file schedulerName =
     (if \<not> ok 0 then Some (False, [])
      else if \<not> in_ok then Some (False, [])
      else if \<not> out_ok then Some (False, [])
      else
        (case simulatorCreate 1 ok of
           None \<Rightarrow> Some (False, [])
         | Some sim \<Rightarrow>
             (let w = simulator_t.extend sim
                 \<lparr>completionEvent = NULL, schedulerInfo = FCFS \<lparr>fcfs_jobQueue = []\<rparr>, jobs = Map.empty,
                  traceFile = file, currentJob = NULL, outFile = []\<rparr>;
                 (created, w) = schedulerCreate schedulerName w
              in if \<not> created then do { w \<leftarrow> simulatorDestroy w; Some (False, []) }
                 else do {
                   w \<leftarrow> traceScheduleNextArrival w;
                   w \<leftarrow> simulatorRun invoke w;
                   (w, _) \<leftarrow> schedulerDestroy w;
                   w \<leftarrow> simulatorDestroy w;
                   Some (True, outFile w)
                 })))"


end
