(* ===== verification/Nonpreemptive.thy ===== *)
theory Nonpreemptive
  imports Trace
begin

text \<open>
  What a run of the trace driver computes under a policy that never preempts a job.

  The specification \<open>np_spec\<close> is a scheduler on lists of trace lines: a running job with its
  finishing time, the waiting jobs (newest first) and the lines not yet arrived, with the
  next job chosen by a function \<open>pick\<close>. The locale \<open>np_policy\<close> states what the framework
  relies on in the two function pointers \<open>scheduleJob\<close> and \<open>completeJob\<close> of \<open>scheduler_t\<close>; in it,
  the event loop is proved to produce exactly what \<open>np_spec\<close> says, by one simulation lemma
  per kind of event. \<open>Policies\<close> interprets it for FCFS, LCFS and SJF.
\<close>

subsection \<open>Trace lines and the specification\<close>

type_synonym trace_line = "u64 \<times> u64 \<times> u64"

definition line_id :: "trace_line \<Rightarrow> u64" where
  "line_id l = fst l"

definition arr :: "trace_line \<Rightarrow> nat" where
  "arr l = unat (fst (snd l))"

definition len :: "trace_line \<Rightarrow> nat" where
  "len l = unat (snd (snd l))"

definition mk_job :: "trace_line \<Rightarrow> job_t" where
  "mk_job l = \<lparr>arrivalTime = fst (snd l), jobTime = snd (snd l), remainingTime = snd (snd l), jobId = fst l\<rparr>"

lemma mk_job_sel [simp]:
  "arrivalTime (mk_job l) = fst (snd l)" "jobTime (mk_job l) = snd (snd l)"
  "remainingTime (mk_job l) = snd (snd l)" "jobId (mk_job l) = line_id l"
  by (simp_all add: mk_job_def line_id_def)

definition drop_nth :: "nat \<Rightarrow> 'a list \<Rightarrow> 'a list" where
  "drop_nth i xs = take i xs @ drop (Suc i) xs"

lemma length_drop_nth: "i < length xs \<Longrightarrow> length (drop_nth i xs) < length xs"
  by (simp add: drop_nth_def)

lemma map_drop_nth [simp]: "map f (drop_nth i xs) = drop_nth i (map f xs)"
  by (simp add: drop_nth_def take_map drop_map)

lemma mset_drop_nth: "i < length xs \<Longrightarrow> add_mset (xs ! i) (mset (drop_nth i xs)) = mset xs"
  by (metis drop_nth_def id_take_nth_drop mset.simps(2) mset_append union_mset_add_mset_right)

text \<open>
  The index is guarded so that the recursion ends for every \<open>pick\<close>; a completion happens
  before an arrival at the same time.
\<close>

function np_spec ::
  "(trace_line list \<Rightarrow> nat) \<Rightarrow> (trace_line \<times> nat) option \<Rightarrow> trace_line list \<Rightarrow> trace_line list \<Rightarrow> (u64 \<times> nat) list" where
  "np_spec pick None ws [] = []"
| "np_spec pick None ws (k # js) = np_spec pick (Some (k, arr k + len k)) ws js"
| "np_spec pick (Some (j, f)) ws js =
     (if js \<noteq> [] \<and> arr (hd js) < f then np_spec pick (Some (j, f)) (hd js # ws) (tl js)
      else (line_id j, f) #
        (if ws = [] then np_spec pick None [] js
         else let i = pick ws mod length ws in
           np_spec pick (Some (ws ! i, f + len (ws ! i))) (drop_nth i ws) js))"
  by pat_completeness auto

termination
proof (relation "measure (\<lambda>(pick, cur, ws, js). 3 * length js + 2 * length ws + (if cur = None then 0 else 1))",
    goal_cases)
  case (5 pick j f ws js i)
  then have "length (drop_nth i ws) < length ws" by (intro length_drop_nth) simp
  then show ?case by simp
qed (auto simp: neq_Nil_conv)

declare np_spec.simps(3) [simp del]

lemma np_spec_arrive:
  "arr k < f \<Longrightarrow> np_spec pick (Some (j, f)) ws (k # js) = np_spec pick (Some (j, f)) (k # ws) js"
  by (subst np_spec.simps) simp

lemma np_spec_done:
  "\<not> (js \<noteq> [] \<and> arr (hd js) < f) \<Longrightarrow> np_spec pick (Some (j, f)) [] js = (line_id j, f) # np_spec pick None [] js"
  by (subst np_spec.simps) (simp only: if_False simp_thms if_True)

lemma np_spec_next:
  "\<not> (js \<noteq> [] \<and> arr (hd js) < f) \<Longrightarrow> pick ws < length ws \<Longrightarrow>
   np_spec pick (Some (j, f)) ws js =
     (line_id j, f) # np_spec pick (Some (ws ! pick ws, f + len (ws ! pick ws))) (drop_nth (pick ws) ws) js"
  by (subst np_spec.simps(3)) (auto simp: Let_def)

subsection \<open>Times that do not overflow\<close>

definition np_time :: "nat \<Rightarrow> (trace_line \<times> nat) option \<Rightarrow> trace_line list \<Rightarrow> trace_line list \<Rightarrow> bool" where
  "np_time T cur ws js \<longleftrightarrow>
     sorted (map arr js) \<and>
     (\<forall>k \<in> set js. T \<le> arr k \<and> arr k + sum_list (map len (ws @ js)) < 2 ^ 64 - 1) \<and>
     (case cur of None \<Rightarrow> ws = [] | Some (_, f) \<Rightarrow> T \<le> f \<and> f + sum_list (map len (ws @ js)) < 2 ^ 64 - 1) \<and>
     length ws + length js + 2 < 2 ^ 64"

lemma sum_list_drop_nth: "i < length ws \<Longrightarrow> len (ws ! i) + sum_list (map len (drop_nth i ws)) = sum_list (map len ws)"
proof -
  assume i: "i < length ws"
  have "sum_list (map len ws) = sum_list (map len (take i ws @ ws ! i # drop (Suc i) ws))"
    using id_take_nth_drop [OF i] by simp
  then show ?thesis by (simp add: drop_nth_def del: append_take_drop_id)
qed

lemma np_time_arrive_idle:
  "np_time T None [] (k # js) \<Longrightarrow> np_time (arr k) (Some (k, arr k + len k)) [] js"
  by (auto simp: np_time_def)

lemma np_time_arrive_busy:
  "np_time T (Some (j, f)) ws (k # js) \<Longrightarrow> arr k < f \<Longrightarrow> np_time (arr k) (Some (j, f)) (k # ws) js"
  by (auto simp: np_time_def)

lemma np_time_complete:
  assumes "np_time T (Some (j, f)) ws js" "\<not> (js \<noteq> [] \<and> arr (hd js) < f)"
  shows "np_time f (Some (j, f)) ws js"
proof -
  have "f \<le> arr k" if "k \<in> set js" for k
    using assms that by (cases js) (auto simp: np_time_def)
  then show ?thesis using assms(1) by (auto simp: np_time_def)
qed

lemma np_time_idle: "np_time f (Some (j, f)) [] js \<Longrightarrow> np_time f None [] js"
  by (auto simp: np_time_def)

lemma np_time_next:
  assumes "np_time f (Some (j, f)) ws js" "i < length ws"
  shows "np_time f (Some (ws ! i, f + len (ws ! i))) (drop_nth i ws) js"
  using assms sum_list_drop_nth [OF assms(2)] length_drop_nth [OF assms(2)]
  by (auto simp: np_time_def simp del: map_drop_nth)

subsection \<open>The event queue\<close>

text \<open>
  A job that runs, with its address, finishing time and completion event, and a line that
  was read, with its job's address and arrival event: what the pointers of the program's
  state stand for.
\<close>

record running =
  run_ptr :: nat
  run_line :: trace_line
  run_fin :: nat
  run_node :: nat
  run_eid :: u64

record coming =
  com_ptr :: nat
  com_line :: trace_line
  com_node :: nat
  com_eid :: u64

definition comp_event :: "running \<Rightarrow> nat \<times> callback_fn event_t" where
  "comp_event r = (run_node r, \<lparr>timestamp = of_nat (run_fin r), etype = EVENT_COMPLETION,
                                eid = run_eid r, callback = SchedulerCompleteJob\<rparr>)"

definition arr_event :: "coming \<Rightarrow> nat \<times> callback_fn event_t" where
  "arr_event c = (com_node c, \<lparr>timestamp = fst (snd (com_line c)), etype = EVENT_ARRIVAL,
                               eid = com_eid c, callback = TraceArrivalCallback\<rparr>)"

lemma event_sel [simp]:
  "fst (comp_event r) = run_node r" "timestamp (snd (comp_event r)) = of_nat (run_fin r)"
  "callback (snd (comp_event r)) = SchedulerCompleteJob"
  "fst (arr_event c) = com_node c" "timestamp (snd (arr_event c)) = fst (snd (com_line c))"
  "callback (snd (arr_event c)) = TraceArrivalCallback"
  by (simp_all add: comp_event_def arr_event_def)

definition completes_first :: "running \<Rightarrow> coming \<Rightarrow> bool" where
  "completes_first r c \<longleftrightarrow> (of_nat (run_fin r) :: u64) \<le> fst (snd (com_line c))"

fun pending :: "running option \<Rightarrow> coming option \<Rightarrow> (nat \<times> callback_fn event_t) list" where
  "pending None None = []"
| "pending (Some r) None = [comp_event r]"
| "pending None (Some c) = [arr_event c]"
| "pending (Some r) (Some c) =
     (if completes_first r c then [comp_event r, arr_event c] else [arr_event c, comp_event r])"

lemma completes_first_nat:
  "run_fin r < 2 ^ 64 \<Longrightarrow> completes_first r c \<longleftrightarrow> run_fin r \<le> arr (com_line c)"
  by (simp add: completes_first_def arr_def word_le_nat_alt unat_of_nat_small)

lemma compare_comp_arr:
  "simulatorEventCompare (snd (comp_event r)) (snd (arr_event c)) < 0 \<longleftrightarrow> completes_first r c"
  "simulatorEventCompare (snd (arr_event c)) (snd (comp_event r)) < 0 \<longleftrightarrow> \<not> completes_first r c"
  by (auto simp: simulatorEventCompare_def comp_event_def arr_event_def completes_first_def
      less_event_type_t_def not_le)

lemma pending_insert_comp:
  "event_insert (pending None cm) (fst (comp_event r)) (snd (comp_event r)) = pending (Some r) cm"
  by (cases cm) (simp_all add: l_insert_def compare_comp_arr del: event_sel)

lemma pending_insert_arr:
  "event_insert (pending rn None) (fst (arr_event c)) (snd (arr_event c)) = pending rn (Some c)"
  by (cases rn) (simp_all add: l_insert_def compare_comp_arr del: event_sel)

lemma pending_nodes [simp]:
  "fst ` set (pending rn cm) = set_option (map_option run_node rn) \<union> set_option (map_option com_node cm)"
  "distinct (map fst (pending rn cm)) \<longleftrightarrow> (\<forall>r c. rn = Some r \<longrightarrow> cm = Some c \<longrightarrow> run_node r \<noteq> com_node c)"
  by (cases rn; cases cm; auto)+

lemma pending_ordered: "event_ordered (pending rn cm)"
  by (cases rn; cases cm)
    (auto simp: ordered_def less_eq_event_type_t_def comp_event_def arr_event_def simulatorEventCompare_def
      completes_first_def less_event_type_t_def split: if_splits)

subsection \<open>The contract of a policy\<close>

text \<open>
  \<open>rep c i r ps\<close> says that the policy's struct \<open>i\<close> stands for the running job at address \<open>r\<close> and
  the waiting jobs at the addresses \<open>ps\<close>, newest first, with all its nodes below \<open>c\<close>. The laws
  are what \<open>scheduler.h\<close> asks of \<open>scheduleJob\<close> and \<open>completeJob\<close>: which completion they schedule
  and that they change nothing but their own struct.
\<close>

locale np_policy =
  fixes pick :: "trace_line list \<Rightarrow> nat"
    and rep :: "nat \<Rightarrow> scheduler_info \<Rightarrow> nat option \<Rightarrow> nat list \<Rightarrow> bool"
  assumes pick_less: "ws \<noteq> [] \<Longrightarrow> pick ws < length ws"
    and rep_mono: "rep c i rn ps \<Longrightarrow> c \<le> c' \<Longrightarrow> rep c' i rn ps"
    and arrive_idle:
      "rep (malloc_ctr w) (schedulerInfo w) None [] \<Longrightarrow> \<forall>n. malloc_ok w n \<Longrightarrow> jobs w p = Some (mk_job l) \<Longrightarrow>
       \<exists>i. rep (Suc (malloc_ctr w)) i (Some p) [] \<and>
         schedulerScheduleJob w (Some p) =
           map_option snd (schedulerScheduleNextCompletion
             (w\<lparr>malloc_ctr := Suc (malloc_ctr w), schedulerInfo := i\<rparr>) (simTime w + snd (snd l)))"
    and arrive_busy:
      "rep (malloc_ctr w) (schedulerInfo w) (Some r) ps \<Longrightarrow> \<forall>n. malloc_ok w n \<Longrightarrow> p \<noteq> r \<Longrightarrow>
       p \<notin> set ps \<Longrightarrow> length ps + 2 < 2 ^ 64 \<Longrightarrow>
       \<exists>i. rep (Suc (malloc_ctr w)) i (Some r) (p # ps) \<and>
         schedulerScheduleJob w (Some p) = Some (w\<lparr>malloc_ctr := Suc (malloc_ctr w), schedulerInfo := i\<rparr>)"
    and complete_idle:
      "rep (malloc_ctr w) (schedulerInfo w) (Some r) [] \<Longrightarrow>
       \<exists>i. rep (malloc_ctr w) i None [] \<and>
         schedulerCompleteJob cb w = cb (Some r) (w\<lparr>completionEvent := NULL, schedulerInfo := i\<rparr>)"
    and complete_next:
      "rep (malloc_ctr w) (schedulerInfo w) (Some r) ps \<Longrightarrow> ps \<noteq> [] \<Longrightarrow> length ps + 2 < 2 ^ 64 \<Longrightarrow>
       map (jobs w) ps = map (\<lambda>l. Some (mk_job l)) ws \<Longrightarrow> (\<forall>l \<in> set ws. snd (snd l) < UINT64_MAX) \<Longrightarrow>
       \<exists>i. rep (malloc_ctr w) i (Some (ps ! pick ws)) (drop_nth (pick ws) ps) \<and>
         schedulerCompleteJob cb w =
           do { (_, w) \<leftarrow> schedulerScheduleNextCompletion (w\<lparr>completionEvent := NULL, schedulerInfo := i\<rparr>)
                  (simTime w + snd (snd (ws ! pick ws)));
                cb (Some r) w }"

subsection \<open>The state of the program during a run\<close>

definition job_refs :: "running option \<Rightarrow> (nat \<times> trace_line) list \<Rightarrow> coming option \<Rightarrow> (nat \<times> trace_line) list" where
  "job_refs rn ws cm =
     (case rn of None \<Rightarrow> [] | Some r \<Rightarrow> [(run_ptr r, run_line r)]) @ ws @
     (case cm of None \<Rightarrow> [] | Some c \<Rightarrow> [(com_ptr c, com_line c)])"

definition store_ok :: "world \<Rightarrow> (nat \<times> trace_line) list \<Rightarrow> bool" where
  "store_ok w L \<longleftrightarrow> distinct (map fst L) \<and> dom (jobs w) = fst ` set L \<and>
     (\<forall>x \<in> set L. fst x < malloc_ctr w \<and> jobs w (fst x) = Some (mk_job (snd x)))"

lemma store_ok_add:
  assumes "store_ok w L" "jobs w' = (jobs w)(malloc_ctr w \<mapsto> mk_job l)" "malloc_ctr w < malloc_ctr w'"
  shows "store_ok w' (L @ [(malloc_ctr w, l)])"
proof -
  have "malloc_ctr w \<notin> fst ` set L" using assms(1) by (force simp: store_ok_def)
  then show ?thesis using assms by (fastforce simp: store_ok_def)
qed

lemma store_ok_cong:
  assumes "store_ok w L" "jobs w' = jobs w" "malloc_ctr w \<le> malloc_ctr w'" "mset L' = mset L"
  shows "store_ok w' L'"
proof -
  have "set L' = set L" "distinct (map fst L') = distinct (map fst L)"
    using assms(4) by (metis set_mset_mset, metis mset_eq_imp_distinct_iff mset_map)
  then show ?thesis using assms(1,2,3) by (fastforce simp: store_ok_def)
qed

lemma store_ok_del:
  assumes "store_ok w ((p, l) # L)" "jobs w' = (jobs w)(p := None)" "malloc_ctr w \<le> malloc_ctr w'"
  shows "store_ok w' L"
proof -
  have p: "p \<notin> fst ` set L" "dom (jobs w) = insert p (fst ` set L)" "distinct (map fst L)"
    and st: "\<forall>x \<in> set L. fst x < malloc_ctr w \<and> jobs w (fst x) = Some (mk_job (snd x))"
    using assms(1) by (simp_all add: store_ok_def)
  have "dom (jobs w') = fst ` set L" using p assms(2) by auto
  moreover have "\<forall>x \<in> set L. fst x < malloc_ctr w' \<and> jobs w' (fst x) = Some (mk_job (snd x))"
  proof
    fix x assume x: "x \<in> set L"
    then have "fst x \<noteq> p" using p(1) by auto
    then show "fst x < malloc_ctr w' \<and> jobs w' (fst x) = Some (mk_job (snd x))"
      using bspec [OF st x] assms(2,3) by simp
  qed
  ultimately show ?thesis using p(3) by (simp add: store_ok_def)
qed

type_synonym policy_rep = "nat \<Rightarrow> scheduler_info \<Rightarrow> nat option \<Rightarrow> nat list \<Rightarrow> bool"

definition np_rest ::
  "policy_rep \<Rightarrow> world \<Rightarrow> running option \<Rightarrow> (nat \<times> trace_line) list \<Rightarrow> coming option \<Rightarrow> trace_line list \<Rightarrow> bool" where
  "np_rest rep w rn ws cm rest \<longleftrightarrow>
     rep (malloc_ctr w) (schedulerInfo w) (map_option run_ptr rn) (map fst ws) \<and>
     store_ok w (job_refs rn ws cm) \<and>
     (\<forall>c. cm = Some c \<longrightarrow> currentJob w = Some (com_ptr c)) \<and>
     traceFile w = map Some rest"

text \<open>The queue between two events, and while the callback of the event at node \<open>x\<close> runs.\<close>

definition np_events :: "world \<Rightarrow> running option \<Rightarrow> coming option \<Rightarrow> bool" where
  "np_events w rn cm \<longleftrightarrow>
     (\<forall>n. malloc_ok w n) \<and> distinct (map fst (pending rn cm)) \<and>
     (\<forall>n \<in> fst ` set (pending rn cm). n < malloc_ctr w) \<and>
     completionEvent w = map_option run_node rn"

definition np_queue :: "world \<Rightarrow> nat \<Rightarrow> running option \<Rightarrow> coming option \<Rightarrow> bool" where
  "np_queue w x rn cm \<longleftrightarrow>
     np_events w rn cm \<and> l_remove (queue w) x = pending rn cm \<and>
     event_ordered (queue w) \<and> x \<in> fst ` set (queue w) \<and> x < malloc_ctr w"

definition np_mid :: "policy_rep \<Rightarrow> world \<Rightarrow> nat \<Rightarrow> running option \<Rightarrow> (nat \<times> trace_line) list \<Rightarrow> coming option \<Rightarrow> trace_line list \<Rightarrow> bool" where
  "np_mid rep w x rn ws cm rest \<longleftrightarrow> np_queue w x rn cm \<and> np_rest rep w rn ws cm rest"

definition np_head :: "policy_rep \<Rightarrow> world \<Rightarrow> running option \<Rightarrow> (nat \<times> trace_line) list \<Rightarrow> coming option \<Rightarrow> trace_line list \<Rightarrow> bool" where
  "np_head rep w rn ws cm rest \<longleftrightarrow>
     np_events w rn cm \<and> queue w = pending rn cm \<and> np_rest rep w rn ws cm rest"

lemma simulatorSchedule_mid:
  assumes "ts \<ge> simTime w" "\<forall>n. malloc_ok w n" "event_ordered (queue w)" "x < malloc_ctr w"
  obtains q where
    "simulatorSchedule w ts ty cb =
       Some (Some (Suc (malloc_ctr w)),
             w\<lparr>sim_id := sim_id w + 1, malloc_ctr := Suc (Suc (malloc_ctr w)), queue := q\<rparr>)"
    "l_remove q x = event_insert (l_remove (queue w) x) (Suc (malloc_ctr w))
       \<lparr>timestamp = ts, etype = ty, eid = sim_id w, callback = cb\<rparr>"
    "event_ordered q" "fst ` set q = insert (Suc (malloc_ctr w)) (fst ` set (queue w))"
  using assms
  by (simp add: simulatorSchedule_ok events.remove_insert_commute events.ordered_insert set_l_insert)

lemma simulatorRun_step:
  assumes "queue w = (n, e) # q" "length (queue w) < 2 ^ 64"
    and "invoke (callback e) (w\<lparr>simTime := timestamp e\<rparr>) = Some w1" "n \<in> fst ` set (queue w1)"
  shows "simulatorRun invoke w = simulatorRun invoke (w1\<lparr>queue := l_remove (queue w1) n\<rparr>)"
proof -
  have "l_count (queue w) > 0"
    using assms(1,2) of_nat_u64_eq_0 [of "length (queue w)"] by (simp add: l_count_def word_gt_0)
  then show ?thesis
    using assms by (subst simulatorRun.simps) (simp add: simulatorRemoveEvent_def)
qed

lemma np_mid_end:
  "np_mid rep w x rn ws cm rest \<Longrightarrow> np_head rep (w\<lparr>queue := l_remove (queue w) x\<rparr>) rn ws cm rest"
  by (simp add: np_mid_def np_head_def np_queue_def np_events_def np_rest_def store_ok_def)

text \<open>Popping the arrival or the completion event.\<close>

definition np_idle :: "world \<Rightarrow> running option \<Rightarrow> coming option \<Rightarrow> bool" where
  "np_idle w rn cm \<longleftrightarrow> np_events w rn cm \<and> queue w = pending rn cm"

lemma np_head_idle: "np_head rep w rn ws cm rest \<longleftrightarrow> np_idle w rn cm \<and> np_rest rep w rn ws cm rest"
  by (simp add: np_head_def np_idle_def)

lemma pop_arrival:
  assumes "np_idle w rn (Some c)" "\<forall>r. rn = Some r \<longrightarrow> \<not> completes_first r c"
  shows "queue w = arr_event c # pending rn None"
    and "np_queue (w\<lparr>simTime := t\<rparr>) (com_node c) rn None"
proof -
  show q: "queue w = arr_event c # pending rn None"
    using assms by (cases rn) (simp_all add: np_idle_def)
  show "np_queue (w\<lparr>simTime := t\<rparr>) (com_node c) rn None"
    using assms pending_ordered [of rn "Some c"]
    by (cases rn) (auto simp: np_idle_def np_queue_def np_events_def l_remove_def)
qed

lemma pop_completion:
  assumes "np_idle w (Some r) cm" "\<forall>c. cm = Some c \<longrightarrow> completes_first r c"
  shows "queue w = comp_event r # pending None cm"
    and "np_queue (w\<lparr>simTime := t, completionEvent := NULL\<rparr>) (run_node r) None cm"
proof -
  show q: "queue w = comp_event r # pending None cm"
    using assms by (cases cm) (simp_all add: np_idle_def)
  show "np_queue (w\<lparr>simTime := t, completionEvent := NULL\<rparr>) (run_node r) None cm"
    using assms pending_ordered [of "Some r" cm]
    by (cases cm) (auto simp: np_idle_def np_queue_def np_events_def l_remove_def)
qed

lemma np_pop_arrival:
  assumes "np_head rep w rn ws (Some c) rest" "\<forall>r. rn = Some r \<longrightarrow> \<not> completes_first r c"
  shows "queue w = arr_event c # pending rn None"
    and "np_queue (w\<lparr>simTime := t\<rparr>) (com_node c) rn None"
  using assms by (auto simp: np_head_idle intro: pop_arrival)

lemma np_pop_completion:
  assumes "np_head rep w (Some r) ws cm rest" "\<forall>c. cm = Some c \<longrightarrow> completes_first r c"
  shows "queue w = comp_event r # pending None cm"
    and "np_queue (w\<lparr>simTime := t, completionEvent := NULL\<rparr>) (run_node r) None cm"
  using assms by (auto simp: np_head_idle intro: pop_completion)

lemma np_schedule_completion:
  assumes q: "np_queue w x None cm" and fin: "unat (simTime w) + unat t < 2 ^ 64"
  obtains Q where
    "schedulerScheduleNextCompletion w (simTime w + t) =
       Some (True, w\<lparr>sim_id := sim_id w + 1, malloc_ctr := Suc (Suc (malloc_ctr w)), queue := Q,
                     completionEvent := Some (Suc (malloc_ctr w))\<rparr>)"
    "np_queue (w\<lparr>sim_id := sim_id w + 1, malloc_ctr := Suc (Suc (malloc_ctr w)), queue := Q,
                completionEvent := Some (Suc (malloc_ctr w))\<rparr>) x
       (Some \<lparr>run_ptr = p, run_line = l, run_fin = unat (simTime w) + unat t,
              run_node = Suc (malloc_ctr w), run_eid = sim_id w\<rparr>) cm"
proof -
  have le: "simTime w \<le> simTime w + t"
    using fin by (simp add: word_le_nat_alt unat_add_small)
  note qs = q [unfolded np_queue_def np_events_def]
  have mid: "\<forall>n. malloc_ok w n" "event_ordered (queue w)" "x < malloc_ctr w" using qs by simp_all
  obtain Q where Q: "simulatorSchedule w (simTime w + t) EVENT_COMPLETION SchedulerCompleteJob =
      Some (Some (Suc (malloc_ctr w)), w\<lparr>sim_id := sim_id w + 1, malloc_ctr := Suc (Suc (malloc_ctr w)), queue := Q\<rparr>)"
    "l_remove Q x = event_insert (l_remove (queue w) x) (Suc (malloc_ctr w))
       \<lparr>timestamp = simTime w + t, etype = EVENT_COMPLETION, eid = sim_id w, callback = SchedulerCompleteJob\<rparr>"
    "event_ordered Q" "fst ` set Q = insert (Suc (malloc_ctr w)) (fst ` set (queue w))"
    by (rule simulatorSchedule_mid [OF le mid])
  let ?r = "\<lparr>run_ptr = p, run_line = l, run_fin = unat (simTime w) + unat t,
             run_node = Suc (malloc_ctr w), run_eid = sim_id w\<rparr>"
  have "l_remove Q x = pending (Some ?r) cm"
    using Q(2) qs pending_insert_comp [of cm ?r] by (simp add: comp_event_def)
  moreover have "distinct (map fst (pending (Some ?r) cm))"
      "\<forall>n \<in> fst ` set (pending (Some ?r) cm). n < Suc (Suc (malloc_ctr w))"
    using qs by auto
  ultimately have "np_queue (w\<lparr>sim_id := sim_id w + 1, malloc_ctr := Suc (Suc (malloc_ctr w)), queue := Q,
                completionEvent := Some (Suc (malloc_ctr w))\<rparr>) x (Some ?r) cm"
    using qs Q(3,4) by (simp add: np_queue_def np_events_def)
  then show ?thesis
    using that [of Q] Q(1) qs by (simp add: schedulerScheduleNextCompletion_def)
qed

text \<open>The world after the next line was read.\<close>

definition read_line :: "world \<Rightarrow> trace_line \<Rightarrow> trace_line list \<Rightarrow> (nat \<times> callback_fn event_t) list \<Rightarrow> world" where
  "read_line w k rest Q =
     w\<lparr>traceFile := map Some rest, malloc_ctr := Suc (Suc (Suc (malloc_ctr w))), sim_id := sim_id w + 1,
       jobs := (jobs w)(malloc_ctr w \<mapsto> mk_job k), currentJob := Some (malloc_ctr w), queue := Q\<rparr>"

definition read_coming :: "world \<Rightarrow> trace_line \<Rightarrow> coming" where
  "read_coming w k = \<lparr>com_ptr = malloc_ctr w, com_line = k, com_node = Suc (Suc (malloc_ctr w)), com_eid = sim_id w\<rparr>"

lemma next_arrival:
  assumes q: "np_queue w x rn None" and now: "simTime w \<le> fst (snd k)" and tf: "traceFile w = map Some (k # rest)"
  obtains Q where "traceScheduleNextArrival w = Some (read_line w k rest Q)"
    "np_queue (read_line w k rest Q) x rn (Some (read_coming w k))"
proof -
  let ?a = "malloc_ctr w" and ?c = "read_coming w k"
  let ?w = "w\<lparr>traceFile := map Some rest, malloc_ctr := Suc ?a, jobs := (jobs w)(?a \<mapsto> mk_job k), currentJob := Some ?a\<rparr>"
  note qs = q [unfolded np_queue_def np_events_def]
  have le: "simTime ?w \<le> fst (snd k)" "\<forall>n. malloc_ok ?w n" "event_ordered (queue ?w)" "x < malloc_ctr ?w"
    using qs now by auto
  obtain Q where
    Q: "simulatorSchedule ?w (fst (snd k)) EVENT_ARRIVAL TraceArrivalCallback =
          Some (Some (Suc (malloc_ctr ?w)),
            ?w\<lparr>sim_id := sim_id ?w + 1, malloc_ctr := Suc (Suc (malloc_ctr ?w)), queue := Q\<rparr>)"
    "l_remove Q x = event_insert (l_remove (queue ?w) x) (Suc (malloc_ctr ?w))
       \<lparr>timestamp = fst (snd k), etype = EVENT_ARRIVAL, eid = sim_id ?w, callback = TraceArrivalCallback\<rparr>"
    "event_ordered Q" "fst ` set Q = insert (Suc (malloc_ctr ?w)) (fst ` set (queue ?w))"
    by (rule simulatorSchedule_mid [OF le])
  have "l_remove Q x = pending rn (Some ?c)"
    using Q(2) qs pending_insert_arr [of rn ?c] by (simp add: arr_event_def read_coming_def)
  moreover have "distinct (map fst (pending rn (Some ?c)))"
      "\<forall>n \<in> fst ` set (pending rn (Some ?c)). n < Suc (Suc (Suc ?a))"
    using qs by (auto simp: read_coming_def)
  ultimately have "np_queue (read_line w k rest Q) x rn (Some ?c)"
    using qs Q(3,4) by (simp add: np_queue_def np_events_def read_line_def)
  moreover have "traceScheduleNextArrival w = Some (read_line w k rest Q)"
    using qs Q(1) tf
    by (cases k) (simp add: traceScheduleNextArrival_def malloc_def jobCreate_def mk_job_def read_line_def)
  ultimately show ?thesis using that by blast
qed

lemma np_next_arrival:
  assumes mid: "np_mid rep w x rn ws None (k # rest)" and now: "simTime w \<le> fst (snd k)"
    and mono: "\<And>c c' i r ps. rep c i r ps \<Longrightarrow> c \<le> c' \<Longrightarrow> rep c' i r ps"
  obtains w' c where "traceScheduleNextArrival w = Some w'" "np_mid rep w' x rn ws (Some c) rest"
    "com_line c = k" "outFile w' = outFile w" "simTime w' = simTime w"
proof -
  note ms = mid [unfolded np_mid_def np_rest_def]
  obtain Q where Q: "traceScheduleNextArrival w = Some (read_line w k rest Q)"
    "np_queue (read_line w k rest Q) x rn (Some (read_coming w k))"
    using next_arrival [of w x rn k rest] ms now by auto
  have "store_ok (read_line w k rest Q) (job_refs rn ws None @ [(malloc_ctr w, k)])"
    using ms by (intro store_ok_add) (auto simp: read_line_def)
  then have "np_rest rep (read_line w k rest Q) rn ws (Some (read_coming w k)) rest"
    using ms mono by (auto simp: np_rest_def job_refs_def read_line_def read_coming_def)
  then show ?thesis using that Q by (simp add: np_mid_def read_line_def read_coming_def)
qed

lemma np_no_arrival:
  "np_mid rep w x rn ws None [] \<Longrightarrow> traceScheduleNextArrival w = Some w"
  by (simp add: np_mid_def np_rest_def traceScheduleNextArrival_def)

subsection \<open>The callbacks simulate the specification\<close>

context np_policy
begin

lemma schedule_job_idle:
  assumes head: "np_head rep w None [] (Some c) rest" and fits: "arr (com_line c) + len (com_line c) < 2 ^ 64"
  obtains w' r where
    "schedulerScheduleJob (w\<lparr>simTime := fst (snd (com_line c))\<rparr>) (currentJob w) = Some w'"
    "np_mid rep w' (com_node c) (Some r) [] None rest"
    "run_line r = com_line c" "run_fin r = arr (com_line c) + len (com_line c)"
    "outFile w' = outFile w" "simTime w' = fst (snd (com_line c))"
proof -
  let ?t = "fst (snd (com_line c))"
  let ?w = "w\<lparr>simTime := ?t\<rparr>"
  note hs = head [unfolded np_head_def np_rest_def]
  have "rep (malloc_ctr ?w) (schedulerInfo ?w) None []" "\<forall>n. malloc_ok ?w n"
    "jobs ?w (com_ptr c) = Some (mk_job (com_line c))"
    using hs by (simp_all add: np_events_def store_ok_def job_refs_def)
  from arrive_idle [OF this] obtain i where
    i: "rep (Suc (malloc_ctr w)) i (Some (com_ptr c)) []" and
    sched: "schedulerScheduleJob ?w (Some (com_ptr c)) =
      map_option snd (schedulerScheduleNextCompletion
        (?w\<lparr>malloc_ctr := Suc (malloc_ctr w), schedulerInfo := i\<rparr>) (?t + snd (snd (com_line c))))"
    by auto
  let ?w1 = "?w\<lparr>malloc_ctr := Suc (malloc_ctr w), schedulerInfo := i\<rparr>"
  have q: "np_queue ?w1 (com_node c) None None"
    using np_pop_arrival(2) [OF head, of ?t] by (simp add: np_queue_def np_events_def)
  have fin: "unat (simTime ?w1) + unat (snd (snd (com_line c))) < 2 ^ 64"
    using fits by (simp add: arr_def len_def)
  obtain Q where Q: "schedulerScheduleNextCompletion ?w1 (simTime ?w1 + snd (snd (com_line c))) =
       Some (True, ?w1\<lparr>sim_id := sim_id ?w1 + 1, malloc_ctr := Suc (Suc (malloc_ctr ?w1)), queue := Q,
                     completionEvent := Some (Suc (malloc_ctr ?w1))\<rparr>)"
    "np_queue (?w1\<lparr>sim_id := sim_id ?w1 + 1, malloc_ctr := Suc (Suc (malloc_ctr ?w1)), queue := Q,
                completionEvent := Some (Suc (malloc_ctr ?w1))\<rparr>) (com_node c)
       (Some \<lparr>run_ptr = com_ptr c, run_line = com_line c,
              run_fin = unat (simTime ?w1) + unat (snd (snd (com_line c))),
              run_node = Suc (malloc_ctr ?w1), run_eid = sim_id ?w1\<rparr>) None"
    by (rule np_schedule_completion [OF q fin])
  let ?w2 = "?w1\<lparr>sim_id := sim_id ?w1 + 1, malloc_ctr := Suc (Suc (malloc_ctr ?w1)), queue := Q,
                completionEvent := Some (Suc (malloc_ctr ?w1))\<rparr>"
  let ?r = "\<lparr>run_ptr = com_ptr c, run_line = com_line c,
              run_fin = unat (simTime ?w1) + unat (snd (snd (com_line c))),
              run_node = Suc (malloc_ctr ?w1), run_eid = sim_id ?w1\<rparr>"
  have "store_ok ?w2 (job_refs (Some ?r) [] None)"
    by (rule store_ok_cong [of w "job_refs None [] (Some c)"]) (use hs in \<open>simp_all add: job_refs_def\<close>)
  moreover have "rep (malloc_ctr ?w2) i (Some (com_ptr c)) []" using rep_mono [OF i] by simp
  ultimately have "np_rest rep ?w2 (Some ?r) [] None rest" using hs by (simp add: np_rest_def)
  then show ?thesis
    by (intro that [of ?w2 ?r]) (use Q sched hs in \<open>simp_all add: np_mid_def arr_def len_def\<close>)
qed

lemma schedule_job_busy:
  assumes head: "np_head rep w (Some r) ws (Some c) rest" and first: "\<not> completes_first r c"
    and fits: "length ws + 2 < 2 ^ 64"
  obtains w' where
    "schedulerScheduleJob (w\<lparr>simTime := fst (snd (com_line c))\<rparr>) (currentJob w) = Some w'"
    "np_mid rep w' (com_node c) (Some r) ((com_ptr c, com_line c) # ws) None rest"
    "outFile w' = outFile w" "simTime w' = fst (snd (com_line c))"
proof -
  let ?w = "w\<lparr>simTime := fst (snd (com_line c))\<rparr>"
  note hs = head [unfolded np_head_def np_rest_def]
  have "rep (malloc_ctr ?w) (schedulerInfo ?w) (Some (run_ptr r)) (map fst ws)" "\<forall>n. malloc_ok ?w n"
    "com_ptr c \<noteq> run_ptr r" "com_ptr c \<notin> set (map fst ws)" "length (map fst ws) + 2 < 2 ^ 64"
    using hs fits by (auto simp: np_events_def store_ok_def job_refs_def)
  from arrive_busy [OF this] obtain i where
    i: "rep (Suc (malloc_ctr w)) i (Some (run_ptr r)) (com_ptr c # map fst ws)" and
    sched: "schedulerScheduleJob ?w (Some (com_ptr c)) = Some (?w\<lparr>malloc_ctr := Suc (malloc_ctr w), schedulerInfo := i\<rparr>)"
    by auto
  let ?w1 = "?w\<lparr>malloc_ctr := Suc (malloc_ctr w), schedulerInfo := i\<rparr>"
  have "np_queue ?w1 (com_node c) (Some r) None"
    using np_pop_arrival(2) [OF head, of "fst (snd (com_line c))"] first by (auto simp: np_queue_def np_events_def)
  moreover have "store_ok ?w1 (job_refs (Some r) ((com_ptr c, com_line c) # ws) None)"
    by (rule store_ok_cong [of w "job_refs (Some r) ws (Some c)"]) (use hs in \<open>simp_all add: job_refs_def\<close>)
  ultimately show ?thesis
    using that [of ?w1] sched i hs by (simp add: np_mid_def np_rest_def)
qed

lemma complete_job_idle:
  assumes head: "np_head rep w (Some r) [] cm rest" and first: "\<forall>c. cm = Some c \<longrightarrow> completes_first r c"
  obtains w' where
    "schedulerCompleteJob traceCompletionCallback (w\<lparr>simTime := of_nat (run_fin r)\<rparr>) = Some w'"
    "np_mid rep w' (run_node r) None [] cm rest"
    "outFile w' = outFile w @ [(line_id (run_line r), of_nat (run_fin r))]"
    "simTime w' = of_nat (run_fin r)"
proof -
  let ?w = "w\<lparr>simTime := of_nat (run_fin r)\<rparr>"
  note hs = head [unfolded np_head_def np_rest_def]
  have "rep (malloc_ctr ?w) (schedulerInfo ?w) (Some (run_ptr r)) []" using hs by simp
  from complete_idle [OF this, of traceCompletionCallback] obtain i where
    i: "rep (malloc_ctr w) i None []" and
    eq: "schedulerCompleteJob traceCompletionCallback ?w =
      traceCompletionCallback (Some (run_ptr r)) (?w\<lparr>completionEvent := NULL, schedulerInfo := i\<rparr>)"
    by auto
  let ?w1 = "?w\<lparr>completionEvent := NULL, schedulerInfo := i,
    outFile := outFile w @ [(line_id (run_line r), of_nat (run_fin r))], jobs := (jobs w)(run_ptr r := None)\<rparr>"
  have st: "store_ok w ((run_ptr r, run_line r) # job_refs None [] cm)" using hs by (simp add: job_refs_def)
  then have "jobs w (run_ptr r) = Some (mk_job (run_line r))" by (simp add: store_ok_def)
  then have cb: "schedulerCompleteJob traceCompletionCallback ?w = Some ?w1"
    using eq by (simp add: traceCompletionCallback_def jobDestroy_def simulatorSimTime_def)
  have "np_queue ?w1 (run_node r) None cm"
    using np_pop_completion(2) [OF head first, of "of_nat (run_fin r)"] by (simp add: np_queue_def np_events_def)
  moreover have "store_ok ?w1 (job_refs None [] cm)" by (rule store_ok_del [OF st]) simp_all
  ultimately have "np_mid rep ?w1 (run_node r) None [] cm rest"
    using hs i by (simp add: np_mid_def np_rest_def)
  then show ?thesis using that [of ?w1] cb by simp
qed

lemma complete_job_next:
  assumes head: "np_head rep w (Some r) ws cm rest" and first: "\<forall>c. cm = Some c \<longrightarrow> completes_first r c"
    and ws: "ws \<noteq> []" "length ws + 2 < 2 ^ 64" "\<forall>l \<in> snd ` set ws. len l < 2 ^ 64 - 1"
    and i_def: "i = pick (map snd ws)" and fits: "run_fin r + len (snd (ws ! i)) < 2 ^ 64"
  obtains w' r' where
    "schedulerCompleteJob traceCompletionCallback (w\<lparr>simTime := of_nat (run_fin r)\<rparr>) = Some w'"
    "np_mid rep w' (run_node r) (Some r') (drop_nth i ws) cm rest"
    "run_line r' = snd (ws ! i)" "run_fin r' = run_fin r + len (snd (ws ! i))"
    "outFile w' = outFile w @ [(line_id (run_line r), of_nat (run_fin r))]"
    "simTime w' = of_nat (run_fin r)"
proof -
  let ?w = "w\<lparr>simTime := of_nat (run_fin r)\<rparr>" and ?l = "snd (ws ! i)"
  note hs = head [unfolded np_head_def np_rest_def]
  have i: "i < length ws" using pick_less [of "map snd ws"] ws(1) i_def by simp
  have st: "store_ok w ((run_ptr r, run_line r) # ws @ job_refs None [] cm)" using hs by (simp add: job_refs_def)
  have "rep (malloc_ctr ?w) (schedulerInfo ?w) (Some (run_ptr r)) (map fst ws)" "map fst ws \<noteq> []"
    "length (map fst ws) + 2 < 2 ^ 64" "map (jobs ?w) (map fst ws) = map (\<lambda>l. Some (mk_job l)) (map snd ws)"
    "\<forall>l \<in> set (map snd ws). snd (snd l) < UINT64_MAX"
    using hs ws st by (auto simp: store_ok_def len_def word_less_nat_alt unat_u64_max)
  from complete_next [OF this, of traceCompletionCallback] obtain p where
    p: "rep (malloc_ctr w) p (Some (fst (ws ! i))) (drop_nth i (map fst ws))" and
    eq: "schedulerCompleteJob traceCompletionCallback ?w =
      do { (_, w) \<leftarrow> schedulerScheduleNextCompletion (?w\<lparr>completionEvent := NULL, schedulerInfo := p\<rparr>)
             (of_nat (run_fin r) + snd (snd ?l));
           traceCompletionCallback (Some (run_ptr r)) w }"
    using i by (auto simp: i_def [symmetric])
  let ?w1 = "?w\<lparr>completionEvent := NULL, schedulerInfo := p\<rparr>"
  have q: "np_queue ?w1 (run_node r) None cm"
    using np_pop_completion(2) [OF head first, of "of_nat (run_fin r)"] by (simp add: np_queue_def np_events_def)
  have T: "unat (simTime ?w1) = run_fin r" using fits by (simp add: unat_of_nat_small)
  then have fin: "unat (simTime ?w1) + unat (snd (snd ?l)) < 2 ^ 64" using fits by (simp add: len_def)
  obtain Q where Q: "schedulerScheduleNextCompletion ?w1 (simTime ?w1 + snd (snd ?l)) =
       Some (True, ?w1\<lparr>sim_id := sim_id ?w1 + 1, malloc_ctr := Suc (Suc (malloc_ctr ?w1)), queue := Q,
                     completionEvent := Some (Suc (malloc_ctr ?w1))\<rparr>)"
    "np_queue (?w1\<lparr>sim_id := sim_id ?w1 + 1, malloc_ctr := Suc (Suc (malloc_ctr ?w1)), queue := Q,
                completionEvent := Some (Suc (malloc_ctr ?w1))\<rparr>) (run_node r)
       (Some \<lparr>run_ptr = fst (ws ! i), run_line = ?l,
              run_fin = unat (simTime ?w1) + unat (snd (snd ?l)),
              run_node = Suc (malloc_ctr ?w1), run_eid = sim_id ?w1\<rparr>) cm"
    by (rule np_schedule_completion [OF q fin])
  let ?w2 = "?w1\<lparr>sim_id := sim_id ?w1 + 1, malloc_ctr := Suc (Suc (malloc_ctr ?w1)), queue := Q,
    completionEvent := Some (Suc (malloc_ctr ?w1)),
    outFile := outFile w @ [(line_id (run_line r), of_nat (run_fin r))], jobs := (jobs w)(run_ptr r := None)\<rparr>"
  let ?r = "\<lparr>run_ptr = fst (ws ! i), run_line = ?l, run_fin = unat (simTime ?w1) + unat (snd (snd ?l)),
             run_node = Suc (malloc_ctr ?w1), run_eid = sim_id ?w1\<rparr>"
  have "jobs w (run_ptr r) = Some (mk_job (run_line r))" using st by (simp add: store_ok_def)
  then have cb: "schedulerCompleteJob traceCompletionCallback ?w = Some ?w2"
    using eq Q(1) by (simp add: traceCompletionCallback_def jobDestroy_def simulatorSimTime_def)
  have "store_ok ?w2 (ws @ job_refs None [] cm)" by (rule store_ok_del [OF st]) simp_all
  then have "store_ok ?w2 (job_refs (Some ?r) (drop_nth i ws) cm)"
    by (rule store_ok_cong) (use mset_drop_nth [OF i] in \<open>simp_all add: job_refs_def\<close>)
  moreover have "np_queue ?w2 (run_node r) (Some ?r) cm"
    using Q(2) by (simp add: np_queue_def np_events_def)
  moreover have "rep (malloc_ctr ?w2) p (Some (fst (ws ! i))) (drop_nth i (map fst ws))"
    using rep_mono [OF p] by simp
  ultimately have "np_mid rep ?w2 (run_node r) (Some ?r) (drop_nth i ws) cm rest"
    using hs by (simp add: np_mid_def np_rest_def)
  then show ?thesis
    by (intro that [of ?w2 ?r]) (use cb T in \<open>simp_all add: len_def\<close>)
qed

end

subsection \<open>The event loop\<close>

definition np_abs ::
  "running option \<Rightarrow> (nat \<times> trace_line) list \<Rightarrow> coming option \<Rightarrow> trace_line list \<Rightarrow>
   (trace_line \<times> nat) option \<times> trace_line list \<times> trace_line list" where
  "np_abs rn aws cm rest =
     (map_option (\<lambda>r. (run_line r, run_fin r)) rn, map snd aws,
      (case cm of None \<Rightarrow> rest | Some c \<Rightarrow> com_line c # rest))"

definition np_sim ::
  "policy_rep \<Rightarrow> world \<Rightarrow> (trace_line \<times> nat) option \<Rightarrow> trace_line list \<Rightarrow> trace_line list \<Rightarrow> bool" where
  "np_sim rep w cur ws js \<longleftrightarrow>
     (\<exists>rn aws cm rest. np_head rep w rn aws cm rest \<and> (cur, ws, js) = np_abs rn aws cm rest \<and>
        (cm = None \<longrightarrow> rest = []) \<and> np_time (unat (simTime w)) cur ws js)"

lemma np_sim_running:
  assumes "np_sim rep w (Some (j, f)) ws js"
  obtains r aws cm rest where "np_head rep w (Some r) aws cm rest" "cm = None \<longrightarrow> rest = []"
    "js = (case cm of None \<Rightarrow> rest | Some c \<Rightarrow> com_line c # rest)"
    "run_line r = j" "run_fin r = f" "map snd aws = ws" "np_time (unat (simTime w)) (Some (j, f)) ws js"
proof -
  obtain rn aws cm rest where *: "np_head rep w rn aws cm rest" "(Some (j, f), ws, js) = np_abs rn aws cm rest"
    "cm = None \<longrightarrow> rest = []" "np_time (unat (simTime w)) (Some (j, f)) ws js"
    using assms by (auto simp: np_sim_def)
  show ?thesis
    by (cases rn) (use * that in \<open>auto simp: np_abs_def\<close>)
qed

lemma unat_arr: "unat (fst (snd l)) = arr l"
  by (simp add: arr_def)

lemma np_time_fin: "np_time T (Some (j, f)) ws js \<Longrightarrow> f < 2 ^ 64"
  by (simp add: np_time_def)

lemma np_run_event:
  assumes q: "queue w = (n, e) # q" "length q \<le> 1"
    and inv: "invoke (callback e) (w\<lparr>simTime := timestamp e\<rparr>) = Some w1" "np_mid rep w1 n rn aws cm rest"
    and abs: "(cur, ws, js) = np_abs rn aws cm rest" "cm = None \<longrightarrow> rest = []"
      "np_time (unat (simTime w1)) cur ws js"
  shows "\<exists>w'. simulatorRun invoke w = simulatorRun invoke w' \<and> np_sim rep w' cur ws js \<and> outFile w' = outFile w1"
proof -
  have "n \<in> fst ` set (queue w1)" using inv(2) by (simp add: np_mid_def np_queue_def)
  then have "simulatorRun invoke w = simulatorRun invoke (w1\<lparr>queue := l_remove (queue w1) n\<rparr>)"
    using simulatorRun_step q inv(1) by auto
  moreover have "np_sim rep (w1\<lparr>queue := l_remove (queue w1) n\<rparr>) cur ws js"
    using np_mid_end [OF inv(2)] abs by (auto simp: np_sim_def)
  ultimately show ?thesis by fastforce
qed

context np_policy
begin

text \<open>After an arrival the next line is read, if there is one.\<close>

lemma arrival_event:
  assumes head: "np_head rep w rn0 aws0 (Some c) rest" and first: "\<forall>r. rn0 = Some r \<longrightarrow> \<not> completes_first r c"
    and sched: "schedulerScheduleJob (w\<lparr>simTime := fst (snd (com_line c))\<rparr>) (currentJob w) = Some w1"
      "np_mid rep w1 (com_node c) (Some r) aws None rest" "simTime w1 = fst (snd (com_line c))"
    and time: "np_time (arr (com_line c)) (Some (run_line r, run_fin r)) (map snd aws) rest"
  shows "\<exists>w'. simulatorRun invoke w = simulatorRun invoke w' \<and> outFile w' = outFile w1 \<and>
           np_sim rep w' (Some (run_line r, run_fin r)) (map snd aws) rest"
proof -
  have q: "queue w = arr_event c # pending rn0 None" by (rule np_pop_arrival(1) [OF head first])
  have len: "length (pending rn0 None) \<le> 1" by (cases rn0) simp_all
  obtain w2 cm' rest' where w2: "traceScheduleNextArrival w1 = Some w2"
    "np_mid rep w2 (com_node c) (Some r) aws cm' rest'" "cm' = None \<longrightarrow> rest' = []"
    "rest = (case cm' of None \<Rightarrow> rest' | Some c \<Rightarrow> com_line c # rest')" "outFile w2 = outFile w1"
    "simTime w2 = simTime w1"
  proof (cases rest)
    case Nil
    then show ?thesis using that [of w1 None "[]"] np_no_arrival sched(2) by auto
  next
    case (Cons k ks)
    have le: "simTime w1 \<le> fst (snd k)"
      using time sched(3) Cons by (simp add: np_time_def word_le_nat_alt unat_arr)
    have mid: "np_mid rep w1 (com_node c) (Some r) aws None (k # ks)" using sched(2) Cons by simp
    obtain w2 c' where "traceScheduleNextArrival w1 = Some w2"
      "np_mid rep w2 (com_node c) (Some r) aws (Some c') ks" "com_line c' = k"
      "outFile w2 = outFile w1" "simTime w2 = simTime w1"
      by (rule np_next_arrival [OF mid le rep_mono])
    then show ?thesis using that [of w2 "Some c'" ks] Cons by simp
  qed
  have "invoke (callback (snd (arr_event c))) (w\<lparr>simTime := timestamp (snd (arr_event c))\<rparr>) = Some w2"
    using sched(1) w2(1) by (simp add: traceArrivalCallback_def)
  then have "\<exists>w'. simulatorRun invoke w = simulatorRun invoke w' \<and>
      np_sim rep w' (Some (run_line r, run_fin r)) (map snd aws) rest \<and> outFile w' = outFile w2"
    by (rule np_run_event [OF _ len _ w2(2) _ w2(3), rotated])
      (use q w2(4,6) time sched(3) in \<open>simp_all add: np_abs_def unat_arr arr_event_def\<close>)
  then show ?thesis using w2(5) by auto
qed

lemma completion_event:
  assumes head: "np_head rep w (Some r) aws0 cm rest" and first: "\<forall>c. cm = Some c \<longrightarrow> completes_first r c"
    and comp: "schedulerCompleteJob traceCompletionCallback (w\<lparr>simTime := of_nat (run_fin r)\<rparr>) = Some w1"
      "np_mid rep w1 (run_node r) rn aws cm rest" "simTime w1 = of_nat (run_fin r)"
    and cm: "cm = None \<longrightarrow> rest = []" and fin: "run_fin r < 2 ^ 64"
    and abs: "(cur, ws, js) = np_abs rn aws cm rest" "np_time (run_fin r) cur ws js"
  shows "\<exists>w'. simulatorRun invoke w = simulatorRun invoke w' \<and> np_sim rep w' cur ws js \<and> outFile w' = outFile w1"
proof -
  have q: "queue w = comp_event r # pending None cm" by (rule np_pop_completion(1) [OF head first])
  have len: "length (pending None cm) \<le> 1" by (cases cm) simp_all
  have "invoke (callback (snd (comp_event r))) (w\<lparr>simTime := timestamp (snd (comp_event r))\<rparr>) = Some w1"
    using comp(1) by simp
  then show ?thesis
    by (rule np_run_event [OF _ len _ comp(2) abs(1) cm, rotated])
      (use q abs(2) comp(3) fin in \<open>simp_all add: unat_of_nat_small comp_event_def\<close>)
qed

lemma step_arrive_idle:
  assumes "np_sim rep w None [] (k # js)"
  shows "\<exists>w'. simulatorRun invoke w = simulatorRun invoke w' \<and> outFile w' = outFile w \<and>
           np_sim rep w' (Some (k, arr k + len k)) [] js"
proof -
  obtain c rest where head: "np_head rep w None [] (Some c) rest" and c: "com_line c = k" "js = rest"
    and time: "np_time (unat (simTime w)) None [] (k # js)"
    using assms by (auto simp: np_sim_def np_abs_def split: option.splits)
  have fits: "arr (com_line c) + len (com_line c) < 2 ^ 64" using time c by (simp add: np_time_def)
  obtain w1 r where w1: "schedulerScheduleJob (w\<lparr>simTime := fst (snd (com_line c))\<rparr>) (currentJob w) = Some w1"
    "np_mid rep w1 (com_node c) (Some r) [] None rest" "run_line r = com_line c"
    "run_fin r = arr (com_line c) + len (com_line c)" "outFile w1 = outFile w" "simTime w1 = fst (snd (com_line c))"
    by (rule schedule_job_idle [OF head fits])
  show ?thesis
    using arrival_event [OF head _ w1(1,2,6)] np_time_arrive_idle [OF time] w1 c by auto
qed

lemma step_arrive_busy:
  assumes "np_sim rep w (Some (j, f)) ws (k # js)" "arr k < f"
  shows "\<exists>w'. simulatorRun invoke w = simulatorRun invoke w' \<and> outFile w' = outFile w \<and>
           np_sim rep w' (Some (j, f)) (k # ws) js"
proof -
  obtain r aws c rest where head: "np_head rep w (Some r) aws (Some c) rest" and c: "com_line c = k" "js = rest"
    and r: "run_line r = j" "run_fin r = f" "map snd aws = ws"
    and time: "np_time (unat (simTime w)) (Some (j, f)) ws (k # js)"
    using assms(1) by (elim np_sim_running) (auto split: option.splits)
  have first: "\<not> completes_first r c"
    using np_time_fin [OF time] r c assms(2) by (simp add: completes_first_nat)
  have fits: "length aws + 2 < 2 ^ 64" using time r(3) by (auto simp: np_time_def)
  obtain w1 where w1: "schedulerScheduleJob (w\<lparr>simTime := fst (snd (com_line c))\<rparr>) (currentJob w) = Some w1"
    "np_mid rep w1 (com_node c) (Some r) ((com_ptr c, com_line c) # aws) None rest"
    "outFile w1 = outFile w" "simTime w1 = fst (snd (com_line c))"
    by (rule schedule_job_busy [OF head first fits])
  show ?thesis
    using arrival_event [OF head _ w1(1,2,4)] np_time_arrive_busy [OF time assms(2)] first w1(3) c r by auto
qed

lemma step_complete:
  assumes "np_sim rep w (Some (j, f)) ws js" "\<not> (js \<noteq> [] \<and> arr (hd js) < f)"
  shows "\<exists>w'. simulatorRun invoke w = simulatorRun invoke w' \<and> outFile w' = outFile w @ [(line_id j, of_nat f)] \<and>
           (if ws = [] then np_sim rep w' None [] js
            else np_sim rep w' (Some (ws ! pick ws, f + len (ws ! pick ws))) (drop_nth (pick ws) ws) js)"
proof -
  obtain r aws cm rest where head: "np_head rep w (Some r) aws cm rest" and cm: "cm = None \<longrightarrow> rest = []"
    and js: "js = (case cm of None \<Rightarrow> rest | Some c \<Rightarrow> com_line c # rest)"
    and r: "run_line r = j" "run_fin r = f" "map snd aws = ws"
    and time0: "np_time (unat (simTime w)) (Some (j, f)) ws js"
    by (rule np_sim_running [OF assms(1)])
  have time: "np_time f (Some (j, f)) ws js" by (rule np_time_complete [OF time0 assms(2)])
  have fin: "run_fin r < 2 ^ 64" using np_time_fin [OF time] r by simp
  have first: "\<forall>c. cm = Some c \<longrightarrow> completes_first r c"
    using fin assms(2) js r(2) by (auto simp: completes_first_nat)
  show ?thesis
  proof (cases "ws = []")
    case True
    then have head': "np_head rep w (Some r) [] cm rest" using head r(3) by simp
    obtain w1 where w1: "schedulerCompleteJob traceCompletionCallback (w\<lparr>simTime := of_nat (run_fin r)\<rparr>) = Some w1"
      "np_mid rep w1 (run_node r) None [] cm rest"
      "outFile w1 = outFile w @ [(line_id (run_line r), of_nat (run_fin r))]" "simTime w1 = of_nat (run_fin r)"
      by (rule complete_job_idle [OF head' first])
    have "np_time f None [] js" using np_time_idle time True by simp
    then show ?thesis
      using completion_event [OF head first w1(1,2,4) cm fin, of None "[]" js] w1(3) r js True
      by (auto simp: np_abs_def)
  next
    case False
    let ?i = "pick (map snd aws)"
    have i: "?i < length aws" using pick_less [of ws] False r(3) by auto
    have small: "\<forall>l \<in> snd ` set aws. len l < 2 ^ 64 - 1"
    proof
      fix l assume "l \<in> snd ` set aws"
      then have "len l \<in> set (map len ws)" using r(3) by (metis image_eqI list.set_map)
      then have "len l \<le> sum_list (map len ws)" by (intro member_le_sum_list) simp_all
      then show "len l < 2 ^ 64 - 1" using time by (simp add: np_time_def)
    qed
    have next_t: "np_time f (Some (ws ! ?i, f + len (ws ! ?i))) (drop_nth ?i ws) js"
      using np_time_next [OF time, of ?i] i r(3) by auto
    have fits: "run_fin r + len (snd (aws ! ?i)) < 2 ^ 64"
      using np_time_fin [OF next_t] i r by auto
    have ne: "aws \<noteq> []" "length aws + 2 < 2 ^ 64" using False r(3) time by (auto simp: np_time_def)
    obtain w1 r' where w1: "schedulerCompleteJob traceCompletionCallback (w\<lparr>simTime := of_nat (run_fin r)\<rparr>) = Some w1"
      "np_mid rep w1 (run_node r) (Some r') (drop_nth ?i aws) cm rest"
      "run_line r' = snd (aws ! ?i)" "run_fin r' = run_fin r + len (snd (aws ! ?i))"
      "outFile w1 = outFile w @ [(line_id (run_line r), of_nat (run_fin r))]" "simTime w1 = of_nat (run_fin r)"
      by (rule complete_job_next [OF head first ne small refl fits])
    show ?thesis
      using completion_event [OF head first w1(1,2,6) cm fin, of "Some (ws ! ?i, f + len (ws ! ?i))" "drop_nth ?i ws" js]
        next_t w1(3,4,5) r js False i
      by (auto simp: np_abs_def)
  qed
qed

text \<open>The loop ends, and it writes what the specification says.\<close>

lemma run_np_spec:
  assumes "np_sim rep w cur ws js"
  shows "\<exists>w'. simulatorRun invoke w = Some w' \<and> queue w' = [] \<and> completionEvent w' = NULL \<and>
           jobs w' = Map.empty \<and> rep (malloc_ctr w') (schedulerInfo w') None [] \<and>
           outFile w' = outFile w @ map (\<lambda>(i, t). (i, of_nat t)) (np_spec pick cur ws js)"
  using assms
proof (induction "3 * length js + 2 * length ws + (if cur = None then 0 else 1)"
    arbitrary: w cur ws js rule: less_induct)
  case less
  show ?case
  proof (cases cur)
    case None
    show ?thesis
    proof (cases js)
      case Nil
      then have head: "np_head rep w None [] None []" and ws: "ws = []"
        using less.prems None by (auto simp: np_sim_def np_abs_def np_time_def split: option.splits)
      then have "simulatorRun invoke w = Some w"
        by (subst simulatorRun.simps) (simp add: np_head_def l_count_def)
      then show ?thesis using head None Nil ws
        by (simp add: np_head_def np_events_def np_rest_def store_ok_def job_refs_def)
    next
      case (Cons k ks)
      have ws: "ws = []" using less.prems None by (auto simp: np_sim_def np_time_def)
      obtain w1 where "simulatorRun invoke w = simulatorRun invoke w1" "outFile w1 = outFile w"
        "np_sim rep w1 (Some (k, arr k + len k)) [] ks"
        using step_arrive_idle less.prems None Cons ws by blast
      then show ?thesis
        using less.hyps [of ks "[]" "Some (k, arr k + len k)" w1] None Cons ws by simp
    qed
  next
    case (Some jf)
    obtain j f where jf: "jf = (j, f)" by (cases jf)
    show ?thesis
    proof (cases "js \<noteq> [] \<and> arr (hd js) < f")
      case True
      then obtain k ks where js: "js = k # ks" by (cases js) auto
      obtain w1 where "simulatorRun invoke w = simulatorRun invoke w1" "outFile w1 = outFile w"
        "np_sim rep w1 (Some (j, f)) (k # ws) ks"
        using step_arrive_busy less.prems Some jf js True by (metis list.sel(1))
      then show ?thesis
        using less.hyps [of ks "k # ws" "Some (j, f)" w1] Some jf js True by (simp add: np_spec_arrive)
    next
      case False
      obtain w1 where w1: "simulatorRun invoke w = simulatorRun invoke w1"
        "outFile w1 = outFile w @ [(line_id j, of_nat f)]"
        "if ws = [] then np_sim rep w1 None [] js
         else np_sim rep w1 (Some (ws ! pick ws, f + len (ws ! pick ws))) (drop_nth (pick ws) ws) js"
        using step_complete [of w j f ws js] less.prems Some jf False by blast
      show ?thesis
      proof (cases "ws = []")
        case True
        then show ?thesis using less.hyps [of js "[]" None w1] w1 Some jf np_spec_done [OF False] by simp
      next
        case ne: False
        have i: "pick ws < length ws" "length (drop_nth (pick ws) ws) < length ws"
          using pick_less [OF ne] length_drop_nth by auto
        then show ?thesis
          using less.hyps [of js "drop_nth (pick ws) ws" "Some (ws ! pick ws, f + len (ws ! pick ws))" w1]
            w1 Some jf ne np_spec_next [OF False] by simp
      qed
    qed
  qed
qed

text \<open>The whole run, from the state \<open>traceRun\<close> has prepared.\<close>

lemma trace_run:
  assumes w: "\<forall>n. malloc_ok w n" "queue w = []" "completionEvent w = NULL" "jobs w = Map.empty" "simTime w = 0"
    and rep: "rep (malloc_ctr w) (schedulerInfo w) None []" and tf: "traceFile w = map Some ls"
    and time: "np_time 0 None [] ls"
  shows "\<exists>w'. do { w \<leftarrow> traceScheduleNextArrival w; simulatorRun invoke w } = Some w' \<and>
           queue w' = [] \<and> completionEvent w' = NULL \<and> jobs w' = Map.empty \<and>
           rep (malloc_ctr w') (schedulerInfo w') None [] \<and>
           outFile w' = outFile w @ map (\<lambda>(i, t). (i, of_nat t)) (np_spec pick None [] ls)"
proof (cases ls)
  case Nil
  then have "np_sim rep w None [] []"
    using assms
    by (intro exI [of _ None] exI [of _ "[]"] exI [of _ None] exI [of _ "[]"]
        | simp add: np_sim_def np_head_def np_events_def np_rest_def np_abs_def store_ok_def job_refs_def)+
  then show ?thesis
    using run_np_spec Nil tf by (fastforce simp: traceScheduleNextArrival_def)
next
  case (Cons k ks)
  let ?a = "malloc_ctr w"
  let ?c = "\<lparr>com_ptr = ?a, com_line = k, com_node = Suc (Suc ?a), com_eid = sim_id w\<rparr>"
  let ?w = "w\<lparr>traceFile := map Some ks, jobs := (jobs w)(?a \<mapsto> mk_job k), currentJob := Some ?a,
    sim_id := sim_id w + 1, malloc_ctr := Suc (Suc (Suc ?a)), queue := [arr_event ?c]\<rparr>"
  have next_arr: "traceScheduleNextArrival w = Some ?w"
    using w tf Cons
    by (cases k) (simp add: traceScheduleNextArrival_def malloc_def jobCreate_def mk_job_def
        simulatorSchedule_ok arr_event_def l_insert_def)
  have "store_ok ?w ([] @ [(malloc_ctr w, k)])"
    by (rule store_ok_add [of w]) (use w in \<open>simp_all add: store_ok_def\<close>)
  then have "np_head rep ?w None [] (Some ?c) ks"
    using w rep_mono [OF rep] by (simp add: np_head_def np_events_def np_rest_def job_refs_def)
  then have "np_sim rep ?w None [] ls"
    unfolding np_sim_def using time w Cons
    by (intro exI [of _ None] exI [of _ "[]"] exI [of _ "Some ?c"] exI [of _ ks]) (simp add: np_abs_def)
  then show ?thesis using run_np_spec next_arr by fastforce
qed

lemma traceRun_np:
  assumes create: "\<And>w :: world. (\<forall>n. malloc_ok w n) \<Longrightarrow>
      \<exists>c i. schedulerCreate name w = (True, w\<lparr>malloc_ctr := c, completionEvent := NULL, schedulerInfo := i\<rparr>) \<and>
        rep c i None []"
    and no_mlfq: "\<And>c m. \<not> rep c (MLFQ m) None []"
    and time: "np_time 0 None [] ls"
  shows "traceRun (\<lambda>_. True) True True (map Some ls) name =
    Some (True, map (\<lambda>(i, t). (i, of_nat t)) (np_spec pick None [] ls))"
proof -
  let ?w = "simulator_t.extend \<lparr>queue = [], simTime = 0, sim_id = 0, malloc_ctr = 3, malloc_ok = \<lambda>_. True\<rparr>
     \<lparr>completionEvent = NULL, schedulerInfo = FCFS \<lparr>fcfs_jobQueue = []\<rparr>, jobs = Map.empty,
      traceFile = map Some ls, currentJob = NULL, outFile = []\<rparr>"
  have ok: "\<forall>n. malloc_ok ?w n" by (simp add: simulator_t.defs)
  obtain c i where ci: "schedulerCreate name ?w = (True, ?w\<lparr>malloc_ctr := c, completionEvent := NULL, schedulerInfo := i\<rparr>)"
    "rep c i None []"
    using create [OF ok] by blast
  let ?w1 = "?w\<lparr>malloc_ctr := c, completionEvent := NULL, schedulerInfo := i\<rparr>"
  have "\<exists>w'. do { w \<leftarrow> traceScheduleNextArrival ?w1; simulatorRun invoke w } = Some w' \<and>
           queue w' = [] \<and> completionEvent w' = NULL \<and> jobs w' = Map.empty \<and>
           rep (malloc_ctr w') (schedulerInfo w') None [] \<and>
           outFile w' = outFile ?w1 @ map (\<lambda>(i, t). (i, of_nat t)) (np_spec pick None [] ls)"
    by (rule trace_run) (use ci time in \<open>simp_all add: simulator_t.defs\<close>)
  then obtain w' where w': "do { w \<leftarrow> traceScheduleNextArrival ?w1; simulatorRun invoke w } = Some w'"
    "queue w' = []" "completionEvent w' = NULL" "rep (malloc_ctr w') (schedulerInfo w') None []"
    "outFile w' = map (\<lambda>(i, t). (i, of_nat t)) (np_spec pick None [] ls)"
    by (auto simp: simulator_t.defs)
  have "schedulerDestroy w' = Some (w', Map.empty)"
    using w'(3,4) no_mlfq by (cases "schedulerInfo w'") (simp_all add: schedulerDestroy_def)
  moreover have "simulatorDestroy w' = Some w'"
    using w'(2) by (subst simulatorDestroy.simps) (simp add: l_count_def)
  ultimately show ?thesis
    using w'(1,5) ci(1) by (auto simp: traceRun_def simulatorCreate_def Let_def bind_eq_Some_conv numeral_eq_Suc)
qed

end

end
