(* ===== verification/Policies.thy ===== *)
theory Policies
  imports Nonpreemptive
begin

text \<open>
  The three policies without preemption satisfy the contract of \<open>Nonpreemptive\<close>: first come
  first served runs the oldest waiting job, last come first served the newest, shortest
  job first the one with the least (time, id).
\<close>

subsection \<open>First come, first served\<close>

definition fcfs_pick :: "trace_line list \<Rightarrow> nat" where
  "fcfs_pick ws = length ws - 1"

definition fcfs_rep :: policy_rep where
  "fcfs_rep c i r ps \<longleftrightarrow>
     (\<exists>q. i = FCFS \<lparr>fcfs_jobQueue = q\<rparr> \<and> distinct (map fst q) \<and> (\<forall>n \<in> fst ` set q. n < c) \<and>
        map snd q = map Some ps @ (case r of None \<Rightarrow> [] | Some p \<Rightarrow> [Some p]) \<and> (r = None \<longrightarrow> ps = []))"

lemma l_count_1: "length q < 2 ^ 64 \<Longrightarrow> l_count q = 1 \<longleftrightarrow> length q = 1"
  using of_nat_u64_inject [of "length q" 1] by (simp add: l_count_def)

lemma l_count_pos: "length q < 2 ^ 64 \<Longrightarrow> l_count q > 0 \<longleftrightarrow> q \<noteq> []"
  "length q < 2 ^ 64 \<Longrightarrow> l_count q = 0 \<longleftrightarrow> q = []"
  using of_nat_u64_eq_0 [of "length q"] by (auto simp: l_count_def word_gt_0)

lemma map_snd_SomeD:
  assumes "map snd q = map Some ps @ [Some p]"
  obtains q' n where "q = q' @ [(n, Some p)]" "map snd q' = map Some ps" "length q' = length ps"
proof -
  obtain q' x where q: "q = q' @ [x]" using assms by (cases q rule: rev_cases) auto
  then have "map snd q' = map Some ps" "snd x = Some p" using assms by auto
  moreover have "length q' = length ps" using calculation(1) by (metis length_map)
  ultimately show ?thesis using that q by (metis prod.collapse)
qed

lemma fcfs_arrive_idle:
  assumes "fcfs_rep (malloc_ctr w) (schedulerInfo w) None []" "\<forall>n. malloc_ok w n" "jobs w p = Some (mk_job l)"
  shows "\<exists>i. fcfs_rep (Suc (malloc_ctr w)) i (Some p) [] \<and>
    schedulerScheduleJob w (Some p) =
      map_option snd (schedulerScheduleNextCompletion
        (w\<lparr>malloc_ctr := Suc (malloc_ctr w), schedulerInfo := i\<rparr>) (simTime w + snd (snd l)))"
  using assms
  by (intro exI [of _ "FCFS \<lparr>fcfs_jobQueue = [(malloc_ctr w, Some p)]\<rparr>"])
    (auto simp: fcfs_rep_def schedulerScheduleJob_def schedulerFCFSScheduleJob_def queue_insert_def
      malloc_def l_insert_def l_count_def simulatorSimTime_def map_option_case split: option.splits)

lemma fcfs_arrive_busy:
  assumes "fcfs_rep (malloc_ctr w) (schedulerInfo w) (Some r) ps" "\<forall>n. malloc_ok w n" "length ps + 2 < 2 ^ 64"
  shows "\<exists>i. fcfs_rep (Suc (malloc_ctr w)) i (Some r) (p # ps) \<and>
    schedulerScheduleJob w (Some p) = Some (w\<lparr>malloc_ctr := Suc (malloc_ctr w), schedulerInfo := i\<rparr>)"
proof -
  obtain q where q: "schedulerInfo w = FCFS \<lparr>fcfs_jobQueue = q\<rparr>" "distinct (map fst q)"
    "\<forall>n \<in> fst ` set q. n < malloc_ctr w" "map snd q = map Some ps @ [Some r]"
    using assms by (auto simp: fcfs_rep_def)
  have "length q = Suc (length ps)" using q(4) by (elim map_snd_SomeD) simp
  then have "l_count ((malloc_ctr w, Some p) # q) \<noteq> 1" using assms(3) by (subst l_count_1) auto
  then show ?thesis
    using q assms by (intro exI [of _ "FCFS \<lparr>fcfs_jobQueue = (malloc_ctr w, Some p) # q\<rparr>"])
      (auto simp: fcfs_rep_def schedulerScheduleJob_def schedulerFCFSScheduleJob_def queue_insert_def
        malloc_def l_insert_def)
qed

lemma fcfs_complete_idle:
  assumes "fcfs_rep (malloc_ctr w) (schedulerInfo w) (Some r) []"
  shows "\<exists>i. fcfs_rep (malloc_ctr w) i None [] \<and>
    schedulerCompleteJob cb w = cb (Some r) (w\<lparr>completionEvent := NULL, schedulerInfo := i\<rparr>)"
proof -
  obtain n where "schedulerInfo w = FCFS \<lparr>fcfs_jobQueue = [(n, Some r)]\<rparr>" using assms by (auto simp: fcfs_rep_def)
  then show ?thesis
    by (intro exI [of _ "FCFS \<lparr>fcfs_jobQueue = []\<rparr>"])
      (simp add: fcfs_rep_def schedulerCompleteJob_def schedulerFCFSCompleteJob_def l_count_def l_remove_def)
qed

lemma fcfs_complete_next:
  assumes "fcfs_rep (malloc_ctr w) (schedulerInfo w) (Some r) ps" "ps \<noteq> []" "length ps + 2 < 2 ^ 64"
    "map (jobs w) ps = map (\<lambda>l. Some (mk_job l)) ws"
  shows "\<exists>i. fcfs_rep (malloc_ctr w) i (Some (ps ! fcfs_pick ws)) (drop_nth (fcfs_pick ws) ps) \<and>
    schedulerCompleteJob cb w =
      do { (_, w) \<leftarrow> schedulerScheduleNextCompletion (w\<lparr>completionEvent := NULL, schedulerInfo := i\<rparr>)
             (simTime w + snd (snd (ws ! fcfs_pick ws)));
           cb (Some r) w }"
proof -
  obtain q where q: "schedulerInfo w = FCFS \<lparr>fcfs_jobQueue = q\<rparr>" "distinct (map fst q)"
    "\<forall>n \<in> fst ` set q. n < malloc_ctr w" "map snd q = map Some ps @ [Some r]"
    using assms(1) by (auto simp: fcfs_rep_def)
  obtain q' n where q': "q = q' @ [(n, Some r)]" "map snd q' = map Some ps" "length q' = length ps"
    using q(4) by (rule map_snd_SomeD)
  obtain ps' p where ps: "ps = ps' @ [p]" using assms(2) by (metis rev_exhaust)
  obtain q'' m where q'': "q' = q'' @ [(m, Some p)]" "map snd q'' = map Some ps'"
    using q'(2) ps by (metis list.simps(8,9) map_append map_snd_SomeD)
  obtain ws' l where ws: "ws = ws' @ [l]" "jobs w p = Some (mk_job l)" "length ws' = length ps'"
    using assms(4) ps by (cases ws rule: rev_cases) (auto dest: map_eq_imp_length_eq)
  have rem: "l_remove q n = q'" using q(2) q'(1) by (auto simp: l_remove_def)
  have cnt: "l_count q \<noteq> 0" "l_count q' > 0" using q' q'' assms(3) by (simp_all add: l_count_pos)
  have ends: "q \<noteq> []" "last q = (n, Some r)" "last q' = (m, Some p)" using q'(1) q''(1) by auto
  have pick: "fcfs_pick ws = length ps'" using ws by (simp add: fcfs_pick_def)
  have "fcfs_rep (malloc_ctr w) (FCFS \<lparr>fcfs_jobQueue = q'\<rparr>) (Some p) ps'"
    using q q' q'' by (auto simp: fcfs_rep_def)
  moreover have "schedulerCompleteJob cb w =
      do { (_, w) \<leftarrow> schedulerScheduleNextCompletion
             (w\<lparr>completionEvent := NULL, schedulerInfo := FCFS \<lparr>fcfs_jobQueue = q'\<rparr>\<rparr>) (simTime w + snd (snd l));
           cb (Some r) w }"
    using q(1) ends rem cnt ws(2)
    by (simp add: schedulerCompleteJob_def schedulerFCFSCompleteJob_def simulatorSimTime_def list.case_eq_if
        Let_def bind_assoc case_prod_unfold)
  ultimately show ?thesis
    using ps ws pick by (auto simp: drop_nth_def nth_append)
qed

interpretation fcfs: np_policy fcfs_pick fcfs_rep
proof (unfold_locales, goal_cases)
  case (1 ws)
  then show ?case by (simp add: fcfs_pick_def)
next
  case (2 c i rn ps c')
  then show ?case by (fastforce simp: fcfs_rep_def)
qed (auto intro: fcfs_arrive_idle fcfs_arrive_busy fcfs_complete_idle fcfs_complete_next)

subsection \<open>Queues that hold the running job among the waiting ones\<close>

definition queue_rep :: "nat \<Rightarrow> (nat \<times> ptr) list \<Rightarrow> nat option \<Rightarrow> nat list \<Rightarrow> bool" where
  "queue_rep c q r ps \<longleftrightarrow>
     distinct (map fst q) \<and> (\<forall>n \<in> fst ` set q. n < c) \<and> distinct ps \<and>
     (case r of None \<Rightarrow> q = [] \<and> ps = []
      | Some p \<Rightarrow> p \<notin> set ps \<and> (\<exists>as n bs. q = as @ (n, Some p) # bs \<and> map snd (as @ bs) = map Some ps))"

lemma queue_rep_mono: "queue_rep c q r ps \<Longrightarrow> c \<le> c' \<Longrightarrow> queue_rep c' q r ps"
  by (fastforce simp: queue_rep_def)

lemma queue_rep_None [simp]: "queue_rep c q None ps \<longleftrightarrow> q = [] \<and> ps = []"
  by (auto simp: queue_rep_def)

lemma queue_rep_single: "queue_rep (Suc c) [(c, Some p)] (Some p) []"
  by (simp add: queue_rep_def)

lemma queue_rep_cons:
  assumes "queue_rep c q (Some r) ps" "p \<noteq> r" "p \<notin> set ps"
  shows "queue_rep (Suc c) ((c, Some p) # q) (Some r) (p # ps)"
proof -
  obtain as n bs where q: "q = as @ (n, Some r) # bs" "map snd (as @ bs) = map Some ps"
    using assms(1) by (auto simp: queue_rep_def)
  have "(c, Some p) # q = ((c, Some p) # as) @ (n, Some r) # bs"
    "map snd (((c, Some p) # as) @ bs) = map Some (p # ps)" using q by simp_all
  moreover have "distinct (map fst ((c, Some p) # q))" "\<forall>n \<in> fst ` set ((c, Some p) # q). n < Suc c"
    using assms(1) by (auto simp: queue_rep_def)
  moreover have "distinct (p # ps)" "r \<notin> set (p # ps)" using assms by (auto simp: queue_rep_def)
  ultimately show ?thesis unfolding queue_rep_def option.case by blast
qed

lemma queue_rep_length: "queue_rep c q (Some r) ps \<Longrightarrow> length q = Suc (length ps)"
  by (auto simp: queue_rep_def dest: arg_cong [where f = length])

lemma l_find_first: "x \<notin> snd ` set as \<Longrightarrow> l_find (as @ (n, x) # bs) x = Some n"
  by (induction as) (auto simp: l_find_def)

text \<open>Finding and removing the node of the finished job leaves the waiting jobs in their order.\<close>

lemma queue_rep_remove:
  assumes "queue_rep c q (Some r) ps"
  obtains a where "l_find q (Some r) = Some a" "map snd (l_remove q a) = map Some ps"
    "distinct (map fst (l_remove q a))" "\<forall>n \<in> fst ` set (l_remove q a). n < c" "distinct ps"
proof -
  obtain as n bs where q: "q = as @ (n, Some r) # bs" "map snd (as @ bs) = map Some ps" "r \<notin> set ps"
    using assms by (auto simp: queue_rep_def)
  have d: "distinct (map fst q)" and b: "\<forall>n \<in> fst ` set q. n < c" "distinct ps" using assms by (simp_all add: queue_rep_def)
  have "Some r \<notin> snd ` set as"
  proof
    assume "Some r \<in> snd ` set as"
    then have "Some r \<in> set (map snd (as @ bs))" by (simp add: image_Un)
    then show False using q(3) by (simp only: q(2)) auto
  qed
  then have find: "l_find q (Some r) = Some n" using q(1) by (simp add: l_find_first)
  have "l_remove q n = as @ bs" using d l_remove_append [of as n "Some r" bs] unfolding q(1) by blast
  then show ?thesis using that [of n] find q d b by auto
qed

lemma queue_rep_pick:
  assumes "map snd q = map Some ps" "distinct (map fst q)" "\<forall>n \<in> fst ` set q. n < c" "distinct ps" "i < length ps"
  shows "queue_rep c q (Some (ps ! i)) (drop_nth i ps)"
proof -
  have len: "length q = length ps" using assms(1) by (rule map_eq_imp_length_eq)
  have snd_i: "snd (q ! i) = Some (ps ! i)" using assms(1,5) len by (metis nth_map)
  have "q = take i q @ (fst (q ! i), Some (ps ! i)) # drop (Suc i) q"
    using id_take_nth_drop [of i q] assms(5) len snd_i by (metis prod.collapse)
  moreover have "map snd (take i q @ drop (Suc i) q) = map Some (drop_nth i ps)"
    using assms(1) by (simp add: drop_nth_def flip: take_map drop_map)
  moreover have "ps ! i \<notin> set (drop_nth i ps)" "distinct (drop_nth i ps)"
    using assms(4,5) mset_drop_nth [OF assms(5)]
    by (metis distinct.simps(2) mset.simps(2) mset_eq_imp_distinct_iff)+
  ultimately show ?thesis using assms(2,3) unfolding queue_rep_def by auto
qed

subsection \<open>Last come, first served\<close>

definition lcfs_pick :: "trace_line list \<Rightarrow> nat" where
  "lcfs_pick ws = 0"

definition lcfs_rep :: policy_rep where
  "lcfs_rep c i r ps \<longleftrightarrow> (\<exists>q. i = LCFS \<lparr>lcfs_jobQueue = q, lcfs_currentJob = r\<rparr> \<and> queue_rep c q r ps)"

lemma lcfs_arrive_idle:
  assumes "lcfs_rep (malloc_ctr w) (schedulerInfo w) None []" "\<forall>n. malloc_ok w n" "jobs w p = Some (mk_job l)"
  shows "\<exists>i. lcfs_rep (Suc (malloc_ctr w)) i (Some p) [] \<and>
    schedulerScheduleJob w (Some p) =
      map_option snd (schedulerScheduleNextCompletion
        (w\<lparr>malloc_ctr := Suc (malloc_ctr w), schedulerInfo := i\<rparr>) (simTime w + snd (snd l)))"
  using assms
  by (intro exI [of _ "LCFS \<lparr>lcfs_jobQueue = [(malloc_ctr w, Some p)], lcfs_currentJob = Some p\<rparr>"])
    (auto simp: lcfs_rep_def schedulerScheduleJob_def schedulerLCFSScheduleJob_def queue_insert_def
      malloc_def l_insert_def l_count_def simulatorSimTime_def map_option_case queue_rep_single split: option.splits)

lemma lcfs_arrive_busy:
  assumes "lcfs_rep (malloc_ctr w) (schedulerInfo w) (Some r) ps" "\<forall>n. malloc_ok w n" "p \<noteq> r"
    "p \<notin> set ps" "length ps + 2 < 2 ^ 64"
  shows "\<exists>i. lcfs_rep (Suc (malloc_ctr w)) i (Some r) (p # ps) \<and>
    schedulerScheduleJob w (Some p) = Some (w\<lparr>malloc_ctr := Suc (malloc_ctr w), schedulerInfo := i\<rparr>)"
proof -
  obtain q where q: "schedulerInfo w = LCFS \<lparr>lcfs_jobQueue = q, lcfs_currentJob = Some r\<rparr>"
    "queue_rep (malloc_ctr w) q (Some r) ps"
    using assms by (auto simp: lcfs_rep_def)
  have "l_count ((malloc_ctr w, Some p) # q) \<noteq> 1"
    using assms(5) queue_rep_length [OF q(2)] by (subst l_count_1) auto
  then show ?thesis
    using q(1) queue_rep_cons [OF q(2) assms(3,4)] assms(2)
    by (intro exI [of _ "LCFS \<lparr>lcfs_jobQueue = (malloc_ctr w, Some p) # q, lcfs_currentJob = Some r\<rparr>"])
      (auto simp: lcfs_rep_def schedulerScheduleJob_def schedulerLCFSScheduleJob_def queue_insert_def
        malloc_def l_insert_def)
qed

lemma lcfs_complete_idle:
  assumes "lcfs_rep (malloc_ctr w) (schedulerInfo w) (Some r) []"
  shows "\<exists>i. lcfs_rep (malloc_ctr w) i None [] \<and>
    schedulerCompleteJob cb w = cb (Some r) (w\<lparr>completionEvent := NULL, schedulerInfo := i\<rparr>)"
proof -
  obtain q where q: "schedulerInfo w = LCFS \<lparr>lcfs_jobQueue = q, lcfs_currentJob = Some r\<rparr>"
    "queue_rep (malloc_ctr w) q (Some r) []"
    using assms by (auto simp: lcfs_rep_def)
  obtain a where "l_find q (Some r) = Some a" "map snd (l_remove q a) = []"
    by (rule queue_rep_remove [OF q(2)]) auto
  then show ?thesis using q(1)
    by (intro exI [of _ "LCFS \<lparr>lcfs_jobQueue = [], lcfs_currentJob = None\<rparr>"])
      (simp add: lcfs_rep_def schedulerCompleteJob_def schedulerLCFSCompleteJob_def l_count_def)
qed

lemma lcfs_complete_next:
  assumes "lcfs_rep (malloc_ctr w) (schedulerInfo w) (Some r) ps" "ps \<noteq> []" "length ps + 2 < 2 ^ 64"
    "map (jobs w) ps = map (\<lambda>l. Some (mk_job l)) ws"
  shows "\<exists>i. lcfs_rep (malloc_ctr w) i (Some (ps ! lcfs_pick ws)) (drop_nth (lcfs_pick ws) ps) \<and>
    schedulerCompleteJob cb w =
      do { (_, w) \<leftarrow> schedulerScheduleNextCompletion (w\<lparr>completionEvent := NULL, schedulerInfo := i\<rparr>)
             (simTime w + snd (snd (ws ! lcfs_pick ws)));
           cb (Some r) w }"
proof -
  obtain q where q: "schedulerInfo w = LCFS \<lparr>lcfs_jobQueue = q, lcfs_currentJob = Some r\<rparr>"
    "queue_rep (malloc_ctr w) q (Some r) ps"
    using assms(1) by (auto simp: lcfs_rep_def)
  obtain a where a: "l_find q (Some r) = Some a" "map snd (l_remove q a) = map Some ps"
    "distinct (map fst (l_remove q a))" "\<forall>n \<in> fst ` set (l_remove q a). n < malloc_ctr w" "distinct ps"
    by (rule queue_rep_remove [OF q(2)])
  let ?q = "l_remove q a"
  obtain p ps' where ps: "ps = p # ps'" using assms(2) by (cases ps) auto
  obtain l ws' where ws: "ws = l # ws'" "jobs w p = Some (mk_job l)" using assms(4) ps by (cases ws) auto
  have "length ?q = length ps" using a(2) by (rule map_eq_imp_length_eq)
  then have cnt: "l_count ?q > 0" using assms(3) ps by (subst l_count_pos) auto
  obtain m q' where hd: "?q = (m, Some p) # q'" using a(2) ps by auto
  have "queue_rep (malloc_ctr w) ?q (Some (ps ! 0)) (drop_nth 0 ps)"
    by (rule queue_rep_pick [OF a(2-5)]) (simp add: ps)
  moreover have "schedulerCompleteJob cb w =
      do { (_, w) \<leftarrow> schedulerScheduleNextCompletion
             (w\<lparr>completionEvent := NULL, schedulerInfo := LCFS \<lparr>lcfs_jobQueue = ?q, lcfs_currentJob = Some p\<rparr>\<rparr>)
             (simTime w + snd (snd l));
           cb (Some r) w }"
    using q(1) a(1) cnt ws(2) hd
    by (simp add: schedulerCompleteJob_def schedulerLCFSCompleteJob_def simulatorSimTime_def
        Let_def bind_assoc case_prod_unfold)
  ultimately show ?thesis
    using ps ws by (auto simp: lcfs_pick_def lcfs_rep_def)
qed

interpretation lcfs: np_policy lcfs_pick lcfs_rep
proof (unfold_locales, goal_cases)
  case (2 c i rn ps c')
  then show ?case using queue_rep_mono by (fastforce simp: lcfs_rep_def)
qed (auto simp: lcfs_pick_def intro: lcfs_arrive_idle lcfs_arrive_busy lcfs_complete_idle
    lcfs_complete_next [unfolded lcfs_pick_def])

subsection \<open>Shortest job first\<close>

definition sjf_less :: "trace_line \<Rightarrow> u64 \<Rightarrow> u64 \<Rightarrow> bool" where
  "sjf_less l t i \<longleftrightarrow> snd (snd l) < t \<or> snd (snd l) = t \<and> line_id l < i"

text \<open>The first line that is least by (time, id).\<close>

fun sjf_pick :: "trace_line list \<Rightarrow> nat" where
  "sjf_pick [] = 0"
| "sjf_pick (l # ls) =
     (if ls \<noteq> [] \<and> sjf_less (ls ! sjf_pick ls) (snd (snd l)) (line_id l) then Suc (sjf_pick ls) else 0)"

lemma sjf_pick_less: "ws \<noteq> [] \<Longrightarrow> sjf_pick ws < length ws"
  by (induction ws) auto

lemma lex_less_trans:
  fixes a b c :: "'a :: linorder" and i j k :: "'b :: linorder"
  shows "a < b \<or> a = b \<and> i < j \<Longrightarrow> b < c \<or> b = c \<and> j < k \<Longrightarrow> a < c \<or> a = c \<and> i < k"
  by (elim disjE conjE; force)

lemma lex_not_less_trans:
  fixes a b c :: "'a :: linorder" and i j k :: "'b :: linorder"
  shows "\<not> (a < b \<or> a = b \<and> i < j) \<Longrightarrow> \<not> (b < c \<or> b = c \<and> j < k) \<Longrightarrow> \<not> (a < c \<or> a = c \<and> i < k)"
  by (cases a b rule: linorder_cases; cases b c rule: linorder_cases) auto

lemma lex_less_asym:
  fixes a b :: "'a :: linorder" and i j :: "'b :: linorder"
  shows "a < b \<or> a = b \<and> i < j \<Longrightarrow> \<not> (b < a \<or> b = a \<and> j < i)"
  by auto

lemma sjf_less_trans:
  "sjf_less l (snd (snd k)) (line_id k) \<Longrightarrow> sjf_less k t i \<Longrightarrow> sjf_less l t i"
  "\<not> sjf_less l (snd (snd k)) (line_id k) \<Longrightarrow> \<not> sjf_less k t i \<Longrightarrow> \<not> sjf_less l t i"
  unfolding sjf_less_def by (fact lex_less_trans, fact lex_not_less_trans)

lemma sjf_pick_least: "l \<in> set ws \<Longrightarrow> \<not> sjf_less l (snd (snd (ws ! sjf_pick ws))) (line_id (ws ! sjf_pick ws))"
proof (induction ws)
  case (Cons k ws)
  show ?case
  proof (cases "ws \<noteq> [] \<and> sjf_less (ws ! sjf_pick ws) (snd (snd k)) (line_id k)")
    case True
    then have "\<not> sjf_less k (snd (snd (ws ! sjf_pick ws))) (line_id (ws ! sjf_pick ws))"
      using lex_less_asym unfolding sjf_less_def by blast
    then show ?thesis using Cons True by auto
  next
    case False
    have "\<not> sjf_less k (snd (snd k)) (line_id k)" by (simp add: sjf_less_def)
    then show ?thesis
      using Cons False sjf_less_trans(2) [of l "ws ! sjf_pick ws" "snd (snd k)" "line_id k"] by auto
  qed
qed simp

lemma sjf_scan_pick:
  "map snd q = map Some ps \<Longrightarrow> map js ps = map (\<lambda>l. Some (mk_job l)) ws \<Longrightarrow>
   sjf_scan js q bt bi nx =
     Some (if ws \<noteq> [] \<and> sjf_less (ws ! sjf_pick ws) bt bi then Some (ps ! sjf_pick ws) else nx)"
proof (induction q arbitrary: ps ws bt bi nx)
  case (Cons x q)
  obtain p ps' where ps: "ps = p # ps'" "snd x = Some p" "map snd q = map Some ps'" using Cons.prems(1) by auto
  obtain l ws' where ws: "ws = l # ws'" "js p = Some (mk_job l)" "map js ps' = map (\<lambda>l. Some (mk_job l)) ws'"
    using Cons.prems(2) ps(1) by (cases ws) auto
  have step: "sjf_scan js (x # q) bt bi nx =
      (if sjf_less l bt bi then sjf_scan js q (snd (snd l)) (line_id l) (Some p) else sjf_scan js q bt bi nx)"
    using ps(2) ws(2) by (cases x) (simp add: sjf_less_def)
  let ?b = "ws' ! sjf_pick ws'"
  show ?case
    unfolding step Cons.IH [OF ps(3) ws(3)]
    using ps(1) ws(1) sjf_less_trans(1) [of ?b l bt bi] sjf_less_trans(2) [of ?b l bt bi] by auto
qed simp

definition sjf_rep :: policy_rep where
  "sjf_rep c i r ps \<longleftrightarrow> (\<exists>q. i = SJF \<lparr>sjf_jobQueue = q, sjf_currentJob = r\<rparr> \<and> queue_rep c q r ps)"

lemma sjf_arrive_idle:
  assumes "sjf_rep (malloc_ctr w) (schedulerInfo w) None []" "\<forall>n. malloc_ok w n" "jobs w p = Some (mk_job l)"
  shows "\<exists>i. sjf_rep (Suc (malloc_ctr w)) i (Some p) [] \<and>
    schedulerScheduleJob w (Some p) =
      map_option snd (schedulerScheduleNextCompletion
        (w\<lparr>malloc_ctr := Suc (malloc_ctr w), schedulerInfo := i\<rparr>) (simTime w + snd (snd l)))"
proof -
  have "schedulerInfo w = SJF \<lparr>sjf_jobQueue = [], sjf_currentJob = None\<rparr>" using assms(1) by (simp add: sjf_rep_def)
  then show ?thesis
    using assms(2,3)
    by (intro exI [of _ "SJF \<lparr>sjf_jobQueue = [(malloc_ctr w, Some p)], sjf_currentJob = Some p\<rparr>"])
      (simp add: sjf_rep_def schedulerScheduleJob_def schedulerSJFScheduleJob_def queue_insert_def
        malloc_def l_insert_def simulatorSimTime_def map_option_case queue_rep_single case_prod_unfold
        split: option.splits)
qed

lemma sjf_arrive_busy:
  assumes "sjf_rep (malloc_ctr w) (schedulerInfo w) (Some r) ps" "\<forall>n. malloc_ok w n" "p \<noteq> r" "p \<notin> set ps"
  shows "\<exists>i. sjf_rep (Suc (malloc_ctr w)) i (Some r) (p # ps) \<and>
    schedulerScheduleJob w (Some p) = Some (w\<lparr>malloc_ctr := Suc (malloc_ctr w), schedulerInfo := i\<rparr>)"
proof -
  obtain q where q: "schedulerInfo w = SJF \<lparr>sjf_jobQueue = q, sjf_currentJob = Some r\<rparr>"
    "queue_rep (malloc_ctr w) q (Some r) ps"
    using assms by (auto simp: sjf_rep_def)
  then show ?thesis
    using queue_rep_cons [OF q(2) assms(3,4)] assms(2)
    by (intro exI [of _ "SJF \<lparr>sjf_jobQueue = (malloc_ctr w, Some p) # q, sjf_currentJob = Some r\<rparr>"])
      (auto simp: sjf_rep_def schedulerScheduleJob_def schedulerSJFScheduleJob_def queue_insert_def
        malloc_def l_insert_def)
qed

lemma sjf_complete_idle:
  assumes "sjf_rep (malloc_ctr w) (schedulerInfo w) (Some r) []"
  shows "\<exists>i. sjf_rep (malloc_ctr w) i None [] \<and>
    schedulerCompleteJob cb w = cb (Some r) (w\<lparr>completionEvent := NULL, schedulerInfo := i\<rparr>)"
proof -
  obtain q where q: "schedulerInfo w = SJF \<lparr>sjf_jobQueue = q, sjf_currentJob = Some r\<rparr>"
    "queue_rep (malloc_ctr w) q (Some r) []"
    using assms by (auto simp: sjf_rep_def)
  obtain a where "l_find q (Some r) = Some a" "map snd (l_remove q a) = []"
    by (rule queue_rep_remove [OF q(2)]) auto
  then show ?thesis using q(1)
    by (intro exI [of _ "SJF \<lparr>sjf_jobQueue = [], sjf_currentJob = None\<rparr>"])
      (simp add: sjf_rep_def schedulerCompleteJob_def schedulerSJFCompleteJob_def)
qed

lemma sjf_complete_next:
  assumes "sjf_rep (malloc_ctr w) (schedulerInfo w) (Some r) ps" "ps \<noteq> []"
    "map (jobs w) ps = map (\<lambda>l. Some (mk_job l)) ws" "\<forall>l \<in> set ws. snd (snd l) < UINT64_MAX"
  shows "\<exists>i. sjf_rep (malloc_ctr w) i (Some (ps ! sjf_pick ws)) (drop_nth (sjf_pick ws) ps) \<and>
    schedulerCompleteJob cb w =
      do { (_, w) \<leftarrow> schedulerScheduleNextCompletion (w\<lparr>completionEvent := NULL, schedulerInfo := i\<rparr>)
             (simTime w + snd (snd (ws ! sjf_pick ws)));
           cb (Some r) w }"
proof -
  obtain q where q: "schedulerInfo w = SJF \<lparr>sjf_jobQueue = q, sjf_currentJob = Some r\<rparr>"
    "queue_rep (malloc_ctr w) q (Some r) ps"
    using assms(1) by (auto simp: sjf_rep_def)
  obtain a where a: "l_find q (Some r) = Some a" "map snd (l_remove q a) = map Some ps"
    "distinct (map fst (l_remove q a))" "\<forall>n \<in> fst ` set (l_remove q a). n < malloc_ctr w" "distinct ps"
    by (rule queue_rep_remove [OF q(2)])
  let ?q = "l_remove q a" and ?i = "sjf_pick ws"
  have len: "length ws = length ps" using assms(3) by (metis map_eq_imp_length_eq)
  then have ne: "ws \<noteq> []" using assms(2) by auto
  have i: "?i < length ps" using sjf_pick_less [OF ne] len by simp
  have job: "jobs w (ps ! ?i) = Some (mk_job (ws ! ?i))" using assms(3) i len by (metis nth_map)
  have "sjf_less (ws ! ?i) UINT64_MAX UINT64_MAX" using assms(4) i len by (simp add: sjf_less_def)
  then have scan: "sjf_scan (jobs w) ?q UINT64_MAX UINT64_MAX NULL = Some (Some (ps ! ?i))"
    using sjf_scan_pick [OF a(2) assms(3)] ne by simp
  have "queue_rep (malloc_ctr w) ?q (Some (ps ! ?i)) (drop_nth ?i ps)" by (rule queue_rep_pick [OF a(2-5) i])
  moreover have "schedulerCompleteJob cb w =
      do { (_, w) \<leftarrow> schedulerScheduleNextCompletion
             (w\<lparr>completionEvent := NULL, schedulerInfo := SJF \<lparr>sjf_jobQueue = ?q, sjf_currentJob = Some (ps ! ?i)\<rparr>\<rparr>)
             (simTime w + snd (snd (ws ! ?i)));
           cb (Some r) w }"
    using q(1) a(1) scan job
    by (simp add: schedulerCompleteJob_def schedulerSJFCompleteJob_def simulatorSimTime_def
        Let_def bind_assoc case_prod_unfold)
  ultimately show ?thesis by (auto simp: sjf_rep_def)
qed

interpretation sjf: np_policy sjf_pick sjf_rep
proof (unfold_locales, goal_cases)
  case (2 c i rn ps c')
  then show ?case using queue_rep_mono by (fastforce simp: sjf_rep_def)
qed (auto intro: sjf_pick_less sjf_arrive_idle sjf_arrive_busy sjf_complete_idle sjf_complete_next)

subsection \<open>Whole traces\<close>

text \<open>
  A trace in order of arrival whose times do not reach the last value of the 64-bit clock,
  which the code uses as a sentinel.
\<close>

definition trace_ok :: "trace_line list \<Rightarrow> bool" where
  "trace_ok ls \<longleftrightarrow> sorted (map arr ls) \<and> (\<forall>k \<in> set ls. arr k + sum_list (map len ls) < 2 ^ 64 - 1) \<and>
     length ls + 2 < 2 ^ 64"

lemma trace_ok_time: "trace_ok ls \<Longrightarrow> np_time 0 None [] ls"
  by (simp add: trace_ok_def np_time_def)

definition out_lines :: "(u64 \<times> nat) list \<Rightarrow> (u64 \<times> u64) list" where
  "out_lines = map (\<lambda>(i, t). (i, of_nat t))"

lemma schedulerCreate_policies:
  assumes "\<forall>n. malloc_ok (w :: world) n"
  shows "schedulerCreate ''FCFS'' w = (True, w\<lparr>malloc_ctr := malloc_ctr w + 3, completionEvent := NULL,
           schedulerInfo := FCFS \<lparr>fcfs_jobQueue = []\<rparr>\<rparr>)"
    and "schedulerCreate ''LCFS'' w = (True, w\<lparr>malloc_ctr := malloc_ctr w + 3, completionEvent := NULL,
           schedulerInfo := LCFS \<lparr>lcfs_jobQueue = [], lcfs_currentJob = NULL\<rparr>\<rparr>)"
    and "schedulerCreate ''SJF'' w = (True, w\<lparr>malloc_ctr := malloc_ctr w + 3, completionEvent := NULL,
           schedulerInfo := SJF \<lparr>sjf_jobQueue = [], sjf_currentJob = NULL\<rparr>\<rparr>)"
  using assms by (simp_all add: schedulerCreate_def schedulerFCFSCreate_def schedulerLCFSCreate_def
      schedulerSJFCreate_def malloc_def numeral_3_eq_3)

text \<open>First come first served in closed form: each job starts when it has arrived and the one before is done.\<close>

fun fcfs_times :: "nat \<Rightarrow> trace_line list \<Rightarrow> (u64 \<times> nat) list" where
  "fcfs_times t [] = []"
| "fcfs_times t (l # ls) = (let f = max t (arr l) + len l in (line_id l, f) # fcfs_times f ls)"

lemma np_spec_fcfs_running:
  "sorted (map arr js) \<Longrightarrow> \<forall>k \<in> set ws. arr k \<le> f \<Longrightarrow>
   np_spec fcfs_pick (Some (j, f)) ws js = (line_id j, f) # fcfs_times f (rev ws @ js)"
proof (induction "3 * length js + 2 * length ws" arbitrary: j f ws js rule: less_induct)
  case less
  show ?case
  proof (cases "js \<noteq> [] \<and> arr (hd js) < f")
    case True
    then obtain k ks where js: "js = k # ks" by (cases js) auto
    then show ?thesis using less.hyps [of ks "k # ws" f j] less.prems True by (simp add: np_spec_arrive)
  next
    case False
    have late: "\<forall>k \<in> set js. f \<le> arr k" using False less.prems(1) by (cases js) auto
    show ?thesis
    proof (cases ws rule: rev_cases)
      case Nil
      show ?thesis
      proof (cases js)
        case Nil
        then show ?thesis using \<open>ws = []\<close> np_spec_done [of js f fcfs_pick j] by simp
      next
        case (Cons k ks)
        then have "np_spec fcfs_pick (Some (k, arr k + len k)) [] ks =
            (line_id k, arr k + len k) # fcfs_times (arr k + len k) ks"
          using less.hyps [of ks "[]" "arr k + len k" k] less.prems by simp
        then show ?thesis using \<open>ws = []\<close> np_spec_done [OF False] Cons late by (simp add: Let_def max_def)
      qed
    next
      case (snoc ws' k)
      have pick: "fcfs_pick ws = length ws'" "drop_nth (length ws') ws = ws'" "ws ! length ws' = k"
        using snoc by (simp_all add: fcfs_pick_def drop_nth_def)
      have "np_spec fcfs_pick (Some (k, f + len k)) ws' js = (line_id k, f + len k) # fcfs_times (f + len k) (rev ws' @ js)"
        using less.hyps [of js ws' "f + len k" k] less.prems snoc by (simp add: trans_le_add1)
      then show ?thesis
        using np_spec_next [OF False, of fcfs_pick ws j] pick less.prems(2) snoc
        by (simp add: Let_def max_absorb1)
    qed
  qed
qed

lemma np_spec_fcfs: "sorted (map arr ls) \<Longrightarrow> np_spec fcfs_pick None [] ls = fcfs_times 0 ls"
  by (cases ls) (simp_all add: np_spec_fcfs_running Let_def)

lemma policy_runs:
  assumes "trace_ok ls"
  shows "traceRun (\<lambda>_. True) True True (map Some ls) ''FCFS'' = Some (True, out_lines (np_spec fcfs_pick None [] ls))"
    and "traceRun (\<lambda>_. True) True True (map Some ls) ''LCFS'' = Some (True, out_lines (np_spec lcfs_pick None [] ls))"
    and "traceRun (\<lambda>_. True) True True (map Some ls) ''SJF'' = Some (True, out_lines (np_spec sjf_pick None [] ls))"
  unfolding out_lines_def
  by (rule fcfs.traceRun_np lcfs.traceRun_np sjf.traceRun_np;
      (rule trace_ok_time [OF assms])?; (subst schedulerCreate_policies; assumption?)?;
      fastforce simp: fcfs_rep_def lcfs_rep_def sjf_rep_def)+

text \<open>
  C5. A run of the simulator under FCFS on any trace in order of arrival (whose times fit the
  clock) ends and writes one line per job, in the order of the trace: each job finishes
  its length after the later of its arrival and the end of the job before it.
\<close>

theorem trace_fcfs:
  assumes "trace_ok ls"
  shows "traceRun (\<lambda>_. True) True True (map Some ls) ''FCFS'' = Some (True, out_lines (fcfs_times 0 ls))"
proof -
  have "sorted (map arr ls)" using assms by (simp add: trace_ok_def)
  then show ?thesis
    using policy_runs(1) [OF assms] np_spec_fcfs by simp
qed

definition example_trace :: "trace_line list" where
  "example_trace = [(1, 0, 10), (2, 5, 5), (3, 7, 1)]"

lemma example_trace_ok: "trace_ok example_trace"
  by (simp add: trace_ok_def example_trace_def arr_def len_def)

theorem trace_fcfs_witness:
  "traceRun (\<lambda>_. True) True True (map Some example_trace) ''FCFS'' = Some (True, [(1, 10), (2, 15), (3, 16)])"
  using trace_fcfs [OF example_trace_ok]
  by (simp add: example_trace_def out_lines_def arr_def len_def line_id_def)

text \<open>
  C10. Under LCFS the run ends and writes what the schedule says in which the newest waiting
  job is started whenever a job completes; under SJF it is the first job that is least by
  (time, id) among all that wait.
\<close>

theorem trace_lcfs_sjf:
  assumes "trace_ok ls"
  shows "traceRun (\<lambda>_. True) True True (map Some ls) ''LCFS'' = Some (True, out_lines (np_spec (\<lambda>_. 0) None [] ls)) \<and>
         traceRun (\<lambda>_. True) True True (map Some ls) ''SJF'' = Some (True, out_lines (np_spec sjf_pick None [] ls)) \<and>
         (\<forall>ws. \<forall>l \<in> set ws. sjf_pick ws < length ws \<and> \<not> sjf_less l (snd (snd (ws ! sjf_pick ws))) (line_id (ws ! sjf_pick ws)))"
proof -
  have "lcfs_pick = (\<lambda>_. 0)" by (simp add: lcfs_pick_def fun_eq_iff)
  then show ?thesis
    using policy_runs(2,3) [OF assms] by (auto intro: sjf_pick_less simp: sjf_pick_least)
qed

lemma example_trace_spec:
  "np_spec (\<lambda>_. 0) None [] example_trace = [(1, 10), (3, 11), (2, 16)]"
  "np_spec sjf_pick None [] example_trace = [(1, 10), (3, 11), (2, 16)]"
  by code_simp+

theorem trace_lcfs_sjf_witness:
  "traceRun (\<lambda>_. True) True True (map Some example_trace) ''LCFS'' = Some (True, [(1, 10), (3, 11), (2, 16)]) \<and>
   traceRun (\<lambda>_. True) True True (map Some example_trace) ''SJF'' = Some (True, [(1, 10), (3, 11), (2, 16)])"
  using trace_lcfs_sjf [OF example_trace_ok] by (simp add: example_trace_spec out_lines_def)

end
