(* ===== verification/Mlfq_Spec.thy ===== *)
theory Mlfq_Spec
  imports Policies
begin

text \<open>
  What a run of the trace driver under the multi-level feedback queue computes, on
  lists: the levels are first-in first-out queues of tasks, a task a trace line with the
  time it still needs, and the running task has a quantum of one unit. \<open>mlfq_spec\<close> is the
  schedule; the lemmas are what makes it a schedule: it completes every job once, none
  before its work is done, and it never idles while there is work.
\<close>

subsection \<open>Levels\<close>

definition level_add :: "nat \<Rightarrow> 'a \<Rightarrow> 'a list list \<Rightarrow> 'a list list" where
  "level_add v x qs = qs[v := qs ! v @ [x]]"

text \<open>The head of the highest level that is not empty, with its level and what is left.\<close>

fun highest :: "'a list list \<Rightarrow> (nat \<times> 'a \<times> 'a list list) option" where
  "highest [] = None"
| "highest ([] # qs) = map_option (\<lambda>(v, x, qs). (Suc v, x, [] # qs)) (highest qs)"
| "highest ((x # q) # qs) = Some (0, x, q # qs)"

lemma level_add_length [simp]: "length (level_add v x qs) = length qs"
  by (simp add: level_add_def)

lemma map_level_add: "v < length qs \<Longrightarrow> map (map f) (level_add v x qs) = level_add v (f x) (map (map f) qs)"
  by (simp add: level_add_def map_update)

text \<open>What waits on any level.\<close>

definition waiting :: "'a list list \<Rightarrow> 'a multiset" where
  "waiting qs = mset (concat qs)"

lemma waiting_simps [simp]: "waiting [] = {#}" "waiting (q # qs) = mset q + waiting qs"
  by (simp_all add: waiting_def)

lemma waiting_level_add: "v < length qs \<Longrightarrow> waiting (level_add v x qs) = add_mset x (waiting qs)"
proof (induction qs arbitrary: v)
  case (Cons q qs)
  then show ?case by (cases v) (auto simp: level_add_def)
qed simp

lemma map_highest:
  "highest (map (map f) qs) = map_option (\<lambda>(v, x, qs). (v, f x, map (map f) qs)) (highest qs)"
  by (induction qs rule: highest.induct) (auto simp: option.map_comp intro!: option.map_cong)

lemma highest_None: "highest qs = None \<longleftrightarrow> waiting qs = {#}"
  by (induction qs rule: highest.induct) auto

lemma highest_Some:
  assumes "highest qs = Some (v, x, qs')"
  shows "v < length qs" "qs ! v = x # qs' ! v" "qs' = qs[v := qs' ! v]" "length qs' = length qs"
    "waiting qs = add_mset x (waiting qs')"
  using assms by (induction qs arbitrary: v qs' rule: highest.induct; fastforce)+

subsection \<open>The schedule\<close>

text \<open>A waiting task has its remaining time; the running one its level and the start of its quantum as well.\<close>

type_synonym task = "trace_line \<times> nat"
type_synonym running_task = "nat \<times> task \<times> nat"

definition dispatch :: "nat \<Rightarrow> task list list \<Rightarrow> running_task option \<times> task list list" where
  "dispatch t qs = (case highest qs of None \<Rightarrow> (None, qs) | Some (v, x, qs) \<Rightarrow> (Some (v, x, t), qs))"

definition task_work :: "task \<Rightarrow> nat" where
  "task_work x = Suc (snd x)"

definition spec_measure :: "running_task option \<Rightarrow> task list list \<Rightarrow> trace_line list \<Rightarrow> nat" where
  "spec_measure cur qs js =
     (case cur of None \<Rightarrow> 0 | Some (_, x, _) \<Rightarrow> task_work x) + (\<Sum>x \<in># waiting qs. task_work x) +
     sum_list (map (\<lambda>k. Suc (Suc (len k))) js)"

lemma measure_dispatch: "dispatch t qs = (cur, qs') \<Longrightarrow> spec_measure cur qs' js = spec_measure None qs js"
  by (auto simp: dispatch_def spec_measure_def split: option.splits dest: highest_Some(5))

lemma measure_add: "spec_measure None (level_add v x qs) js \<le> task_work x + spec_measure None qs js"
  by (cases "v < length qs")
    (simp add: spec_measure_def waiting_level_add, simp add: spec_measure_def level_add_def list_update_beyond)

lemma measure_running: "spec_measure (Some (v, x, s)) qs js = task_work x + spec_measure None qs js"
  by (simp add: spec_measure_def)

lemma measure_tl: "js \<noteq> [] \<Longrightarrow> spec_measure cur qs js = Suc (Suc (len (hd js))) + spec_measure cur qs (tl js)"
  by (cases js) (simp_all add: spec_measure_def)

text \<open>
  An arrival while a job runs goes to the highest level; unless the running job is of that
  level, it goes back to its own and the choice is made anew. At the end of a quantum the
  job moves one level down, or has completed.
\<close>

function mlfq_spec :: "running_task option \<Rightarrow> task list list \<Rightarrow> trace_line list \<Rightarrow> (u64 \<times> nat) list" where
  "mlfq_spec None qs [] = []"
| "mlfq_spec None qs (k # js) =
     (case dispatch (arr k) (level_add 0 (k, len k) qs) of (cur, qs) \<Rightarrow> mlfq_spec cur qs js)"
| "mlfq_spec (Some (v, (j, r), s)) qs js =
     (let fin = s + min 1 r in
      if js \<noteq> [] \<and> arr (hd js) < fin then
        (let k = hd js; qs = level_add 0 (k, len k) qs in
         if v = 0 then mlfq_spec (Some (v, (j, r), s)) qs (tl js)
         else case dispatch (arr k) (level_add v (j, r) qs) of (cur, qs) \<Rightarrow> mlfq_spec cur qs (tl js))
      else if 1 < r then
        (case dispatch fin (level_add (min (Suc v) (MAX_MLFQ_LEVELS - 1)) (j, r - 1) qs) of
           (cur, qs) \<Rightarrow> mlfq_spec cur qs js)
      else (line_id j, fin) # (case dispatch fin qs of (cur, qs) \<Rightarrow> mlfq_spec cur qs js))"
  by pat_completeness auto

termination
proof (relation "measure (\<lambda>(cur, qs, js). spec_measure cur qs js)", goal_cases)
  case 1
  show ?case by simp
next
  case (2 qs k js cur qs')
  then show ?case
    using measure_dispatch [of "arr k" "level_add 0 (k, len k) qs" cur qs' js]
      measure_add [of 0 "(k, len k)" qs js] measure_tl [of "k # js" None qs]
    by (simp add: task_work_def)
next
  case (3 v j r s qs js fin k qs')
  then show ?case
    using measure_add [of 0 "(hd js, len (hd js))" qs "tl js"] measure_tl [of js "Some (v, (j, r), s)" qs]
    by (simp add: measure_running task_work_def)
next
  case (4 v j r s qs js fin k qs' cur qs'')
  then show ?case
    using measure_dispatch [of "arr k" "level_add v (j, r) qs'" cur qs'' "tl js"]
      measure_add [of v "(j, r)" qs' "tl js"] measure_add [of 0 "(hd js, len (hd js))" qs "tl js"]
      measure_tl [of js "Some (v, (j, r), s)" qs]
    by (simp add: measure_running task_work_def)
next
  case (5 v j r s qs js fin cur qs')
  then show ?case
    using measure_dispatch [of fin "level_add (min (Suc v) (MAX_MLFQ_LEVELS - 1)) (j, r - 1) qs" cur qs' js]
      measure_add [of "min (Suc v) (MAX_MLFQ_LEVELS - 1)" "(j, r - 1)" qs js]
    by (simp add: measure_running task_work_def)
next
  case (6 v j r s qs js fin cur qs')
  then show ?case
    using measure_dispatch [of fin qs cur qs' js] by (simp add: measure_running task_work_def)
qed

declare mlfq_spec.simps(3) [simp del]

text \<open>The branches as equations, and the induction over the schedule with the levels in bounds.\<close>

lemma mlfq_spec_join:
  "arr k < s + min 1 r \<Longrightarrow>
   mlfq_spec (Some (0, (j, r), s)) qs (k # js) = mlfq_spec (Some (0, (j, r), s)) (level_add 0 (k, len k) qs) js"
  by (subst mlfq_spec.simps(3)) (simp add: Let_def)

lemma mlfq_spec_preempt:
  "arr k < s + min 1 r \<Longrightarrow> 0 < v \<Longrightarrow>
   dispatch (arr k) (level_add v (j, r) (level_add 0 (k, len k) qs)) = (cur, qs') \<Longrightarrow>
   mlfq_spec (Some (v, (j, r), s)) qs (k # js) = mlfq_spec cur qs' js"
  by (subst mlfq_spec.simps(3)) (simp add: Let_def)

lemma mlfq_spec_quantum:
  "\<not> (js \<noteq> [] \<and> arr (hd js) < s + min 1 r) \<Longrightarrow> 1 < r \<Longrightarrow>
   dispatch (s + 1) (level_add (min (Suc v) (MAX_MLFQ_LEVELS - 1)) (j, r - 1) qs) = (cur, qs') \<Longrightarrow>
   mlfq_spec (Some (v, (j, r), s)) qs js = mlfq_spec cur qs' js"
  by (subst mlfq_spec.simps(3)) (auto simp: Let_def)

lemma mlfq_spec_finish:
  "\<not> (js \<noteq> [] \<and> arr (hd js) < s + r) \<Longrightarrow> r \<le> 1 \<Longrightarrow> dispatch (s + r) qs = (cur, qs') \<Longrightarrow>
   mlfq_spec (Some (v, (j, r), s)) qs js = (line_id j, s + r) # mlfq_spec cur qs' js"
  by (subst mlfq_spec.simps(3)) (auto simp: Let_def)

fun spec_tasks :: "running_task option \<Rightarrow> task list list \<Rightarrow> task multiset" where
  "spec_tasks None qs = waiting qs"
| "spec_tasks (Some (_, x, _)) qs = add_mset x (waiting qs)"

text \<open>Levels in bounds, and what is to come arrives in order and after the quantum began.\<close>

definition state_ok :: "running_task option \<Rightarrow> task list list \<Rightarrow> trace_line list \<Rightarrow> bool" where
  "state_ok cur qs js \<longleftrightarrow> length qs = MAX_MLFQ_LEVELS \<and> sorted (map arr js) \<and>
     (case cur of None \<Rightarrow> waiting qs = {#} | Some (v, _, s) \<Rightarrow> v < MAX_MLFQ_LEVELS \<and> (\<forall>k \<in> set js. s \<le> arr k))"

lemma dispatch_cases:
  assumes "dispatch t qs = (cur, qs')" "length qs = MAX_MLFQ_LEVELS"
  shows "sorted (map arr js) \<Longrightarrow> \<forall>k \<in> set js. t \<le> arr k \<Longrightarrow> state_ok cur qs' js"
    "spec_tasks cur qs' = waiting qs"
    "(\<exists>v x. cur = Some (v, x, t)) \<or> cur = None \<and> waiting qs = {#}"
  using assms highest_Some [of qs]
  by (auto simp: dispatch_def state_ok_def highest_None split: option.splits)

lemma not_earlier: "state_ok cur qs js \<Longrightarrow> \<not> (js \<noteq> [] \<and> arr (hd js) < t) \<Longrightarrow> \<forall>k \<in> set js. t \<le> arr k"
  by (cases js) (auto simp: state_ok_def)

lemma mlfq_spec_induct [consumes 1, case_names stop idle join preempt quantum finish]:
  assumes ok: "state_ok cur qs js"
    and stop: "\<And>qs. waiting qs = {#} \<Longrightarrow> P None qs []"
    and idle: "\<And>qs k js cur' qs'. waiting qs = {#} \<Longrightarrow> length qs = MAX_MLFQ_LEVELS \<Longrightarrow>
      dispatch (arr k) (level_add 0 (k, len k) qs) = (cur', qs') \<Longrightarrow> state_ok cur' qs' js \<Longrightarrow> P cur' qs' js \<Longrightarrow>
      P None qs (k # js)"
    and join: "\<And>j r s qs k js. length qs = MAX_MLFQ_LEVELS \<Longrightarrow> arr k = s \<Longrightarrow> 0 < r \<Longrightarrow>
      state_ok (Some (0, (j, r), s)) (level_add 0 (k, len k) qs) js \<Longrightarrow>
      P (Some (0, (j, r), s)) (level_add 0 (k, len k) qs) js \<Longrightarrow> P (Some (0, (j, r), s)) qs (k # js)"
    and preempt: "\<And>v j r s qs k js cur' qs'. length qs = MAX_MLFQ_LEVELS \<Longrightarrow> v < MAX_MLFQ_LEVELS \<Longrightarrow> 0 < v \<Longrightarrow>
      arr k = s \<Longrightarrow> 0 < r \<Longrightarrow> dispatch (arr k) (level_add v (j, r) (level_add 0 (k, len k) qs)) = (cur', qs') \<Longrightarrow>
      state_ok cur' qs' js \<Longrightarrow> P cur' qs' js \<Longrightarrow> P (Some (v, (j, r), s)) qs (k # js)"
    and quantum: "\<And>v j r s qs js cur' qs'. length qs = MAX_MLFQ_LEVELS \<Longrightarrow> v < MAX_MLFQ_LEVELS \<Longrightarrow> 1 < r \<Longrightarrow>
      \<not> (js \<noteq> [] \<and> arr (hd js) < s + 1) \<Longrightarrow>
      dispatch (s + 1) (level_add (min (Suc v) (MAX_MLFQ_LEVELS - 1)) (j, r - 1) qs) = (cur', qs') \<Longrightarrow>
      state_ok cur' qs' js \<Longrightarrow> P cur' qs' js \<Longrightarrow> P (Some (v, (j, r), s)) qs js"
    and finish: "\<And>v j r s qs js cur' qs'. length qs = MAX_MLFQ_LEVELS \<Longrightarrow> v < MAX_MLFQ_LEVELS \<Longrightarrow> r \<le> 1 \<Longrightarrow>
      \<not> (js \<noteq> [] \<and> arr (hd js) < s + r) \<Longrightarrow> dispatch (s + r) qs = (cur', qs') \<Longrightarrow>
      state_ok cur' qs' js \<Longrightarrow> P cur' qs' js \<Longrightarrow> P (Some (v, (j, r), s)) qs js"
  shows "P cur qs js"
  using ok
proof (induction cur qs js rule: mlfq_spec.induct)
  case (1 qs)
  then show ?case using stop by (simp add: state_ok_def)
next
  case (2 qs k js)
  obtain cur' qs' where d: "dispatch (arr k) (level_add 0 (k, len k) qs) = (cur', qs')" by fastforce
  have "state_ok cur' qs' js" by (intro dispatch_cases(1) [OF d]) (use 2(2) in \<open>simp_all add: state_ok_def\<close>)
  then show ?case using idle [OF _ _ d] 2 d by (simp add: state_ok_def)
next
  case (3 v j r s qs js)
  have v: "length qs = MAX_MLFQ_LEVELS" "v < MAX_MLFQ_LEVELS" using 3(5) by (simp_all add: state_ok_def)
  show ?case
  proof (cases "js \<noteq> [] \<and> arr (hd js) < s + min 1 r")
    case True
    then obtain k ks where js: "js = k # ks" by (cases js) auto
    have k: "arr k = s" "0 < r" using True js 3(5) by (auto simp: state_ok_def min_def split: if_splits)
    show ?thesis
    proof (cases "v = 0")
      case v0: True
      have "state_ok (Some (0, (j, r), s)) (level_add 0 (k, len k) qs) ks" using 3(5) v js by (simp add: state_ok_def)
      then show ?thesis using 3(1) join [of qs k s r j ks] True k js v0 v by simp
    next
      case False
      obtain cur' qs' where d: "dispatch (arr k) (level_add v (j, r) (level_add 0 (k, len k) qs)) = (cur', qs')"
        by fastforce
      have ok': "state_ok cur' qs' ks"
        by (intro dispatch_cases(1) [OF d]) (use v 3(5) js in \<open>simp_all add: state_ok_def\<close>)
      then have "P cur' qs' ks" using 3(2) True js False d by simp
      then show ?thesis using preempt [OF v _ _ _ d ok'] k js False by simp
    qed
  next
    case late: False
    show ?thesis
    proof (cases "1 < r")
      case True
      obtain cur' qs' where
        d: "dispatch (s + 1) (level_add (min (Suc v) (MAX_MLFQ_LEVELS - 1)) (j, r - 1) qs) = (cur', qs')" by fastforce
      have ok': "state_ok cur' qs' js"
        by (intro dispatch_cases(1) [OF d]) (use v not_earlier [OF 3(5) late] 3(5) True in \<open>simp_all add: state_ok_def\<close>)
      then have "P cur' qs' js" using 3(3) late True d by simp
      then show ?thesis using quantum [OF v True _ d ok'] late True by simp
    next
      case False
      obtain cur' qs' where d: "dispatch (s + r) qs = (cur', qs')" by fastforce
      have r: "min 1 r = r" using False by simp
      have ok': "state_ok cur' qs' js"
        by (intro dispatch_cases(1) [OF d]) (use v not_earlier [OF 3(5) late [unfolded r]] 3(5) in \<open>simp_all add: state_ok_def\<close>)
      then have "P cur' qs' js" using 3(4) late False d ok' by (simp add: r)
      then show ?thesis using finish [OF v _ _ d ok', of j] late False by (simp add: r)
    qed
  qed
qed

subsection \<open>Every job completes once\<close>

lemma mlfq_completes_once:
  assumes "state_ok cur qs js"
  shows "mset (map fst (mlfq_spec cur qs js)) =
    image_mset (line_id \<circ> fst) (spec_tasks cur qs) + image_mset line_id (mset js)"
  using assms
proof (induction cur qs js rule: mlfq_spec_induct)
  case (preempt v j r s qs k js cur' qs')
  then show ?case
    using dispatch_cases(2) [OF preempt(6)] by (simp add: mlfq_spec_preempt waiting_level_add)
next
  case (quantum v j r s qs js cur' qs')
  then show ?case
    using dispatch_cases(2) [OF quantum(5)] by (simp add: mlfq_spec_quantum waiting_level_add)
next
  case (finish v j r s qs js cur' qs')
  then show ?case
    using dispatch_cases(2) [OF finish(5)] by (simp add: mlfq_spec_finish)
next
  case (idle qs k js cur' qs')
  then show ?case
    using dispatch_cases(2) [OF idle(3)] by (simp add: waiting_level_add)
qed (simp_all add: mlfq_spec_join waiting_level_add)

subsection \<open>No job completes before its work is done\<close>

definition served :: "nat \<Rightarrow> task \<Rightarrow> bool" where
  "served t x \<longleftrightarrow> arr (fst x) + len (fst x) \<le> t + snd x"

lemma served_mono: "served s y \<Longrightarrow> s \<le> t \<Longrightarrow> served t y"
  by (simp add: served_def)

text \<open>The lines a finished job can be one of, at a state.\<close>

definition lines_of :: "running_task option \<Rightarrow> task list list \<Rightarrow> trace_line list \<Rightarrow> trace_line set" where
  "lines_of cur qs js = fst ` set_mset (spec_tasks cur qs) \<union> set js"

fun all_served :: "running_task option \<Rightarrow> task list list \<Rightarrow> bool" where
  "all_served None qs = True"
| "all_served (Some (_, x, s)) qs = (\<forall>y \<in># add_mset x (waiting qs). served s y)"

lemma dispatch_served:
  assumes "dispatch t qs = (cur, qs')" "length qs = MAX_MLFQ_LEVELS"
  shows "\<forall>y \<in># waiting qs. served t y \<Longrightarrow> all_served cur qs'"
    "lines_of cur qs' js = fst ` set_mset (waiting qs) \<union> set js"
proof -
  show "lines_of cur qs' js = fst ` set_mset (waiting qs) \<union> set js"
    using dispatch_cases(2) [OF assms] by (simp add: lines_of_def)
  show "all_served cur qs'" if "\<forall>y \<in># waiting qs. served t y"
    using dispatch_cases(2,3) [OF assms] that by (auto simp del: set_mset_add_mset_insert)
qed

lemma mlfq_not_early:
  assumes "state_ok cur qs js" "all_served cur qs" "(i, t) \<in> set (mlfq_spec cur qs js)"
  shows "\<exists>l \<in> lines_of cur qs js. line_id l = i \<and> arr l + len l \<le> t"
  using assms
proof (induction cur qs js rule: mlfq_spec_induct)
  case (idle qs k js cur' qs')
  have "all_served cur' qs'"
    by (rule dispatch_served(1) [OF idle(3)]) (use idle(1,2) in \<open>auto simp: waiting_level_add served_def\<close>)
  then show ?case
    using idle dispatch_served(2) [OF idle(3)] by (auto simp: waiting_level_add lines_of_def)
next
  case (join j r s qs k js)
  have "all_served (Some (0, (j, r), s)) (level_add 0 (k, len k) qs)"
    using join(1,2,6) by (simp add: waiting_level_add served_def [of _ "(k, _)"])
  then show ?case
    using join by (auto simp: mlfq_spec_join lines_of_def waiting_level_add)
next
  case (preempt v j r s qs k js cur' qs')
  have "all_served cur' qs'"
    by (rule dispatch_served(1) [OF preempt(6)])
      (use preempt(1,2,4,9) in \<open>auto simp: waiting_level_add served_def\<close>)
  then show ?case
    using preempt dispatch_served(2) [OF preempt(6)] by (auto simp: mlfq_spec_preempt lines_of_def waiting_level_add)
next
  case (quantum v j r s qs js cur' qs')
  have "all_served cur' qs'"
    by (rule dispatch_served(1) [OF quantum(5)])
      (use quantum(1,2,3,8) in \<open>auto simp: waiting_level_add served_def\<close>)
  then show ?case
    using quantum dispatch_served(2) [OF quantum(5)] by (auto simp: mlfq_spec_quantum lines_of_def waiting_level_add)
next
  case (finish v j r s qs js cur' qs')
  have "all_served cur' qs'"
    by (rule dispatch_served(1) [OF finish(5)])
      (use finish(1,8) in \<open>auto intro: served_mono\<close>)
  then show ?case
    using finish dispatch_served(2) [OF finish(5)]
    by (auto simp: mlfq_spec_finish lines_of_def served_def)
qed simp

subsection \<open>No idle time while there is work\<close>

definition fcfs_end :: "nat \<Rightarrow> trace_line list \<Rightarrow> nat" where
  "fcfs_end = foldl (\<lambda>t k. max t (arr k) + len k)"

lemma fcfs_end_simps [simp]: "fcfs_end t [] = t" "fcfs_end t (k # js) = fcfs_end (max t (arr k) + len k) js"
  by (simp_all add: fcfs_end_def)

lemma fcfs_times_end: "ls \<noteq> [] \<Longrightarrow> snd (last (fcfs_times t ls)) = fcfs_end t ls"
proof (induction ls arbitrary: t)
  case (Cons l ls)
  then show ?case by (cases ls) (simp_all add: Let_def)
qed simp

definition work_left :: "task multiset \<Rightarrow> nat" where
  "work_left T = (\<Sum>x \<in># T. snd x)"

lemma work_left_simps [simp]: "work_left {#} = 0" "work_left (add_mset x T) = snd x + work_left T"
  by (simp_all add: work_left_def)

fun last_end :: "running_task option \<Rightarrow> task list list \<Rightarrow> trace_line list \<Rightarrow> nat" where
  "last_end None qs js = fcfs_end 0 js"
| "last_end (Some (v, x, s)) qs js = fcfs_end (s + work_left (add_mset x (waiting qs))) js"

lemma last_end_dispatch:
  assumes "dispatch t qs = (cur, qs')" "length qs = MAX_MLFQ_LEVELS" "cur = None \<Longrightarrow> js \<noteq> [] \<and> t \<le> arr (hd js)"
  shows "last_end cur qs' js = fcfs_end (t + work_left (waiting qs)) js"
  using dispatch_cases(2,3) [OF assms(1,2)] assms(3) by (cases js) (auto simp del: work_left_simps(2))

lemma mlfq_makespan:
  assumes "state_ok cur qs js" "cur \<noteq> None \<or> js \<noteq> []"
  shows "mlfq_spec cur qs js \<noteq> [] \<and> snd (last (mlfq_spec cur qs js)) = last_end cur qs js"
  using assms
proof (induction cur qs js rule: mlfq_spec_induct)
  case (idle qs k js cur' qs')
  have "cur' \<noteq> None" using dispatch_cases(3) [OF idle(3)] idle(2) by (auto simp: waiting_level_add)
  then have "last_end cur' qs' js = fcfs_end (arr k + len k) js"
    using last_end_dispatch [OF idle(3), of js] idle(1,2) by (simp add: waiting_level_add del: not_None_eq)
  then show ?case using idle by (simp add: \<open>cur' \<noteq> None\<close> del: not_None_eq)
next
  case (preempt v j r s qs k js cur' qs')
  have "cur' \<noteq> None" using dispatch_cases(3) [OF preempt(6)] preempt(1,2) by (auto simp: waiting_level_add)
  then show ?case
    using last_end_dispatch [OF preempt(6), of js] preempt
    by (simp add: mlfq_spec_preempt waiting_level_add algebra_simps del: not_None_eq)
next
  case (join j r s qs k js)
  then show ?case by (simp add: mlfq_spec_join waiting_level_add max_absorb1 algebra_simps)
next
  case (quantum v j r s qs js cur' qs')
  have "cur' \<noteq> None" using dispatch_cases(3) [OF quantum(5)] quantum(1,2) by (auto simp: waiting_level_add)
  then show ?case
    using last_end_dispatch [OF quantum(5), of js] quantum
    by (simp add: mlfq_spec_quantum waiting_level_add del: not_None_eq)
next
  case (finish v j r s qs js cur' qs')
  show ?case
  proof (cases "cur' = None \<and> js = []")
    case True
    then show ?thesis using dispatch_cases(3) [OF finish(5)] finish by (auto simp: mlfq_spec_finish)
  next
    case False
    then have "last_end cur' qs' js = fcfs_end (s + r + work_left (waiting qs)) js"
      by (intro last_end_dispatch [OF finish(5)]) (use finish(1,4) in auto)
    then show ?thesis using finish False by (simp add: mlfq_spec_finish add.assoc)
  qed
qed simp_all

text \<open>The empty levels a run starts with.\<close>

definition levels :: "task list list" where
  "levels = replicate MAX_MLFQ_LEVELS []"

end
