(* ===== verification/Mlfq.thy ===== *)
theory Mlfq
  imports Mlfq_Spec
begin

text \<open>
  The multi-level feedback queue of \<open>schedulerMLFQ.c\<close> runs the schedule of \<open>Mlfq_Spec\<close>. A
  task stands for a wrapper \<open>mlfq_job_t\<close>, its job and its trace line; \<open>mlfq_ok\<close> says what the
  policy's struct, the wrappers and the job store are for given levels of tasks. One lemma
  per branch of the two policy functions shows that the branch keeps it and does to the
  tasks what the schedule does; the event loop follows by induction over the schedule.
\<close>

subsection \<open>Stores\<close>

text \<open>A store of objects as the multiset of its cells, all below the next address.\<close>

definition store_as :: "nat \<Rightarrow> (nat \<rightharpoonup> 'v) \<Rightarrow> (nat \<times> 'v) multiset \<Rightarrow> bool" where
  "store_as c m M \<longleftrightarrow> (\<exists>L. mset L = M \<and> distinct (map fst L) \<and> m = map_of L \<and> (\<forall>k \<in> fst ` set L. k < c))"

lemma store_as_mono: "store_as c m M \<Longrightarrow> c \<le> c' \<Longrightarrow> store_as c' m M"
  unfolding store_as_def by (metis order_less_le_trans)

lemma store_as_empty [simp]: "store_as c m {#} \<longleftrightarrow> m = Map.empty"
  by (auto simp: store_as_def)

lemma store_as_cell:
  assumes "store_as c m (add_mset (k, v) M)"
  obtains L where "mset L = M" "distinct (map fst ((k, v) # L))" "m = map_of ((k, v) # L)"
    "\<forall>k \<in> fst ` set ((k, v) # L). k < c"
proof -
  obtain L0 where L0: "mset L0 = add_mset (k, v) M" "distinct (map fst L0)" "m = map_of L0" "\<forall>k \<in> fst ` set L0. k < c"
    using assms by (auto simp: store_as_def)
  obtain L where L: "mset L = M" by (metis ex_mset)
  then have eq: "mset ((k, v) # L) = mset L0" using L0(1) by simp
  have d: "distinct (map fst ((k, v) # L))" using L0(2) eq by (metis mset_eq_imp_distinct_iff mset_map)
  have s: "set ((k, v) # L) = set L0" using eq by (metis set_mset_mset)
  then have "map_of ((k, v) # L) = map_of L0" using d L0(2) map_of_inject_set by metis
  moreover have "\<forall>k \<in> fst ` set ((k, v) # L). k < c" using L0(4) by (simp only: s)
  ultimately show ?thesis using that [OF L d] L0(3) by simp
qed

lemma store_as_get: "store_as c m (add_mset (k, v) M) \<Longrightarrow> m k = Some v"
  by (elim store_as_cell) simp

lemma store_as_set: "store_as c m (add_mset (k, v) M) \<Longrightarrow> store_as c (m(k \<mapsto> v')) (add_mset (k, v') M)"
  by (elim store_as_cell) (force simp: store_as_def intro!: exI [of _ "(k, v') # _"])

lemma store_as_del: "store_as c m (add_mset (k, v) M) \<Longrightarrow> store_as c (m(k := None)) M"
proof (elim store_as_cell)
  fix L assume L: "mset L = M" "distinct (map fst ((k, v) # L))" "m = map_of ((k, v) # L)"
    "\<forall>k \<in> fst ` set ((k, v) # L). k < c"
  then have "(map_of L)(k := None) = map_of L"
    by (metis distinct.simps(2) fst_conv fun_upd_triv list.simps(9) map_of_eq_None_iff set_map)
  then show ?thesis using L by (auto simp: store_as_def)
qed

lemma store_as_new:
  assumes "store_as c m M" "c \<le> k" "k < c'"
  shows "store_as c' (m(k \<mapsto> v)) (add_mset (k, v) M)"
proof -
  obtain L where L: "mset L = M" "distinct (map fst L)" "m = map_of L" "\<forall>k \<in> fst ` set L. k < c"
    using assms(1) by (auto simp: store_as_def)
  then show ?thesis
    using assms(2,3) unfolding store_as_def by (intro exI [of _ "(k, v) # L"]) force
qed

subsection \<open>Tasks\<close>

record mtask =
  t_wrap :: nat
  t_job :: nat
  t_line :: trace_line
  t_rem :: nat
  t_level :: nat

definition abs_task :: "mtask \<Rightarrow> task" where
  "abs_task x = (t_line x, t_rem x)"

abbreviation abs_levels :: "mtask list list \<Rightarrow> task list list" where
  "abs_levels aqs \<equiv> map (map abs_task) aqs"

definition wrapper_of :: "mtask \<Rightarrow> nat \<times> mlfq_job_t" where
  "wrapper_of x = (t_wrap x, \<lparr>mjob = Some (t_job x), mlevel = int (t_level x)\<rparr>)"

definition job_of :: "mtask \<Rightarrow> nat \<times> job_t" where
  "job_of x = (t_job x, (mk_job (t_line x))\<lparr>remainingTime := of_nat (t_rem x)\<rparr>)"

text \<open>The running task, the start of its quantum and the event that ends it.\<close>

record mrun =
  m_task :: mtask
  m_start :: nat
  m_event :: running

definition abs_run :: "mrun \<Rightarrow> running_task" where
  "abs_run m = (t_level (m_task m), abs_task (m_task m), m_start m)"

fun mtasks :: "mrun option \<Rightarrow> mtask list list \<Rightarrow> mtask multiset" where
  "mtasks None aqs = waiting aqs"
| "mtasks (Some m) aqs = add_mset (m_task m) (waiting aqs)"

lemma waiting_abs: "waiting (abs_levels aqs) = image_mset abs_task (waiting aqs)"
  by (induction aqs) auto

lemma spec_tasks_abs: "spec_tasks (map_option abs_run cur) (abs_levels aqs) = image_mset abs_task (mtasks cur aqs)"
  by (cases cur) (simp_all add: waiting_abs abs_run_def)

subsection \<open>The level queues\<close>

definition level_rep :: "nat \<Rightarrow> (nat \<times> ptr) list option \<Rightarrow> mtask list \<Rightarrow> bool" where
  "level_rep c q a \<longleftrightarrow> (\<exists>ns. q = Some ns \<and> distinct (map fst ns) \<and> (\<forall>n \<in> fst ` set ns. n < c) \<and>
     map snd ns = map (\<lambda>x. Some (t_wrap x)) a)"

definition levels_rep :: "nat \<Rightarrow> (nat \<times> ptr) list option list \<Rightarrow> mtask list list \<Rightarrow> bool" where
  "levels_rep c qs aqs \<longleftrightarrow> list_all2 (level_rep c) qs aqs \<and> length aqs = MAX_MLFQ_LEVELS \<and>
     (\<forall>v < MAX_MLFQ_LEVELS. \<forall>x \<in> set (aqs ! v). t_level x = v)"

lemma level_rep_mono: "level_rep c q a \<Longrightarrow> c \<le> c' \<Longrightarrow> level_rep c' q a"
  unfolding level_rep_def by fastforce

lemma level_rep_Nil: "level_rep c q [] \<longleftrightarrow> q = Some []"
  by (auto simp: level_rep_def)

lemma level_rep_Cons:
  "level_rep c q (x # a) \<longleftrightarrow> (\<exists>n ns. q = Some ((n, Some (t_wrap x)) # ns) \<and> n < c \<and> n \<notin> fst ` set ns \<and>
     length ns = length a \<and> level_rep c (Some ns) a)"
  by (auto simp: level_rep_def map_eq_Cons_conv dest: map_eq_imp_length_eq)

lemma levels_rep_mono: "levels_rep c qs aqs \<Longrightarrow> c \<le> c' \<Longrightarrow> levels_rep c' qs aqs"
  unfolding levels_rep_def using level_rep_mono by (blast intro: list_all2_mono)

lemma insert_always_less: "l_insert (Some always_less) ns a d = ns @ [(a, d)]"
proof -
  have "takeWhile (\<lambda>n. always_less (snd n) d < 0) ns = ns" "dropWhile (\<lambda>n. always_less (snd n) d < 0) ns = []"
    by (induction ns) (simp_all add: always_less_def)
  then show ?thesis by (simp add: l_insert_def)
qed

lemma mlfq_insert_rep:
  assumes rep: "levels_rep (malloc_ctr w) (mlfq_queues info) aqs" and v: "t_level x < MAX_MLFQ_LEVELS"
    and ok: "\<forall>n. malloc_ok w n"
  obtains qs where
    "mlfq_insert info (int (t_level x)) (Some (t_wrap x)) w =
       Some (info\<lparr>mlfq_queues := qs\<rparr>, w\<lparr>malloc_ctr := Suc (malloc_ctr w)\<rparr>)"
    "levels_rep (Suc (malloc_ctr w)) qs (level_add (t_level x) x aqs)"
proof -
  let ?v = "t_level x" and ?c = "malloc_ctr w"
  have len: "length (mlfq_queues info) = MAX_MLFQ_LEVELS" and all: "list_all2 (level_rep ?c) (mlfq_queues info) aqs"
    using rep by (auto simp: levels_rep_def dest: list_all2_lengthD)
  then have "level_rep ?c (mlfq_queues info ! ?v) (aqs ! ?v)" using v by (simp add: list_all2_nthD)
  then obtain ns where ns: "mlfq_queues info ! ?v = Some ns" "distinct (map fst ns)" "\<forall>n \<in> fst ` set ns. n < ?c"
    "map snd ns = map (\<lambda>x. Some (t_wrap x)) (aqs ! ?v)"
    by (auto simp: level_rep_def)
  let ?q = "Some (ns @ [(?c, Some (t_wrap x))])"
  have "level_rep (Suc ?c) ?q (aqs ! ?v @ [x])"
    using ns by (auto simp: level_rep_def less_SucI)
  moreover have "list_all2 (level_rep (Suc ?c)) (mlfq_queues info) aqs"
    using all level_rep_mono by (metis le_SucI le_refl list_all2_mono)
  ultimately have "levels_rep (Suc ?c) ((mlfq_queues info)[?v := ?q]) (level_add ?v x aqs)"
    using rep v by (auto simp: levels_rep_def level_add_def nth_list_update intro: list_all2_update_cong)
  then show ?thesis
    using that len ns(1) v ok
    by (simp add: mlfq_insert_def queue_insert_def malloc_def insert_always_less)
qed

lemma pop_highest_rep:
  assumes "list_all2 (level_rep c) qs aqs" "\<forall>a \<in> set aqs. length a < 2 ^ 64"
  obtains qs' where "pop_highest qs = (map_option (\<lambda>(_, x, _). t_wrap x) (highest aqs), qs')"
    "list_all2 (level_rep c) qs' (case highest aqs of None \<Rightarrow> aqs | Some (_, _, aqs') \<Rightarrow> aqs')"
proof -
  have "\<exists>qs'. pop_highest qs = (map_option (\<lambda>(_, x, _). t_wrap x) (highest aqs), qs') \<and>
    list_all2 (level_rep c) qs' (case highest aqs of None \<Rightarrow> aqs | Some (_, _, aqs') \<Rightarrow> aqs')"
    using assms
  proof (induction aqs arbitrary: qs rule: highest.induct)
    case 1
    then show ?case by simp
  next
    case (2 aqs)
    then obtain q qs1 where qs: "qs = Some [] # qs1" "list_all2 (level_rep c) qs1 aqs"
      by (auto simp: list_all2_Cons2 level_rep_Nil)
    have e: "level_rep c (Some []) []" by (simp add: level_rep_Nil)
    obtain qs' where "pop_highest qs1 = (map_option (\<lambda>(_, x, _). t_wrap x) (highest aqs), qs')"
      "list_all2 (level_rep c) qs' (case highest aqs of None \<Rightarrow> aqs | Some (_, _, aqs') \<Rightarrow> aqs')"
      using 2 qs by auto
    then show ?case using qs e by (cases "highest aqs") (auto simp: l_count_def)
  next
    case (3 x q aqs)
    then obtain n ns qs1 where qs: "qs = Some ((n, Some (t_wrap x)) # ns) # qs1" "list_all2 (level_rep c) qs1 aqs"
      "n \<notin> fst ` set ns" "length ns = length q" "level_rep c (Some ns) q"
      by (auto simp: list_all2_Cons2 level_rep_Cons)
    have "l_count ((n, Some (t_wrap x)) # ns) > 0" using 3(2) qs(4) by (simp add: l_count_pos)
    moreover have "l_remove ((n, Some (t_wrap x)) # ns) n = ns" using qs(3) by (simp add: l_remove_def)
    ultimately show ?case using qs by simp
  qed
  then show ?thesis using that by blast
qed

lemma levels_rep_highest:
  assumes "levels_rep c qs aqs" "highest aqs = Some (v, x, aqs')"
  shows "t_level x = v" "v < MAX_MLFQ_LEVELS" "length aqs' = MAX_MLFQ_LEVELS"
    "\<forall>u < MAX_MLFQ_LEVELS. \<forall>y \<in> set (aqs' ! u). t_level y = u"
proof -
  note h = highest_Some [OF assms(2)]
  have len: "length aqs = MAX_MLFQ_LEVELS" "\<forall>u < MAX_MLFQ_LEVELS. \<forall>y \<in> set (aqs ! u). t_level y = u"
    using assms(1) by (simp_all add: levels_rep_def)
  show v: "v < MAX_MLFQ_LEVELS" "length aqs' = MAX_MLFQ_LEVELS" using h len by simp_all
  show "t_level x = v" using len(2) v(1) h(2) by (metis list.set_intros(1))
  show "\<forall>u < MAX_MLFQ_LEVELS. \<forall>y \<in> set (aqs' ! u). t_level y = u"
    using len(2) h(1,2,3) v by (metis list.set_intros(2) nth_list_update)
qed

lemma dispatch_abs:
  assumes "levels_rep c qs aqs"
  shows "dispatch t (abs_levels aqs) =
    (case highest aqs of None \<Rightarrow> (None, abs_levels aqs)
     | Some (v, x, aqs') \<Rightarrow> (Some (t_level x, abs_task x, t), abs_levels aqs'))"
  using levels_rep_highest(1) [OF assms] by (auto simp: dispatch_def map_highest split: option.splits)

subsection \<open>The policy's state\<close>

definition mlfq_ok ::
  "nat \<Rightarrow> scheduler_MLFQ_t \<Rightarrow> job_store \<Rightarrow> mrun option \<Rightarrow> mtask list list \<Rightarrow> (nat \<times> job_t) multiset \<Rightarrow> bool" where
  "mlfq_ok c info js cur aqs X \<longleftrightarrow>
     levels_rep c (mlfq_queues info) aqs \<and>
     mlfq_running info = map_option (\<lambda>m. t_wrap (m_task m)) cur \<and>
     (\<forall>m. cur = Some m \<longrightarrow> t_level (m_task m) < MAX_MLFQ_LEVELS \<and> unat (mlfq_last_time info) = m_start m \<and>
        run_fin (m_event m) = m_start m + min 1 (t_rem (m_task m))) \<and>
     store_as c (mlfq_wrappers info) (image_mset wrapper_of (mtasks cur aqs)) \<and>
     store_as c js (image_mset job_of (mtasks cur aqs) + X)"

lemma mlfq_ok_mono: "mlfq_ok c info js cur aqs X \<Longrightarrow> c \<le> c' \<Longrightarrow> mlfq_ok c' info js cur aqs X"
  by (auto simp: mlfq_ok_def intro: levels_rep_mono store_as_mono)

text \<open>What fits the machine: the number of waiting tasks and their remaining times.\<close>

definition small :: "task list list \<Rightarrow> bool" where
  "small qs \<longleftrightarrow> size (waiting qs) < 2 ^ 64 \<and> (\<forall>x \<in># waiting qs. snd x < 2 ^ 64)"

lemma small_abs: "small (abs_levels aqs) \<longleftrightarrow> size (waiting aqs) < 2 ^ 64 \<and> (\<forall>x \<in># waiting aqs. t_rem x < 2 ^ 64)"
  by (simp add: small_def waiting_abs abs_task_def)

lemma small_lengths: "small (abs_levels aqs) \<Longrightarrow> \<forall>a \<in> set aqs. length a < 2 ^ 64"
proof
  fix a assume "small (abs_levels aqs)" "a \<in> set aqs"
  moreover have "length a \<le> size (waiting aqs)"
    using calculation(2) by (induction aqs) auto
  ultimately show "length a < 2 ^ 64" by (simp add: small_abs)
qed

text \<open>What a step of the policy leaves alone.\<close>

definition same_io :: "world \<Rightarrow> world \<Rightarrow> bool" where
  "same_io w w' \<longleftrightarrow> simTime w' = simTime w \<and> outFile w' = outFile w \<and> traceFile w' = traceFile w \<and>
     currentJob w' = currentJob w"

lemma schedule_next_dispatch:
  assumes ok: "mlfq_ok (malloc_ctr w) info (jobs w) None aqs X" and small: "small (abs_levels aqs)"
    and q: "np_queue w x None cm" and now: "unat (simTime w) + 1 < 2 ^ 64"
  obtains w' info' cur aqs' where "schedule_next w info (simTime w) = Some w'"
    "schedulerInfo w' = MLFQ info'" "mlfq_ok (malloc_ctr w') info' (jobs w') cur aqs' X"
    "np_queue w' x (map_option m_event cur) cm" "jobs w' = jobs w" "same_io w w'"
    "dispatch (unat (simTime w)) (abs_levels aqs) = (map_option abs_run cur, abs_levels aqs')"
    "mtasks cur aqs' = waiting aqs"
proof -
  let ?c = "malloc_ctr w"
  note oks = ok [unfolded mlfq_ok_def mtasks.simps option.map(1)]
  have reps: "levels_rep ?c (mlfq_queues info) aqs" "store_as ?c (mlfq_wrappers info) (image_mset wrapper_of (waiting aqs))"
    "store_as ?c (jobs w) (image_mset job_of (waiting aqs) + X)"
    using oks by simp_all
  obtain qs' where pop: "pop_highest (mlfq_queues info) = (map_option (\<lambda>(_, x, _). t_wrap x) (highest aqs), qs')"
    and pop': "list_all2 (level_rep ?c) qs' (case highest aqs of None \<Rightarrow> aqs | Some (_, _, aqs') \<Rightarrow> aqs')"
    using pop_highest_rep [of ?c "mlfq_queues info" aqs] reps(1) small_lengths [OF small] by (auto simp: levels_rep_def)
  show ?thesis
  proof (cases "highest aqs")
    case None
    let ?i = "info\<lparr>mlfq_queues := qs', mlfq_running := NULL\<rparr>"
    let ?w = "w\<lparr>schedulerInfo := MLFQ ?i\<rparr>"
    have "schedule_next w info (simTime w) = Some ?w"
      using pop None by (simp add: schedule_next_def)
    moreover have "mlfq_ok (malloc_ctr ?w) ?i (jobs ?w) None aqs X"
      using reps pop' None by (simp add: mlfq_ok_def levels_rep_def)
    moreover have "np_queue ?w x None cm" using q by (simp add: np_queue_def np_events_def)
    ultimately show ?thesis
      using dispatch_abs [OF reps(1)] None by (intro that [of ?w ?i None aqs]) (simp_all add: same_io_def)
  next
    case (Some r)
    obtain v y aqs' where hi: "highest aqs = Some (v, y, aqs')" using Some by (cases r) auto
    note hl = levels_rep_highest [OF reps(1) hi]
    have wait: "waiting aqs = add_mset y (waiting aqs')" by (rule highest_Some(5) [OF hi])
    have wr: "mlfq_wrappers info (t_wrap y) = Some \<lparr>mjob = Some (t_job y), mlevel = int (t_level y)\<rparr>"
      using reps(2) wait by (auto simp: wrapper_of_def intro: store_as_get)
    have job: "jobs w (t_job y) = Some ((mk_job (t_line y))\<lparr>remainingTime := of_nat (t_rem y)\<rparr>)"
      using reps(3) wait by (auto simp: job_of_def intro: store_as_get)
    let ?i = "info\<lparr>mlfq_queues := qs', mlfq_running := Some (t_wrap y), mlfq_last_time := simTime w\<rparr>"
    let ?w1 = "w\<lparr>schedulerInfo := MLFQ ?i\<rparr>"
    let ?run = "(if (of_nat (t_rem y) :: u64) < 1 then of_nat (t_rem y) else 1) :: u64"
    have rem: "t_rem y < 2 ^ 64" using small wait by (simp add: small_abs)
    have run: "unat ?run = min 1 (t_rem y)"
      using rem by (auto simp: word_less_nat_alt unat_of_nat_small min_def)
    have q1: "np_queue ?w1 x None cm" using q by (simp add: np_queue_def np_events_def)
    have fin: "unat (simTime ?w1) + unat ?run < 2 ^ 64" using now by (simp add: run min_def)
    obtain Q where Q: "schedulerScheduleNextCompletion ?w1 (simTime ?w1 + ?run) =
         Some (True, ?w1\<lparr>sim_id := sim_id ?w1 + 1, malloc_ctr := Suc (Suc (malloc_ctr ?w1)), queue := Q,
                     completionEvent := Some (Suc (malloc_ctr ?w1))\<rparr>)"
      "np_queue (?w1\<lparr>sim_id := sim_id ?w1 + 1, malloc_ctr := Suc (Suc (malloc_ctr ?w1)), queue := Q,
                completionEvent := Some (Suc (malloc_ctr ?w1))\<rparr>) x
         (Some \<lparr>run_ptr = t_job y, run_line = t_line y, run_fin = unat (simTime ?w1) + unat ?run,
                run_node = Suc (malloc_ctr ?w1), run_eid = sim_id ?w1\<rparr>) cm"
      by (rule np_schedule_completion [OF q1 fin])
    let ?w2 = "?w1\<lparr>sim_id := sim_id ?w1 + 1, malloc_ctr := Suc (Suc (malloc_ctr ?w1)), queue := Q,
                completionEvent := Some (Suc (malloc_ctr ?w1))\<rparr>"
    let ?m = "\<lparr>m_task = y, m_start = unat (simTime w),
      m_event = \<lparr>run_ptr = t_job y, run_line = t_line y, run_fin = unat (simTime ?w1) + unat ?run,
                run_node = Suc (malloc_ctr ?w1), run_eid = sim_id ?w1\<rparr>\<rparr>"
    have "levels_rep ?c qs' aqs'" using pop' hi hl by (simp add: levels_rep_def)
    then have "mlfq_ok ?c ?i (jobs w) (Some ?m) aqs' X"
      using reps(2,3) wait hl(1,2) run by (simp add: mlfq_ok_def)
    then have "mlfq_ok (malloc_ctr ?w2) ?i (jobs ?w2) (Some ?m) aqs' X"
      using mlfq_ok_mono [of ?c ?i "jobs w" "Some ?m" aqs' X "Suc (Suc ?c)"] by simp
    moreover have "schedule_next w info (simTime w) = Some ?w2"
      using pop hi wr job Q(1) by (simp add: schedule_next_def)
    moreover have "dispatch (unat (simTime w)) (abs_levels aqs) = (map_option abs_run (Some ?m), abs_levels aqs')"
      using dispatch_abs [OF reps(1)] hi by (simp add: abs_run_def)
    ultimately show ?thesis
      using Q(2) wait by (intro that [of ?w2 ?i "Some ?m" aqs']) (simp_all add: same_io_def)
  qed
qed

subsection \<open>Arrivals\<close>

definition new_task :: "nat \<Rightarrow> nat \<Rightarrow> trace_line \<Rightarrow> mtask" where
  "new_task a p k = \<lparr>t_wrap = a, t_job = p, t_line = k, t_rem = len k, t_level = 0\<rparr>"

lemma new_task_sel [simp]: "t_level (new_task a p k) = 0" "abs_task (new_task a p k) = (k, len k)"
  "wrapper_of (new_task a p k) = (a, \<lparr>mjob = Some p, mlevel = 0\<rparr>)" "job_of (new_task a p k) = (p, mk_job k)"
  by (simp_all add: new_task_def abs_task_def wrapper_of_def job_of_def len_def mk_job_def)

lemma mtasks_level_add: "length aqs = MAX_MLFQ_LEVELS \<Longrightarrow> v < MAX_MLFQ_LEVELS \<Longrightarrow>
   mtasks cur (level_add v x aqs) = add_mset x (mtasks cur aqs)"
  by (cases cur) (simp_all add: waiting_level_add)

lemma mlfq_ok_length: "mlfq_ok c info js cur aqs X \<Longrightarrow> length aqs = MAX_MLFQ_LEVELS"
  by (simp add: mlfq_ok_def levels_rep_def)

text \<open>A new wrapper enters level 0.\<close>

lemma enlist:
  assumes ok: "mlfq_ok (malloc_ctr w) info (jobs w) cur aqs (add_mset (p, mk_job k) X)" and mal: "\<forall>n. malloc_ok w n"
  obtains info' where
    "mlfq_insert (info\<lparr>mlfq_wrappers := (mlfq_wrappers info)(malloc_ctr w \<mapsto> \<lparr>mjob = Some p, mlevel = 0\<rparr>)\<rparr>) 0
       (Some (malloc_ctr w)) (w\<lparr>malloc_ctr := Suc (malloc_ctr w)\<rparr>) = Some (info', w\<lparr>malloc_ctr := Suc (Suc (malloc_ctr w))\<rparr>)"
    "mlfq_ok (Suc (Suc (malloc_ctr w))) info' (jobs w) cur (level_add 0 (new_task (malloc_ctr w) p k) aqs) X"
    "mlfq_running info' = mlfq_running info" "mlfq_last_time info' = mlfq_last_time info"
proof -
  let ?a = "malloc_ctr w" and ?t = "new_task (malloc_ctr w) p k"
  let ?i = "info\<lparr>mlfq_wrappers := (mlfq_wrappers info)(malloc_ctr w \<mapsto> \<lparr>mjob = Some p, mlevel = 0\<rparr>)\<rparr>"
  let ?w = "w\<lparr>malloc_ctr := Suc ?a\<rparr>"
  note oks = ok [unfolded mlfq_ok_def]
  have wr: "t_wrap ?t = ?a" by (simp add: new_task_def)
  have rep: "levels_rep (malloc_ctr ?w) (mlfq_queues ?i) aqs" using oks levels_rep_mono [of ?a _ aqs "Suc ?a"] by simp
  have lvl: "t_level ?t < MAX_MLFQ_LEVELS" and mal': "\<forall>n. malloc_ok ?w n" using mal by simp_all
  obtain qs where qs: "mlfq_insert ?i (int (t_level ?t)) (Some (t_wrap ?t)) ?w =
       Some (?i\<lparr>mlfq_queues := qs\<rparr>, ?w\<lparr>malloc_ctr := Suc (malloc_ctr ?w)\<rparr>)"
    "levels_rep (Suc (malloc_ctr ?w)) qs (level_add (t_level ?t) ?t aqs)"
    by (rule mlfq_insert_rep [OF rep lvl mal'])
  let ?i' = "?i\<lparr>mlfq_queues := qs\<rparr>"
  have add: "mtasks cur (level_add 0 ?t aqs) = add_mset ?t (mtasks cur aqs)"
    using mtasks_level_add mlfq_ok_length [OF ok] by simp
  have "store_as (Suc (Suc ?a)) (mlfq_wrappers ?i') (image_mset wrapper_of (mtasks cur (level_add 0 ?t aqs)))"
    using store_as_new [of ?a "mlfq_wrappers info" _ ?a "Suc (Suc ?a)"] oks by (simp add: add)
  moreover have "store_as (Suc (Suc ?a)) (jobs w) (image_mset job_of (mtasks cur (level_add 0 ?t aqs)) + X)"
    using store_as_mono [of ?a "jobs w" _ "Suc (Suc ?a)"] oks by (simp add: add)
  ultimately have "mlfq_ok (Suc (Suc ?a)) ?i' (jobs w) cur (level_add 0 ?t aqs) X"
    using qs(2) oks by (simp add: mlfq_ok_def)
  then show ?thesis using that [of ?i'] qs(1) wr by simp
qed

text \<open>The state while the callback of the event at node \<open>x\<close> runs.\<close>

definition mlfq_mid :: "world \<Rightarrow> nat \<Rightarrow> mrun option \<Rightarrow> mtask list list \<Rightarrow> coming option \<Rightarrow> (nat \<times> job_t) multiset \<Rightarrow> bool" where
  "mlfq_mid w x cur aqs cm X \<longleftrightarrow>
     (\<exists>info. schedulerInfo w = MLFQ info \<and> mlfq_ok (malloc_ctr w) info (jobs w) cur aqs X) \<and>
     np_queue w x (map_option m_event cur) cm"

lemma schedule_next_mid:
  assumes "mlfq_ok (malloc_ctr w) info (jobs w) None aqs X" "small (abs_levels aqs)" "np_queue w x None cm"
    "unat (simTime w) + 1 < 2 ^ 64"
  obtains w' cur aqs' where "schedule_next w info (simTime w) = Some w'" "mlfq_mid w' x cur aqs' cm X" "same_io w w'"
    "dispatch (unat (simTime w)) (abs_levels aqs) = (map_option abs_run cur, abs_levels aqs')"
  by (rule schedule_next_dispatch [OF assms]) (auto simp: mlfq_mid_def)

lemma arrive_idle:
  assumes mid: "mlfq_mid w x None aqs None (add_mset (p, mk_job k) X)"
    and small: "small (level_add 0 (k, len k) (abs_levels aqs))" and now: "unat (simTime w) + 1 < 2 ^ 64"
  obtains w' cur aqs' where "schedulerScheduleJob w (Some p) = Some w'" "mlfq_mid w' x cur aqs' None X" "same_io w w'"
    "dispatch (unat (simTime w)) (level_add 0 (k, len k) (abs_levels aqs)) = (map_option abs_run cur, abs_levels aqs')"
proof -
  obtain info where info: "schedulerInfo w = MLFQ info"
    "mlfq_ok (malloc_ctr w) info (jobs w) None aqs (add_mset (p, mk_job k) X)" and q: "np_queue w x None None"
    using mid by (auto simp: mlfq_mid_def)
  have mal: "\<forall>n. malloc_ok w n" using q by (simp add: np_queue_def np_events_def)
  obtain info' where ins: "mlfq_insert (info\<lparr>mlfq_wrappers := (mlfq_wrappers info)(malloc_ctr w \<mapsto> \<lparr>mjob = Some p, mlevel = 0\<rparr>)\<rparr>) 0
       (Some (malloc_ctr w)) (w\<lparr>malloc_ctr := Suc (malloc_ctr w)\<rparr>) = Some (info', w\<lparr>malloc_ctr := Suc (Suc (malloc_ctr w))\<rparr>)"
    "mlfq_ok (Suc (Suc (malloc_ctr w))) info' (jobs w) None (level_add 0 (new_task (malloc_ctr w) p k) aqs) X"
    "mlfq_running info' = mlfq_running info"
    by (rule enlist [OF info(2) mal])
  let ?w = "w\<lparr>malloc_ctr := Suc (Suc (malloc_ctr w))\<rparr>"
  let ?aqs = "level_add 0 (new_task (malloc_ctr w) p k) aqs"
  have abs: "abs_levels ?aqs = level_add 0 (k, len k) (abs_levels aqs)"
    using mlfq_ok_length [OF info(2)] by (simp add: map_level_add)
  have "np_queue ?w x None None" using q by (simp add: np_queue_def np_events_def)
  then obtain w' cur aqs' where w': "schedule_next ?w info' (simTime ?w) = Some w'" "mlfq_mid w' x cur aqs' None X" "same_io ?w w'"
    "dispatch (unat (simTime ?w)) (abs_levels ?aqs) = (map_option abs_run cur, abs_levels aqs')"
    by (elim schedule_next_mid [of ?w info' ?aqs X x None, rotated 2]) (use ins(2) small now abs in simp_all)
  have "mlfq_running info' = None" using ins(2) by (simp add: mlfq_ok_def)
  then have "schedulerScheduleJob w (Some p) = Some w'"
    using info(1) ins(1) w'(1) mal
    by (simp add: schedulerScheduleJob_def schedulerMLFQScheduleJob_def malloc_def simulatorSimTime_def)
  then show ?thesis using that w' abs by (simp add: same_io_def)
qed

lemma arrive_join:
  assumes mid: "mlfq_mid w x (Some m) aqs None (add_mset (p, mk_job k) X)" and top: "t_level (m_task m) = 0"
  obtains w' aqs' where "schedulerScheduleJob w (Some p) = Some w'" "mlfq_mid w' x (Some m) aqs' None X" "same_io w w'"
    "abs_levels aqs' = level_add 0 (k, len k) (abs_levels aqs)"
proof -
  obtain info where info: "schedulerInfo w = MLFQ info"
    "mlfq_ok (malloc_ctr w) info (jobs w) (Some m) aqs (add_mset (p, mk_job k) X)"
    and q: "np_queue w x (Some (m_event m)) None"
    using mid by (auto simp: mlfq_mid_def)
  have mal: "\<forall>n. malloc_ok w n" using q by (simp add: np_queue_def np_events_def)
  obtain info' where ins: "mlfq_insert (info\<lparr>mlfq_wrappers := (mlfq_wrappers info)(malloc_ctr w \<mapsto> \<lparr>mjob = Some p, mlevel = 0\<rparr>)\<rparr>) 0
       (Some (malloc_ctr w)) (w\<lparr>malloc_ctr := Suc (malloc_ctr w)\<rparr>) = Some (info', w\<lparr>malloc_ctr := Suc (Suc (malloc_ctr w))\<rparr>)"
    "mlfq_ok (Suc (Suc (malloc_ctr w))) info' (jobs w) (Some m) (level_add 0 (new_task (malloc_ctr w) p k) aqs) X"
    by (rule enlist [OF info(2) mal])
  let ?aqs = "level_add 0 (new_task (malloc_ctr w) p k) aqs"
  let ?w' = "w\<lparr>malloc_ctr := Suc (Suc (malloc_ctr w)), schedulerInfo := MLFQ info'\<rparr>"
  have wr: "mlfq_running info' = Some (t_wrap (m_task m))"
    "mlfq_wrappers info' (t_wrap (m_task m)) = Some \<lparr>mjob = Some (t_job (m_task m)), mlevel = int (t_level (m_task m))\<rparr>"
    using ins(2) store_as_get [of _ "mlfq_wrappers info'" "t_wrap (m_task m)"]
    by (auto simp: mlfq_ok_def wrapper_of_def)
  have "schedulerScheduleJob w (Some p) = Some ?w'"
    using info(1) ins(1) wr top mal by (simp add: schedulerScheduleJob_def schedulerMLFQScheduleJob_def malloc_def)
  moreover have "mlfq_mid ?w' x (Some m) ?aqs None X"
    using ins(2) q by (auto simp: mlfq_mid_def np_queue_def np_events_def)
  moreover have "abs_levels ?aqs = level_add 0 (k, len k) (abs_levels aqs)"
    using mlfq_ok_length [OF info(2)] by (simp add: map_level_add)
  ultimately show ?thesis using that by (simp add: same_io_def)
qed

text \<open>Cancelling the end of the quantum takes its event out of the queue.\<close>

lemma np_cancel:
  assumes "np_queue w x (Some r) cm"
  shows "schedulerCancelNextCompletion w =
      Some (True, w\<lparr>queue := l_remove (queue w) (run_node r), completionEvent := NULL\<rparr>)"
    and "np_queue (w\<lparr>queue := l_remove (queue w) (run_node r), completionEvent := NULL\<rparr>) x None cm"
proof -
  let ?n = "run_node r"
  note qs = assms [unfolded np_queue_def np_events_def]
  have pend: "l_remove (queue w) x = pending (Some r) cm" using qs by simp
  then have "?n \<in> fst ` set (l_remove (queue w) x)" by simp
  then have n: "?n \<in> fst ` set (queue w)" "?n \<noteq> x" by (auto simp: l_remove_def)
  show "schedulerCancelNextCompletion w =
      Some (True, w\<lparr>queue := l_remove (queue w) ?n, completionEvent := NULL\<rparr>)"
    using qs n(1) by (simp add: schedulerCancelNextCompletion_def simulatorRemoveEvent_def)
  have "l_remove (l_remove (queue w) ?n) x = l_remove (pending (Some r) cm) ?n"
    unfolding pend [symmetric] by (simp add: l_remove_def conj_commute)
  also have "\<dots> = pending None cm"
    using qs by (cases cm) (auto simp: l_remove_def split: if_splits)
  finally have "l_remove (l_remove (queue w) ?n) x = pending None cm" .
  moreover have "event_ordered (l_remove (queue w) ?n)"
    using qs unfolding ordered_def l_remove_def by (simp add: sorted_wrt_filter)
  moreover have "x \<in> fst ` set (l_remove (queue w) ?n)"
  proof -
    obtain b where "(x, b) \<in> set (queue w)" using qs by auto
    then have "(x, b) \<in> set (l_remove (queue w) ?n)" using n(2) by (simp add: l_remove_def)
    then show ?thesis by (rule image_eqI [rotated]) simp
  qed
  ultimately show "np_queue (w\<lparr>queue := l_remove (queue w) ?n, completionEvent := NULL\<rparr>) x None cm"
    using qs by (simp add: np_queue_def np_events_def)
qed

text \<open>A task that was running goes back to a level.\<close>

lemma requeue:
  assumes rep: "levels_rep (malloc_ctr w) (mlfq_queues info) aqs" and lvl: "t_level y < MAX_MLFQ_LEVELS"
    and mal: "\<forall>n. malloc_ok w n"
    and st: "store_as (malloc_ctr w) (mlfq_wrappers info) (image_mset wrapper_of (add_mset y (waiting aqs)))"
      "store_as (malloc_ctr w) js (image_mset job_of (add_mset y (waiting aqs)) + X)"
  obtains qs where
    "mlfq_insert info (int (t_level y)) (Some (t_wrap y)) w =
       Some (info\<lparr>mlfq_queues := qs\<rparr>, w\<lparr>malloc_ctr := Suc (malloc_ctr w)\<rparr>)"
    "mlfq_ok (Suc (malloc_ctr w)) (info\<lparr>mlfq_queues := qs, mlfq_running := NULL\<rparr>) js None (level_add (t_level y) y aqs) X"
proof -
  obtain qs where qs: "mlfq_insert info (int (t_level y)) (Some (t_wrap y)) w =
       Some (info\<lparr>mlfq_queues := qs\<rparr>, w\<lparr>malloc_ctr := Suc (malloc_ctr w)\<rparr>)"
    "levels_rep (Suc (malloc_ctr w)) qs (level_add (t_level y) y aqs)"
    by (rule mlfq_insert_rep [OF rep lvl mal])
  have "waiting (level_add (t_level y) y aqs) = add_mset y (waiting aqs)"
    using rep lvl by (simp add: waiting_level_add levels_rep_def)
  then have "mlfq_ok (Suc (malloc_ctr w)) (info\<lparr>mlfq_queues := qs, mlfq_running := NULL\<rparr>) js None (level_add (t_level y) y aqs) X"
    using qs(2) st [THEN store_as_mono, of "Suc (malloc_ctr w)"] by (simp add: mlfq_ok_def)
  then show ?thesis using that qs(1) by blast
qed

text \<open>An arrival while a job of a lower level runs, at the moment its quantum began.\<close>

lemma arrive_preempt:
  assumes mid: "mlfq_mid w x (Some m) aqs None (add_mset (p, mk_job k) X)" and lvl: "0 < t_level (m_task m)"
    and start: "m_start m = unat (simTime w)"
    and small: "small (level_add (t_level (m_task m)) (abs_task (m_task m)) (level_add 0 (k, len k) (abs_levels aqs)))"
    and now: "unat (simTime w) + 1 < 2 ^ 64"
  obtains w' cur aqs' where "schedulerScheduleJob w (Some p) = Some w'" "mlfq_mid w' x cur aqs' None X" "same_io w w'"
    "dispatch (unat (simTime w)) (level_add (t_level (m_task m)) (abs_task (m_task m)) (level_add 0 (k, len k) (abs_levels aqs)))
       = (map_option abs_run cur, abs_levels aqs')"
proof -
  let ?y = "m_task m"
  obtain info where info: "schedulerInfo w = MLFQ info"
    "mlfq_ok (malloc_ctr w) info (jobs w) (Some m) aqs (add_mset (p, mk_job k) X)"
    and q: "np_queue w x (Some (m_event m)) None"
    using mid by (auto simp: mlfq_mid_def)
  have mal: "\<forall>n. malloc_ok w n" using q by (simp add: np_queue_def np_events_def)
  obtain info' where ins: "mlfq_insert (info\<lparr>mlfq_wrappers := (mlfq_wrappers info)(malloc_ctr w \<mapsto> \<lparr>mjob = Some p, mlevel = 0\<rparr>)\<rparr>) 0
       (Some (malloc_ctr w)) (w\<lparr>malloc_ctr := Suc (malloc_ctr w)\<rparr>) = Some (info', w\<lparr>malloc_ctr := Suc (Suc (malloc_ctr w))\<rparr>)"
    "mlfq_ok (Suc (Suc (malloc_ctr w))) info' (jobs w) (Some m) (level_add 0 (new_task (malloc_ctr w) p k) aqs) X"
    by (rule enlist [OF info(2) mal])
  let ?aqs = "level_add 0 (new_task (malloc_ctr w) p k) aqs"
  let ?w2 = "w\<lparr>malloc_ctr := Suc (Suc (malloc_ctr w)), schedulerInfo := MLFQ info'\<rparr>"
  let ?w3 = "?w2\<lparr>queue := l_remove (queue ?w2) (run_node (m_event m)), completionEvent := NULL\<rparr>"
  have "np_queue ?w2 x (Some (m_event m)) None" using q by (auto simp: np_queue_def np_events_def)
  note cancel = np_cancel [OF this]
  note oks = ins(2) [unfolded mlfq_ok_def]
  have rep: "levels_rep (malloc_ctr ?w3) (mlfq_queues info') ?aqs" and lv: "t_level ?y < MAX_MLFQ_LEVELS"
    and mal': "\<forall>n. malloc_ok ?w3 n"
    and st: "store_as (malloc_ctr ?w3) (mlfq_wrappers info') (image_mset wrapper_of (add_mset ?y (waiting ?aqs)))"
      "store_as (malloc_ctr ?w3) (jobs w) (image_mset job_of (add_mset ?y (waiting ?aqs)) + X)"
    using oks mal by simp_all
  obtain qs where re: "mlfq_insert info' (int (t_level ?y)) (Some (t_wrap ?y)) ?w3 =
       Some (info'\<lparr>mlfq_queues := qs\<rparr>, ?w3\<lparr>malloc_ctr := Suc (malloc_ctr ?w3)\<rparr>)"
    "mlfq_ok (Suc (malloc_ctr ?w3)) (info'\<lparr>mlfq_queues := qs, mlfq_running := NULL\<rparr>) (jobs w) None (level_add (t_level ?y) ?y ?aqs) X"
    by (rule requeue [OF rep lv mal' st])
  let ?w4 = "?w3\<lparr>malloc_ctr := Suc (malloc_ctr ?w3)\<rparr>" and ?aqs' = "level_add (t_level ?y) ?y ?aqs"
  let ?i = "info'\<lparr>mlfq_queues := qs, mlfq_running := NULL\<rparr>"
  have abs: "abs_levels ?aqs' = level_add (t_level ?y) (abs_task ?y) (level_add 0 (k, len k) (abs_levels aqs))"
    using mlfq_ok_length [OF info(2)] lv by (simp add: map_level_add)
  have ok4: "mlfq_ok (malloc_ctr ?w4) ?i (jobs ?w4) None ?aqs' X" "small (abs_levels ?aqs')"
    "np_queue ?w4 x None None" "unat (simTime ?w4) + 1 < 2 ^ 64"
    using re(2) small abs cancel(2) now by (simp_all add: np_queue_def np_events_def)
  obtain w' cur aqs' where w': "schedule_next ?w4 ?i (simTime ?w4) = Some w'" "mlfq_mid w' x cur aqs' None X" "same_io ?w4 w'"
    "dispatch (unat (simTime ?w4)) (abs_levels ?aqs') = (map_option abs_run cur, abs_levels aqs')"
    by (rule schedule_next_mid [OF ok4])
  have wr: "mlfq_running info' = Some (t_wrap ?y)"
    "mlfq_wrappers info' (t_wrap ?y) = Some \<lparr>mjob = Some (t_job ?y), mlevel = int (t_level ?y)\<rparr>"
    using oks store_as_get [of _ "mlfq_wrappers info'" "t_wrap ?y"] by (auto simp: wrapper_of_def)
  have "simTime w = mlfq_last_time info'" using oks start by (simp add: word_unat_eq_iff)
  then have "schedulerScheduleJob w (Some p) = Some w'"
    using info(1) ins(1) wr lvl mal cancel(1) re(1) w'(1)
    by (simp add: schedulerScheduleJob_def schedulerMLFQScheduleJob_def malloc_def simulatorSimTime_def fun_upd_idem)
  then show ?thesis using that w' abs by (simp add: same_io_def)
qed

subsection \<open>The end of a quantum\<close>

definition mlfq_run :: "world \<Rightarrow> mrun option \<Rightarrow> mtask list list \<Rightarrow> (nat \<times> job_t) multiset \<Rightarrow> bool" where
  "mlfq_run w cur aqs X \<longleftrightarrow> (\<exists>info. schedulerInfo w = MLFQ info \<and> mlfq_ok (malloc_ctr w) info (jobs w) cur aqs X)"

lemma mlfq_mid_run: "mlfq_mid w x cur aqs cm X \<longleftrightarrow> mlfq_run w cur aqs X \<and> np_queue w x (map_option m_event cur) cm"
  by (auto simp: mlfq_mid_def mlfq_run_def)

text \<open>The running task after a quantum that did not finish it.\<close>

definition demoted :: "mtask \<Rightarrow> mtask" where
  "demoted y = y\<lparr>t_rem := t_rem y - 1, t_level := min (Suc (t_level y)) (MAX_MLFQ_LEVELS - 1)\<rparr>"

lemma demoted_sel [simp]: "t_wrap (demoted y) = t_wrap y" "t_job (demoted y) = t_job y"
  "t_level (demoted y) = min (Suc (t_level y)) (MAX_MLFQ_LEVELS - 1)" "abs_task (demoted y) = (t_line y, t_rem y - 1)"
  by (simp_all add: demoted_def abs_task_def)

lemma demoted_cells:
  "wrapper_of (demoted y) = (t_wrap y, \<lparr>mjob = Some (t_job y), mlevel = int (t_level (demoted y))\<rparr>)"
  "0 < t_rem y \<Longrightarrow> job_of (demoted y) = (t_job y, (snd (job_of y))\<lparr>remainingTime := of_nat (t_rem y) - 1\<rparr>)"
  by (simp_all add: demoted_def wrapper_of_def job_of_def of_nat_diff)

lemma running_cells:
  assumes "mlfq_ok c info js (Some m) aqs X"
  shows "mlfq_running info = Some (t_wrap (m_task m))"
    "mlfq_wrappers info (t_wrap (m_task m)) = Some \<lparr>mjob = Some (t_job (m_task m)), mlevel = int (t_level (m_task m))\<rparr>"
    "js (t_job (m_task m)) = Some (snd (job_of (m_task m)))" "fst (job_of (m_task m)) = t_job (m_task m)"
    "remainingTime (snd (job_of (m_task m))) = of_nat (t_rem (m_task m))"
  using assms store_as_get [of c "mlfq_wrappers info" "t_wrap (m_task m)"] store_as_get [of c js "t_job (m_task m)"]
  by (auto simp: mlfq_ok_def wrapper_of_def job_of_def)

lemma complete_quantum:
  assumes run: "mlfq_run w (Some m) aqs X" and q: "np_queue (w\<lparr>completionEvent := NULL\<rparr>) x None cm"
    and rem: "1 < t_rem (m_task m)" "t_rem (m_task m) < 2 ^ 64"
    and small: "small (level_add (t_level (demoted (m_task m))) (abs_task (demoted (m_task m))) (abs_levels aqs))"
    and now: "unat (simTime w) + 1 < 2 ^ 64"
  obtains w' cur aqs' where "schedulerCompleteJob cb w = Some w'" "mlfq_mid w' x cur aqs' cm X" "same_io w w'"
    "dispatch (unat (simTime w)) (level_add (t_level (demoted (m_task m))) (abs_task (demoted (m_task m))) (abs_levels aqs))
       = (map_option abs_run cur, abs_levels aqs')"
proof -
  let ?y = "m_task m" and ?d = "demoted (m_task m)"
  obtain info where info: "schedulerInfo w = MLFQ info" "mlfq_ok (malloc_ctr w) info (jobs w) (Some m) aqs X"
    using run by (auto simp: mlfq_run_def)
  note cells = running_cells [OF info(2)] and oks = info(2) [unfolded mlfq_ok_def]
  let ?js = "(jobs w)(t_job ?y \<mapsto> snd (job_of ?d))"
  let ?wr = "\<lparr>mjob = Some (t_job ?y), mlevel = int (t_level ?d)\<rparr>"
  let ?i = "info\<lparr>mlfq_running := NULL, mlfq_wrappers := (mlfq_wrappers info)(t_wrap ?y \<mapsto> ?wr)\<rparr>"
  let ?w = "w\<lparr>completionEvent := NULL, jobs := ?js\<rparr>"
  have rep: "levels_rep (malloc_ctr ?w) (mlfq_queues ?i) aqs" "t_level ?d < MAX_MLFQ_LEVELS" "\<forall>n. malloc_ok ?w n"
    using oks q by (simp_all add: np_queue_def np_events_def)
  have st: "store_as (malloc_ctr ?w) (mlfq_wrappers ?i) (image_mset wrapper_of (add_mset ?d (waiting aqs)))"
    "store_as (malloc_ctr ?w) ?js (image_mset job_of (add_mset ?d (waiting aqs)) + X)"
    using oks store_as_set [of _ _ "t_wrap ?y"] store_as_set [of _ _ "t_job ?y"] rem
    by (auto simp: demoted_cells wrapper_of_def job_of_def demoted_def)
  obtain qs where re: "mlfq_insert ?i (int (t_level ?d)) (Some (t_wrap ?d)) ?w =
       Some (?i\<lparr>mlfq_queues := qs\<rparr>, ?w\<lparr>malloc_ctr := Suc (malloc_ctr ?w)\<rparr>)"
    "mlfq_ok (Suc (malloc_ctr ?w)) (?i\<lparr>mlfq_queues := qs, mlfq_running := NULL\<rparr>) ?js None (level_add (t_level ?d) ?d aqs) X"
    by (rule requeue [OF rep st])
  let ?w2 = "?w\<lparr>malloc_ctr := Suc (malloc_ctr ?w)\<rparr>" and ?aqs = "level_add (t_level ?d) ?d aqs"
  have abs: "abs_levels ?aqs = level_add (t_level ?d) (abs_task ?d) (abs_levels aqs)"
    using mlfq_ok_length [OF info(2)] rep(2) by (simp add: map_level_add)
  have ok2: "mlfq_ok (malloc_ctr ?w2) (?i\<lparr>mlfq_queues := qs\<rparr>) (jobs ?w2) None ?aqs X" "small (abs_levels ?aqs)"
    "np_queue ?w2 x None cm" "unat (simTime ?w2) + 1 < 2 ^ 64"
  proof -
    have eq: "?i\<lparr>mlfq_queues := qs, mlfq_running := NULL\<rparr> = ?i\<lparr>mlfq_queues := qs\<rparr>" by (cases info) simp
    show "mlfq_ok (malloc_ctr ?w2) (?i\<lparr>mlfq_queues := qs\<rparr>) (jobs ?w2) None ?aqs X"
      using re(2) unfolding eq by (simp del: demoted_sel)
    show "small (abs_levels ?aqs)" unfolding abs by (rule small)
    show "np_queue ?w2 x None cm" using q by (auto simp: np_queue_def np_events_def less_SucI)
    show "unat (simTime ?w2) + 1 < 2 ^ 64" using now by simp
  qed
  obtain w' cur aqs' where w': "schedule_next ?w2 (?i\<lparr>mlfq_queues := qs\<rparr>) (simTime ?w2) = Some w'"
    "mlfq_mid w' x cur aqs' cm X" "same_io ?w2 w'"
    "dispatch (unat (simTime ?w2)) (abs_levels ?aqs) = (map_option abs_run cur, abs_levels aqs')"
    by (rule schedule_next_mid [OF ok2])
  have "(1 :: u64) < of_nat (t_rem ?y)" using rem by (simp add: word_less_nat_alt unat_of_nat_small)
  moreover have "snd (job_of ?d) = (snd (job_of ?y))\<lparr>remainingTime := of_nat (t_rem ?y) - 1\<rparr>"
    using demoted_cells(2) [of ?y] rem by simp
  moreover have "t_level ?d = (if t_level ?y < 9 then Suc (t_level ?y) else t_level ?y)" "t_wrap ?d = t_wrap ?y"
    using oks by auto
  ultimately have "schedulerCompleteJob cb w = Some w'"
    using info(1) cells re(1) w'(1)
    by (cases "t_level ?y < 9")
      (simp_all add: schedulerCompleteJob_def schedulerMLFQCompleteJob_def simulatorSimTime_def jobSetRemainingTime_def
        add.commute del: demoted_sel)
  then show ?thesis using that w' abs by (simp add: same_io_def)
qed

lemma complete_finish:
  assumes run: "mlfq_run w (Some m) aqs X" and q: "np_queue (w\<lparr>completionEvent := NULL\<rparr>) x None cm"
    and rem: "t_rem (m_task m) \<le> 1" and small: "small (abs_levels aqs)" and now: "unat (simTime w) + 1 < 2 ^ 64"
  obtains w' cur aqs' job where "schedulerCompleteJob cb w = cb (Some (t_job (m_task m))) w'"
    "mlfq_mid w' x cur aqs' cm (add_mset (t_job (m_task m), job) X)" "same_io w w'"
    "jobId job = line_id (t_line (m_task m))"
    "dispatch (unat (simTime w)) (abs_levels aqs) = (map_option abs_run cur, abs_levels aqs')"
proof -
  let ?y = "m_task m"
  obtain info where info: "schedulerInfo w = MLFQ info" "mlfq_ok (malloc_ctr w) info (jobs w) (Some m) aqs X"
    using run by (auto simp: mlfq_run_def)
  note cells = running_cells [OF info(2)] and oks = info(2) [unfolded mlfq_ok_def]
  let ?job = "(snd (job_of ?y))\<lparr>remainingTime := 0\<rparr>"
  let ?js = "(jobs w)(t_job ?y \<mapsto> ?job)" and ?X = "add_mset (t_job ?y, ?job) X"
  let ?i = "info\<lparr>mlfq_running := NULL, mlfq_wrappers := (mlfq_wrappers info)(t_wrap ?y := None)\<rparr>"
  let ?w = "w\<lparr>completionEvent := NULL, jobs := ?js\<rparr>"
  have "store_as (malloc_ctr w) (mlfq_wrappers ?i) (image_mset wrapper_of (waiting aqs))"
    using oks by (auto simp: wrapper_of_def intro: store_as_del)
  moreover have "store_as (malloc_ctr w) (jobs w) (add_mset (t_job ?y, snd (job_of ?y)) (image_mset job_of (waiting aqs) + X))"
    using oks by (simp add: job_of_def)
  then have "store_as (malloc_ctr w) ?js (image_mset job_of (waiting aqs) + ?X)"
    by (auto dest: store_as_set)
  ultimately have ok: "mlfq_ok (malloc_ctr ?w) ?i (jobs ?w) None aqs ?X"
    using oks by (simp add: mlfq_ok_def)
  have q': "np_queue ?w x None cm" and now': "unat (simTime ?w) + 1 < 2 ^ 64"
    using q now by (simp_all add: np_queue_def np_events_def)
  obtain w' cur aqs' where w': "schedule_next ?w ?i (simTime ?w) = Some w'" "mlfq_mid w' x cur aqs' cm ?X" "same_io ?w w'"
    "dispatch (unat (simTime ?w)) (abs_levels aqs) = (map_option abs_run cur, abs_levels aqs')"
    by (rule schedule_next_mid [OF ok small q' now'])
  have "\<not> (1 :: u64) < of_nat (t_rem ?y)" using rem by (simp add: word_less_nat_alt unat_of_nat_small)
  then have "schedulerCompleteJob cb w = cb (Some (t_job ?y)) w'"
    using info(1) cells w'(1)
    by (simp add: schedulerCompleteJob_def schedulerMLFQCompleteJob_def simulatorSimTime_def jobSetRemainingTime_def)
  moreover have "jobId ?job = line_id (t_line ?y)" by (simp add: job_of_def)
  ultimately show ?thesis using that w' by (simp add: same_io_def)
qed

subsection \<open>The event loop\<close>

fun com_jobs :: "coming option \<Rightarrow> (nat \<times> job_t) multiset" where
  "com_jobs None = {#}"
| "com_jobs (Some c) = {#(com_ptr c, mk_job (com_line c))#}"

definition com_lines :: "coming option \<Rightarrow> trace_line list \<Rightarrow> trace_line list" where
  "com_lines cm rest = (case cm of None \<Rightarrow> rest | Some c \<Rightarrow> com_line c # rest)"

definition mlfq_io :: "world \<Rightarrow> coming option \<Rightarrow> trace_line list \<Rightarrow> bool" where
  "mlfq_io w cm rest \<longleftrightarrow> (\<forall>c. cm = Some c \<longrightarrow> currentJob w = Some (com_ptr c)) \<and> traceFile w = map Some rest \<and>
     (cm = None \<longrightarrow> rest = [])"

text \<open>The program's state between two events, and the state of the schedule it stands for.\<close>

definition mlfq_sim :: "world \<Rightarrow> running_task option \<Rightarrow> task list list \<Rightarrow> trace_line list \<Rightarrow> bool" where
  "mlfq_sim w cur qs js \<longleftrightarrow>
     (\<exists>acur aqs cm rest. np_idle w (map_option m_event acur) cm \<and> mlfq_run w acur aqs (com_jobs cm) \<and>
        mlfq_io w cm rest \<and> cur = map_option abs_run acur \<and> qs = abs_levels aqs \<and> js = com_lines cm rest)"

definition step_to :: "world \<Rightarrow> (u64 \<times> u64) list \<Rightarrow> running_task option \<Rightarrow> task list list \<Rightarrow> trace_line list \<Rightarrow> bool" where
  "step_to w out cur qs js \<longleftrightarrow>
     (\<exists>w'. simulatorRun invoke w = simulatorRun invoke w' \<and> outFile w' = outFile w @ out \<and> mlfq_sim w' cur qs js)"

lemma mlfq_run_event:
  assumes q: "queue w = (n, e) # q" "length q \<le> 1"
    and inv: "invoke (callback e) (w\<lparr>simTime := timestamp e\<rparr>) = Some w1" "mlfq_mid w1 n acur aqs cm (com_jobs cm)"
    and io: "mlfq_io w1 cm rest" "outFile w1 = outFile w @ out"
  shows "step_to w out (map_option abs_run acur) (abs_levels aqs) (com_lines cm rest)"
proof -
  let ?w = "w1\<lparr>queue := l_remove (queue w1) n\<rparr>"
  have mid: "mlfq_run w1 acur aqs (com_jobs cm)" "np_queue w1 n (map_option m_event acur) cm"
    using inv(2) by (simp_all add: mlfq_mid_run)
  have "simulatorRun invoke w = simulatorRun invoke ?w"
    by (rule simulatorRun_step [OF q(1) _ inv(1)]) (use q mid(2) in \<open>auto simp: np_queue_def\<close>)
  moreover have "np_idle ?w (map_option m_event acur) cm"
    using mid(2) by (simp add: np_idle_def np_queue_def np_events_def)
  moreover have "mlfq_run ?w acur aqs (com_jobs cm)" "mlfq_io ?w cm rest"
    using mid(1) io(1) by (simp_all add: mlfq_run_def mlfq_io_def)
  ultimately show ?thesis
    unfolding step_to_def mlfq_sim_def using io(2) by (intro exI [of _ ?w] conjI) auto
qed

lemma read_line_run:
  assumes "mlfq_run w acur aqs {#}"
  shows "mlfq_run (read_line w k rest Q) acur aqs (com_jobs (Some (read_coming w k)))"
proof -
  obtain info where "schedulerInfo w = MLFQ info" and ok: "mlfq_ok (malloc_ctr w) info (jobs w) acur aqs {#}"
    using assms by (auto simp: mlfq_run_def)
  have "mlfq_ok (malloc_ctr w + 3) info ((jobs w)(malloc_ctr w \<mapsto> mk_job k)) acur aqs {#(malloc_ctr w, mk_job k)#}"
    using ok mlfq_ok_mono [OF ok, of "malloc_ctr w + 3"] store_as_new [of "malloc_ctr w" "jobs w" _ "malloc_ctr w" "malloc_ctr w + 3"]
    by (auto simp: mlfq_ok_def)
  then show ?thesis
    using \<open>schedulerInfo w = MLFQ info\<close> by (simp add: mlfq_run_def read_line_def read_coming_def numeral_3_eq_3)
qed

text \<open>An arrival is handed to the policy, and then the next line is read, if there is one.\<close>

lemma arrival_step:
  assumes idle: "np_idle w (map_option m_event acur) (Some c)" "mlfq_run w acur aqs (com_jobs (Some c))" "mlfq_io w (Some c) rest"
    and first: "\<forall>m. acur = Some m \<longrightarrow> \<not> completes_first (m_event m) c" and later: "rest \<noteq> [] \<longrightarrow> arr (com_line c) \<le> arr (hd rest)"
    and sched: "\<And>w0. mlfq_mid w0 (com_node c) acur aqs None {#(com_ptr c, mk_job (com_line c))#} \<Longrightarrow>
      simTime w0 = fst (snd (com_line c)) \<Longrightarrow>
      \<exists>w1 acur' aqs'. schedulerScheduleJob w0 (Some (com_ptr c)) = Some w1 \<and> mlfq_mid w1 (com_node c) acur' aqs' None {#} \<and>
        same_io w0 w1 \<and> cur' = map_option abs_run acur' \<and> qs' = abs_levels aqs'"
  shows "step_to w [] cur' qs' rest"
proof -
  let ?t = "fst (snd (com_line c))" and ?x = "com_node c"
  let ?w = "w\<lparr>simTime := ?t\<rparr>"
  note pop = pop_arrival [OF idle(1)]
  have f: "\<forall>r. map_option m_event acur = Some r \<longrightarrow> \<not> completes_first r c" using first by auto
  have q: "queue w = arr_event c # pending (map_option m_event acur) None" using pop(1) f by simp
  have len: "length (pending (map_option m_event acur) None) \<le> 1" by (cases acur) simp_all
  have "mlfq_mid ?w ?x acur aqs None {#(com_ptr c, mk_job (com_line c))#}"
    using pop(2) f idle(2) by (simp add: mlfq_mid_run mlfq_run_def)
  from sched [OF this] obtain w1 acur' aqs' where w1: "schedulerScheduleJob ?w (Some (com_ptr c)) = Some w1"
    "mlfq_mid w1 ?x acur' aqs' None {#}" "same_io ?w w1" and abs: "cur' = map_option abs_run acur'" "qs' = abs_levels aqs'"
    by auto
  have io: "currentJob ?w = Some (com_ptr c)" "traceFile w1 = map Some rest" "outFile w1 = outFile w" "simTime w1 = ?t"
    using idle(3) w1(3) by (simp_all add: mlfq_io_def same_io_def)
  obtain w2 cm rest' where w2: "traceScheduleNextArrival w1 = Some w2" "mlfq_mid w2 ?x acur' aqs' cm (com_jobs cm)"
    "mlfq_io w2 cm rest'" "outFile w2 = outFile w" "rest = com_lines cm rest'"
  proof (cases rest)
    case Nil
    then have "traceScheduleNextArrival w1 = Some w1" using io by (simp add: traceScheduleNextArrival_def)
    then show ?thesis using that [of w1 None "[]"] w1(2) io Nil by (simp add: mlfq_io_def com_lines_def)
  next
    case (Cons k ks)
    have mid: "mlfq_run w1 acur' aqs' {#}" "np_queue w1 ?x (map_option m_event acur') None"
      using w1(2) by (simp_all add: mlfq_mid_run)
    have le: "simTime w1 \<le> fst (snd k)" using later io(4) Cons by (simp add: word_le_nat_alt unat_arr)
    have tf: "traceFile w1 = map Some (k # ks)" using io(2) Cons by simp
    obtain Q where Q: "traceScheduleNextArrival w1 = Some (read_line w1 k ks Q)"
      "np_queue (read_line w1 k ks Q) ?x (map_option m_event acur') (Some (read_coming w1 k))"
      by (rule next_arrival [OF mid(2) le tf])
    show ?thesis
      by (rule that [of "read_line w1 k ks Q" "Some (read_coming w1 k)" ks])
        (use Q read_line_run [OF mid(1)] io(3) Cons in
          \<open>simp_all add: mlfq_mid_run mlfq_io_def com_lines_def read_line_def read_coming_def\<close>)
  qed
  have "invoke (callback (snd (arr_event c))) (w\<lparr>simTime := timestamp (snd (arr_event c))\<rparr>) = Some w2"
    using w1(1) w2(1) io(1) by (simp add: traceArrivalCallback_def)
  moreover have "queue w = (?x, snd (arr_event c)) # pending (map_option m_event acur) None"
    using q by (simp add: arr_event_def)
  ultimately show ?thesis
    using mlfq_run_event [OF _ len _ w2(2,3), of w _ "[]"] w2(4,5) abs by simp
qed

text \<open>The end of a quantum is handed to the policy; a job it returns is written and freed.\<close>

lemma completion_step:
  assumes idle: "np_idle w (Some (m_event m)) cm" "mlfq_run w (Some m) aqs (com_jobs cm)" "mlfq_io w cm rest"
    and first: "\<forall>c. cm = Some c \<longrightarrow> completes_first (m_event m) c" and fin: "run_fin (m_event m) < 2 ^ 64"
    and comp: "\<And>w0. mlfq_run w0 (Some m) aqs (com_jobs cm) \<Longrightarrow>
      np_queue (w0\<lparr>completionEvent := NULL\<rparr>) (run_node (m_event m)) None cm \<Longrightarrow> unat (simTime w0) = run_fin (m_event m) \<Longrightarrow>
      \<exists>w1 acur' aqs'. schedulerCompleteJob traceCompletionCallback w0 = Some w1 \<and>
        mlfq_mid w1 (run_node (m_event m)) acur' aqs' cm (com_jobs cm) \<and> traceFile w1 = traceFile w0 \<and>
        currentJob w1 = currentJob w0 \<and> outFile w1 = outFile w0 @ out \<and>
        cur' = map_option abs_run acur' \<and> qs' = abs_levels aqs'"
  shows "step_to w out cur' qs' (com_lines cm rest)"
proof -
  let ?r = "m_event m"
  let ?w = "w\<lparr>simTime := of_nat (run_fin ?r)\<rparr>"
  have q: "queue w = comp_event ?r # pending None cm" by (rule pop_completion(1) [OF idle(1) first])
  have len: "length (pending None cm) \<le> 1" by (cases cm) simp_all
  have "mlfq_run ?w (Some m) aqs (com_jobs cm)" using idle(2) by (simp add: mlfq_run_def)
  moreover have "np_queue (?w\<lparr>completionEvent := NULL\<rparr>) (run_node ?r) None cm"
    using pop_completion(2) [OF idle(1) first] by simp
  ultimately obtain w1 acur' aqs' where w1: "schedulerCompleteJob traceCompletionCallback ?w = Some w1"
    "mlfq_mid w1 (run_node ?r) acur' aqs' cm (com_jobs cm)" "traceFile w1 = traceFile w" "currentJob w1 = currentJob w"
    "outFile w1 = outFile w @ out" "cur' = map_option abs_run acur'" "qs' = abs_levels aqs'"
    using comp [of ?w] fin by (auto simp: unat_of_nat_small)
  have "queue w = (run_node ?r, snd (comp_event ?r)) # pending None cm" using q by (simp add: comp_event_def)
  moreover have "invoke (callback (snd (comp_event ?r))) (w\<lparr>simTime := timestamp (snd (comp_event ?r))\<rparr>) = Some w1"
    using w1(1) by simp
  moreover have "mlfq_io w1 cm rest" using idle(3) w1(3,4) by (simp add: mlfq_io_def)
  ultimately show ?thesis using mlfq_run_event [OF _ len _ w1(2)] w1(5-7) by blast
qed

end
