(* ===== verification/Mlfq_Documented.thy ===== *)
theory Mlfq_Documented
  imports Mlfq_Spec
begin

text \<open>
  The schedule that the README of the simulator asks for: a time slice of one unit, and round robin order
  determined by the time when a job enters a priority level. The jobs stand in one list, in the order in which they
  entered their present levels, and the job that runs is the first of the highest level. A job that an arrival preempts
  keeps its place. \<open>mlfq_spec\<close> of \<open>Mlfq_Spec\<close>, which is what the code computes, puts such a job behind the others of its
  level; the two schedules are the same as long as no job is overtaken so.
\<close>

subsection \<open>The schedule\<close>

text \<open>The first entry of the highest level (the smallest number), and the others in their order.\<close>

fun pick :: "(nat \<times> 'a) list \<Rightarrow> ((nat \<times> 'a) \<times> (nat \<times> 'a) list) option" where
  "pick [] = None"
| "pick (e # es) = (case pick es of None \<Rightarrow> Some (e, es)
     | Some (b, rest) \<Rightarrow> if fst e \<le> fst b then Some (e, es) else Some (b, e # rest))"

lemma pick_None: "pick es = None \<longleftrightarrow> es = []"
  by (cases es) (auto split: option.splits)

lemma pick_mset: "pick es = Some (b, rest) \<Longrightarrow> mset es = add_mset b (mset rest)"
  by (induction es arbitrary: b rest) (auto simp: pick_None split: option.splits if_splits)

text \<open>\<open>Completion\<close> is a line of the output; \<open>Overtaken\<close> marks an arrival that preempts a job while another waits on that job's level.\<close>

datatype mlfq_event = Completion u64 nat | Overtaken

definition pool_work :: "(nat \<times> task) list \<Rightarrow> nat" where
  "pool_work es = sum_list (map (\<lambda>e. task_work (snd e)) es)"

lemma pool_work_simps [simp]: "pool_work [] = 0" "pool_work (es @ [(v, x)]) = pool_work es + task_work x"
  by (simp_all add: pool_work_def)

lemma pool_work_pick: "pick es = Some (b, rest) \<Longrightarrow> pool_work es = task_work (snd b) + pool_work rest"
  using pick_mset [of es b rest] unfolding pool_work_def
  by (metis (no_types, lifting) image_mset_add_mset mset_map sum_mset.add_mset sum_mset_sum_list)

text \<open>\<open>s\<close> is when the quantum began, \<open>low\<close> the lowest level.\<close>

function mlfq_documented :: "nat \<Rightarrow> nat \<Rightarrow> (nat \<times> task) list \<Rightarrow> trace_line list \<Rightarrow> mlfq_event list" where
  "mlfq_documented low s entered js =
     (case pick entered of
        None \<Rightarrow> (case js of [] \<Rightarrow> [] | k # js \<Rightarrow> mlfq_documented low (arr k) [(0, k, len k)] js)
      | Some ((v, j, r), rest) \<Rightarrow>
          (let fin = s + min 1 r in
           if js \<noteq> [] \<and> arr (hd js) < fin then
             (let k = hd js; entered = entered @ [(0, k, len k)] in
              if v = 0 then mlfq_documented low s entered (tl js)
              else (if v \<in> fst ` set rest then [Overtaken] else []) @ mlfq_documented low (arr k) entered (tl js))
           else if 1 < r then mlfq_documented low fin (rest @ [(min (Suc v) low, j, r - 1)]) js
           else Completion (line_id j) fin # mlfq_documented low fin rest js))"
  by pat_completeness auto

termination
proof (relation "measure (\<lambda>(low, s, entered, js). pool_work entered + sum_list (map (\<lambda>k. Suc (Suc (len k))) js))", goal_cases)
  case (3 low s entered js b rest v x j r)
  then show ?case by (cases js) (auto simp: task_work_def)
next
  case (4 low s entered js b rest v x j r)
  then show ?case by (cases js) (auto simp: task_work_def)
next
  case (5 low s entered js b rest v x j r)
  then show ?case by (auto simp: task_work_def dest!: pool_work_pick)
next
  case (6 low s entered js b rest v x j r)
  then show ?case by (auto simp: task_work_def dest!: pool_work_pick)
qed (auto simp: task_work_def pool_work_def)

declare mlfq_documented.simps [simp del]

text \<open>The lines of the output.\<close>

fun completions :: "mlfq_event list \<Rightarrow> (u64 \<times> nat) list" where
  "completions [] = []"
| "completions (Completion i t # es) = (i, t) # completions es"
| "completions (Overtaken # es) = completions es"

subsection \<open>The branches as equations\<close>

lemma documented_stop: "mlfq_documented low s [] [] = []"
  by (subst mlfq_documented.simps) simp

lemma documented_idle: "mlfq_documented low s [] (k # js) = mlfq_documented low (arr k) [(0, k, len k)] js"
  by (subst mlfq_documented.simps) simp

lemma documented_join:
  "pick es = Some ((0, j, r), rest) \<Longrightarrow> arr k < s + min 1 r \<Longrightarrow>
   mlfq_documented low s es (k # js) = mlfq_documented low s (es @ [(0, k, len k)]) js"
  by (subst mlfq_documented.simps) (simp add: Let_def)

lemma documented_preempt:
  "pick es = Some ((v, j, r), rest) \<Longrightarrow> 0 < v \<Longrightarrow> arr k < s + min 1 r \<Longrightarrow> mlfq_documented low s es (k # js) =
     (if v \<in> fst ` set rest then [Overtaken] else []) @ mlfq_documented low (arr k) (es @ [(0, k, len k)]) js"
  by (subst mlfq_documented.simps) (simp add: Let_def)

lemma documented_quantum:
  "pick es = Some ((v, j, r), rest) \<Longrightarrow> \<not> (js \<noteq> [] \<and> arr (hd js) < s + 1) \<Longrightarrow> 1 < r \<Longrightarrow>
   mlfq_documented low s es js = mlfq_documented low (s + 1) (rest @ [(min (Suc v) low, j, r - 1)]) js"
  by (subst mlfq_documented.simps) (auto simp: Let_def)

lemma documented_finish:
  "pick es = Some ((v, j, r), rest) \<Longrightarrow> \<not> (js \<noteq> [] \<and> arr (hd js) < s + r) \<Longrightarrow> r \<le> 1 \<Longrightarrow>
   mlfq_documented low s es js = Completion (line_id j) (s + r) # mlfq_documented low (s + r) rest js"
  by (subst mlfq_documented.simps) (auto simp: Let_def)

subsection \<open>The levels of the list\<close>

definition level_of :: "nat \<Rightarrow> (nat \<times> 'a) list \<Rightarrow> 'a list" where
  "level_of w es = map snd (filter (\<lambda>e. fst e = w) es)"

lemma level_of_simps [simp]:
  "level_of w [] = []" "level_of w (e # es) = (if fst e = w then [snd e] else []) @ level_of w es"
  "level_of w (es @ fs) = level_of w es @ level_of w fs"
  by (simp_all add: level_of_def)

lemma level_of_empty: "level_of w es = [] \<longleftrightarrow> w \<notin> fst ` set es"
  by (auto simp: level_of_def filter_empty_conv)

lemma pick_least: "pick es = Some (b, rest) \<Longrightarrow> e \<in> set es \<Longrightarrow> fst b \<le> fst e"
  by (induction es arbitrary: b rest) (fastforce simp: pick_None split: option.splits if_splits)+

lemma pick_level:
  "pick es = Some (b, rest) \<Longrightarrow> level_of w es = (if fst b = w then [snd b] else []) @ level_of w rest"
proof (induction es arbitrary: b rest)
  case (Cons e es)
  show ?case
  proof (cases "pick es")
    case (Some c)
    obtain b' rest' where c: "c = (b', rest')" by (cases c)
    show ?thesis using Cons.IH [of b' rest'] Cons.prems Some c by (auto split: if_splits)
  qed (use Cons.prems in \<open>auto simp: pick_None\<close>)
qed simp

text \<open>The queues of the levels hold what the list has on each of them, in its order.\<close>

definition stands :: "(nat \<times> 'a) list \<Rightarrow> 'a list list \<Rightarrow> bool" where
  "stands es qs \<longleftrightarrow> (\<forall>e \<in> set es. fst e < length qs) \<and> (\<forall>w < length qs. qs ! w = level_of w es)"

lemma stands_add: "stands es qs \<Longrightarrow> v < length qs \<Longrightarrow> stands (es @ [(v, x)]) (level_add v x qs)"
  by (auto simp: stands_def level_add_def nth_list_update)

lemma highest_first:
  "v < length qs \<Longrightarrow> qs ! v = x # q \<Longrightarrow> \<forall>w < v. qs ! w = [] \<Longrightarrow> highest qs = Some (v, x, qs[v := q])"
proof (induction qs arbitrary: v)
  case (Cons p qs)
  show ?case
  proof (cases v)
    case (Suc u)
    then have "p = []" "highest qs = Some (u, x, qs[u := q])" using Cons.IH [of u] Cons.prems by fastforce+
    then show ?thesis using Suc by simp
  qed (use Cons.prems in simp)
qed simp

lemma highest_above: "highest qs = Some (v, x, qs') \<Longrightarrow> w < v \<Longrightarrow> qs ! w = []"
  by (induction qs arbitrary: v w qs' rule: highest.induct) (auto simp: nth_Cons split: nat.splits)

lemma stands_pick:
  assumes "stands es qs" "pick es = Some ((v, x), rest)"
  shows "\<exists>qs'. highest qs = Some (v, x, qs') \<and> stands rest qs'"
proof -
  have "(v, x) \<in># mset es" using pick_mset [OF assms(2)] by simp
  then have v: "v < length qs" using assms(1) by (auto simp: stands_def)
  have hd: "qs ! v = x # level_of v rest" using assms(1) v pick_level [OF assms(2), of v] by (simp add: stands_def)
  have above: "qs ! w = []" if "w < v" for w
  proof -
    have "w \<notin> fst ` set es" using pick_least [OF assms(2)] that by fastforce
    then have "level_of w es = []" by (simp only: level_of_empty simp_thms)
    then show ?thesis using assms(1) v that by (simp add: stands_def)
  qed
  have "highest qs = Some (v, x, qs[v := level_of v rest])" by (rule highest_first [OF v hd]) (simp add: above)
  moreover have "set rest \<subseteq> set es" using mset_eq_setD [of es "(v, x) # rest"] pick_mset [OF assms(2)] by auto
  then have "stands rest (qs[v := level_of v rest])"
    using assms(1) pick_level [OF assms(2)] v unfolding stands_def by (auto simp: nth_list_update split: if_splits)
  ultimately show ?thesis by blast
qed

lemma stands_highest:
  assumes "stands es qs" "highest qs = Some (v, x, qs')"
  obtains rest where "pick es = Some ((v, x), rest)" "stands rest qs'"
proof (cases "pick es")
  case None
  then have "waiting qs = {#}" using assms(1) by (auto simp: pick_None stands_def waiting_def in_set_conv_nth)
  then show thesis using assms(2) highest_None [of qs] by simp
next
  case (Some c)
  obtain u y rest where c: "c = ((u, y), rest)" by (metis surj_pair)
  then show thesis using stands_pick [OF assms(1), of u y rest] Some assms(2) that by auto
qed

subsection \<open>The two schedules\<close>

text \<open>The list has the running job too; without it, it is what waits on the levels.\<close>

definition matches :: "(nat \<times> task) list \<Rightarrow> running_task option \<Rightarrow> task list list \<Rightarrow> bool" where
  "matches es cur qs \<longleftrightarrow> (case cur of None \<Rightarrow> es = []
     | Some (v, x, s) \<Rightarrow> \<exists>qf. stands es qf \<and> highest qf = Some (v, x, qs) \<and> length qf = MAX_MLFQ_LEVELS)"

lemma matches_dispatch:
  assumes "dispatch t qf = (cur, qs)" "stands es qf" "length qf = MAX_MLFQ_LEVELS"
  shows "matches es cur qs" "cur = Some (v, x, s) \<Longrightarrow> s = t"
proof -
  show "matches es cur qs"
  proof (cases "highest qf")
    case None
    then have "es = []" using stands_pick [OF assms(2)] by (metis option.distinct(1) pick_None not_None_eq surj_pair)
    then show ?thesis using assms(1) None by (auto simp: dispatch_def matches_def)
  qed (use assms in \<open>auto simp: dispatch_def matches_def\<close>)
  show "s = t" if "cur = Some (v, x, s)" using assms(1) that by (auto simp: dispatch_def split: option.splits)
qed

lemma matches_running:
  assumes "matches es (Some (v, x, s)) qs"
  obtains qf rest where "stands es qf" "highest qf = Some (v, x, qs)" "length qf = MAX_MLFQ_LEVELS"
    "pick es = Some ((v, x), rest)" "stands rest qs"
proof -
  obtain qf where qf: "stands es qf" "highest qf = Some (v, x, qs)" "length qf = MAX_MLFQ_LEVELS"
    using assms by (auto simp: matches_def)
  obtain rest where "pick es = Some ((v, x), rest)" "stands rest qs" by (rule stands_highest [OF qf(1,2)])
  then show thesis by (rule that [OF qf])
qed

text \<open>
  Either the lowest level is the one of the code, or no job needs more quanta than the code has levels: then no
  job is ever demoted from the lowest.
\<close>

definition levels_suffice :: "nat \<Rightarrow> (nat \<times> task) list \<Rightarrow> trace_line list \<Rightarrow> bool" where
  "levels_suffice low es js \<longleftrightarrow> low = MAX_MLFQ_LEVELS - 1 \<or>
     MAX_MLFQ_LEVELS \<le> low \<and> (\<forall>(v, j, r) \<in> set es. v + r \<le> MAX_MLFQ_LEVELS) \<and> (\<forall>k \<in> set js. len k \<le> MAX_MLFQ_LEVELS)"

lemma suffice_arrival: "levels_suffice low es (k # js) \<Longrightarrow> levels_suffice low (es @ [(0, k, len k)]) js"
  by (auto simp: levels_suffice_def)

lemma suffice_rest:
  assumes "levels_suffice low es js" "pick es = Some ((v, j, r), rest)"
  shows "levels_suffice low rest js"
    "1 < r \<Longrightarrow> levels_suffice low (rest @ [(min (Suc v) low, j, r - 1)]) js \<and> min (Suc v) low = min (Suc v) (MAX_MLFQ_LEVELS - 1)"
proof -
  have "set es = insert (v, j, r) (set rest)" using mset_eq_setD [of es "(v, j, r) # rest"] pick_mset [OF assms(2)] by simp
  then show "levels_suffice low rest js"
    "1 < r \<Longrightarrow> levels_suffice low (rest @ [(min (Suc v) low, j, r - 1)]) js \<and> min (Suc v) low = min (Suc v) (MAX_MLFQ_LEVELS - 1)"
    using assms(1) by (auto simp: levels_suffice_def)
qed

text \<open>The levels after an arrival, when the running job keeps its place.\<close>

lemma highest_join:
  assumes "highest qf = Some (0, x, qs)"
  shows "highest (level_add 0 y qf) = Some (0, x, level_add 0 y qs)"
  using highest_Some(2-4) [OF assms] highest_Some(1) [OF assms] by (cases qf; cases qs) (auto simp: level_add_def)

lemma requeue_alone:
  assumes "highest qf = Some (v, x, qs)" "0 < v" "qs ! v = []"
  shows "level_add v x (level_add 0 y qs) = level_add 0 y qf"
proof -
  have h: "v < length qf" "qf ! v = [x]" "qs = qf[v := []]" "length qs = length qf" using highest_Some [OF assms(1)] assms(3) by simp_all
  have "qf[v := [], 0 := z, v := [x]] = qf[0 := z]" for z using h(1,2) assms(2) by (metis list_update_id list_update_overwrite list_update_swap nat_less_le)
  then show ?thesis using h assms(2) by (simp add: level_add_def)
qed

text \<open>Both schedules write the same, unless a job is overtaken.\<close>

lemma documented_is_spec:
  assumes "state_ok cur qs js" "matches es cur qs" "\<And>v x t. cur = Some (v, x, t) \<Longrightarrow> s = t"
    "levels_suffice low es js" "Overtaken \<notin> set (mlfq_documented low s es js)"
  shows "completions (mlfq_documented low s es js) = mlfq_spec cur qs js"
  using assms
proof (induction cur qs js arbitrary: s es rule: mlfq_spec_induct)
  case (stop qs)
  then show ?case by (simp add: matches_def documented_stop)
next
  case (idle qs k js cur' qs')
  have es: "es = []" using idle.prems(1) by (simp add: matches_def)
  have "stands [] qs" using idle(1) unfolding stands_def waiting_def by (auto dest: nth_mem)
  then have "stands [(0, k, len k)] (level_add 0 (k, len k) qs)" using stands_add [of "[]" qs 0] idle(2) by simp
  note m = matches_dispatch [OF idle(3) this, simplified, OF idle(2)]
  have "levels_suffice low [(0, k, len k)] js" using suffice_arrival [of low "[]"] idle.prems(3) es by simp
  then show ?case using idle.IH [of "[(0, k, len k)]" "arr k", OF m(1)] m(2) idle.prems(4) idle(3) es by (simp add: documented_idle)
next
  case (join j r t qs k js)
  obtain qf rest where qf: "stands es qf" "highest qf = Some (0, (j, r), qs)" "length qf = MAX_MLFQ_LEVELS"
    "pick es = Some ((0, j, r), rest)" "stands rest qs" by (rule matches_running [OF join.prems(1)])
  have s: "s = t" using join.prems(2) by simp
  have "matches (es @ [(0, k, len k)]) (Some (0, (j, r), t)) (level_add 0 (k, len k) qs)"
    using stands_add [OF qf(1), of 0] highest_join [OF qf(2)] qf(3) unfolding matches_def by fastforce
  moreover have "mlfq_documented low s es (k # js) = mlfq_documented low s (es @ [(0, k, len k)]) js"
    using join(2,3) s by (intro documented_join [OF qf(4)]) simp
  ultimately show ?case
    using join.IH [of "es @ [(0, k, len k)]" s] join.prems(2-4) suffice_arrival join(2,3) by (simp add: mlfq_spec_join)
next
  case (preempt v j r t qs k js cur' qs')
  obtain qf rest where qf: "stands es qf" "highest qf = Some (v, (j, r), qs)" "length qf = MAX_MLFQ_LEVELS"
    "pick es = Some ((v, j, r), rest)" "stands rest qs" by (rule matches_running [OF preempt.prems(1)])
  have s: "s = t" using preempt.prems(2) by simp
  have a: "arr k < s + min 1 r" using preempt(4,5) s by simp
  note d = documented_preempt [OF qf(4) preempt(3) a, of low js]
  have free: "v \<notin> fst ` set rest" using preempt.prems(4) d by (auto split: if_splits)
  then have "qs ! v = []" using qf(5) preempt(1,2) by (simp add: stands_def level_of_empty)
  note rq = requeue_alone [OF qf(2) preempt(3) this, of "(k, len k)"]
  have "stands (es @ [(0, k, len k)]) (level_add 0 (k, len k) qf)" by (rule stands_add [OF qf(1)]) (simp add: qf(3))
  note m = matches_dispatch [OF preempt(6) [unfolded rq] this, simplified, OF qf(3)]
  show ?case
    using preempt.IH [of "es @ [(0, k, len k)]" "arr k", OF m(1)] m(2) suffice_arrival [OF preempt.prems(3)] preempt.prems(4) d free
      mlfq_spec_preempt [OF _ preempt(3,6), of t js] a s by auto
next
  case (quantum v j r t qs js cur' qs')
  obtain qf rest where qf: "pick es = Some ((v, j, r), rest)" "stands rest qs" by (rule matches_running [OF quantum.prems(1)])
  have s: "s = t" using quantum.prems(2) by simp
  note su = suffice_rest(2) [OF quantum.prems(3) qf(1) quantum(3)]
  let ?v = "min (Suc v) (MAX_MLFQ_LEVELS - 1)" and ?es = "rest @ [(min (Suc v) (MAX_MLFQ_LEVELS - 1), j, r - 1)]"
  have "stands ?es (level_add ?v (j, r - 1) qs)" by (rule stands_add [OF qf(2)]) (simp add: quantum(1))
  note m = matches_dispatch [OF quantum(5) this, simplified, OF quantum(1)]
  have d: "mlfq_documented low s es js = mlfq_documented low (s + 1) ?es js"
    using documented_quantum [OF qf(1) _ quantum(3), of js s low] quantum(4) s su by simp
  have "levels_suffice low ?es js" using su by metis
  then show ?case
    using quantum.IH [of ?es "s + 1"] m quantum.prems(4) d mlfq_spec_quantum [OF _ quantum(3,5)] quantum(4,3) s by simp
next
  case (finish v j r t qs js cur' qs')
  obtain qf rest where qf: "pick es = Some ((v, j, r), rest)" "stands rest qs" by (rule matches_running [OF finish.prems(1)])
  have s: "s = t" using finish.prems(2) by simp
  note m = matches_dispatch [OF finish(5) qf(2) finish(1)]
  have d: "mlfq_documented low s es js = Completion (line_id j) (s + r) # mlfq_documented low (s + r) rest js"
    using documented_finish [OF qf(1) _ finish(3)] finish(4) s by simp
  show ?case
    using finish.IH [of rest "s + r"] m suffice_rest(1) [OF finish.prems(3) qf(1)] finish.prems(4) d
      mlfq_spec_finish [OF finish(4,3,5)] s by simp
qed

end
