(* ===== verification/Mlfq_Run.thy ===== *)
theory Mlfq_Run
  imports Mlfq Mlfq_Documented
begin

text \<open>
  Whole runs under the multi-level feedback queue: each branch of the schedule of \<open>Mlfq_Spec\<close>
  is one step of the event loop, so a run ends and writes what the schedule says.
\<close>

subsection \<open>Times that do not overflow\<close>

definition fits :: "nat \<Rightarrow> task multiset \<Rightarrow> trace_line list \<Rightarrow> bool" where
  "fits t T js \<longleftrightarrow> t + (work_left T + sum_list (map len js)) < 2 ^ 64 - 1"

definition mlfq_time :: "running_task option \<Rightarrow> task list list \<Rightarrow> trace_line list \<Rightarrow> bool" where
  "mlfq_time cur qs js \<longleftrightarrow> (\<forall>k \<in> set js. fits (arr k) (spec_tasks cur qs) js) \<and>
     (case cur of None \<Rightarrow> True | Some (_, _, s) \<Rightarrow> fits s (spec_tasks cur qs) js) \<and>
     size (spec_tasks cur qs) + length js + 2 < 2 ^ 64"

lemma mlfq_time_dispatch:
  assumes "dispatch t qs = (cur, qs')" "length qs = MAX_MLFQ_LEVELS" "\<forall>k \<in> set js. fits (arr k) (waiting qs) js"
    "fits t (waiting qs) js" "size (waiting qs) + length js + 2 < 2 ^ 64"
  shows "mlfq_time cur qs' js"
  using dispatch_cases(2,3) [OF assms(1,2)] assms(3-5) by (auto simp: mlfq_time_def)

lemma member_work: "x \<in># T \<Longrightarrow> snd x \<le> work_left T"
  by (auto dest!: multi_member_split)

lemma fits_small:
  assumes "fits t (waiting qs) js" "size (waiting qs) + length js + 2 < 2 ^ 64"
  shows "small qs"
proof -
  have "work_left (waiting qs) < 2 ^ 64" using assms(1) by (simp add: fits_def)
  then show ?thesis using assms(2) by (auto simp: small_def dest!: member_work)
qed

subsection \<open>The branches of the schedule\<close>

lemma sim_running:
  assumes "mlfq_sim w (Some (v, (j, r), s)) qs js"
  obtains m aqs cm rest where "np_idle w (Some (m_event m)) cm" "mlfq_run w (Some m) aqs (com_jobs cm)" "mlfq_io w cm rest"
    "t_level (m_task m) = v" "abs_task (m_task m) = (j, r)" "m_start m = s" "run_fin (m_event m) = s + min 1 r"
    "qs = abs_levels aqs" "js = com_lines cm rest"
proof -
  obtain acur aqs cm rest where *: "np_idle w (map_option m_event acur) cm" "mlfq_run w acur aqs (com_jobs cm)" "mlfq_io w cm rest"
    "Some (v, (j, r), s) = map_option abs_run acur" "qs = abs_levels aqs" "js = com_lines cm rest"
    using assms by (auto simp: mlfq_sim_def)
  then obtain m where m: "acur = Some m" by (cases acur) auto
  then have "run_fin (m_event m) = m_start m + min 1 (t_rem (m_task m))"
    using *(2) by (auto simp: mlfq_run_def mlfq_ok_def)
  then show ?thesis using that [of m cm aqs rest] * m by (simp add: abs_run_def abs_task_def)
qed

lemma sim_idle:
  assumes "mlfq_sim w None qs js"
  obtains aqs cm rest where "np_idle w None cm" "mlfq_run w None aqs (com_jobs cm)" "mlfq_io w cm rest"
    "qs = abs_levels aqs" "js = com_lines cm rest"
  using assms by (auto simp: mlfq_sim_def)

lemma com_lines_Cons:
  assumes "mlfq_io w cm rest" "k # js = com_lines cm rest"
  obtains c where "cm = Some c" "com_line c = k" "rest = js"
  using assms by (cases cm) (auto simp: mlfq_io_def com_lines_def)

lemma step_idle:
  assumes sim: "mlfq_sim w None qs (k # js)" and time: "mlfq_time None qs (k # js)" and ok: "state_ok None qs (k # js)"
    and d: "dispatch (arr k) (level_add 0 (k, len k) qs) = (cur', qs')"
  shows "step_to w [] cur' qs' js"
proof -
  obtain aqs cm rest where s: "np_idle w None cm" "mlfq_run w None aqs (com_jobs cm)" "mlfq_io w cm rest"
    "qs = abs_levels aqs" "k # js = com_lines cm rest"
    by (rule sim_idle [OF sim])
  obtain c where c: "cm = Some c" "com_line c = k" "rest = js" by (rule com_lines_Cons [OF s(3,5)])
  have len: "length aqs = MAX_MLFQ_LEVELS" using ok s(4) by (simp add: state_ok_def)
  have now: "arr k + 1 < 2 ^ 64" using time by (simp add: mlfq_time_def fits_def)
  have small: "small (level_add 0 (com_line c, len (com_line c)) (abs_levels aqs))"
    using time c(2) s(4) len
    by (intro fits_small [of "arr k" _ js]) (simp_all add: mlfq_time_def fits_def waiting_level_add add_ac)
  show ?thesis
  proof (rule arrival_step [where acur = None and aqs = aqs and c = c, OF _ _ _ _ _, of w js cur' qs'], goal_cases)
    case (6 w0)
    have t: "unat (simTime w0) = arr k" using 6(2) c(2) by (simp add: unat_arr)
    obtain w1 cur aqs' where "schedulerScheduleJob w0 (Some (com_ptr c)) = Some w1" "mlfq_mid w1 (com_node c) cur aqs' None {#}"
      "same_io w0 w1" "dispatch (unat (simTime w0)) (level_add 0 (com_line c, len (com_line c)) (abs_levels aqs)) = (map_option abs_run cur, abs_levels aqs')"
      by (rule arrive_idle [OF _ small, of w0 "com_node c" "com_ptr c" "{#}"]) (use 6 now t in auto)
    then show ?case using d t c(2) s(4) by (intro exI [of _ w1] exI [of _ cur] exI [of _ aqs']) simp
  next
    case 5
    then show ?case using ok c by (cases js) (auto simp: state_ok_def)
  qed (use s c in simp_all)
qed

lemma arrives_first:
  assumes "run_fin r = s + min 1 n" "s + 1 < 2 ^ 64" "arr (com_line c) = s" "0 < n"
  shows "\<not> completes_first r c"
  using assms by (simp add: completes_first_nat min_def)

lemma step_join:
  assumes sim: "mlfq_sim w (Some (0, (j, r), s)) qs (k # js)" and time: "mlfq_time (Some (0, (j, r), s)) qs (k # js)"
    and ok: "state_ok (Some (0, (j, r), s)) qs (k # js)" and k: "arr k = s" "0 < r"
  shows "step_to w [] (Some (0, (j, r), s)) (level_add 0 (k, len k) qs) js"
proof -
  obtain m aqs cm rest where m: "np_idle w (Some (m_event m)) cm" "mlfq_run w (Some m) aqs (com_jobs cm)" "mlfq_io w cm rest"
    "t_level (m_task m) = 0" "abs_task (m_task m) = (j, r)" "m_start m = s" "run_fin (m_event m) = s + min 1 r"
    "qs = abs_levels aqs" "k # js = com_lines cm rest"
    by (rule sim_running [OF sim])
  obtain c where c: "cm = Some c" "com_line c = k" "rest = js" by (rule com_lines_Cons [OF m(3,9)])
  have now: "s + 1 < 2 ^ 64" using time by (simp add: mlfq_time_def fits_def)
  show ?thesis
  proof (rule arrival_step [where acur = "Some m" and aqs = aqs and c = c], goal_cases)
    case 4
    then show ?case using arrives_first [OF m(7) now] k c(2) by simp
  next
    case 5
    then show ?case using ok c by (cases js) (auto simp: state_ok_def)
  next
    case (6 w0)
    obtain w1 aqs' where "schedulerScheduleJob w0 (Some (com_ptr c)) = Some w1" "mlfq_mid w1 (com_node c) (Some m) aqs' None {#}"
      "same_io w0 w1" "abs_levels aqs' = level_add 0 (com_line c, len (com_line c)) (abs_levels aqs)"
      by (rule arrive_join [OF _ m(4), of w0 "com_node c" aqs "com_ptr c" "com_line c" "{#}"]) (use 6 in auto)
    then show ?case
      using m c by (intro exI [of _ w1] exI [of _ "Some m"] exI [of _ aqs']) (simp add: abs_run_def)
  qed (use m c in simp_all)
qed

lemma step_preempt:
  assumes sim: "mlfq_sim w (Some (v, (j, r), s)) qs (k # js)" and time: "mlfq_time (Some (v, (j, r), s)) qs (k # js)"
    and ok: "state_ok (Some (v, (j, r), s)) qs (k # js)" and v: "0 < v" and k: "arr k = s" "0 < r"
    and d: "dispatch (arr k) (level_add v (j, r) (level_add 0 (k, len k) qs)) = (cur', qs')"
  shows "step_to w [] cur' qs' js"
proof -
  obtain m aqs cm rest where m: "np_idle w (Some (m_event m)) cm" "mlfq_run w (Some m) aqs (com_jobs cm)" "mlfq_io w cm rest"
    "t_level (m_task m) = v" "abs_task (m_task m) = (j, r)" "m_start m = s" "run_fin (m_event m) = s + min 1 r"
    "qs = abs_levels aqs" "k # js = com_lines cm rest"
    by (rule sim_running [OF sim])
  obtain c where c: "cm = Some c" "com_line c = k" "rest = js" by (rule com_lines_Cons [OF m(3,9)])
  have now: "s + 1 < 2 ^ 64" using time by (simp add: mlfq_time_def fits_def)
  have len: "length aqs = MAX_MLFQ_LEVELS" "v < MAX_MLFQ_LEVELS" using ok m(8) by (simp_all add: state_ok_def)
  have small: "small (level_add (t_level (m_task m)) (abs_task (m_task m)) (level_add 0 (com_line c, len (com_line c)) (abs_levels aqs)))"
    using time c(2) m(4,5,8) len
    by (intro fits_small [of "arr k" _ js]) (simp_all add: mlfq_time_def fits_def waiting_level_add add_ac)
  show ?thesis
  proof (rule arrival_step [where acur = "Some m" and aqs = aqs and c = c], goal_cases)
    case 4
    then show ?case using arrives_first [OF m(7) now] k c(2) by simp
  next
    case 5
    then show ?case using ok c by (cases js) (auto simp: state_ok_def)
  next
    case (6 w0)
    have t: "unat (simTime w0) = s" using 6(2) c(2) k by (simp add: unat_arr)
    obtain w1 cur aqs' where "schedulerScheduleJob w0 (Some (com_ptr c)) = Some w1" "mlfq_mid w1 (com_node c) cur aqs' None {#}"
      "same_io w0 w1" "dispatch (unat (simTime w0)) (level_add (t_level (m_task m)) (abs_task (m_task m))
          (level_add 0 (com_line c, len (com_line c)) (abs_levels aqs))) = (map_option abs_run cur, abs_levels aqs')"
      by (rule arrive_preempt [OF _ _ _ small, of w0 "com_node c" "com_ptr c" "{#}"]) (use 6 now t m v in auto)
    then show ?case using d t c(2) m k(1) by (intro exI [of _ w1] exI [of _ cur] exI [of _ aqs']) simp
  qed (use m c in simp_all)
qed

lemma completes_in_time:
  assumes "mlfq_io w cm rest" "js = com_lines cm rest" "\<not> (js \<noteq> [] \<and> arr (hd js) < run_fin r)" "run_fin r < 2 ^ 64"
  shows "\<forall>c. cm = Some c \<longrightarrow> completes_first r c"
  using assms by (auto simp: com_lines_def completes_first_nat)

lemma step_quantum:
  assumes sim: "mlfq_sim w (Some (v, (j, r), s)) qs js" and time: "mlfq_time (Some (v, (j, r), s)) qs js"
    and ok: "state_ok (Some (v, (j, r), s)) qs js" and r: "1 < r" and late: "\<not> (js \<noteq> [] \<and> arr (hd js) < s + 1)"
    and d: "dispatch (s + 1) (level_add (min (Suc v) (MAX_MLFQ_LEVELS - 1)) (j, r - 1) qs) = (cur', qs')"
  shows "step_to w [] cur' qs' js"
proof -
  obtain m aqs cm rest where m: "np_idle w (Some (m_event m)) cm" "mlfq_run w (Some m) aqs (com_jobs cm)" "mlfq_io w cm rest"
    "t_level (m_task m) = v" "abs_task (m_task m) = (j, r)" "m_start m = s" "run_fin (m_event m) = s + min 1 r"
    "qs = abs_levels aqs" "js = com_lines cm rest"
    by (rule sim_running [OF sim])
  have now: "s + 1 + 1 < 2 ^ 64" and rem: "t_rem (m_task m) = r" "t_line (m_task m) = j" "r < 2 ^ 64"
    using time m(5) r by (simp_all add: mlfq_time_def fits_def abs_task_def)
  have len: "length aqs = MAX_MLFQ_LEVELS" using ok m(8) by (simp add: state_ok_def)
  have fin: "run_fin (m_event m) = s + 1" using m(7) r by simp
  have small: "small (level_add (t_level (demoted (m_task m))) (abs_task (demoted (m_task m))) (abs_levels aqs))"
    using time m(4,5,8) len rem r
    by (intro fits_small [of s _ js]) (simp_all add: mlfq_time_def fits_def waiting_level_add less_imp_diff_less)
  show ?thesis unfolding m(9)
  proof (rule completion_step [where m = m and aqs = aqs], goal_cases)
    case 4
    then show ?case by (rule completes_in_time [OF m(3,9)]) (use late fin now in simp_all)
  next
    case (6 w0)
    have t: "unat (simTime w0) = s + 1" using 6(3) fin by simp
    obtain w1 cur aqs' where "schedulerCompleteJob traceCompletionCallback w0 = Some w1"
      "mlfq_mid w1 (run_node (m_event m)) cur aqs' cm (com_jobs cm)" "same_io w0 w1"
      "dispatch (unat (simTime w0)) (level_add (t_level (demoted (m_task m))) (abs_task (demoted (m_task m))) (abs_levels aqs))
        = (map_option abs_run cur, abs_levels aqs')"
      by (rule complete_quantum [OF 6(1,2) _ _ small, where cb = traceCompletionCallback]) (use r rem now t in auto)
    then show ?case using d t m(4,8) rem by (intro exI [of _ w1] exI [of _ cur] exI [of _ aqs']) (simp add: same_io_def)
  qed (use m fin now in simp_all)
qed

lemma step_finish:
  assumes sim: "mlfq_sim w (Some (v, (j, r), s)) qs js" and time: "mlfq_time (Some (v, (j, r), s)) qs js"
    and r: "r \<le> 1" and late: "\<not> (js \<noteq> [] \<and> arr (hd js) < s + r)" and d: "dispatch (s + r) qs = (cur', qs')"
  shows "step_to w [(line_id j, of_nat (s + r))] cur' qs' js"
proof -
  obtain m aqs cm rest where m: "np_idle w (Some (m_event m)) cm" "mlfq_run w (Some m) aqs (com_jobs cm)" "mlfq_io w cm rest"
    "t_level (m_task m) = v" "abs_task (m_task m) = (j, r)" "m_start m = s" "run_fin (m_event m) = s + min 1 r"
    "qs = abs_levels aqs" "js = com_lines cm rest"
    by (rule sim_running [OF sim])
  have now: "s + r + 1 < 2 ^ 64" and rem: "t_rem (m_task m) = r" "t_line (m_task m) = j" and small: "small (abs_levels aqs)"
    using time m(5,8) by (simp_all add: mlfq_time_def fits_def abs_task_def fits_small [of s _ js])
  have fin: "run_fin (m_event m) = s + r" using m(7) r by simp
  show ?thesis unfolding m(9)
  proof (rule completion_step [where m = m and aqs = aqs], goal_cases)
    case 4
    then show ?case by (rule completes_in_time [OF m(3,9)]) (use late fin now in simp_all)
  next
    case (6 w0)
    have t: "unat (simTime w0) = s + r" using 6(3) fin by simp
    obtain w1 cur aqs' job where
      w1: "schedulerCompleteJob traceCompletionCallback w0 = traceCompletionCallback (Some (t_job (m_task m))) w1"
      "mlfq_mid w1 (run_node (m_event m)) cur aqs' cm (add_mset (t_job (m_task m), job) (com_jobs cm))" "same_io w0 w1"
      "jobId job = line_id (t_line (m_task m))"
      "dispatch (unat (simTime w0)) (abs_levels aqs) = (map_option abs_run cur, abs_levels aqs')"
      by (rule complete_finish [OF 6(1,2) _ small, where cb = traceCompletionCallback]) (use r rem now t in auto)
    let ?w = "w1\<lparr>outFile := outFile w1 @ [(line_id j, simTime w1)], jobs := (jobs w1)(t_job (m_task m) := None)\<rparr>"
    obtain info where info: "schedulerInfo w1 = MLFQ info"
      "mlfq_ok (malloc_ctr w1) info (jobs w1) cur aqs' (add_mset (t_job (m_task m), job) (com_jobs cm))"
      and q: "np_queue w1 (run_node (m_event m)) (map_option m_event cur) cm"
      using w1(2) by (auto simp: mlfq_mid_def)
    have st: "store_as (malloc_ctr w1) (jobs w1) (add_mset (t_job (m_task m), job) (image_mset job_of (mtasks cur aqs') + com_jobs cm))"
      using info(2) by (simp add: mlfq_ok_def)
    have "mlfq_ok (malloc_ctr ?w) info (jobs ?w) cur aqs' (com_jobs cm)"
      using info(2) store_as_del [OF st] by (simp add: mlfq_ok_def)
    then have "mlfq_mid ?w (run_node (m_event m)) cur aqs' cm (com_jobs cm)"
      using info(1) q by (simp add: mlfq_mid_def np_queue_def np_events_def)
    moreover have "schedulerCompleteJob traceCompletionCallback w0 = Some ?w"
      using w1(1,4) store_as_get [OF st] rem
      by (simp add: traceCompletionCallback_def jobDestroy_def simulatorSimTime_def)
    moreover have "simTime w1 = of_nat (s + r)" unfolding t [symmetric] using w1(3) by (simp add: same_io_def)
    ultimately show ?case
      using w1(3,5) d t m(8) by (intro exI [of _ ?w] exI [of _ cur] exI [of _ aqs']) (simp add: same_io_def)
  qed (use m fin now in simp_all)
qed

subsection \<open>Whole runs\<close>

definition run_end :: "world \<Rightarrow> bool" where
  "run_end w \<longleftrightarrow> queue w = [] \<and> completionEvent w = NULL \<and> jobs w = Map.empty \<and>
     (\<exists>info. schedulerInfo w = MLFQ info \<and> mlfq_running info = NULL \<and> mlfq_wrappers info = Map.empty \<and>
        (\<forall>q \<in> set (mlfq_queues info). q = Some []))"

definition ends_with :: "world \<Rightarrow> (u64 \<times> u64) list \<Rightarrow> bool" where
  "ends_with w out \<longleftrightarrow> (\<exists>w'. simulatorRun invoke w = Some w' \<and> run_end w' \<and> outFile w' = outFile w @ out)"

lemma step_ends:
  assumes "step_to w out cur qs js" "\<And>w'. mlfq_sim w' cur qs js \<Longrightarrow> ends_with w' out'"
  shows "ends_with w (out @ out')"
  using assms by (fastforce simp: step_to_def ends_with_def)

lemma empty_levels:
  "list_all2 (level_rep c) qs aqs \<Longrightarrow> waiting aqs = {#} \<Longrightarrow> \<forall>q \<in> set qs. q = Some []"
  by (induction rule: list_all2_induct) (auto simp: level_rep_Nil)

lemma stop_ends:
  assumes sim: "mlfq_sim w None qs []" and empty: "waiting qs = {#}"
  shows "ends_with w []"
proof -
  obtain aqs cm rest where s: "np_idle w None cm" "mlfq_run w None aqs (com_jobs cm)" "mlfq_io w cm rest"
    "qs = abs_levels aqs" "[] = com_lines cm rest"
    by (rule sim_idle [OF sim])
  have cm: "cm = None" using s(5) by (cases cm) (simp_all add: com_lines_def)
  have q: "queue w = []" "completionEvent w = NULL" using s(1) cm by (simp_all add: np_idle_def np_events_def)
  have aqs: "waiting aqs = {#}" using empty s(4) by (simp add: waiting_abs)
  obtain info where info: "schedulerInfo w = MLFQ info" "mlfq_ok (malloc_ctr w) info (jobs w) None aqs {#}"
    using s(2) cm by (auto simp: mlfq_run_def)
  have "\<forall>q \<in> set (mlfq_queues info). q = Some []"
    using empty_levels info(2) aqs by (auto simp: mlfq_ok_def levels_rep_def)
  then have "run_end w" using q info aqs by (simp add: run_end_def mlfq_ok_def)
  moreover have "simulatorRun invoke w = Some w"
    using q(1) by (subst simulatorRun.simps) (simp add: l_count_def)
  ultimately show ?thesis by (simp add: ends_with_def)
qed

lemma out_lines_simps [simp]: "out_lines [] = []" "out_lines ((i, t) # xs) = (i, of_nat t) # out_lines xs"
  by (simp_all add: out_lines_def)

lemma run_mlfq_spec:
  assumes "state_ok cur qs js" "mlfq_time cur qs js" "mlfq_sim w cur qs js"
  shows "ends_with w (out_lines (mlfq_spec cur qs js))"
  using assms(1) assms
proof (induction cur qs js arbitrary: w rule: mlfq_spec_induct)
  case (stop qs)
  then show ?case using stop_ends by simp
next
  case (idle qs k js cur' qs')
  have "mlfq_time cur' qs' js"
    by (rule mlfq_time_dispatch [OF idle(3)])
      (use idle(1,2,7) in \<open>simp_all add: mlfq_time_def fits_def waiting_level_add\<close>)
  then have "ends_with w ([] @ out_lines (mlfq_spec cur' qs' js))"
    using idle(4,5) by (intro step_ends [OF step_idle [OF idle(8,7,6,3)]]) simp
  then show ?case using idle(3) by simp
next
  case (join j r s qs k js)
  have "mlfq_time (Some (0, (j, r), s)) (level_add 0 (k, len k) qs) js"
    using join(1,7) by (simp add: mlfq_time_def fits_def waiting_level_add add_ac)
  then have "ends_with w ([] @ out_lines (mlfq_spec (Some (0, (j, r), s)) (level_add 0 (k, len k) qs) js))"
    using join(4,5) by (intro step_ends [OF step_join [OF join(8,7,6,2,3)]]) simp
  then show ?case using join(2,3) by (simp add: mlfq_spec_join)
next
  case (preempt v j r s qs k js cur' qs')
  have "mlfq_time cur' qs' js"
    by (rule mlfq_time_dispatch [OF preempt(6)])
      (use preempt(1,2,4,10) in \<open>simp_all add: mlfq_time_def fits_def waiting_level_add add_ac\<close>)
  then have "ends_with w ([] @ out_lines (mlfq_spec cur' qs' js))"
    using preempt(7,8) by (intro step_ends [OF step_preempt [OF preempt(11,10,9,3,4,5,6)]]) simp
  then show ?case using preempt(3,4,5,6) by (simp add: mlfq_spec_preempt)
next
  case (quantum v j r s qs js cur' qs')
  have "mlfq_time cur' qs' js"
    by (rule mlfq_time_dispatch [OF quantum(5)])
      (use quantum(1,2,3,9) in \<open>auto simp add: mlfq_time_def fits_def waiting_level_add\<close>)
  then have "ends_with w ([] @ out_lines (mlfq_spec cur' qs' js))"
    using quantum(6,7) by (intro step_ends [OF step_quantum [OF quantum(10,9,8,3,4,5)]]) simp
  then show ?case using quantum(3,4,5) by (simp add: mlfq_spec_quantum)
next
  case (finish v j r s qs js cur' qs')
  have "mlfq_time cur' qs' js"
    by (rule mlfq_time_dispatch [OF finish(5)])
      (use finish(1,9) in \<open>auto simp add: mlfq_time_def fits_def\<close>)
  then have "ends_with w ([(line_id j, of_nat (s + r))] @ out_lines (mlfq_spec cur' qs' js))"
    using finish(6,7) by (intro step_ends [OF step_finish [OF finish(10,9,3,4,5)]]) simp
  then show ?case using finish(3,4,5) by (simp add: mlfq_spec_finish)
qed

lemma trace_mlfq_run:
  assumes w: "\<forall>n. malloc_ok w n" "queue w = []" "completionEvent w = NULL" "jobs w = Map.empty" "simTime w = 0"
    and info: "schedulerInfo w = MLFQ \<lparr>mlfq_queues = replicate MAX_MLFQ_LEVELS (Some []), mlfq_running = NULL,
      mlfq_last_time = 0, mlfq_wrappers = Map.empty\<rparr>"
    and tf: "traceFile w = map Some ls" and ok: "trace_ok ls"
  obtains w' where "do { w \<leftarrow> traceScheduleNextArrival w; simulatorRun invoke w } = Some w'" "run_end w'"
    "outFile w' = outFile w @ out_lines (mlfq_spec None levels ls)"
proof -
  have st: "state_ok None levels ls"
    using ok by (auto simp: state_ok_def levels_def waiting_def trace_ok_def)
  have lv: "levels = abs_levels (replicate MAX_MLFQ_LEVELS [])" "waiting levels = {#}"
    by (simp_all add: levels_def waiting_def)
  have time: "mlfq_time None levels ls"
    using ok by (simp add: mlfq_time_def lv(2) fits_def trace_ok_def)
  have info_ok: "mlfq_ok c \<lparr>mlfq_queues = replicate MAX_MLFQ_LEVELS (Some []), mlfq_running = NULL,
      mlfq_last_time = 0, mlfq_wrappers = Map.empty\<rparr> js None (replicate MAX_MLFQ_LEVELS []) X \<longleftrightarrow> store_as c js X" for c js X
    by (auto simp: mlfq_ok_def levels_rep_def list_all2_conv_all_nth level_rep_Nil waiting_def nth_replicate)
  show ?thesis
  proof (cases ls)
    case Nil
    have "mlfq_sim w None levels []"
      unfolding mlfq_sim_def lv(1) using w info tf Nil
      by (intro exI [of _ None] exI [of _ "replicate MAX_MLFQ_LEVELS []"] exI [of _ "[]"])
        (simp add: np_idle_def np_events_def mlfq_run_def info_ok mlfq_io_def com_lines_def)
    then have "ends_with w (out_lines (mlfq_spec None levels ls))"
      using run_mlfq_spec [OF st time, of w] Nil by simp
    then show ?thesis using that tf Nil by (auto simp: ends_with_def traceScheduleNextArrival_def)
  next
    case (Cons k ks)
    let ?c = "read_coming w k"
    let ?w = "read_line w k ks [arr_event ?c]"
    have next_arr: "traceScheduleNextArrival w = Some ?w"
      using w tf Cons
      by (cases k) (simp add: traceScheduleNextArrival_def malloc_def jobCreate_def mk_job_def
          simulatorSchedule_ok arr_event_def l_insert_def read_line_def read_coming_def)
    have "mlfq_run w None (replicate MAX_MLFQ_LEVELS []) {#}"
      using w(4) info by (simp add: mlfq_run_def info_ok)
    then have "mlfq_run ?w None (replicate MAX_MLFQ_LEVELS []) (com_jobs (Some ?c))" by (rule read_line_run)
    then have "mlfq_sim ?w None levels ls"
      unfolding mlfq_sim_def lv(1) using w Cons
      by (intro exI [of _ None] exI [of _ "replicate MAX_MLFQ_LEVELS []"] exI [of _ "Some ?c"] exI [of _ ks])
        (simp add: np_idle_def np_events_def mlfq_io_def com_lines_def read_line_def read_coming_def)
    then have "ends_with ?w (out_lines (mlfq_spec None levels ls))" using run_mlfq_spec st time by blast
    then show ?thesis using that next_arr by (auto simp: ends_with_def read_line_def)
  qed
qed

lemma create_queues_ok:
  "(\<forall>n. malloc_ok w n) \<Longrightarrow> create_queues n w = (replicate n (Some []), w\<lparr>malloc_ctr := malloc_ctr w + n\<rparr>)"
  by (induction n arbitrary: w) (simp_all add: malloc_def)

lemma schedulerCreate_mlfq:
  assumes "\<forall>n. malloc_ok (w :: world) n"
  shows "schedulerCreate ''MLFQ'' w = (True, w\<lparr>malloc_ctr := malloc_ctr w + 12, completionEvent := NULL,
    schedulerInfo := MLFQ \<lparr>mlfq_queues = replicate MAX_MLFQ_LEVELS (Some []), mlfq_running = NULL,
      mlfq_last_time = 0, mlfq_wrappers = Map.empty\<rparr>\<rparr>)"
  using assms
  by (simp add: schedulerCreate_def schedulerMLFQCreate_def malloc_def create_queues_ok Let_def)

text \<open>At the end nothing is left to free: the destroy function finds no wrapper.\<close>

lemma schedulerDestroy_mlfq:
  assumes "run_end w"
  shows "schedulerDestroy w = Some (w, Map.empty)"
proof -
  obtain info where info: "schedulerInfo w = MLFQ info" "mlfq_running info = NULL" "mlfq_wrappers info = Map.empty"
    "\<forall>q \<in> set (mlfq_queues info). q = Some []"
    using assms by (auto simp: run_end_def)
  have e: "concat (map (\<lambda>q. case q of None \<Rightarrow> [] | Some ns \<Rightarrow> map snd (butlast ns)) (mlfq_queues info)) = []"
    using info(4) by auto
  show ?thesis
    using assms info(1-3) by (simp add: schedulerDestroy_def schedulerMLFQDestroy_def run_end_def e)
qed

lemma mlfq_traceRun:
  assumes "trace_ok ls"
  shows "traceRun (\<lambda>_. True) True True (map Some ls) ''MLFQ'' = Some (True, out_lines (mlfq_spec None levels ls))"
proof -
  let ?w = "simulator_t.extend \<lparr>queue = [], simTime = 0, sim_id = 0, malloc_ctr = 3, malloc_ok = \<lambda>_. True\<rparr>
     \<lparr>completionEvent = NULL, schedulerInfo = FCFS \<lparr>fcfs_jobQueue = []\<rparr>, jobs = Map.empty,
      traceFile = map Some ls, currentJob = NULL, outFile = []\<rparr>"
  let ?i = "\<lparr>mlfq_queues = replicate MAX_MLFQ_LEVELS (Some []), mlfq_running = NULL, mlfq_last_time = 0, mlfq_wrappers = Map.empty\<rparr>"
  let ?w1 = "?w\<lparr>malloc_ctr := 15, completionEvent := NULL, schedulerInfo := MLFQ ?i\<rparr>"
  have create: "schedulerCreate ''MLFQ'' ?w = (True, ?w1)"
    by (subst schedulerCreate_mlfq) (simp_all add: simulator_t.defs)
  obtain w' where w': "do { w \<leftarrow> traceScheduleNextArrival ?w1; simulatorRun invoke w } = Some w'" "run_end w'"
    "outFile w' = outFile ?w1 @ out_lines (mlfq_spec None levels ls)"
    by (rule trace_mlfq_run [of ?w1 ls]) (use assms in \<open>simp_all add: simulator_t.defs\<close>)
  have "simulatorDestroy w' = Some w'"
    using w'(2) by (subst simulatorDestroy.simps) (simp add: run_end_def l_count_def)
  then show ?thesis
    using w'(1,3) schedulerDestroy_mlfq [OF w'(2)] create
    by (auto simp: traceRun_def simulatorCreate_def Let_def bind_eq_Some_conv numeral_eq_Suc simulator_t.defs)
qed

text \<open>
  The documented schedule (\<open>mlfq_documented\<close>) of a trace, with the levels 0 to \<open>low\<close>. It starts without jobs.
\<close>

abbreviation documented_run :: "nat \<Rightarrow> trace_line list \<Rightarrow> mlfq_event list" where
  "documented_run low ls \<equiv> mlfq_documented low 0 [] ls"

text \<open>
  C11. Under the multi-level feedback queue the run on a trace in order of arrival (whose times fit the clock) ends, without
  undefined behaviour, and writes the completions of the documented schedule: time slices of one unit, after each a
  level down, the highest level first, and on a level in the order in which the jobs entered it, which a job that an
  arrival preempts keeps. This is under two conditions. In the documented schedule no arrival preempts a job while another job
  waits on that job's level (no \<open>Overtaken\<close>): there the code puts the preempted job behind the other. And the schedule has the ten
  levels of the code, or any greater number of levels when no job is longer than ten units.
\<close>

theorem trace_mlfq:
  assumes "trace_ok ls" "Overtaken \<notin> set (documented_run low ls)"
    "low = MAX_MLFQ_LEVELS - 1 \<or> MAX_MLFQ_LEVELS \<le> low \<and> list_all (\<lambda>l. len l \<le> MAX_MLFQ_LEVELS) ls"
  shows "traceRun (\<lambda>_. True) True True (map Some ls) ''MLFQ'' = Some (True, out_lines (completions (documented_run low ls)))"
proof -
  have ok: "state_ok None levels ls" using assms(1) by (auto simp: state_ok_def levels_def waiting_def trace_ok_def)
  have m: "matches [] None levels" by (simp add: matches_def)
  have "levels_suffice low [] ls" using assms(3) by (auto simp: levels_suffice_def list_all_iff)
  then have "completions (documented_run low ls) = mlfq_spec None levels ls"
    by (intro documented_is_spec [OF ok m]) (use assms(2) in simp_all)
  then show ?thesis using mlfq_traceRun [OF assms(1)] by simp
qed

definition mlfq_example :: "trace_line list" where
  "mlfq_example = [(1, 0, 3), (2, 1, 2), (3, 1, 0), (4, 9, 1)]"

lemma mlfq_example_ok: "trace_ok mlfq_example"
  by (simp add: trace_ok_def mlfq_example_def arr_def len_def)

lemma mlfq_example_documented:
  "documented_run 20 mlfq_example = [Completion 3 2, Completion 2 4, Completion 1 5, Completion 4 10]"
  by code_simp

theorem trace_mlfq_witness:
  "traceRun (\<lambda>_. True) True True (map Some mlfq_example) ''MLFQ'' = Some (True, [(3, 2), (2, 4), (1, 5), (4, 10)])"
  using trace_mlfq [OF mlfq_example_ok, of 20] by (simp add: mlfq_example_documented) (simp add: mlfq_example_def len_def)

text \<open>
  On the repository's trace \<open>MLFQ_3.csv\<close> an arrival preempts a job while another waits on its level: the documented schedule is what
  \<open>MLFQ_3.csv.expected\<close> lists (in the order of completion), and what the code writes is not.
\<close>

lemma overtaken_MLFQ_3:
  "completions (documented_run 9 [(1, 0, 10), (2, 5, 5), (3, 7, 1), (4, 9, 5), (5, 10, 3), (6, 13, 8)]) = [(3, 8), (5, 17), (2, 22), (4, 23), (6, 30), (1, 32)]"
  "out_lines (mlfq_spec None levels [(1, 0, 10), (2, 5, 5), (3, 7, 1), (4, 9, 5), (5, 10, 3), (6, 13, 8)]) \<noteq> out_lines [(3, 8), (5, 17), (2, 22), (4, 23), (6, 30), (1, 32)]"
  by code_simp+

lemma mlfq_run_spec:
  assumes "trace_ok ls"
  shows "mset (map fst (mlfq_spec None levels ls)) = image_mset line_id (mset ls)"
    "(i, t) \<in> set (mlfq_spec None levels ls) \<Longrightarrow> \<exists>l \<in> set ls. line_id l = i \<and> arr l + len l \<le> t"
    "ls \<noteq> [] \<Longrightarrow> snd (last (mlfq_spec None levels ls)) = snd (last (fcfs_times 0 ls))"
proof -
  have ok: "state_ok None levels ls" using assms by (auto simp: state_ok_def levels_def waiting_def trace_ok_def)
  have w: "waiting levels = {#}" by (simp add: levels_def waiting_def)
  show "mset (map fst (mlfq_spec None levels ls)) = image_mset line_id (mset ls)"
    using mlfq_completes_once [OF ok] w by simp
  show "\<exists>l \<in> set ls. line_id l = i \<and> arr l + len l \<le> t" if "(i, t) \<in> set (mlfq_spec None levels ls)"
    using mlfq_not_early [OF ok _ that] w by (simp add: lines_of_def)
  show "snd (last (mlfq_spec None levels ls)) = snd (last (fcfs_times 0 ls))" if "ls \<noteq> []"
    using mlfq_makespan [OF ok] that by (simp add: fcfs_times_end)
qed

text \<open>
  C13. The schedule of such a run completes every job of the trace exactly once, none before
  its arrival and length allow, and the last one when FCFS would complete its last: the
  processor never idles while a job waits, whatever the preemptions and demotions.
\<close>

theorem mlfq_jobs_complete:
  assumes "trace_ok ls"
  shows "\<exists>out. traceRun (\<lambda>_. True) True True (map Some ls) ''MLFQ'' = Some (True, out_lines out) \<and>
    mset (map fst out) = image_mset line_id (mset ls) \<and>
    (\<forall>(i, t) \<in> set out. \<exists>l \<in> set ls. line_id l = i \<and> arr l + len l \<le> t) \<and>
    (ls \<noteq> [] \<longrightarrow> snd (last out) = snd (last (fcfs_times 0 ls)))"
  using mlfq_traceRun [OF assms] mlfq_run_spec [OF assms] by blast

theorem mlfq_jobs_complete_witness:
  "\<exists>out. traceRun (\<lambda>_. True) True True (map Some mlfq_example) ''MLFQ'' = Some (True, out_lines out) \<and>
    mset (map fst out) = {#1, 2, 3, 4#} \<and> snd (last out) = 10"
  using mlfq_jobs_complete [OF mlfq_example_ok]
  by (fastforce simp: mlfq_example_def line_id_def arr_def len_def)

end
