(* ===== verification/Fifo.thy ===== *)
theory Fifo
  imports Prelude "HOL-Library.Monad_Syntax"
begin

text \<open>
  The interface of a bounded first-in first-out store, which the ring buffer of the channels
  provides. The operations may be undefined (\<open>None\<close>); what they promise is stated over an
  abstraction \<open>contents\<close>. The client lemma, proved once here, is that any sequence of operations is
  defined and answers as a list of bounded length does.
\<close>

datatype 'a fifo_op = Add 'a | Remove

datatype 'a fifo_result = Accepted | Rejected | Handed 'a | Nothing

text \<open>A run of operations: what each of them answers, and the final store.\<close>

fun fifo_run :: "('s \<Rightarrow> 'a \<Rightarrow> (bool \<times> 's) option) \<Rightarrow> ('s \<Rightarrow> ('a option \<times> 's) option) \<Rightarrow> 's \<Rightarrow> 'a fifo_op list
    \<Rightarrow> ('a fifo_result list \<times> 's) option" where
  "fifo_run add rem s [] = Some ([], s)"
| "fifo_run add rem s (Add x # ops) = do {
     (ok, s) \<leftarrow> add s x;
     (rs, s) \<leftarrow> fifo_run add rem s ops;
     Some ((if ok then Accepted else Rejected) # rs, s)
   }"
| "fifo_run add rem s (Remove # ops) = do {
     (v, s) \<leftarrow> rem s;
     (rs, s) \<leftarrow> fifo_run add rem s ops;
     Some ((case v of None \<Rightarrow> Nothing | Some x \<Rightarrow> Handed x) # rs, s)
   }"

text \<open>The reference: a list that holds at most \<open>n\<close> values, added at the end and removed at the front.\<close>

fun queue_run :: "nat \<Rightarrow> 'a list \<Rightarrow> 'a fifo_op list \<Rightarrow> 'a fifo_result list \<times> 'a list" where
  "queue_run n q [] = ([], q)"
| "queue_run n q (Add x # ops) =
     (if length q < n then apfst (Cons Accepted) (queue_run n (q @ [x]) ops)
      else apfst (Cons Rejected) (queue_run n q ops))"
| "queue_run n [] (Remove # ops) = apfst (Cons Nothing) (queue_run n [] ops)"
| "queue_run n (x # q) (Remove # ops) = apfst (Cons (Handed x)) (queue_run n q ops)"

locale bounded_fifo =
  fixes inv :: "'s \<Rightarrow> bool"
    and contents :: "'s \<Rightarrow> 'a list"
    and capacity :: "'s \<Rightarrow> nat"
    and add :: "'s \<Rightarrow> 'a \<Rightarrow> (bool \<times> 's) option"
    and rem :: "'s \<Rightarrow> ('a option \<times> 's) option"
  assumes add_accepts: "inv s \<Longrightarrow> length (contents s) < capacity s \<Longrightarrow>
      \<exists>s'. add s x = Some (True, s') \<and> inv s' \<and> contents s' = contents s @ [x] \<and> capacity s' = capacity s"
    and add_rejects: "inv s \<Longrightarrow> \<not> length (contents s) < capacity s \<Longrightarrow> add s x = Some (False, s)"
    and rem_hands: "inv s \<Longrightarrow> contents s = x # xs \<Longrightarrow>
      \<exists>s'. rem s = Some (Some x, s') \<and> inv s' \<and> contents s' = xs \<and> capacity s' = capacity s"
    and rem_nothing: "inv s \<Longrightarrow> contents s = [] \<Longrightarrow> rem s = Some (None, s)"
begin

lemma run_refines:
  "inv s \<Longrightarrow> \<exists>t. fifo_run add rem s ops = Some (fst (queue_run (capacity s) (contents s) ops), t) \<and>
     inv t \<and> contents t = snd (queue_run (capacity s) (contents s) ops) \<and> capacity t = capacity s"
proof (induction ops arbitrary: s)
  case (Cons opn ops)
  show ?case
  proof (cases opn)
    case (Add x)
    show ?thesis
    proof (cases "length (contents s) < capacity s")
      case True
      then obtain s' where s': "add s x = Some (True, s')" "inv s'" "contents s' = contents s @ [x]" "capacity s' = capacity s"
        using add_accepts [OF Cons.prems] by blast
      then show ?thesis using Cons.IH [OF s'(2)] Add True by (auto simp: apfst_def map_prod_def split_beta)
    next
      case False
      then show ?thesis
        using add_rejects [OF Cons.prems] Cons.IH [OF Cons.prems] Add by (auto simp: apfst_def map_prod_def split_beta)
    qed
  next
    case Remove
    show ?thesis
    proof (cases "contents s")
      case Nil
      then show ?thesis
        using rem_nothing [OF Cons.prems] Cons.IH [OF Cons.prems] Remove by (auto simp: apfst_def map_prod_def split_beta)
    next
      case (Cons x xs)
      then obtain s' where s': "rem s = Some (Some x, s')" "inv s'" "contents s' = xs" "capacity s' = capacity s"
        using rem_hands [OF Cons.prems] by blast
      then show ?thesis using Cons.IH [OF s'(2)] Remove Cons by (auto simp: apfst_def map_prod_def split_beta)
    qed
  qed
qed simp

end

end
