(* ===== verification/Buffer.thy ===== *)
theory Buffer
  imports Fifo
begin

text \<open>
  The ring buffer of the channels: \<open>buffer.h\<close> and \<open>buffer.c\<close> of the concurrency
  project. A \<open>void*\<close> message is a value of type \<open>'a\<close>; a cell of the data array that was
  never written is \<open>None\<close>. The three \<open>size_t\<close> fields are 64-bit words, so the position
  arithmetic of \<open>buffer_add\<close> and the byte count of \<open>buffer_create\<close> wrap as in C; an
  access outside the allocated array makes the operation return \<open>None\<close>.
\<close>

subsection \<open>Data and operations\<close>

record 'a buffer =
  buf_size :: u64
  buf_next :: u64
  buf_capacity :: u64
  buf_data :: "'a option list"

datatype buffer_status = BUFFER_SUCCESS | BUFFER_ERROR

text \<open>
  \<open>buffer_create\<close> multiplies the capacity by \<open>sizeof(void*) = 8\<close> in \<open>size_t\<close>. The two
  flags say whether its two \<open>malloc\<close> calls succeed: the result of the first is
  dereferenced without a check, the second may leave \<open>data\<close> null, which is an array
  with no accessible cell.
\<close>

definition buffer_create :: "bool \<Rightarrow> bool \<Rightarrow> u64 \<Rightarrow> 'a buffer option" where
  "buffer_create ok1 ok2 cap =
     (if ok1
      then Some \<lparr>buf_size = 0, buf_next = 0, buf_capacity = cap,
                 buf_data = (if ok2 then replicate (unat (cap * 8) div 8) None else [])\<rparr>
      else None)"

definition buffer_add :: "'a buffer \<Rightarrow> 'a \<Rightarrow> (buffer_status \<times> 'a buffer) option" where
  "buffer_add b v =
     (if buf_size b \<ge> buf_capacity b then Some (BUFFER_ERROR, b)
      else
        let pos = buf_next b + buf_size b;
            pos = (if pos \<ge> buf_capacity b then pos - buf_capacity b else pos)
        in if unat pos < length (buf_data b)
           then Some (BUFFER_SUCCESS,
                      b\<lparr>buf_data := (buf_data b)[unat pos := Some v], buf_size := buf_size b + 1\<rparr>)
           else None)"

text \<open>
  \<open>buffer_remove\<close> stores the removed value through its out-parameter: the second
  component is what it writes there, \<open>None\<close> when it writes nothing. Reading a cell that
  was never written would be an indeterminate value and counts as undefined.
\<close>

definition buffer_remove :: "'a buffer \<Rightarrow> (buffer_status \<times> 'a option \<times> 'a buffer) option" where
  "buffer_remove b =
     (if buf_size b > 0
      then
        (if unat (buf_next b) < length (buf_data b)
         then
           (case buf_data b ! unat (buf_next b) of
              None \<Rightarrow> None
            | Some v \<Rightarrow>
                let nx = buf_next b + 1;
                    nx = (if nx \<ge> buf_capacity b then nx - buf_capacity b else nx)
                in Some (BUFFER_SUCCESS, Some v, b\<lparr>buf_size := buf_size b - 1, buf_next := nx\<rparr>))
         else None)
      else Some (BUFFER_ERROR, None, b))"

definition buffer_capacity :: "'a buffer \<Rightarrow> u64" where
  "buffer_capacity b = buf_capacity b"

definition buffer_current_size :: "'a buffer \<Rightarrow> u64" where
  "buffer_current_size b = buf_size b"

text \<open>\<open>peek_buffer\<close> is unchecked: outside the array, or on an unwritten cell, undefined.\<close>

definition peek_buffer :: "'a buffer \<Rightarrow> u64 \<Rightarrow> 'a option" where
  "peek_buffer b i = (if unat i < length (buf_data b) then buf_data b ! unat i else None)"

text \<open>\<open>buffer_free\<close> reads the field \<open>data\<close> before it frees the record, so it needs a buffer.\<close>

definition buffer_free :: "'a buffer option \<Rightarrow> 'a buffer option option" where
  "buffer_free b = (case b of None \<Rightarrow> None | Some _ \<Rightarrow> Some None)"

lemmas buffer_defs = buffer_create_def buffer_add_def buffer_remove_def

subsection \<open>Invariant and abstraction\<close>

definition slot :: "'a buffer \<Rightarrow> nat \<Rightarrow> nat" where
  "slot b i = (unat (buf_next b) + i) mod unat (buf_capacity b)"

definition buffer_inv :: "'a buffer \<Rightarrow> bool" where
  "buffer_inv b \<longleftrightarrow>
     unat (buf_capacity b) < 2 ^ 61 \<and> length (buf_data b) = unat (buf_capacity b) \<and>
     unat (buf_size b) \<le> unat (buf_capacity b) \<and>
     (unat (buf_next b) < unat (buf_capacity b) \<or> unat (buf_capacity b) = 0) \<and>
     (\<forall>i < unat (buf_size b). buf_data b ! slot b i \<noteq> None)"

definition contents :: "'a buffer \<Rightarrow> 'a list" where
  "contents b = map (\<lambda>i. the (buf_data b ! slot b i)) [0..<unat (buf_size b)]"

lemma length_contents [simp]: "length (contents b) = unat (buf_size b)"
  by (simp add: contents_def)

lemma buffer_create_ok:
  assumes "unat cap < 2 ^ 61"
  shows "\<exists>b. buffer_create True True cap = Some b \<and> buffer_inv b \<and> contents b = [] \<and>
             buf_capacity b = cap"
proof -
  have "unat (cap * 8) = unat cap * 8"
    using assms unat_mult_lem [of cap 8] by simp
  then show ?thesis
    using assms by (auto simp: buffer_create_def buffer_inv_def contents_def)
qed

lemma add_position:
  assumes "buffer_inv b" "buf_size b < buf_capacity b"
  shows "unat (if buf_next b + buf_size b \<ge> buf_capacity b
               then buf_next b + buf_size b - buf_capacity b else buf_next b + buf_size b)
         = slot b (unat (buf_size b))"
proof -
  let ?n = "unat (buf_next b)" and ?s = "unat (buf_size b)" and ?c = "unat (buf_capacity b)"
  have lt: "?s < ?c" "?n < ?c" and c: "?c < 2 ^ 61"
    using assms by (auto simp: buffer_inv_def word_less_nat_alt)
  have sum: "unat (buf_next b + buf_size b) = ?n + ?s"
    using lt c by (intro unat_add_small) simp
  show ?thesis
  proof (cases "?n + ?s \<ge> ?c")
    case True
    then have "(?n + ?s) mod ?c = ?n + ?s - ?c"
      using lt by (simp add: mod_if)
    then show ?thesis
      using True by (simp add: slot_def word_le_nat_alt sum unat_sub_small)
  next
    case False
    then show ?thesis by (simp add: slot_def word_le_nat_alt sum)
  qed
qed

lemma remove_position:
  assumes "buffer_inv b" "0 < buf_size b"
  shows "unat (if buf_next b + 1 \<ge> buf_capacity b then buf_next b + 1 - buf_capacity b
               else buf_next b + 1) = (unat (buf_next b) + 1) mod unat (buf_capacity b)"
proof -
  let ?n = "unat (buf_next b)" and ?c = "unat (buf_capacity b)"
  have lt: "?n < ?c"
    using assms by (auto simp: buffer_inv_def word_less_nat_alt)
  have sum: "unat (buf_next b + 1) = ?n + 1"
    using lt by (rule unat_succ_small)
  show ?thesis
  proof (cases "?n + 1 \<ge> ?c")
    case True
    then have "?n + 1 = ?c" using lt by simp
    then show ?thesis by (simp add: word_le_nat_alt sum unat_sub_small)
  next
    case False
    then show ?thesis by (simp add: word_le_nat_alt sum)
  qed
qed

lemma slot_less: "buffer_inv b \<Longrightarrow> 0 < unat (buf_capacity b) \<Longrightarrow> slot b i < length (buf_data b)"
  by (simp add: slot_def buffer_inv_def)

lemma slot_inject:
  "i < unat (buf_capacity b) \<Longrightarrow> j < unat (buf_capacity b) \<Longrightarrow> slot b i = slot b j \<longleftrightarrow> i = j"
  by (simp add: slot_def mod_add_window)

text \<open>What \<open>buffer_add\<close> does, on both of its branches.\<close>

lemma buffer_add_full:
  "buf_size b \<ge> buf_capacity b \<Longrightarrow> buffer_add b v = Some (BUFFER_ERROR, b)"
  by (simp add: buffer_add_def)

lemma buffer_add_room:
  assumes inv: "buffer_inv b" and room: "buf_size b < buf_capacity b"
  shows "\<exists>b'. buffer_add b v = Some (BUFFER_SUCCESS, b') \<and> buffer_inv b' \<and>
              contents b' = contents b @ [v] \<and> buf_capacity b' = buf_capacity b"
proof -
  let ?s = "unat (buf_size b)" and ?c = "unat (buf_capacity b)"
  let ?p = "slot b ?s"
  let ?b' = "b\<lparr>buf_data := (buf_data b)[?p := Some v], buf_size := buf_size b + 1\<rparr>"
  have lt: "?s < ?c" using room by (simp add: word_less_nat_alt)
  have sz: "unat (buf_size b + 1) = Suc ?s" using unat_succ_small [OF lt] by simp
  have p: "?p < length (buf_data b)" using slot_less inv lt by fastforce
  have add: "buffer_add b v = Some (BUFFER_SUCCESS, ?b')"
    using room p by (simp add: buffer_add_def Let_def add_position [OF inv room] not_le)
  have slot': "slot ?b' i = slot b i" for i by (simp add: slot_def)
  have cell: "buf_data ?b' ! slot b i = (if i = ?s then Some v else buf_data b ! slot b i)"
    if "i < Suc ?s" for i
    using that lt p slot_inject [of i b ?s] by (auto simp: nth_list_update)
  have inv': "buffer_inv ?b'"
    using inv lt sz slot' cell by (auto simp: buffer_inv_def less_Suc_eq)
  have "contents ?b' = map (\<lambda>i. the (buf_data ?b' ! slot b i)) [0..<Suc ?s]"
    by (simp add: contents_def slot' sz del: upt_Suc)
  also have "\<dots> = map (\<lambda>i. the (buf_data b ! slot b i)) [0..<?s] @ [v]"
    using cell by simp
  finally show ?thesis using add inv' by (simp add: contents_def)
qed

text \<open>What \<open>buffer_remove\<close> does, on both of its branches.\<close>

lemma buffer_remove_empty:
  "buf_size b = 0 \<Longrightarrow> buffer_remove b = Some (BUFFER_ERROR, None, b)"
  by (simp add: buffer_remove_def)

lemma buffer_remove_some:
  assumes inv: "buffer_inv b" and pos: "0 < buf_size b"
  shows "\<exists>v b'. buffer_remove b = Some (BUFFER_SUCCESS, Some v, b') \<and> buffer_inv b' \<and>
                contents b = v # contents b' \<and> buf_capacity b' = buf_capacity b"
proof -
  let ?s = "unat (buf_size b)" and ?c = "unat (buf_capacity b)" and ?n = "unat (buf_next b)"
  let ?nx = "if buf_next b + 1 \<ge> buf_capacity b then buf_next b + 1 - buf_capacity b
             else buf_next b + 1"
  let ?b' = "b\<lparr>buf_size := buf_size b - 1, buf_next := ?nx\<rparr>"
  have s: "0 < ?s" using pos by (simp add: word_less_nat_alt)
  have lt: "?n < ?c" "?s \<le> ?c" and len: "length (buf_data b) = ?c"
    using inv s by (auto simp: buffer_inv_def)
  have s0: "slot b 0 = ?n" using lt by (simp add: slot_def)
  obtain v where v: "buf_data b ! ?n = Some v"
    using inv s s0 by (force simp: buffer_inv_def)
  have rem: "buffer_remove b = Some (BUFFER_SUCCESS, Some v, ?b')"
    using pos v lt len by (simp add: buffer_remove_def Let_def)
  have sz: "unat (buf_size b - 1) = ?s - 1" using unat_pred_small [OF s] .
  have slot': "slot ?b' i = slot b (Suc i)" for i
    by (simp add: slot_def remove_position [OF inv pos] mod_simps)
  have nx: "unat ?nx < ?c"
    using remove_position [OF inv pos] lt by simp
  have inv': "buffer_inv ?b'"
    using inv nx sz s slot' by (auto simp: buffer_inv_def)
  have "contents b = the (buf_data b ! slot b 0) # map (\<lambda>i. the (buf_data b ! slot b (Suc i))) [0..<?s - 1]"
    unfolding contents_def using s by (rule map_upt_Cons)
  then have "contents b = v # contents ?b'"
    using v s0 by (simp add: contents_def slot' sz)
  then show ?thesis using rem inv' by auto
qed

subsection \<open>The ring buffer is a bounded first-in first-out store\<close>

definition buffer_enq :: "'a buffer \<Rightarrow> 'a \<Rightarrow> (bool \<times> 'a buffer) option" where
  "buffer_enq b v = do {
     (st, b) \<leftarrow> buffer_add b v;
     Some (st = BUFFER_SUCCESS, b)
   }"

text \<open>A success that writes nothing through the out-parameter would leave the caller without a value.\<close>

definition buffer_deq :: "'a buffer \<Rightarrow> ('a option \<times> 'a buffer) option" where
  "buffer_deq b = do {
     (st, v, b) \<leftarrow> buffer_remove b;
     (if st = BUFFER_SUCCESS then do { x \<leftarrow> v; Some (Some x, b) } else Some (None, b))
   }"

definition buffer_room :: "'a buffer \<Rightarrow> nat" where
  "buffer_room b = unat (buf_capacity b) - unat (buf_size b)"

interpretation ring: bounded_fifo buffer_inv contents "\<lambda>b. unat (buf_capacity b)" buffer_enq buffer_deq
proof
  fix b :: "'a buffer" and v xs
  assume inv: "buffer_inv b"
  show "\<exists>b'. buffer_enq b v = Some (True, b') \<and> buffer_inv b' \<and> contents b' = contents b @ [v] \<and>
      unat (buf_capacity b') = unat (buf_capacity b)" if "length (contents b) < unat (buf_capacity b)"
    using buffer_add_room [OF inv, of v] that by (auto simp: buffer_enq_def word_less_nat_alt)
  show "buffer_enq b v = Some (False, b)" if "\<not> length (contents b) < unat (buf_capacity b)"
    using buffer_add_full [of b v] that by (simp add: buffer_enq_def word_le_nat_alt)
  show "\<exists>b'. buffer_deq b = Some (Some v, b') \<and> buffer_inv b' \<and> contents b' = xs \<and>
      unat (buf_capacity b') = unat (buf_capacity b)" if c: "contents b = v # xs"
  proof -
    have "0 < buf_size b" using arg_cong [OF c, of length] by (simp add: word_less_nat_alt)
    then show ?thesis using buffer_remove_some [OF inv] c by (auto simp: buffer_deq_def)
  qed
  show "buffer_deq b = Some (None, b)" if c: "contents b = []"
  proof -
    have "buf_size b = 0" using arg_cong [OF c, of length] by (simp add: unat_eq_0)
    then show ?thesis by (simp add: buffer_deq_def buffer_remove_empty)
  qed
qed

subsection \<open>Properties\<close>

text \<open>
  C32. Starting from a fresh buffer, every sequence of \<open>buffer_add\<close> and \<open>buffer_remove\<close> is defined (no
  access outside the array, no read of a cell that was never written) and answers exactly as a list of
  at most \<open>capacity\<close> values does: an add is refused only when the list is full, a remove only when it is
  empty, and otherwise it hands out the oldest value. The invariant holds at the end, and the ring then
  holds that list.
\<close>

theorem buffer_fifo_order:
  assumes "unat cap < 2 ^ 61" and "buffer_create True True cap = Some b"
  shows "\<exists>rs t. fifo_run buffer_enq buffer_deq b ops = Some (rs, t) \<and>
    queue_run (unat cap) [] ops = (rs, contents t) \<and> buffer_inv t \<and> buf_capacity t = cap"
proof -
  have b: "buffer_inv b" "contents b = []" "buf_capacity b = cap"
    using buffer_create_ok [OF assms(1), where 'a = 'a] assms(2) by auto
  obtain t where t: "fifo_run buffer_enq buffer_deq b ops = Some (fst (queue_run (unat cap) [] ops), t)" "buffer_inv t"
    "contents t = snd (queue_run (unat cap) [] ops)" "unat (buf_capacity t) = unat cap"
    using ring.run_refines [OF b(1), of ops] b(2,3) by auto
  have "queue_run (unat cap) [] ops = (fst (queue_run (unat cap) [] ops), contents t)" using t(3) by simp
  moreover have "buf_capacity t = cap" using t(4) by (simp add: word_unat_eq_iff)
  ultimately show ?thesis using t(1,2) by blast
qed

definition example_buffer :: "nat buffer" where
  "example_buffer = \<lparr>buf_size = 0, buf_next = 0, buf_capacity = 2, buf_data = [None, None]\<rparr>"

definition example_buffer_end :: "nat buffer" where
  "example_buffer_end =
     \<lparr>buf_size = 2, buf_next = 1, buf_capacity = 2, buf_data = [Some 40, Some 20]\<rparr>"

theorem buffer_fifo_order_witness:
  "\<exists>t. fifo_run buffer_enq buffer_deq example_buffer [Add 10, Add 20, Add 30, Remove, Add 40]
     = Some ([Accepted, Accepted, Rejected, Handed 10, Accepted], t) \<and> contents t = [20, 40]"
proof -
  have create: "buffer_create True True 2 = Some example_buffer"
    by (simp add: buffer_create_def example_buffer_def) (simp add: numeral_2_eq_2)
  have "queue_run 2 [] [Add 10, Add 20, Add (30 :: nat), Remove, Add 40] =
      ([Accepted, Accepted, Rejected, Handed 10, Accepted], [20, 40])" by simp
  then show ?thesis
    using buffer_fifo_order [OF _ create, of "[Add 10, Add 20, Add 30, Remove, Add 40]"] by auto
qed

text \<open>
  Every operation on a buffer that satisfies the invariant stays inside the array
  and takes exactly one of its documented results: \<open>buffer_add\<close> refuses precisely when
  the buffer is full and otherwise appends, \<open>buffer_remove\<close> refuses precisely when it is
  empty and otherwise returns the oldest value; a refused operation changes nothing.
\<close>

lemma buffer_operations_total:
  assumes "buffer_inv b"
  shows "(if length (contents b) = unat (buf_capacity b)
          then buffer_add b v = Some (BUFFER_ERROR, b)
          else \<exists>b'. buffer_add b v = Some (BUFFER_SUCCESS, b') \<and> buffer_inv b' \<and>
                    contents b' = contents b @ [v])
       \<and> (case contents b of
            [] \<Rightarrow> buffer_remove b = Some (BUFFER_ERROR, None, b)
          | x # xs \<Rightarrow> \<exists>b'. buffer_remove b = Some (BUFFER_SUCCESS, Some x, b') \<and> buffer_inv b' \<and>
                           contents b' = xs)"
proof -
  have le: "unat (buf_size b) \<le> unat (buf_capacity b)"
    using assms by (simp add: buffer_inv_def)
  have add: "if length (contents b) = unat (buf_capacity b)
          then buffer_add b v = Some (BUFFER_ERROR, b)
          else \<exists>b'. buffer_add b v = Some (BUFFER_SUCCESS, b') \<and> buffer_inv b' \<and>
                    contents b' = contents b @ [v]"
    using le buffer_add_full [of b v] buffer_add_room [OF assms, of v]
    by (auto simp: word_le_nat_alt word_less_nat_alt)
  show ?thesis
  proof (cases "0 < buf_size b")
    case True
    then show ?thesis using add buffer_remove_some [OF assms] by force
  next
    case False
    then have "buf_size b = 0" by (simp add: word_less_nat_alt unat_eq_0)
    then show ?thesis
      using add buffer_remove_empty [of b] by (simp add: contents_def)
  qed
qed

lemma buffer_operations_total_example:
  "buffer_inv example_buffer_end \<and>
   buffer_add example_buffer_end 50 = Some (BUFFER_ERROR, example_buffer_end) \<and>
   (\<exists>b'. buffer_remove example_buffer_end = Some (BUFFER_SUCCESS, Some 20, b'))"
proof -
  have inv: "buffer_inv example_buffer_end"
    by (auto simp: buffer_inv_def example_buffer_end_def slot_def less_2_cases_iff)
  have "contents example_buffer_end = [20, 40]"
    by (simp add: contents_def example_buffer_end_def slot_def upt_rec)
  then show ?thesis
    using inv buffer_operations_total [OF inv, of 50] by (auto simp: example_buffer_end_def)
qed

text \<open>
  The byte count \<open>capacity * sizeof(void*)\<close> of \<open>buffer_create\<close> is not checked for
  overflow: for a capacity of \<open>2^61\<close> it wraps to zero, the buffer is created with an empty
  array, and the very first \<open>buffer_add\<close> writes outside of it.
\<close>

lemma buffer_create_overflow:
  "\<exists>b. buffer_create True True (2 ^ 61) = Some b \<and> buf_size b < buf_capacity b \<and>
       buffer_add b v = None"
  by (simp add: buffer_create_def buffer_add_def Let_def)

end
