(* ===== verification/Channel.thy ===== *)
theory Channel
  imports Buffer
begin

text \<open>
  The message channels of the concurrency project (\<open>channel.h\<close>, \<open>channel.c\<close>), one
  definition per function and, inside a function, one per critical section.

  A thread inside a channel operation alternates between critical sections, which hold
  \<open>chan_mutex\<close> from the lock (or the return of \<open>pthread_cond_wait\<close>) to the unlock (or the next
  \<open>pthread_cond_wait\<close>), and single actions outside it. A critical section is a function on
  \<open>env\<close>: the channel, the memory cells of the \<open>void*\<close> messages, the semaphores, and the
  condition variables signalled so far. Its result says how the thread goes on: it
  returns a status, waits on a condition variable to resume at a program point, or, the
  mutex released, still has notifications to make before it returns. \<open>None\<close> is undefined
  behaviour. A message (\<open>void*\<close>) is a 64-bit word; a data pointer is the address of a cell.
  The selector lists are the abstract lists of \<open>Conc_List\<close> (insertion at the tail, removal
  of the first occurrence), \<open>None\<close> when \<open>list_create\<close> failed.
\<close>

subsection \<open>Data\<close>

type_synonym msg = u64

datatype channel_status = CHANNEL_EMPTY | SUCCESS | GENERIC_ERROR | CLOSED_ERROR | DESTROY_ERROR

text \<open>Both are 0 in the enumeration.\<close>

abbreviation CHANNEL_FULL :: channel_status where
  "CHANNEL_FULL \<equiv> CHANNEL_EMPTY"

abbreviation unbuf_op_send :: int where
  "unbuf_op_send \<equiv> 0"

abbreviation unbuf_op_receive :: int where
  "unbuf_op_receive \<equiv> 1"

abbreviation unbuf_op_none :: int where
  "unbuf_op_none \<equiv> - 1"

record channel_t =
  ch_buffer :: "msg buffer option"
  closed_flag :: bool
  send_selectors :: "nat list option"
  recv_selectors :: "nat list option"
  is_unbuffered :: bool
  active_unbuf_op :: int
  unbuf_stage :: int
  unbuf_data :: ptr
  waiting_senders :: int
  waiting_receivers :: int

datatype direction = SEND | RECV

record select_t =
  sel_channel :: nat
  sel_dir :: direction
  sel_data :: nat

text \<open>The condition variables, what is done to them, and the actions after the unlock.\<close>

datatype cond = COND_NOT_FULL | COND_NOT_EMPTY | RENDEZVOUS_WAIT | RENDEZVOUS_COMPLETE

datatype wake = Signal cond | Broadcast cond

datatype post = NotifySenders | NotifyReceivers | Wake wake

record env =
  e_chan :: channel_t
  e_mem :: "nat \<Rightarrow> msg"
  e_sems :: "nat \<Rightarrow> nat"
  e_wakes :: "wake list"

text \<open>
  Where a thread that waits resumes: after the rendezvous, at the label \<open>stage0\<close>, in the
  loop of a blocking operation, in the loop of a non-blocking one.
\<close>

datatype resume = SyncDone | SyncRetry | BufRetry | NonBlockRetry

datatype outcome = Return channel_status | Wait cond resume | Post "post list" channel_status

type_synonym section_result = "(env \<times> outcome) option"

subsection \<open>Creation\<close>

text \<open>
  The flags say which allocations succeed: of the channel, of the two lists and of the two blocks of the
  buffer. The result is \<open>Some None\<close> when \<open>NULL\<close> is returned; when the record of the buffer cannot be
  allocated, \<open>buffer_create\<close> is undefined, and so is the creation of the channel.
\<close>

definition channel_create :: "bool \<Rightarrow> bool \<Rightarrow> bool \<Rightarrow> bool \<Rightarrow> bool \<Rightarrow> u64 \<Rightarrow> channel_t option option" where
  "channel_create ok ok_send ok_recv ok_buf ok_data sz =
     (if \<not> ok then Some None
      else do {
        buf \<leftarrow> (if sz \<noteq> 0 then do { b \<leftarrow> buffer_create ok_buf ok_data sz; Some (Some b) } else Some None);
        Some (Some \<lparr>ch_buffer = buf, closed_flag = False,
                 send_selectors = (if ok_send then Some [] else None),
                 recv_selectors = (if ok_recv then Some [] else None),
                 is_unbuffered = (sz = 0), active_unbuf_op = unbuf_op_none, unbuf_stage = 0,
                 unbuf_data = NULL, waiting_senders = 0, waiting_receivers = 0\<rparr>)
      })"

subsection \<open>Selector lists\<close>

definition sem_post :: "nat \<Rightarrow> (nat \<Rightarrow> nat) \<Rightarrow> nat \<Rightarrow> nat" where
  "sem_post s sems = sems(s := sems s + 1)"

definition selectors :: "nat list option \<Rightarrow> nat list" where
  "selectors l = (case l of None \<Rightarrow> [] | Some xs \<Rightarrow> xs)"

definition notify_select_senders :: "channel_t \<Rightarrow> (nat \<Rightarrow> nat) \<Rightarrow> nat \<Rightarrow> nat" where
  "notify_select_senders ch sems = fold sem_post (selectors (send_selectors ch)) sems"

definition notify_select_receivers :: "channel_t \<Rightarrow> (nat \<Rightarrow> nat) \<Rightarrow> nat \<Rightarrow> nat" where
  "notify_select_receivers ch sems = fold sem_post (selectors (recv_selectors ch)) sems"

text \<open>The flag says whether the node of \<open>list_insert\<close> can be allocated.\<close>

definition add_select_sender :: "bool \<Rightarrow> channel_t \<Rightarrow> nat \<Rightarrow> channel_t" where
  "add_select_sender ok ch sem =
     (if ok then ch\<lparr>send_selectors := map_option (\<lambda>l. l @ [sem]) (send_selectors ch)\<rparr> else ch)"

definition remove_select_sender :: "channel_t \<Rightarrow> nat \<Rightarrow> channel_t" where
  "remove_select_sender ch sem = ch\<lparr>send_selectors := map_option (remove1 sem) (send_selectors ch)\<rparr>"

definition add_select_receiver :: "bool \<Rightarrow> channel_t \<Rightarrow> nat \<Rightarrow> channel_t" where
  "add_select_receiver ok ch sem =
     (if ok then ch\<lparr>recv_selectors := map_option (\<lambda>l. l @ [sem]) (recv_selectors ch)\<rparr> else ch)"

definition remove_select_receiver :: "channel_t \<Rightarrow> nat \<Rightarrow> channel_t" where
  "remove_select_receiver ch sem = ch\<lparr>recv_selectors := map_option (remove1 sem) (recv_selectors ch)\<rparr>"

subsection \<open>The rendezvous of unbuffered channels\<close>

definition add_waiting :: "int \<Rightarrow> int \<Rightarrow> channel_t \<Rightarrow> channel_t" where
  "add_waiting op n ch =
     (if op = unbuf_op_send then ch\<lparr>waiting_senders := waiting_senders ch + n\<rparr>
      else ch\<lparr>waiting_receivers := waiting_receivers ch + n\<rparr>)"

text \<open>From the label \<open>stage0\<close> on; \<open>a\<close> is \<open>data_ptr\<close>.\<close>

definition unbuffered_sync :: "int \<Rightarrow> nat \<Rightarrow> env \<Rightarrow> section_result" where
  "unbuffered_sync op a e =
     (let ch = e_chan e in
      if unbuf_stage ch = 0 then
        let ch = ch\<lparr>unbuf_stage := 1, active_unbuf_op := op, unbuf_data := Some a\<rparr>;
            e = (if op = unbuf_op_send
                 then e\<lparr>e_chan := ch, e_sems := notify_select_receivers ch (e_sems e),
                        e_wakes := e_wakes e @ [Broadcast COND_NOT_EMPTY]\<rparr>
                 else e\<lparr>e_chan := ch, e_sems := notify_select_senders ch (e_sems e),
                        e_wakes := e_wakes e @ [Broadcast COND_NOT_FULL]\<rparr>)
        in Some (e, Wait RENDEZVOUS_COMPLETE SyncDone)
      else if unbuf_stage ch = 1 then
        if active_unbuf_op ch = op
        then Some (e\<lparr>e_chan := add_waiting op 1 ch\<rparr>, Wait RENDEZVOUS_WAIT SyncRetry)
        else (case unbuf_data ch of
                None \<Rightarrow> None
              | Some d \<Rightarrow>
                  let mem = (if op = unbuf_op_receive then (e_mem e)(a := e_mem e d)
                             else (e_mem e)(d := e_mem e a))
                  in Some (e\<lparr>e_chan := ch\<lparr>unbuf_stage := 2\<rparr>, e_mem := mem,
                             e_wakes := e_wakes e @ [Signal RENDEZVOUS_COMPLETE]\<rparr>, Return SUCCESS))
      else Some (e\<lparr>e_chan := add_waiting op 1 ch\<rparr>, Wait RENDEZVOUS_WAIT SyncRetry))"

text \<open>The code after the two kinds of waits.\<close>

definition unbuffered_sync_resume :: "int \<Rightarrow> nat \<Rightarrow> resume \<Rightarrow> env \<Rightarrow> section_result" where
  "unbuffered_sync_resume op a r e =
     (if r = SyncDone
      then Some (e\<lparr>e_chan := (e_chan e)\<lparr>unbuf_stage := 0\<rparr>, e_wakes := e_wakes e @ [Broadcast RENDEZVOUS_WAIT]\<rparr>,
                 Return SUCCESS)
      else unbuffered_sync op a (e\<lparr>e_chan := add_waiting op (- 1) (e_chan e)\<rparr>))"

subsection \<open>Blocking send and receive\<close>

definition channel_send_loop :: "nat \<Rightarrow> env \<Rightarrow> section_result" where
  "channel_send_loop a e = do {
     b \<leftarrow> ch_buffer (e_chan e);
     (st, b) \<leftarrow> buffer_add b (e_mem e a);
     (if st = BUFFER_ERROR
      then (if closed_flag (e_chan e) then Some (e, Return CLOSED_ERROR)
            else Some (e, Wait COND_NOT_FULL BufRetry))
      else Some (e\<lparr>e_chan := (e_chan e)\<lparr>ch_buffer := Some b\<rparr>\<rparr>,
                 Post [NotifyReceivers, Wake (Signal COND_NOT_EMPTY)] SUCCESS))
   }"

text \<open>The flag \<open>lock\<close> says whether \<open>pthread_mutex_lock\<close> succeeds.\<close>

definition channel_send :: "bool \<Rightarrow> nat \<Rightarrow> env \<Rightarrow> section_result" where
  "channel_send lock a e =
     (if \<not> lock then Some (e, Return GENERIC_ERROR)
      else if closed_flag (e_chan e) then Some (e, Return CLOSED_ERROR)
      else if is_unbuffered (e_chan e) then unbuffered_sync unbuf_op_send a e
      else channel_send_loop a e)"

definition store_data :: "nat \<Rightarrow> msg option \<Rightarrow> (nat \<Rightarrow> msg) \<Rightarrow> nat \<Rightarrow> msg" where
  "store_data a v mem = (case v of None \<Rightarrow> mem | Some m \<Rightarrow> mem(a := m))"

definition channel_receive_loop :: "nat \<Rightarrow> env \<Rightarrow> section_result" where
  "channel_receive_loop a e = do {
     b \<leftarrow> ch_buffer (e_chan e);
     (st, v, b) \<leftarrow> buffer_remove b;
     (if st = BUFFER_ERROR
      then (if closed_flag (e_chan e) then Some (e, Return CLOSED_ERROR)
            else Some (e, Wait COND_NOT_EMPTY BufRetry))
      else Some (e\<lparr>e_chan := (e_chan e)\<lparr>ch_buffer := Some b\<rparr>, e_mem := store_data a v (e_mem e)\<rparr>,
                 Post [NotifySenders, Wake (Signal COND_NOT_FULL)] SUCCESS))
   }"

definition channel_receive :: "bool \<Rightarrow> nat \<Rightarrow> env \<Rightarrow> section_result" where
  "channel_receive lock a e =
     (if \<not> lock then Some (e, Return GENERIC_ERROR)
      else if closed_flag (e_chan e) then Some (e, Return CLOSED_ERROR)
      else if is_unbuffered (e_chan e) then unbuffered_sync unbuf_op_receive a e
      else channel_receive_loop a e)"

subsection \<open>Non-blocking send and receive\<close>

definition no_selectors :: "nat list option \<Rightarrow> bool" where
  "no_selectors l \<longleftrightarrow> selectors l = []"

definition non_blocking_send_unbuf :: "nat \<Rightarrow> env \<Rightarrow> section_result" where
  "non_blocking_send_unbuf a e =
     (let ch = e_chan e in
      if waiting_receivers ch > 0 \<and> unbuf_stage ch = 0 \<and> no_selectors (recv_selectors ch)
      then Some (e, Wait COND_NOT_EMPTY NonBlockRetry)
      else if unbuf_stage ch = 1 \<and> active_unbuf_op ch = unbuf_op_receive \<or> \<not> no_selectors (recv_selectors ch)
      then unbuffered_sync unbuf_op_send a e
      else Some (e, Return CHANNEL_FULL))"

definition channel_non_blocking_send :: "bool \<Rightarrow> nat \<Rightarrow> env \<Rightarrow> section_result" where
  "channel_non_blocking_send lock a e =
     (if \<not> lock then Some (e, Return GENERIC_ERROR)
      else if closed_flag (e_chan e) then Some (e, Return CLOSED_ERROR)
      else if is_unbuffered (e_chan e) then non_blocking_send_unbuf a e
      else do {
        b \<leftarrow> ch_buffer (e_chan e);
        (st, b) \<leftarrow> buffer_add b (e_mem e a);
        (if st = BUFFER_ERROR then Some (e, Return CHANNEL_FULL)
         else Some (e\<lparr>e_chan := (e_chan e)\<lparr>ch_buffer := Some b\<rparr>\<rparr>,
                    Post [NotifyReceivers, Wake (Signal COND_NOT_EMPTY)] SUCCESS))
      })"

definition non_blocking_receive_unbuf :: "nat \<Rightarrow> env \<Rightarrow> section_result" where
  "non_blocking_receive_unbuf a e =
     (let ch = e_chan e in
      if waiting_senders ch > 0 \<and> unbuf_stage ch = 0 \<and> no_selectors (send_selectors ch)
      then Some (e, Wait COND_NOT_FULL NonBlockRetry)
      else if unbuf_stage ch = 1 \<and> active_unbuf_op ch = unbuf_op_send \<or> \<not> no_selectors (send_selectors ch)
      then unbuffered_sync unbuf_op_receive a e
      else Some (e, Return CHANNEL_EMPTY))"

definition channel_non_blocking_receive :: "bool \<Rightarrow> nat \<Rightarrow> env \<Rightarrow> section_result" where
  "channel_non_blocking_receive lock a e =
     (if \<not> lock then Some (e, Return GENERIC_ERROR)
      else if closed_flag (e_chan e) then Some (e, Return CLOSED_ERROR)
      else if is_unbuffered (e_chan e) then non_blocking_receive_unbuf a e
      else do {
        b \<leftarrow> ch_buffer (e_chan e);
        (st, v, b) \<leftarrow> buffer_remove b;
        (if st = BUFFER_ERROR then Some (e, Return CHANNEL_EMPTY)
         else Some (e\<lparr>e_chan := (e_chan e)\<lparr>ch_buffer := Some b\<rparr>, e_mem := store_data a v (e_mem e)\<rparr>,
                    Post [NotifySenders, Wake (Signal COND_NOT_FULL)] SUCCESS))
      })"

subsection \<open>Close and destroy\<close>

definition channel_close :: "bool \<Rightarrow> env \<Rightarrow> section_result" where
  "channel_close lock e =
     (if \<not> lock then Some (e, Return GENERIC_ERROR)
      else if closed_flag (e_chan e) then Some (e, Return CLOSED_ERROR)
      else Some (e\<lparr>e_chan := (e_chan e)\<lparr>closed_flag := True\<rparr>\<rparr>,
                 Post [NotifyReceivers, NotifySenders, Wake (Broadcast COND_NOT_EMPTY),
                       Wake (Broadcast COND_NOT_FULL), Wake (Broadcast RENDEZVOUS_WAIT),
                       Wake (Broadcast RENDEZVOUS_COMPLETE)] SUCCESS))"

text \<open>
  \<open>channel_destroy\<close> takes no lock; the second component is the channel afterwards, freed on
  success. \<open>buffer_free\<close> dereferences the buffer's pointer.
\<close>

definition channel_destroy :: "channel_t \<Rightarrow> (channel_status \<times> channel_t option) option" where
  "channel_destroy ch =
     (if \<not> closed_flag ch then Some (DESTROY_ERROR, Some ch)
      else do {
        _ \<leftarrow> (if is_unbuffered ch then Some None else buffer_free (ch_buffer ch));
        Some (SUCCESS, None)
      })"

subsection \<open>Select\<close>

definition init_select_step :: "bool \<Rightarrow> select_t \<Rightarrow> nat \<Rightarrow> channel_t \<Rightarrow> channel_t" where
  "init_select_step ok e sem ch =
     (if sel_dir e = SEND then add_select_sender ok ch sem else add_select_receiver ok ch sem)"

definition cleanup_select_step :: "select_t \<Rightarrow> nat \<Rightarrow> channel_t \<Rightarrow> channel_t" where
  "cleanup_select_step e sem ch =
     (if sel_dir e = SEND then remove_select_sender ch sem else remove_select_receiver ch sem)"

text \<open>
  One pass of the body of the \<open>for\<close> loop. \<open>Leave st recorded\<close> leaves the loop with a status;
  \<open>recorded\<close> says whether \<open>*sel_idx\<close> was written (the closed branch of an unbuffered channel
  does not). \<open>Continue\<close> goes to the next entry.
\<close>

datatype select_next =
    Continue
  | Leave channel_status bool
  | SelectWait cond resume
  | SelectPost "post list" channel_status

fun select_outcome :: "outcome \<Rightarrow> select_next" where
  "select_outcome (Return st) = Leave st True"
| "select_outcome (Wait c r) = SelectWait c r"
| "select_outcome (Post ps st) = SelectPost ps st"

definition select_unbuffered :: "int \<Rightarrow> int \<Rightarrow> nat list option \<Rightarrow> nat \<Rightarrow> env \<Rightarrow> (env \<times> select_next) option" where
  "select_unbuffered op partner partners a e =
     (let ch = e_chan e in
      if closed_flag ch then Some (e, Leave CLOSED_ERROR False)
      else if unbuf_stage ch = 1 \<and> active_unbuf_op ch = partner \<or> \<not> no_selectors partners
      then map_option (apsnd select_outcome) (unbuffered_sync op a e)
      else Some (e, Continue))"

definition select_buffered :: "section_result \<Rightarrow> (env \<times> select_next) option" where
  "select_buffered res =
     map_option (apsnd (\<lambda>nx. if nx = Return CHANNEL_FULL then Continue else select_outcome nx)) res"

definition channel_select_entry :: "bool \<Rightarrow> select_t \<Rightarrow> env \<Rightarrow> (env \<times> select_next) option" where
  "channel_select_entry lock s e =
     (if sel_dir s = SEND then
        (if is_unbuffered (e_chan e)
         then select_unbuffered unbuf_op_send unbuf_op_receive (recv_selectors (e_chan e)) (sel_data s) e
         else select_buffered (channel_non_blocking_send lock (sel_data s) e))
      else
        (if is_unbuffered (e_chan e)
         then select_unbuffered unbuf_op_receive unbuf_op_send (send_selectors (e_chan e)) (sel_data s) e
         else select_buffered (channel_non_blocking_receive lock (sel_data s) e)))"

end
