(* ===== verification/Channel_System.thy ===== *)
theory Channel_System
  imports Channel
begin

text \<open>
  Any number of threads calling the channel operations: an interleaving of the critical
  sections and actions of \<open>Channel\<close>. A thread is at a program point of its call; one that
  waits on a condition variable runs again only after a signal, a broadcast or a spurious
  wakeup. \<open>sent\<close> and \<open>recvd\<close> are history variables: for each channel the messages put into and
  taken out of its buffer, oldest first. They are read by no step.
\<close>

subsection \<open>Threads and the system\<close>

datatype call =
    Send nat nat
  | Receive nat nat
  | NonBlockSend nat nat
  | NonBlockReceive nat nat
  | Close nat
  | Destroy nat
  | Select "select_t list" nat

text \<open>
  The arguments are the channel and the cell of the message; for \<open>Select\<close> the entries and
  the thread's semaphore. In a \<open>Select\<close>, \<open>SelInit\<close>, \<open>SelScan\<close> and \<open>SelCleanup\<close> carry the index of
  their loop, and \<open>SelCleanup\<close> the status to return and what was written to \<open>*sel_idx\<close>.
\<close>

datatype pc =
    Entry
  | Resume resume
  | Posting "post list" channel_status
  | SelInit nat
  | SelScan nat
  | SelResume nat resume
  | SelPosting nat "post list" channel_status
  | SelWait
  | SelCleanup nat channel_status "nat option"
  | Done channel_status "nat option"

record thread =
  t_call :: call
  t_pc :: pc
  t_wait :: "(nat \<times> cond) option"

record sys =
  chans :: "nat \<rightharpoonup> channel_t"
  mem :: "nat \<Rightarrow> msg"
  sems :: "nat \<Rightarrow> nat"
  threads :: "thread list"
  sent :: "nat \<Rightarrow> msg list"
  recvd :: "nat \<Rightarrow> msg list"

subsection \<open>The sections of a call\<close>

fun call_chan :: "call \<Rightarrow> nat" where
  "call_chan (Send c a) = c"
| "call_chan (Receive c a) = c"
| "call_chan (NonBlockSend c a) = c"
| "call_chan (NonBlockReceive c a) = c"
| "call_chan (Close c) = c"
| "call_chan (Destroy c) = c"
| "call_chan (Select es sem) = 0"

fun entry_section :: "bool \<Rightarrow> call \<Rightarrow> env \<Rightarrow> section_result" where
  "entry_section lock (Send c a) = channel_send lock a"
| "entry_section lock (Receive c a) = channel_receive lock a"
| "entry_section lock (NonBlockSend c a) = channel_non_blocking_send lock a"
| "entry_section lock (NonBlockReceive c a) = channel_non_blocking_receive lock a"
| "entry_section lock (Close c) = channel_close lock"
| "entry_section lock (Destroy c) = (\<lambda>_. None)"
| "entry_section lock (Select es sem) = (\<lambda>_. None)"

fun resume_section :: "call \<Rightarrow> resume \<Rightarrow> env \<Rightarrow> section_result" where
  "resume_section (Send c a) BufRetry = channel_send_loop a"
| "resume_section (Send c a) NonBlockRetry = (\<lambda>_. None)"
| "resume_section (Send c a) r = unbuffered_sync_resume unbuf_op_send a r"
| "resume_section (Receive c a) BufRetry = channel_receive_loop a"
| "resume_section (Receive c a) NonBlockRetry = (\<lambda>_. None)"
| "resume_section (Receive c a) r = unbuffered_sync_resume unbuf_op_receive a r"
| "resume_section (NonBlockSend c a) BufRetry = (\<lambda>_. None)"
| "resume_section (NonBlockSend c a) NonBlockRetry = non_blocking_send_unbuf a"
| "resume_section (NonBlockSend c a) r = unbuffered_sync_resume unbuf_op_send a r"
| "resume_section (NonBlockReceive c a) BufRetry = (\<lambda>_. None)"
| "resume_section (NonBlockReceive c a) NonBlockRetry = non_blocking_receive_unbuf a"
| "resume_section (NonBlockReceive c a) r = unbuffered_sync_resume unbuf_op_receive a r"
| "resume_section (Close c) r = (\<lambda>_. None)"
| "resume_section (Destroy c) r = (\<lambda>_. None)"
| "resume_section (Select es sem) r = (\<lambda>_. None)"

definition select_resume :: "select_t \<Rightarrow> resume \<Rightarrow> env \<Rightarrow> (env \<times> select_next) option" where
  "select_resume e r env =
     map_option (apsnd select_outcome)
       (unbuffered_sync_resume (if sel_dir e = SEND then unbuf_op_send else unbuf_op_receive) (sel_data e) r env)"

text \<open>Running a section on a channel of the system; a freed channel is undefined.\<close>

definition run_section :: "nat \<Rightarrow> (env \<Rightarrow> (env \<times> 'n) option) \<Rightarrow> sys \<Rightarrow> (sys \<times> wake list \<times> 'n) option" where
  "run_section c f s = do {
     ch \<leftarrow> chans s c;
     (e, nx) \<leftarrow> f \<lparr>e_chan = ch, e_mem = mem s, e_sems = sems s, e_wakes = []\<rparr>;
     Some (s\<lparr>chans := (chans s)(c \<mapsto> e_chan e), mem := e_mem e, sems := e_sems e\<rparr>, e_wakes e, nx)
   }"

definition set_thread :: "nat \<Rightarrow> pc \<Rightarrow> (nat \<times> cond) option \<Rightarrow> sys \<Rightarrow> sys" where
  "set_thread i p w s = s\<lparr>threads := (threads s)[i := (threads s ! i)\<lparr>t_pc := p, t_wait := w\<rparr>]\<rparr>"

definition log_transfer :: "direction \<Rightarrow> nat \<Rightarrow> nat \<Rightarrow> sys \<Rightarrow> sys" where
  "log_transfer d c a s =
     (if d = SEND then s\<lparr>sent := (sent s)(c := sent s c @ [mem s a])\<rparr>
      else s\<lparr>recvd := (recvd s)(c := recvd s c @ [mem s a])\<rparr>)"

text \<open>A section that ends with notifications has moved a message (or closed the channel).\<close>

fun log_call :: "call \<Rightarrow> sys \<Rightarrow> sys" where
  "log_call (Send c a) s = log_transfer SEND c a s"
| "log_call (NonBlockSend c a) s = log_transfer SEND c a s"
| "log_call (Receive c a) s = log_transfer RECV c a s"
| "log_call (NonBlockReceive c a) s = log_transfer RECV c a s"
| "log_call (Close c) s = s"
| "log_call (Destroy c) s = s"
| "log_call (Select es sem) s = s"

fun after_section :: "nat \<Rightarrow> call \<Rightarrow> outcome \<Rightarrow> sys \<Rightarrow> sys" where
  "after_section i cl (Return st) s = set_thread i (Done st None) None s"
| "after_section i cl (Wait cv r) s = set_thread i (Resume r) (Some (call_chan cl, cv)) s"
| "after_section i cl (Post ps st) s = set_thread i (Posting ps st) None (log_call cl s)"

fun after_select :: "nat \<Rightarrow> nat \<Rightarrow> select_t \<Rightarrow> select_next \<Rightarrow> sys \<Rightarrow> sys" where
  "after_select i k e Continue s = set_thread i (SelScan (Suc k)) None s"
| "after_select i k e (Leave st recorded) s =
     set_thread i (SelCleanup 0 st (if recorded then Some k else None)) None s"
| "after_select i k e (SelectWait cv r) s = set_thread i (SelResume k r) (Some (sel_channel e, cv)) s"
| "after_select i k e (SelectPost ps st) s =
     set_thread i (SelPosting k ps st) None (log_transfer (sel_dir e) (sel_channel e) (sel_data e) s)"

text \<open>One action after the unlock.\<close>

definition post_step :: "nat \<Rightarrow> post \<Rightarrow> sys \<Rightarrow> (sys \<times> wake list) option" where
  "post_step c p s = do {
     ch \<leftarrow> chans s c;
     Some (case p of
       NotifySenders \<Rightarrow> (s\<lparr>sems := notify_select_senders ch (sems s)\<rparr>, [])
     | NotifyReceivers \<Rightarrow> (s\<lparr>sems := notify_select_receivers ch (sems s)\<rparr>, [])
     | Wake w \<Rightarrow> (s, [w]))
   }"

subsection \<open>A step of one thread\<close>

text \<open>
  The result is the new state, the channel whose condition variables are signalled and how.
  The flag \<open>ok\<close> is the outcome of the lock or allocation of this step.
\<close>

definition simple_step :: "bool \<Rightarrow> nat \<Rightarrow> call \<Rightarrow> pc \<Rightarrow> sys \<Rightarrow> (sys \<times> nat \<times> wake list) option" where
  "simple_step ok i cl p s =
     (case p of
        Entry \<Rightarrow> do {
          (s, ws, nx) \<leftarrow> run_section (call_chan cl) (entry_section ok cl) s;
          Some (after_section i cl nx s, call_chan cl, ws) }
      | Resume r \<Rightarrow> do {
          (s, ws, nx) \<leftarrow> run_section (call_chan cl) (resume_section cl r) s;
          Some (after_section i cl nx s, call_chan cl, ws) }
      | Posting ps st \<Rightarrow>
          (case ps of
             [] \<Rightarrow> Some (set_thread i (Done st None) None s, call_chan cl, [])
           | p # ps \<Rightarrow> do {
               (s, ws) \<leftarrow> post_step (call_chan cl) p s;
               Some (set_thread i (Posting ps st) None s, call_chan cl, ws) })
      | _ \<Rightarrow> None)"

definition destroy_step :: "nat \<Rightarrow> nat \<Rightarrow> sys \<Rightarrow> (sys \<times> nat \<times> wake list) option" where
  "destroy_step i c s = do {
     ch \<leftarrow> chans s c;
     (st, ch) \<leftarrow> channel_destroy ch;
     Some (set_thread i (Done st None) None (s\<lparr>chans := (chans s)(c := ch)\<rparr>), c, [])
   }"

text \<open>\<open>channel_select\<close>: initialisation, the loop over the entries, the wait, the cleanup.\<close>

definition select_step :: "bool \<Rightarrow> nat \<Rightarrow> select_t list \<Rightarrow> nat \<Rightarrow> pc \<Rightarrow> sys \<Rightarrow> (sys \<times> nat \<times> wake list) option" where
  "select_step ok i es sem p s =
     (case p of
        Entry \<Rightarrow>
          (if es = [] then Some (set_thread i (Done GENERIC_ERROR None) None s, 0, [])
           else Some (set_thread i (SelInit 0) None (s\<lparr>sems := (sems s)(sem := 0)\<rparr>), 0, []))
      | SelInit k \<Rightarrow>
          (if k < length es then do {
             ch \<leftarrow> chans s (sel_channel (es ! k));
             let s = s\<lparr>chans := (chans s)(sel_channel (es ! k) \<mapsto> init_select_step ok (es ! k) sem ch)\<rparr>;
             Some (set_thread i (SelInit (Suc k)) None s, sel_channel (es ! k), []) }
           else Some (set_thread i (SelScan 0) None s, 0, []))
      | SelScan k \<Rightarrow>
          (if k < length es then do {
             (s, ws, nx) \<leftarrow> run_section (sel_channel (es ! k)) (channel_select_entry ok (es ! k)) s;
             Some (after_select i k (es ! k) nx s, sel_channel (es ! k), ws) }
           else Some (set_thread i SelWait None s, 0, []))
      | SelResume k r \<Rightarrow>
          (if k < length es then do {
             (s, ws, nx) \<leftarrow> run_section (sel_channel (es ! k)) (select_resume (es ! k) r) s;
             Some (after_select i k (es ! k) nx s, sel_channel (es ! k), ws) }
           else None)
      | SelPosting k ps st \<Rightarrow>
          (case ps of
             [] \<Rightarrow> Some (set_thread i (SelCleanup 0 st (Some k)) None s, 0, [])
           | p # ps \<Rightarrow>
               (if k < length es then do {
                  (s, ws) \<leftarrow> post_step (sel_channel (es ! k)) p s;
                  Some (set_thread i (SelPosting k ps st) None s, sel_channel (es ! k), ws) }
                else None))
      | SelWait \<Rightarrow>
          (if sems s sem > 0
           then Some (set_thread i (SelScan 0) None (s\<lparr>sems := (sems s)(sem := sems s sem - 1)\<rparr>), 0, [])
           else Some (s, 0, []))
      | SelCleanup k st idx \<Rightarrow>
          (if k < length es then do {
             ch \<leftarrow> chans s (sel_channel (es ! k));
             let s = s\<lparr>chans := (chans s)(sel_channel (es ! k) \<mapsto> cleanup_select_step (es ! k) sem ch)\<rparr>;
             Some (set_thread i (SelCleanup (Suc k) st idx) None s, sel_channel (es ! k), []) }
           else Some (set_thread i (Done st idx) None s, 0, []))
      | _ \<Rightarrow> None)"

definition thread_step :: "bool \<Rightarrow> nat \<Rightarrow> sys \<Rightarrow> (sys \<times> nat \<times> wake list) option" where
  "thread_step ok i s =
     (let t = threads s ! i in
      case t_pc t of
        Done st idx \<Rightarrow> Some (s, 0, [])
      | p \<Rightarrow> (case t_call t of
                Select es sem \<Rightarrow> select_step ok i es sem p s
              | Destroy c \<Rightarrow> destroy_step i c s
              | cl \<Rightarrow> simple_step ok i cl p s))"

subsection \<open>Steps of the system\<close>

definition unblock :: "nat \<Rightarrow> cond \<Rightarrow> thread \<Rightarrow> thread" where
  "unblock c cv t = (if t_wait t = Some (c, cv) then t\<lparr>t_wait := None\<rparr> else t)"

inductive wake_step :: "nat \<Rightarrow> wake \<Rightarrow> thread list \<Rightarrow> thread list \<Rightarrow> bool" where
  broadcast: "wake_step c (Broadcast cv) ts (map (unblock c cv) ts)"
| signal: "j < length ts \<Longrightarrow> t_wait (ts ! j) = Some (c, cv) \<Longrightarrow>
     wake_step c (Signal cv) ts (ts[j := (ts ! j)\<lparr>t_wait := None\<rparr>])"
| signal_none: "\<forall>t \<in> set ts. t_wait t \<noteq> Some (c, cv) \<Longrightarrow> wake_step c (Signal cv) ts ts"

inductive wake_steps :: "nat \<Rightarrow> wake list \<Rightarrow> thread list \<Rightarrow> thread list \<Rightarrow> bool" where
  wake_nil: "wake_steps c [] ts ts"
| wake_cons: "wake_step c w ts ts' \<Longrightarrow> wake_steps c ws ts' ts'' \<Longrightarrow> wake_steps c (w # ws) ts ts''"

text \<open>
  What the callers owe (\<open>channel.h\<close>): a call is made on channels that exist, and a channel is
  destroyed when no other thread is in a call on it.
\<close>

fun refs :: "call \<Rightarrow> nat set" where
  "refs (Select es sem) = sel_channel ` set es"
| "refs (Send c a) = {c}"
| "refs (Receive c a) = {c}"
| "refs (NonBlockSend c a) = {c}"
| "refs (NonBlockReceive c a) = {c}"
| "refs (Close c) = {c}"
| "refs (Destroy c) = {c}"

fun destroys :: "call \<Rightarrow> nat set" where
  "destroys (Destroy c) = {c}"
| "destroys cl = {}"

definition in_call :: "thread \<Rightarrow> bool" where
  "in_call t \<longleftrightarrow> (case t_pc t of Done st idx \<Rightarrow> False | _ \<Rightarrow> True)"

definition client_ok :: "sys \<Rightarrow> call \<Rightarrow> bool" where
  "client_ok s cl \<longleftrightarrow> refs cl \<subseteq> dom (chans s) \<and>
     (\<forall>t \<in> set (threads s). in_call t \<longrightarrow>
        destroys (t_call t) \<inter> refs cl = {} \<and> destroys cl \<inter> refs (t_call t) = {})"

text \<open>
  A thread runs; a waiting thread wakes up for no reason; a thread that has returned writes
  a cell or makes its next call.
\<close>

inductive sys_step :: "sys \<Rightarrow> sys \<Rightarrow> bool" where
  run: "i < length (threads s) \<Longrightarrow> t_wait (threads s ! i) = None \<Longrightarrow>
     thread_step ok i s = Some (s', c, ws) \<Longrightarrow> wake_steps c ws (threads s') ts \<Longrightarrow>
     sys_step s (s'\<lparr>threads := ts\<rparr>)"
| spurious: "i < length (threads s) \<Longrightarrow> t_wait (threads s ! i) \<noteq> None \<Longrightarrow>
     sys_step s (s\<lparr>threads := (threads s)[i := (threads s ! i)\<lparr>t_wait := None\<rparr>]\<rparr>)"
| store: "sys_step s (s\<lparr>mem := (mem s)(a := v)\<rparr>)"
| new_call: "i < length (threads s) \<Longrightarrow> t_pc (threads s ! i) = Done st idx \<Longrightarrow> client_ok s cl \<Longrightarrow>
     sys_step s (s\<lparr>threads := (threads s)[i := \<lparr>t_call = cl, t_pc = Entry, t_wait = None\<rparr>]\<rparr>)"

inductive_cases sys_stepE: "sys_step s s'"

inductive_simps wake_steps_simps [simp]:
  "wake_steps c [] ts ts'"
  "wake_steps c (w # ws) ts ts'"

text \<open>
  The start: channels as \<open>channel_create\<close> makes them (allocations succeeding, the size not
  overflowing its byte count), threads not yet in a call.
\<close>

definition created :: "channel_t \<Rightarrow> bool" where
  "created ch \<longleftrightarrow> (\<exists>sz. unat sz < 2 ^ 61 \<and> channel_create True True True True True sz = Some (Some ch))"

lemma created_fields:
  assumes "created ch"
  shows "closed_flag ch = False" "send_selectors ch = Some []" "recv_selectors ch = Some []" "unbuf_stage ch = 0"
  using assms by (auto simp: created_def channel_create_def bind_eq_Some_conv)

definition sys_init :: "sys \<Rightarrow> bool" where
  "sys_init s \<longleftrightarrow>
     (\<forall>c ch. chans s c = Some ch \<longrightarrow> created ch \<and> sent s c = [] \<and> recvd s c = []) \<and>
     (\<forall>t \<in> set (threads s). t_wait t = None \<and> (\<exists>st idx. t_pc t = Done st idx))"

definition reachable :: "sys \<Rightarrow> sys \<Rightarrow> bool" where
  "reachable s0 s \<longleftrightarrow> sys_step\<^sup>*\<^sup>* s0 s"

lemma reachable_induct [consumes 1, case_names start steps]:
  assumes "reachable s0 s" "P s0" "\<And>s s'. reachable s0 s \<Longrightarrow> P s \<Longrightarrow> sys_step s s' \<Longrightarrow> P s'"
  shows "P s"
proof -
  have "sys_step\<^sup>*\<^sup>* s0 s" using assms(1) by (simp add: reachable_def)
  then show ?thesis
  proof (induction rule: rtranclp_induct)
    case base
    show ?case by (fact assms(2))
  next
    case (step s s')
    then show ?case using assms(3) by (simp add: reachable_def)
  qed
qed

end
