(* ===== verification/Channel_Fifo.thy ===== *)
theory Channel_Fifo
  imports Channel_System
begin

text \<open>
  The messages of a buffered channel under every interleaving of any number of threads:
  what is received is what was sent, in order. Each critical section is shown to keep the
  invariant of its channel and to move at most one message; the step relation then keeps
  \<open>sent = recvd @ buffer\<close>.
\<close>

subsection \<open>Critical sections\<close>

definition chan_msgs :: "channel_t \<Rightarrow> msg list" where
  "chan_msgs ch = (case ch_buffer ch of None \<Rightarrow> [] | Some b \<Rightarrow> contents b)"

definition chan_inv :: "channel_t \<Rightarrow> bool" where
  "chan_inv ch \<longleftrightarrow>
     (is_unbuffered ch \<longleftrightarrow> ch_buffer ch = None) \<and> (\<forall>b. ch_buffer ch = Some b \<longrightarrow> buffer_inv b) \<and>
     (unbuf_stage ch = 1 \<longrightarrow> unbuf_data ch \<noteq> None)"

text \<open>What a section with direction \<open>d\<close> and cell \<open>a\<close> does to the messages of its channel.\<close>

definition moves :: "(direction \<times> nat) option \<Rightarrow> bool \<Rightarrow> channel_t \<Rightarrow> channel_t \<Rightarrow> (nat \<Rightarrow> msg) \<Rightarrow> bool" where
  "moves da posts ch ch' mem' \<longleftrightarrow>
     (case da of
        None \<Rightarrow> chan_msgs ch' = chan_msgs ch
      | Some (d, a) \<Rightarrow>
          if posts then (if d = SEND then chan_msgs ch' = chan_msgs ch @ [mem' a]
                         else chan_msgs ch = mem' a # chan_msgs ch')
          else chan_msgs ch' = chan_msgs ch)"

definition good_section :: "(direction \<times> nat) option \<Rightarrow> ('n \<Rightarrow> bool) \<Rightarrow> (env \<times> 'n) option \<Rightarrow> env \<Rightarrow> bool" where
  "good_section da posts res e \<longleftrightarrow>
     (\<forall>e' nx. res = Some (e', nx) \<longrightarrow> chan_inv (e_chan e') \<and> is_unbuffered (e_chan e') = is_unbuffered (e_chan e) \<and>
        moves da (posts nx) (e_chan e) (e_chan e') (e_mem e'))"

fun is_post :: "outcome \<Rightarrow> bool" where
  "is_post (Post ps st) = True"
| "is_post _ = False"

fun is_select_post :: "select_next \<Rightarrow> bool" where
  "is_select_post (SelectPost ps st) = True"
| "is_select_post _ = False"

lemma buffer_add_cases:
  assumes "buffer_inv b"
  obtains "buffer_add b v = Some (BUFFER_ERROR, b)" "unat (buf_size b) = unat (buf_capacity b)"
  | b' where "buffer_add b v = Some (BUFFER_SUCCESS, b')" "buffer_inv b'" "contents b' = contents b @ [v]"
      "buf_capacity b' = buf_capacity b"
proof (cases "buf_size b < buf_capacity b")
  case True
  then show ?thesis using buffer_add_room [OF assms True, of v] that(2) by blast
next
  case False
  then show ?thesis using buffer_add_full [of b v] assms that(1)
    by (auto simp: buffer_inv_def word_le_nat_alt not_less)
qed

lemma buffer_remove_cases:
  assumes "buffer_inv b"
  obtains "buffer_remove b = Some (BUFFER_ERROR, None, b)" "contents b = []"
  | v b' where "buffer_remove b = Some (BUFFER_SUCCESS, Some v, b')" "buffer_inv b'" "contents b = v # contents b'"
      "buf_capacity b' = buf_capacity b"
proof (cases "0 < buf_size b")
  case True
  then show ?thesis using buffer_remove_some [OF assms True] that(2) by blast
next
  case False
  then have "buf_size b = 0" by (simp add: word_less_nat_alt unat_eq_0)
  then show ?thesis using buffer_remove_empty [of b] that(1) by (simp add: contents_def)
qed

lemma chan_inv_cases:
  assumes "chan_inv ch"
  obtains (unbuf) "is_unbuffered ch" "ch_buffer ch = None"
  | (buf) b where "\<not> is_unbuffered ch" "ch_buffer ch = Some b" "buffer_inv b"
  using assms by (cases "ch_buffer ch") (auto simp: chan_inv_def)

lemma good_none [simp]: "good_section da posts None e"
  by (simp add: good_section_def)

lemma good_some:
  "good_section da posts (Some (e', nx)) e \<longleftrightarrow> chan_inv (e_chan e') \<and>
     is_unbuffered (e_chan e') = is_unbuffered (e_chan e) \<and> moves da (posts nx) (e_chan e) (e_chan e') (e_mem e')"
  by (auto simp: good_section_def)

lemma moves_same [simp]: "chan_msgs ch' = chan_msgs ch \<Longrightarrow> moves da False ch ch' m"
  by (simp add: moves_def split: option.split)

lemma good_sync:
  "chan_inv (e_chan e) \<Longrightarrow> good_section da is_post (unbuffered_sync op a e) e"
  by (simp add: unbuffered_sync_def Let_def good_some chan_inv_def chan_msgs_def add_waiting_def split: option.splits)

lemma good_section_cong:
  "chan_msgs (e_chan e0) = chan_msgs (e_chan e) \<Longrightarrow> is_unbuffered (e_chan e0) = is_unbuffered (e_chan e) \<Longrightarrow>
   good_section da posts res e0 \<Longrightarrow> good_section da posts res e"
  unfolding good_section_def moves_def by (cases da) auto

lemma good_sync_resume:
  assumes "chan_inv (e_chan e)"
  shows "good_section da is_post (unbuffered_sync_resume op a r e) e"
proof (cases "r = SyncDone")
  case True
  then show ?thesis using assms
    by (simp add: good_some unbuffered_sync_resume_def chan_inv_def chan_msgs_def)
next
  case False
  let ?e = "e\<lparr>e_chan := add_waiting op (- 1) (e_chan e)\<rparr>"
  have "chan_inv (e_chan ?e)" using assms by (simp add: chan_inv_def add_waiting_def)
  then have "good_section da is_post (unbuffered_sync op a ?e) ?e" by (rule good_sync)
  then have "good_section da is_post (unbuffered_sync op a ?e) e"
    by (rule good_section_cong [rotated 2]) (simp_all add: chan_msgs_def add_waiting_def)
  then show ?thesis using False by (simp add: unbuffered_sync_resume_def)
qed

lemma chan_set_buffer [simp]:
  "chan_inv ch \<Longrightarrow> \<not> is_unbuffered ch \<Longrightarrow> buffer_inv b \<Longrightarrow> chan_inv (ch\<lparr>ch_buffer := Some b\<rparr>)"
  "chan_msgs (ch\<lparr>ch_buffer := Some b\<rparr>) = contents b"
  by (simp_all add: chan_inv_def chan_msgs_def)

lemma chan_msgs_buffer: "ch_buffer ch = Some b \<Longrightarrow> chan_msgs ch = contents b"
  by (simp add: chan_msgs_def)

lemma good_send_loop:
  assumes inv: "chan_inv (e_chan e)"
  shows "good_section (Some (SEND, a)) is_post (channel_send_loop a e) e"
  using inv
proof (cases rule: chan_inv_cases)
  case (buf b)
  show ?thesis
    by (rule buffer_add_cases [OF buf(3), of "e_mem e a"])
      (use inv buf in \<open>simp_all add: channel_send_loop_def good_some moves_def chan_msgs_buffer\<close>)
qed (simp add: channel_send_loop_def)

lemma good_receive_loop:
  assumes inv: "chan_inv (e_chan e)"
  shows "good_section (Some (RECV, a)) is_post (channel_receive_loop a e) e"
  using inv
proof (cases rule: chan_inv_cases)
  case (buf b)
  show ?thesis
    by (rule buffer_remove_cases [OF buf(3)])
      (use inv buf in \<open>simp_all add: channel_receive_loop_def good_some moves_def chan_msgs_buffer store_data_def\<close>)
qed (simp add: channel_receive_loop_def)

lemma good_const:
  "chan_inv (e_chan e) \<Longrightarrow> \<not> posts nx \<Longrightarrow> good_section da posts (Some (e, nx)) e"
  by (simp add: good_some)

lemmas good_basic = good_sync good_sync_resume good_send_loop good_receive_loop good_const

lemma good_send: "chan_inv (e_chan e) \<Longrightarrow> good_section (Some (SEND, a)) is_post (channel_send lock a e) e"
  by (simp add: channel_send_def good_basic)

lemma good_receive: "chan_inv (e_chan e) \<Longrightarrow> good_section (Some (RECV, a)) is_post (channel_receive lock a e) e"
  by (simp add: channel_receive_def good_basic)

lemma good_nb_send_unbuf: "chan_inv (e_chan e) \<Longrightarrow> good_section da is_post (non_blocking_send_unbuf a e) e"
  by (simp add: non_blocking_send_unbuf_def good_basic Let_def)

lemma good_nb_receive_unbuf: "chan_inv (e_chan e) \<Longrightarrow> good_section da is_post (non_blocking_receive_unbuf a e) e"
  by (simp add: non_blocking_receive_unbuf_def good_basic Let_def)

lemma good_nb_send:
  assumes inv: "chan_inv (e_chan e)"
  shows "good_section (Some (SEND, a)) is_post (channel_non_blocking_send lock a e) e"
  using inv
proof (cases rule: chan_inv_cases)
  case unbuf
  then show ?thesis using inv by (simp add: channel_non_blocking_send_def good_basic good_nb_send_unbuf)
next
  case (buf b)
  show ?thesis
    by (rule buffer_add_cases [OF buf(3), of "e_mem e a"])
      (use inv buf in \<open>simp_all add: channel_non_blocking_send_def good_some moves_def chan_msgs_buffer\<close>)
qed

lemma good_nb_receive:
  assumes inv: "chan_inv (e_chan e)"
  shows "good_section (Some (RECV, a)) is_post (channel_non_blocking_receive lock a e) e"
  using inv
proof (cases rule: chan_inv_cases)
  case unbuf
  then show ?thesis using inv by (simp add: channel_non_blocking_receive_def good_basic good_nb_receive_unbuf)
next
  case (buf b)
  show ?thesis
    by (rule buffer_remove_cases [OF buf(3)])
      (use inv buf in \<open>simp_all add: channel_non_blocking_receive_def good_some moves_def chan_msgs_buffer store_data_def\<close>)
qed

lemma good_close: "chan_inv (e_chan e) \<Longrightarrow> good_section None is_post (channel_close lock e) e"
  by (simp add: channel_close_def good_const) (simp add: good_some moves_def chan_inv_def chan_msgs_def)

subsection \<open>The sections of calls and of select\<close>

fun call_moves :: "call \<Rightarrow> (direction \<times> nat) option" where
  "call_moves (Send c a) = Some (SEND, a)"
| "call_moves (NonBlockSend c a) = Some (SEND, a)"
| "call_moves (Receive c a) = Some (RECV, a)"
| "call_moves (NonBlockReceive c a) = Some (RECV, a)"
| "call_moves cl = None"

lemma good_entry: "chan_inv (e_chan e) \<Longrightarrow> good_section (call_moves cl) is_post (entry_section lock cl e) e"
  by (cases cl) (simp_all add: good_send good_receive good_nb_send good_nb_receive good_close)

lemma good_resume: "chan_inv (e_chan e) \<Longrightarrow> good_section (call_moves cl) is_post (resume_section cl r e) e"
  by (cases cl; cases r) (simp_all add: good_basic good_nb_send_unbuf good_nb_receive_unbuf)

lemma good_map:
  assumes "good_section da posts res e" "\<And>nx. posts' (f nx) = posts nx"
  shows "good_section da posts' (map_option (apsnd f) res) e"
  using assms by (cases res) (auto simp: good_some)

lemma select_outcome_post [simp]: "is_select_post (select_outcome nx) = is_post nx"
  by (cases nx) simp_all

lemma good_select_buffered:
  "good_section da is_post res e \<Longrightarrow> good_section da is_select_post (select_buffered res) e"
  unfolding select_buffered_def by (erule good_map) auto

lemma good_select_unbuffered:
  "chan_inv (e_chan e) \<Longrightarrow> good_section da is_select_post (select_unbuffered op partner partners a e) e"
  using good_map [OF good_sync [of e da op a], of is_select_post select_outcome]
  by (simp add: select_unbuffered_def Let_def good_const)

lemma good_select_entry:
  "chan_inv (e_chan e) \<Longrightarrow>
   good_section (Some (sel_dir s, sel_data s)) is_select_post (channel_select_entry lock s e) e"
  by (cases "sel_dir s")
    (simp_all add: channel_select_entry_def good_select_unbuffered good_select_buffered good_nb_send good_nb_receive)

lemma good_select_resume:
  "chan_inv (e_chan e) \<Longrightarrow> good_section (Some (sel_dir s, sel_data s)) is_select_post (select_resume s r e) e"
  unfolding select_resume_def by (rule good_map [OF good_sync_resume]) simp_all

subsection \<open>Every step keeps the history\<close>

definition fifo_inv :: "sys \<Rightarrow> bool" where
  "fifo_inv s \<longleftrightarrow>
     (\<forall>c ch. chans s c = Some ch \<longrightarrow> chan_inv ch \<and> sent s c = recvd s c @ chan_msgs ch)"

lemma fifo_inv_set_thread [simp]: "fifo_inv (set_thread i p w s) = fifo_inv s"
  by (simp add: fifo_inv_def set_thread_def)

lemma fifo_inv_sems [simp]: "fifo_inv (s\<lparr>sems := x\<rparr>) = fifo_inv s" "fifo_inv (s\<lparr>threads := ts\<rparr>) = fifo_inv s"
  "fifo_inv (s\<lparr>mem := m\<rparr>) = fifo_inv s"
  by (simp_all add: fifo_inv_def)

text \<open>Running a section and recording what it moved.\<close>

definition log_moves :: "(direction \<times> nat) option \<Rightarrow> nat \<Rightarrow> sys \<Rightarrow> sys" where
  "log_moves da c s = (case da of None \<Rightarrow> s | Some (d, a) \<Rightarrow> log_transfer d c a s)"

lemma run_section_fifo:
  assumes inv: "fifo_inv s" and run: "run_section c f s = Some (s', ws, nx)"
    and good: "\<And>e. chan_inv (e_chan e) \<Longrightarrow> good_section da posts (f e) e"
  shows "fifo_inv (if posts nx then log_moves da c s' else s')"
proof -
  obtain ch e where ch: "chans s c = Some ch"
    and f: "f \<lparr>e_chan = ch, e_mem = mem s, e_sems = sems s, e_wakes = []\<rparr> = Some (e, nx)"
    and s': "s' = s\<lparr>chans := (chans s)(c \<mapsto> e_chan e), mem := e_mem e, sems := e_sems e\<rparr>"
    using run by (auto simp: run_section_def bind_eq_Some_conv)
  have "chan_inv ch" "sent s c = recvd s c @ chan_msgs ch" using inv ch by (simp_all add: fifo_inv_def)
  moreover have "chan_inv (e_chan e)" "moves da (posts nx) ch (e_chan e) (e_mem e)"
    using good [of "\<lparr>e_chan = ch, e_mem = mem s, e_sems = sems s, e_wakes = []\<rparr>"] f calculation(1)
    by (simp_all add: good_some)
  moreover have "sent s d = recvd s d @ chan_msgs ch'" "chan_inv ch'" if "chans s d = Some ch'" for d ch'
    using inv that by (simp_all add: fifo_inv_def)
  ultimately show ?thesis
    unfolding s' by (cases da) (simp_all add: fifo_inv_def moves_def log_moves_def log_transfer_def case_prod_unfold)
qed

lemma log_call_moves: "log_call cl s = log_moves (call_moves cl) (call_chan cl) s"
  by (cases cl) (simp_all add: log_moves_def)

lemma after_section_fifo: "fifo_inv (if is_post nx then log_moves (call_moves cl) (call_chan cl) s else s) \<Longrightarrow>
   fifo_inv (after_section i cl nx s)"
  by (cases nx) (simp_all add: log_call_moves)

lemma after_select_fifo:
  "fifo_inv (if is_select_post nx then log_moves (Some (sel_dir e, sel_data e)) (sel_channel e) s else s) \<Longrightarrow>
   fifo_inv (after_select i k e nx s)"
  by (cases nx) (simp_all add: log_moves_def)

lemma post_step_fifo: "post_step c p s = Some (s', ws) \<Longrightarrow> fifo_inv s \<Longrightarrow> fifo_inv s'"
  by (cases p) (auto simp: post_step_def bind_eq_Some_conv)

lemma selector_steps_inv [simp]:
  "chan_inv (init_select_step ok e sem ch) = chan_inv ch" "chan_msgs (init_select_step ok e sem ch) = chan_msgs ch"
  "chan_inv (cleanup_select_step e sem ch) = chan_inv ch" "chan_msgs (cleanup_select_step e sem ch) = chan_msgs ch"
  by (simp_all add: init_select_step_def cleanup_select_step_def add_select_sender_def add_select_receiver_def
      remove_select_sender_def remove_select_receiver_def chan_inv_def chan_msgs_def)

lemma fifo_inv_selectors:
  "fifo_inv s \<Longrightarrow> chans s c = Some ch \<Longrightarrow> chan_inv ch' = chan_inv ch \<Longrightarrow> chan_msgs ch' = chan_msgs ch \<Longrightarrow>
   fifo_inv (s\<lparr>chans := (chans s)(c \<mapsto> ch')\<rparr>)"
  by (auto simp: fifo_inv_def)

lemma simple_step_fifo:
  assumes "simple_step ok i cl p s = Some (s', c, ws)" "fifo_inv s"
  shows "fifo_inv s'"
proof (cases p)
  case Entry
  then show ?thesis
    using assms run_section_fifo [where posts = is_post, OF assms(2) _ good_entry]
    by (auto simp: simple_step_def bind_eq_Some_conv intro!: after_section_fifo)
next
  case (Resume r)
  then show ?thesis
    using assms run_section_fifo [where posts = is_post, OF assms(2) _ good_resume]
    by (auto simp: simple_step_def bind_eq_Some_conv intro!: after_section_fifo)
next
  case (Posting ps st)
  then show ?thesis using assms
    by (auto simp: simple_step_def bind_eq_Some_conv post_step_fifo split: list.splits)
qed (use assms in \<open>simp_all add: simple_step_def\<close>)

lemma select_step_fifo:
  assumes "select_step ok i es sem p s = Some (s', c, ws)" "fifo_inv s"
  shows "fifo_inv s'"
proof (cases p)
  case (SelScan k)
  then show ?thesis
    using assms run_section_fifo [where posts = is_select_post, OF assms(2) _ good_select_entry]
    by (auto simp: select_step_def bind_eq_Some_conv intro!: after_select_fifo split: if_splits)
next
  case (SelResume k r)
  then show ?thesis
    using assms run_section_fifo [where posts = is_select_post, OF assms(2) _ good_select_resume]
    by (auto simp: select_step_def bind_eq_Some_conv intro!: after_select_fifo split: if_splits)
qed (use assms in \<open>auto simp: select_step_def bind_eq_Some_conv post_step_fifo fifo_inv_selectors Let_def
       split: list.splits if_splits\<close>)

lemma thread_step_fifo:
  assumes step: "thread_step ok i s = Some (s', c, ws)" and inv: "fifo_inv s"
  shows "fifo_inv s'"
proof -
  have "fifo_inv s'" if "destroy_step i d s = Some (s', c, ws)" for d
    using that inv by (auto simp: destroy_step_def channel_destroy_def bind_eq_Some_conv fifo_inv_def set_thread_def split: if_splits)
  then show ?thesis
    using step inv simple_step_fifo select_step_fifo
    by (auto simp: thread_step_def Let_def split: pc.splits call.splits)
qed

lemma sys_step_fifo: "sys_step s s' \<Longrightarrow> fifo_inv s \<Longrightarrow> fifo_inv s'"
  by (induction rule: sys_step.induct) (auto dest: thread_step_fifo)

lemma created_inv: "created ch \<Longrightarrow> chan_inv ch \<and> chan_msgs ch = []"
proof -
  assume "created ch"
  then obtain sz where sz: "unat sz < 2 ^ 61" "channel_create True True True True True sz = Some (Some ch)"
    by (auto simp: created_def)
  obtain b :: "msg buffer" where "buffer_create True True sz = Some b" "buffer_inv b" "contents b = []"
    using buffer_create_ok [OF sz(1), where 'a = msg] by blast
  then show ?thesis using sz(2)
    by (cases "sz = 0") (auto simp: channel_create_def chan_inv_def chan_msgs_def)
qed

lemma reachable_fifo:
  assumes "reachable s0 s" "sys_init s0"
  shows "fifo_inv s"
  using assms(1)
proof (induction rule: reachable_induct)
  case start
  then show ?case using assms(2) created_inv by (auto simp: sys_init_def fifo_inv_def)
qed (rule sys_step_fifo)

subsection \<open>No step is undefined\<close>

text \<open>
  Where a call can be: the resume points and loop indices are those of its own code, and the
  loop of a blocking operation on the buffer is reached on buffered channels only.
\<close>

definition is_blocking :: "call \<Rightarrow> bool" where
  "is_blocking cl \<longleftrightarrow> (case cl of Send c a \<Rightarrow> True | Receive c a \<Rightarrow> True | _ \<Rightarrow> False)"

definition is_nonblocking :: "call \<Rightarrow> bool" where
  "is_nonblocking cl \<longleftrightarrow> (case cl of NonBlockSend c a \<Rightarrow> True | NonBlockReceive c a \<Rightarrow> True | _ \<Rightarrow> False)"

definition resume_ok :: "call \<Rightarrow> resume \<Rightarrow> bool \<Rightarrow> bool" where
  "resume_ok cl r unbuf \<longleftrightarrow> (is_blocking cl \<or> is_nonblocking cl) \<and> (r = BufRetry \<longleftrightarrow> \<not> unbuf) \<and>
     (r = BufRetry \<longrightarrow> is_blocking cl) \<and> (r = NonBlockRetry \<longrightarrow> is_nonblocking cl)"

definition wait_ok :: "call \<Rightarrow> cond \<Rightarrow> resume \<Rightarrow> bool \<Rightarrow> bool" where
  "wait_ok cl cv r unbuf \<longleftrightarrow> resume_ok cl r unbuf \<and>
     (r = BufRetry \<longrightarrow> cv = (case cl of Send c a \<Rightarrow> COND_NOT_FULL | _ \<Rightarrow> COND_NOT_EMPTY))"

definition ends_well :: "call \<Rightarrow> section_result \<Rightarrow> bool \<Rightarrow> bool" where
  "ends_well cl res unbuf \<longleftrightarrow>
     (\<exists>e nx. res = Some (e, nx) \<and> is_unbuffered (e_chan e) = unbuf \<and>
        (\<forall>cv r. nx = Wait cv r \<longrightarrow> wait_ok cl cv r unbuf))"

lemma sync_ends:
  assumes "chan_inv (e_chan e)" "is_unbuffered (e_chan e)" "is_blocking cl \<or> is_nonblocking cl"
  shows "ends_well cl (unbuffered_sync op a e) True"
  using assms
  by (auto simp: ends_well_def unbuffered_sync_def Let_def chan_inv_def wait_ok_def resume_ok_def add_waiting_def
      split: option.splits)

lemma sync_resume_ends:
  assumes "chan_inv (e_chan e)" "is_unbuffered (e_chan e)" "is_blocking cl \<or> is_nonblocking cl"
  shows "ends_well cl (unbuffered_sync_resume op a r e) True"
proof (cases "r = SyncDone")
  case True
  then show ?thesis using assms by (simp add: unbuffered_sync_resume_def ends_well_def)
next
  case False
  have "ends_well cl (unbuffered_sync op a (e\<lparr>e_chan := add_waiting op (- 1) (e_chan e)\<rparr>)) True"
    using assms by (intro sync_ends) (simp_all add: chan_inv_def add_waiting_def)
  then show ?thesis using False by (simp add: unbuffered_sync_resume_def)
qed

lemma send_loop_ends:
  assumes "chan_inv (e_chan e)" "\<not> is_unbuffered (e_chan e)"
  shows "ends_well (Send c a') (channel_send_loop a e) False"
  using assms(1)
proof (cases rule: chan_inv_cases)
  case (buf b)
  show ?thesis
    by (rule buffer_add_cases [OF buf(3), of "e_mem e a"])
      (use buf in \<open>simp_all add: channel_send_loop_def ends_well_def wait_ok_def resume_ok_def is_blocking_def\<close>)
qed (use assms in simp)

lemma receive_loop_ends:
  assumes "chan_inv (e_chan e)" "\<not> is_unbuffered (e_chan e)"
  shows "ends_well (Receive c a') (channel_receive_loop a e) False"
  using assms(1)
proof (cases rule: chan_inv_cases)
  case (buf b)
  show ?thesis
    by (rule buffer_remove_cases [OF buf(3)])
      (use buf in \<open>simp_all add: channel_receive_loop_def ends_well_def wait_ok_def resume_ok_def is_blocking_def\<close>)
qed (use assms in simp)

lemma return_ends: "ends_well cl (Some (e, Return st)) (is_unbuffered (e_chan e))"
  by (simp add: ends_well_def)

lemma nb_unbuf_ends:
  assumes "chan_inv (e_chan e)" "is_unbuffered (e_chan e)" "is_nonblocking cl"
  shows "ends_well cl (non_blocking_send_unbuf a e) True" "ends_well cl (non_blocking_receive_unbuf a e) True"
proof -
  have wait: "ends_well cl (Some (e, Wait cv NonBlockRetry)) True" for cv
    using assms by (simp add: ends_well_def wait_ok_def resume_ok_def)
  show "ends_well cl (non_blocking_send_unbuf a e) True" "ends_well cl (non_blocking_receive_unbuf a e) True"
    using assms wait sync_ends [OF assms(1,2)] return_ends [of cl e]
    by (simp_all add: non_blocking_send_unbuf_def non_blocking_receive_unbuf_def Let_def)
qed

lemma nb_buf_ends:
  assumes "chan_inv (e_chan e)" "\<not> is_unbuffered (e_chan e)"
  shows "ends_well cl (channel_non_blocking_send lock a e) False"
    "ends_well cl (channel_non_blocking_receive lock a e) False"
proof -
  obtain b where b: "ch_buffer (e_chan e) = Some b" "buffer_inv b"
    using assms by (cases rule: chan_inv_cases [OF assms(1)]) auto
  show "ends_well cl (channel_non_blocking_send lock a e) False"
    by (rule buffer_add_cases [OF b(2), of "e_mem e a"])
      (use assms b in \<open>simp_all add: channel_non_blocking_send_def ends_well_def\<close>)
  show "ends_well cl (channel_non_blocking_receive lock a e) False"
    by (rule buffer_remove_cases [OF b(2)])
      (use assms b in \<open>simp_all add: channel_non_blocking_receive_def ends_well_def\<close>)
qed

lemma entry_ends:
  assumes "chan_inv (e_chan e)" "\<forall>c. cl \<noteq> Destroy c" "\<forall>es sem. cl \<noteq> Select es sem"
  shows "ends_well cl (entry_section lock cl e) (is_unbuffered (e_chan e))"
proof (cases "is_unbuffered (e_chan e)")
  case True
  then show ?thesis
    using assms sync_ends [OF assms(1) True, of cl] nb_unbuf_ends [OF assms(1) True, of cl] return_ends [of cl e]
    by (cases cl) (simp_all add: channel_send_def channel_receive_def channel_non_blocking_send_def
        channel_non_blocking_receive_def channel_close_def is_blocking_def is_nonblocking_def ends_well_def)
next
  case False
  then show ?thesis
    using assms send_loop_ends [OF assms(1)] receive_loop_ends [OF assms(1)] nb_buf_ends [OF assms(1)] return_ends [of cl e]
    by (cases cl) (simp_all add: channel_send_def channel_receive_def channel_close_def ends_well_def)
qed

lemma resume_ends:
  assumes "chan_inv (e_chan e)" "resume_ok cl r (is_unbuffered (e_chan e))"
  shows "ends_well cl (resume_section cl r e) (is_unbuffered (e_chan e))"
proof (cases "is_unbuffered (e_chan e)")
  case True
  then show ?thesis
    using assms sync_resume_ends [OF assms(1) True, of cl] nb_unbuf_ends [OF assms(1) True, of cl]
    by (cases cl; cases r) (simp_all add: resume_ok_def is_blocking_def is_nonblocking_def)
next
  case False
  then show ?thesis
    using assms send_loop_ends [OF assms(1)] receive_loop_ends [OF assms(1)]
    by (cases cl; cases r) (simp_all add: resume_ok_def is_blocking_def)
qed

definition kinds :: "sys \<Rightarrow> nat \<rightharpoonup> bool" where
  "kinds s c = map_option is_unbuffered (chans s c)"

definition is_simple :: "call \<Rightarrow> bool" where
  "is_simple cl \<longleftrightarrow> (case cl of Destroy c \<Rightarrow> False | Select es sem \<Rightarrow> False | _ \<Rightarrow> True)"

definition thread_ok :: "(nat \<rightharpoonup> bool) \<Rightarrow> call \<Rightarrow> pc \<Rightarrow> (nat \<times> cond) option \<Rightarrow> bool" where
  "thread_ok K cl p w =
     (case p of
        Entry \<Rightarrow> w = None
      | Done st idx \<Rightarrow> w = None
      | Posting ps st \<Rightarrow> w = None \<and> is_simple cl
      | Resume r \<Rightarrow> is_simple cl \<and> (\<forall>c cv. w = Some (c, cv) \<longrightarrow> c = call_chan cl) \<and>
          (\<forall>u. K (call_chan cl) = Some u \<longrightarrow> resume_ok cl r u \<and> (\<forall>c cv. w = Some (c, cv) \<longrightarrow> wait_ok cl cv r u))
      | _ \<Rightarrow>
          (case cl of
             Select es sem \<Rightarrow>
               (case p of
                  SelResume k r \<Rightarrow> k < length es \<and> (\<forall>c cv. w = Some (c, cv) \<longrightarrow> c = sel_channel (es ! k)) \<and>
                    (\<forall>u. K (sel_channel (es ! k)) = Some u \<longrightarrow> u)
                | SelPosting k ps st \<Rightarrow> w = None \<and> k < length es
                | _ \<Rightarrow> w = None)
           | _ \<Rightarrow> False))"

lemma thread_ok_mono: "thread_ok K cl p w \<Longrightarrow> K' \<subseteq>\<^sub>m K \<Longrightarrow> thread_ok K' cl p w"
  by (auto simp: thread_ok_def map_le_def dom_def split: pc.splits call.splits)

lemma thread_ok_woken: "thread_ok K cl p w \<Longrightarrow> thread_ok K cl p None"
  by (auto simp: thread_ok_def split: pc.splits call.splits)

end
