(* ===== verification/Channel_Safe.thy ===== *)
theory Channel_Safe
  imports Channel_Fifo
begin

text \<open>
  From critical sections to the system: every thread of a reachable state is at a program
  point of its own call, waits on a condition variable of its own channel, and its next
  step is defined as long as the channels it uses have not been freed.
\<close>

definition all_ok :: "sys \<Rightarrow> bool" where
  "all_ok s \<longleftrightarrow> (\<forall>t \<in> set (threads s). thread_ok (kinds s) (t_call t) (t_pc t) (t_wait t))"

text \<open>A step of thread \<open>i\<close> that leaves it at a good program point and frees no channel.\<close>

definition good_step :: "nat \<Rightarrow> sys \<Rightarrow> call \<Rightarrow> sys \<Rightarrow> bool" where
  "good_step i s cl s' \<longleftrightarrow> kinds s' = kinds s \<and>
     (\<exists>p w. threads s' = (threads s)[i := (threads s ! i)\<lparr>t_pc := p, t_wait := w\<rparr>] \<and> thread_ok (kinds s) cl p w)"

lemma good_step_set [simp]:
  "good_step i s cl (set_thread i p w s') \<longleftrightarrow>
     kinds s' = kinds s \<and> (\<exists>p' w'. (threads s')[i := (threads s' ! i)\<lparr>t_pc := p, t_wait := w\<rparr>] =
         (threads s)[i := (threads s ! i)\<lparr>t_pc := p', t_wait := w'\<rparr>] \<and> thread_ok (kinds s) cl p' w')"
  by (simp add: good_step_def set_thread_def kinds_def fun_eq_iff)

lemma good_step_setI:
  "kinds s' = kinds s \<Longrightarrow> threads s' = threads s \<Longrightarrow> thread_ok (kinds s) cl p w \<Longrightarrow> good_step i s cl (set_thread i p w s')"
  by (simp add: good_step_def set_thread_def kinds_def fun_eq_iff) blast

lemma kinds_update [simp]:
  "chans s c = Some ch \<Longrightarrow> is_unbuffered ch' = is_unbuffered ch \<Longrightarrow>
   kinds (s\<lparr>chans := (chans s)(c \<mapsto> ch'), mem := m, sems := x\<rparr>) = kinds s"
  "chans s c = Some ch \<Longrightarrow> is_unbuffered ch' = is_unbuffered ch \<Longrightarrow> kinds (s\<lparr>chans := (chans s)(c \<mapsto> ch')\<rparr>) = kinds s"
  "kinds (s\<lparr>sems := x\<rparr>) = kinds s" "kinds (s\<lparr>threads := ts\<rparr>) = kinds s" "kinds (s\<lparr>mem := m\<rparr>) = kinds s"
  by (auto simp: kinds_def fun_eq_iff)

lemma log_kinds [simp]:
  "kinds (log_transfer d c a s) = kinds s" "threads (log_transfer d c a s) = threads s"
  "kinds (log_call cl s) = kinds s" "threads (log_call cl s) = threads s"
  by (cases cl; simp add: log_transfer_def kinds_def fun_eq_iff)+

lemma run_section_total:
  assumes inv: "fifo_inv s" and ch: "chans s c = Some ch"
    and f: "\<And>e. e_chan e = ch \<Longrightarrow> chan_inv ch \<Longrightarrow> \<exists>e' nx. f e = Some (e', nx) \<and> is_unbuffered (e_chan e') = is_unbuffered ch \<and> P nx"
  obtains s' ws nx where "run_section c f s = Some (s', ws, nx)" "kinds s' = kinds s" "threads s' = threads s" "P nx"
proof -
  let ?e = "\<lparr>e_chan = ch, e_mem = mem s, e_sems = sems s, e_wakes = []\<rparr>"
  have "chan_inv ch" using inv ch by (simp add: fifo_inv_def)
  then obtain e' nx where "f ?e = Some (e', nx)" "is_unbuffered (e_chan e') = is_unbuffered ch" "P nx"
    using f [of ?e] by auto
  then show ?thesis
    using that [of "s\<lparr>chans := (chans s)(c \<mapsto> e_chan e'), mem := e_mem e', sems := e_sems e'\<rparr>" "e_wakes e'" nx] ch
    by (simp add: run_section_def)
qed

lemma after_section_ok:
  assumes "is_simple cl" "kinds s' = kinds s" "threads s' = threads s"
    "\<forall>cv r. nx = Wait cv r \<longrightarrow> (\<forall>u. kinds s (call_chan cl) = Some u \<longrightarrow> wait_ok cl cv r u)"
  shows "good_step i s cl (after_section i cl nx s')"
  using assms
  by (cases nx) (auto intro!: good_step_setI simp del: good_step_set simp: thread_ok_def wait_ok_def)

lemma simple_step_total:
  assumes inv: "fifo_inv s" and ok: "thread_ok (kinds s) cl p w" and simple: "is_simple cl"
    and ch: "chans s (call_chan cl) = Some ch" and p: "\<forall>st idx. p \<noteq> Done st idx"
  shows "\<exists>s' c ws. simple_step lk i cl p s = Some (s', c, ws) \<and> good_step i s cl s'"
proof -
  have k: "kinds s (call_chan cl) = Some (is_unbuffered ch)" using ch by (simp add: kinds_def)
  have sect: "\<exists>s' ws nx. run_section (call_chan cl) f s = Some (s', ws, nx) \<and>
      good_step i s cl (after_section i cl nx s')"
    if f: "\<And>e. chan_inv (e_chan e) \<Longrightarrow> e_chan e = ch \<Longrightarrow> ends_well cl (f e) (is_unbuffered ch)" for f
  proof -
    have "\<exists>e' nx. f e = Some (e', nx) \<and> is_unbuffered (e_chan e') = is_unbuffered ch \<and>
        (\<forall>cv r. nx = Wait cv r \<longrightarrow> wait_ok cl cv r (is_unbuffered ch))" if "e_chan e = ch" "chan_inv ch" for e
      using f [of e] that by (simp add: ends_well_def)
    then obtain s' ws nx where
      "run_section (call_chan cl) f s = Some (s', ws, nx)" "kinds s' = kinds s" "threads s' = threads s"
      "\<forall>cv r. nx = Wait cv r \<longrightarrow> wait_ok cl cv r (is_unbuffered ch)"
      by (rule run_section_total [OF inv ch, where f = f and
            P = "\<lambda>nx. \<forall>cv r. nx = Wait cv r \<longrightarrow> wait_ok cl cv r (is_unbuffered ch)"]) auto
    then show ?thesis using after_section_ok [OF simple, of s' s nx i] k by auto
  qed
  have nd: "\<forall>c. cl \<noteq> Destroy c" "\<forall>es sem. cl \<noteq> Select es sem" using simple by (auto simp: is_simple_def)
  show ?thesis
  proof (cases p)
    case Entry
    then show ?thesis
      using sect [of "entry_section lk cl"] entry_ends [OF _ nd] by (fastforce simp: simple_step_def)
  next
    case (Resume r)
    then have "resume_ok cl r (is_unbuffered ch)" using ok k by (simp add: thread_ok_def)
    then show ?thesis
      using sect [of "resume_section cl r"] resume_ends Resume by (fastforce simp: simple_step_def)
  next
    case (Posting ps st)
    then show ?thesis
      using ch simple by (cases ps) (auto simp: simple_step_def post_step_def thread_ok_def simp del: good_step_set
          intro!: good_step_setI split: post.splits)
  qed (use p ok simple in \<open>auto simp: thread_ok_def is_simple_def split: call.splits\<close>)
qed

subsection \<open>Select\<close>

definition select_ends :: "(env \<times> select_next) option \<Rightarrow> bool \<Rightarrow> bool" where
  "select_ends res unbuf \<longleftrightarrow>
     (\<exists>e nx. res = Some (e, nx) \<and> is_unbuffered (e_chan e) = unbuf \<and> (\<forall>cv r. nx = SelectWait cv r \<longrightarrow> unbuf))"

lemma select_outcome_ends:
  "ends_well cl res unbuf \<Longrightarrow> unbuf \<or> is_nonblocking cl \<Longrightarrow> \<not> is_blocking cl \<or> unbuf \<Longrightarrow>
   select_ends (map_option (apsnd select_outcome) res) unbuf \<and> select_ends (select_buffered res) unbuf"
proof -
  assume "ends_well cl res unbuf" and cl: "unbuf \<or> is_nonblocking cl" "\<not> is_blocking cl \<or> unbuf"
  then obtain e nx where res: "res = Some (e, nx)" "is_unbuffered (e_chan e) = unbuf"
    and wait: "\<forall>cv r. nx = Wait cv r \<longrightarrow> wait_ok cl cv r unbuf"
    by (auto simp: ends_well_def)
  have "\<forall>cv r. nx = Wait cv r \<longrightarrow> unbuf" using wait cl by (auto simp: wait_ok_def resume_ok_def)
  then show ?thesis
    using res by (cases nx) (simp_all add: select_ends_def select_buffered_def)
qed

lemma select_entry_ends:
  assumes "chan_inv (e_chan e)"
  shows "select_ends (channel_select_entry lock x e) (is_unbuffered (e_chan e))"
proof -
  let ?cl = "NonBlockSend 0 0"
  have nb: "is_nonblocking ?cl" "\<not> is_blocking ?cl" by (simp_all add: is_nonblocking_def is_blocking_def)
  have const: "select_ends (Some (e, Leave st b)) (is_unbuffered (e_chan e))"
    "select_ends (Some (e, Continue)) (is_unbuffered (e_chan e))" for st b
    by (simp_all add: select_ends_def)
  show ?thesis
  proof (cases "is_unbuffered (e_chan e)")
    case True
    then have "select_ends (map_option (apsnd select_outcome) (unbuffered_sync op (sel_data x) e)) True" for op
      using select_outcome_ends [of ?cl _ True] sync_ends [OF assms True, of ?cl] nb by blast
    then show ?thesis using True const by (simp add: channel_select_entry_def select_unbuffered_def Let_def)
  next
    case False
    then show ?thesis
      using select_outcome_ends [of ?cl _ False] nb_buf_ends [OF assms False, of ?cl] nb
      by (simp add: channel_select_entry_def)
  qed
qed

lemma select_resume_ends:
  assumes "chan_inv (e_chan e)" "is_unbuffered (e_chan e)"
  shows "select_ends (select_resume x r e) True"
  unfolding select_resume_def
  using select_outcome_ends [of "NonBlockSend 0 0" _ True] sync_resume_ends [OF assms, of "NonBlockSend 0 0"]
  by (simp add: is_nonblocking_def is_blocking_def)

lemma after_select_ok:
  assumes "k < length es" "kinds s' = kinds s" "threads s' = threads s"
    "\<forall>cv r. nx = SelectWait cv r \<longrightarrow> kinds s (sel_channel (es ! k)) = Some True"
  shows "good_step i s (Select es sem) (after_select i k (es ! k) nx s')"
  using assms
  by (cases nx) (auto intro!: good_step_setI simp del: good_step_set simp: thread_ok_def)

lemma select_section_total:
  assumes inv: "fifo_inv s" and k: "k < length es" and ch: "chans s (sel_channel (es ! k)) = Some ch"
    and f: "\<And>e. chan_inv (e_chan e) \<Longrightarrow> e_chan e = ch \<Longrightarrow> select_ends (f e) (is_unbuffered ch)"
  shows "\<exists>s' ws nx. run_section (sel_channel (es ! k)) f s = Some (s', ws, nx) \<and>
    good_step i s (Select es sem) (after_select i k (es ! k) nx s')"
proof -
  have "\<exists>e' nx. f e = Some (e', nx) \<and> is_unbuffered (e_chan e') = is_unbuffered ch \<and>
      (\<forall>cv r. nx = SelectWait cv r \<longrightarrow> is_unbuffered ch)" if "e_chan e = ch" "chan_inv ch" for e
    using f [of e] that by (simp add: select_ends_def)
  then obtain s' ws nx where "run_section (sel_channel (es ! k)) f s = Some (s', ws, nx)"
    "kinds s' = kinds s" "threads s' = threads s" "\<forall>cv r. nx = SelectWait cv r \<longrightarrow> is_unbuffered ch"
    by (rule run_section_total [OF inv ch, where f = f and P = "\<lambda>nx. \<forall>cv r. nx = SelectWait cv r \<longrightarrow> is_unbuffered ch"]) auto
  then show ?thesis using after_select_ok [OF k, of s' s nx i sem] ch by (auto simp: kinds_def)
qed

lemma selector_unbuffered [simp]:
  "is_unbuffered (init_select_step ok e sem ch) = is_unbuffered ch"
  "is_unbuffered (cleanup_select_step e sem ch) = is_unbuffered ch"
  by (simp_all add: init_select_step_def cleanup_select_step_def add_select_sender_def add_select_receiver_def
      remove_select_sender_def remove_select_receiver_def)

lemma select_step_total:
  assumes inv: "fifo_inv s" and ok: "thread_ok (kinds s) (Select es sem) p w"
    and ch: "\<forall>c \<in> sel_channel ` set es. chans s c \<noteq> None" and p: "\<forall>st idx. p \<noteq> Done st idx"
    and t: "i < length (threads s)"
      "t_pc (threads s ! i) = p" "t_wait (threads s ! i) = w" "w = None"
  shows "\<exists>s' c ws. select_step lk i es sem p s = Some (s', c, ws) \<and> good_step i s (Select es sem) s'"
proof -
  have ex: "\<exists>ch. chans s (sel_channel (es ! k)) = Some ch" if "k < length es" for k using ch that by auto
  note set_intros = good_step_setI [where s = s]
  show ?thesis
  proof (cases p)
    case (SelScan k)
    show ?thesis
    proof (cases "k < length es")
      case True
      obtain c where c: "chans s (sel_channel (es ! k)) = Some c" using ex True by blast
      show ?thesis
        using select_section_total [OF inv True c, of "channel_select_entry lk (es ! k)" i sem] select_entry_ends SelScan True
        by (fastforce simp: select_step_def)
    qed (use SelScan in \<open>auto simp: select_step_def thread_ok_def simp del: good_step_set intro!: set_intros\<close>)
  next
    case (SelResume k r)
    then have k: "k < length es" using ok by (simp add: thread_ok_def)
    obtain c where c: "chans s (sel_channel (es ! k)) = Some c" using ex k by blast
    have u: "is_unbuffered c" using ok SelResume c by (simp add: thread_ok_def kinds_def)
    show ?thesis
      using select_section_total [OF inv k c, of "select_resume (es ! k) r" i sem] select_resume_ends u SelResume k
      by (fastforce simp: select_step_def)
  next
    case (SelInit k)
    show ?thesis
    proof (cases "k < length es")
      case True
      then show ?thesis using ex [OF True] SelInit
        by (auto simp: select_step_def thread_ok_def simp del: good_step_set intro!: set_intros)
    qed (use SelInit in \<open>auto simp: select_step_def thread_ok_def simp del: good_step_set intro!: set_intros\<close>)
  next
    case (SelCleanup k st idx)
    show ?thesis
    proof (cases "k < length es")
      case True
      then show ?thesis using ex [OF True] SelCleanup
        by (auto simp: select_step_def thread_ok_def simp del: good_step_set intro!: set_intros)
    qed (use SelCleanup in \<open>auto simp: select_step_def thread_ok_def simp del: good_step_set intro!: set_intros\<close>)
  next
    case (SelPosting k ps st)
    then have k: "k < length es" using ok by (simp add: thread_ok_def)
    then show ?thesis using ex [OF k] SelPosting
      by (cases ps) (auto simp: select_step_def post_step_def thread_ok_def simp del: good_step_set
          intro!: set_intros split: post.splits)
  next
    case SelWait
    have same: "good_step i s (Select es sem) s"
    proof -
      have "threads s ! i = (threads s ! i)\<lparr>t_pc := SelWait, t_wait := None\<rparr>" using t SelWait by simp
      then have "threads s = (threads s)[i := (threads s ! i)\<lparr>t_pc := SelWait, t_wait := None\<rparr>]"
        by (metis list_update_id)
      then show ?thesis
        unfolding good_step_def by (intro conjI exI [of _ SelWait] exI [of _ None]) (simp_all add: thread_ok_def)
    qed
    show ?thesis
    proof (cases "sems s sem > 0")
      case True
      then show ?thesis using SelWait
        by (auto simp: select_step_def thread_ok_def simp del: good_step_set intro!: set_intros)
    qed (use SelWait same in \<open>simp add: select_step_def\<close>)
  next
    case Entry
    then show ?thesis by (auto simp: select_step_def thread_ok_def simp del: good_step_set intro!: set_intros)
  qed (use ok p in \<open>auto simp: thread_ok_def is_simple_def\<close>)
qed

subsection \<open>Reachable states\<close>

lemma thread_step_dispatch:
  "t_pc (threads s ! i) = p \<Longrightarrow> \<forall>st idx. p \<noteq> Done st idx \<Longrightarrow>
   thread_step ok i s = (case t_call (threads s ! i) of
      Select es sem \<Rightarrow> select_step ok i es sem p s
    | Destroy c \<Rightarrow> destroy_step i c s
    | cl \<Rightarrow> simple_step ok i cl p s)"
  by (cases p; cases "t_call (threads s ! i)") (simp_all add: thread_step_def Let_def)

text \<open>A running thread whose channels exist (and that does not destroy one) steps, and well.\<close>

lemma thread_step_total:
  assumes inv: "fifo_inv s" and ok: "all_ok s" and i: "i < length (threads s)" "t_wait (threads s ! i) = None"
    and live: "\<forall>c \<in> refs (t_call (threads s ! i)). chans s c \<noteq> None"
    and nd: "\<forall>c. t_call (threads s ! i) \<noteq> Destroy c" and p: "\<forall>st idx. t_pc (threads s ! i) \<noteq> Done st idx"
  shows "\<exists>s' c ws. thread_step lk i s = Some (s', c, ws) \<and> good_step i s (t_call (threads s ! i)) s'"
proof -
  let ?t = "threads s ! i"
  have tok: "thread_ok (kinds s) (t_call ?t) (t_pc ?t) (t_wait ?t)" using ok i(1) by (simp add: all_ok_def)
  show ?thesis
  proof (cases "\<exists>es sem. t_call ?t = Select es sem")
    case True
    then obtain es sem where cl: "t_call ?t = Select es sem" by blast
    show ?thesis
      using select_step_total [OF inv, of es sem "t_pc ?t" "t_wait ?t" i lk] tok live p i cl
      by (simp add: thread_step_dispatch [OF refl p])
  next
    case False
    then have simple: "is_simple (t_call ?t)" using nd by (auto simp: is_simple_def split: call.splits)
    have ref: "refs (t_call ?t) = {call_chan (t_call ?t)}" using False by (cases "t_call ?t") auto
    then obtain ch where ch: "chans s (call_chan (t_call ?t)) = Some ch" using live by auto
    have "thread_step lk i s = simple_step lk i (t_call ?t) (t_pc ?t) s"
      using simple by (simp add: thread_step_dispatch [OF refl p] is_simple_def split: call.splits)
    then show ?thesis using simple_step_total [OF inv tok simple ch p] by auto
  qed
qed

lemma good_step_all_ok:
  assumes "good_step i s (t_call (threads s ! i)) s'" "all_ok s" "i < length (threads s)"
  shows "all_ok s'"
  using assms by (auto simp: all_ok_def good_step_def dest!: subsetD [OF set_update_subset_insert])

lemma wake_step_ok:
  "wake_step c w ts ts' \<Longrightarrow> \<forall>t \<in> set ts. thread_ok K (t_call t) (t_pc t) (t_wait t) \<Longrightarrow>
   \<forall>t \<in> set ts'. thread_ok K (t_call t) (t_pc t) (t_wait t)"
proof (induction rule: wake_step.induct)
  case (signal j ts c cv)
  then have "thread_ok K (t_call (ts ! j)) (t_pc (ts ! j)) None" using nth_mem thread_ok_woken by blast
  then show ?case using signal by (auto dest!: subsetD [OF set_update_subset_insert])
qed (auto simp: unblock_def thread_ok_woken)

lemma wake_steps_ok:
  "wake_steps c ws ts ts' \<Longrightarrow> \<forall>t \<in> set ts. thread_ok K (t_call t) (t_pc t) (t_wait t) \<Longrightarrow>
   \<forall>t \<in> set ts'. thread_ok K (t_call t) (t_pc t) (t_wait t)"
  by (induction rule: wake_steps.induct) (use wake_step_ok in blast)+

lemma all_ok_threads:
  "wake_steps c ws (threads s) ts \<Longrightarrow> all_ok s \<Longrightarrow> all_ok (s\<lparr>threads := ts\<rparr>)"
  using wake_steps_ok by (simp add: all_ok_def)

lemma destroy_step_ok:
  assumes "destroy_step i c s = Some (s', d, ws)" "all_ok s"
  shows "all_ok s'"
proof -
  obtain ch st ch' where s': "s' = set_thread i (Done st None) None (s\<lparr>chans := (chans s)(c := ch')\<rparr>)"
    "chans s c = Some ch" "ch' = None \<or> ch' = Some ch"
    using assms(1) by (auto simp: destroy_step_def channel_destroy_def bind_eq_Some_conv split: if_splits)
  have k: "kinds s' \<subseteq>\<^sub>m kinds s" using s' by (auto simp: kinds_def map_le_def set_thread_def)
  have "thread_ok (kinds s) (t_call t) (t_pc t) (t_wait t)" if "t \<in> set (threads s')" for t
    using that s'(1) assms(2)
    by (auto simp: set_thread_def all_ok_def thread_ok_def dest!: subsetD [OF set_update_subset_insert])
  then show ?thesis using thread_ok_mono [OF _ k] by (auto simp: all_ok_def)
qed

lemma thread_step_ok:
  assumes step: "thread_step lk i s = Some (s', c, ws)" and inv: "fifo_inv s" and ok: "all_ok s"
    and i: "i < length (threads s)" "t_wait (threads s ! i) = None"
    and live: "\<forall>c \<in> refs (t_call (threads s ! i)). chans s c \<noteq> None"
  shows "all_ok s'"
proof (cases "\<exists>st idx. t_pc (threads s ! i) = Done st idx")
  case True
  then show ?thesis using step ok by (auto simp: thread_step_def Let_def)
next
  case False
  show ?thesis
  proof (cases "\<exists>d. t_call (threads s ! i) = Destroy d")
    case True
    then show ?thesis using step ok False destroy_step_ok by (auto simp: thread_step_dispatch [OF refl])
  next
    case nd: False
    then obtain s'' c' ws' where "thread_step lk i s = Some (s'', c', ws')"
      "good_step i s (t_call (threads s ! i)) s''"
      using thread_step_total [OF inv ok i live] False by blast
    then show ?thesis using step good_step_all_ok ok i(1) by auto
  qed
qed

definition use_ok :: "sys \<Rightarrow> bool" where
  "use_ok s \<longleftrightarrow>
     (\<forall>j < length (threads s). in_call (threads s ! j) \<longrightarrow>
        refs (t_call (threads s ! j)) \<subseteq> dom (chans s) \<and>
        (\<forall>k < length (threads s). k \<noteq> j \<longrightarrow> in_call (threads s ! k) \<longrightarrow>
           destroys (t_call (threads s ! j)) \<inter> refs (t_call (threads s ! k)) = {}))"

text \<open>Only \<open>in_call\<close>, the calls and the domain of the channels matter.\<close>

lemma use_ok_cong:
  assumes "use_ok s" "length (threads s') = length (threads s)" "dom (chans s') = dom (chans s)"
    "\<And>j. j < length (threads s) \<Longrightarrow> t_call (threads s' ! j) = t_call (threads s ! j) \<and>
       (in_call (threads s' ! j) \<longrightarrow> in_call (threads s ! j))"
  shows "use_ok s'"
  using assms unfolding use_ok_def by (metis (no_types, lifting))

lemma wake_step_calls:
  "wake_step c w ts ts' \<Longrightarrow> length ts' = length ts \<and>
   (\<forall>j < length ts. t_call (ts' ! j) = t_call (ts ! j) \<and> t_pc (ts' ! j) = t_pc (ts ! j))"
  by (induction rule: wake_step.induct) (auto simp: unblock_def nth_list_update)

lemma wake_steps_calls:
  "wake_steps c ws ts ts' \<Longrightarrow> length ts' = length ts \<and>
   (\<forall>j < length ts. t_call (ts' ! j) = t_call (ts ! j) \<and> t_pc (ts' ! j) = t_pc (ts ! j))"
proof (induction rule: wake_steps.induct)
  case (wake_cons c w ts ts' ws ts'')
  then show ?case using wake_step_calls [OF wake_cons.hyps(1)] by simp
qed simp

lemma use_ok_woken:
  assumes "wake_steps c ws (threads s) ts" "use_ok s"
  shows "use_ok (s\<lparr>threads := ts\<rparr>)"
  by (rule use_ok_cong [OF assms(2)]) (use wake_steps_calls [OF assms(1)] in \<open>auto simp: in_call_def\<close>)

lemma kinds_dom: "kinds s' = kinds s \<Longrightarrow> dom (chans s') = dom (chans s)"
  unfolding kinds_def dom_def fun_eq_iff by (metis option.map_disc_iff)

lemma use_ok_step:
  assumes step: "thread_step lk i s = Some (s', c, ws)" and inv: "fifo_inv s" and ok: "all_ok s"
    and use: "use_ok s" and i: "i < length (threads s)" "t_wait (threads s ! i) = None"
  shows "use_ok s' \<and> all_ok s'"
proof (cases "\<exists>st idx. t_pc (threads s ! i) = Done st idx")
  case True
  then show ?thesis using step ok use by (auto simp: thread_step_def Let_def)
next
  case False
  then have call: "in_call (threads s ! i)" by (simp add: in_call_def split: pc.splits)
  then have live: "\<forall>c \<in> refs (t_call (threads s ! i)). chans s c \<noteq> None"
    using use i by (auto simp: use_ok_def subset_iff domIff)
  have all: "all_ok s'" by (rule thread_step_ok [OF step inv ok i live])
  show ?thesis
  proof (cases "\<exists>d. t_call (threads s ! i) = Destroy d")
    case True
    then obtain d where d: "t_call (threads s ! i) = Destroy d" by blast
    then have "destroy_step i d s = Some (s', c, ws)" using step False by (simp add: thread_step_dispatch [OF refl])
    then obtain st ch' where s': "s' = set_thread i (Done st None) None (s\<lparr>chans := (chans s)(d := ch')\<rparr>)"
      by (auto simp: destroy_step_def bind_eq_Some_conv)
    have "d \<notin> refs (t_call (threads s ! k))" if "k < length (threads s)" "k \<noteq> i" "in_call (threads s ! k)" for k
      using use i call d that by (fastforce simp: use_ok_def)
    then have "use_ok s'"
      using use i s' by (auto simp: use_ok_def set_thread_def nth_list_update in_call_def)
    then show ?thesis using all by simp
  next
    case nd: False
    then obtain s'' c' ws' where "thread_step lk i s = Some (s'', c', ws')"
      "good_step i s (t_call (threads s ! i)) s''"
      using thread_step_total [OF inv ok i live] False by blast
    then have good: "good_step i s (t_call (threads s ! i)) s'" using step by simp
    then obtain p w where "threads s' = (threads s)[i := (threads s ! i)\<lparr>t_pc := p, t_wait := w\<rparr>]"
      by (auto simp: good_step_def)
    then have "use_ok s'"
      using kinds_dom [of s' s] good call i(1)
      by (intro use_ok_cong [OF use]) (simp_all add: good_step_def nth_list_update del: good_step_set, use call in auto)
    then show ?thesis using all by simp
  qed
qed

lemma new_call_ok:
  assumes use: "use_ok s" and ok: "all_ok s" and i: "i < length (threads s)" "t_pc (threads s ! i) = Done st idx"
    and cl: "client_ok s cl"
  shows "use_ok (s\<lparr>threads := (threads s)[i := \<lparr>t_call = cl, t_pc = Entry, t_wait = None\<rparr>]\<rparr>) \<and>
    all_ok (s\<lparr>threads := (threads s)[i := \<lparr>t_call = cl, t_pc = Entry, t_wait = None\<rparr>]\<rparr>)"
proof
  have other: "destroys (t_call (threads s ! k)) \<inter> refs cl = {} \<and> destroys cl \<inter> refs (t_call (threads s ! k)) = {}"
    if "k < length (threads s)" "in_call (threads s ! k)" for k
    using cl that by (simp add: client_ok_def)
  have "refs cl \<subseteq> dom (chans s)" using cl by (simp add: client_ok_def)
  then show "use_ok (s\<lparr>threads := (threads s)[i := \<lparr>t_call = cl, t_pc = Entry, t_wait = None\<rparr>]\<rparr>)"
    using use other i unfolding use_ok_def by (simp add: nth_list_update)
  show "all_ok (s\<lparr>threads := (threads s)[i := \<lparr>t_call = cl, t_pc = Entry, t_wait = None\<rparr>]\<rparr>)"
    using ok by (auto simp: all_ok_def thread_ok_def dest!: subsetD [OF set_update_subset_insert])
qed

lemma sys_step_ok: "sys_step s s' \<Longrightarrow> fifo_inv s \<Longrightarrow> all_ok s \<and> use_ok s \<Longrightarrow> all_ok s' \<and> use_ok s'"
proof (induction rule: sys_step.induct)
  case (run i s lk s' c ws ts)
  then have "use_ok s' \<and> all_ok s'" using use_ok_step by blast
  then show ?case using use_ok_woken all_ok_threads run.hyps(4) by blast
next
  case (spurious i s)
  then have "thread_ok (kinds s) (t_call (threads s ! i)) (t_pc (threads s ! i)) None"
    using thread_ok_woken nth_mem by (fastforce simp: all_ok_def)
  moreover have "use_ok (s\<lparr>threads := (threads s)[i := (threads s ! i)\<lparr>t_wait := None\<rparr>]\<rparr>)"
    by (rule use_ok_cong [of s]) (use spurious in \<open>simp_all add: nth_list_update in_call_def\<close>)
  ultimately show ?case using spurious
    by (auto simp: all_ok_def dest!: subsetD [OF set_update_subset_insert])
next
  case (store s a v)
  then show ?case by (auto simp: all_ok_def intro: use_ok_cong [of s])
next
  case (new_call i s st idx cl)
  then show ?case using new_call_ok by blast
qed

lemma reachable_ok:
  assumes "reachable s0 s" "sys_init s0"
  shows "all_ok s \<and> use_ok s"
  using assms(1)
proof (induction rule: reachable_induct)
  case start
  have "\<not> in_call t" if "t \<in> set (threads s0)" for t using assms(2) that by (auto simp: sys_init_def in_call_def)
  then show ?case using assms(2) by (fastforce simp: sys_init_def all_ok_def use_ok_def thread_ok_def)
next
  case (steps s s')
  then show ?case using sys_step_ok reachable_fifo assms(2) by blast
qed

end
