(* ===== verification/Channel_Live.thy ===== *)
theory Channel_Live
  imports Channel_Safe
begin

text \<open>
  No wakeup is lost on a buffered channel. A thread waits for a message (or for room) only
  while the channel is open and has none, or while a notification is still on its way: for
  every message that could be taken there is a pending signal or a woken receiver (a
  token), and a pending broadcast if the channel was closed. The proof counts tokens and
  shows that every step of the system keeps the balance.
\<close>

subsection \<open>Tokens\<close>

fun thread_posts :: "call \<Rightarrow> pc \<Rightarrow> nat \<Rightarrow> post list" where
  "thread_posts cl (Posting ps st) c = (if call_chan cl = c then ps else [])"
| "thread_posts (Select es sem) (SelPosting k ps st) c = (if sel_channel (es ! k) = c then ps else [])"
| "thread_posts cl p c = []"

definition retries :: "cond \<Rightarrow> nat \<Rightarrow> call \<Rightarrow> bool" where
  "retries cv c cl \<longleftrightarrow>
     (case cl of Send d a \<Rightarrow> d = c \<and> cv = COND_NOT_FULL | Receive d a \<Rightarrow> d = c \<and> cv = COND_NOT_EMPTY | _ \<Rightarrow> False)"

definition tok :: "nat \<Rightarrow> cond \<Rightarrow> thread \<Rightarrow> nat" where
  "tok c cv t = count_list (thread_posts (t_call t) (t_pc t) c) (Wake (Signal cv)) +
     (if t_wait t = None \<and> t_pc t = Resume BufRetry \<and> retries cv c (t_call t) then 1 else 0)"

definition bcast :: "nat \<Rightarrow> cond \<Rightarrow> thread \<Rightarrow> bool" where
  "bcast c cv t \<longleftrightarrow> Wake (Broadcast cv) \<in> set (thread_posts (t_call t) (t_pc t) c)"

text \<open>The balance, with \<open>k\<close> tokens in hand: \<open>A\<close> messages (or free places) are available.\<close>

definition balance :: "nat \<Rightarrow> nat \<Rightarrow> cond \<Rightarrow> nat \<Rightarrow> bool \<Rightarrow> thread list \<Rightarrow> bool" where
  "balance k c cv A closed ts \<longleftrightarrow>
     ((\<exists>t \<in> set ts. t_wait t = Some (c, cv)) \<longrightarrow>
        (\<exists>t \<in> set ts. bcast c cv t) \<or> \<not> closed \<and> A \<le> sum_list (map (tok c cv) ts) + k)"

lemma sum_list_update_nat:
  "i < length xs \<Longrightarrow> sum_list (xs[i := x]) + xs ! i = sum_list xs + (x :: nat)"
  by (induction xs arbitrary: i) (auto split: nat.split)

lemma Bex_nth: "(\<exists>t \<in> set ts. P t) \<longleftrightarrow> (\<exists>i < length ts. P (ts ! i))"
  by (auto simp: set_conv_nth)

lemma sum_tok_update:
  "i < length ts \<Longrightarrow> sum_list (map (tok c cv) (ts[i := t])) + tok c cv (ts ! i) = sum_list (map (tok c cv) ts) + tok c cv t"
  using sum_list_update_nat [of i "map (tok c cv) ts" "tok c cv t"] by (simp add: map_update)

text \<open>What a step of one running thread may do to the balance.\<close>

definition delta :: "nat \<Rightarrow> nat \<Rightarrow> cond \<Rightarrow> nat \<Rightarrow> bool \<Rightarrow> thread \<Rightarrow> nat \<Rightarrow> bool \<Rightarrow> thread \<Rightarrow> bool" where
  "delta k c cv A closed t A' closed' t' \<longleftrightarrow>
     (if t_wait t' = Some (c, cv) then A' = 0 \<and> \<not> closed'
      else (bcast c cv t \<longrightarrow> bcast c cv t') \<and> (closed' \<longrightarrow> closed \<or> bcast c cv t') \<and>
           (\<not> closed' \<longrightarrow> \<not> closed \<and> A' + tok c cv t \<le> A + tok c cv t' + k))"

lemma balance_update:
  assumes bal: "balance 0 c cv A closed ts" and i: "i < length ts" "t_wait (ts ! i) = None"
    and d: "delta k c cv A closed (ts ! i) A' closed' t'"
  shows "balance k c cv A' closed' (ts[i := t'])"
proof (cases "t_wait t' = Some (c, cv)")
  case True
  then show ?thesis using d by (simp add: balance_def delta_def)
next
  case False
  show ?thesis unfolding balance_def
  proof
    assume "\<exists>t \<in> set (ts[i := t']). t_wait t = Some (c, cv)"
    then obtain j where j: "j < length ts" "t_wait (ts[i := t'] ! j) = Some (c, cv)"
      by (metis in_set_conv_nth length_list_update)
    then have "j \<noteq> i" using False i by auto
    then have "t_wait (ts ! j) = Some (c, cv)" using j by simp
    then have "\<exists>t \<in> set ts. t_wait t = Some (c, cv)" using j(1) nth_mem by blast
    then consider (b) "\<exists>t \<in> set ts. bcast c cv t" | (n) "\<not> closed" "A \<le> sum_list (map (tok c cv) ts)"
      using bal by (auto simp: balance_def)
    then show "(\<exists>t \<in> set (ts[i := t']). bcast c cv t) \<or> \<not> closed' \<and> A' \<le> sum_list (map (tok c cv) (ts[i := t'])) + k"
    proof cases
      case b
      then obtain m where m: "m < length ts" "bcast c cv (ts ! m)" by (metis in_set_conv_nth)
      then have "bcast c cv (ts[i := t'] ! m)" using d False by (cases "m = i") (auto simp: delta_def)
      then show ?thesis using m(1) by (metis length_list_update nth_mem)
    next
      case n
      have "t' \<in> set (ts[i := t'])" using i(1) by (simp add: set_update_memI)
      then show ?thesis
        using n d False sum_tok_update [OF i(1), of c cv t'] by (cases "closed'") (auto simp: delta_def)
    qed
  qed
qed

subsection \<open>Wakeups\<close>

text \<open>Waking a thread that waits for \<open>(c, cv)\<close> on a buffered channel makes a token.\<close>

lemma tok_woken: "tok c cv t \<le> tok c cv (t\<lparr>t_wait := None\<rparr>)"
  by (simp add: tok_def)

lemma tok_woken_waiter:
  assumes "thread_ok K (t_call t) (t_pc t) (t_wait t)" "K c = Some False" "t_wait t = Some (c, cv)"
  shows "tok c cv (t\<lparr>t_wait := None\<rparr>) = Suc (tok c cv t)"
  using assms
  by (cases "t_pc t"; cases "t_call t")
    (auto simp: thread_ok_def tok_def wait_ok_def resume_ok_def retries_def is_blocking_def)

lemma bcast_woken [simp]: "bcast c cv (t\<lparr>t_wait := x\<rparr>) = bcast c cv t"
  by (simp add: bcast_def)

lemma ex_bcast_woken [simp]:
  "j < length ts \<Longrightarrow> (\<exists>t \<in> set (ts[j := (ts ! j)\<lparr>t_wait := x\<rparr>]). bcast c cv t) = (\<exists>t \<in> set ts. bcast c cv t)"
  unfolding Bex_nth by (rule ex_cong1) (auto simp: nth_list_update)

lemma balance_spurious:
  assumes bal: "balance k c cv A closed ts" and j: "j < length ts"
  shows "balance k c cv A closed (ts[j := (ts ! j)\<lparr>t_wait := None\<rparr>])"
proof -
  let ?ts = "ts[j := (ts ! j)\<lparr>t_wait := None\<rparr>]"
  have sum: "sum_list (map (tok c cv) ts) \<le> sum_list (map (tok c cv) ?ts)"
    using sum_tok_update [OF j, of c cv "(ts ! j)\<lparr>t_wait := None\<rparr>"] tok_woken [of c cv "ts ! j"] by simp
  have w: "\<exists>t \<in> set ts. t_wait t = Some (c, cv)" if "\<exists>t \<in> set ?ts. t_wait t = Some (c, cv)"
    using that by (auto dest!: subsetD [OF set_update_subset_insert])
  show ?thesis unfolding balance_def ex_bcast_woken [OF j]
  proof
    assume "\<exists>t \<in> set ?ts. t_wait t = Some (c, cv)"
    then show "(\<exists>t \<in> set ts. bcast c cv t) \<or> \<not> closed \<and> A \<le> sum_list (map (tok c cv) ?ts) + k"
      using bal w sum unfolding balance_def by fastforce
  qed
qed

lemma balance_signal:
  assumes bal: "balance 1 c cv A closed ts" and j: "j < length ts" "t_wait (ts ! j) = Some (c, cv)"
    and ok: "\<forall>t \<in> set ts. thread_ok K (t_call t) (t_pc t) (t_wait t)" "K c = Some False"
  shows "balance 0 c cv A closed (ts[j := (ts ! j)\<lparr>t_wait := None\<rparr>])"
proof -
  let ?ts = "ts[j := (ts ! j)\<lparr>t_wait := None\<rparr>]"
  have "tok c cv ((ts ! j)\<lparr>t_wait := None\<rparr>) = Suc (tok c cv (ts ! j))"
    by (rule tok_woken_waiter [of K]) (use ok(1) nth_mem [OF j(1)] in blast, fact ok(2), fact j(2))
  then have sum: "sum_list (map (tok c cv) ?ts) = Suc (sum_list (map (tok c cv) ts))"
    using sum_tok_update [OF j(1), of c cv "(ts ! j)\<lparr>t_wait := None\<rparr>"] by simp
  have "\<exists>t \<in> set ts. t_wait t = Some (c, cv)" using j nth_mem by blast
  then have "(\<exists>t \<in> set ts. bcast c cv t) \<or> \<not> closed \<and> A \<le> sum_list (map (tok c cv) ?ts)"
    using bal unfolding balance_def sum by simp
  then show ?thesis unfolding balance_def ex_bcast_woken [OF j(1)] by simp
qed

lemma balance_no_waiter: "\<forall>t \<in> set ts. t_wait t \<noteq> Some (c, cv) \<Longrightarrow> balance k c cv A closed ts"
  by (auto simp: balance_def)

lemma balance_unblock:
  assumes "balance k c cv A closed ts"
  shows "balance k c cv A closed (map (unblock c' cv') ts)"
proof -
  have sum: "sum_list (map (tok c cv) ts) \<le> sum_list (map (tok c cv) (map (unblock c' cv') ts))"
    using tok_woken by (auto intro!: sum_list_mono simp: unblock_def comp_def)
  have b: "(\<exists>t \<in> set (map (unblock c' cv') ts). bcast c cv t) = (\<exists>t \<in> set ts. bcast c cv t)"
    unfolding Bex_nth by (rule ex_cong1) (auto simp: unblock_def split: if_splits)
  show ?thesis unfolding balance_def b
  proof
    assume "\<exists>t \<in> set (map (unblock c' cv') ts). t_wait t = Some (c, cv)"
    then have "\<exists>t \<in> set ts. t_wait t = Some (c, cv)" by (auto simp: unblock_def split: if_splits)
    then show "(\<exists>t \<in> set ts. bcast c cv t) \<or> \<not> closed \<and> A \<le> sum_list (map (tok c cv) (map (unblock c' cv') ts)) + k"
      using assms sum unfolding balance_def by fastforce
  qed
qed

lemma balance_wake:
  assumes "wake_step d w ts ts'" "balance k c cv A closed ts"
  shows "balance k c cv A closed ts'"
  using assms by (cases rule: wake_step.cases) (auto intro: balance_spurious balance_unblock)

lemma balance_wakes:
  "wake_steps d ws ts ts' \<Longrightarrow> balance k c cv A closed ts \<Longrightarrow> balance k c cv A closed ts'"
  by (induction rule: wake_steps.induct) (auto intro: balance_wake)

subsection \<open>Sections on a buffered channel\<close>

definition avail :: "cond \<Rightarrow> channel_t \<Rightarrow> nat" where
  "avail cv ch =
     (case ch_buffer ch of
        None \<Rightarrow> 0
      | Some b \<Rightarrow> if cv = COND_NOT_EMPTY then length (contents b)
                  else if cv = COND_NOT_FULL then buffer_room b else 0)"

fun wait_cond :: "direction \<Rightarrow> cond" where
  "wait_cond SEND = COND_NOT_FULL"
| "wait_cond RECV = COND_NOT_EMPTY"

fun wake_cond :: "direction \<Rightarrow> cond" where
  "wake_cond SEND = COND_NOT_EMPTY"
| "wake_cond RECV = COND_NOT_FULL"

definition signals :: "direction \<Rightarrow> post list" where
  "signals d = [if d = SEND then NotifyReceivers else NotifySenders, Wake (Signal (wake_cond d))]"

text \<open>A section in direction \<open>d\<close>; \<open>retry\<close> says that it resumes in the loop of a blocking call.\<close>

definition buf_section :: "direction \<Rightarrow> bool \<Rightarrow> section_result \<Rightarrow> env \<Rightarrow> bool" where
  "buf_section d retry res e \<longleftrightarrow>
     (\<exists>e' nx. res = Some (e', nx) \<and> closed_flag (e_chan e') = closed_flag (e_chan e) \<and> e_wakes e' = e_wakes e \<and>
        (case nx of
           Return st \<Rightarrow> e_chan e' = e_chan e \<and> (retry \<longrightarrow> closed_flag (e_chan e))
         | Wait cv r \<Rightarrow> e_chan e' = e_chan e \<and> cv = wait_cond d \<and> avail cv (e_chan e) = 0 \<and> \<not> closed_flag (e_chan e)
         | Post ps st \<Rightarrow> ps = signals d \<and>
             avail (wait_cond d) (e_chan e) = Suc (avail (wait_cond d) (e_chan e')) \<and>
             avail (wake_cond d) (e_chan e') = Suc (avail (wake_cond d) (e_chan e))))"

lemma avail_buffer:
  assumes "buffer_inv b" "ch_buffer ch = Some b"
  shows "avail COND_NOT_EMPTY ch = unat (buf_size b)" "avail COND_NOT_FULL ch = unat (buf_capacity b) - unat (buf_size b)"
    "unat (buf_size b) \<le> unat (buf_capacity b)"
  using assms by (simp_all add: avail_def buffer_room_def buffer_inv_def)

lemma buffer_add_avail:
  assumes "buffer_inv b"
  obtains "buffer_add b v = Some (BUFFER_ERROR, b)" "unat (buf_size b) = unat (buf_capacity b)"
  | b' where "buffer_add b v = Some (BUFFER_SUCCESS, b')" "buffer_inv b'" "unat (buf_size b') = Suc (unat (buf_size b))"
      "buf_capacity b' = buf_capacity b" "unat (buf_size b) < unat (buf_capacity b)"
  using assms
proof (cases rule: buffer_add_cases [where v = v])
  case (2 b')
  have sz: "unat (buf_size b') = Suc (unat (buf_size b))" using arg_cong [OF 2(3), of length] by simp
  moreover have "unat (buf_size b') \<le> unat (buf_capacity b')" using 2(2) by (simp add: buffer_inv_def)
  ultimately show ?thesis using that(2) [of b'] 2(1,2,4) by simp
qed (use that in auto)

lemma buffer_remove_avail:
  assumes "buffer_inv b"
  obtains "buffer_remove b = Some (BUFFER_ERROR, None, b)" "unat (buf_size b) = 0"
  | v b' where "buffer_remove b = Some (BUFFER_SUCCESS, Some v, b')" "buffer_inv b'" "unat (buf_size b) = Suc (unat (buf_size b'))"
      "buf_capacity b' = buf_capacity b" "unat (buf_size b) \<le> unat (buf_capacity b)"
  using assms
proof (cases rule: buffer_remove_cases)
  case 1
  have "unat (buf_size b) = 0" using arg_cong [OF 1(2), of length] by simp
  then show ?thesis using that(1) 1(1) by simp
next
  case (2 v b')
  have sz: "unat (buf_size b) = Suc (unat (buf_size b'))" using arg_cong [OF 2(3), of length] by simp
  moreover have "unat (buf_size b) \<le> unat (buf_capacity b)" using assms by (simp add: buffer_inv_def)
  ultimately show ?thesis using that(2) [of v b'] 2(1,2,4) by simp
qed

lemma avail_set_buffer:
  "buffer_inv b \<Longrightarrow> avail COND_NOT_EMPTY (ch\<lparr>ch_buffer := Some b\<rparr>) = unat (buf_size b)"
  "buffer_inv b \<Longrightarrow> avail COND_NOT_FULL (ch\<lparr>ch_buffer := Some b\<rparr>) = unat (buf_capacity b) - unat (buf_size b)"
  by (simp_all add: avail_def buffer_room_def)

lemma buf_send:
  assumes "chan_inv (e_chan e)" "\<not> is_unbuffered (e_chan e)"
  shows "buf_section SEND True (channel_send_loop a e) e" "buf_section SEND False (channel_send_loop a e) e"
    "buf_section SEND False (channel_non_blocking_send lock a e) e"
proof -
  obtain b where b: "ch_buffer (e_chan e) = Some b" "buffer_inv b"
    using assms by (cases rule: chan_inv_cases [OF assms(1)]) auto
  note av = avail_buffer [OF b(2,1)]
  have "buf_section SEND r (channel_send_loop a e) e" for r
    by (rule buffer_add_avail [OF b(2), of "e_mem e a"])
      (use b assms av in \<open>auto simp: buf_section_def channel_send_loop_def signals_def avail_set_buffer avail_buffer\<close>)
  then show "buf_section SEND True (channel_send_loop a e) e" "buf_section SEND False (channel_send_loop a e) e"
    by simp_all
  show "buf_section SEND False (channel_non_blocking_send lock a e) e"
    by (rule buffer_add_avail [OF b(2), of "e_mem e a"])
      (use b assms av in \<open>auto simp: buf_section_def channel_non_blocking_send_def signals_def avail_set_buffer avail_buffer\<close>)
qed

lemma buf_receive:
  assumes "chan_inv (e_chan e)" "\<not> is_unbuffered (e_chan e)"
  shows "buf_section RECV True (channel_receive_loop a e) e" "buf_section RECV False (channel_receive_loop a e) e"
    "buf_section RECV False (channel_non_blocking_receive lock a e) e"
proof -
  obtain b where b: "ch_buffer (e_chan e) = Some b" "buffer_inv b"
    using assms by (cases rule: chan_inv_cases [OF assms(1)]) auto
  note av = avail_buffer [OF b(2,1)]
  have "buf_section RECV r (channel_receive_loop a e) e" for r
    by (rule buffer_remove_avail [OF b(2)])
      (use b assms av in \<open>auto simp: buf_section_def channel_receive_loop_def signals_def avail_set_buffer avail_buffer\<close>)
  then show "buf_section RECV True (channel_receive_loop a e) e" "buf_section RECV False (channel_receive_loop a e) e"
    by simp_all
  show "buf_section RECV False (channel_non_blocking_receive lock a e) e"
    by (rule buffer_remove_avail [OF b(2)])
      (use b assms av in \<open>auto simp: buf_section_def channel_non_blocking_receive_def signals_def avail_set_buffer avail_buffer\<close>)
qed

text \<open>The entry and resume sections of the calls that move messages.\<close>

lemma buf_return: "buf_section d False (Some (e, Return st)) e"
  by (simp add: buf_section_def)

lemma buf_entry:
  assumes "chan_inv (e_chan e)" "\<not> is_unbuffered (e_chan e)" "call_moves cl = Some (d, a)"
  shows "buf_section d False (entry_section lock cl e) e"
  using assms buf_send [OF assms(1,2)] buf_receive [OF assms(1,2)]
  by (cases cl) (auto simp: channel_send_def channel_receive_def buf_return)

lemma buf_resume:
  assumes "chan_inv (e_chan e)" "\<not> is_unbuffered (e_chan e)" "resume_ok cl r False"
  shows "r = BufRetry" "\<exists>d a. call_moves cl = Some (d, a) \<and> retries (wait_cond d) (call_chan cl) cl \<and>
    \<not> retries (wake_cond d) (call_chan cl) cl \<and> buf_section d True (resume_section cl r e) e"
  using assms buf_send [OF assms(1,2)] buf_receive [OF assms(1,2)]
  by (cases cl; simp add: resume_ok_def is_blocking_def is_nonblocking_def retries_def)+

subsection \<open>One thread\<close>

fun next_pc :: "call \<Rightarrow> outcome \<Rightarrow> pc \<times> (nat \<times> cond) option" where
  "next_pc cl (Return st) = (Done st None, None)"
| "next_pc cl (Wait cv r) = (Resume r, Some (call_chan cl, cv))"
| "next_pc cl (Post ps st) = (Posting ps st, None)"

fun next_sel :: "nat \<Rightarrow> select_t \<Rightarrow> select_next \<Rightarrow> pc \<times> (nat \<times> cond) option" where
  "next_sel k e Continue = (SelScan (Suc k), None)"
| "next_sel k e (Leave st recorded) = (SelCleanup 0 st (if recorded then Some k else None), None)"
| "next_sel k e (SelectWait cv r) = (SelResume k r, Some (sel_channel e, cv))"
| "next_sel k e (SelectPost ps st) = (SelPosting k ps st, None)"

abbreviation moved :: "thread \<Rightarrow> pc \<times> (nat \<times> cond) option \<Rightarrow> thread" where
  "moved t pw \<equiv> t\<lparr>t_pc := fst pw, t_wait := snd pw\<rparr>"

lemma threads_after_section [simp]:
  "threads (after_section i cl nx s) = (threads s)[i := moved (threads s ! i) (next_pc cl nx)]"
  "chans (after_section i cl nx s) = chans s"
  by (cases nx; cases cl; simp add: set_thread_def log_transfer_def)+

lemma threads_after_select [simp]:
  "threads (after_select i k e nx s) = (threads s)[i := moved (threads s ! i) (next_sel k e nx)]"
  "chans (after_select i k e nx s) = chans s"
  by (cases nx; simp add: set_thread_def log_transfer_def)+

lemma count_signals:
  "count_list (signals d) (Wake (Signal cv)) = (if cv = wake_cond d then 1 else 0)"
  "Wake (Broadcast cv) \<notin> set (signals d)"
  by (cases d; auto simp: signals_def)+

lemma call_chan_moves: "call_moves cl = Some (d, a) \<Longrightarrow> \<exists>c. call_chan cl = c \<and> (\<forall>es sem. cl \<noteq> Select es sem)"
  by (cases cl) auto

lemma wait_wake_neq: "wait_cond d \<noteq> wake_cond d"
  by (cases d) simp_all

lemma avail_section:
  assumes "buf_section d retry res e" "res = Some (e', nx)"
  shows "(case nx of
      Return st \<Rightarrow> avail cv (e_chan e') = avail cv (e_chan e)
    | Wait cv' r \<Rightarrow> avail cv (e_chan e') = avail cv (e_chan e)
    | Post ps st \<Rightarrow>
        avail cv (e_chan e') + (if cv = wait_cond d then 1 else 0) = avail cv (e_chan e) + (if cv = wake_cond d then 1 else 0))"
  using assms wait_wake_neq [of d]
  by (cases nx; cases d; cases cv) (auto simp: buf_section_def avail_def split: option.splits)

lemma delta_section:
  assumes t: "t_call t = cl" "call_moves cl = Some (d, a)" "call_chan cl = c" "t_wait t = None"
    and p: "t_pc t = Entry \<and> \<not> retry \<or> t_pc t = Resume BufRetry \<and> retry \<and> retries (wait_cond d) c cl \<and> \<not> retries (wake_cond d) c cl"
    and sec: "buf_section d retry res e" "res = Some (e', nx)"
  shows "delta 0 c cv (avail cv (e_chan e)) (closed_flag (e_chan e)) t
    (avail cv (e_chan e')) (closed_flag (e_chan e')) (moved t (next_pc cl nx))"
proof -
  have tok: "tok c cv t \<le> (if retry \<and> cv = wait_cond d then 1 else 0)" "\<not> bcast c cv t"
    using t p by (cases cl; auto simp: tok_def bcast_def retries_def)+
  have ns: "\<forall>es sem. cl \<noteq> Select es sem" using call_chan_moves t(2) by blast
  have same: "closed_flag (e_chan e') = closed_flag (e_chan e)" using sec by (auto simp: buf_section_def)
  note av = avail_section [OF sec, of cv]
  show ?thesis
  proof (cases nx)
    case (Return st)
    then have "retry \<longrightarrow> closed_flag (e_chan e)" using sec by (auto simp: buf_section_def)
    then show ?thesis using Return av same tok by (auto simp: delta_def split: if_splits)
  next
    case (Wait cv' r)
    then have "cv' = wait_cond d" "avail cv' (e_chan e) = 0" "\<not> closed_flag (e_chan e)"
      using sec by (auto simp: buf_section_def)
    then show ?thesis using Wait av same tok t(3) by (auto simp: delta_def split: if_splits)
  next
    case (Post ps st)
    then have "ps = signals d" using sec by (auto simp: buf_section_def)
    then have "tok c cv (moved t (next_pc cl nx)) = (if cv = wake_cond d then 1 else 0)"
      using Post t(1,3) ns by (cases cl) (simp_all add: tok_def count_signals)
    then show ?thesis using Post av same tok wait_wake_neq [of d] by (auto simp: delta_def split: if_splits)
  qed
qed

lemma delta_close:
  assumes t: "t_call t = Close c" "t_pc t = Entry" "t_wait t = None" and sec: "channel_close lock e = Some (e', nx)"
  shows "delta 0 c cv (avail cv (e_chan e)) (closed_flag (e_chan e)) t
    (avail cv (e_chan e')) (closed_flag (e_chan e')) (moved t (next_pc (Close c) nx))"
  using assms
  by (cases cv) (auto simp: channel_close_def delta_def bcast_def tok_def avail_def split: if_splits)

lemma delta_scan:
  assumes t: "t_call t = Select es sem" "t_pc t = SelScan k" "k < length es" "sel_channel (es ! k) = c"
    and sec: "buf_section d False res e" "select_buffered res = Some (e', nx)"
  shows "delta 0 c cv (avail cv (e_chan e)) (closed_flag (e_chan e)) t
    (avail cv (e_chan e')) (closed_flag (e_chan e')) (moved t (next_sel k (es ! k) nx))"
proof -
  obtain o' where res: "res = Some (e', o')" and nx: "nx = (if o' = Return CHANNEL_FULL then Continue else select_outcome o')"
    using sec(2) by (auto simp: select_buffered_def)
  have same: "closed_flag (e_chan e') = closed_flag (e_chan e)" using sec(1) res by (auto simp: buf_section_def)
  note av = avail_section [OF sec(1) res, of cv]
  have tok: "tok c cv t = 0" "\<not> bcast c cv t" using t by (simp_all add: tok_def bcast_def)
  show ?thesis
  proof (cases o')
    case (Return st)
    then show ?thesis using nx av same tok by (auto simp: delta_def)
  next
    case (Wait cv' r)
    then have "cv' = wait_cond d" "avail cv' (e_chan e) = 0" "\<not> closed_flag (e_chan e)"
      using sec(1) res by (auto simp: buf_section_def)
    then show ?thesis using Wait nx av same tok t(4) by (auto simp: delta_def split: if_splits)
  next
    case (Post ps st)
    then have "ps = signals d" using sec(1) res by (auto simp: buf_section_def)
    then have "tok c cv (moved t (next_sel k (es ! k) nx)) = (if cv = wake_cond d then 1 else 0)"
      using Post nx t(1,4) by (simp add: tok_def count_signals)
    then show ?thesis using Post nx av same tok wait_wake_neq [of d] by (auto simp: delta_def split: if_splits)
  qed
qed

text \<open>A thread that has no token on \<open>c\<close> and does not come to wait there.\<close>

lemma delta_foreign:
  assumes "tok c cv t = 0" "\<not> bcast c cv t" "t_wait t' \<noteq> Some (c, cv)"
  shows "delta 0 c cv A closed t A closed t'"
  using assms by (simp add: delta_def)

subsection \<open>One step\<close>

text \<open>
  What the step of thread \<open>i\<close> does to a buffered channel \<open>c\<close> that is still there afterwards:
  it keeps the balance, or it uses up a token with the signal it makes, or it broadcasts.
\<close>

definition advance :: "nat \<Rightarrow> sys \<Rightarrow> sys \<Rightarrow> nat \<Rightarrow> wake list \<Rightarrow> nat \<Rightarrow> cond \<Rightarrow> bool" where
  "advance i s s' d ws c cv \<longleftrightarrow>
     (\<forall>ch'. chans s' c = Some ch' \<longrightarrow> \<not> is_unbuffered ch' \<longrightarrow>
        (\<exists>ch t'. chans s c = Some ch \<and> \<not> is_unbuffered ch \<and> threads s' = (threads s)[i := t'] \<and>
           (delta 0 c cv (avail cv ch) (closed_flag ch) (threads s ! i) (avail cv ch') (closed_flag ch') t' \<or>
            d = c \<and> ws = [Signal cv] \<and>
              delta 1 c cv (avail cv ch) (closed_flag ch) (threads s ! i) (avail cv ch') (closed_flag ch') t' \<or>
            d = c \<and> ws = [Broadcast cv])))"

definition live_at :: "sys \<Rightarrow> nat \<Rightarrow> cond \<Rightarrow> bool" where
  "live_at s c cv \<longleftrightarrow>
     (\<forall>ch. chans s c = Some ch \<longrightarrow> \<not> is_unbuffered ch \<longrightarrow> balance 0 c cv (avail cv ch) (closed_flag ch) (threads s))"

lemma wake_broadcast_none:
  assumes "wake_step c (Broadcast cv) ts ts'"
  shows "\<forall>t \<in> set ts'. t_wait t \<noteq> Some (c, cv)"
  using assms by (cases rule: wake_step.cases) (auto simp: unblock_def split: if_splits)

lemma advance_live:
  assumes adv: "advance i s s' d ws c cv" and live: "live_at s c cv"
    and i: "i < length (threads s)" "t_wait (threads s ! i) = None"
    and wake: "wake_steps d ws (threads s') ts" and ok: "all_ok s'"
  shows "live_at (s'\<lparr>threads := ts\<rparr>) c cv"
  unfolding live_at_def
proof (intro allI impI)
  fix ch'
  assume "chans (s'\<lparr>threads := ts\<rparr>) c = Some ch'" and unb: "\<not> is_unbuffered ch'"
  then have ch': "chans s' c = Some ch'" by simp
  let ?A' = "avail cv ch'" and ?cl' = "closed_flag ch'"
  obtain ch t' where ch: "chans s c = Some ch" "\<not> is_unbuffered ch" and ts: "threads s' = (threads s)[i := t']"
    and alt: "delta 0 c cv (avail cv ch) (closed_flag ch) (threads s ! i) ?A' ?cl' t' \<or>
      d = c \<and> ws = [Signal cv] \<and> delta 1 c cv (avail cv ch) (closed_flag ch) (threads s ! i) ?A' ?cl' t' \<or>
      d = c \<and> ws = [Broadcast cv]"
    using adv ch' unb unfolding advance_def by blast
  have bal: "balance 0 c cv (avail cv ch) (closed_flag ch) (threads s)" using live ch by (simp add: live_at_def)
  from alt consider (step) "delta 0 c cv (avail cv ch) (closed_flag ch) (threads s ! i) ?A' ?cl' t'"
    | (signal) "d = c" "ws = [Signal cv]" "delta 1 c cv (avail cv ch) (closed_flag ch) (threads s ! i) ?A' ?cl' t'"
    | (bcast) "d = c" "ws = [Broadcast cv]" by blast
  then have "balance 0 c cv ?A' ?cl' ts"
  proof cases
    case step
    then show ?thesis using balance_wakes [OF wake] balance_update [OF bal i] ts by simp
  next
    case signal
    then have bal1: "balance 1 c cv ?A' ?cl' (threads s')" using balance_update [OF bal i] ts by simp
    have K: "kinds s' c = Some False" using ch' unb by (simp add: kinds_def)
    have "wake_step c (Signal cv) (threads s') ts" using wake signal(1,2) by simp
    then show ?thesis
    proof (cases rule: wake_step.cases)
      case (signal j)
      then show ?thesis using balance_signal [where K = "kinds s'", OF bal1 _ _ _ K] ok by (simp add: all_ok_def)
    next
      case signal_none
      then show ?thesis by (simp add: balance_no_waiter)
    qed
  next
    case bcast
    then have "wake_step c (Broadcast cv) (threads s') ts" using wake by simp
    then show ?thesis using wake_broadcast_none balance_no_waiter by blast
  qed
  then show "balance 0 c cv (avail cv ch') (closed_flag ch') (threads (s'\<lparr>threads := ts\<rparr>))" by simp
qed

lemma advance_deltaI:
  assumes "threads s' = (threads s)[i := t']"
    and "\<And>ch'. chans s' c = Some ch' \<Longrightarrow> \<not> is_unbuffered ch' \<Longrightarrow> \<exists>ch. chans s c = Some ch \<and> \<not> is_unbuffered ch \<and>
       delta 0 c cv (avail cv ch) (closed_flag ch) (threads s ! i) (avail cv ch') (closed_flag ch') t'"
  shows "advance i s s' d ws c cv"
  unfolding advance_def using assms by blast

text \<open>A section that thread \<open>i\<close> runs on channel \<open>d\<close>, seen from channel \<open>c\<close>.\<close>

lemma advance_section:
  assumes run: "run_section d f s = Some (s1, ws, nx)" and th: "threads s' = (threads s)[i := t']" "chans s' = chans s1"
    and foreign: "d \<noteq> c \<Longrightarrow> tok c cv (threads s ! i) = 0 \<and> \<not> bcast c cv (threads s ! i) \<and> t_wait t' \<noteq> Some (c, cv)"
    and own: "\<And>e e'. d = c \<Longrightarrow> chans s c = Some (e_chan e) \<Longrightarrow> \<not> is_unbuffered (e_chan e') \<Longrightarrow>
      f e = Some (e', nx) \<Longrightarrow> \<not> is_unbuffered (e_chan e) \<and>
      delta 0 c cv (avail cv (e_chan e)) (closed_flag (e_chan e)) (threads s ! i) (avail cv (e_chan e')) (closed_flag (e_chan e')) t'"
  shows "advance i s s' d ws c cv"
proof -
  obtain ch e' where ch: "chans s d = Some ch"
    and f: "f \<lparr>e_chan = ch, e_mem = mem s, e_sems = sems s, e_wakes = []\<rparr> = Some (e', nx)"
    and s1: "chans s1 = (chans s)(d \<mapsto> e_chan e')"
    using run by (auto simp: run_section_def bind_eq_Some_conv)
  show ?thesis
  proof (rule advance_deltaI [OF th(1)])
    fix ch' assume ch': "chans s' c = Some ch'" "\<not> is_unbuffered ch'"
    show "\<exists>ch. chans s c = Some ch \<and> \<not> is_unbuffered ch \<and>
       delta 0 c cv (avail cv ch) (closed_flag ch) (threads s ! i) (avail cv ch') (closed_flag ch') t'"
    proof (cases "d = c")
      case True
      then have "ch' = e_chan e'" "\<not> is_unbuffered (e_chan e')" using ch' th(2) s1 by auto
      then show ?thesis using own [OF True _ _ f] ch True by auto
    next
      case False
      then have "chans s c = Some ch'" using ch' th(2) s1 by simp
      then show ?thesis using delta_foreign foreign [OF False] ch' by blast
    qed
  qed
qed

text \<open>A step that leaves the channels alone and only moves the thread.\<close>

lemma advance_move:
  assumes "threads s' = (threads s)[i := t']"
    and "\<And>ch'. chans s' c = Some ch' \<Longrightarrow> \<exists>ch. chans s c = Some ch \<and> is_unbuffered ch = is_unbuffered ch' \<and>
       avail cv ch' = avail cv ch \<and> closed_flag ch' = closed_flag ch"
    and "t_wait t' \<noteq> Some (c, cv)" "tok c cv (threads s ! i) \<le> tok c cv t'" "bcast c cv (threads s ! i) \<longrightarrow> bcast c cv t'"
  shows "advance i s s' d ws c cv"
proof (rule advance_deltaI [OF assms(1)])
  fix ch' assume ch': "chans s' c = Some ch'" "\<not> is_unbuffered ch'"
  then obtain ch where ch: "chans s c = Some ch" "is_unbuffered ch = is_unbuffered ch'"
    "avail cv ch' = avail cv ch" "closed_flag ch' = closed_flag ch"
    using assms(2) by blast
  moreover have "delta 0 c cv (avail cv ch) (closed_flag ch) (threads s ! i) (avail cv ch) (closed_flag ch) t'"
    using assms(3,4,5) by (simp add: delta_def)
  ultimately show "\<exists>ch. chans s c = Some ch \<and> \<not> is_unbuffered ch \<and>
       delta 0 c cv (avail cv ch) (closed_flag ch) (threads s ! i) (avail cv ch') (closed_flag ch') t'"
    using ch'(2) by auto
qed

text \<open>One notification after the unlock: the thread goes from \<open>p # ps\<close> to \<open>ps\<close> pending on \<open>d\<close>.\<close>

lemma post_step_same: "post_step d p s = Some (s1, ws) \<Longrightarrow> threads s1 = threads s \<and> chans s1 = chans s"
  by (cases p) (auto simp: post_step_def bind_eq_Some_conv)

lemma advance_post:
  assumes post: "post_step d p s = Some (s1, ws)" and th: "threads s' = (threads s)[i := t']" "chans s' = chans s1"
    and pend: "\<And>c. thread_posts (t_call (threads s ! i)) (t_pc (threads s ! i)) c = (if d = c then p # ps else [])"
      "\<And>c. thread_posts (t_call t') (t_pc t') c = (if d = c then ps else [])"
    and plain: "t_pc (threads s ! i) \<noteq> Resume BufRetry" "t_wait t' = None"
  shows "advance i s s' d ws c cv"
proof -
  have ch: "chans s' = chans s" and ws: "ws = (case p of Wake w \<Rightarrow> [w] | _ \<Rightarrow> [])"
    using post th(2) by (cases p; auto simp: post_step_def bind_eq_Some_conv)+
  have tok: "tok c cv (threads s ! i) \<le> tok c cv t' + (if d = c \<and> p = Wake (Signal cv) then 1 else 0)"
    using pend plain(1) by (simp add: tok_def)
  have bc: "bcast c cv (threads s ! i) \<longrightarrow> bcast c cv t' \<or> d = c \<and> p = Wake (Broadcast cv)"
    using pend by (auto simp: bcast_def)
  consider (b) "d = c" "p = Wake (Broadcast cv)" | (g) "d = c" "p = Wake (Signal cv)"
    | (n) "\<not> (d = c \<and> (p = Wake (Broadcast cv) \<or> p = Wake (Signal cv)))" by blast
  then show ?thesis
  proof cases
    case b
    then show ?thesis using th(1) ws unfolding advance_def ch by auto
  next
    case g
    then have "delta 1 c cv A cl (threads s ! i) A cl t'" for A cl
      using tok bc plain(2) by (auto simp: delta_def)
    then show ?thesis using g th(1) ws unfolding advance_def ch by auto
  next
    case n
    then show ?thesis using tok bc plain(2) ch by (intro advance_move [OF th(1)]) auto
  qed
qed

text \<open>The steps of a simple call.\<close>

lemma simple_step_advance:
  assumes step: "simple_step lk i cl p s = Some (s', d, ws)" and inv: "fifo_inv s"
    and ok: "thread_ok (kinds s) cl p None" and simple: "is_simple cl"
    and t: "t_call (threads s ! i) = cl" "t_pc (threads s ! i) = p" "t_wait (threads s ! i) = None"
  shows "advance i s s' d ws c cv"
proof -
  have nosel: "\<forall>es sem. cl \<noteq> Select es sem" using simple by (auto simp: is_simple_def)
  have good: "chan_inv ch" if "chans s c = Some ch" for ch using inv that by (simp add: fifo_inv_def)
  have foreign: "tok c cv (threads s ! i) = 0 \<and> \<not> bcast c cv (threads s ! i) \<and> t_wait (moved (threads s ! i) (next_pc cl nx)) \<noteq> Some (c, cv)"
    if "call_chan cl \<noteq> c" for nx
    using that t nosel by (cases nx; cases p; cases cl) (auto simp: tok_def bcast_def retries_def)
  show ?thesis
  proof (cases p)
    case Entry
    then obtain s1 nx where run: "run_section (call_chan cl) (entry_section lk cl) s = Some (s1, ws, nx)"
      and s': "s' = after_section i cl nx s1" "d = call_chan cl"
      using step by (auto simp: simple_step_def bind_eq_Some_conv)
    show ?thesis unfolding s'(2)
    proof (rule advance_section [OF run, where t' = "moved (threads s ! i) (next_pc cl nx)"])
      fix e e' assume e: "call_chan cl = c" "chans s c = Some (e_chan e)" "\<not> is_unbuffered (e_chan e')"
        "entry_section lk cl e = Some (e', nx)"
      then have inv_e: "chan_inv (e_chan e)" using good by blast
      then have unb: "\<not> is_unbuffered (e_chan e)"
        using good_entry [OF inv_e, of cl lk] e(3,4) by (simp add: good_some)
      then show "\<not> is_unbuffered (e_chan e) \<and> delta 0 c cv (avail cv (e_chan e)) (closed_flag (e_chan e)) (threads s ! i)
          (avail cv (e_chan e')) (closed_flag (e_chan e')) (moved (threads s ! i) (next_pc cl nx))"
      proof (cases "call_moves cl")
        case None
        then have "cl = Close c" using simple e(1) by (cases cl) (auto simp: is_simple_def)
        then show ?thesis using delta_close [of "threads s ! i" c lk e e' nx cv] t Entry e(4) unb by simp
      next
        case (Some da)
        obtain d a where da: "da = (d, a)" by (cases da)
        show ?thesis
          using delta_section [where retry = False, OF t(1) _ e(1) t(3) _ buf_entry [OF inv_e unb] e(4)] Some da t(2) Entry unb by simp
      qed
    qed (use run foreign s' in \<open>auto simp: run_section_def bind_eq_Some_conv\<close>)
  next
    case (Resume r)
    then obtain s1 nx where run: "run_section (call_chan cl) (resume_section cl r) s = Some (s1, ws, nx)"
      and s': "s' = after_section i cl nx s1" "d = call_chan cl"
      using step by (auto simp: simple_step_def bind_eq_Some_conv)
    show ?thesis unfolding s'(2)
    proof (rule advance_section [OF run, where t' = "moved (threads s ! i) (next_pc cl nx)"])
      fix e e' assume e: "call_chan cl = c" "chans s c = Some (e_chan e)" "\<not> is_unbuffered (e_chan e')"
        "resume_section cl r e = Some (e', nx)"
      then have inv_e: "chan_inv (e_chan e)" using good by blast
      have unb: "\<not> is_unbuffered (e_chan e)"
        using good_resume [OF inv_e, of cl r] e(3,4) by (simp add: good_some)
      then have rok: "resume_ok cl r False" using ok Resume e(1,2) by (auto simp: thread_ok_def kinds_def)
      obtain d a where d: "call_moves cl = Some (d, a)" "retries (wait_cond d) c cl" "\<not> retries (wake_cond d) c cl"
        "buf_section d True (resume_section cl r e) e"
        using buf_resume(2) [OF inv_e unb rok] e(1) by auto
      have "r = BufRetry" using buf_resume(1) [OF inv_e unb rok] .
      then show "\<not> is_unbuffered (e_chan e) \<and> delta 0 c cv (avail cv (e_chan e)) (closed_flag (e_chan e)) (threads s ! i)
          (avail cv (e_chan e')) (closed_flag (e_chan e')) (moved (threads s ! i) (next_pc cl nx))"
        using delta_section [where retry = True, OF t(1) d(1) e(1) t(3) _ d(4) e(4)] d(2,3) t(2) Resume unb by simp
    qed (use run foreign s' in \<open>auto simp: run_section_def bind_eq_Some_conv\<close>)
  next
    case (Posting ps st)
    show ?thesis
    proof (cases ps)
      case Nil
      then show ?thesis using step Posting t nosel
        by (intro advance_move [where t' = "moved (threads s ! i) (Done st None, None)"])
          (auto simp: simple_step_def set_thread_def tok_def bcast_def)
    next
      case (Cons q qs)
      then obtain s1 where post: "post_step (call_chan cl) q s = Some (s1, ws)"
        and s': "s' = set_thread i (Posting qs st) None s1" "d = call_chan cl"
        using step Posting by (auto simp: simple_step_def bind_eq_Some_conv)
      show ?thesis unfolding s'(2)
        by (rule advance_post [OF post, where t' = "moved (threads s ! i) (Posting qs st, None)" and ps = qs])
          (use post_step_same [OF post] s' t Posting Cons nosel in \<open>auto simp: set_thread_def\<close>)
    qed
  qed (use step in \<open>simp_all add: simple_step_def\<close>)
qed

text \<open>The steps of a select.\<close>

lemma selector_avail [simp]:
  "avail cv (init_select_step ok e sem ch) = avail cv ch" "closed_flag (init_select_step ok e sem ch) = closed_flag ch"
  "avail cv (cleanup_select_step e sem ch) = avail cv ch" "closed_flag (cleanup_select_step e sem ch) = closed_flag ch"
  by (simp_all add: init_select_step_def cleanup_select_step_def add_select_sender_def add_select_receiver_def
      remove_select_sender_def remove_select_receiver_def avail_def)

lemma select_step_advance:
  assumes step: "select_step lk i es sem p s = Some (s', d, ws)" and inv: "fifo_inv s"
    and ok: "thread_ok (kinds s) (Select es sem) p None"
    and t: "t_call (threads s ! i) = Select es sem" "t_pc (threads s ! i) = p" "t_wait (threads s ! i) = None"
  shows "advance i s s' d ws c cv"
proof -
  have good: "chan_inv ch" if "chans s c = Some ch" for ch using inv that by (simp add: fifo_inv_def)
  have zero: "tok c cv (threads s ! i) = 0 \<and> \<not> bcast c cv (threads s ! i)" if "\<forall>k ps st. p \<noteq> SelPosting k ps st"
    using that t ok by (cases p) (auto simp: tok_def bcast_def retries_def thread_ok_def is_simple_def)
  have move: "advance i s (set_thread i p' None s0) d0 ws0 c cv"
    if "threads s0 = threads s" "\<forall>k ps st. p \<noteq> SelPosting k ps st"
      "\<And>ch'. chans s0 c = Some ch' \<Longrightarrow> \<exists>ch. chans s c = Some ch \<and> is_unbuffered ch = is_unbuffered ch' \<and>
         avail cv ch' = avail cv ch \<and> closed_flag ch' = closed_flag ch" for p' s0 d0 ws0
    using zero [OF that(2)] that(1,3)
    by (intro advance_move [where t' = "moved (threads s ! i) (p', None)"]) (auto simp: set_thread_def)
  show ?thesis
  proof (cases p)
    case (SelScan k)
    show ?thesis
    proof (cases "k < length es")
      case True
      let ?c = "sel_channel (es ! k)"
      obtain s1 nx where run: "run_section ?c (channel_select_entry lk (es ! k)) s = Some (s1, ws, nx)"
        and s': "s' = after_select i k (es ! k) nx s1" "d = ?c"
        using step SelScan True by (auto simp: select_step_def bind_eq_Some_conv)
      have wait: "t_wait (moved (threads s ! i) (next_sel k (es ! k) nx)) \<noteq> Some (c, cv)" if "?c \<noteq> c"
        using that by (cases nx) auto
      show ?thesis unfolding s'(2)
      proof (rule advance_section [OF run, where t' = "moved (threads s ! i) (next_sel k (es ! k) nx)"])
        fix e e' assume e: "?c = c" "chans s c = Some (e_chan e)" "\<not> is_unbuffered (e_chan e')"
          "channel_select_entry lk (es ! k) e = Some (e', nx)"
        then have inv_e: "chan_inv (e_chan e)" using good by blast
        have unb: "\<not> is_unbuffered (e_chan e)"
          using good_select_entry [OF inv_e, of "es ! k" lk] e(3,4) by (simp add: good_some)
        obtain d' res where "buf_section d' False res e" "select_buffered res = Some (e', nx)"
        proof (cases "sel_dir (es ! k)")
          case SEND
          then show ?thesis
            using that [OF buf_send(3) [OF inv_e unb, of lk "sel_data (es ! k)"]] e(4) unb
            by (simp add: channel_select_entry_def)
        next
          case RECV
          then show ?thesis
            using that [OF buf_receive(3) [OF inv_e unb, of lk "sel_data (es ! k)"]] e(4) unb
            by (simp add: channel_select_entry_def)
        qed
        then show "\<not> is_unbuffered (e_chan e) \<and> delta 0 c cv (avail cv (e_chan e)) (closed_flag (e_chan e)) (threads s ! i)
            (avail cv (e_chan e')) (closed_flag (e_chan e')) (moved (threads s ! i) (next_sel k (es ! k) nx))"
          using delta_scan [OF t(1) _ True e(1)] t(2) SelScan unb by blast
      qed (use run zero wait s' SelScan in \<open>auto simp: run_section_def bind_eq_Some_conv\<close>)
    qed (use step SelScan in \<open>auto simp: select_step_def intro!: move\<close>)
  next
    case (SelResume k r)
    then have k: "k < length es" using ok by (simp add: thread_ok_def)
    let ?c = "sel_channel (es ! k)"
    obtain s1 nx where run: "run_section ?c (select_resume (es ! k) r) s = Some (s1, ws, nx)"
      and s': "s' = after_select i k (es ! k) nx s1" "d = ?c"
      using step SelResume k by (auto simp: select_step_def bind_eq_Some_conv)
    have wait: "t_wait (moved (threads s ! i) (next_sel k (es ! k) nx)) \<noteq> Some (c, cv)" if "?c \<noteq> c"
      using that by (cases nx) auto
    show ?thesis unfolding s'(2)
    proof (rule advance_section [OF run, where t' = "moved (threads s ! i) (next_sel k (es ! k) nx)"])
      fix e e' assume e: "?c = c" "chans s c = Some (e_chan e)" "\<not> is_unbuffered (e_chan e')"
        "select_resume (es ! k) r e = Some (e', nx)"
      have "chan_inv (e_chan e)" using good e(2) by blast
      then have "\<not> is_unbuffered (e_chan e)"
        using good_select_resume [of e "es ! k" r] e(3,4) by (simp add: good_some)
      then show "\<not> is_unbuffered (e_chan e) \<and> delta 0 c cv (avail cv (e_chan e)) (closed_flag (e_chan e)) (threads s ! i)
            (avail cv (e_chan e')) (closed_flag (e_chan e')) (moved (threads s ! i) (next_sel k (es ! k) nx))"
        using ok SelResume e(1,2) by (auto simp: thread_ok_def kinds_def)
    qed (use run zero wait s' SelResume in \<open>auto simp: run_section_def bind_eq_Some_conv\<close>)
  next
    case (SelPosting k ps st)
    show ?thesis
    proof (cases ps)
      case Nil
      then show ?thesis using step SelPosting t
        by (intro advance_move [where t' = "moved (threads s ! i) (SelCleanup 0 st (Some k), None)"])
          (auto simp: select_step_def set_thread_def tok_def bcast_def)
    next
      case (Cons q qs)
      then obtain s1 where post: "post_step (sel_channel (es ! k)) q s = Some (s1, ws)"
        and s': "s' = set_thread i (SelPosting k qs st) None s1" "d = sel_channel (es ! k)"
        using step SelPosting by (auto simp: select_step_def bind_eq_Some_conv split: if_splits)
      show ?thesis unfolding s'(2)
        by (rule advance_post [OF post, where t' = "moved (threads s ! i) (SelPosting k qs st, None)" and ps = qs])
          (use post_step_same [OF post] s' t SelPosting Cons in \<open>auto simp: set_thread_def\<close>)
    qed
  next
    case SelWait
    then show ?thesis
    proof (cases "sems s sem > 0")
      case False
      then have "s' = s" using step SelWait by (auto simp: select_step_def)
      then show ?thesis using zero SelWait t(3)
        by (intro advance_move [where t' = "threads s ! i"]) auto
    qed (use step SelWait in \<open>auto simp: select_step_def intro!: move\<close>)
  next
    case (SelInit k)
    then show ?thesis using step by (auto simp: select_step_def bind_eq_Some_conv Let_def intro!: move split: if_splits)
  next
    case (SelCleanup k st idx)
    then show ?thesis using step by (auto simp: select_step_def bind_eq_Some_conv Let_def intro!: move split: if_splits)
  next
    case Entry
    then show ?thesis using step by (auto simp: select_step_def intro!: move split: if_splits)
  qed (use step in \<open>simp_all add: select_step_def\<close>)
qed

subsection \<open>Reachable states\<close>

lemma thread_step_advance:
  assumes step: "thread_step lk i s = Some (s', d, ws)" and inv: "fifo_inv s" and ok: "all_ok s"
    and i: "i < length (threads s)" "t_wait (threads s ! i) = None"
  shows "advance i s s' d ws c cv"
proof (cases "\<exists>st idx. t_pc (threads s ! i) = Done st idx")
  case True
  then have "s' = s" using step by (auto simp: thread_step_def Let_def)
  then show ?thesis using i(2) by (intro advance_move [where t' = "threads s ! i"]) auto
next
  case False
  let ?t = "threads s ! i"
  have p: "\<forall>st idx. t_pc ?t \<noteq> Done st idx" using False by blast
  have tok: "thread_ok (kinds s) (t_call ?t) (t_pc ?t) None" using ok i nth_mem by (fastforce simp: all_ok_def)
  consider (sel) es sem where "t_call ?t = Select es sem" | (des) b where "t_call ?t = Destroy b"
    | (sim) "is_simple (t_call ?t)"
    by (cases "t_call ?t") (auto simp: is_simple_def)
  then show ?thesis
  proof cases
    case sel
    then show ?thesis
      using select_step_advance [OF _ inv _ sel refl i(2)] step tok by (simp add: thread_step_dispatch [OF refl p])
  next
    case des
    then have "destroy_step i b s = Some (s', d, ws)" using step by (simp add: thread_step_dispatch [OF refl p])
    then obtain st ch ch' where s': "s' = set_thread i (Done st None) None (s\<lparr>chans := (chans s)(b := ch')\<rparr>)"
      and ch: "chans s b = Some ch" "ch' = None \<or> ch' = Some ch"
      by (auto simp: destroy_step_def channel_destroy_def bind_eq_Some_conv split: if_splits)
    have entry: "t_pc ?t = Entry \<or> (\<exists>ps st. t_pc ?t = Posting ps st) \<or> (\<exists>r. t_pc ?t = Resume r)"
      using tok des p by (cases "t_pc ?t") (auto simp: thread_ok_def)
    then have "t_pc ?t = Entry" using tok des by (auto simp: thread_ok_def is_simple_def)
    then show ?thesis using s' ch des i(2)
      by (intro advance_move [where t' = "moved ?t (Done st None, None)"])
        (auto simp: set_thread_def tok_def bcast_def retries_def split: if_splits)
  next
    case sim
    then have "thread_step lk i s = simple_step lk i (t_call ?t) (t_pc ?t) s"
      by (simp add: thread_step_dispatch [OF refl p] is_simple_def split: call.splits)
    then show ?thesis using simple_step_advance [OF _ inv tok sim refl refl i(2)] step by simp
  qed
qed

lemma sys_step_live:
  "sys_step s s' \<Longrightarrow> fifo_inv s \<Longrightarrow> all_ok s \<Longrightarrow> use_ok s \<Longrightarrow> live_at s c cv \<Longrightarrow> live_at s' c cv"
proof (induction rule: sys_step.induct)
  case (run i s lk s' d ws ts)
  then have "all_ok s'" using use_ok_step by blast
  then show ?case using advance_live thread_step_advance run by blast
next
  case (spurious i s)
  then show ?case using balance_spurious by (simp add: live_at_def)
next
  case (store s a v)
  then show ?case by (simp add: live_at_def)
next
  case (new_call i s st idx cl)
  let ?s = "s\<lparr>threads := (threads s)[i := \<lparr>t_call = cl, t_pc = Entry, t_wait = None\<rparr>]\<rparr>"
  have w: "t_wait (threads s ! i) = None"
    using new_call nth_mem by (fastforce simp: all_ok_def thread_ok_def)
  have "advance i s ?s c [] c cv"
    by (intro advance_move [where t' = "\<lparr>t_call = cl, t_pc = Entry, t_wait = None\<rparr>"])
      (use new_call.hyps(2) in \<open>auto simp: tok_def bcast_def\<close>)
  moreover have "all_ok ?s" using new_call_ok new_call by blast
  ultimately have "live_at (?s\<lparr>threads := threads ?s\<rparr>) c cv"
    using advance_live [OF _ new_call.prems(4) new_call.hyps(1) w, of ?s c "[]"] by simp
  then show ?case by simp
qed

lemma reachable_live:
  assumes "reachable s0 s" "sys_init s0"
  shows "live_at s c cv"
  using assms(1)
proof (induction rule: reachable_induct)
  case start
  then show ?case using assms(2) by (auto simp: live_at_def balance_def sys_init_def)
next
  case (steps s s')
  then show ?case using sys_step_live reachable_fifo reachable_ok assms(2) by blast
qed

end
