(* ===== verification/Channel_Select.thy ===== *)
theory Channel_Select
  imports Channel_Live
begin

text \<open>
  The semaphores of \<open>channel_select\<close>. Each is a local variable of the call, so a pointer to
  it left in a selector list after the call has returned would be posted through a dead
  stack frame. The invariant counts, for every channel, direction and semaphore, the
  occurrences in the selector list against the entries the running selects have registered
  and not yet cleaned up.
\<close>

definition sel_list :: "direction \<Rightarrow> channel_t \<Rightarrow> nat list" where
  "sel_list d ch = selectors (if d = SEND then send_selectors ch else recv_selectors ch)"

definition matches :: "direction \<Rightarrow> nat \<Rightarrow> select_t \<Rightarrow> bool" where
  "matches d c e \<longleftrightarrow> sel_dir e = d \<and> sel_channel e = c"

text \<open>The entries of a select at program point \<open>p\<close> that may be in the lists.\<close>

fun registered :: "select_t list \<Rightarrow> pc \<Rightarrow> select_t list" where
  "registered es (SelInit k) = take k es"
| "registered es (SelCleanup k st idx) = drop k es"
| "registered es (SelScan k) = es"
| "registered es (SelResume k r) = es"
| "registered es (SelPosting k ps st) = es"
| "registered es SelWait = es"
| "registered es Entry = []"
| "registered es (Resume r) = []"
| "registered es (Posting ps st) = []"
| "registered es (Done st idx) = []"

definition holds :: "direction \<Rightarrow> nat \<Rightarrow> nat \<Rightarrow> thread \<Rightarrow> nat" where
  "holds d c sem t =
     (case t_call t of
        Select es sem' \<Rightarrow> if sem' = sem then length (filter (matches d c) (registered es (t_pc t))) else 0
      | _ \<Rightarrow> 0)"

definition sel_inv :: "sys \<Rightarrow> bool" where
  "sel_inv s \<longleftrightarrow>
     (\<forall>c ch d sem. chans s c = Some ch \<longrightarrow>
        count_list (sel_list d ch) sem \<le> sum_list (map (holds d c sem) (threads s)))"

text \<open>The selector lists of a system, and what a step of thread \<open>i\<close> does to them.\<close>

definition counted :: "sys \<Rightarrow> direction \<Rightarrow> nat \<Rightarrow> nat \<Rightarrow> nat" where
  "counted s d c sem = (case chans s c of None \<Rightarrow> 0 | Some ch \<Rightarrow> count_list (sel_list d ch) sem)"

lemma sel_inv_counted:
  "sel_inv s \<longleftrightarrow> (\<forall>d c sem. counted s d c sem \<le> sum_list (map (holds d c sem) (threads s)))"
  by (auto simp: sel_inv_def counted_def split: option.splits)

lemma sum_holds_update:
  "i < length ts \<Longrightarrow>
   sum_list (map (holds d c sem) (ts[i := t])) + holds d c sem (ts ! i) = sum_list (map (holds d c sem) ts) + holds d c sem t"
  using sum_list_update_nat [of i "map (holds d c sem) ts" "holds d c sem t"] by (simp add: map_update)

definition keeps :: "nat \<Rightarrow> sys \<Rightarrow> sys \<Rightarrow> bool" where
  "keeps i s s' \<longleftrightarrow>
     (\<exists>t'. threads s' = (threads s)[i := t'] \<and>
        (\<forall>d c sem. counted s' d c sem = 0 \<or>
           counted s' d c sem + holds d c sem (threads s ! i) \<le> counted s d c sem + holds d c sem t'))"

lemma keeps_inv:
  assumes "keeps i s s'" "sel_inv s" "i < length (threads s)"
  shows "sel_inv s'"
  unfolding sel_inv_counted
proof (intro allI)
  fix d c sem
  obtain t' where t': "threads s' = (threads s)[i := t']"
    and le: "counted s' d c sem = 0 \<or>
      counted s' d c sem + holds d c sem (threads s ! i) \<le> counted s d c sem + holds d c sem t'"
    using assms(1) by (auto simp: keeps_def)
  have "counted s d c sem \<le> sum_list (map (holds d c sem) (threads s))"
    using assms(2) by (simp add: sel_inv_counted)
  then show "counted s' d c sem \<le> sum_list (map (holds d c sem) (threads s'))"
    using le sum_holds_update [OF assms(3), of d c sem t'] t' by auto
qed

subsection \<open>Critical sections leave the lists alone\<close>

definition same_lists :: "channel_t \<Rightarrow> channel_t \<Rightarrow> bool" where
  "same_lists ch ch' \<longleftrightarrow> send_selectors ch' = send_selectors ch \<and> recv_selectors ch' = recv_selectors ch"

lemma same_lists_sel: "same_lists ch ch' \<Longrightarrow> sel_list d ch' = sel_list d ch"
  by (simp add: same_lists_def sel_list_def)

definition same_sel :: "(env \<times> 'n) option \<Rightarrow> env \<Rightarrow> bool" where
  "same_sel res e \<longleftrightarrow> (\<forall>e' nx. res = Some (e', nx) \<longrightarrow> same_lists (e_chan e) (e_chan e'))"

lemma same_sel_simps [simp]:
  "same_sel None e" "same_sel (Some (e', nx)) e \<longleftrightarrow> same_lists (e_chan e) (e_chan e')"
  "same_lists ch ch" "same_sel (map_option (apsnd f) res) e \<longleftrightarrow> same_sel res e"
  "same_lists ch (ch'\<lparr>ch_buffer := b\<rparr>) \<longleftrightarrow> same_lists ch ch'"
  "same_lists ch (ch'\<lparr>closed_flag := cf\<rparr>) \<longleftrightarrow> same_lists ch ch'"
  "same_lists ch (ch'\<lparr>unbuf_stage := st\<rparr>) \<longleftrightarrow> same_lists ch ch'"
  "same_lists ch (ch'\<lparr>unbuf_data := p\<rparr>) \<longleftrightarrow> same_lists ch ch'"
  "same_lists ch (ch'\<lparr>active_unbuf_op := op\<rparr>) \<longleftrightarrow> same_lists ch ch'"
  "same_lists ch (add_waiting op n ch') \<longleftrightarrow> same_lists ch ch'"
  by (auto simp: same_sel_def same_lists_def add_waiting_def)

lemma same_sync: "same_sel (unbuffered_sync op a e) e"
  by (simp add: unbuffered_sync_def Let_def same_lists_def add_waiting_def split: option.split)

lemma same_sync_resume: "same_sel (unbuffered_sync_resume op a r e) e"
  using same_sync [of op a "e\<lparr>e_chan := add_waiting op (- 1) (e_chan e)\<rparr>"]
  by (simp add: unbuffered_sync_resume_def same_sel_def same_lists_def add_waiting_def split: if_splits)

lemma same_bind: "(\<And>x. res = Some x \<Longrightarrow> same_sel (f x) e) \<Longrightarrow> same_sel (Option.bind res f) e"
  by (cases res) simp_all

lemma same_loops:
  "same_sel (channel_send_loop a e) e" "same_sel (channel_receive_loop a e) e"
  "same_sel (non_blocking_send_unbuf a e) e" "same_sel (non_blocking_receive_unbuf a e) e"
  by (auto simp: channel_send_loop_def channel_receive_loop_def non_blocking_send_unbuf_def
      non_blocking_receive_unbuf_def Let_def same_sync intro!: same_bind split: prod.split)

lemma same_nonblocking:
  "same_sel (channel_non_blocking_send lk a e) e" "same_sel (channel_non_blocking_receive lk a e) e"
  by (auto simp: channel_non_blocking_send_def channel_non_blocking_receive_def same_loops
      intro!: same_bind split: prod.split)

lemma same_entry: "same_sel (entry_section lk cl e) e"
  by (cases cl) (simp_all add: channel_send_def channel_receive_def channel_close_def same_sync same_loops same_nonblocking)

lemma same_resume: "same_sel (resume_section cl r e) e"
  by (cases cl; cases r) (simp_all add: same_sync_resume same_loops)

lemma same_select_entry: "same_sel (channel_select_entry lk es e) e"
  by (simp add: channel_select_entry_def select_unbuffered_def select_buffered_def same_nonblocking same_sync Let_def)

lemma same_select_resume: "same_sel (select_resume es r e) e"
  by (simp add: select_resume_def same_sync_resume)

lemma run_section_counted:
  assumes "run_section c f s = Some (s', ws, nx)" "\<And>e. same_sel (f e) e"
  shows "counted s' = counted s" "threads s' = threads s"
proof -
  obtain ch e where ch: "chans s c = Some ch"
    and f: "f \<lparr>e_chan = ch, e_mem = mem s, e_sems = sems s, e_wakes = []\<rparr> = Some (e, nx)"
    and s': "s' = s\<lparr>chans := (chans s)(c \<mapsto> e_chan e), mem := e_mem e, sems := e_sems e\<rparr>"
    using assms(1) by (auto simp: run_section_def bind_eq_Some_conv)
  have "same_lists ch (e_chan e)"
    using assms(2) [of "\<lparr>e_chan = ch, e_mem = mem s, e_sems = sems s, e_wakes = []\<rparr>"] f by simp
  then show "counted s' = counted s" "threads s' = threads s"
    using ch s' by (auto simp: counted_def fun_eq_iff same_lists_sel)
qed

subsection \<open>Every step keeps the count\<close>

lemma moved_holds:
  "i < length (threads s) \<Longrightarrow> threads s' = threads s \<Longrightarrow>
   threads (set_thread i p w s') = (threads s)[i := (threads s ! i)\<lparr>t_pc := p, t_wait := w\<rparr>]"
  by (simp add: set_thread_def)

lemma counted_simps [simp]:
  "counted (set_thread i p w s) = counted s" "counted (s\<lparr>sems := x\<rparr>) = counted s"
  "counted (s\<lparr>threads := ts\<rparr>) = counted s" "counted (s\<lparr>mem := m\<rparr>) = counted s"
  "counted (log_transfer d c a s) = counted s" "counted (log_call cl s) = counted s"
  by (cases cl; simp add: counted_def fun_eq_iff set_thread_def log_transfer_def)+

lemma keepsI:
  assumes "i < length (threads s)" "threads s' = threads s" "counted s' = counted s"
    "\<And>d c sem. holds d c sem (threads s ! i) \<le> holds d c sem ((threads s ! i)\<lparr>t_pc := p, t_wait := w\<rparr>)"
  shows "keeps i s (set_thread i p w s')"
  unfolding keeps_def using assms by (auto simp: moved_holds)

lemma holds_simple: "is_simple (t_call t) \<Longrightarrow> holds d c sem t = 0"
  by (simp add: holds_def is_simple_def split: call.splits)

lemma holds_moved:
  "t_call t = Select es sem' \<Longrightarrow> t_pc t = p' \<Longrightarrow> registered es p' = registered es p \<Longrightarrow>
   holds d c sem t \<le> holds d c sem (t\<lparr>t_pc := p, t_wait := w\<rparr>)"
  by (simp add: holds_def)

lemma keeps_after_section:
  assumes "i < length (threads s)" "threads s' = threads s" "counted s' = counted s" "is_simple (t_call (threads s ! i))"
  shows "keeps i s (after_section i cl nx s')"
  using assms by (cases nx) (auto intro!: keepsI simp: holds_simple)

lemma post_step_counted: "post_step c p s = Some (s', ws) \<Longrightarrow> counted s' = counted s \<and> threads s' = threads s"
  by (cases p) (auto simp: post_step_def bind_eq_Some_conv)

lemma simple_step_keeps:
  assumes step: "simple_step lk i cl p s = Some (s', c, ws)" and i: "i < length (threads s)"
    and sim: "is_simple (t_call (threads s ! i))"
  shows "keeps i s s'"
proof (cases p)
  case Entry
  then show ?thesis using step run_section_counted [OF _ same_entry] keeps_after_section [OF i _ _ sim]
    by (auto simp: simple_step_def bind_eq_Some_conv)
next
  case (Resume r)
  then show ?thesis using step run_section_counted [OF _ same_resume] keeps_after_section [OF i _ _ sim]
    by (auto simp: simple_step_def bind_eq_Some_conv)
next
  case (Posting ps st)
  then show ?thesis using step sim i
    by (auto simp: simple_step_def bind_eq_Some_conv holds_simple split: list.splits intro!: keepsI
        dest!: post_step_counted)
qed (use step in \<open>simp_all add: simple_step_def\<close>)

lemma keeps_after_select:
  assumes i: "i < length (threads s)" "threads s' = threads s" "counted s' = counted s"
    and t: "t_call (threads s ! i) = Select es sem" "registered es (t_pc (threads s ! i)) = es"
  shows "keeps i s (after_select i k e nx s')"
  using i t by (cases nx) (auto intro!: keepsI holds_moved)

text \<open>Registering an entry, and cleaning one up.\<close>

lemma sel_list_init:
  "count_list (sel_list d (init_select_step ok e sem' ch)) sem \<le>
     count_list (sel_list d ch) sem + (if sem' = sem \<and> sel_dir e = d then 1 else 0)"
  by (cases d; cases "sel_dir e"; cases "send_selectors ch"; cases "recv_selectors ch")
    (simp_all add: sel_list_def init_select_step_def add_select_sender_def add_select_receiver_def selectors_def)

lemma count_list_remove1: "count_list (remove1 y xs) x = (if x = y then count_list xs x - 1 else count_list xs x)"
  by (induction xs) (auto simp: count_list_0_iff)

lemma sel_list_cleanup:
  "count_list (sel_list d (cleanup_select_step e sem' ch)) sem =
     count_list (sel_list d ch) sem - (if sem' = sem \<and> sel_dir e = d then 1 else 0)"
  by (cases d; cases "sel_dir e"; cases "send_selectors ch"; cases "recv_selectors ch")
    (simp_all add: sel_list_def cleanup_select_step_def remove_select_sender_def remove_select_receiver_def
      selectors_def count_list_remove1)

lemma cleanup_arith: "a' = a - n \<Longrightarrow> h' + n = h \<Longrightarrow> a' = 0 \<or> a' + h \<le> a + (h' :: nat)"
  by arith

lemma select_step_keeps:
  assumes step: "select_step lk i es sem p s = Some (s', c, ws)" and i: "i < length (threads s)"
    and t: "t_call (threads s ! i) = Select es sem" "t_pc (threads s ! i) = p"
  shows "keeps i s s'"
proof (cases p)
  case Entry
  then show ?thesis using step i t
    by (auto simp: select_step_def holds_def intro!: keepsI split: if_splits)
next
  case (SelInit k)
  show ?thesis
  proof (cases "k < length es")
    case True
    let ?e = "es ! k" and ?t' = "(threads s ! i)\<lparr>t_pc := SelInit (Suc k), t_wait := None\<rparr>"
    obtain ch where ch: "chans s (sel_channel ?e) = Some ch"
      and s': "s' = set_thread i (SelInit (Suc k)) None
        (s\<lparr>chans := (chans s)(sel_channel ?e \<mapsto> init_select_step lk ?e sem ch)\<rparr>)"
      using step SelInit True by (auto simp: select_step_def bind_eq_Some_conv)
    have "counted s' d a x \<le> counted s d a x + (if sem = x \<and> matches d a ?e then 1 else 0)" for d a x
      using s' ch sel_list_init [of d lk ?e sem ch x] by (auto simp: counted_def matches_def set_thread_def)
    moreover have "holds d a x ?t' = holds d a x (threads s ! i) + (if sem = x \<and> matches d a ?e then 1 else 0)" for d a x
      using t SelInit True by (simp add: holds_def take_Suc_conv_app_nth)
    ultimately show ?thesis unfolding keeps_def
      using s' i by (intro exI [of _ ?t'] conjI allI disjI2) (simp_all add: set_thread_def)
  qed (use step SelInit i t in \<open>auto simp: select_step_def intro!: keepsI holds_moved\<close>)
next
  case (SelCleanup k st idx)
  show ?thesis
  proof (cases "k < length es")
    case True
    let ?e = "es ! k" and ?t' = "(threads s ! i)\<lparr>t_pc := SelCleanup (Suc k) st idx, t_wait := None\<rparr>"
    obtain ch where ch: "chans s (sel_channel ?e) = Some ch"
      and s': "s' = set_thread i (SelCleanup (Suc k) st idx) None
        (s\<lparr>chans := (chans s)(sel_channel ?e \<mapsto> cleanup_select_step ?e sem ch)\<rparr>)"
      using step SelCleanup True by (auto simp: select_step_def bind_eq_Some_conv)
    have "counted s' d a x = counted s d a x - (if sem = x \<and> matches d a ?e then 1 else 0)" for d a x
      using s' ch sel_list_cleanup [of d ?e sem ch x] by (auto simp: counted_def matches_def set_thread_def)
    moreover have "holds d a x ?t' + (if sem = x \<and> matches d a ?e then 1 else 0) = holds d a x (threads s ! i)" for d a x
      using t SelCleanup True by (simp add: holds_def flip: Cons_nth_drop_Suc)
    ultimately have "counted s' d a x = 0 \<or>
      counted s' d a x + holds d a x (threads s ! i) \<le> counted s d a x + holds d a x ?t'" for d a x
      by (rule cleanup_arith)
    then show ?thesis unfolding keeps_def
      using s' i by (intro exI [of _ ?t'] conjI allI) (simp_all add: set_thread_def)
  qed (use step SelCleanup i t in \<open>auto simp: select_step_def intro!: keepsI holds_moved\<close>)
next
  case (SelScan k)
  then show ?thesis
    using step i t run_section_counted [OF _ same_select_entry]
    by (auto simp: select_step_def bind_eq_Some_conv intro!: keepsI holds_moved keeps_after_select split: if_splits)
next
  case (SelResume k r)
  then show ?thesis
    using step i t run_section_counted [OF _ same_select_resume]
    by (auto simp: select_step_def bind_eq_Some_conv intro!: keeps_after_select split: if_splits)
next
  case (SelPosting k ps st)
  then show ?thesis using step i t
    by (auto simp: select_step_def bind_eq_Some_conv intro!: keepsI holds_moved dest!: post_step_counted
        split: list.splits if_splits)
next
  case SelWait
  have "keeps i s s" by (auto simp: keeps_def intro: exI [of _ "threads s ! i"])
  then show ?thesis using step i t SelWait
    by (auto simp: select_step_def intro!: keepsI holds_moved split: if_splits)
qed (use step in \<open>simp_all add: select_step_def\<close>)


lemma thread_step_keeps:
  assumes step: "thread_step lk i s = Some (s', c, ws)" and i: "i < length (threads s)"
  shows "keeps i s s'"
proof (cases "\<exists>st idx. t_pc (threads s ! i) = Done st idx")
  case True
  then have "s' = s" using step by (auto simp: thread_step_def Let_def)
  then show ?thesis by (auto simp: keeps_def intro: exI [of _ "threads s ! i"])
next
  case False
  let ?t = "threads s ! i"
  have p: "\<forall>st idx. t_pc ?t \<noteq> Done st idx" using False by blast
  consider (sel) es sem where "t_call ?t = Select es sem" | (des) b where "t_call ?t = Destroy b"
    | (sim) "is_simple (t_call ?t)"
    by (cases "t_call ?t") (auto simp: is_simple_def)
  then show ?thesis
  proof cases
    case sel
    then show ?thesis using select_step_keeps [OF _ i sel refl] step by (simp add: thread_step_dispatch [OF refl p])
  next
    case des
    then have "destroy_step i b s = Some (s', c, ws)" using step by (simp add: thread_step_dispatch [OF refl p])
    then obtain st ch ch' where s': "s' = set_thread i (Done st None) None (s\<lparr>chans := (chans s)(b := ch')\<rparr>)"
      and ch: "chans s b = Some ch" "ch' = None \<or> ch' = Some ch"
      by (auto simp: destroy_step_def channel_destroy_def bind_eq_Some_conv split: if_splits)
    have le: "counted s' d a x \<le> counted s d a x" for d a x
      using s' ch by (auto simp: counted_def set_thread_def)
    show ?thesis unfolding keeps_def
      by (intro exI [of _ "?t\<lparr>t_pc := Done st None, t_wait := None\<rparr>"] conjI allI disjI2 add_mono le)
        (use s' i des in \<open>simp_all add: moved_holds holds_def\<close>)
  next
    case sim
    then have "thread_step lk i s = simple_step lk i (t_call ?t) (t_pc ?t) s"
      by (simp add: thread_step_dispatch [OF refl p] is_simple_def split: call.splits)
    then show ?thesis using simple_step_keeps [OF _ i sim] step by metis
  qed
qed

lemma holds_cong: "t_call t' = t_call t \<Longrightarrow> t_pc t' = t_pc t \<Longrightarrow> holds d c sem t' = holds d c sem t"
  by (cases "t_call t") (simp_all add: holds_def)

lemma holds_woken:
  assumes "wake_steps c ws ts ts'"
  shows "map (holds d b sem) ts' = map (holds d b sem) ts"
  using wake_steps_calls [OF assms] by (auto intro!: nth_equalityI holds_cong)

lemma sys_step_sel: "sys_step s s' \<Longrightarrow> sel_inv s \<Longrightarrow> sel_inv s'"
proof (induction rule: sys_step.induct)
  case (run i s lk s' c ws ts)
  then have "sel_inv s'" using keeps_inv thread_step_keeps by blast
  then show ?case using holds_woken [OF run.hyps(4)] by (simp add: sel_inv_counted)
next
  case (spurious i s)
  have "map (holds d b sem) ((threads s)[i := (threads s ! i)\<lparr>t_wait := None\<rparr>]) = map (holds d b sem) (threads s)" for d b sem
    using spurious.hyps by (intro nth_equalityI) (auto simp: nth_list_update intro: holds_cong)
  then show ?case using spurious.prems by (simp add: sel_inv_counted)
next
  case (store s a v)
  then show ?case by (simp add: sel_inv_counted)
next
  case (new_call i s st idx cl)
  let ?t' = "\<lparr>t_call = cl, t_pc = Entry, t_wait = None\<rparr>"
  have "holds d b sem (threads s ! i) = 0" for d b sem using new_call.hyps(2) by (simp add: holds_def split: call.split)
  then have "keeps i s (s\<lparr>threads := (threads s)[i := ?t']\<rparr>)"
    unfolding keeps_def by (intro exI [of _ ?t']) simp
  then show ?case using keeps_inv new_call by blast
qed

lemma reachable_sel:
  assumes "reachable s0 s" "sys_init s0"
  shows "sel_inv s"
  using assms(1)
proof (induction rule: reachable_induct)
  case start
  then show ?case using assms(2)
    by (fastforce simp: sel_inv_def sys_init_def sel_list_def selectors_def dest: created_fields split: if_splits)
qed (rule sys_step_sel)

end
