(* ===== verification/Channel_Rendezvous.thy ===== *)
theory Channel_Rendezvous
  imports Channel_Live
begin

text \<open>
  The rendezvous of an unbuffered channel. The first thread publishes the address of its
  message, a cell of its own stack frame, in \<open>unbuf_data\<close> and waits; the second reads or
  writes through that address. The invariant names the owner: while the stage is not 0
  exactly one thread is inside the rendezvous it opened, and the published operation and
  address are those of its call; while the stage is 0 there is none.
\<close>

fun dir_op :: "direction \<Rightarrow> int" where
  "dir_op SEND = unbuf_op_send"
| "dir_op RECV = unbuf_op_receive"

definition owner :: "nat \<Rightarrow> call \<Rightarrow> pc \<Rightarrow> (int \<times> nat) option" where
  "owner c cl p =
     (case p of
        Resume r \<Rightarrow> if r = SyncDone \<and> call_chan cl = c then map_option (apfst dir_op) (call_moves cl) else None
      | SelResume k r \<Rightarrow>
          (case cl of
             Select es sem \<Rightarrow>
               if r = SyncDone \<and> sel_channel (es ! k) = c then Some (dir_op (sel_dir (es ! k)), sel_data (es ! k)) else None
           | _ \<Rightarrow> None)
      | _ \<Rightarrow> None)"

abbreviation owns :: "nat \<Rightarrow> thread \<Rightarrow> (int \<times> nat) option" where
  "owns c t \<equiv> owner c (t_call t) (t_pc t)"

definition rdv :: "channel_t \<Rightarrow> int \<times> int \<times> ptr" where
  "rdv ch = (unbuf_stage ch, active_unbuf_op ch, unbuf_data ch)"

definition rdv_ok :: "int \<times> int \<times> ptr \<Rightarrow> (int \<times> nat) option list \<Rightarrow> bool" where
  "rdv_ok r ws \<longleftrightarrow>
     (case r of (st, op, d) \<Rightarrow>
        if st = 0 then \<forall>j < length ws. ws ! j = None
        else (st = 1 \<or> st = 2) \<and>
          (\<exists>a. d = Some a \<and> (\<exists>i < length ws. ws ! i = Some (op, a) \<and> (\<forall>j < length ws. j \<noteq> i \<longrightarrow> ws ! j = None))))"

definition rdv_inv :: "sys \<Rightarrow> bool" where
  "rdv_inv s \<longleftrightarrow> (\<forall>c ch. chans s c = Some ch \<longrightarrow> rdv_ok (rdv ch) (map (owns c) (threads s)))"

text \<open>What one thread may do: nothing, open a rendezvous, complete one, leave its own.\<close>

definition rdv_move :: "int \<times> int \<times> ptr \<Rightarrow> (int \<times> nat) option \<Rightarrow> int \<times> int \<times> ptr \<Rightarrow> (int \<times> nat) option \<Rightarrow> bool" where
  "rdv_move r w r' w' \<longleftrightarrow>
     r' = r \<and> w' = w \<or>
     (\<exists>op a. fst r = 0 \<and> w = None \<and> r' = (1, op, Some a) \<and> w' = Some (op, a)) \<or>
     fst r = 1 \<and> r' = (2, snd r) \<and> w' = w \<or>
     w \<noteq> None \<and> fst r' = 0 \<and> w' = None"

lemma rdv_ok_move:
  assumes ok: "rdv_ok r ws" and i: "i < length ws" and move: "rdv_move r (ws ! i) r' w"
  shows "rdv_ok r' (ws[i := w])"
proof -
  obtain st op d where r: "r = (st, op, d)" by (cases r) auto
  consider (same) "r' = r" "w = ws ! i"
    | (start) op a where "st = 0" "r' = (1, op, Some a)" "w = Some (op, a)"
    | (complete) "st = 1" "r' = (2, op, d)" "w = ws ! i"
    | (leave) "ws ! i \<noteq> None" "fst r' = 0" "w = None"
    using move r by (auto simp: rdv_move_def)
  then show ?thesis
  proof cases
    case same
    then show ?thesis using ok by simp
  next
    case (start op a)
    then show ?thesis using ok r i by (auto simp: rdv_ok_def nth_list_update)
  next
    case complete
    then show ?thesis using ok r by (simp add: rdv_ok_def)
  next
    case leave
    then have "st \<noteq> 0" using ok r i by (auto simp: rdv_ok_def)
    then obtain k where "k < length ws" "\<forall>j < length ws. j \<noteq> k \<longrightarrow> ws ! j = None"
      using ok r by (auto simp: rdv_ok_def)
    then have "ws ! j = None" if "j < length ws" "j \<noteq> i" for j
      using leave(1) i that by metis
    then show ?thesis using leave i by (cases r') (simp add: rdv_ok_def nth_list_update)
  qed
qed

subsection \<open>Critical sections\<close>

text \<open>
  A section of a thread with operation \<open>op\<close> and cell \<open>a\<close>; \<open>own\<close> says that the thread is the
  owner when it starts, \<open>enters\<close> that it waits as the owner afterwards.
\<close>

definition rdv_section :: "int \<Rightarrow> nat \<Rightarrow> bool \<Rightarrow> ('n \<Rightarrow> bool) \<Rightarrow> (env \<times> 'n) option \<Rightarrow> env \<Rightarrow> bool" where
  "rdv_section op a own enters res e \<longleftrightarrow>
     (\<forall>e' nx. res = Some (e', nx) \<longrightarrow>
        rdv_move (rdv (e_chan e)) (if own then Some (op, a) else None)
          (rdv (e_chan e')) (if enters nx then Some (op, a) else None))"

fun enters :: "outcome \<Rightarrow> bool" where
  "enters (Wait cv r) = (r = SyncDone)"
| "enters _ = False"

fun select_enters :: "select_next \<Rightarrow> bool" where
  "select_enters (SelectWait cv r) = (r = SyncDone)"
| "select_enters _ = False"

lemma rdv_none [simp]: "rdv_section op a own en None e"
  by (simp add: rdv_section_def)

lemma rdv_updates [simp]:
  "rdv (ch\<lparr>ch_buffer := b\<rparr>) = rdv ch" "rdv (ch\<lparr>closed_flag := cf\<rparr>) = rdv ch" "rdv (add_waiting op n ch) = rdv ch"
  "rdv (ch\<lparr>send_selectors := l\<rparr>) = rdv ch" "rdv (ch\<lparr>recv_selectors := l\<rparr>) = rdv ch"
  "rdv (init_select_step ok e sem ch) = rdv ch" "rdv (cleanup_select_step e sem ch) = rdv ch"
  by (simp_all add: rdv_def add_waiting_def init_select_step_def cleanup_select_step_def add_select_sender_def
      add_select_receiver_def remove_select_sender_def remove_select_receiver_def)

lemma rdv_same: "rdv (e_chan e') = rdv (e_chan e) \<Longrightarrow> \<not> en nx \<Longrightarrow> rdv_section op a False en (Some (e', nx)) e"
  by (simp add: rdv_section_def rdv_move_def)

lemma rdv_sync: "rdv_section op a False enters (unbuffered_sync op a e) e"
  by (cases "unbuf_data (e_chan e)")
    (simp_all add: unbuffered_sync_def Let_def rdv_section_def rdv_move_def rdv_def add_waiting_def)

lemma rdv_sync_resume: "rdv_section op a (r = SyncDone) enters (unbuffered_sync_resume op a r e) e"
proof (cases "r = SyncDone")
  case True
  then show ?thesis by (simp add: unbuffered_sync_resume_def rdv_section_def rdv_move_def rdv_def)
next
  case False
  then show ?thesis
    using rdv_sync [of op a "e\<lparr>e_chan := add_waiting op (- 1) (e_chan e)\<rparr>"]
    by (simp add: unbuffered_sync_resume_def rdv_section_def)
qed

lemma rdv_bind: "(\<And>x. res = Some x \<Longrightarrow> rdv_section op a own en (f x) e) \<Longrightarrow> rdv_section op a own en (Option.bind res f) e"
  by (cases res) simp_all

lemma rdv_map:
  "(\<And>nx. en' (f nx) = en nx) \<Longrightarrow> rdv_section op a own en res e \<Longrightarrow> rdv_section op a own en' (map_option (apsnd f) res) e"
  by (cases res) (auto simp: rdv_section_def)

lemma rdv_loops:
  "rdv_section op a False enters (channel_send_loop x e) e" "rdv_section op a False enters (channel_receive_loop x e) e"
  by (auto simp: channel_send_loop_def channel_receive_loop_def intro!: rdv_bind rdv_same split: prod.split)

lemma rdv_nb_unbuf:
  "rdv_section unbuf_op_send a False enters (non_blocking_send_unbuf a e) e"
  "rdv_section unbuf_op_receive a False enters (non_blocking_receive_unbuf a e) e"
  by (auto simp: non_blocking_send_unbuf_def non_blocking_receive_unbuf_def Let_def rdv_sync intro!: rdv_same)

lemma rdv_nb:
  "rdv_section unbuf_op_send a False enters (channel_non_blocking_send lk a e) e"
  "rdv_section unbuf_op_receive a False enters (channel_non_blocking_receive lk a e) e"
  by (auto simp: channel_non_blocking_send_def channel_non_blocking_receive_def rdv_nb_unbuf
      intro!: rdv_bind rdv_same split: prod.split)

lemma rdv_entry:
  "call_moves cl = Some (d, a) \<Longrightarrow> rdv_section (dir_op d) a False enters (entry_section lk cl e) e"
  by (cases cl) (auto simp: channel_send_def channel_receive_def rdv_sync rdv_loops rdv_nb intro!: rdv_same)

lemma rdv_entry_close: "call_moves cl = None \<Longrightarrow> rdv_section op a False (\<lambda>_. False) (entry_section lk cl e) e"
  by (cases cl) (auto simp: channel_close_def intro!: rdv_same)

lemma rdv_resume:
  "call_moves cl = Some (d, a) \<Longrightarrow> rdv_section (dir_op d) a (r = SyncDone) enters (resume_section cl r e) e"
  using rdv_sync_resume [of "dir_op d" a r e]
  by (cases cl; cases r) (auto simp: rdv_loops rdv_nb_unbuf)

lemma select_outcome_enters: "select_enters (select_outcome nx) = enters nx"
  by (cases nx) auto

lemma rdv_select_unbuffered: "rdv_section op a False select_enters (select_unbuffered op p ps a e) e"
  by (auto simp: select_unbuffered_def Let_def rdv_sync select_outcome_enters intro!: rdv_same rdv_map [where en = enters])

lemma rdv_select_buffered:
  "rdv_section op a False enters res e \<Longrightarrow> rdv_section op a False select_enters (select_buffered res) e"
  unfolding select_buffered_def by (rule rdv_map [where en = enters]) (auto simp: select_outcome_enters)

lemma rdv_select_entry:
  "rdv_section (dir_op (sel_dir x)) (sel_data x) False select_enters (channel_select_entry lk x e) e"
  by (cases "sel_dir x") (simp_all add: channel_select_entry_def rdv_select_unbuffered rdv_select_buffered rdv_nb)

lemma rdv_select_resume:
  "rdv_section (dir_op (sel_dir x)) (sel_data x) (r = SyncDone) select_enters (select_resume x r e) e"
  using rdv_sync_resume [of "dir_op (sel_dir x)" "sel_data x" r e]
  unfolding select_resume_def by (cases "sel_dir x") (auto simp: select_outcome_enters intro!: rdv_map [where en = enters])

subsection \<open>Steps of the system\<close>

definition rdv_step :: "nat \<Rightarrow> sys \<Rightarrow> sys \<Rightarrow> bool" where
  "rdv_step i s s' \<longleftrightarrow>
     (\<exists>t'. threads s' = (threads s)[i := t'] \<and>
        (\<forall>c ch'. chans s' c = Some ch' \<longrightarrow>
           (\<exists>ch. chans s c = Some ch \<and> rdv_move (rdv ch) (owns c (threads s ! i)) (rdv ch') (owns c t'))))"

lemma rdv_step_inv:
  assumes "rdv_step i s s'" "rdv_inv s" "i < length (threads s)"
  shows "rdv_inv s'"
  unfolding rdv_inv_def
proof (intro allI impI)
  fix c ch'
  assume "chans s' c = Some ch'"
  then obtain t' ch where "threads s' = (threads s)[i := t']" "chans s c = Some ch"
    "rdv_move (rdv ch) (owns c (threads s ! i)) (rdv ch') (owns c t')"
    using assms(1) unfolding rdv_step_def by blast
  then show "rdv_ok (rdv ch') (map (owns c) (threads s'))"
    using rdv_ok_move [of "rdv ch" "map (owns c) (threads s)" i] assms(2,3) by (simp add: rdv_inv_def map_update)
qed

text \<open>A step that leaves the channels' rendezvous and the thread's role alone.\<close>

lemma rdv_step_same:
  assumes "threads s' = (threads s)[i := t']" "\<And>c. owns c t' = owns c (threads s ! i)"
    "\<And>c ch'. chans s' c = Some ch' \<Longrightarrow> \<exists>ch. chans s c = Some ch \<and> rdv ch' = rdv ch"
  shows "rdv_step i s s'"
  unfolding rdv_step_def
proof (intro exI [of _ t'] conjI allI impI)
  show "threads s' = (threads s)[i := t']" by (fact assms(1))
  fix c ch'
  assume "chans s' c = Some ch'"
  then show "\<exists>ch. chans s c = Some ch \<and> rdv_move (rdv ch) (owns c (threads s ! i)) (rdv ch') (owns c t')"
    using assms(3) by (fastforce simp: rdv_move_def assms(2))
qed

lemma rdv_step_section:
  assumes run: "run_section c f s = Some (s1, ws, nx)"
    and sec: "\<And>e. rdv_section op a own en (f e) e"
    and s': "threads s' = (threads s)[i := t']" "chans s' = chans s1"
    and t: "\<And>b. owns b (threads s ! i) = (if own \<and> b = c then Some (op, a) else None)"
    and t': "\<And>b. owns b t' = (if en nx \<and> b = c then Some (op, a) else None)"
  shows "rdv_step i s s'"
proof -
  obtain ch e where ch: "chans s c = Some ch"
    and f: "f \<lparr>e_chan = ch, e_mem = mem s, e_sems = sems s, e_wakes = []\<rparr> = Some (e, nx)"
    and s1: "s1 = s\<lparr>chans := (chans s)(c \<mapsto> e_chan e), mem := e_mem e, sems := e_sems e\<rparr>"
    using run by (auto simp: run_section_def bind_eq_Some_conv)
  have "rdv_move (rdv ch) (owns c (threads s ! i)) (rdv (e_chan e)) (owns c t')"
    using sec [of "\<lparr>e_chan = ch, e_mem = mem s, e_sems = sems s, e_wakes = []\<rparr>"] f t [of c] t' [of c]
    by (simp add: rdv_section_def)
  moreover have "rdv_move (rdv ch') (owns b (threads s ! i)) (rdv ch') (owns b t')" if "b \<noteq> c" for b ch'
    using t [of b] t' [of b] that by (simp add: rdv_move_def)
  ultimately show ?thesis
    unfolding rdv_step_def using s' s1 ch by (intro exI [of _ t'] conjI allI impI) (auto split: if_splits)
qed

lemma owner_next:
  "owner b cl (fst (next_pc cl nx)) = (if enters nx \<and> b = call_chan cl then map_option (apfst dir_op) (call_moves cl) else None)"
  by (cases nx) (auto simp: owner_def)

lemma owner_next_sel:
  "owner b (Select es sem) (fst (next_sel k (es ! k) nx)) =
     (if select_enters nx \<and> b = sel_channel (es ! k) then Some (dir_op (sel_dir (es ! k)), sel_data (es ! k)) else None)"
  by (cases nx) (auto simp: owner_def)


lemma set_thread_moved:
  "threads s0 = threads s \<Longrightarrow> threads (set_thread i p w s0) = (threads s)[i := moved (threads s ! i) (p, w)]"
  "chans (set_thread i p w s0) = chans s0"
  by (simp_all add: set_thread_def)

lemma rdv_step_move:
  assumes "threads s0 = threads s" "\<And>c. owner c (t_call (threads s ! i)) p = owns c (threads s ! i)"
    "\<And>c ch'. chans s0 c = Some ch' \<Longrightarrow> \<exists>ch. chans s c = Some ch \<and> rdv ch' = rdv ch"
  shows "rdv_step i s (set_thread i p w s0)"
  using assms by (intro rdv_step_same [OF set_thread_moved(1)]) (simp_all add: set_thread_moved)

lemma call_moves_blocking: "is_blocking cl \<or> is_nonblocking cl \<Longrightarrow> \<exists>d a. call_moves cl = Some (d, a)"
  by (cases cl) (auto simp: is_blocking_def is_nonblocking_def)

lemma run_section_threads: "run_section c f s = Some (s1, ws, nx) \<Longrightarrow> threads s1 = threads s"
  by (auto simp: run_section_def bind_eq_Some_conv)

lemma simple_step_rdv:
  assumes step: "simple_step lk i cl p s = Some (s', c, ws)" and ok: "thread_ok (kinds s) cl p None"
    and t: "t_call (threads s ! i) = cl" "t_pc (threads s ! i) = p"
  shows "rdv_step i s s'"
proof (cases p)
  case Entry
  then obtain s1 nx where run: "run_section (call_chan cl) (entry_section lk cl) s = Some (s1, ws, nx)"
    and s': "s' = after_section i cl nx s1"
    using step by (auto simp: simple_step_def bind_eq_Some_conv)
  show ?thesis
  proof (cases "call_moves cl")
    case None
    show ?thesis
      by (rule rdv_step_section [OF run rdv_entry_close [OF None], where t' = "moved (threads s ! i) (next_pc cl nx)"])
        (use s' t Entry None run_section_threads [OF run] in \<open>simp_all add: owner_next\<close>, simp_all add: owner_def)
  next
    case (Some m)
    then obtain d a where m: "call_moves cl = Some (d, a)" by (cases m) auto
    show ?thesis
      by (rule rdv_step_section [OF run rdv_entry [OF m], where t' = "moved (threads s ! i) (next_pc cl nx)"])
        (use s' t Entry m run_section_threads [OF run] in \<open>simp_all add: owner_next\<close>, simp_all add: owner_def)
  qed
next
  case (Resume r)
  then obtain s1 nx where run: "run_section (call_chan cl) (resume_section cl r) s = Some (s1, ws, nx)"
    and s': "s' = after_section i cl nx s1"
    using step by (auto simp: simple_step_def bind_eq_Some_conv)
  then have "kinds s (call_chan cl) \<noteq> None" by (auto simp: run_section_def bind_eq_Some_conv kinds_def)
  then have "is_blocking cl \<or> is_nonblocking cl" using ok Resume by (auto simp: thread_ok_def resume_ok_def)
  then obtain d a where m: "call_moves cl = Some (d, a)" using call_moves_blocking by blast
  show ?thesis
    by (rule rdv_step_section [OF run rdv_resume [OF m], where t' = "moved (threads s ! i) (next_pc cl nx)"])
      (use s' t Resume m run_section_threads [OF run] in \<open>auto simp: owner_next\<close>, auto simp: owner_def)
next
  case (Posting ps st)
  then show ?thesis using step t
    by (auto simp: simple_step_def bind_eq_Some_conv owner_def intro!: rdv_step_move dest!: post_step_same split: list.splits)
qed (use step in \<open>simp_all add: simple_step_def\<close>)

lemma select_step_rdv:
  assumes step: "select_step lk i es sem p s = Some (s', c, ws)"
    and t: "t_call (threads s ! i) = Select es sem" "t_pc (threads s ! i) = p"
  shows "rdv_step i s s'"
proof (cases p)
  case (SelScan k)
  show ?thesis
  proof (cases "k < length es")
    case True
    then obtain s1 nx where run: "run_section (sel_channel (es ! k)) (channel_select_entry lk (es ! k)) s = Some (s1, ws, nx)"
      and s': "s' = after_select i k (es ! k) nx s1"
      using step SelScan by (auto simp: select_step_def bind_eq_Some_conv)
    show ?thesis
      by (rule rdv_step_section [OF run rdv_select_entry, where t' = "moved (threads s ! i) (next_sel k (es ! k) nx)"])
        (use s' t SelScan run_section_threads [OF run] in \<open>simp_all add: owner_next_sel\<close>, simp_all add: owner_def)
  qed (use step SelScan t in \<open>auto simp: select_step_def owner_def intro!: rdv_step_move\<close>)
next
  case (SelResume k r)
  then obtain s1 nx where run: "run_section (sel_channel (es ! k)) (select_resume (es ! k) r) s = Some (s1, ws, nx)"
    and s': "s' = after_select i k (es ! k) nx s1"
    using step by (auto simp: select_step_def bind_eq_Some_conv split: if_splits)
  show ?thesis
    by (rule rdv_step_section [OF run rdv_select_resume, where t' = "moved (threads s ! i) (next_sel k (es ! k) nx)"])
      (use s' t SelResume run_section_threads [OF run] in \<open>simp_all add: owner_next_sel\<close>, simp_all add: owner_def)
next
  case (SelInit k)
  then show ?thesis using step t
    by (auto simp: select_step_def bind_eq_Some_conv Let_def owner_def intro!: rdv_step_move split: if_splits)
next
  case (SelCleanup k st idx)
  then show ?thesis using step t
    by (auto simp: select_step_def bind_eq_Some_conv Let_def owner_def intro!: rdv_step_move split: if_splits)
next
  case (SelPosting k ps st)
  then show ?thesis using step t
    by (auto simp: select_step_def bind_eq_Some_conv owner_def intro!: rdv_step_move dest!: post_step_same
        split: list.splits if_splits)
next
  case SelWait
  have "rdv_step i s s" by (rule rdv_step_same [where t' = "threads s ! i"]) simp_all
  then show ?thesis using step SelWait t
    by (auto simp: select_step_def owner_def intro!: rdv_step_move split: if_splits)
next
  case Entry
  then show ?thesis using step t
    by (auto simp: select_step_def owner_def intro!: rdv_step_move split: if_splits)
qed (use step in \<open>simp_all add: select_step_def\<close>)

lemma thread_step_rdv:
  assumes step: "thread_step lk i s = Some (s', c, ws)" and ok: "all_ok s"
    and i: "i < length (threads s)" "t_wait (threads s ! i) = None"
  shows "rdv_step i s s'"
proof (cases "\<exists>st idx. t_pc (threads s ! i) = Done st idx")
  case True
  then have "s' = s" using step by (auto simp: thread_step_def Let_def)
  then show ?thesis by (intro rdv_step_same [where t' = "threads s ! i"]) simp_all
next
  case False
  let ?t = "threads s ! i"
  have p: "\<forall>st idx. t_pc ?t \<noteq> Done st idx" using False by blast
  have tok: "thread_ok (kinds s) (t_call ?t) (t_pc ?t) None" using ok i nth_mem by (fastforce simp: all_ok_def)
  consider (sel) es sem where "t_call ?t = Select es sem" | (des) b where "t_call ?t = Destroy b"
    | (sim) "is_simple (t_call ?t)"
    by (cases "t_call ?t") (auto simp: is_simple_def)
  then show ?thesis
  proof cases
    case sel
    then show ?thesis using select_step_rdv [OF _ sel refl] step by (simp add: thread_step_dispatch [OF refl p])
  next
    case des
    then have "destroy_step i b s = Some (s', c, ws)" using step by (simp add: thread_step_dispatch [OF refl p])
    then obtain st ch ch' where s': "s' = set_thread i (Done st None) None (s\<lparr>chans := (chans s)(b := ch')\<rparr>)"
      and ch: "chans s b = Some ch" "ch' = None \<or> ch' = Some ch"
      by (auto simp: destroy_step_def channel_destroy_def bind_eq_Some_conv split: if_splits)
    have "owns d ?t = None" for d using des tok by (cases "t_pc ?t") (auto simp: owner_def thread_ok_def)
    then show ?thesis unfolding s' using ch
      by (intro rdv_step_move) (auto simp: owner_def split: if_splits)
  next
    case sim
    then have "thread_step lk i s = simple_step lk i (t_call ?t) (t_pc ?t) s"
      by (simp add: thread_step_dispatch [OF refl p] is_simple_def split: call.splits)
    then show ?thesis using simple_step_rdv [OF _ tok refl refl] step by metis
  qed
qed

lemma owns_woken:
  assumes "wake_steps c ws ts ts'"
  shows "map (owns b) ts' = map (owns b) ts"
  using wake_steps_calls [OF assms] by (auto intro!: nth_equalityI)

lemma sys_step_rdv: "sys_step s s' \<Longrightarrow> all_ok s \<Longrightarrow> rdv_inv s \<Longrightarrow> rdv_inv s'"
proof (induction rule: sys_step.induct)
  case (run i s lk s' c ws ts)
  then have "rdv_inv s'" using rdv_step_inv thread_step_rdv by blast
  then show ?case using owns_woken [OF run.hyps(4)] by (simp add: rdv_inv_def)
next
  case (spurious i s)
  have "rdv_step i s (s\<lparr>threads := (threads s)[i := (threads s ! i)\<lparr>t_wait := None\<rparr>]\<rparr>)"
    by (rule rdv_step_same [where t' = "(threads s ! i)\<lparr>t_wait := None\<rparr>"]) simp_all
  then show ?case using rdv_step_inv spurious by blast
next
  case (store s a v)
  then show ?case by (simp add: rdv_inv_def)
next
  case (new_call i s st idx cl)
  have "rdv_step i s (s\<lparr>threads := (threads s)[i := \<lparr>t_call = cl, t_pc = Entry, t_wait = None\<rparr>]\<rparr>)"
    by (rule rdv_step_same [where t' = "\<lparr>t_call = cl, t_pc = Entry, t_wait = None\<rparr>"]) (use new_call.hyps(2) in \<open>simp_all add: owner_def\<close>)
  then show ?case using rdv_step_inv new_call by blast
qed

lemma reachable_rdv:
  assumes "reachable s0 s" "sys_init s0"
  shows "rdv_inv s"
  using assms(1)
proof (induction rule: reachable_induct)
  case start
  have "unbuf_stage ch = 0" if "chans s0 c = Some ch" for c ch
    using assms(2) that created_fields(4) by (auto simp: sys_init_def)
  moreover have "owns c t = None" if "t \<in> set (threads s0)" for c t
    using assms(2) that by (fastforce simp: sys_init_def owner_def)
  ultimately show ?case by (auto simp: rdv_inv_def rdv_ok_def rdv_def)
next
  case (steps s s')
  then show ?case using sys_step_rdv reachable_ok assms(2) by blast
qed

end
