(* ===== verification/Channel_Props.thy ===== *)
theory Channel_Props
  imports Channel_Select Channel_Rendezvous
begin

text \<open>
  The properties of the message channels, on the model of \<open>Channel\<close> (critical sections) and
  \<open>Channel_System\<close> (interleavings), with runs of small systems as witnesses.
\<close>

subsection \<open>Building runs\<close>

lemma reach_start: "reachable s s"
  by (simp add: reachable_def)

lemma reach_step: "reachable s0 s \<Longrightarrow> sys_step s s' \<Longrightarrow> reachable s0 s'"
  by (simp add: reachable_def)

lemma reach_call:
  "reachable s0 s \<Longrightarrow> i < length (threads s) \<Longrightarrow> t_pc (threads s ! i) = Done st idx \<Longrightarrow> client_ok s cl \<Longrightarrow>
   reachable s0 (s\<lparr>threads := (threads s)[i := \<lparr>t_call = cl, t_pc = Entry, t_wait = None\<rparr>]\<rparr>)"
  by (blast intro: reach_step sys_step.new_call)

lemma reach_run:
  assumes "reachable s0 s" "thread_step True i s = Some (s', c, ws)"
    "i < length (threads s)" "t_wait (threads s ! i) = None" "wake_steps c ws (threads s') (threads s')"
  shows "reachable s0 s'"
  using reach_step [OF assms(1) sys_step.run [OF assms(3,4,2,5)]] by simp

lemma wake_none: "(\<forall>t \<in> set ts. \<forall>cv. t_wait t \<noteq> Some (c, cv)) \<Longrightarrow> wake_step c w ts ts"
proof (cases w)
  case (Signal cv)
  moreover assume "\<forall>t \<in> set ts. \<forall>cv. t_wait t \<noteq> Some (c, cv)"
  ultimately show ?thesis by (auto intro: wake_step.signal_none)
next
  case (Broadcast cv)
  assume "\<forall>t \<in> set ts. \<forall>cv. t_wait t \<noteq> Some (c, cv)"
  then have "map (unblock c cv) ts = ts" by (auto simp: unblock_def intro: map_idI)
  then show ?thesis using wake_step.broadcast [of c cv ts] Broadcast by simp
qed

text \<open>The states reached when every call that any thread ever makes satisfies \<open>P\<close>.\<close>

definition reachable_by :: "(call \<Rightarrow> bool) \<Rightarrow> sys \<Rightarrow> sys \<Rightarrow> bool" where
  "reachable_by P s0 s \<longleftrightarrow> (\<lambda>s s'. sys_step s s' \<and> (\<forall>t \<in> set (threads s'). P (t_call t)))\<^sup>*\<^sup>* s0 s"

lemma by_start: "reachable_by P s s"
  by (simp add: reachable_by_def)

lemma by_step: "reachable_by P s0 s \<Longrightarrow> sys_step s s' \<Longrightarrow> \<forall>t \<in> set (threads s'). P (t_call t) \<Longrightarrow> reachable_by P s0 s'"
  by (simp add: reachable_by_def rtranclp.rtrancl_into_rtrancl)

lemma by_reachable:
  assumes "reachable_by P s0 s"
  shows "reachable s0 s"
  using assms unfolding reachable_by_def
proof (induction rule: rtranclp_induct)
  case (step s s')
  then show ?case by (blast intro: reach_step)
qed (rule reach_start)

lemma by_run:
  assumes "reachable_by P s0 s" "thread_step True i s = Some (s', c, ws)"
    "i < length (threads s)" "t_wait (threads s ! i) = None" "wake_steps c ws (threads s') (threads s')"
    "\<forall>t \<in> set (threads s'). P (t_call t)"
  shows "reachable_by P s0 s'"
  using by_step [OF assms(1) sys_step.run [OF assms(3,4,2,5)]] assms(6) by simp

text \<open>Two threads, and one channel of capacity one (or none).\<close>

definition idle :: thread where
  "idle = \<lparr>t_call = Close 0, t_pc = Done SUCCESS None, t_wait = None\<rparr>"

definition demo_chan :: "u64 \<Rightarrow> channel_t" where
  "demo_chan sz = \<lparr>ch_buffer = (if sz = 0 then None else Some \<lparr>buf_size = 0, buf_next = 0, buf_capacity = sz, buf_data = [None]\<rparr>),
     closed_flag = False, send_selectors = Some [], recv_selectors = Some [], is_unbuffered = (sz = 0),
     active_unbuf_op = unbuf_op_none, unbuf_stage = 0, unbuf_data = NULL, waiting_senders = 0, waiting_receivers = 0\<rparr>"

definition demo :: "u64 \<Rightarrow> sys" where
  "demo sz = \<lparr>chans = [0 \<mapsto> demo_chan sz], mem = (\<lambda>a. of_nat a + 7), sems = (\<lambda>_. 0), threads = [idle, idle],
     sent = (\<lambda>_. []), recvd = (\<lambda>_. [])\<rparr>"

lemma demo_init: "sys_init (demo 0)" "sys_init (demo 1)"
proof -
  have "created (demo_chan 0)"
    unfolding created_def by (rule exI [of _ 0]) (simp add: channel_create_def demo_chan_def)
  moreover have "created (demo_chan 1)"
    unfolding created_def by (rule exI [of _ 1]) (simp add: channel_create_def demo_chan_def buffer_create_def)
  ultimately show "sys_init (demo 0)" "sys_init (demo 1)"
    by (auto simp: sys_init_def demo_def idle_def)
qed

lemma demo_simps [simp]:
  "mem (demo sz) = (\<lambda>a. of_nat a + 7)" "sems (demo sz) = (\<lambda>_. 0)" "threads (demo sz) = [idle, idle]"
  "chans (demo sz) = [0 \<mapsto> demo_chan sz]" "sent (demo sz) = (\<lambda>_. [])" "recvd (demo sz) = (\<lambda>_. [])"
  by (simp_all add: demo_def)

text \<open>
  A run on the buffered channel: thread 0 enters \<open>channel_receive\<close> and waits, thread 1 enters
  \<open>channel_send\<close> and puts its message, and has still to signal.
\<close>

definition waiting :: sys where
  "waiting = (demo 1)\<lparr>threads := [\<lparr>t_call = Receive 0 1, t_pc = Resume BufRetry, t_wait = Some (0, COND_NOT_EMPTY)\<rparr>, idle]\<rparr>"

definition posting :: sys where
  "posting = waiting\<lparr>
     chans := [0 \<mapsto> (demo_chan 1)\<lparr>ch_buffer := Some \<lparr>buf_size = 1, buf_next = 0, buf_capacity = 1, buf_data = [Some 10]\<rparr>\<rparr>],
     threads := [\<lparr>t_call = Receive 0 1, t_pc = Resume BufRetry, t_wait = Some (0, COND_NOT_EMPTY)\<rparr>,
       \<lparr>t_call = Send 0 3, t_pc = Posting [NotifyReceivers, Wake (Signal COND_NOT_EMPTY)] SUCCESS, t_wait = None\<rparr>],
     sent := (\<lambda>_. [])(0 := [10])\<rparr>"

lemmas run_defs = thread_step_def simple_step_def run_section_def set_thread_def Let_def log_transfer_def

lemma reach_waiting: "reachable (demo 1) waiting"
proof -
  let ?s = "(demo 1)\<lparr>threads := (threads (demo 1))[0 := \<lparr>t_call = Receive 0 1, t_pc = Entry, t_wait = None\<rparr>]\<rparr>"
  have "reachable (demo 1) ?s"
    by (rule reach_call [OF reach_start]) (simp_all add: idle_def client_ok_def in_call_def)
  moreover have "thread_step True 0 ?s = Some (waiting, 0, [])"
    by (simp add: run_defs channel_receive_def channel_receive_loop_def buffer_remove_def demo_chan_def waiting_def)
  ultimately show ?thesis by (rule reach_run) (simp_all add: idle_def)
qed

lemma reach_posting: "reachable (demo 1) posting"
proof -
  let ?s = "waiting\<lparr>threads := (threads waiting)[1 := \<lparr>t_call = Send 0 3, t_pc = Entry, t_wait = None\<rparr>]\<rparr>"
  have "reachable (demo 1) ?s"
    by (rule reach_call [OF reach_waiting]) (simp_all add: waiting_def idle_def client_ok_def in_call_def)
  moreover have "thread_step True 1 ?s = Some (posting, 0, [])"
    by (simp add: run_defs channel_send_def channel_send_loop_def buffer_add_def demo_chan_def waiting_def posting_def)
  ultimately show ?thesis by (rule reach_run) (simp_all add: waiting_def)
qed

subsection \<open>Order of messages\<close>

text \<open>
  C1. Under every interleaving of any number of threads the messages taken out of a channel's
  buffer are the ones put in, in order, and the rest is what the buffer holds: none is lost,
  duplicated or overtaken, and the buffer never holds more than its capacity.
\<close>

theorem channel_fifo:
  assumes "sys_init s0" "reachable s0 s" "chans s c = Some ch"
  shows "sent s c = recvd s c @ chan_msgs ch \<and>
    (\<forall>b. ch_buffer ch = Some b \<longrightarrow> length (chan_msgs ch) \<le> unat (buf_capacity b))"
  using reachable_fifo [OF assms(2,1)] assms(3)
  by (fastforce simp: fifo_inv_def chan_inv_def buffer_inv_def chan_msgs_def)

lemma chan_posting: "chans posting 0 = Some (the (chans posting 0))"
  by (simp add: posting_def)

theorem channel_fifo_witness:
  "sent posting 0 = recvd posting 0 @ chan_msgs (the (chans posting 0)) \<and> sent posting 0 = [10]"
  using channel_fifo [OF demo_init(2) reach_posting chan_posting] by (simp add: posting_def)

subsection \<open>No undefined behaviour\<close>

text \<open>
  C2. In every reachable state the next step of every thread that is not blocked is defined: no
  operation dereferences a channel that has been freed, a null buffer or a null rendezvous
  pointer, whether or not its lock succeeds.
\<close>

theorem no_undefined_step:
  assumes "sys_init s0" "reachable s0 s" "i < length (threads s)" "t_wait (threads s ! i) = None"
  shows "thread_step lk i s \<noteq> None"
proof (cases "in_call (threads s ! i)")
  case False
  then show ?thesis by (auto simp: in_call_def thread_step_def Let_def split: pc.splits)
next
  case True
  then have p: "\<forall>st idx. t_pc (threads s ! i) \<noteq> Done st idx" by (auto simp: in_call_def)
  have inv: "fifo_inv s" and ok: "all_ok s" "use_ok s" using reachable_fifo reachable_ok assms(1,2) by blast+
  then have live: "\<forall>c \<in> refs (t_call (threads s ! i)). chans s c \<noteq> None"
    using True assms(3) by (auto simp: use_ok_def subset_iff domIff)
  show ?thesis
  proof (cases "\<exists>c. t_call (threads s ! i) = Destroy c")
    case True
    then obtain c where c: "t_call (threads s ! i) = Destroy c" by blast
    then obtain ch where ch: "chans s c = Some ch" using live by auto
    then have "chan_inv ch" using inv by (simp add: fifo_inv_def)
    then show ?thesis using c ch
      by (auto simp: thread_step_dispatch [OF refl p] destroy_step_def channel_destroy_def buffer_free_def chan_inv_def
          split: option.split)
  next
    case False
    then show ?thesis using thread_step_total [OF inv ok(1) assms(3,4) live] p by blast
  qed
qed

theorem no_undefined_step_witness: "thread_step False 1 posting \<noteq> None"
  by (rule no_undefined_step [OF demo_init(2) reach_posting]) (simp_all add: posting_def)

subsection \<open>No lost wakeup\<close>

text \<open>A thread that will make a waiting thread on \<open>(c, cv)\<close> run, or a woken one that looks again.\<close>

definition on_the_way :: "nat \<Rightarrow> cond \<Rightarrow> thread \<Rightarrow> bool" where
  "on_the_way c cv t \<longleftrightarrow> t_wait t = None \<and>
     (Wake (Signal cv) \<in> set (thread_posts (t_call t) (t_pc t) c) \<or>
      Wake (Broadcast cv) \<in> set (thread_posts (t_call t) (t_pc t) c) \<or>
      t_pc t = Resume BufRetry \<and> retries cv c (t_call t))"

lemma posts_running:
  "thread_ok K (t_call t) (t_pc t) (t_wait t) \<Longrightarrow> x \<in> set (thread_posts (t_call t) (t_pc t) c) \<Longrightarrow> t_wait t = None"
  by (cases "t_call t"; cases "t_pc t") (auto simp: thread_ok_def)

lemma tok_on_the_way:
  assumes "thread_ok K (t_call t) (t_pc t) (t_wait t)" "0 < tok c cv t"
  shows "on_the_way c cv t"
proof (cases "Wake (Signal cv) \<in> set (thread_posts (t_call t) (t_pc t) c)")
  case True
  then show ?thesis using posts_running [OF assms(1)] by (simp add: on_the_way_def)
next
  case False
  then show ?thesis using assms(2) by (auto simp: tok_def on_the_way_def split: if_splits)
qed

lemma live_cases:
  assumes s: "sys_init s0" "reachable s0 s" and ch: "chans s c = Some ch" "\<not> is_unbuffered ch"
    and t: "t \<in> set (threads s)" "t_wait t = Some (c, cv)"
  shows "\<not> closed_flag ch \<and> avail cv ch = 0 \<or> (\<exists>u \<in> set (threads s). on_the_way c cv u)"
proof -
  have ok: "thread_ok (kinds s) (t_call u) (t_pc u) (t_wait u)" if "u \<in> set (threads s)" for u
    using reachable_ok [OF s(2,1)] that by (simp add: all_ok_def)
  have "balance 0 c cv (avail cv ch) (closed_flag ch) (threads s)"
    using reachable_live [OF s(2,1)] ch by (simp add: live_at_def)
  then consider u where "u \<in> set (threads s)" "bcast c cv u"
    | "\<not> closed_flag ch" "avail cv ch \<le> sum_list (map (tok c cv) (threads s))"
    using t by (auto simp: balance_def)
  then show ?thesis
  proof cases
    case (1 u)
    then have "on_the_way c cv u" using posts_running [OF ok] by (auto simp: bcast_def on_the_way_def)
    then show ?thesis using 1 by blast
  next
    case 2
    show ?thesis
    proof (cases "\<exists>u \<in> set (threads s). 0 < tok c cv u")
      case True
      then show ?thesis using tok_on_the_way [OF ok] by blast
    next
      case False
      then have "sum_list (map (tok c cv) (threads s)) = 0" by (simp add: sum_list_eq_0_iff)
      then have "avail cv ch = 0" using 2(2) by (simp only: le_zero_eq)
      then show ?thesis using 2(1) by blast
    qed
  qed
qed

text \<open>
  C7. No wakeup is lost: while a thread waits on a buffered channel, either the channel is open
  and has nothing for it, or a signal, a broadcast or a woken thread is on its way.
\<close>

theorem no_lost_wakeup:
  assumes "sys_init s0" "reachable s0 s" "chans s c = Some ch" "\<not> is_unbuffered ch"
    and "t \<in> set (threads s)" "t_wait t = Some (c, cv)"
  shows "\<not> closed_flag ch \<and> avail cv ch = 0 \<or> (\<exists>u \<in> set (threads s). on_the_way c cv u)"
  by (rule live_cases [OF assms])

theorem no_lost_wakeup_witness:
  "avail COND_NOT_EMPTY (the (chans posting 0)) = 0 \<or> (\<exists>u \<in> set (threads posting). on_the_way 0 COND_NOT_EMPTY u)"
  using no_lost_wakeup [OF demo_init(2) reach_posting chan_posting,
      of "\<lparr>t_call = Receive 0 1, t_pc = Resume BufRetry, t_wait = Some (0, COND_NOT_EMPTY)\<rparr>" COND_NOT_EMPTY]
  by (auto simp: posting_def demo_chan_def)

text \<open>
  C12. When no thread can run, every thread blocked on a buffered channel is a receiver of an empty
  open channel or a sender to a full open one: closing a channel releases everyone.
\<close>

theorem quiescent_waiters:
  assumes s: "sys_init s0" "reachable s0 s" and ch: "chans s c = Some ch" "\<not> is_unbuffered ch"
    and t: "t \<in> set (threads s)" "t_wait t = Some (c, cv)"
    and idle: "\<forall>u \<in> set (threads s). t_wait u \<noteq> None \<or> \<not> in_call u \<or> t_pc u = SelWait"
  shows "\<not> closed_flag ch \<and>
    ((\<exists>a. t_call t = Receive c a) \<and> chan_msgs ch = [] \<or>
     (\<exists>a. t_call t = Send c a) \<and> (\<exists>b. ch_buffer ch = Some b \<and> length (chan_msgs ch) = unat (buf_capacity b)))"
proof -
  have inv: "chan_inv ch" using reachable_fifo [OF s(2,1)] ch(1) by (simp add: fifo_inv_def)
  have ok: "thread_ok (kinds s) (t_call t) (t_pc t) (Some (c, cv))"
    using reachable_ok [OF s(2,1)] t by (auto simp: all_ok_def)
  have K: "kinds s c = Some False" using ch by (simp add: kinds_def)
  have "\<not> on_the_way c cv u" if "u \<in> set (threads s)" for u
    using idle that by (cases "t_call u"; cases "t_pc u") (auto simp: on_the_way_def in_call_def)
  then have av: "\<not> closed_flag ch" "avail cv ch = 0" using live_cases [OF s ch t] by blast+
  have "(\<exists>a. t_call t = Receive c a) \<and> cv = COND_NOT_EMPTY \<or> (\<exists>a. t_call t = Send c a) \<and> cv = COND_NOT_FULL"
    using ok K by (cases "t_call t"; cases "t_pc t")
      (auto simp: thread_ok_def is_simple_def wait_ok_def resume_ok_def is_blocking_def is_nonblocking_def)
  then show ?thesis
    using av inv ch(2) by (cases rule: chan_inv_cases [OF inv])
      (auto simp: avail_def chan_msgs_def buffer_room_def buffer_inv_def contents_def)
qed

lemma chan_waiting: "chans waiting 0 = Some (the (chans waiting 0))" "\<not> is_unbuffered (the (chans waiting 0))"
  by (simp_all add: waiting_def demo_chan_def)

theorem quiescent_waiters_witness: "chan_msgs (the (chans waiting 0)) = []"
  using quiescent_waiters [OF demo_init(2) reach_waiting chan_waiting,
      of "\<lparr>t_call = Receive 0 1, t_pc = Resume BufRetry, t_wait = Some (0, COND_NOT_EMPTY)\<rparr>" COND_NOT_EMPTY]
  by (simp add: waiting_def idle_def in_call_def)

subsection \<open>Semaphores of a select\<close>

lemma sum_list_pos: "0 < sum_list (map f xs) \<Longrightarrow> \<exists>x \<in> set xs. 0 < (f x :: nat)"
  by (induction xs) auto

text \<open>
  C21. A selector list only ever holds semaphores of \<open>channel_select\<close> calls still in progress that have an
  entry for the channel and the direction of the list: once a call returns, nothing points
  to its semaphore.
\<close>

theorem selector_in_progress:
  assumes "sys_init s0" "reachable s0 s" "chans s c = Some ch" "sem \<in> set (sel_list d ch)"
  shows "\<exists>t \<in> set (threads s). in_call t \<and>
    (\<exists>es. t_call t = Select es sem \<and> (\<exists>e \<in> set es. sel_dir e = d \<and> sel_channel e = c))"
proof -
  have "0 < count_list (sel_list d ch) sem" using assms(4) count_list_0_iff [of "sel_list d ch" sem] by fastforce
  also have "\<dots> \<le> sum_list (map (holds d c sem) (threads s))"
    using reachable_sel [OF assms(2,1)] assms(3) by (simp add: sel_inv_def)
  finally obtain t where t: "t \<in> set (threads s)" "0 < holds d c sem t"
    using sum_list_pos by blast
  then obtain es e where es: "t_call t = Select es sem" "e \<in> set (registered es (t_pc t))" "matches d c e"
    by (cases "t_call t") (auto simp: holds_def filter_empty_conv split: if_splits)
  moreover have "in_call t" "e \<in> set es" using es(2)
    by (cases "t_pc t"; auto simp: in_call_def dest: in_set_takeD in_set_dropD)+
  ultimately show ?thesis using t(1) by (auto simp: matches_def)
qed

text \<open>A select on an empty channel registers its semaphore, finds nothing and waits.\<close>

definition select_entry :: select_t where
  "select_entry = \<lparr>sel_channel = 0, sel_dir = RECV, sel_data = 1\<rparr>"

definition selecting :: "pc \<Rightarrow> sys" where
  "selecting p = (demo 1)\<lparr>
     chans := [0 \<mapsto> (demo_chan 1)\<lparr>recv_selectors := Some [5]\<rparr>],
     threads := [\<lparr>t_call = Select [select_entry] 5, t_pc = p, t_wait = None\<rparr>, idle]\<rparr>"

lemma fun_upd_const: "(\<lambda>_. k)(x := k) = (\<lambda>_. k)"
  by (rule ext) simp

lemma reach_selecting: "reachable (demo 1) (selecting SelWait)"
proof -
  let ?t = "\<lambda>p. \<lparr>t_call = Select [select_entry] 5, t_pc = p, t_wait = None\<rparr>"
  let ?s = "\<lambda>p. (demo 1)\<lparr>threads := (threads (demo 1))[0 := ?t p]\<rparr>"
  have "reachable (demo 1) (?s Entry)"
    by (rule reach_call [OF reach_start]) (simp_all add: idle_def client_ok_def in_call_def select_entry_def)
  moreover have "thread_step True 0 (?s Entry) = Some (?s (SelInit 0), 0, [])"
    by (simp add: thread_step_def select_step_def set_thread_def) (simp add: demo_def fun_upd_const)
  ultimately have "reachable (demo 1) (?s (SelInit 0))" by (rule reach_run) (simp_all add: idle_def)
  moreover have "thread_step True 0 (?s (SelInit 0)) = Some (selecting (SelInit 1), 0, [])"
    by (simp add: thread_step_def select_step_def set_thread_def selecting_def select_entry_def init_select_step_def
        add_select_receiver_def demo_chan_def)
  ultimately have "reachable (demo 1) (selecting (SelInit 1))" by (rule reach_run) (simp_all add: idle_def)
  moreover have "thread_step True 0 (selecting (SelInit 1)) = Some (selecting (SelScan 0), 0, [])"
    by (simp add: thread_step_def select_step_def set_thread_def selecting_def)
  ultimately have "reachable (demo 1) (selecting (SelScan 0))" by (rule reach_run) (simp_all add: selecting_def)
  moreover have "thread_step True 0 (selecting (SelScan 0)) = Some (selecting (SelScan 1), 0, [])"
    by (simp add: thread_step_def select_step_def set_thread_def selecting_def run_section_def select_entry_def
        channel_select_entry_def select_buffered_def channel_non_blocking_receive_def buffer_remove_def demo_chan_def)
  ultimately have "reachable (demo 1) (selecting (SelScan 1))" by (rule reach_run) (simp_all add: selecting_def)
  moreover have "thread_step True 0 (selecting (SelScan 1)) = Some (selecting SelWait, 0, [])"
    by (simp add: thread_step_def select_step_def set_thread_def selecting_def)
  ultimately show ?thesis by (rule reach_run) (simp_all add: selecting_def)
qed

theorem selector_in_progress_witness:
  "5 \<in> set (sel_list RECV (the (chans (selecting SelWait) 0))) \<and>
   (\<exists>t \<in> set (threads (selecting SelWait)). in_call t \<and> (\<exists>es. t_call t = Select es 5))"
  using selector_in_progress [OF demo_init(2) reach_selecting, of 0 "the (chans (selecting SelWait) 0)" 5 RECV]
  by (auto simp: selecting_def sel_list_def selectors_def)

subsection \<open>The rendezvous\<close>

text \<open>
  C19. While an unbuffered channel is in stage 1 or 2 exactly one thread is inside the rendezvous it
  opened, and the operation and the address the channel publishes are those of that thread's
  pending call: the pointer into its stack frame is never dangling. In stage 0 there is none.
\<close>

theorem rendezvous_owner:
  assumes "sys_init s0" "reachable s0 s" "chans s c = Some ch"
  shows "if unbuf_stage ch = 0 then \<forall>t \<in> set (threads s). owns c t = None
    else unbuf_stage ch \<in> {1, 2} \<and>
      (\<exists>i a. i < length (threads s) \<and> unbuf_data ch = Some a \<and> owns c (threads s ! i) = Some (active_unbuf_op ch, a) \<and>
         (\<forall>j < length (threads s). j \<noteq> i \<longrightarrow> owns c (threads s ! j) = None))"
proof -
  have ok: "rdv_ok (rdv ch) (map (owns c) (threads s))"
    using reachable_rdv [OF assms(2,1)] assms(3) by (simp add: rdv_inv_def)
  show ?thesis
  proof (cases "unbuf_stage ch = 0")
    case True
    then show ?thesis using ok by (auto simp: rdv_ok_def rdv_def in_set_conv_nth)
  next
    case False
    then obtain a i where "unbuf_stage ch = 1 \<or> unbuf_stage ch = 2" "unbuf_data ch = Some a"
      and i: "i < length (threads s)" "owns c (threads s ! i) = Some (active_unbuf_op ch, a)"
        "\<forall>j < length (threads s). j \<noteq> i \<longrightarrow> owns c (threads s ! j) = None"
      using ok by (auto simp: rdv_ok_def rdv_def)
    then show ?thesis using False by auto
  qed
qed

text \<open>A sender that has opened a rendezvous; another thread that closes the channel.\<close>

definition offer :: channel_t where
  "offer = (demo_chan 0)\<lparr>unbuf_stage := 1, active_unbuf_op := unbuf_op_send, unbuf_data := Some 3\<rparr>"

definition offering :: "channel_t \<Rightarrow> thread list \<Rightarrow> sys" where
  "offering ch ts = (demo 0)\<lparr>chans := [0 \<mapsto> ch], threads := ts\<rparr>"

definition sender :: "pc \<Rightarrow> (nat \<times> cond) option \<Rightarrow> thread" where
  "sender p w = \<lparr>t_call = Send 0 3, t_pc = p, t_wait = w\<rparr>"


abbreviation blocked :: thread where
  "blocked \<equiv> sender (Resume SyncDone) (Some (0, RENDEZVOUS_COMPLETE))"

fun sends_or_closes :: "call \<Rightarrow> bool" where
  "sends_or_closes (Send c a) = True"
| "sends_or_closes (Close c) = True"
| "sends_or_closes _ = False"

lemma by_offering: "reachable_by sends_or_closes (demo 0) (offering offer [blocked, idle])"
proof -
  let ?s = "(demo 0)\<lparr>threads := (threads (demo 0))[0 := \<lparr>t_call = Send 0 3, t_pc = Entry, t_wait = None\<rparr>]\<rparr>"
  have "reachable_by sends_or_closes (demo 0) ?s"
    by (rule by_step [OF by_start sys_step.new_call]) (simp_all add: idle_def client_ok_def in_call_def)
  moreover have "thread_step True 0 ?s = Some (offering offer [blocked, idle], 0, [Broadcast COND_NOT_EMPTY])"
    by (simp add: run_defs channel_send_def unbuffered_sync_def notify_select_receivers_def selectors_def demo_chan_def
        offering_def offer_def sender_def)
  ultimately show ?thesis
    by (rule by_run) (simp_all add: idle_def offering_def sender_def wake_step.simps unblock_def)
qed

lemmas reach_offering = by_reachable [OF by_offering]

lemma chan_offering: "chans (offering ch ts) 0 = Some ch"
  by (simp add: offering_def)

theorem rendezvous_owner_witness:
  "unbuf_stage offer = 1 \<and> (\<exists>i a. unbuf_data offer = Some a \<and>
     owns 0 (threads (offering offer [blocked, idle]) ! i) = Some (unbuf_op_send, a))"
proof -
  have "active_unbuf_op offer = unbuf_op_send" "unbuf_stage offer = 1" by (simp_all add: offer_def)
  then show ?thesis
    using rendezvous_owner [OF demo_init(1) reach_offering chan_offering]
    by (metis zero_neq_one)
qed

text \<open>
  C18. The second thread of a rendezvous completes it at once: a receiver gets the sender's message, a
  sender writes its own into the receiver's cell, no other cell changes, and both the
  blocking and the non-blocking operation return \<open>SUCCESS\<close> and signal the first thread.
\<close>

theorem rendezvous_transfer:
  assumes "is_unbuffered (e_chan e)" "\<not> closed_flag (e_chan e)" "unbuf_stage (e_chan e) = 1" "unbuf_data (e_chan e) = Some d"
  shows "(active_unbuf_op (e_chan e) = unbuf_op_send \<longrightarrow>
      channel_receive True a e = channel_non_blocking_receive True a e \<and>
      channel_receive True a e = Some (e\<lparr>e_chan := (e_chan e)\<lparr>unbuf_stage := 2\<rparr>, e_mem := (e_mem e)(a := e_mem e d),
        e_wakes := e_wakes e @ [Signal RENDEZVOUS_COMPLETE]\<rparr>, Return SUCCESS)) \<and>
    (active_unbuf_op (e_chan e) = unbuf_op_receive \<longrightarrow>
      channel_send True a e = channel_non_blocking_send True a e \<and>
      channel_send True a e = Some (e\<lparr>e_chan := (e_chan e)\<lparr>unbuf_stage := 2\<rparr>, e_mem := (e_mem e)(d := e_mem e a),
        e_wakes := e_wakes e @ [Signal RENDEZVOUS_COMPLETE]\<rparr>, Return SUCCESS))"
  using assms
  by (simp add: channel_receive_def channel_send_def channel_non_blocking_receive_def channel_non_blocking_send_def
      non_blocking_receive_unbuf_def non_blocking_send_unbuf_def unbuffered_sync_def)

definition demo_env :: "channel_t \<Rightarrow> env" where
  "demo_env ch = \<lparr>e_chan = ch, e_mem = (\<lambda>a. of_nat a + 7), e_sems = (\<lambda>_. 0), e_wakes = []\<rparr>"

lemma offer_simps:
  "is_unbuffered offer" "\<not> closed_flag offer" "unbuf_stage offer = 1" "unbuf_data offer = Some 3"
  "active_unbuf_op offer = unbuf_op_send" "e_chan (demo_env ch) = ch" "e_mem (demo_env ch) = (\<lambda>a. of_nat a + 7)"
  by (simp_all add: offer_def demo_chan_def demo_env_def)

theorem rendezvous_transfer_witness:
  "\<exists>e'. channel_receive True 2 (demo_env offer) = Some (e', Return SUCCESS) \<and> e_mem e' 2 = 10"
proof -
  have "\<exists>e'. channel_receive True 2 (demo_env offer) = Some (e', Return SUCCESS) \<and> e_mem e' = (e_mem (demo_env offer))(2 := 10)"
    by (rule exI, rule conjI, rule rendezvous_transfer [of "demo_env offer" 3 2, THEN conjunct1, THEN mp, THEN conjunct2])
      (simp_all add: offer_simps)
  then show ?thesis by auto
qed

subsection \<open>Operations on a buffered channel\<close>

text \<open>
  C20. On an open buffered channel the operations are those of a bounded queue: a send appends the
  message when there is room, a receive stores the oldest one when there is one, blocking and
  non-blocking alike; otherwise the blocking operation waits on the condition variable for
  room or for messages and the non-blocking one reports full or empty. Either way the
  rest of the channel is unchanged.
\<close>

theorem buffered_operations:
  assumes "buffer_inv b" "ch_buffer (e_chan e) = Some b" "\<not> is_unbuffered (e_chan e)" "\<not> closed_flag (e_chan e)"
  shows "(if length (contents b) = unat (buf_capacity b)
      then channel_send True a e = Some (e, Wait COND_NOT_FULL BufRetry) \<and>
        channel_non_blocking_send True a e = Some (e, Return CHANNEL_FULL)
      else \<exists>b'. buffer_inv b' \<and> contents b' = contents b @ [e_mem e a] \<and> buf_capacity b' = buf_capacity b \<and>
        channel_send True a e = Some (e\<lparr>e_chan := (e_chan e)\<lparr>ch_buffer := Some b'\<rparr>\<rparr>,
          Post [NotifyReceivers, Wake (Signal COND_NOT_EMPTY)] SUCCESS) \<and>
        channel_non_blocking_send True a e = channel_send True a e) \<and>
    (case contents b of
       [] \<Rightarrow> channel_receive True a e = Some (e, Wait COND_NOT_EMPTY BufRetry) \<and>
        channel_non_blocking_receive True a e = Some (e, Return CHANNEL_EMPTY)
     | v # vs \<Rightarrow> \<exists>b'. buffer_inv b' \<and> contents b' = vs \<and> buf_capacity b' = buf_capacity b \<and>
        channel_receive True a e = Some (e\<lparr>e_chan := (e_chan e)\<lparr>ch_buffer := Some b'\<rparr>, e_mem := (e_mem e)(a := v)\<rparr>,
          Post [NotifySenders, Wake (Signal COND_NOT_FULL)] SUCCESS) \<and>
        channel_non_blocking_receive True a e = channel_receive True a e)"
proof
  note defs = channel_send_def channel_send_loop_def channel_non_blocking_send_def channel_receive_def
    channel_receive_loop_def channel_non_blocking_receive_def store_data_def
  have "length (contents b) \<le> unat (buf_capacity b)" using assms(1) by (simp add: buffer_inv_def)
  then have full: "buf_size b < buf_capacity b" if "length (contents b) \<noteq> unat (buf_capacity b)"
    using that by (simp add: word_less_nat_alt)
  show "if length (contents b) = unat (buf_capacity b)
      then channel_send True a e = Some (e, Wait COND_NOT_FULL BufRetry) \<and>
        channel_non_blocking_send True a e = Some (e, Return CHANNEL_FULL)
      else \<exists>b'. buffer_inv b' \<and> contents b' = contents b @ [e_mem e a] \<and> buf_capacity b' = buf_capacity b \<and>
        channel_send True a e = Some (e\<lparr>e_chan := (e_chan e)\<lparr>ch_buffer := Some b'\<rparr>\<rparr>,
          Post [NotifyReceivers, Wake (Signal COND_NOT_EMPTY)] SUCCESS) \<and>
        channel_non_blocking_send True a e = channel_send True a e"
  proof (cases "length (contents b) = unat (buf_capacity b)")
    case True
    then have "buffer_add b (e_mem e a) = Some (BUFFER_ERROR, b)" by (simp add: buffer_add_full word_le_nat_alt)
    then show ?thesis using True assms by (simp add: defs)
  next
    case False
    then show ?thesis using buffer_add_room [OF assms(1) full, of "e_mem e a"] assms by (auto simp: defs)
  qed
  show "case contents b of
       [] \<Rightarrow> channel_receive True a e = Some (e, Wait COND_NOT_EMPTY BufRetry) \<and>
        channel_non_blocking_receive True a e = Some (e, Return CHANNEL_EMPTY)
     | v # vs \<Rightarrow> \<exists>b'. buffer_inv b' \<and> contents b' = vs \<and> buf_capacity b' = buf_capacity b \<and>
        channel_receive True a e = Some (e\<lparr>e_chan := (e_chan e)\<lparr>ch_buffer := Some b'\<rparr>, e_mem := (e_mem e)(a := v)\<rparr>,
          Post [NotifySenders, Wake (Signal COND_NOT_FULL)] SUCCESS) \<and>
        channel_non_blocking_receive True a e = channel_receive True a e"
    by (rule buffer_remove_cases [OF assms(1)]) (use assms in \<open>auto simp: defs\<close>)
qed

theorem buffered_operations_witness:
  "channel_send True 0 (demo_env (the (chans posting 0))) =
     Some (demo_env (the (chans posting 0)), Wait COND_NOT_FULL BufRetry)"
proof -
  let ?b = "\<lparr>buf_size = 1, buf_next = 0, buf_capacity = 1, buf_data = [Some (10 :: msg)]\<rparr>"
  have "buffer_inv ?b" by (simp add: buffer_inv_def slot_def)
  then show ?thesis
    using buffered_operations [of ?b "demo_env (the (chans posting 0))" 0]
    by (simp add: posting_def demo_env_def demo_chan_def)
qed

subsection \<open>Closing and destroying\<close>

text \<open>
  C33. Closing: \<open>channel_close\<close> on an open channel only sets the flag and has every condition variable
  broadcast and every registered select notified. On a closed channel every send, receive and close that
  starts, blocking or not, and every entry of a select that is looked at ends with \<open>CLOSED_ERROR\<close> and
  changes nothing (the index is recorded for a buffered channel only). A send or receive that was blocked on a buffered channel when it was closed returns
  \<open>CLOSED_ERROR\<close> only when it still finds no room or no message; otherwise it completes with \<open>SUCCESS\<close>.
\<close>

theorem channel_closed:
  assumes "chan_inv (e_chan e)"
  shows "(if closed_flag (e_chan e)
      then (\<forall>f \<in> {channel_send True a, channel_receive True a, channel_non_blocking_send True a,
                channel_non_blocking_receive True a, channel_close True}. f e = Some (e, Return CLOSED_ERROR)) \<and>
        (\<forall>x. channel_select_entry True x e = Some (e, Leave CLOSED_ERROR (\<not> is_unbuffered (e_chan e))))
      else channel_close True e = Some (e\<lparr>e_chan := (e_chan e)\<lparr>closed_flag := True\<rparr>\<rparr>,
        Post ([NotifyReceivers, NotifySenders] @ map (\<lambda>cv. Wake (Broadcast cv))
          [COND_NOT_EMPTY, COND_NOT_FULL, RENDEZVOUS_WAIT, RENDEZVOUS_COMPLETE]) SUCCESS)) \<and>
    (closed_flag (e_chan e) \<and> \<not> is_unbuffered (e_chan e) \<longrightarrow>
      (if avail COND_NOT_FULL (e_chan e) = 0 then channel_send_loop a e = Some (e, Return CLOSED_ERROR)
       else \<exists>e' ps. channel_send_loop a e = Some (e', Post ps SUCCESS)) \<and>
      (if avail COND_NOT_EMPTY (e_chan e) = 0 then channel_receive_loop a e = Some (e, Return CLOSED_ERROR)
       else \<exists>e' ps. channel_receive_loop a e = Some (e', Post ps SUCCESS)))"
proof (intro conjI impI)
  assume cl: "closed_flag (e_chan e) \<and> \<not> is_unbuffered (e_chan e)"
  then obtain b where b: "ch_buffer (e_chan e) = Some b" "buffer_inv b"
    by (cases rule: chan_inv_cases [OF assms]) auto
  show "if avail COND_NOT_FULL (e_chan e) = 0 then channel_send_loop a e = Some (e, Return CLOSED_ERROR)
       else \<exists>e' ps. channel_send_loop a e = Some (e', Post ps SUCCESS)"
  proof (cases "buf_size b < buf_capacity b")
    case True
    then have "avail COND_NOT_FULL (e_chan e) \<noteq> 0" using b by (simp add: avail_def buffer_room_def word_less_nat_alt)
    moreover obtain b' where "buffer_add b (e_mem e a) = Some (BUFFER_SUCCESS, b')" using buffer_add_room [OF b(2) True] by blast
    ultimately show ?thesis using b(1) by (simp add: channel_send_loop_def)
  next
    case False
    then show ?thesis
      using cl b by (simp add: channel_send_loop_def buffer_add_full avail_def buffer_room_def word_less_nat_alt not_less word_le_nat_alt)
  qed
  show "if avail COND_NOT_EMPTY (e_chan e) = 0 then channel_receive_loop a e = Some (e, Return CLOSED_ERROR)
       else \<exists>e' ps. channel_receive_loop a e = Some (e', Post ps SUCCESS)"
  proof (cases "0 < buf_size b")
    case True
    then have "avail COND_NOT_EMPTY (e_chan e) \<noteq> 0" using b by (simp add: avail_def word_less_nat_alt)
    moreover obtain v b' where "buffer_remove b = Some (BUFFER_SUCCESS, Some v, b')" using buffer_remove_some [OF b(2) True] by blast
    ultimately show ?thesis using b(1) by (simp add: channel_receive_loop_def)
  next
    case False
    then have "buf_size b = 0" by (simp add: word_less_nat_alt unat_eq_0)
    then show ?thesis using cl b by (simp add: channel_receive_loop_def buffer_remove_empty avail_def)
  qed
qed (simp add: channel_send_def channel_receive_def channel_non_blocking_send_def channel_non_blocking_receive_def
    channel_close_def channel_select_entry_def select_unbuffered_def select_buffered_def)

theorem channel_closed_witness:
  "channel_receive True 0 (demo_env ((demo_chan 0)\<lparr>closed_flag := True\<rparr>)) =
     Some (demo_env ((demo_chan 0)\<lparr>closed_flag := True\<rparr>), Return CLOSED_ERROR)"
  using channel_closed [of "demo_env ((demo_chan 0)\<lparr>closed_flag := True\<rparr>)" 0]
  by (simp add: offer_simps chan_inv_def demo_chan_def)

text \<open>
  C34. Destroying an open channel is refused and changes nothing; destroying a closed one frees it, and
  at that moment no other thread is in a call on it.
\<close>

theorem destroy_safe:
  assumes s: "sys_init s0" "reachable s0 s" and i: "i < length (threads s)"
    and t: "t_call (threads s ! i) = Destroy c" "t_pc (threads s ! i) = Entry"
  shows "\<exists>ch s'. chans s c = Some ch \<and> thread_step lk i s = Some (s', c, []) \<and>
    (if closed_flag ch
     then t_pc (threads s' ! i) = Done SUCCESS None \<and> chans s' = (chans s)(c := None) \<and>
       (\<forall>j < length (threads s). j \<noteq> i \<and> in_call (threads s ! j) \<longrightarrow> c \<notin> refs (t_call (threads s ! j)))
     else t_pc (threads s' ! i) = Done DESTROY_ERROR None \<and> chans s' = chans s)"
proof -
  have call: "in_call (threads s ! i)" using t by (simp add: in_call_def)
  have use: "use_ok s" using reachable_ok [OF s(2,1)] by blast
  then obtain ch where ch: "chans s c = Some ch" using i call t by (fastforce simp: use_ok_def)
  have other: "\<forall>j < length (threads s). j \<noteq> i \<and> in_call (threads s ! j) \<longrightarrow> c \<notin> refs (t_call (threads s ! j))"
    using use i call t by (fastforce simp: use_ok_def)
  have "chan_inv ch" using reachable_fifo [OF s(2,1)] ch by (simp add: fifo_inv_def)
  then have "channel_destroy ch = Some (if closed_flag ch then (SUCCESS, None) else (DESTROY_ERROR, Some ch))"
    by (cases "ch_buffer ch") (simp_all add: channel_destroy_def buffer_free_def chan_inv_def)
  then show ?thesis using ch other i t
    by (auto simp: thread_step_def destroy_step_def set_thread_def)
qed

text \<open>The start of a destroy, refused.\<close>

lemma reach_destroy:
  "reachable (demo 1) ((demo 1)\<lparr>threads := [\<lparr>t_call = Destroy 0, t_pc = Entry, t_wait = None\<rparr>, idle]\<rparr>)"
  using reach_call [OF reach_start, of 0 "demo 1" SUCCESS None "Destroy 0"] by (simp add: idle_def client_ok_def in_call_def)

theorem destroy_safe_witness:
  "\<exists>s'. thread_step True 0 ((demo 1)\<lparr>threads := [\<lparr>t_call = Destroy 0, t_pc = Entry, t_wait = None\<rparr>, idle]\<rparr>) = Some (s', 0, []) \<and>
     t_pc (threads s' ! 0) = Done DESTROY_ERROR None"
  using destroy_safe [OF demo_init(2) reach_destroy, of 0 0 True] by (auto simp: demo_chan_def)

subsection \<open>A send without a receiver\<close>






end
