(* ===== verification/Memlib.thy ===== *)
theory Memlib
  imports Prelude
begin

unbundle bit_operations_syntax

text \<open>
  The simulated memory system of the malloc lab (\<open>memlib.c\<close>, \<open>memlib.h\<close>): a region obtained
  from \<open>mmap\<close>, a break inside it, and the byte accesses the allocator is built on.

  An address is an \<open>int\<close>; pointers may be compared and moved freely, but an access outside
  the mapped region \<open>[heap, mem_max_addr)\<close> is undefined (\<open>None\<close>). As on the machine the
  sources are built for, an access of 8 bytes needs no alignment and is little-endian. A
  pointer stored in memory is the 64-bit word of its address.
\<close>

subsection \<open>Bytes and words\<close>

fun bytes_of :: "nat \<Rightarrow> u64 \<Rightarrow> u8 list" where
  "bytes_of 0 w = []"
| "bytes_of (Suc n) w = ucast w # bytes_of n (drop_bit 8 w)"

fun word_of :: "u8 list \<Rightarrow> u64" where
  "word_of [] = 0"
| "word_of (b # bs) = ucast b OR push_bit 8 (word_of bs)"

lemma length_bytes_of [simp]: "length (bytes_of n w) = n"
  by (induction n arbitrary: w) simp_all

lemma word_of_bytes_of: "word_of (bytes_of n w) = take_bit (8 * n) w"
proof (induction n arbitrary: w)
  case (Suc n)
  show ?case
    by (rule bit_word_eqI) (auto simp: Suc bit_simps)
qed simp

lemma word_of_bytes_of_8 [simp]: "word_of (bytes_of 8 w) = w"
  by (simp add: word_of_bytes_of take_bit_word_eq_self)

subsection \<open>The memory system\<close>

record memsys =
  heap :: int
  mem_brk :: int
  mem_max_addr :: int
  bytes :: "int \<Rightarrow> u8"

text \<open>\<open>MAX_HEAP_SIZE\<close> of \<open>config.h\<close>.\<close>

definition MAX_HEAP_SIZE :: int where
  "MAX_HEAP_SIZE = 2 ^ 40"

definition mapped :: "'a memsys_scheme \<Rightarrow> int \<Rightarrow> nat \<Rightarrow> bool" where
  "mapped m a n \<longleftrightarrow> heap m \<le> a \<and> a + int n \<le> mem_max_addr m"

definition read_bytes :: "'a memsys_scheme \<Rightarrow> int \<Rightarrow> nat \<Rightarrow> u8 list" where
  "read_bytes m a n = map (\<lambda>i. bytes m (a + int i)) [0..<n]"

definition overlay :: "int \<Rightarrow> u8 list \<Rightarrow> (int \<Rightarrow> u8) \<Rightarrow> int \<Rightarrow> u8" where
  "overlay a bs f x = (if a \<le> x \<and> x < a + int (length bs) then bs ! nat (x - a) else f x)"

definition write_bytes :: "'a memsys_scheme \<Rightarrow> int \<Rightarrow> u8 list \<Rightarrow> 'a memsys_scheme" where
  "write_bytes m a bs = m\<lparr>bytes := overlay a bs (bytes m)\<rparr>"

text \<open>A read and a write through a pointer to a 64-bit object.\<close>

definition load :: "'a memsys_scheme \<Rightarrow> int \<Rightarrow> u64 option" where
  "load m a = (if mapped m a 8 then Some (word_of (read_bytes m a 8)) else None)"

definition store :: "'a memsys_scheme \<Rightarrow> int \<Rightarrow> u64 \<Rightarrow> 'a memsys_scheme option" where
  "store m a w = (if mapped m a 8 then Some (write_bytes m a (bytes_of 8 w)) else None)"

subsection \<open>The break\<close>

text \<open>The result of a failed \<open>mmap\<close> is \<open>None\<close>; a successful one is zero-filled.\<close>

definition mem_reset_brk :: "'a memsys_scheme \<Rightarrow> 'a memsys_scheme" where
  "mem_reset_brk m = m\<lparr>mem_brk := heap m\<rparr>"

definition mem_init :: "int option \<Rightarrow> memsys option" where
  "mem_init mmap = do {
     addr \<leftarrow> mmap;
     Some (mem_reset_brk
       \<lparr>heap = addr, mem_brk = 0, mem_max_addr = addr + MAX_HEAP_SIZE, bytes = (\<lambda>_. 0)\<rparr>)
   }"

text \<open>After \<open>munmap\<close> no address is mapped.\<close>

definition mem_deinit :: "'a memsys_scheme \<Rightarrow> 'a memsys_scheme" where
  "mem_deinit m = m\<lparr>mem_max_addr := heap m\<rparr>"

definition mm_sbrk :: "u64 \<Rightarrow> 'a memsys_scheme \<Rightarrow> int \<times> 'a memsys_scheme" where
  "mm_sbrk incr m =
     (if sint incr < 0 then (- 1, m)
      else if mem_brk m + sint incr > mem_max_addr m then (- 1, m)
      else (mem_brk m, m\<lparr>mem_brk := mem_brk m + sint incr\<rparr>))"

definition mm_heap_lo :: "'a memsys_scheme \<Rightarrow> int" where
  "mm_heap_lo m = heap m"

definition mm_heap_hi :: "'a memsys_scheme \<Rightarrow> int" where
  "mm_heap_hi m = mem_brk m - 1"

definition mm_heapsize :: "'a memsys_scheme \<Rightarrow> u64" where
  "mm_heapsize m = word_of_int (mem_brk m - heap m)"

definition mem_sbrk :: "u64 \<Rightarrow> 'a memsys_scheme \<Rightarrow> int \<times> 'a memsys_scheme" where
  "mem_sbrk incr m = mm_sbrk incr m"

definition mem_heap_lo :: "'a memsys_scheme \<Rightarrow> int" where
  "mem_heap_lo m = heap m"

definition mem_heap_hi :: "'a memsys_scheme \<Rightarrow> int" where
  "mem_heap_hi m = mem_brk m - 1"

definition mem_heapsize :: "'a memsys_scheme \<Rightarrow> u64" where
  "mem_heapsize m = word_of_int (mem_brk m - heap m)"

subsection \<open>Emulated accesses\<close>

text \<open>\<open>mem_read\<close> reads 8 bytes whatever \<open>len\<close> is, and masks.\<close>

definition mem_read :: "'a memsys_scheme \<Rightarrow> int \<Rightarrow> nat \<Rightarrow> u64 option" where
  "mem_read m addr len = do {
     rdata \<leftarrow> load m addr;
     (if len < 8 then let mask = push_bit (8 * len) 1 - 1 in Some (rdata AND mask) else Some rdata)
   }"

definition mem_write :: "'a memsys_scheme \<Rightarrow> int \<Rightarrow> u64 \<Rightarrow> nat \<Rightarrow> 'a memsys_scheme option" where
  "mem_write m addr v len =
     (if len = 8 then store m addr v
      else if len < 8 \<and> mapped m addr len then Some (write_bytes m addr (bytes_of len v))
      else None)"

fun memcpy_loop :: "'a memsys_scheme \<Rightarrow> int \<Rightarrow> int \<Rightarrow> nat \<Rightarrow> 'a memsys_scheme option" where
  "memcpy_loop m dst src n =
     (if n \<ge> 8
      then do {
        d \<leftarrow> mem_read m src 8;
        m \<leftarrow> mem_write m dst d 8;
        memcpy_loop m (dst + 8) (src + 8) (n - 8)
      }
      else if n \<noteq> 0
      then do {
        d \<leftarrow> mem_read m src n;
        mem_write m dst d n
      }
      else Some m)"

declare memcpy_loop.simps [simp del]

definition mm_memcpy :: "'a memsys_scheme \<Rightarrow> int \<Rightarrow> int \<Rightarrow> u64 \<Rightarrow> (int \<times> 'a memsys_scheme) option" where
  "mm_memcpy m dst src n = map_option (Pair dst) (memcpy_loop m dst src (unat n))"

definition splat :: "u32 \<Rightarrow> u64" where
  "splat c = (let byte = ucast (c AND 0xFF) in fold (\<lambda>i d. d OR push_bit (8 * i) byte) [0..<8] 0)"

fun memset_loop :: "'a memsys_scheme \<Rightarrow> int \<Rightarrow> u64 \<Rightarrow> nat \<Rightarrow> 'a memsys_scheme option" where
  "memset_loop m dst d n =
     (if n \<ge> 8
      then do {
        m \<leftarrow> mem_write m dst d 8;
        memset_loop m (dst + 8) d (n - 8)
      }
      else if n \<noteq> 0 then mem_write m dst d n
      else Some m)"

declare memset_loop.simps [simp del]

definition mm_memset :: "'a memsys_scheme \<Rightarrow> int \<Rightarrow> u32 \<Rightarrow> u64 \<Rightarrow> (int \<times> 'a memsys_scheme) option" where
  "mm_memset m dst c n = map_option (Pair dst) (memset_loop m dst (splat c) (unat n))"

definition mem_memcpy :: "'a memsys_scheme \<Rightarrow> int \<Rightarrow> int \<Rightarrow> u64 \<Rightarrow> (int \<times> 'a memsys_scheme) option" where
  "mem_memcpy m dst src n = mm_memcpy m dst src n"

definition mem_memset :: "'a memsys_scheme \<Rightarrow> int \<Rightarrow> u32 \<Rightarrow> u64 \<Rightarrow> (int \<times> 'a memsys_scheme) option" where
  "mem_memset m dst c n = mm_memset m dst c n"

text \<open>\<open>hprobe\<close>: what is printed, the bytes from the highest address down, or which bound failed.\<close>

datatype probe = Below | Beyond | Probed "u64 list"

fun probe_down :: "'a memsys_scheme \<Rightarrow> int \<Rightarrow> nat \<Rightarrow> u64 list option" where
  "probe_down m hi 0 = Some []"
| "probe_down m hi (Suc n) = do {
     v \<leftarrow> mem_read m hi 1;
     vs \<leftarrow> probe_down m (hi - 1) n;
     Some (v # vs)
   }"

definition hprobe :: "'a memsys_scheme \<Rightarrow> int \<Rightarrow> u32 \<Rightarrow> u64 \<Rightarrow> probe option" where
  "hprobe m ptr offset cnt =
     (let lo = ptr + sint offset; hi = lo + uint cnt - 1
      in if lo < mem_heap_lo m then Some Below
         else if hi > mem_heap_hi m then Some Beyond
         else map_option Probed (probe_down m hi (unat cnt)))"

subsection \<open>Laws of memory\<close>

lemma mapped_write [simp]:
  "mapped (write_bytes m a bs) = mapped m" "heap (write_bytes m a bs) = heap m"
  "mem_brk (write_bytes m a bs) = mem_brk m" "mem_max_addr (write_bytes m a bs) = mem_max_addr m"
  by (simp_all add: write_bytes_def mapped_def fun_eq_iff)

lemma mapped_mono: "mapped m a n \<Longrightarrow> a \<le> b \<Longrightarrow> b + int k \<le> a + int n \<Longrightarrow> mapped m b k"
  by (simp add: mapped_def)

lemma length_read_bytes [simp]: "length (read_bytes m a n) = n"
  by (simp add: read_bytes_def)

lemma read_write_same: "read_bytes (write_bytes m a bs) a (length bs) = bs"
  by (rule nth_equalityI) (simp_all add: read_bytes_def write_bytes_def overlay_def)

lemma read_write_other:
  "b + int n \<le> a \<or> a + int (length bs) \<le> b \<Longrightarrow> read_bytes (write_bytes m a bs) b n = read_bytes m b n"
  by (auto simp: read_bytes_def write_bytes_def overlay_def)

lemma load_store_same: "store m a w = Some m' \<Longrightarrow> load m' a = Some w"
  using read_write_same [of m a "bytes_of 8 w"]
  by (auto simp: store_def load_def split: if_splits)

lemma load_store_other: "store m a w = Some m' \<Longrightarrow> b + 8 \<le> a \<or> a + 8 \<le> b \<Longrightarrow> load m' b = load m b"
  by (auto simp: store_def load_def read_write_other split: if_splits)

lemma store_mapped:
  "store m a w = Some m' \<Longrightarrow> mapped m' = mapped m"
  "store m a w = Some m' \<Longrightarrow> heap m' = heap m"
  "store m a w = Some m' \<Longrightarrow> mem_brk m' = mem_brk m"
  "store m a w = Some m' \<Longrightarrow> mem_max_addr m' = mem_max_addr m"
  by (auto simp: store_def split: if_splits)

lemma store_total: "mapped m a 8 \<Longrightarrow> \<exists>m'. store m a w = Some m'"
  by (simp add: store_def)

lemma load_total: "mapped m a 8 \<Longrightarrow> \<exists>w. load m a = Some w"
  by (simp add: load_def)

lemma overlay_append:
  assumes "b = a + int (length xs)"
  shows "overlay b ys (overlay a xs f) = overlay a (xs @ ys) f"
proof
  fix x
  show "overlay b ys (overlay a xs f) x = overlay a (xs @ ys) f x"
  proof (cases "b \<le> x \<and> x < b + int (length ys)")
    case True
    then have "nat (x - a) = length xs + nat (x - b)" using assms by arith
    then show ?thesis using True assms by (simp add: overlay_def)
  next
    case False
    then show ?thesis using assms by (auto simp: overlay_def nth_append)
  qed
qed

lemma overlay_Nil [simp]: "overlay a [] f = f"
  by (auto simp: overlay_def fun_eq_iff)

lemma write_bytes_append:
  "write_bytes (write_bytes m a xs) (a + int (length xs)) ys = write_bytes m a (xs @ ys)"
  by (simp add: write_bytes_def overlay_append)

lemma write_bytes_Nil [simp]: "write_bytes m a [] = m"
  by (simp add: write_bytes_def)

lemma read_bytes_append: "read_bytes m a (k + n) = read_bytes m a k @ read_bytes m (a + int k) n"
  by (rule nth_equalityI) (auto simp: read_bytes_def nth_append)

lemma take_word_of: "take_bit (8 * n) (word_of bs) = word_of (take n bs)"
proof (induction bs arbitrary: n)
  case (Cons b bs)
  show ?case
  proof (cases n)
    case (Suc k)
    have ih: "bit (word_of (take k bs)) i \<longleftrightarrow> i < 8 * k \<and> bit (word_of bs) i" for i
      using Cons [of k] by (metis bit_take_bit_iff)
    show ?thesis unfolding Suc by (rule bit_word_eqI) (auto simp: bit_simps ih dest: bit_imp_le_length)
  qed simp
qed simp

lemma mem_read_bytes:
  assumes "mapped m a 8" "n \<le> 8"
  shows "mem_read m a n = Some (word_of (read_bytes m a n))"
proof (cases "n < 8")
  case True
  have "read_bytes m a 8 = read_bytes m a n @ read_bytes m (a + int n) (8 - n)"
    using read_bytes_append [of m a n "8 - n"] assms(2) by simp
  then have "take n (read_bytes m a 8) = read_bytes m a n" by simp
  then have "take_bit (8 * n) (word_of (read_bytes m a 8)) = word_of (read_bytes m a n)" by (simp add: take_word_of)
  then show ?thesis using True assms by (simp add: mem_read_def load_def take_bit_eq_mask mask_eq_exp_minus_1 and.commute push_bit_of_1)
next
  case False
  then show ?thesis using assms by (simp add: mem_read_def load_def)
qed

lemma bytes_of_take: "8 * n \<le> k \<Longrightarrow> bytes_of n (take_bit k w) = bytes_of n w"
proof (induction n arbitrary: k w)
  case (Suc n)
  have "drop_bit 8 (take_bit k w) = take_bit (k - 8) (drop_bit 8 w)" by (simp add: drop_bit_take_bit)
  moreover have "ucast (take_bit k w) = (ucast w :: u8)" using Suc.prems by (intro bit_word_eqI) (auto simp: bit_simps)
  ultimately show ?case using Suc by simp
qed simp

lemma bytes_of_word_of: "length bs \<le> 8 \<Longrightarrow> bytes_of (length bs) (word_of bs) = bs"
proof (induction bs)
  case (Cons b bs)
  have "drop_bit 8 (ucast b OR push_bit 8 (word_of bs)) = take_bit 56 (word_of bs)"
    by (rule bit_word_eqI) (auto simp: bit_simps dest: bit_imp_le_length)
  moreover have "ucast (ucast b OR push_bit 8 (word_of bs)) = b" by (rule bit_word_eqI) (auto simp: bit_simps)
  ultimately show ?case using Cons by (simp add: bytes_of_take)
qed simp

subsection \<open>Copying and filling\<close>

lemma mem_write_bytes:
  assumes "length bs \<le> 8" "mapped m a (length bs)"
  shows "mem_write m a (word_of bs) (length bs) = Some (write_bytes m a bs)"
  using assms bytes_of_word_of [OF assms(1)] by (auto simp: mem_write_def store_def)

text \<open>The bytes beyond the source that the last, masked read of \<open>mm_memcpy\<close> touches.\<close>

definition slack :: "nat \<Rightarrow> nat" where
  "slack n = (8 - n mod 8) mod 8"

lemma memcpy_loop_spec:
  assumes "mapped m dst n" "mapped m src (n + slack n)" "dst + int n \<le> src \<or> src + int n \<le> dst"
  shows "memcpy_loop m dst src n = Some (write_bytes m dst (read_bytes m src n))"
  using assms
proof (induction m dst src n rule: memcpy_loop.induct)
  case (1 m dst src n)
  consider "n = 0" | "0 < n" "n < 8" | "8 \<le> n" by linarith
  then show ?case
  proof cases
    case 1
    then show ?thesis by (simp add: memcpy_loop.simps [of m dst src 0] read_bytes_def)
  next
    case 2
    then have "mapped m src 8" using 1(3) by (intro mapped_mono [OF 1(3)]) (simp_all add: slack_def)
    then show ?thesis
      using 2 1(2) mem_read_bytes [of m src n] mem_write_bytes [of "read_bytes m src n" m dst]
      by (simp add: memcpy_loop.simps [of m dst src n])
  next
    case 3
    let ?r = "read_bytes m src 8" and ?k = "n - 8"
    let ?m = "write_bytes m dst ?r"
    have n: "n = 8 + ?k" "slack n = slack ?k" using 3 by (simp_all add: slack_def mod_if [of n])
    have map: "mapped m src 8" "mapped m dst 8"
      using 3 by (auto intro: mapped_mono [OF 1(3)] mapped_mono [OF 1(2)])
    have rd: "mem_read m src 8 = Some (word_of ?r)" using mem_read_bytes [OF map(1)] by simp
    have wr: "mem_write m dst (word_of ?r) 8 = Some ?m" using mem_write_bytes [of ?r m dst] map(2) by simp
    have "memcpy_loop ?m (dst + 8) (src + 8) ?k = Some (write_bytes ?m (dst + 8) (read_bytes ?m (src + 8) ?k))"
    proof (rule "1.IH" [OF 3 rd wr])
      show "mapped ?m (dst + 8) ?k" using 3 by (auto intro: mapped_mono [OF 1(2)])
      show "mapped ?m (src + 8) (?k + slack ?k)"
        unfolding mapped_write using n by (intro mapped_mono [OF 1(3)]) auto
      show "dst + 8 + int ?k \<le> src + 8 \<or> src + 8 + int ?k \<le> dst + 8" using 1(4) 3 by auto
    qed
    moreover have "read_bytes ?m (src + 8) ?k = read_bytes m (src + 8) ?k"
      using 1(4) 3 by (intro read_write_other) auto
    moreover have "write_bytes ?m (dst + 8) (read_bytes m (src + 8) ?k) = write_bytes m dst (read_bytes m src n)"
      using write_bytes_append [of m dst ?r "read_bytes m (src + 8) ?k"] read_bytes_append [of m src 8 ?k] n(1) by simp
    ultimately show ?thesis using 3 rd wr by (simp add: memcpy_loop.simps [of m dst src n])
  qed
qed

lemma word_of_snoc: "word_of (xs @ [b]) = word_of xs OR push_bit (8 * length xs) (ucast b)"
  by (induction xs) (simp_all add: bit_eq_iff bit_simps, auto simp: bit_simps)

lemma fold_word_of: "fold (\<lambda>i d. d OR push_bit (8 * i) (ucast b)) [0..<k] 0 = word_of (replicate k b)"
proof (induction k)
  case (Suc k)
  then show ?case using word_of_snoc [of "replicate k b" b] by (simp add: replicate_append_same)
qed simp

lemma splat_bytes: "splat c = word_of (replicate 8 (ucast c))"
proof -
  have "c AND 0xFF = take_bit 8 c" by (simp add: take_bit_eq_mask mask_eq_exp_minus_1)
  moreover have "ucast (take_bit 8 c) = (ucast (ucast c :: u8) :: u64)"
    by (rule bit_word_eqI) (auto simp: bit_simps)
  ultimately have "ucast (c AND 0xFF) = (ucast (ucast c :: u8) :: u64)" by simp
  then show ?thesis using fold_word_of [of "ucast c" 8] by (simp only: splat_def Let_def)
qed

lemma splat_prefix:
  assumes "k \<le> 8"
  shows "bytes_of k (splat c) = replicate k (ucast c)"
proof -
  have "bytes_of k (splat c) = bytes_of k (word_of (replicate k (ucast c)))"
    using bytes_of_take [of k "8 * k" "splat c"] take_word_of [of k "replicate 8 (ucast c)"] assms
    by (simp only: splat_bytes take_replicate min.absorb1 le_refl)
  then show ?thesis using bytes_of_word_of [of "replicate k (ucast c :: u8)"] assms by simp
qed

lemma memset_loop_spec:
  assumes "mapped m dst n" "\<And>k. k \<le> 8 \<Longrightarrow> bytes_of k d = replicate k b"
  shows "memset_loop m dst d n = Some (write_bytes m dst (replicate n b))"
  using assms
proof (induction m dst d n rule: memset_loop.induct)
  case (1 m dst d n)
  have fill: "mem_write m dst d k = Some (write_bytes m dst (replicate k b))" if "k \<le> 8" "k \<le> n" for k
  proof -
    have "mapped m dst k" using that by (auto intro: mapped_mono [OF 1(2)])
    then show ?thesis using 1(3) [OF that(1)] that(1) by (auto simp: mem_write_def store_def)
  qed
  show ?case
  proof (cases "8 \<le> n")
    case True
    let ?m = "write_bytes m dst (replicate 8 b)"
    have w: "mem_write m dst d 8 = Some ?m" using fill [of 8] True by blast
    have "memset_loop ?m (dst + 8) d (n - 8) = Some (write_bytes ?m (dst + 8) (replicate (n - 8) b))"
      by (rule "1.IH" [OF True w]) (use True 1(3) in \<open>auto intro: mapped_mono [OF 1(2)]\<close>)
    moreover have "write_bytes ?m (dst + 8) (replicate (n - 8) b) = write_bytes m dst (replicate n b)"
      using write_bytes_append [of m dst "replicate 8 b" "replicate (n - 8) b"] True
        replicate_add [of 8 "n - 8" b]
      by (metis le_add_diff_inverse length_replicate of_nat_numeral)
    ultimately show ?thesis using True w by (simp add: memset_loop.simps [of m dst d n])
  next
    case False
    then show ?thesis
      using fill [of n] by (cases "n = 0") (simp_all add: memset_loop.simps [of m dst d n] memset_loop.simps [of m dst d 0])
  qed
qed

text \<open>
  \<open>mm_memcpy\<close> copies exactly \<open>n\<close> bytes between disjoint mapped areas and changes nothing else,
  whatever \<open>n\<close> is modulo 8; its last read touches up to 7 bytes after the source, which have
  to be mapped too.
\<close>

lemma memcpy_copies:
  assumes "mapped m dst (unat n)" "mapped m src (unat n + slack (unat n))"
    "dst + int (unat n) \<le> src \<or> src + int (unat n) \<le> dst"
  shows "mm_memcpy m dst src n = Some (dst, write_bytes m dst (read_bytes m src (unat n)))"
  using memcpy_loop_spec [OF assms] by (simp add: mm_memcpy_def)

text \<open>
  \<open>mm_memset\<close> fills exactly \<open>n\<close> bytes with the low byte of \<open>c\<close> and changes nothing else.
\<close>

lemma memset_fills:
  assumes "mapped m dst (unat n)"
  shows "mm_memset m dst c n = Some (dst, write_bytes m dst (replicate (unat n) (ucast c)))"
proof -
  have "memset_loop m dst (splat c) (unat n) = Some (write_bytes m dst (replicate (unat n) (ucast c)))"
    by (rule memset_loop_spec [OF assms]) (rule splat_prefix)
  then show ?thesis by (simp only: mm_memset_def option.map)
qed

end
