(* ===== verification/Stree.thy ===== *)
theory Stree
  imports Prelude "HOL-Library.Tree"
begin

text \<open>
  The splay tree of the malloc lab's driver (\<open>stree.h\<close>, \<open>stree.c\<close>), pointer by pointer, and the
  representation of a tree by its nodes.

  The nodes are cells of a heap that belongs to the tree; a read or write through \<open>NULL\<close> or a freed
  node is undefined (\<open>None\<close>), and so is a loop that does not end. \<open>malloc\<close> is the argument of the
  operations that call it: the pointer it returns. A key (\<open>long\<close>) is only compared, so it is an
  \<open>int\<close>; the counters are 64-bit words.
\<close>

subsection \<open>Data\<close>

record node_t =
  n_left :: ptr
  n_right :: ptr
  n_parent :: ptr
  n_key :: int
  n_record :: ptr

record tree_t =
  root :: ptr
  node_count :: u64
  comparison_count :: u64
  nodes :: "nat \<rightharpoonup> node_t"

definition node_at :: "tree_t \<Rightarrow> ptr \<Rightarrow> node_t option" where
  "node_at t p = (case p of None \<Rightarrow> None | Some a \<Rightarrow> nodes t a)"

definition update_node :: "(node_t \<Rightarrow> node_t) \<Rightarrow> ptr \<Rightarrow> tree_t \<Rightarrow> tree_t option" where
  "update_node f p t = (case p of None \<Rightarrow> None | Some a \<Rightarrow>
     (case nodes t a of None \<Rightarrow> None | Some n \<Rightarrow> Some (t\<lparr>nodes := (nodes t)(a \<mapsto> f n)\<rparr>)))"

definition free_node :: "ptr \<Rightarrow> tree_t \<Rightarrow> tree_t option" where
  "free_node p t = (case p of None \<Rightarrow> Some t | Some a \<Rightarrow>
     (case nodes t a of None \<Rightarrow> None | Some _ \<Rightarrow> Some (t\<lparr>nodes := (nodes t)(a := None)\<rparr>)))"

abbreviation set_left :: "ptr \<Rightarrow> ptr \<Rightarrow> tree_t \<Rightarrow> tree_t option" where
  "set_left p v \<equiv> update_node (\<lambda>n. n\<lparr>n_left := v\<rparr>) p"

abbreviation set_right :: "ptr \<Rightarrow> ptr \<Rightarrow> tree_t \<Rightarrow> tree_t option" where
  "set_right p v \<equiv> update_node (\<lambda>n. n\<lparr>n_right := v\<rparr>) p"

abbreviation set_parent :: "ptr \<Rightarrow> ptr \<Rightarrow> tree_t \<Rightarrow> tree_t option" where
  "set_parent p v \<equiv> update_node (\<lambda>n. n\<lparr>n_parent := v\<rparr>) p"

definition compared :: "tree_t \<Rightarrow> tree_t" where
  "compared t = t\<lparr>comparison_count := comparison_count t + 1\<rparr>"

definition tree_new :: "bool \<Rightarrow> tree_t option" where
  "tree_new malloc_ok =
     (if malloc_ok then Some \<lparr>root = NULL, node_count = 0, comparison_count = 0, nodes = Map.empty\<rparr> else None)"

subsection \<open>Rotations and splaying\<close>

text \<open>The link from the parent of \<open>u\<close>, or from the tree, is turned to \<open>v\<close>.\<close>

definition turn_link :: "ptr \<Rightarrow> ptr \<Rightarrow> tree_t \<Rightarrow> tree_t option" where
  "turn_link u v t = do {
     n \<leftarrow> node_at t u;
     (if n_parent n = NULL then Some (t\<lparr>root := v\<rparr>)
      else do {
        p \<leftarrow> node_at t (n_parent n);
        (if u = n_left p then set_left (n_parent n) v t else set_right (n_parent n) v t)
      })
   }"

text \<open>\<open>if (v) v->parent = p\<close>\<close>

definition adopt :: "ptr \<Rightarrow> ptr \<Rightarrow> tree_t \<Rightarrow> tree_t option" where
  "adopt v p t = (if v \<noteq> NULL then set_parent v p t else Some t)"

definition left_rotate :: "ptr \<Rightarrow> tree_t \<Rightarrow> tree_t option" where
  "left_rotate x t = do {
     xn \<leftarrow> node_at t x;
     let y = n_right xn;
     t \<leftarrow> (if y \<noteq> NULL then do {
            yn \<leftarrow> node_at t y;
            t \<leftarrow> set_right x (n_left yn) t;
            yn \<leftarrow> node_at t y;
            t \<leftarrow> adopt (n_left yn) x t;
            xn \<leftarrow> node_at t x;
            set_parent y (n_parent xn) t
          } else Some t);
     t \<leftarrow> turn_link x y t;
     t \<leftarrow> (if y \<noteq> NULL then set_left y x t else Some t);
     set_parent x y t
   }"

definition right_rotate :: "ptr \<Rightarrow> tree_t \<Rightarrow> tree_t option" where
  "right_rotate x t = do {
     xn \<leftarrow> node_at t x;
     let y = n_left xn;
     t \<leftarrow> (if y \<noteq> NULL then do {
            yn \<leftarrow> node_at t y;
            t \<leftarrow> set_left x (n_right yn) t;
            yn \<leftarrow> node_at t y;
            t \<leftarrow> adopt (n_right yn) x t;
            xn \<leftarrow> node_at t x;
            set_parent y (n_parent xn) t
          } else Some t);
     t \<leftarrow> turn_link x y t;
     t \<leftarrow> (if y \<noteq> NULL then set_right y x t else Some t);
     set_parent x y t
   }"

text \<open>One pass of the loop of \<open>splay\<close>, for a node that has a parent.\<close>

definition splay_step :: "ptr \<Rightarrow> tree_t \<Rightarrow> tree_t option" where
  "splay_step x t = do {
     xn \<leftarrow> node_at t x;
     let parent = n_parent xn;
     p \<leftarrow> node_at t parent;
     (if n_parent p = NULL then
        (if n_left p = x then right_rotate parent t else left_rotate parent t)
      else do {
        g \<leftarrow> node_at t (n_parent p);
        let rotate_parent = (\<lambda>rotate t. do { xn \<leftarrow> node_at t x; rotate (n_parent xn) t });
        (if n_left p = x \<and> n_left g = parent
         then do { t \<leftarrow> right_rotate (n_parent p) t; rotate_parent right_rotate t }
         else if n_right p = x \<and> n_right g = parent
         then do { t \<leftarrow> left_rotate (n_parent p) t; rotate_parent left_rotate t }
         else if n_left p = x \<and> n_right g = parent
         then do { t \<leftarrow> right_rotate parent t; rotate_parent left_rotate t }
         else do { t \<leftarrow> left_rotate parent t; rotate_parent right_rotate t })
      })
   }"

partial_function (option) splay :: "ptr \<Rightarrow> tree_t \<Rightarrow> tree_t option" where
  [code]: "splay x t = do {
     xn \<leftarrow> node_at t x;
     (if n_parent xn = NULL then Some t
      else do { t \<leftarrow> splay_step x t; splay x t })
   }"

definition replace :: "ptr \<Rightarrow> ptr \<Rightarrow> tree_t \<Rightarrow> tree_t option" where
  "replace u v t = do {
     t \<leftarrow> turn_link u v t;
     (if v \<noteq> NULL then do { un \<leftarrow> node_at t u; set_parent v (n_parent un) t } else Some t)
   }"

partial_function (option) subtree_minimum :: "ptr \<Rightarrow> tree_t \<Rightarrow> ptr option" where
  [code]: "subtree_minimum u t = do {
     n \<leftarrow> node_at t u;
     (if n_left n \<noteq> NULL then subtree_minimum (n_left n) t else Some u)
   }"

partial_function (option) subtree_maximum :: "ptr \<Rightarrow> tree_t \<Rightarrow> ptr option" where
  [code]: "subtree_maximum u t = do {
     n \<leftarrow> node_at t u;
     (if n_right n \<noteq> NULL then subtree_maximum (n_right n) t else Some u)
   }"

subsection \<open>Operations\<close>

text \<open>The descent of \<open>tree_insert\<close>: the node with the key or \<open>NULL\<close>, and the last node passed.\<close>

partial_function (option) insert_loop :: "int \<Rightarrow> ptr \<Rightarrow> ptr \<Rightarrow> tree_t \<Rightarrow> (bool \<times> ptr \<times> tree_t) option" where
  [code]: "insert_loop key z p t =
     (if z = NULL then Some (False, p, t)
      else do {
        n \<leftarrow> node_at t z;
        let t = compared t;
        (if key = n_key n then Some (True, z, t)
         else insert_loop key (if key > n_key n then n_right n else n_left n) z (compared t))
      })"

text \<open>The new node \<open>z\<close> is linked below \<open>p\<close>.\<close>

definition link_new :: "int \<Rightarrow> nat \<Rightarrow> ptr \<Rightarrow> tree_t \<Rightarrow> tree_t option" where
  "link_new key z p t =
     (if p = NULL then Some (t\<lparr>root := Some z\<rparr>)
      else do {
        n \<leftarrow> node_at t p;
        (if n_key n < key then set_right p (Some z) t else set_left p (Some z) t)
      })"

text \<open>\<open>None\<close> in the first component is \<open>exit(1)\<close>, when \<open>malloc\<close> fails.\<close>

definition tree_insert :: "int \<Rightarrow> ptr \<Rightarrow> ptr \<Rightarrow> tree_t \<Rightarrow> (bool option \<times> tree_t) option" where
  "tree_insert key record new t = do {
     (found, p, t) \<leftarrow> insert_loop key (root t) NULL t;
     (if found then Some (Some False, t)
      else case new of
        None \<Rightarrow> Some (None, t)
      | Some z \<Rightarrow> do {
          let t = t\<lparr>nodes := (nodes t)(z \<mapsto> \<lparr>n_left = NULL, n_right = NULL, n_parent = p, n_key = key, n_record = record\<rparr>)\<rparr>;
          t \<leftarrow> link_new key z p t;
          t \<leftarrow> splay new t;
          Some (Some True, t\<lparr>node_count := node_count t + 1\<rparr>)
        })
   }"

partial_function (option) find_loop :: "int \<Rightarrow> ptr \<Rightarrow> tree_t \<Rightarrow> (ptr \<times> tree_t) option" where
  [code]: "find_loop key z t =
     (if z = NULL then Some (NULL, t)
      else do {
        n \<leftarrow> node_at t z;
        let t = compared t;
        (if key = n_key n then Some (n_record n, t)
         else find_loop key (if key > n_key n then n_right n else n_left n) (compared t))
      })"

definition tree_find :: "int \<Rightarrow> tree_t \<Rightarrow> (ptr \<times> tree_t) option" where
  "tree_find key t = find_loop key (root t) t"

partial_function (option) nearest_loop :: "int \<Rightarrow> ptr \<Rightarrow> ptr \<Rightarrow> tree_t \<Rightarrow> (ptr \<times> tree_t) option" where
  [code]: "nearest_loop key z n t =
     (if z = NULL
      then if n = NULL then Some (NULL, t)
           else do { nn \<leftarrow> node_at t n; Some (n_record nn, t) }
      else do {
        zn \<leftarrow> node_at t z;
        let t = compared t;
        (if key = n_key zn then Some (n_record zn, t)
         else if key > n_key zn
         then do {
           better \<leftarrow> (if n = NULL then Some True else do { nn \<leftarrow> node_at t n; Some (n_key nn < n_key zn) });
           nearest_loop key (n_right zn) (if better then z else n) (compared t)
         }
         else nearest_loop key (n_left zn) n (compared t))
      })"

definition tree_find_nearest :: "int \<Rightarrow> tree_t \<Rightarrow> (ptr \<times> tree_t) option" where
  "tree_find_nearest key t = nearest_loop key (root t) NULL t"

partial_function (option) remove_loop :: "int \<Rightarrow> ptr \<Rightarrow> tree_t \<Rightarrow> (ptr \<times> tree_t) option" where
  [code]: "remove_loop key z t =
     (if z = NULL then Some (NULL, t)
      else do {
        n \<leftarrow> node_at t z;
        (if n_key n = key then Some (z, t)
         else remove_loop key (if key > n_key n then n_right n else n_left n) (compared t))
      })"

text \<open>The branch of \<open>tree_remove\<close> for a node with two children.\<close>

definition remove_inner :: "ptr \<Rightarrow> tree_t \<Rightarrow> tree_t option" where
  "remove_inner z t = do {
     zn \<leftarrow> node_at t z;
     y \<leftarrow> subtree_minimum (n_right zn) t;
     yn \<leftarrow> node_at t y;
     t \<leftarrow> (if n_parent yn \<noteq> z then do {
            t \<leftarrow> replace y (n_right yn) t;
            zn \<leftarrow> node_at t z;
            t \<leftarrow> set_right y (n_right zn) t;
            yn \<leftarrow> node_at t y;
            set_parent (n_right yn) y t
          } else Some t);
     t \<leftarrow> replace z y t;
     zn \<leftarrow> node_at t z;
     t \<leftarrow> set_left y (n_left zn) t;
     yn \<leftarrow> node_at t y;
     set_parent (n_left yn) y t
   }"

definition tree_remove :: "int \<Rightarrow> tree_t \<Rightarrow> (ptr \<times> tree_t) option" where
  "tree_remove key t = do {
     (z, t) \<leftarrow> remove_loop key (root t) t;
     (if z = NULL then Some (NULL, t)
      else do {
        t \<leftarrow> splay z t;
        zn \<leftarrow> node_at t z;
        t \<leftarrow> (if n_left zn = NULL then replace z (n_right zn) t
             else if n_right zn = NULL then replace z (n_left zn) t
             else remove_inner z t);
        zn \<leftarrow> node_at t z;
        t \<leftarrow> free_node z (t\<lparr>node_count := node_count t - 1\<rparr>);
        Some (n_record zn, t)
      })
   }"

text \<open>
  The result lists the records that \<open>free_fun\<close> is called with. \<open>free_fun\<close> does not touch the tree; a
  null \<open>free_fun\<close> ignores the list.
\<close>

partial_function (option) free_subtree :: "ptr \<Rightarrow> tree_t \<Rightarrow> (ptr list \<times> tree_t) option" where
  [code]: "free_subtree x t =
     (if x = NULL then Some ([], t)
      else do {
        xn \<leftarrow> node_at t x;
        (rs1, t) \<leftarrow> free_subtree (n_left xn) t;
        xn \<leftarrow> node_at t x;
        (rs2, t) \<leftarrow> free_subtree (n_right xn) t;
        xn \<leftarrow> node_at t x;
        t \<leftarrow> free_node x t;
        Some (rs1 @ rs2 @ [n_record xn], t)
      })"

definition tree_free :: "tree_t \<Rightarrow> (ptr list \<times> tree_t) option" where
  "tree_free t = (if root t \<noteq> NULL then free_subtree (root t) t else Some ([], t))"

text \<open>What \<open>show_subtree\<close> prints, as tokens.\<close>

datatype token = Open_paren | Key int | Close_paren

partial_function (option) show_subtree :: "ptr \<Rightarrow> bool \<Rightarrow> tree_t \<Rightarrow> token list option" where
  [code]: "show_subtree x tree_mode t =
     (if x = NULL then Some []
      else do {
        n \<leftarrow> node_at t x;
        ls \<leftarrow> show_subtree (n_left n) tree_mode t;
        rs \<leftarrow> show_subtree (n_right n) tree_mode t;
        Some ((if tree_mode then [Open_paren] else []) @ ls @ [Key (n_key n)] @ rs @ (if tree_mode then [Close_paren] else []))
      })"

text \<open>The keys and the two counters that \<open>tree_show\<close> prints; \<open>None\<close> for a null tree.\<close>

definition tree_show :: "tree_t option \<Rightarrow> bool \<Rightarrow> (token list \<times> u64 \<times> u64) option option" where
  "tree_show tree tree_mode =
     (case tree of None \<Rightarrow> Some None
      | Some t \<Rightarrow> do {
          s \<leftarrow> show_subtree (root t) tree_mode t;
          Some (Some (s, node_count t, comparison_count t))
        })"

end
