(* ===== verification/Stree_Heap.thy ===== *)
theory Stree_Heap
  imports Stree
begin

text \<open>
  The trees that the nodes of a splay tree form, what the rotations and \<open>replace\<close> do to them, and
  splaying as a function on a tree with a focus. A label is the address, the key and the record of a node; a
  context is the path from the focus up to the root.
\<close>

subsection \<open>Trees and contexts in the heap\<close>

type_synonym label = "nat \<times> int \<times> ptr"

abbreviation addr :: "label \<Rightarrow> nat" where "addr \<equiv> fst"
abbreviation label_key :: "label \<Rightarrow> int" where "label_key x \<equiv> fst (snd x)"

definition root_of :: "label tree \<Rightarrow> ptr" where
  "root_of T = (case T of Leaf \<Rightarrow> NULL | Node _ x _ \<Rightarrow> Some (addr x))"

lemma root_of_simps [simp]: "root_of Leaf = NULL" "root_of (Node l x r) = Some (addr x)"
  by (simp_all add: root_of_def)

definition cell :: "ptr \<Rightarrow> ptr \<Rightarrow> ptr \<Rightarrow> label \<Rightarrow> node_t" where
  "cell l r p x = \<lparr>n_left = l, n_right = r, n_parent = p, n_key = label_key x, n_record = snd (snd x)\<rparr>"

lemma cell_sel [simp]:
  "n_left (cell l r p x) = l" "n_right (cell l r p x) = r" "n_parent (cell l r p x) = p" "n_key (cell l r p x) = label_key x"
  "n_record (cell l r p x) = snd (snd x)" "(cell l r p x)\<lparr>n_left := l'\<rparr> = cell l' r p x" "(cell l r p x)\<lparr>n_right := r'\<rparr> = cell l r' p x"
  "(cell l r p x)\<lparr>n_parent := p'\<rparr> = cell l r p' x"
  by (simp_all add: cell_def)

fun tree_at :: "(nat \<rightharpoonup> node_t) \<Rightarrow> ptr \<Rightarrow> label tree \<Rightarrow> bool" where
  "tree_at h p Leaf \<longleftrightarrow> True"
| "tree_at h p (Node l x r) \<longleftrightarrow>
     h (addr x) = Some (cell (root_of l) (root_of r) p x) \<and> tree_at h (Some (addr x)) l \<and> tree_at h (Some (addr x)) r"

definition addrs :: "label tree \<Rightarrow> nat list" where
  "addrs T = map addr (inorder T)"

lemma addrs_simps [simp]: "addrs Leaf = []" "addrs (Node l x r) = addrs l @ addr x # addrs r"
  by (simp_all add: addrs_def)

datatype step = is_left: InLeft label "label tree" | InRight "label tree" label

fun step_addr :: "step \<Rightarrow> nat" where
  "step_addr (InLeft x r) = addr x"
| "step_addr (InRight l x) = addr x"

fun step_addrs :: "step \<Rightarrow> nat list" where
  "step_addrs (InLeft x r) = addr x # addrs r"
| "step_addrs (InRight l x) = addrs l @ [addr x]"

definition ctx_addrs :: "step list \<Rightarrow> nat list" where
  "ctx_addrs cs = concat (map step_addrs cs)"

lemma ctx_addrs_simps [simp]: "ctx_addrs [] = []" "ctx_addrs (c # cs) = step_addrs c @ ctx_addrs cs" "ctx_addrs (cs @ ds) = ctx_addrs cs @ ctx_addrs ds"
  by (simp_all add: ctx_addrs_def)

definition above :: "step list \<Rightarrow> ptr" where
  "above cs = (case cs of [] \<Rightarrow> NULL | c # _ \<Rightarrow> Some (step_addr c))"

lemma above_simps [simp]: "above [] = NULL" "above (c # cs) = Some (step_addr c)"
  by (simp_all add: above_def)

fun root_in :: "ptr \<Rightarrow> step list \<Rightarrow> ptr" where
  "root_in p [] = p"
| "root_in p (c # cs) = root_in (Some (step_addr c)) cs"

fun plug :: "step list \<Rightarrow> label tree \<Rightarrow> label tree" where
  "plug [] T = T"
| "plug (InLeft x r # cs) T = plug cs (Node T x r)"
| "plug (InRight l x # cs) T = plug cs (Node l x T)"

fun ctx_at :: "(nat \<rightharpoonup> node_t) \<Rightarrow> ptr \<Rightarrow> step list \<Rightarrow> bool" where
  "ctx_at h p [] \<longleftrightarrow> True"
| "ctx_at h p (InLeft x r # cs) \<longleftrightarrow>
     h (addr x) = Some (cell p (root_of r) (above cs) x) \<and> tree_at h (Some (addr x)) r \<and> ctx_at h (Some (addr x)) cs"
| "ctx_at h p (InRight l x # cs) \<longleftrightarrow>
     h (addr x) = Some (cell (root_of l) p (above cs) x) \<and> tree_at h (Some (addr x)) l \<and> ctx_at h (Some (addr x)) cs"

lemma tree_at_plug: "tree_at h (above []) (plug cs T) \<longleftrightarrow> ctx_at h (root_of T) cs \<and> tree_at h (above cs) T"
  by (induction cs T rule: plug.induct) auto

lemma plug_append: "plug (cs @ ds) T = plug ds (plug cs T)"
  by (induction cs T rule: plug.induct) auto

lemma root_of_plug: "root_of (plug cs T) = root_in (root_of T) cs"
  by (induction cs T rule: plug.induct) auto

lemma mset_addrs_plug: "mset (addrs (plug cs T)) = mset (addrs T) + mset (ctx_addrs cs)"
  by (induction cs T rule: plug.induct) auto

lemma set_addrs_plug [simp]: "set (addrs (plug cs T)) = set (addrs T) \<union> set (ctx_addrs cs)"
  using arg_cong [OF mset_addrs_plug [of cs T], of set_mset] by simp

lemma distinct_plug: "distinct (addrs (plug cs T)) \<longleftrightarrow> distinct (addrs T @ ctx_addrs cs)"
  using mset_eq_imp_distinct_iff [of "addrs (plug cs T)" "addrs T @ ctx_addrs cs"] mset_addrs_plug by simp

lemma tree_at_upd [simp]: "a \<notin> set (addrs T) \<Longrightarrow> tree_at (h(a := v)) p T \<longleftrightarrow> tree_at h p T"
  by (induction T arbitrary: p) auto

lemma ctx_at_upd [simp]: "a \<notin> set (ctx_addrs cs) \<Longrightarrow> ctx_at (h(a := v)) p cs \<longleftrightarrow> ctx_at h p cs"
  by (induction h p cs rule: ctx_at.induct) auto

lemma tree_at_frame: "(\<And>a. a \<in> set (addrs T) \<Longrightarrow> h' a = h a) \<Longrightarrow> tree_at h' p T \<longleftrightarrow> tree_at h p T"
  by (induction T arbitrary: p) auto

lemma root_of_in: "root_of T = Some a \<Longrightarrow> a \<in> set (addrs T)"
  by (cases T) auto

lemma root_of_NULL: "root_of T = NULL \<longleftrightarrow> T = Leaf"
  by (cases T) auto

lemma tree_at_dom: "tree_at h p T \<Longrightarrow> set (addrs T) \<subseteq> dom h"
proof (induction T arbitrary: p)
  case (Node l x r)
  have "set (addrs l) \<subseteq> dom h" "set (addrs r) \<subseteq> dom h" "addr x \<in> dom h"
    using Node.IH [of "Some (addr x)"] Node.prems by (simp_all add: domI)
  then show ?case by simp
qed simp

text \<open>A tree gets a new parent.\<close>

definition reparent :: "ptr \<Rightarrow> label tree \<Rightarrow> (nat \<rightharpoonup> node_t) \<Rightarrow> (nat \<rightharpoonup> node_t)" where
  "reparent p T h = (case T of Leaf \<Rightarrow> h | Node l x r \<Rightarrow> h(addr x \<mapsto> cell (root_of l) (root_of r) p x))"

lemma reparent_at [simp]: "tree_at h p T \<Longrightarrow> distinct (addrs T) \<Longrightarrow> tree_at (reparent q T h) q T"
  by (cases T) (auto simp: reparent_def)

lemma reparent_other [simp]: "a \<notin> set (addrs T) \<Longrightarrow> reparent q T h a = h a"
  by (cases T) (auto simp: reparent_def)

lemma reparent_tree [simp]: "set (addrs T) \<inter> set (addrs U) = {} \<Longrightarrow> tree_at (reparent q T h) p U \<longleftrightarrow> tree_at h p U"
  by (rule tree_at_frame) (rule reparent_other, auto)

lemma reparent_ctx [simp]: "set (addrs T) \<inter> set (ctx_addrs cs) = {} \<Longrightarrow> ctx_at (reparent q T h) p cs \<longleftrightarrow> ctx_at h p cs"
  by (cases T) (auto simp: reparent_def)

lemma reparent_dom [simp]: "tree_at h p T \<Longrightarrow> dom (reparent q T h) = dom h"
  by (cases T) (auto simp: reparent_def)

lemma node_at_Some [simp]: "node_at t (Some a) = nodes t a"
  by (simp add: node_at_def)

lemma update_node_Some [simp]: "nodes t a = Some n \<Longrightarrow> update_node f (Some a) t = Some (t\<lparr>nodes := (nodes t)(a \<mapsto> f n)\<rparr>)"
  by (simp add: update_node_def)

lemma tree_free_node [simp]: "nodes t a = Some n \<Longrightarrow> free_node (Some a) t = Some (t\<lparr>nodes := (nodes t)(a := None)\<rparr>)"
  by (simp add: free_node_def)

lemma adopt_spec:
  "tree_at (nodes t) q T \<Longrightarrow> adopt (root_of T) p t = Some (t\<lparr>nodes := reparent p T (nodes t)\<rparr>)"
  by (cases T) (auto simp: adopt_def reparent_def)

subsection \<open>Turning a link\<close>

fun turned :: "ptr \<Rightarrow> step list \<Rightarrow> (nat \<rightharpoonup> node_t) \<Rightarrow> (nat \<rightharpoonup> node_t)" where
  "turned v [] h = h"
| "turned v (InLeft x r # cs) h = h(addr x \<mapsto> cell v (root_of r) (above cs) x)"
| "turned v (InRight l x # cs) h = h(addr x \<mapsto> cell (root_of l) v (above cs) x)"

lemma turned_other [simp]: "a \<notin> set (ctx_addrs cs) \<Longrightarrow> turned v cs h a = h a"
  by (cases "(v, cs, h)" rule: turned.cases) auto

lemma turned_ctx [simp]: "ctx_at h p cs \<Longrightarrow> distinct (ctx_addrs cs) \<Longrightarrow> ctx_at (turned v cs h) v cs"
  by (cases "(v, cs, h)" rule: turned.cases) auto

lemma turned_tree [simp]: "set (addrs T) \<inter> set (ctx_addrs cs) = {} \<Longrightarrow> tree_at (turned v cs h) p T \<longleftrightarrow> tree_at h p T"
  by (rule tree_at_frame) (rule turned_other, auto)

lemma turned_dom [simp]: "ctx_at h p cs \<Longrightarrow> dom (turned v cs h) = dom h"
  by (cases "(v, cs, h)" rule: turned.cases) auto

lemma root_in_NonNil: "cs \<noteq> [] \<Longrightarrow> root_in p cs = root_in q cs"
  by (cases cs) auto

lemma turn_link_spec:
  assumes "nodes t u = Some n" "n_parent n = above cs" "ctx_at (nodes t) (Some u) cs" "u \<notin> set (ctx_addrs cs)" "root t = root_in (Some u) cs"
  shows "turn_link (Some u) v t = Some (t\<lparr>root := root_in v cs, nodes := turned v cs (nodes t)\<rparr>)"
proof (cases "(v, cs, nodes t)" rule: turned.cases)
  case (1 v' h)
  then show ?thesis using assms by (simp add: turn_link_def)
next
  case (2 v' x r ds h)
  then show ?thesis using assms by (simp add: turn_link_def)
next
  case (3 v' l x ds h)
  then have "root_of l \<noteq> Some u" using root_of_in [of l u] assms(4) by auto
  then show ?thesis using 3 assms by (simp add: turn_link_def)
qed

subsection \<open>Rotations\<close>

text \<open>\<open>t\<close> is the tree \<open>T\<close> and nothing else.\<close>

definition holds :: "tree_t \<Rightarrow> label tree \<Rightarrow> bool" where
  "holds t T \<longleftrightarrow> root t = root_of T \<and> tree_at (nodes t) NULL T \<and> distinct (addrs T) \<and> dom (nodes t) = set (addrs T)"

definition moved :: "tree_t \<Rightarrow> tree_t \<Rightarrow> bool" where
  "moved t t' \<longleftrightarrow> node_count t' = node_count t \<and> comparison_count t' = comparison_count t"

lemma holds_plug:
  "holds t (plug cs T) \<longleftrightarrow> root t = root_in (root_of T) cs \<and> ctx_at (nodes t) (root_of T) cs \<and> tree_at (nodes t) (above cs) T \<and>
     distinct (addrs T) \<and> distinct (ctx_addrs cs) \<and> set (addrs T) \<inter> set (ctx_addrs cs) = {} \<and> dom (nodes t) = set (addrs T) \<union> set (ctx_addrs cs)"
  using tree_at_plug [of "nodes t" cs T] by (auto simp: holds_def root_of_plug distinct_plug)

lemma right_rotate_spec:
  assumes "holds t (plug cs (Node (Node A y B) x C))"
  obtains t' where "right_rotate (Some (addr x)) t = Some t'" "holds t' (plug cs (Node A y (Node B x C)))" "moved t t'"
proof -
  let ?h = "nodes t" and ?x = "Some (addr x)" and ?y = "Some (addr y)"
  have ctx: "ctx_at ?h ?x cs" "root t = root_in ?x cs" and x: "?h (addr x) = Some (cell ?y (root_of C) (above cs) x)"
    and y: "?h (addr y) = Some (cell (root_of A) (root_of B) ?x y)" and A: "tree_at ?h ?y A" and B: "tree_at ?h ?y B" and C: "tree_at ?h ?x C"
    and d: "distinct (addrs A @ addr y # addrs B @ addr x # addrs C @ ctx_addrs cs)"
    and dom: "dom ?h = set (addrs A) \<union> set (addrs B) \<union> set (addrs C) \<union> {addr x, addr y} \<union> set (ctx_addrs cs)"
    using assms by (auto simp: holds_plug)
  let ?h1 = "reparent ?x B (?h(addr x \<mapsto> cell (root_of B) (root_of C) (above cs) x))"
  let ?h2 = "?h1(addr y \<mapsto> cell (root_of A) (root_of B) (above cs) y)"
  let ?h3 = "turned ?y cs ?h2"
  let ?h4 = "?h3(addr y \<mapsto> cell (root_of A) ?x (above cs) y, addr x \<mapsto> cell (root_of B) (root_of C) ?y x)"
  have xy: "addr x \<noteq> addr y" "addr x \<notin> set (addrs B)" "addr y \<notin> set (addrs B)" "addr x \<notin> set (ctx_addrs cs)" "addr y \<notin> set (ctx_addrs cs)"
    "addr x \<notin> set (addrs A)" "addr y \<notin> set (addrs A)" "addr x \<notin> set (addrs C)" "addr y \<notin> set (addrs C)" using d by auto
  have dj: "set (addrs A) \<inter> set (ctx_addrs cs) = {}" "set (addrs B) \<inter> set (ctx_addrs cs) = {}" "set (addrs C) \<inter> set (ctx_addrs cs) = {}"
    "set (addrs B) \<inter> set (addrs A) = {}" "set (addrs B) \<inter> set (addrs C) = {}" "distinct (addrs B)" "distinct (ctx_addrs cs)"
    using d by auto
  have step1: "adopt (root_of B) ?x (t\<lparr>nodes := ?h(addr x \<mapsto> cell (root_of B) (root_of C) (above cs) x)\<rparr>) = Some (t\<lparr>nodes := ?h1\<rparr>)"
    using adopt_spec [of "t\<lparr>nodes := ?h(addr x \<mapsto> cell (root_of B) (root_of C) (above cs) x)\<rparr>" ?y B ?x] B xy by simp
  have step2: "turn_link ?x ?y (t\<lparr>nodes := ?h2\<rparr>) = Some (t\<lparr>nodes := ?h3, root := root_in ?y cs\<rparr>)"
    using turn_link_spec [of "t\<lparr>nodes := ?h2\<rparr>" "addr x" "cell (root_of B) (root_of C) (above cs) x" cs ?y] ctx xy dj by simp
  have "right_rotate ?x t = Some (t\<lparr>nodes := ?h4, root := root_in ?y cs\<rparr>)"
    unfolding right_rotate_def by (simp add: x y xy xy(1) [symmetric] step1 step2 Let_def)
  moreover have "holds (t\<lparr>nodes := ?h4, root := root_in ?y cs\<rparr>) (plug cs (Node A y (Node B x C)))"
  proof -
    have "ctx_at ?h2 ?x cs" using ctx xy dj by simp
    then have "ctx_at ?h4 ?y cs" "dom ?h3 = dom ?h2" using xy dj by simp_all
    moreover have "dom ?h2 = dom ?h" using B x y xy by (simp add: insert_absorb domI)
    moreover have "tree_at ?h4 (above cs) (Node A y (Node B x C))" using A B C xy dj by simp
    ultimately show ?thesis using d dom by (auto simp: holds_plug)
  qed
  moreover have "moved t (t\<lparr>nodes := ?h4, root := root_in ?y cs\<rparr>)" by (simp add: moved_def)
  ultimately show thesis by (rule that)
qed

lemma left_rotate_spec:
  assumes "holds t (plug cs (Node A x (Node B y C)))"
  obtains t' where "left_rotate (Some (addr x)) t = Some t'" "holds t' (plug cs (Node (Node A x B) y C))" "moved t t'"
proof -
  let ?h = "nodes t" and ?x = "Some (addr x)" and ?y = "Some (addr y)"
  have ctx: "ctx_at ?h ?x cs" "root t = root_in ?x cs" and x: "?h (addr x) = Some (cell (root_of A) ?y (above cs) x)"
    and y: "?h (addr y) = Some (cell (root_of B) (root_of C) ?x y)" and A: "tree_at ?h ?x A" and B: "tree_at ?h ?y B" and C: "tree_at ?h ?y C"
    and d: "distinct (addrs A @ addr x # addrs B @ addr y # addrs C @ ctx_addrs cs)"
    and dom: "dom ?h = set (addrs A) \<union> set (addrs B) \<union> set (addrs C) \<union> {addr x, addr y} \<union> set (ctx_addrs cs)"
    using assms by (auto simp: holds_plug)
  let ?h1 = "reparent ?x B (?h(addr x \<mapsto> cell (root_of A) (root_of B) (above cs) x))"
  let ?h2 = "?h1(addr y \<mapsto> cell (root_of B) (root_of C) (above cs) y)"
  let ?h3 = "turned ?y cs ?h2"
  let ?h4 = "?h3(addr y \<mapsto> cell ?x (root_of C) (above cs) y, addr x \<mapsto> cell (root_of A) (root_of B) ?y x)"
  have xy: "addr x \<noteq> addr y" "addr x \<notin> set (addrs B)" "addr y \<notin> set (addrs B)" "addr x \<notin> set (ctx_addrs cs)" "addr y \<notin> set (ctx_addrs cs)"
    "addr x \<notin> set (addrs A)" "addr y \<notin> set (addrs A)" "addr x \<notin> set (addrs C)" "addr y \<notin> set (addrs C)" using d by auto
  have dj: "set (addrs A) \<inter> set (ctx_addrs cs) = {}" "set (addrs B) \<inter> set (ctx_addrs cs) = {}" "set (addrs C) \<inter> set (ctx_addrs cs) = {}"
    "set (addrs B) \<inter> set (addrs A) = {}" "set (addrs B) \<inter> set (addrs C) = {}" "distinct (addrs B)" "distinct (ctx_addrs cs)"
    using d by auto
  have step1: "adopt (root_of B) ?x (t\<lparr>nodes := ?h(addr x \<mapsto> cell (root_of A) (root_of B) (above cs) x)\<rparr>) = Some (t\<lparr>nodes := ?h1\<rparr>)"
    using adopt_spec [of "t\<lparr>nodes := ?h(addr x \<mapsto> cell (root_of A) (root_of B) (above cs) x)\<rparr>" ?y B ?x] B xy by simp
  have step2: "turn_link ?x ?y (t\<lparr>nodes := ?h2\<rparr>) = Some (t\<lparr>nodes := ?h3, root := root_in ?y cs\<rparr>)"
    using turn_link_spec [of "t\<lparr>nodes := ?h2\<rparr>" "addr x" "cell (root_of A) (root_of B) (above cs) x" cs ?y] ctx xy dj by simp
  have "left_rotate ?x t = Some (t\<lparr>nodes := ?h4, root := root_in ?y cs\<rparr>)"
    unfolding left_rotate_def by (simp add: x y xy xy(1) [symmetric] step1 step2 Let_def)
  moreover have "holds (t\<lparr>nodes := ?h4, root := root_in ?y cs\<rparr>) (plug cs (Node (Node A x B) y C))"
  proof -
    have "ctx_at ?h2 ?x cs" using ctx xy dj by simp
    then have "ctx_at ?h4 ?y cs" "dom ?h3 = dom ?h2" using xy dj by simp_all
    moreover have "dom ?h2 = dom ?h" using B x y xy by (simp add: insert_absorb domI)
    moreover have "tree_at ?h4 (above cs) (Node (Node A x B) y C)" using A B C xy dj by simp
    ultimately show ?thesis using d dom by (auto simp: holds_plug)
  qed
  moreover have "moved t (t\<lparr>nodes := ?h4, root := root_in ?y cs\<rparr>)" by (simp add: moved_def)
  ultimately show thesis by (rule that)
qed

subsection \<open>Splaying\<close>

text \<open>The tree after splaying the root of the focused tree.\<close>

fun splayed :: "step list \<Rightarrow> label tree \<Rightarrow> label \<Rightarrow> label tree \<Rightarrow> label tree" where
  "splayed [] l x r = Node l x r"
| "splayed [InLeft p c] l x r = Node l x (Node r p c)"
| "splayed [InRight a p] l x r = Node (Node a p l) x r"
| "splayed (InLeft p c # InLeft g d # cs) l x r = splayed cs l x (Node r p (Node c g d))"
| "splayed (InRight b p # InRight a g # cs) l x r = splayed cs (Node (Node a g b) p l) x r"
| "splayed (InLeft p c # InRight a g # cs) l x r = splayed cs (Node a g l) x (Node r p c)"
| "splayed (InRight a p # InLeft g d # cs) l x r = splayed cs (Node a p l) x (Node r g d)"

fun before :: "step list \<Rightarrow> label list" where
  "before [] = []"
| "before (InLeft x r # cs) = before cs"
| "before (InRight l x # cs) = before cs @ inorder l @ [x]"

fun after :: "step list \<Rightarrow> label list" where
  "after [] = []"
| "after (InLeft x r # cs) = x # inorder r @ after cs"
| "after (InRight l x # cs) = after cs"

lemma inorder_plug: "inorder (plug cs T) = before cs @ inorder T @ after cs"
  by (induction cs T rule: plug.induct) auto

lemma splayed_inorder: "inorder (splayed cs l x r) = before cs @ inorder l @ x # inorder r @ after cs"
  by (induction cs l x r rule: splayed.induct) auto

lemma splayed_root: obtains L R where "splayed cs l x r = Node L x R"
  by (induction cs l x r rule: splayed.induct) auto

lemma moved_trans: "moved t1 t2 \<Longrightarrow> moved t2 t3 \<Longrightarrow> moved t1 t3"
  by (simp add: moved_def)

text \<open>The node of the focus and its link to the next node up.\<close>

lemma focus_node: "holds t (plug cs (Node l x r)) \<Longrightarrow> nodes t (addr x) = Some (cell (root_of l) (root_of r) (above cs) x)"
  by (simp add: holds_plug)

lemma focus_up_left:
  "holds t (plug (InLeft p c # cs) (Node l x r)) \<Longrightarrow> nodes t (addr p) = Some (cell (Some (addr x)) (root_of c) (above cs) p)"
  by (simp add: holds_plug)

lemma focus_up_right:
  "holds t (plug (InRight a p # cs) (Node l x r)) \<Longrightarrow>
     nodes t (addr p) = Some (cell (root_of a) (Some (addr x)) (above cs) p) \<and> root_of a \<noteq> Some (addr x)"
  using root_of_in [of a "addr x"] by (auto simp: holds_plug)

lemma rotate_up_left:
  assumes "holds t (plug (InLeft p c # cs) (Node l x r))"
  obtains t' where "right_rotate (Some (addr p)) t = Some t'" "holds t' (plug cs (Node l x (Node r p c)))" "moved t t'"
  using assms by (auto intro: right_rotate_spec [of t cs l x r p c])

lemma rotate_up_right:
  assumes "holds t (plug (InRight a p # cs) (Node l x r))"
  obtains t' where "left_rotate (Some (addr p)) t = Some t'" "holds t' (plug cs (Node (Node a p l) x r))" "moved t t'"
  using assms by (auto intro: left_rotate_spec [of t cs a p l x r])

text \<open>One pass: the focus moves up by one or two steps.\<close>

fun pass :: "step list \<Rightarrow> label tree \<Rightarrow> label \<Rightarrow> label tree \<Rightarrow> step list \<times> label tree \<times> label tree" where
  "pass [] l x r = ([], l, r)"
| "pass [InLeft p c] l x r = ([], l, Node r p c)"
| "pass [InRight a p] l x r = ([], Node a p l, r)"
| "pass (InLeft p c # InLeft g d # cs) l x r = (cs, l, Node r p (Node c g d))"
| "pass (InRight b p # InRight a g # cs) l x r = (cs, Node (Node a g b) p l, r)"
| "pass (InLeft p c # InRight a g # cs) l x r = (cs, Node a g l, Node r p c)"
| "pass (InRight a p # InLeft g d # cs) l x r = (cs, Node a p l, Node r g d)"

lemma splayed_pass: "splayed cs l x r = (case pass cs l x r of (cs', l', r') \<Rightarrow> splayed cs' l' x r')"
  by (induction cs l x r rule: pass.induct) simp_all

lemma pass_shorter: "cs \<noteq> [] \<Longrightarrow> length (fst (pass cs l x r)) < length cs"
  by (induction cs l x r rule: pass.induct) simp_all

end
