(* ===== verification/Stree_Splay.thy ===== *)
theory Stree_Splay
  imports Stree_Heap
begin

text \<open>
  Splaying: each pass of the loop is a pass on the tree with a focus, and the loop ends with the focus
  at the root and the same nodes in the same order.
\<close>

lemma splay_step_single:
  assumes "holds t (plug [c] (Node l x r))" "pass [c] l x r = (cs', l', r')"
  obtains t' where "splay_step (Some (addr x)) t = Some t'" "holds t' (plug cs' (Node l' x r'))" "moved t t'"
proof (cases c)
  case (InLeft p e)
  obtain t' where t': "right_rotate (Some (addr p)) t = Some t'" "holds t' (plug [] (Node l x (Node r p e)))" "moved t t'"
    using rotate_up_left [of t p e "[]" l x r] assms(1) InLeft by auto
  have "splay_step (Some (addr x)) t = Some t'"
    using focus_node [OF assms(1)] focus_up_left [of t p e "[]" l x r] assms(1) InLeft t'(1) by (simp add: splay_step_def)
  then show thesis using that [of t'] t' assms(2) InLeft by simp
next
  case (InRight a p)
  obtain t' where t': "left_rotate (Some (addr p)) t = Some t'" "holds t' (plug [] (Node (Node a p l) x r))" "moved t t'"
    using rotate_up_right [of t a p "[]" l x r] assms(1) InRight by auto
  have "splay_step (Some (addr x)) t = Some t'"
    using focus_node [OF assms(1)] focus_up_right [of t a p "[]" l x r] assms(1) InRight t'(1) by (simp add: splay_step_def)
  then show thesis using that [of t'] t' assms(2) InRight by simp
qed

text \<open>The links that a pass reads when the focus has a grandparent.\<close>

lemma pass_reads:
  assumes "holds t (plug (c # d # cs) (Node l x r))"
  obtains pn gn where "nodes t (addr x) = Some (cell (root_of l) (root_of r) (Some (step_addr c)) x)"
    "nodes t (step_addr c) = Some pn" "n_parent pn = Some (step_addr d)" "nodes t (step_addr d) = Some gn"
    "n_left pn = Some (addr x) \<longleftrightarrow> is_left c" "n_right pn = Some (addr x) \<longleftrightarrow> \<not> is_left c"
    "n_left gn = Some (step_addr c) \<longleftrightarrow> is_left d" "n_right gn = Some (step_addr c) \<longleftrightarrow> \<not> is_left d"
proof -
  have x: "nodes t (addr x) = Some (cell (root_of l) (root_of r) (Some (step_addr c)) x)" using focus_node [OF assms] by simp
  have ctx: "ctx_at (nodes t) (Some (addr x)) (c # d # cs)" and dist: "distinct (addr x # ctx_addrs (c # d # cs))"
    using assms by (auto simp: holds_plug)
  have ne: "root_of e \<noteq> Some a" if "a \<notin> set (addrs e)" for e a using root_of_in [of e a] that by auto
  obtain pn where p: "nodes t (step_addr c) = Some pn" "n_parent pn = Some (step_addr d)"
    "n_left pn = Some (addr x) \<longleftrightarrow> is_left c" "n_right pn = Some (addr x) \<longleftrightarrow> \<not> is_left c"
    using ctx dist ne by (cases c) (auto intro!: that)
  have ctx2: "ctx_at (nodes t) (Some (step_addr c)) (d # cs)" and dist2: "step_addr c \<notin> set (ctx_addrs (d # cs))"
    using ctx dist by (cases c; auto)+
  obtain gn where g: "nodes t (step_addr d) = Some gn"
    "n_left gn = Some (step_addr c) \<longleftrightarrow> is_left d" "n_right gn = Some (step_addr c) \<longleftrightarrow> \<not> is_left d"
    using ctx2 dist2 ne by (cases d) (auto intro!: that)
  show thesis by (rule that [OF x p(1,2) g(1) p(3,4) g(2,3)])
qed

lemma splay_step_double:
  assumes h: "holds t (plug (c # d # cs) (Node l x r))" and ps: "pass (c # d # cs) l x r = (cs', l', r')"
  obtains t' where "splay_step (Some (addr x)) t = Some t'" "holds t' (plug cs' (Node l' x r'))" "moved t t'"
proof -
  obtain pn gn where reads: "nodes t (addr x) = Some (cell (root_of l) (root_of r) (Some (step_addr c)) x)"
    "nodes t (step_addr c) = Some pn" "n_parent pn = Some (step_addr d)" "nodes t (step_addr d) = Some gn"
    "n_left pn = Some (addr x) \<longleftrightarrow> is_left c" "n_right pn = Some (addr x) \<longleftrightarrow> \<not> is_left c"
    "n_left gn = Some (step_addr c) \<longleftrightarrow> is_left d" "n_right gn = Some (step_addr c) \<longleftrightarrow> \<not> is_left d"
    by (rule pass_reads [OF h])
  consider (ll) p e g f where "c = InLeft p e" "d = InLeft g f" | (rr) b p a g where "c = InRight b p" "d = InRight a g"
    | (lr) p e a g where "c = InLeft p e" "d = InRight a g" | (rl) a p g f where "c = InRight a p" "d = InLeft g f"
    by (cases c; cases d) auto
  then show thesis
  proof cases
    case ll
    obtain t1 where t1: "right_rotate (Some (addr g)) t = Some t1" "holds t1 (plug (InLeft p (Node e g f) # cs) (Node l x r))" "moved t t1"
      using rotate_up_left [of t g f cs "Node l x r" p e] h ll by auto
    obtain t2 where t2: "right_rotate (Some (addr p)) t1 = Some t2" "holds t2 (plug cs (Node l x (Node r p (Node e g f))))" "moved t1 t2"
      by (rule rotate_up_left [OF t1(2)])
    have "splay_step (Some (addr x)) t = Some t2"
      using reads [unfolded ll, simplified] t1(1) t2(1) focus_node [OF t1(2)] by (simp add: splay_step_def Let_def)
    then show ?thesis using that [of t2] t2(2) moved_trans [OF t1(3) t2(3)] ps ll by simp
  next
    case rr
    obtain t1 where t1: "left_rotate (Some (addr g)) t = Some t1" "holds t1 (plug (InRight (Node a g b) p # cs) (Node l x r))" "moved t t1"
      using rotate_up_right [of t a g cs b p "Node l x r"] h rr by auto
    obtain t2 where t2: "left_rotate (Some (addr p)) t1 = Some t2" "holds t2 (plug cs (Node (Node (Node a g b) p l) x r))" "moved t1 t2"
      by (rule rotate_up_right [OF t1(2)])
    have "splay_step (Some (addr x)) t = Some t2"
      using reads [unfolded rr, simplified] t1(1) t2(1) focus_node [OF t1(2)] by (simp add: splay_step_def Let_def)
    then show ?thesis using that [of t2] t2(2) moved_trans [OF t1(3) t2(3)] ps rr by simp
  next
    case lr
    obtain t1 where t1: "right_rotate (Some (addr p)) t = Some t1" "holds t1 (plug (InRight a g # cs) (Node l x (Node r p e)))" "moved t t1"
      using rotate_up_left [of t p e "InRight a g # cs" l x r] h lr by auto
    obtain t2 where t2: "left_rotate (Some (addr g)) t1 = Some t2" "holds t2 (plug cs (Node (Node a g l) x (Node r p e)))" "moved t1 t2"
      by (rule rotate_up_right [OF t1(2)])
    have "splay_step (Some (addr x)) t = Some t2"
      using reads [unfolded lr, simplified] t1(1) t2(1) focus_node [OF t1(2)] by (simp add: splay_step_def Let_def)
    then show ?thesis using that [of t2] t2(2) moved_trans [OF t1(3) t2(3)] ps lr by simp
  next
    case rl
    obtain t1 where t1: "left_rotate (Some (addr p)) t = Some t1" "holds t1 (plug (InLeft g f # cs) (Node (Node a p l) x r))" "moved t t1"
      using rotate_up_right [of t a p "InLeft g f # cs" l x r] h rl by auto
    obtain t2 where t2: "right_rotate (Some (addr g)) t1 = Some t2" "holds t2 (plug cs (Node (Node a p l) x (Node r g f)))" "moved t1 t2"
      by (rule rotate_up_left [OF t1(2)])
    have "splay_step (Some (addr x)) t = Some t2"
      using reads [unfolded rl, simplified] t1(1) t2(1) focus_node [OF t1(2)] by (simp add: splay_step_def Let_def)
    then show ?thesis using that [of t2] t2(2) moved_trans [OF t1(3) t2(3)] ps rl by simp
  qed
qed

theorem splay_spec:
  assumes "holds t (plug cs (Node l x r))"
  obtains t' where "splay (Some (addr x)) t = Some t'" "holds t' (splayed cs l x r)" "moved t t'"
  using assms
proof (induction cs arbitrary: t l r thesis rule: length_induct)
  case (1 cs)
  have x: "nodes t (addr x) = Some (cell (root_of l) (root_of r) (above cs) x)" by (rule focus_node [OF 1(3)])
  show ?case
  proof (cases "cs = []")
    case True
    then have "splay (Some (addr x)) t = Some t" using x by (subst splay.simps) simp
    then show ?thesis using 1(2) [of t] 1(3) True by (simp add: moved_def)
  next
    case False
    obtain cs' l' r' where ps: "pass cs l x r = (cs', l', r')" by (cases "pass cs l x r")
    obtain t1 where t1: "splay_step (Some (addr x)) t = Some t1" "holds t1 (plug cs' (Node l' x r'))" "moved t t1"
    proof (cases "length cs = 1")
      case True
      then obtain c where "cs = [c]" by (cases cs) auto
      then show ?thesis using splay_step_single [of t c l x r cs' l' r'] 1(3) ps that by auto
    next
      case len: False
      then obtain c d cs2 where "cs = c # d # cs2" using False by (cases cs; cases "tl cs") auto
      then show ?thesis using splay_step_double [of t c d cs2 l x r cs' l' r'] 1(3) ps that by auto
    qed
    have shorter: "length cs' < length cs" using pass_shorter [OF False, of l x r] ps by simp
    obtain t' where t': "splay (Some (addr x)) t1 = Some t'" "holds t' (splayed cs' l' x r')" "moved t1 t'"
      using 1(1) shorter t1(2) by blast
    obtain a where "above cs = Some a" using False by (cases cs) auto
    then have "splay (Some (addr x)) t = Some t'" using x t1(1) t'(1) by (subst splay.simps) simp
    moreover have "splayed cs l x r = splayed cs' l' x r'" using splayed_pass [of cs l x r] ps by simp
    ultimately show ?thesis using 1(2) [of t'] t'(2) moved_trans [OF t1(3) t'(3)] by simp
  qed
qed

end
