(* ===== verification/Stree_Ops.thy ===== *)
theory Stree_Ops
  imports Stree_Splay
begin

text \<open>
  The operations of the splay tree on a search tree: where a descent ends, and what each operation does to
  the list of (key, record) pairs in key order.
\<close>

subsection \<open>Descending\<close>

fun descend :: "int \<Rightarrow> step list \<Rightarrow> label tree \<Rightarrow> step list \<times> label tree" where
  "descend k cs Leaf = (cs, Leaf)"
| "descend k cs (Node l x r) =
     (if k = label_key x then (cs, Node l x r)
      else if k > label_key x then descend k (InRight l x # cs) r else descend k (InLeft x r # cs) l)"

definition ordered :: "label list \<Rightarrow> bool" where
  "ordered xs \<longleftrightarrow> sorted_wrt (\<lambda>x y. label_key x < label_key y) xs"

lemma ordered_simps [simp]:
  "ordered []" "ordered (x # xs) \<longleftrightarrow> (\<forall>y \<in> set xs. label_key x < label_key y) \<and> ordered xs"
  "ordered (xs @ ys) \<longleftrightarrow> ordered xs \<and> ordered ys \<and> (\<forall>x \<in> set xs. \<forall>y \<in> set ys. label_key x < label_key y)"
  by (auto simp: ordered_def sorted_wrt_append)

lemma descend_plug: "descend k cs T = (cs', T') \<Longrightarrow> plug cs' T' = plug cs T"
  by (induction k cs T rule: descend.induct) (auto split: if_splits)

lemma descend_found: "descend k cs T = (cs', Node l x r) \<Longrightarrow> label_key x = k"
  by (induction k cs T rule: descend.induct) (auto split: if_splits)

definition around :: "int \<Rightarrow> step list \<Rightarrow> bool" where
  "around k cs \<longleftrightarrow> (\<forall>x \<in> set (before cs). label_key x < k) \<and> (\<forall>x \<in> set (after cs). k < label_key x)"

lemma around_Nil [simp]: "around k []"
  by (simp add: around_def)

lemma around_step: "around k cs \<Longrightarrow> ordered (inorder (Node l x r)) \<Longrightarrow>
    (label_key x < k \<longrightarrow> around k (InRight l x # cs)) \<and> (k < label_key x \<longrightarrow> around k (InLeft x r # cs))"
  by (force simp: around_def)

lemma descend_around: "descend k cs T = (cs', T') \<Longrightarrow> ordered (inorder T) \<Longrightarrow> around k cs \<Longrightarrow> around k cs'"
proof (induction k cs T rule: descend.induct)
  case (2 k cs l x r)
  then show ?case using around_step [of k cs l x r] by (auto split: if_splits)
qed simp

subsection \<open>The loops\<close>

text \<open>A loop changes the counter of comparisons only.\<close>

abbreviation counted :: "u64 \<Rightarrow> tree_t \<Rightarrow> tree_t" where
  "counted c t \<equiv> t\<lparr>comparison_count := c\<rparr>"

lemma compared_sel [simp]: "nodes (compared t) = nodes t" "root (compared t) = root t" "node_count (compared t) = node_count t"
  "counted c (compared t) = counted c t"
  by (simp_all add: compared_def)

lemma compared_counted: "\<exists>c. compared t = counted c t"
  by (auto simp: compared_def)

lemma node_root: "tree_at (nodes t) p (Node l x r) \<Longrightarrow> nodes t (addr x) = Some (cell (root_of l) (root_of r) p x)"
  by simp

lemma insert_loop_spec:
  assumes "tree_at (nodes t) p T" "descend k cs T = (cs', T')"
  shows "\<exists>c. insert_loop k (root_of T) (above cs) t =
    Some (T' \<noteq> Leaf, if T' = Leaf then above cs' else root_of T', counted c t)"
  using assms
proof (induction T arbitrary: p cs t)
  case Leaf
  then show ?case by (subst insert_loop.simps) (auto intro: exI [of _ "comparison_count t"])
next
  case (Node l x r)
  note x = node_root [OF Node.prems(1)]
  show ?case
  proof (cases "k = label_key x")
    case True
    then show ?thesis using x Node.prems(2) compared_counted [of t]
      by (subst insert_loop.simps) (auto simp: Let_def)
  next
    case False
    have "\<exists>c. insert_loop k (if k > label_key x then root_of r else root_of l) (Some (addr x)) (compared (compared t)) =
        Some (T' \<noteq> Leaf, if T' = Leaf then above cs' else root_of T', counted c t)"
      using Node.IH(2) [of "compared (compared t)" "Some (addr x)" "InRight l x # cs"]
        Node.IH(1) [of "compared (compared t)" "Some (addr x)" "InLeft x r # cs"] Node.prems False
      by (simp split: if_splits)
    then show ?thesis using x False by (subst insert_loop.simps) (simp add: Let_def split: if_splits)
  qed
qed

definition found_record :: "label tree \<Rightarrow> ptr" where
  "found_record T = (case T of Leaf \<Rightarrow> NULL | Node _ x _ \<Rightarrow> snd (snd x))"

lemma find_loop_spec:
  assumes "tree_at (nodes t) p T" "descend k cs T = (cs', T')"
  shows "\<exists>c. find_loop k (root_of T) t = Some (found_record T', counted c t)"
  using assms
proof (induction T arbitrary: p cs t)
  case Leaf
  then show ?case by (subst find_loop.simps) (auto simp: found_record_def intro: exI [of _ "comparison_count t"])
next
  case (Node l x r)
  note x = node_root [OF Node.prems(1)]
  show ?case
  proof (cases "k = label_key x")
    case True
    then show ?thesis using x Node.prems(2) compared_counted [of t]
      by (subst find_loop.simps) (auto simp: Let_def found_record_def)
  next
    case False
    have "\<exists>c. find_loop k (if k > label_key x then root_of r else root_of l) (compared (compared t)) =
        Some (found_record T', counted c t)"
      using Node.IH(2) [of "compared (compared t)" "Some (addr x)" "InRight l x # cs"]
        Node.IH(1) [of "compared (compared t)" "Some (addr x)" "InLeft x r # cs"] Node.prems False
      by (simp split: if_splits)
    then show ?thesis using x False by (subst find_loop.simps) (simp add: Let_def split: if_splits)
  qed
qed

lemma remove_loop_spec:
  assumes "tree_at (nodes t) p T" "descend k cs T = (cs', T')"
  shows "\<exists>c. remove_loop k (root_of T) t = Some (root_of T', counted c t)"
  using assms
proof (induction T arbitrary: p cs t)
  case Leaf
  then show ?case by (subst remove_loop.simps) (auto intro: exI [of _ "comparison_count t"])
next
  case (Node l x r)
  note x = node_root [OF Node.prems(1)]
  show ?case
  proof (cases "k = label_key x")
    case True
    then show ?thesis using x Node.prems(2)
      by (subst remove_loop.simps) (auto intro: exI [of _ "comparison_count t"])
  next
    case False
    have "\<exists>c. remove_loop k (if k > label_key x then root_of r else root_of l) (compared t) = Some (root_of T', counted c t)"
      using Node.IH(2) [of "compared t" "Some (addr x)" "InRight l x # cs"]
        Node.IH(1) [of "compared t" "Some (addr x)" "InLeft x r # cs"] Node.prems False
      by (simp split: if_splits)
    then show ?thesis using x False by (subst remove_loop.simps) (simp split: if_splits)
  qed
qed

text \<open>The node that the search for the nearest key remembers, and the last label before the focus.\<close>

fun passed :: "step list \<Rightarrow> label option" where
  "passed [] = None"
| "passed (InLeft x r # cs) = passed cs"
| "passed (InRight l x # cs) = Some x"

lemma passed_before: "passed cs = (if before cs = [] then None else Some (last (before cs)))"
  by (induction cs rule: passed.induct) auto

lemma passed_at: "ctx_at h p cs \<Longrightarrow> passed cs = Some x \<Longrightarrow> \<exists>n. h (addr x) = Some n \<and> n_key n = label_key x \<and> n_record n = snd (snd x)"
  by (induction h p cs rule: ctx_at.induct) auto

definition nearest_record :: "step list \<Rightarrow> label tree \<Rightarrow> ptr" where
  "nearest_record cs T = (case T of Leaf \<Rightarrow> (case passed cs of None \<Rightarrow> NULL | Some x \<Rightarrow> snd (snd x)) | Node _ x _ \<Rightarrow> snd (snd x))"

lemma nearest_loop_spec:
  assumes "ctx_at (nodes t) (root_of T) cs" "tree_at (nodes t) (above cs) T" "ordered (before cs @ inorder T)" "descend k cs T = (cs', T')"
  shows "\<exists>c. nearest_loop k (root_of T) (map_option addr (passed cs)) t = Some (nearest_record cs' T', counted c t)"
  using assms
proof (induction T arbitrary: cs t)
  case Leaf
  show ?case
  proof (cases "passed cs")
    case None
    then show ?thesis using Leaf
      by (subst nearest_loop.simps) (auto simp: nearest_record_def intro: exI [of _ "comparison_count t"])
  next
    case (Some x)
    then obtain n where "nodes t (addr x) = Some n" "n_record n = snd (snd x)" using passed_at [OF Leaf(1)] by blast
    then show ?thesis using Leaf Some
      by (subst nearest_loop.simps) (auto simp: nearest_record_def intro: exI [of _ "comparison_count t"])
  qed
next
  case (Node l x r)
  note x = node_root [OF Node.prems(2)]
  consider "k = label_key x" | "label_key x < k" | "k < label_key x" by linarith
  then show ?case
  proof cases
    case 1
    then show ?thesis using x Node.prems(4) compared_counted [of t]
      by (subst nearest_loop.simps) (auto simp: Let_def nearest_record_def)
  next
    case 2
    have "\<exists>c. nearest_loop k (root_of r) (Some (addr x)) (compared (compared t)) = Some (nearest_record cs' T', counted c t)"
      using Node.IH(2) [of "compared (compared t)" "InRight l x # cs"] Node.prems 2 by simp
    moreover have "passed cs = None \<or> (\<exists>y n. passed cs = Some y \<and> nodes t (addr y) = Some n \<and> n_key n < label_key x)"
    proof (cases "passed cs")
      case (Some y)
      then obtain n where n: "nodes t (addr y) = Some n" "n_key n = label_key y" using passed_at [OF Node.prems(1)] by blast
      have "y \<in> set (before cs)" using Some passed_before [of cs] by (auto split: if_splits)
      then have "label_key y < label_key x" using Node.prems(3) by simp
      then show ?thesis using n Some by simp
    qed simp
    ultimately show ?thesis using x 2 by (subst nearest_loop.simps) (auto simp: Let_def)
  next
    case 3
    have "\<exists>c. nearest_loop k (root_of l) (map_option addr (passed cs)) (compared (compared t)) = Some (nearest_record cs' T', counted c t)"
      using Node.IH(1) [of "compared (compared t)" "InLeft x r # cs"] Node.prems 3 by simp
    then show ?thesis using x 3 by (subst nearest_loop.simps) (simp add: Let_def)
  qed
qed

subsection \<open>Sorted lists of entries\<close>

text \<open>What a tree means: its keys with their records, in order.\<close>

type_synonym entries = "(int \<times> ptr) list"

definition lookup :: "int \<Rightarrow> entries \<Rightarrow> ptr" where
  "lookup k es = (case map_of es k of None \<Rightarrow> NULL | Some r \<Rightarrow> r)"

definition put :: "int \<Rightarrow> ptr \<Rightarrow> entries \<Rightarrow> entries" where
  "put k r es = filter (\<lambda>e. fst e < k) es @ (k, r) # filter (\<lambda>e. k < fst e) es"

definition nearest :: "int \<Rightarrow> entries \<Rightarrow> ptr" where
  "nearest k es = (let below = filter (\<lambda>e. fst e \<le> k) es in if below = [] then NULL else snd (last below))"

definition delete :: "int \<Rightarrow> entries \<Rightarrow> entries" where
  "delete k es = filter (\<lambda>e. fst e \<noteq> k) es"

definition entries_of :: "label tree \<Rightarrow> entries" where
  "entries_of T = map snd (inorder T)"

definition represents :: "tree_t \<Rightarrow> entries \<Rightarrow> bool" where
  "represents t es \<longleftrightarrow> (\<exists>T. holds t T \<and> ordered (inorder T) \<and> entries_of T = es \<and> node_count t = of_nat (length es))"

lemma filter_around:
  assumes "around k cs"
  shows "filter (\<lambda>e. fst e < k) (map snd (before cs)) = map snd (before cs)" "filter (\<lambda>e. k < fst e) (map snd (before cs)) = []"
    "filter (\<lambda>e. fst e \<le> k) (map snd (before cs)) = map snd (before cs)"
    "filter (\<lambda>e. fst e < k) (map snd (after cs)) = []" "filter (\<lambda>e. k < fst e) (map snd (after cs)) = map snd (after cs)"
    "filter (\<lambda>e. fst e \<le> k) (map snd (after cs)) = []"
    "map_of (map snd (before cs)) k = None" "map_of (map snd (after cs)) k = None"
  using assms unfolding around_def by (force simp: filter_empty_conv filter_id_conv map_of_eq_None_iff)+

subsection \<open>Searching\<close>

lemma representsE:
  assumes "represents t es"
  obtains T where "holds t T" "ordered (inorder T)" "entries_of T = es" "node_count t = of_nat (length es)"
  using assms unfolding represents_def by blast

lemma represents_counted: "represents t es \<Longrightarrow> represents (counted c t) es"
  unfolding represents_def holds_def by auto

lemma descentE:
  assumes "represents t es"
  obtains T cs T' where "holds t T" "ordered (inorder T)" "descend k [] T = (cs, T')" "plug cs T' = T" "around k cs"
    "es = map snd (before cs) @ entries_of T' @ map snd (after cs)"
proof -
  obtain T where T: "holds t T" "ordered (inorder T)" "entries_of T = es" using assms by (rule representsE)
  obtain cs T' where d: "descend k [] T = (cs, T')" by (cases "descend k [] T")
  have p: "plug cs T' = T" using descend_plug [OF d] by simp
  show thesis
    using that [OF T(1,2) d p descend_around [OF d T(2)]] T(3) inorder_plug [of cs T'] p by (simp add: entries_of_def)
qed

text \<open>The entries around a focus with the key.\<close>

lemma focus_filter:
  assumes "ordered (inorder (plug cs (Node l x r)))" "label_key x = k"
  shows "map_of (entries_of (Node l x r)) k = Some (snd (snd x))"
    "filter (\<lambda>e. fst e \<le> k) (entries_of (Node l x r)) = map snd (inorder l @ [x])"
proof -
  have lr: "\<forall>y \<in> set (inorder l). label_key y < k" "\<forall>y \<in> set (inorder r). k < label_key y"
    using assms by (auto simp: inorder_plug)
  then have "map_of (map snd (inorder l)) k = None" by (force simp: map_of_eq_None_iff)
  then show "map_of (entries_of (Node l x r)) k = Some (snd (snd x))"
    using assms(2) by (cases x) (simp add: entries_of_def map_add_def)
  show "filter (\<lambda>e. fst e \<le> k) (entries_of (Node l x r)) = map snd (inorder l @ [x])"
  proof -
    have "filter (\<lambda>e. fst e \<le> k) (map snd (inorder l)) = map snd (inorder l)" "filter (\<lambda>e. fst e \<le> k) (map snd (inorder r)) = []"
      using lr by (force simp: filter_empty_conv filter_id_conv)+
    then show ?thesis using assms(2) by (simp add: entries_of_def)
  qed
qed

lemma tree_find_spec:
  assumes "represents t es"
  obtains t' where "tree_find k t = Some (lookup k es, t')" "represents t' es" "nodes t' = nodes t"
proof -
  obtain T cs T' where T: "holds t T" "ordered (inorder T)" "descend k [] T = (cs, T')" "plug cs T' = T" "around k cs"
    "es = map snd (before cs) @ entries_of T' @ map snd (after cs)" by (rule descentE [OF assms])
  have "found_record T' = lookup k es"
  proof (cases T')
    case Leaf
    then show ?thesis using T(6) filter_around(7,8) [OF T(5)] by (simp add: found_record_def lookup_def entries_of_def map_add_def)
  next
    case (Node l x r)
    then have "map_of (entries_of T') k = Some (snd (snd x))"
      using focus_filter(1) [of cs l x r k] descend_found [of k "[]" T cs l x r] T by simp
    then show ?thesis using T(6) Node filter_around(7,8) [OF T(5)] by (simp add: found_record_def lookup_def map_add_def)
  qed
  moreover obtain c where "find_loop k (root_of T) t = Some (found_record T', counted c t)"
    using find_loop_spec [OF _ T(3), of t NULL] T(1) by (auto simp: holds_def)
  ultimately show thesis
    using that [of "counted c t"] represents_counted [OF assms] T(1) by (simp add: tree_find_def holds_def)
qed

lemma tree_find_nearest_spec:
  assumes "represents t es"
  obtains t' where "tree_find_nearest k t = Some (nearest k es, t')" "represents t' es" "nodes t' = nodes t"
proof -
  obtain T cs T' where T: "holds t T" "ordered (inorder T)" "descend k [] T = (cs, T')" "plug cs T' = T" "around k cs"
    "es = map snd (before cs) @ entries_of T' @ map snd (after cs)" by (rule descentE [OF assms])
  have "nearest_record cs T' = nearest k es"
  proof (cases T')
    case Leaf
    then have "filter (\<lambda>e. fst e \<le> k) es = map snd (before cs)"
      using T(6) filter_around(3,6) [OF T(5)] by (simp add: entries_of_def)
    then show ?thesis using Leaf by (simp add: nearest_record_def nearest_def passed_before last_map)
  next
    case (Node l x r)
    then have "filter (\<lambda>e. fst e \<le> k) (entries_of T') = map snd (inorder l @ [x])"
      using focus_filter(2) [of cs l x r k] descend_found [of k "[]" T cs l x r] T by simp
    then have "filter (\<lambda>e. fst e \<le> k) es = (map snd (before cs) @ map snd (inorder l)) @ [snd x]"
      using T(6) filter_around(3,6) [OF T(5)] by simp
    then have "nearest k es = snd (snd x)" by (simp add: nearest_def)
    then show ?thesis using Node by (simp add: nearest_record_def)
  qed
  moreover obtain c where "nearest_loop k (root_of T) NULL t = Some (nearest_record cs T', counted c t)"
    using nearest_loop_spec [OF _ _ _ T(3), of t] T(1,2) by (auto simp: holds_def)
  ultimately show thesis
    using that [of "counted c t"] represents_counted [OF assms] T(1) by (simp add: tree_find_nearest_def holds_def)
qed

end
