(* ===== verification/Stree_Update.thy ===== *)
theory Stree_Update
  imports Stree_Ops
begin

text \<open>
  Insertion and removal in the splay tree, its release and its display, on the sorted list of entries.
\<close>

subsection \<open>Insertion\<close>

lemma representsI:
  "holds t T \<Longrightarrow> ordered (inorder T) \<Longrightarrow> entries_of T = es \<Longrightarrow> node_count t = of_nat (length es) \<Longrightarrow> represents t es"
  unfolding represents_def by blast

lemma cell_new: "\<lparr>n_left = NULL, n_right = NULL, n_parent = p, n_key = k, n_record = r\<rparr> = cell NULL NULL p (z, k, r)"
  by (simp add: cell_def)

lemma link_new_spec:
  assumes h: "holds t (plug cs Leaf)" and k: "around k cs" and z: "nodes t z = None"
    and new: "t' = t\<lparr>nodes := (nodes t)(z \<mapsto> cell NULL NULL (above cs) (z, k, r))\<rparr>"
  shows "\<exists>t''. link_new k z (above cs) t' = Some t'' \<and> holds t'' (plug cs (Node Leaf (z, k, r) Leaf)) \<and> moved t t''"
proof -
  let ?h = "(nodes t)(z \<mapsto> cell NULL NULL (above cs) (z, k, r))"
  let ?t = "t'\<lparr>root := root_in (Some z) cs, nodes := turned (Some z) cs ?h\<rparr>"
  have ctx: "ctx_at (nodes t) NULL cs" "root t = root_in NULL cs" "distinct (ctx_addrs cs)" "dom (nodes t) = set (ctx_addrs cs)"
    using h by (auto simp: holds_plug)
  have zc: "z \<notin> set (ctx_addrs cs)" using ctx(4) z by blast
  have "ctx_at ?h NULL cs" using ctx(1) zc by simp
  then have "ctx_at (turned (Some z) cs ?h) (Some z) cs" "dom (turned (Some z) cs ?h) = insert z (set (ctx_addrs cs))"
    using ctx(3,4) by simp_all
  then have "holds ?t (plug cs (Node Leaf (z, k, r) Leaf))" using zc ctx(3) by (simp add: holds_plug)
  moreover have "link_new k z (above cs) t' = Some ?t"
  proof (cases "(Some z, cs, ?h)" rule: turned.cases)
    case (1 v h)
    then show ?thesis by (simp add: link_new_def new)
  next
    case (2 v x r ds h)
    then have "k < label_key x" using k by (simp add: around_def)
    then show ?thesis using 2 ctx zc by (simp add: link_new_def new)
  next
    case (3 v l x ds h)
    then have "label_key x < k" using k by (simp add: around_def)
    then show ?thesis using 3 ctx zc by (simp add: link_new_def new)
  qed
  moreover have "moved t ?t" by (simp add: moved_def new)
  ultimately show ?thesis by blast
qed

lemma put_around:
  assumes "around k cs" "es = map snd (before cs) @ map snd (after cs)"
  shows "put k r es = map snd (before cs) @ (k, r) # map snd (after cs)" "lookup k es = NULL" "k \<notin> fst ` set es"
proof -
  note f = filter_around [OF assms(1)]
  show "put k r es = map snd (before cs) @ (k, r) # map snd (after cs)" using f by (simp add: put_def assms(2))
  have none: "map_of es k = None" using f by (simp add: assms(2) map_add_def)
  then show "lookup k es = NULL" by (simp add: lookup_def)
  show "k \<notin> fst ` set es" using none by (simp add: map_of_eq_None_iff)
qed

lemma tree_insert_new:
  assumes t: "represents t es" and k: "k \<notin> fst ` set es" and z: "nodes t z = None"
  obtains t' where "tree_insert k r (Some z) t = Some (Some True, t')" "represents t' (put k r es)"
proof -
  obtain T cs T' where T: "holds t T" "ordered (inorder T)" "descend k [] T = (cs, T')" "plug cs T' = T" "around k cs"
    "es = map snd (before cs) @ entries_of T' @ map snd (after cs)" by (rule descentE [OF t])
  have leaf: "T' = Leaf"
  proof (cases T')
    case (Node l x r)
    then have "snd x \<in> set es" using T(6) by (simp add: entries_of_def)
    then show ?thesis using k descend_found [of k "[]" T cs l x r] T(3) Node by auto
  qed
  then have es: "es = map snd (before cs) @ map snd (after cs)" using T(6) by (simp add: entries_of_def)
  obtain c where c: "insert_loop k (root t) NULL t = Some (False, above cs, counted c t)"
    using insert_loop_spec [of t NULL T k "[]" cs T'] T(1,3) leaf by (auto simp: holds_def)
  let ?t0 = "counted c t"
  let ?t1 = "?t0\<lparr>nodes := (nodes ?t0)(z \<mapsto> cell NULL NULL (above cs) (z, k, r))\<rparr>"
  have h0: "holds ?t0 (plug cs Leaf)" using T(1,4) leaf by (simp add: holds_def)
  obtain t2 where t2: "link_new k z (above cs) ?t1 = Some t2" "holds t2 (plug cs (Node Leaf (z, k, r) Leaf))" "moved ?t0 t2"
    using link_new_spec [OF h0 T(5), of z ?t1 r] z by auto
  obtain t3 where t3: "splay (Some z) t2 = Some t3" "holds t3 (splayed cs Leaf (z, k, r) Leaf)" "moved t2 t3"
    using splay_spec [OF t2(2)] by auto
  have "tree_insert k r (Some z) t = Some (Some True, t3\<lparr>node_count := node_count t3 + 1\<rparr>)"
    using c t2(1) t3(1) by (simp add: tree_insert_def Let_def cell_new [of _ k r z])
  moreover have "represents (t3\<lparr>node_count := node_count t3 + 1\<rparr>) (put k r es)"
  proof (rule representsI)
    show "holds (t3\<lparr>node_count := node_count t3 + 1\<rparr>) (splayed cs Leaf (z, k, r) Leaf)" using t3(2) by (simp add: holds_def)
    show "entries_of (splayed cs Leaf (z, k, r) Leaf) = put k r es"
      using put_around(1) [OF T(5) es] by (simp add: entries_of_def splayed_inorder)
    have "ordered (before cs @ after cs)" using T(2,4) leaf inorder_plug [of cs Leaf] by simp
    then show "ordered (inorder (splayed cs Leaf (z, k, r) Leaf))"
      using T(5) by (simp add: splayed_inorder around_def ball_Un)
    obtain T2 where "node_count t = of_nat (length es)" using t by (rule representsE)
    then show "node_count (t3\<lparr>node_count := node_count t3 + 1\<rparr>) = of_nat (length (put k r es))"
      using t2(3) t3(3) put_around(1) [OF T(5) es] by (simp add: moved_def es)
  qed
  ultimately show thesis by (rule that)
qed

lemma tree_insert_present:
  assumes t: "represents t es" and k: "k \<in> fst ` set es"
  obtains t' where "tree_insert k r new t = Some (Some False, t')" "represents t' es" "nodes t' = nodes t"
proof -
  obtain T cs T' where T: "holds t T" "ordered (inorder T)" "descend k [] T = (cs, T')" "plug cs T' = T" "around k cs"
    "es = map snd (before cs) @ entries_of T' @ map snd (after cs)" by (rule descentE [OF t])
  have "T' \<noteq> Leaf" using put_around(3) [OF T(5), of es] T(6) k by (auto simp: entries_of_def)
  then obtain c where "insert_loop k (root t) NULL t = Some (True, root_of T', counted c t)"
    using insert_loop_spec [of t NULL T k "[]" cs T'] T(1,3) by (auto simp: holds_def)
  then have "tree_insert k r new t = Some (Some False, counted c t)" by (simp add: tree_insert_def)
  then show thesis using that [of "counted c t"] represents_counted [OF t] by simp
qed

subsection \<open>Removal\<close>

lemma replace_spec:
  assumes u: "nodes t u = Some n" "n_parent n = above cs" "ctx_at (nodes t) (Some u) cs" "root t = root_in (Some u) cs"
    and V: "tree_at (nodes t) q V" and d: "u \<notin> set (ctx_addrs cs)" "u \<notin> set (addrs V)" "set (addrs V) \<inter> set (ctx_addrs cs) = {}"
  shows "replace (Some u) (root_of V) t =
    Some (t\<lparr>root := root_in (root_of V) cs, nodes := reparent (above cs) V (turned (root_of V) cs (nodes t))\<rparr>)"
proof -
  let ?t = "t\<lparr>root := root_in (root_of V) cs, nodes := turned (root_of V) cs (nodes t)\<rparr>"
  have turn: "turn_link (Some u) (root_of V) t = Some ?t" by (rule turn_link_spec) (use u d in auto)
  have "adopt (root_of V) (above cs) ?t = Some (?t\<lparr>nodes := reparent (above cs) V (nodes ?t)\<rparr>)"
    using adopt_spec [of ?t q V "above cs"] V d(3) by simp
  then show ?thesis using turn u(1,2) d(1) by (cases V) (simp_all add: replace_def adopt_def reparent_def)
qed

lemma minimum_split:
  assumes "tree_at (nodes t) p T" "T \<noteq> Leaf"
  obtains cs y B where "T = plug cs (Node Leaf y B)" "before cs = []" "subtree_minimum (root_of T) t = Some (Some (addr y))"
  using assms
proof (induction T arbitrary: p thesis)
  case (Node l x r)
  note x = node_root [OF Node.prems(2)]
  show ?case
  proof (cases "l = Leaf")
    case True
    then have "subtree_minimum (Some (addr x)) t = Some (Some (addr x))" using x by (subst subtree_minimum.simps) simp
    then show ?thesis using Node.prems(1) [of "[]" x r] True by simp
  next
    case False
    have tl: "tree_at (nodes t) (Some (addr x)) l" using Node.prems(2) by simp
    obtain cs y B where l: "l = plug cs (Node Leaf y B)" "before cs = []" "subtree_minimum (root_of l) t = Some (Some (addr y))"
      by (rule Node.IH(1) [OF _ tl False])
    have "before (cs @ [InLeft x r]) = []" using l(2) by (induction cs rule: before.induct) auto
    moreover have "subtree_minimum (Some (addr x)) t = Some (Some (addr y))"
      using x l(3) False by (subst subtree_minimum.simps) (simp add: root_of_NULL)
    ultimately show ?thesis using Node.prems(1) [of "cs @ [InLeft x r]" y B] l(1) by (simp add: plug_append)
  qed
qed simp

text \<open>\<open>t\<close> is the tree \<open>T\<close> and the unlinked node \<open>x\<close>.\<close>

definition unlinked :: "tree_t \<Rightarrow> label tree \<Rightarrow> label \<Rightarrow> bool" where
  "unlinked t T x \<longleftrightarrow> root t = root_of T \<and> tree_at (nodes t) NULL T \<and> distinct (addrs T) \<and> addr x \<notin> set (addrs T) \<and>
     dom (nodes t) = insert (addr x) (set (addrs T)) \<and> (\<exists>n. nodes t (addr x) = Some n \<and> n_record n = snd (snd x))"

lemma unlinked_free:
  assumes "unlinked t T x"
  shows "\<exists>n. nodes t (addr x) = Some n \<and> n_record n = snd (snd x) \<and> holds (t\<lparr>node_count := c, nodes := (nodes t)(addr x := None)\<rparr>) T"
  using assms by (auto simp: unlinked_def holds_def)

lemma replace_with_child:
  assumes h: "holds t (Node L x R)" and V: "V = L \<and> R = Leaf \<or> V = R \<and> L = Leaf"
  obtains t' where "replace (Some (addr x)) (root_of V) t = Some t'" "unlinked t' V x" "moved t t'"
proof -
  have x: "nodes t (addr x) = Some (cell (root_of L) (root_of R) NULL x)" and tv: "tree_at (nodes t) (Some (addr x)) V"
    and d: "distinct (addrs V)" "addr x \<notin> set (addrs V)" "root t = Some (addr x)" "dom (nodes t) = insert (addr x) (set (addrs V))"
    using h V by (auto simp: holds_def)
  let ?t = "t\<lparr>root := root_of V, nodes := reparent NULL V (nodes t)\<rparr>"
  have "replace (Some (addr x)) (root_of V) t = Some ?t"
    using replace_spec [of t "addr x" "cell (root_of L) (root_of R) NULL x" "[]" "Some (addr x)" V] x tv d by simp
  moreover have "unlinked ?t V x" using x tv d by (simp add: unlinked_def)
  moreover have "moved t ?t" by (simp add: moved_def)
  ultimately show thesis by (rule that)
qed

text \<open>The node that takes the place of \<open>x\<close> is the least of its right subtree, with the rest of that subtree.\<close>

lemma take_minimum:
  assumes h: "holds t (Node L x R)" and R: "R = plug cs (Node Leaf y B)" and b: "before cs = []"
  obtains h3 S q p where "(if above (cs @ [InRight L x]) \<noteq> Some (addr x) then do {
        t \<leftarrow> replace (Some (addr y)) (root_of B) t;
        zn \<leftarrow> node_at t (Some (addr x));
        t \<leftarrow> set_right (Some (addr y)) (n_right zn) t;
        yn \<leftarrow> node_at t (Some (addr y));
        set_parent (n_right yn) (Some (addr y)) t
      } else Some t) = Some (t\<lparr>nodes := h3\<rparr>)"
    "tree_at h3 q (Node Leaf y S)" "h3 (addr x) = Some (cell (root_of L) p NULL x)"
    "tree_at h3 (Some (addr x)) L" "dom h3 = dom (nodes t)" "y # inorder S = inorder R"
proof (cases "cs = []")
  case True
  then show thesis using that [of "nodes t" "Some (addr x)" B "Some (addr y)"] h R by (auto simp: holds_def)
next
  case False
  let ?cs = "cs @ [InRight L x]" and ?h = "nodes t" and ?S = "plug cs B"
  have hp: "holds t (plug ?cs (Node Leaf y B))" using h R by (simp add: plug_append)
  have ctx: "ctx_at ?h (Some (addr y)) ?cs" "root t = root_in (Some (addr y)) ?cs" "tree_at ?h (Some (addr y)) B"
    "?h (addr y) = Some (cell NULL (root_of B) (above ?cs) y)" "distinct (ctx_addrs ?cs)" "dom ?h = insert (addr y) (set (addrs B) \<union> set (ctx_addrs ?cs))"
    and d: "addr y \<notin> set (ctx_addrs ?cs)" "addr y \<notin> set (addrs B)" "set (addrs B) \<inter> set (ctx_addrs ?cs) = {}" "distinct (addrs B)"
    using hp unfolding holds_plug by auto
  let ?h2 = "reparent (above ?cs) B (turned (root_of B) ?cs ?h)"
  have root: "root_in (root_of B) ?cs = root t" using ctx(2) root_in_NonNil [of ?cs "root_of B" "Some (addr y)"] by simp
  then have r: "replace (Some (addr y)) (root_of B) t = Some (t\<lparr>nodes := ?h2\<rparr>)"
    using replace_spec [OF ctx(4) _ ctx(1,2,3) d(1,2,3)] by simp
  have "ctx_at ?h2 (root_of B) ?cs" "tree_at ?h2 (above ?cs) B"
    using ctx d by simp_all
  then have "tree_at ?h2 NULL (plug ?cs B)" using tree_at_plug [of ?h2 ?cs B] by simp
  then have t2: "?h2 (addr x) = Some (cell (root_of L) (root_of ?S) NULL x)" "tree_at ?h2 (Some (addr x)) L" "tree_at ?h2 (Some (addr x)) ?S"
    by (simp_all add: plug_append)
  have y2: "?h2 (addr y) = Some (cell NULL (root_of B) (above ?cs) y)" using ctx(4) d by simp
  have dist: "distinct (addrs (plug ?cs (Node Leaf y B)))" using hp by (simp add: holds_def)
  then have n: "addr y \<notin> set (addrs ?S)" "distinct (addrs ?S)" "addr x \<noteq> addr y" "addr x \<notin> set (addrs ?S)" "addr y \<notin> set (addrs L)"
    "set (addrs ?S) \<inter> set (addrs L) = {}"
    using d(1,2) by (auto simp: plug_append distinct_plug)
  let ?h2y = "?h2(addr y \<mapsto> cell NULL (root_of ?S) (above ?cs) y)"
  let ?h3 = "reparent (Some (addr y)) ?S ?h2y"
  have ab: "above ?cs \<noteq> Some (addr x)"
  proof -
    obtain c ds where c: "cs = c # ds" using False by (cases cs) auto
    then have "step_addr c \<in> set (ctx_addrs cs)" by (cases c) auto
    moreover have "addr x \<notin> set (ctx_addrs cs)" using ctx(5) by auto
    ultimately show ?thesis using c by auto
  qed
  have sp: "?S \<noteq> Leaf" using False by (cases cs rule: rev_cases; cases "last cs") (auto simp: plug_append)
  have "set_parent (root_of ?S) (Some (addr y)) (t\<lparr>nodes := ?h2y\<rparr>) = Some (t\<lparr>nodes := ?h3\<rparr>)"
    using adopt_spec [of "t\<lparr>nodes := ?h2y\<rparr>" "Some (addr x)" ?S "Some (addr y)"] t2(3) n(1) sp by (simp add: adopt_def root_of_NULL)
  then have "(if above ?cs \<noteq> Some (addr x) then do {
        t \<leftarrow> replace (Some (addr y)) (root_of B) t;
        zn \<leftarrow> node_at t (Some (addr x));
        t \<leftarrow> set_right (Some (addr y)) (n_right zn) t;
        yn \<leftarrow> node_at t (Some (addr y));
        set_parent (n_right yn) (Some (addr y)) t
      } else Some t) = Some (t\<lparr>nodes := ?h3\<rparr>)"
    using ab r t2(1) y2 n(3) by simp
  moreover have "tree_at ?h3 (above ?cs) (Node Leaf y ?S)" using t2(3) n by simp
  moreover have "?h3 (addr x) = Some (cell (root_of L) (root_of ?S) NULL x)" "tree_at ?h3 (Some (addr x)) L" using t2 n by simp_all
  moreover have "dom ?h3 = dom ?h"
  proof -
    have "tree_at (turned (root_of B) ?cs ?h) (Some (addr y)) B" using ctx(3) d(3) by simp
    then have "dom ?h2 = dom ?h" using turned_dom [OF ctx(1)] by (simp only: reparent_dom)
    moreover have "tree_at ?h2y (Some (addr x)) ?S" using t2(3) n(1) by simp
    then have "dom ?h3 = dom ?h2y" by (rule reparent_dom)
    moreover have "addr y \<in> dom ?h" using ctx(4) by (rule domI)
    ultimately show ?thesis by (simp only: dom_fun_upd option.simps if_False insert_absorb)
  qed
  moreover have "y # inorder ?S = inorder R" using R b by (simp add: inorder_plug)
  ultimately show thesis by (rule that)
qed

lemma remove_inner_spec:
  assumes h: "holds t (Node L x R)" and LR: "L \<noteq> Leaf" "R \<noteq> Leaf"
  obtains t' T where "remove_inner (Some (addr x)) t = Some t'" "unlinked t' T x" "moved t t'" "inorder T = inorder L @ inorder R"
proof -
  have hx: "nodes t (addr x) = Some (cell (root_of L) (root_of R) NULL x)" and rt: "tree_at (nodes t) (Some (addr x)) R" "root t = Some (addr x)"
    and dom: "dom (nodes t) = insert (addr x) (set (addrs L) \<union> set (addrs R))"
    and dist: "distinct (addrs L @ addr x # addrs R)"
    using h by (auto simp: holds_def)
  obtain cs y B where R: "R = plug cs (Node Leaf y B)" "before cs = []" "subtree_minimum (root_of R) t = Some (Some (addr y))"
    by (rule minimum_split [OF rt(1) LR(2)])
  have hy: "nodes t (addr y) = Some (cell NULL (root_of B) (above (cs @ [InRight L x])) y)"
    using focus_node [of t "cs @ [InRight L x]" Leaf y B] h R(1) by (simp add: plug_append)
  obtain h3 S q p where m: "(if above (cs @ [InRight L x]) \<noteq> Some (addr x) then do {
        t \<leftarrow> replace (Some (addr y)) (root_of B) t;
        zn \<leftarrow> node_at t (Some (addr x));
        t \<leftarrow> set_right (Some (addr y)) (n_right zn) t;
        yn \<leftarrow> node_at t (Some (addr y));
        set_parent (n_right yn) (Some (addr y)) t
      } else Some t) = Some (t\<lparr>nodes := h3\<rparr>)"
    and s: "tree_at h3 q (Node Leaf y S)" "h3 (addr x) = Some (cell (root_of L) p NULL x)" "tree_at h3 (Some (addr x)) L"
      "dom h3 = dom (nodes t)" "y # inorder S = inorder R"
    by (rule take_minimum [OF h R(1,2)])
  have as: "addrs R = addr y # addrs S" using arg_cong [OF s(5), of "map addr"] by (simp add: addrs_def)
  have n: "addr x \<noteq> addr y" "addr y \<notin> set (addrs S)" "addr y \<notin> set (addrs L)" "addr x \<notin> set (addrs S)" "addr x \<notin> set (addrs L)"
    "set (addrs L) \<inter> set (addrs S) = {}" "distinct (addrs L)" "distinct (addrs S)"
    using dist as by auto
  let ?t3 = "t\<lparr>nodes := h3\<rparr>"
  let ?h4 = "h3(addr y \<mapsto> cell NULL (root_of S) NULL y)"
  let ?t4 = "t\<lparr>root := Some (addr y), nodes := ?h4\<rparr>"
  have r: "replace (Some (addr x)) (Some (addr y)) ?t3 = Some ?t4"
    using replace_spec [of ?t3 "addr x" "cell (root_of L) p NULL x" "[]" q "Node Leaf y S"] s n rt(2) by (simp add: reparent_def)
  let ?h5 = "h3(addr y \<mapsto> cell (root_of L) (root_of S) NULL y)"
  let ?h6 = "reparent (Some (addr y)) L ?h5"
  let ?t6 = "t\<lparr>root := Some (addr y), nodes := ?h6\<rparr>"
  have l5: "tree_at ?h5 (Some (addr x)) L" using s(3) n(3) by simp
  then have sp: "set_parent (root_of L) (Some (addr y)) (t\<lparr>root := Some (addr y), nodes := ?h5\<rparr>) = Some ?t6"
    using adopt_spec [of "t\<lparr>root := Some (addr y), nodes := ?h5\<rparr>" "Some (addr x)" L "Some (addr y)"] LR(1) by (simp add: adopt_def root_of_NULL)
  have "remove_inner (Some (addr x)) t = Some ?t6"
    unfolding remove_inner_def using hx R(3) hy m r s(2) n(1,3) sp by (simp only: node_at_Some bind.bind_lunit cell_sel) simp
  moreover have "unlinked ?t6 (Node L y S) x"
  proof -
    have "dom ?h6 = dom ?h5" using l5 by (rule reparent_dom)
    then have "dom ?h6 = insert (addr x) (insert (addr y) (set (addrs L) \<union> set (addrs S)))"
      using s(4) dom as by (auto simp: dom_fun_upd)
    moreover have "tree_at ?h6 NULL (Node L y S)" using l5 s(1) n by simp
    ultimately show ?thesis using n s(2) by (simp add: unlinked_def insert_commute)
  qed
  moreover have "moved t ?t6" by (simp add: moved_def)
  moreover have "inorder (Node L y S) = inorder L @ inorder R" using s(5) by simp
  ultimately show thesis by (rule that)
qed

text \<open>The part of \<open>tree_remove\<close> between the splaying and \<open>free\<close>.\<close>

lemma unlink_root:
  assumes "holds t (Node L x R)"
  obtains t' T where
    "(if root_of L = NULL then replace (Some (addr x)) (root_of R) t
      else if root_of R = NULL then replace (Some (addr x)) (root_of L) t else remove_inner (Some (addr x)) t) = Some t'"
    "unlinked t' T x" "moved t t'" "inorder T = inorder L @ inorder R"
proof -
  consider "L = Leaf" | "L \<noteq> Leaf" "R = Leaf" | "L \<noteq> Leaf" "R \<noteq> Leaf" by blast
  then show thesis
  proof cases
    case 1
    then show ?thesis using replace_with_child [OF assms, of R] that [of _ R] by auto
  next
    case 2
    then show ?thesis using replace_with_child [OF assms, of L] that [of _ L] by (auto simp: root_of_NULL)
  next
    case 3
    then have ne: "root_of L \<noteq> NULL" "root_of R \<noteq> NULL" by (simp_all add: root_of_NULL)
    show ?thesis
      by (rule remove_inner_spec [OF assms 3], rule that) (simp_all only: ne if_False)
  qed
qed

lemma ordered_distinct: "ordered xs \<Longrightarrow> distinct (map label_key xs)"
  by (induction xs) auto

lemma delete_middle:
  assumes "ordered (xs @ x # ys)" "label_key x = k"
  shows "delete k (map snd (xs @ x # ys)) = map snd (xs @ ys)"
proof -
  have "\<forall>y \<in> set (xs @ ys). fst (snd y) \<noteq> k" using assms by auto
  then have "filter (\<lambda>e. fst e \<noteq> k) (map snd (xs @ ys)) = map snd (xs @ ys)" by (simp add: filter_id_conv)
  then show ?thesis using assms(2) by (simp add: delete_def)
qed

lemma tree_remove_spec:
  assumes t: "represents t es"
  obtains t' where "tree_remove k t = Some (lookup k es, t')" "represents t' (delete k es)"
proof -
  obtain T cs T' where T: "holds t T" "ordered (inorder T)" "descend k [] T = (cs, T')" "plug cs T' = T" "around k cs"
    "es = map snd (before cs) @ entries_of T' @ map snd (after cs)" by (rule descentE [OF t])
  obtain c where c: "remove_loop k (root t) t = Some (root_of T', counted c t)"
    using remove_loop_spec [OF _ T(3), of t NULL] T(1) by (auto simp: holds_def)
  obtain U where count: "node_count t = of_nat (length es)" using t by (rule representsE)
  show thesis
  proof (cases T')
    case Leaf
    then have n: "k \<notin> fst ` set es" "lookup k es = NULL" using put_around(2,3) [OF T(5), of es] T(6) by (auto simp: entries_of_def)
    then have "delete k es = es" by (force simp: delete_def filter_id_conv)
    then show ?thesis using that [of "counted c t"] c Leaf n represents_counted [OF t] by (simp add: tree_remove_def)
  next
    case (Node l x r)
    have key: "label_key x = k" using descend_found [of k "[]" T cs l x r] T(3) Node by simp
    have h0: "holds (counted c t) (plug cs (Node l x r))" using T(1,4) Node by (simp add: holds_def)
    obtain t1 where t1: "splay (Some (addr x)) (counted c t) = Some t1" "holds t1 (splayed cs l x r)" "moved (counted c t) t1"
      by (rule splay_spec [OF h0])
    obtain L R where LR: "splayed cs l x r = Node L x R" by (rule splayed_root)
    have io: "inorder T = inorder L @ x # inorder R" using splayed_inorder [of cs l x r] inorder_plug [of cs T'] T(4) LR Node by simp
    have h1: "holds t1 (Node L x R)" using t1(2) LR by simp
    obtain t2 T2 where t2: "(if root_of L = NULL then replace (Some (addr x)) (root_of R) t1
        else if root_of R = NULL then replace (Some (addr x)) (root_of L) t1 else remove_inner (Some (addr x)) t1) = Some t2"
      "unlinked t2 T2 x" "moved t1 t2" "inorder T2 = inorder L @ inorder R"
      by (rule unlink_root [OF h1])
    let ?t3 = "t2\<lparr>node_count := node_count t2 - 1, nodes := (nodes t2)(addr x := None)\<rparr>"
    obtain n where n: "nodes t2 (addr x) = Some n" "n_record n = snd (snd x)" "holds ?t3 T2"
      using unlinked_free [OF t2(2), of "node_count t2 - 1"] by blast
    have x1: "nodes t1 (addr x) = Some (cell (root_of L) (root_of R) NULL x)" using focus_node [of t1 "[]" L x R] h1 by simp
    have es: "es = map snd (inorder L @ x # inorder R)" using T(4,6) inorder_plug [of cs T'] io by (simp add: entries_of_def)
    have "lookup k es = snd (snd x)"
    proof -
      have "snd x \<in> set es" using es by simp
      moreover have "distinct (map fst es)" using ordered_distinct [of "inorder T"] T(2) es io by (simp add: comp_def)
      ultimately have "map_of es (fst (snd x)) = Some (snd (snd x))" by (intro map_of_is_SomeI) simp_all
      then show ?thesis using key by (simp add: lookup_def)
    qed
    moreover have "tree_remove k t = Some (snd (snd x), ?t3)"
      by (simp add: tree_remove_def c Node t1(1) x1 t2(1) n(1,2) cong: if_cong split del: if_split del: not_None_eq)
    moreover have "represents ?t3 (delete k es)"
    proof (rule representsI [OF n(3)])
      show "ordered (inorder T2)" using T(2) io t2(4) by simp
      show "entries_of T2 = delete k es" using delete_middle [of "inorder L" x "inorder R" k] T(2) io es key t2(4) by (simp add: entries_of_def)
      show "node_count ?t3 = of_nat (length (delete k es))"
        using delete_middle [of "inorder L" x "inorder R" k] T(2) io es key count t1(3) t2(3) by (simp add: moved_def)
    qed
    ultimately show ?thesis using that by simp
  qed
qed

subsection \<open>Release and display\<close>

fun postorder :: "label tree \<Rightarrow> label list" where
  "postorder Leaf = []"
| "postorder (Node l x r) = postorder l @ postorder r @ [x]"

lemma free_subtree_spec:
  assumes "tree_at (nodes t) p T" "distinct (addrs T)"
  shows "free_subtree (root_of T) t = Some (map (\<lambda>x. snd (snd x)) (postorder T), t\<lparr>nodes := (nodes t) |` (- set (addrs T))\<rparr>)"
  using assms
proof (induction T arbitrary: p t)
  case Leaf
  have "(nodes t) |` UNIV = nodes t" by (simp add: restrict_map_def)
  then show ?case by (subst free_subtree.simps) simp
next
  case (Node l x r)
  note x = node_root [OF Node.prems(1)]
  let ?t1 = "t\<lparr>nodes := (nodes t) |` (- set (addrs l))\<rparr>"
  let ?t2 = "?t1\<lparr>nodes := (nodes ?t1) |` (- set (addrs r))\<rparr>"
  have d: "addr x \<notin> set (addrs l)" "addr x \<notin> set (addrs r)" "distinct (addrs l)" "distinct (addrs r)" "set (addrs r) \<inter> set (addrs l) = {}"
    using Node.prems(2) by auto
  have l: "free_subtree (root_of l) t = Some (map (\<lambda>x. snd (snd x)) (postorder l), ?t1)"
    using Node.IH(1) [of t "Some (addr x)"] Node.prems(1) d by simp
  have "nodes ?t1 a = nodes t a" if "a \<in> set (addrs r)" for a using d(5) that by (auto simp: restrict_map_def)
  then have "tree_at (nodes ?t1) (Some (addr x)) r" using Node.prems(1) tree_at_frame [of r "nodes ?t1" "nodes t"] by simp
  then have r: "free_subtree (root_of r) ?t1 = Some (map (\<lambda>x. snd (snd x)) (postorder r), ?t2)"
    using Node.IH(2) [of ?t1 "Some (addr x)"] d by simp
  have x12: "nodes ?t1 (addr x) = nodes t (addr x)" "nodes ?t2 (addr x) = nodes t (addr x)" using d by simp_all
  have "(nodes ?t2)(addr x := None) = (nodes t) |` (- set (addrs (Node l x r)))" by (auto simp: restrict_map_def)
  then show ?case using x l r x12 by (subst free_subtree.simps) simp
qed

lemma tree_free_spec:
  assumes "represents t es"
  obtains rs where "tree_free t = Some (rs, t\<lparr>nodes := Map.empty\<rparr>)" "mset rs = mset (map snd es)"
proof -
  obtain T where T: "holds t T" "ordered (inorder T)" "entries_of T = es" by (rule representsE [OF assms])
  have "nodes t a = None" if "a \<notin> set (addrs T)" for a using T(1) that unfolding holds_def by blast
  then have "(nodes t) |` (- set (addrs T)) = Map.empty" by (auto simp: restrict_map_def)
  then have "free_subtree (root t) t = Some (map (\<lambda>x. snd (snd x)) (postorder T), t\<lparr>nodes := Map.empty\<rparr>)"
    using free_subtree_spec [of t NULL T] T(1) by (simp add: holds_def)
  moreover have "mset (map (\<lambda>x. snd (snd x)) (postorder T)) = mset (map snd es)"
    unfolding T(3) [symmetric] entries_of_def by (induction T) simp_all
  moreover have "t\<lparr>nodes := Map.empty\<rparr> = t" if "root t = NULL"
    using T(1) that by (cases t) (auto simp: holds_def root_of_NULL)
  ultimately show thesis using that T(1) by (cases "root t = NULL") (auto simp: tree_free_def free_subtree.simps [of NULL])
qed

fun shown_keys :: "token list \<Rightarrow> int list" where
  "shown_keys [] = []"
| "shown_keys (Key k # ts) = k # shown_keys ts"
| "shown_keys (_ # ts) = shown_keys ts"

lemma shown_keys_append [simp]: "shown_keys (xs @ ys) = shown_keys xs @ shown_keys ys"
  by (induction xs rule: shown_keys.induct) simp_all

lemma show_subtree_spec:
  "tree_at (nodes t) p T \<Longrightarrow> \<exists>s. show_subtree (root_of T) mode t = Some s \<and> shown_keys s = map label_key (inorder T)"
proof (induction T arbitrary: p)
  case Leaf
  then show ?case by (subst show_subtree.simps) simp
next
  case (Node l x r)
  note x = node_root [OF Node.prems(1)]
  obtain sl sr where "show_subtree (root_of l) mode t = Some sl" "shown_keys sl = map label_key (inorder l)"
    "show_subtree (root_of r) mode t = Some sr" "shown_keys sr = map label_key (inorder r)"
    using Node.IH [of "Some (addr x)"] Node.prems by auto
  then show ?case using x by (subst show_subtree.simps) simp
qed

lemma tree_show_spec:
  assumes "represents t es"
  obtains s where "tree_show (Some t) mode = Some (Some (s, of_nat (length es), comparison_count t))" "shown_keys s = map fst es"
proof -
  obtain T where T: "holds t T" "entries_of T = es" "node_count t = of_nat (length es)" using assms by (rule representsE)
  then show thesis
    using show_subtree_spec [of t NULL T mode] that by (auto simp: tree_show_def holds_def entries_of_def)
qed

end
