(* ===== verification/Stree_Props.thy ===== *)
theory Stree_Props
  imports Stree_Update
begin

text \<open>
  The splay tree as a sorted list of entries, for any sequence of operations.
\<close>

subsection \<open>Sequences of operations\<close>

fun ops_run :: "('o \<Rightarrow> 's \<Rightarrow> ('r \<times> 's) option) \<Rightarrow> 'o list \<Rightarrow> 's \<Rightarrow> ('r list \<times> 's) option" where
  "ops_run step [] s = Some ([], s)"
| "ops_run step (a # as) s = do {
     (x, s) \<leftarrow> step a s;
     (xs, s) \<leftarrow> ops_run step as s;
     Some (x # xs, s)
   }"

fun spec_run :: "('o \<Rightarrow> 'e \<Rightarrow> 'r \<times> 'e) \<Rightarrow> 'o list \<Rightarrow> 'e \<Rightarrow> 'r list \<times> 'e" where
  "spec_run spec [] e = ([], e)"
| "spec_run spec (a # as) e = (let (x, e) = spec a e; (xs, e) = spec_run spec as e in (x # xs, e))"

text \<open>Operations that simulate a specification, one by one, do so in any sequence.\<close>

locale simulation =
  fixes rep :: "'s \<Rightarrow> 'e \<Rightarrow> bool"
    and step :: "'o \<Rightarrow> 's \<Rightarrow> ('r \<times> 's) option"
    and spec :: "'o \<Rightarrow> 'e \<Rightarrow> 'r \<times> 'e"
  assumes step_simulates: "rep s e \<Longrightarrow> \<exists>s'. step a s = Some (fst (spec a e), s') \<and> rep s' (snd (spec a e))"
begin

lemma run_simulates:
  "rep s e \<Longrightarrow> \<exists>s'. ops_run step as s = Some (fst (spec_run spec as e), s') \<and> rep s' (snd (spec_run spec as e))"
proof (induction as arbitrary: s e)
  case (Cons a as)
  obtain x e1 where x: "spec a e = (x, e1)" by (cases "spec a e")
  obtain s1 where s1: "step a s = Some (x, s1)" "rep s1 e1" using step_simulates [OF Cons.prems, of a] x by auto
  then show ?case using Cons.IH [OF s1(2)] x by (auto split: prod.splits)
qed simp

end

subsection \<open>The operations of the tree\<close>

datatype tree_op = Insert int ptr | Find int | Nearest int | Remove int

datatype tree_result = Is bool | Record ptr

text \<open>One operation of the code; \<open>alloc\<close> is the address that \<open>malloc\<close> returns when the nodes are those of the heap.\<close>

definition allocates :: "((nat \<rightharpoonup> node_t) \<Rightarrow> nat) \<Rightarrow> bool" where
  "allocates alloc \<longleftrightarrow> (\<forall>h. finite (dom h) \<longrightarrow> h (alloc h) = None)"

fun tree_step :: "((nat \<rightharpoonup> node_t) \<Rightarrow> nat) \<Rightarrow> tree_op \<Rightarrow> tree_t \<Rightarrow> (tree_result \<times> tree_t) option" where
  "tree_step alloc (Insert k r) t = do {
     (b, t) \<leftarrow> tree_insert k r (Some (alloc (nodes t))) t;
     Some (Is (b = Some True), t)
   }"
| "tree_step alloc (Find k) t = map_option (apfst Record) (tree_find k t)"
| "tree_step alloc (Nearest k) t = map_option (apfst Record) (tree_find_nearest k t)"
| "tree_step alloc (Remove k) t = map_option (apfst Record) (tree_remove k t)"

fun entries_step :: "tree_op \<Rightarrow> entries \<Rightarrow> tree_result \<times> entries" where
  "entries_step (Insert k r) es = (if k \<in> fst ` set es then (Is False, es) else (Is True, put k r es))"
| "entries_step (Find k) es = (Record (lookup k es), es)"
| "entries_step (Nearest k) es = (Record (nearest k es), es)"
| "entries_step (Remove k) es = (Record (lookup k es), delete k es)"

lemma represents_finite: "represents t es \<Longrightarrow> finite (dom (nodes t))"
  unfolding represents_def holds_def by auto

lemma tree_step_entries:
  assumes "represents t es" "allocates alloc"
  obtains t' where "tree_step alloc a t = Some (fst (entries_step a es), t')" "represents t' (snd (entries_step a es))"
proof (cases a)
  case (Insert k r)
  show ?thesis
  proof (cases "k \<in> fst ` set es")
    case True
    show ?thesis
      by (rule tree_insert_present [OF assms(1) True, of r "Some (alloc (nodes t))"]) (use that Insert True in auto)
  next
    case False
    have fresh: "nodes t (alloc (nodes t)) = None" using assms(2) represents_finite [OF assms(1)] by (simp add: allocates_def)
    show ?thesis
      by (rule tree_insert_new [OF assms(1) False fresh, of r]) (use that Insert False in auto)
  qed
next
  case (Find k)
  then show ?thesis using that tree_find_spec [OF assms(1), of k] by auto
next
  case (Nearest k)
  then show ?thesis using that tree_find_nearest_spec [OF assms(1), of k] by auto
next
  case (Remove k)
  then show ?thesis using that tree_remove_spec [OF assms(1), of k] by auto
qed

lemma tree_simulation: "allocates alloc \<Longrightarrow> simulation represents (tree_step alloc) entries_step"
  by unfold_locales (rule tree_step_entries, auto)

lemma new_represents: "tree_new True = Some t \<Longrightarrow> represents t []"
  unfolding represents_def holds_def by (auto simp: tree_new_def entries_of_def intro!: exI [of _ Leaf])

text \<open>
  C25. Every sequence of insertions, lookups, searches for the nearest key and removals on a new tree ends,
  is defined, answers as the sorted list of entries does and leaves a tree of that list; \<open>tree_free\<close> then
  calls \<open>free_fun\<close> once for each record and frees every node.
\<close>

theorem tree_operations:
  assumes "tree_new True = Some t" "allocates alloc"
  shows "\<exists>t' rs. ops_run (tree_step alloc) as t = Some (fst (spec_run entries_step as []), t') \<and> represents t' (snd (spec_run entries_step as [])) \<and>
    tree_free t' = Some (rs, t'\<lparr>nodes := Map.empty\<rparr>) \<and> mset rs = mset (map snd (snd (spec_run entries_step as [])))"
proof -
  obtain t' where t': "ops_run (tree_step alloc) as t = Some (fst (spec_run entries_step as []), t')" "represents t' (snd (spec_run entries_step as []))"
    using simulation.run_simulates [OF tree_simulation [OF assms(2)] new_represents [OF assms(1)]] by blast
  obtain rs where "tree_free t' = Some (rs, t'\<lparr>nodes := Map.empty\<rparr>)" "mset rs = mset (map snd (snd (spec_run entries_step as [])))"
    by (rule tree_free_spec [OF t'(2)])
  then show ?thesis using t' by blast
qed

definition least_free :: "(nat \<rightharpoonup> node_t) \<Rightarrow> nat" where
  "least_free h = (LEAST a. h a = None)"

lemma least_free: "allocates least_free"
proof -
  have "h (least_free h) = None" if "finite (dom h)" for h
  proof -
    have "\<exists>a. a \<notin> dom h" by (rule ex_new_if_finite [OF infinite_UNIV_nat that])
    then obtain a where "a \<notin> dom h" by blast
    then show ?thesis unfolding least_free_def by (intro LeastI [of "\<lambda>a. h a = None" a]) (simp add: domIff)
  qed
  then show ?thesis by (simp add: allocates_def)
qed

interpretation splay_tree: simulation represents "tree_step least_free" entries_step
  by (rule tree_simulation [OF least_free])

definition demo_tree :: tree_t where
  "demo_tree = \<lparr>root = NULL, node_count = 0, comparison_count = 0, nodes = Map.empty\<rparr>"

definition demo_ops :: "tree_op list" where
  "demo_ops = [Insert 5 (Some 50), Insert 9 (Some 90), Insert 2 (Some 20), Insert 9 NULL, Nearest 7, Remove 5, Nearest 7, Find 9]"

theorem tree_operations_witness:
  "\<exists>t' rs. ops_run (tree_step least_free) demo_ops demo_tree =
      Some ([Is True, Is True, Is True, Is False, Record (Some 50), Record (Some 50), Record (Some 20), Record (Some 90)], t') \<and>
    represents t' [(2, Some 20), (9, Some 90)] \<and> tree_free t' = Some (rs, t'\<lparr>nodes := Map.empty\<rparr>) \<and> mset rs = {#Some 20, Some 90#}"
proof -
  have new: "tree_new True = Some demo_tree" by (simp add: tree_new_def demo_tree_def)
  have run: "spec_run entries_step demo_ops [] =
      ([Is True, Is True, Is True, Is False, Record (Some 50), Record (Some 50), Record (Some 20), Record (Some 90)], [(2, Some 20), (9, Some 90)])"
    by (simp add: demo_ops_def put_def lookup_def nearest_def delete_def)
  show ?thesis
    using tree_operations [OF new least_free, of demo_ops] unfolding run fst_conv snd_conv by simp
qed

end
