(* ===== verification/Range_Set.thy ===== *)
theory Range_Set
  imports Memlib Dll Stree_Props
begin

text \<open>
  The range sets with which the malloc lab's driver (\<open>mdriver.c\<close>) checks the blocks an allocator returns: a
  doubly linked list of the payloads and a splay tree of them by low address.

  The nodes of the list are cells of \<open>Dll\<close>, with the fields \<open>lo\<close>, \<open>hi\<close> and \<open>index\<close> as their datum. Addresses are
  those of \<open>Memlib\<close>; the high address is computed with the wrap-around of 64 bits, and the key of
  the tree is the low address read as a \<open>long\<close>. The arguments \<open>new\<close> and \<open>node\<close> of \<open>add_range\<close> are what its two
  calls of \<open>malloc\<close> return. An assertion that fails is undefined.
\<close>

subsection \<open>Data\<close>

record range_t =
  lo :: int
  hi :: int
  index :: int

record range_set_t =
  range_list :: ptr
  lo_tree :: tree_t
  range_cells :: "range_t heap"

datatype debug_mode_t = DBG_NONE | DBG_CHEAP | DBG_EXPENSIVE

definition ALIGNMENT :: int where "ALIGNMENT = 16"

definition IS_ALIGNED :: "int \<Rightarrow> bool" where
  "IS_ALIGNED p \<longleftrightarrow> p mod ALIGNMENT = 0"

definition long_of :: "int \<Rightarrow> int" where
  "long_of p = signed_take_bit 63 p"

text \<open>What \<open>malloc_error\<close> reports before \<open>add_range\<close> returns false; \<open>Exit_program\<close> when memory runs out.\<close>

datatype range_error = Not_aligned | Outside_heap | Overlaps_previous | Overlaps_next | Exit_program

subsection \<open>Operations\<close>

definition new_range_set :: "bool \<Rightarrow> range_set_t option" where
  "new_range_set malloc_ok = map_option (\<lambda>t. \<lparr>range_list = NULL, lo_tree = t, range_cells = Map.empty\<rparr>) (tree_new malloc_ok)"

text \<open>The condition \<open>p && test(p)\<close> on a pointer to a range.\<close>

definition and_range :: "range_t heap \<Rightarrow> ptr \<Rightarrow> (range_t \<Rightarrow> bool) \<Rightarrow> bool option" where
  "and_range h p test = (if p = NULL then Some False else map_option (\<lambda>n. test (node_data n)) (Dll.load h p))"

text \<open>The new cell and the links to it; the cell has its final contents from the start.\<close>

definition link_range :: "ptr \<Rightarrow> ptr \<Rightarrow> nat \<Rightarrow> range_t \<Rightarrow> range_set_t \<Rightarrow> range_set_t option" where
  "link_range prev next p r ranges = do {
     let h = (range_cells ranges)(p \<mapsto> \<lparr>node_next = next, node_prev = prev, node_data = r\<rparr>);
     (h, first) \<leftarrow> (if prev \<noteq> NULL then map_option (\<lambda>h. (h, range_list ranges)) (set_next h prev (Some p)) else Some (h, Some p));
     h \<leftarrow> (if next \<noteq> NULL then set_prev h next (Some p) else Some h);
     Some (ranges\<lparr>range_list := first, range_cells := h\<rparr>)
   }"

definition add_range :: "debug_mode_t \<Rightarrow> 'a memsys_scheme \<Rightarrow> ptr \<Rightarrow> ptr \<Rightarrow> int \<Rightarrow> u64 \<Rightarrow> int \<Rightarrow> range_set_t \<Rightarrow>
    (range_error option \<times> range_set_t) option" where
  "add_range debug_mode m new node low sz idx ranges =
     (let high = (low + uint sz - 1) mod 2 ^ 64
      in if sz = 0 then None
         else if \<not> IS_ALIGNED low then Some (Some Not_aligned, ranges)
         else if low < mem_heap_lo m \<or> low > mem_heap_hi m \<or> high < mem_heap_lo m \<or> high > mem_heap_hi m
         then Some (Some Outside_heap, ranges)
         else if debug_mode = DBG_NONE then Some (None, ranges)
         else do {
           (prev, tree) \<leftarrow> tree_find_nearest (long_of low) (lo_tree ranges);
           let ranges = ranges\<lparr>lo_tree := tree\<rparr>;
           next \<leftarrow> (if prev \<noteq> NULL then map_option node_next (Dll.load (range_cells ranges) prev) else Some NULL);
           hits_prev \<leftarrow> and_range (range_cells ranges) prev (\<lambda>r. low \<le> hi r);
           (if hits_prev then Some (Some Overlaps_previous, ranges)
            else do {
              hits_next \<leftarrow> and_range (range_cells ranges) next (\<lambda>r. high \<ge> lo r);
              (if hits_next then Some (Some Overlaps_next, ranges)
               else case new of
                 None \<Rightarrow> Some (Some Exit_program, ranges)
               | Some p \<Rightarrow> do {
                   ranges \<leftarrow> link_range prev next p \<lparr>lo = low, hi = high, index = idx\<rparr> ranges;
                   (inserted, tree) \<leftarrow> tree_insert (long_of low) new node (lo_tree ranges);
                   Some (if inserted = None then Some Exit_program else None, ranges\<lparr>lo_tree := tree\<rparr>)
                 })
            })
         })"

definition remove_range :: "int \<Rightarrow> range_set_t \<Rightarrow> range_set_t option" where
  "remove_range low ranges = do {
     (p, tree) \<leftarrow> tree_remove (long_of low) (lo_tree ranges);
     let ranges = ranges\<lparr>lo_tree := tree\<rparr>;
     (if p = NULL then Some ranges
      else do {
        n \<leftarrow> Dll.load (range_cells ranges) p;
        let prev = node_prev n;
        let next = node_next n;
        (h, first) \<leftarrow>
          (if prev \<noteq> NULL then map_option (\<lambda>h. (h, range_list ranges)) (set_next (range_cells ranges) prev next)
           else Some (range_cells ranges, next));
        h \<leftarrow> (if next \<noteq> NULL then set_prev h next prev else Some h);
        h \<leftarrow> Dll.free_node h p;
        Some (ranges\<lparr>range_list := first, range_cells := h\<rparr>)
      })
   }"

text \<open>\<open>free\<close> as the function that \<open>tree_free\<close> calls with each record.\<close>

fun free_records :: "ptr list \<Rightarrow> range_t heap \<Rightarrow> range_t heap option" where
  "free_records [] h = Some h"
| "free_records (p # ps) h = do { h \<leftarrow> Dll.free_node h p; free_records ps h }"

definition reset_range_set :: "bool \<Rightarrow> range_set_t \<Rightarrow> range_set_t option" where
  "reset_range_set malloc_ok ranges = do {
     (rs, _) \<leftarrow> tree_free (lo_tree ranges);
     h \<leftarrow> free_records rs (range_cells ranges);
     tree \<leftarrow> tree_new malloc_ok;
     Some \<lparr>range_list = NULL, lo_tree = tree, range_cells = h\<rparr>
   }"

text \<open>The cells that are left when the set is gone.\<close>

definition free_range_set :: "range_set_t \<Rightarrow> range_t heap option" where
  "free_range_set ranges = do {
     (rs, _) \<leftarrow> tree_free (lo_tree ranges);
     free_records rs (range_cells ranges)
   }"

end
