(* ===== verification/Range_Props.thy ===== *)
theory Range_Props
  imports Range_Set
begin

text \<open>
  When the range set finds every overlap, and when it does not.
\<close>

subsection \<open>Sets of separated ranges\<close>

type_synonym range_node = "nat \<times> range_t"

definition range_entries :: "range_node list \<Rightarrow> entries" where
  "range_entries xs = map (\<lambda>(a, r). (long_of (lo r), Some a)) xs"

text \<open>The ranges lie above one another, below \<open>2 ^ 63\<close>.\<close>

definition separated :: "range_node list \<Rightarrow> bool" where
  "separated xs \<longleftrightarrow> sorted_wrt (\<lambda>x y. hi (snd x) < lo (snd y)) xs \<and>
     (\<forall>x \<in> set xs. 0 \<le> lo (snd x) \<and> lo (snd x) \<le> hi (snd x) \<and> hi (snd x) < 2 ^ 63)"

definition tracks :: "range_set_t \<Rightarrow> range_node list \<Rightarrow> bool" where
  "tracks ranges xs \<longleftrightarrow> represents (lo_tree ranges) (range_entries xs) \<and> linked (range_cells ranges) None xs None \<and>
     range_list ranges = first_of xs None \<and> distinct (map fst xs) \<and> dom (range_cells ranges) = fst ` set xs \<and> separated xs"

definition overlaps :: "int \<Rightarrow> int \<Rightarrow> range_t \<Rightarrow> bool" where
  "overlaps low high r \<longleftrightarrow> low \<le> hi r \<and> lo r \<le> high"

lemma long_of_small: "0 \<le> p \<Longrightarrow> p < 2 ^ 63 \<Longrightarrow> long_of p = p"
  by (simp add: long_of_def signed_take_bit_int_eq_self)

lemma separated_append: "separated (xs @ ys) \<longleftrightarrow> separated xs \<and> separated ys \<and> (\<forall>x \<in> set xs. \<forall>y \<in> set ys. hi (snd x) < lo (snd y))"
  by (auto simp: separated_def sorted_wrt_append)

lemma separated_bounds: "separated xs \<Longrightarrow> x \<in> set xs \<Longrightarrow> 0 \<le> lo (snd x) \<and> lo (snd x) < 2 ^ 63"
  unfolding separated_def by (meson order.strict_trans1)

text \<open>The ranges at or below an address and those above it.\<close>

lemma split_at:
  assumes "separated xs"
  obtains as bs where "xs = as @ bs" "\<forall>x \<in> set as. lo (snd x) \<le> low" "\<forall>x \<in> set bs. low < lo (snd x)"
  using assms
proof (induction xs arbitrary: thesis)
  case (Cons x xs)
  have sep: "separated xs" and above: "\<forall>y \<in> set xs. lo (snd x) < lo (snd y)"
    using Cons.prems(2) by (fastforce simp: separated_def)+
  obtain as bs where ab: "xs = as @ bs" "\<forall>x \<in> set as. lo (snd x) \<le> low" "\<forall>x \<in> set bs. low < lo (snd x)"
    by (rule Cons.IH [OF _ sep])
  show ?case
  proof (cases "lo (snd x) \<le> low")
    case True
    then show ?thesis using Cons.prems(1) [of "x # as" bs] ab by simp
  next
    case False
    then show ?thesis using Cons.prems(1) [of "[]" "x # xs"] above by fastforce
  qed
qed simp

lemma entries_split:
  assumes "separated (as @ bs)" "\<forall>x \<in> set as. lo (snd x) \<le> low" "\<forall>x \<in> set bs. low < lo (snd x)" "0 \<le> low" "low < 2 ^ 63"
  shows "nearest (long_of low) (range_entries (as @ bs)) = last_of None as"
    "low \<notin> lo ` snd ` set as \<Longrightarrow> put (long_of low) (Some a) (range_entries (as @ bs)) =
       range_entries (as @ (a, \<lparr>lo = low, hi = h, index = i\<rparr>) # bs)"
    "low \<notin> lo ` snd ` set as \<Longrightarrow> long_of low \<notin> fst ` set (range_entries (as @ bs))"
proof -
  have small: "long_of (lo (snd x)) = lo (snd x)" if "x \<in> set (as @ bs)" for x
    using separated_bounds [OF assms(1) that] by (intro long_of_small) simp_all
  have low: "long_of low = low" using assms(4,5) by (rule long_of_small)
  have es: "range_entries ys = map (\<lambda>x. (lo (snd x), Some (fst x))) ys" if "set ys \<subseteq> set (as @ bs)" for ys
  proof -
    have "long_of (lo (snd x)) = lo (snd x)" if "x \<in> set ys" for x using small \<open>set ys \<subseteq> set (as @ bs)\<close> that by blast
    then show ?thesis by (auto simp: range_entries_def)
  qed
  have ea: "range_entries as = map (\<lambda>x. (lo (snd x), Some (fst x))) as" and eb: "range_entries bs = map (\<lambda>x. (lo (snd x), Some (fst x))) bs"
    using es [of as] es [of bs] by simp_all
  have app: "range_entries (xs @ ys) = range_entries xs @ range_entries ys" for xs ys by (simp add: range_entries_def)
  have f: "filter (\<lambda>e. fst e \<le> low) (range_entries as) = range_entries as" "filter (\<lambda>e. fst e \<le> low) (range_entries bs) = []"
    "filter (\<lambda>e. low < fst e) (range_entries as) = []" "filter (\<lambda>e. low < fst e) (range_entries bs) = range_entries bs"
    "filter (\<lambda>e. fst e < low) (range_entries bs) = []"
    using assms(2,3) by (force simp: ea eb filter_empty_conv filter_id_conv)+
  have "nearest low (range_entries (as @ bs)) = (if as = [] then NULL else snd (last (range_entries as)))"
  proof -
    have "filter (\<lambda>e. fst e \<le> low) (range_entries (as @ bs)) = range_entries as" using f by (simp only: app filter_append append_Nil2)
    then show ?thesis by (simp add: nearest_def Let_def range_entries_def)
  qed
  then show "nearest (long_of low) (range_entries (as @ bs)) = last_of None as"
    by (simp add: low last_of_def ea last_map)
  assume new: "low \<notin> lo ` snd ` set as"
  have "filter (\<lambda>e. fst e < low) (range_entries as) = range_entries as"
    using assms(2) new by (force simp: ea filter_id_conv)
  then show "put (long_of low) (Some a) (range_entries (as @ bs)) = range_entries (as @ (a, \<lparr>lo = low, hi = h, index = i\<rparr>) # bs)"
    using f by (simp add: put_def app low) (simp add: range_entries_def low)
  show "long_of low \<notin> fst ` set (range_entries (as @ bs))"
    using assms(2,3) new by (force simp: app ea eb low)
qed

subsection \<open>Linking a range in and out\<close>

lemma link_prev:
  assumes lk: "linked h pv as (first_of bs nx)" and h: "h a = None" and d: "distinct (map fst as)" "a \<notin> fst ` set as"
  obtains h' where "(if last_of None as \<noteq> NULL then map_option (\<lambda>h. (h, l)) (set_next (h(a \<mapsto> c)) (last_of None as) (Some a)) else Some (h(a \<mapsto> c), Some a)) =
      Some (h', if as = [] then Some a else l)"
    "linked h' pv as (Some a)" "\<forall>b. b \<notin> fst ` set as \<longrightarrow> h' b = (h(a \<mapsto> c)) b" "dom h' = insert a (dom h)"
proof (cases as rule: rev_cases)
  case Nil
  then show thesis using that [of "h(a \<mapsto> c)"] by simp
next
  case (snoc as' n)
  obtain b y where n: "n = (b, y)" by (cases n)
  have hb: "h b = Some \<lparr>node_next = first_of bs nx, node_prev = last_of pv as', node_data = y\<rparr>"
    using lk snoc n by (simp add: linked_append)
  let ?h = "h(a \<mapsto> c, b \<mapsto> \<lparr>node_next = Some a, node_prev = last_of pv as', node_data = y\<rparr>)"
  have "linked (h(a \<mapsto> c)) pv (as' @ [(b, y)]) (first_of bs nx)" using lk d(2) snoc n by simp
  then have "linked ?h pv as (Some a)" using linked_retarget [of "h(a \<mapsto> c)" pv as' b y "first_of bs nx" "Some a"] d(1) snoc n by simp
  moreover have "dom ?h = insert a (dom h)" using hb by auto
  ultimately show thesis using that [of ?h] hb d(2) snoc n by (auto simp: set_next_def)
qed

lemma link_range_linked:
  assumes lk: "linked (range_cells s) None (as @ bs) None" and first: "range_list s = first_of (as @ bs) None"
    and d: "distinct (map fst (as @ bs))" "range_cells s a = None" "a \<notin> fst ` set (as @ bs)"
  obtains h' where "link_range (last_of None as) (first_of bs None) a r s =
      Some (s\<lparr>range_list := first_of (as @ (a, r) # bs) None, range_cells := h'\<rparr>)"
    "linked h' None (as @ (a, r) # bs) None" "dom h' = insert a (dom (range_cells s))"
proof -
  let ?h = "range_cells s" and ?c = "\<lparr>node_next = first_of bs None, node_prev = last_of None as, node_data = r\<rparr>"
  have l1: "linked ?h None as (first_of bs None)" and l2: "linked ?h (last_of None as) bs None" using lk by (simp_all add: linked_append)
  have an: "distinct (map fst as)" "a \<notin> fst ` set as" "a \<notin> fst ` set bs" "fst ` set as \<inter> fst ` set bs = {}" using d by auto
  obtain h1 where h1: "(if last_of None as \<noteq> NULL then map_option (\<lambda>h. (h, range_list s)) (set_next (?h(a \<mapsto> ?c)) (last_of None as) (Some a))
      else Some (?h(a \<mapsto> ?c), Some a)) = Some (h1, if as = [] then Some a else range_list s)"
    and as1: "linked h1 None as (Some a)" and fr1: "\<forall>b. b \<notin> fst ` set as \<longrightarrow> h1 b = (?h(a \<mapsto> ?c)) b" and dom1: "dom h1 = insert a (dom ?h)"
    by (rule link_prev [OF l1 d(2) an(1,2), of "range_list s" ?c])
  have h1a: "h1 a = Some ?c" using fr1 an(2) by simp
  have h1b: "h1 b = ?h b" if "b \<in> fst ` set bs" for b using fr1 an(3,4) that by (metis disjoint_iff fun_upd_other)
  have bs1: "linked h1 (last_of None as) bs None" using l2 linked_frame [of bs h1 ?h] h1b by simp
  obtain h2 where h2: "(if first_of bs None \<noteq> NULL then set_prev h1 (first_of bs None) (Some a) else Some h1) = Some h2"
    and bs2: "linked h2 (Some a) bs None" and fr2: "\<forall>b. b \<notin> fst ` set bs \<longrightarrow> h2 b = h1 b" and dom2: "dom h2 = dom h1"
  proof (cases bs)
    case Nil
    then show thesis using that [of h1] by simp
  next
    case (Cons n bs')
    obtain b y where n: "n = (b, y)" by (cases n)
    have hb: "h1 b = Some \<lparr>node_next = first_of bs' None, node_prev = last_of None as, node_data = y\<rparr>" using bs1 Cons n by simp
    let ?h2 = "h1(b \<mapsto> \<lparr>node_next = first_of bs' None, node_prev = Some a, node_data = y\<rparr>)"
    have "linked ?h2 (Some a) bs None" using linked_reprev [of h1 "last_of None as" b y bs' None "Some a"] bs1 d(1) Cons n by simp
    then show thesis using that [of ?h2] hb Cons n by (auto simp: set_prev_def)
  qed
  have as2: "linked h2 None as (Some a)" using as1 linked_frame [of as h2 h1] fr2 an(4) by (metis disjoint_iff)
  have h2a: "h2 a = Some ?c" using fr2 an(3) h1a by simp
  have "link_range (last_of None as) (first_of bs None) a r s = Some (s\<lparr>range_list := (if as = [] then Some a else range_list s), range_cells := h2\<rparr>)"
    unfolding link_range_def Let_def h1 by (simp only: bind.bind_lunit prod.case h2)
  moreover have "(if as = [] then Some a else range_list s) = first_of (as @ (a, r) # bs) None"
    using first by (cases as) simp_all
  ultimately show thesis
    using that [of h2] as2 bs2 h2a dom1 dom2 by (simp add: linked_append)
qed

subsection \<open>Adding a range\<close>

lemma and_range_first: "linked h pv bs nx \<Longrightarrow> and_range h (first_of bs None) f = Some (bs \<noteq> [] \<and> f (snd (hd bs)))"
  by (cases bs) (auto simp: and_range_def)

lemma last_cell:
  assumes "linked h None as nx" "as \<noteq> []"
  shows "\<exists>p. Dll.load h (last_of None as) = Some \<lparr>node_next = nx, node_prev = p, node_data = snd (last as)\<rparr>"
  using assms by (cases as rule: rev_cases) (auto simp: linked_append)

definition inside :: "'a memsys_scheme \<Rightarrow> int \<Rightarrow> int \<Rightarrow> bool" where
  "inside m low high \<longleftrightarrow> mem_heap_lo m \<le> low \<and> high \<le> mem_heap_hi m"

text \<open>The checks on the two neighbours are a check on all ranges.\<close>

lemma neighbours_decide:
  assumes sep: "separated (as @ bs)" and as: "\<forall>x \<in> set as. lo (snd x) \<le> low" and bs: "\<forall>x \<in> set bs. low < lo (snd x)" and high: "low \<le> high"
  shows "(\<exists>x \<in> set (as @ bs). overlaps low high (snd x)) \<longleftrightarrow> (as \<noteq> [] \<and> low \<le> hi (snd (last as))) \<or> (bs \<noteq> [] \<and> high \<ge> lo (snd (hd bs)))"
    (is "?l \<longleftrightarrow> ?r")
proof
  assume ?l
  then consider x where "x \<in> set as" "low \<le> hi (snd x)" | x where "x \<in> set bs" "lo (snd x) \<le> high" unfolding overlaps_def by auto
  then show ?r
  proof cases
    case 1
    then obtain as' y where y: "as = as' @ [y]" by (cases as rule: rev_cases) auto
    have "hi (snd x) \<le> hi (snd y)"
      using sep 1(1) y unfolding separated_def by (fastforce simp: sorted_wrt_append)
    then show ?thesis using 1(2) y by simp
  next
    case 2
    then obtain y bs' where y: "bs = y # bs'" by (cases bs) auto
    have "lo (snd y) \<le> lo (snd x)"
      using sep 2(1) y unfolding separated_def by (fastforce simp: sorted_wrt_append)
    then show ?thesis using 2(2) y by simp
  qed
next
  assume ?r
  then show ?l
  proof
    assume l: "as \<noteq> [] \<and> low \<le> hi (snd (last as))"
    then show ?l using as high by (intro bexI [of _ "last as"]) (auto simp: overlaps_def intro: order_trans)
  next
    assume b: "bs \<noteq> [] \<and> high \<ge> lo (snd (hd bs))"
    then have h: "hd bs \<in> set (as @ bs)" by simp
    have "low < lo (snd (hd bs))" using bs b by simp
    moreover have "lo (snd (hd bs)) \<le> hi (snd (hd bs))" using sep h unfolding separated_def by blast
    ultimately have "low \<le> hi (snd (hd bs))" by simp
    then show ?l using b h by (intro bexI [of _ "hd bs"]) (auto simp: overlaps_def)
  qed
qed

lemma add_range_neighbours:
  assumes t: "tracks s xs" and xs: "xs = as @ bs" and as: "\<forall>x \<in> set as. lo (snd x) \<le> low" and bs: "\<forall>x \<in> set bs. low < lo (snd x)"
    and low: "0 \<le> mem_heap_lo m" "mem_heap_hi m < 2 ^ 63" "0 < uint sz" "low + uint sz \<le> 2 ^ 63"
    and ok: "IS_ALIGNED low" "inside m low (low + uint sz - 1)" "dbg \<noteq> DBG_NONE"
  obtains tree where "represents tree (range_entries xs)" "nodes tree = nodes (lo_tree s)"
    "add_range dbg m new node low sz idx s = (let s1 = s\<lparr>lo_tree := tree\<rparr>; high = low + uint sz - 1; next = (if as = [] then NULL else first_of bs None) in
       if as \<noteq> [] \<and> low \<le> hi (snd (last as)) then Some (Some Overlaps_previous, s1)
       else if next \<noteq> NULL \<and> high \<ge> lo (snd (hd bs)) then Some (Some Overlaps_next, s1)
       else case new of None \<Rightarrow> Some (Some Exit_program, s1)
         | Some p \<Rightarrow> do {
             s2 \<leftarrow> link_range (last_of None as) next p \<lparr>lo = low, hi = high, index = idx\<rparr> s1;
             (inserted, tree) \<leftarrow> tree_insert (long_of low) new node (lo_tree s2);
             Some (if inserted = None then Some Exit_program else None, s2\<lparr>lo_tree := tree\<rparr>)
           })"
proof -
  let ?h = "range_cells s" and ?high = "low + uint sz - 1"
  have b: "0 \<le> low" "low < 2 ^ 63" "low \<le> mem_heap_hi m" "mem_heap_lo m \<le> ?high" "mem_heap_lo m \<le> low" "?high \<le> mem_heap_hi m"
    using low ok(2) unfolding inside_def by linarith+
  have "(2 :: int) ^ 63 < 2 ^ 64" by simp
  then have high: "(low + uint sz - 1) mod 2 ^ 64 = ?high" using b low by (intro mod_pos_pos_trivial) linarith+
  have sz: "sz \<noteq> 0" using low(3) by auto
  have rep: "represents (lo_tree s) (range_entries (as @ bs))" and lk: "linked ?h None (as @ bs) None" and sep: "separated (as @ bs)"
    using t xs by (simp_all add: tracks_def)
  obtain tree where tree: "tree_find_nearest (long_of low) (lo_tree s) = Some (last_of None as, tree)" "represents tree (range_entries (as @ bs))"
    "nodes tree = nodes (lo_tree s)"
    using tree_find_nearest_spec [OF rep, of "long_of low"] entries_split(1) [OF sep as bs b(1,2)] by metis
  have lka: "linked ?h None as (first_of bs None)" and lkb: "linked ?h (last_of None as) bs None" using lk by (simp_all add: linked_append)
  have nx: "(if last_of None as \<noteq> NULL then map_option node_next (Dll.load ?h (last_of None as)) else Some NULL) =
      Some (if as = [] then NULL else first_of bs None)"
    using last_cell [OF lka] by (auto simp: last_of_def)
  have hp: "and_range ?h (last_of None as) (\<lambda>r. low \<le> hi r) = Some (as \<noteq> [] \<and> low \<le> hi (snd (last as)))"
    using last_cell [OF lka] by (auto simp: last_of_def and_range_def)
  have hn: "and_range ?h (if as = [] then NULL else first_of bs None) (\<lambda>r. ?high \<ge> lo r) =
      Some ((if as = [] then NULL else first_of bs None) \<noteq> NULL \<and> ?high \<ge> lo (snd (hd bs)))"
    using and_range_first [OF lkb] by (cases bs) (auto simp: and_range_def)
  have c: "(sz = 0) = False" "(\<not> IS_ALIGNED low) = False" "(dbg = DBG_NONE) = False"
    "(low < mem_heap_lo m \<or> mem_heap_hi m < low \<or> ?high < mem_heap_lo m \<or> mem_heap_hi m < ?high) = False"
    using sz ok(1,3) b by auto
  have sel: "range_cells (s\<lparr>lo_tree := tree\<rparr>) = ?h" by simp
  have "add_range dbg m new node low sz idx s = (let s1 = s\<lparr>lo_tree := tree\<rparr>; high = low + uint sz - 1; next = (if as = [] then NULL else first_of bs None) in
       if as \<noteq> [] \<and> low \<le> hi (snd (last as)) then Some (Some Overlaps_previous, s1)
       else if next \<noteq> NULL \<and> high \<ge> lo (snd (hd bs)) then Some (Some Overlaps_next, s1)
       else case new of None \<Rightarrow> Some (Some Exit_program, s1)
         | Some p \<Rightarrow> do {
             s2 \<leftarrow> link_range (last_of None as) next p \<lparr>lo = low, hi = high, index = idx\<rparr> s1;
             (inserted, tree) \<leftarrow> tree_insert (long_of low) new node (lo_tree s2);
             Some (if inserted = None then Some Exit_program else None, s2\<lparr>lo_tree := tree\<rparr>)
           })"
    unfolding add_range_def Let_def high c tree(1) by (simp only: if_False bind.bind_lunit prod.case sel nx hp hn)
  then show thesis using that tree(2,3) xs by simp
qed

text \<open>A range that overlaps nothing is added when the set is empty or the new range is not the lowest.\<close>

lemma add_range_linked:
  assumes t: "tracks s (as @ bs)" and as: "\<forall>x \<in> set as. lo (snd x) \<le> low" and bs: "\<forall>x \<in> set bs. low < lo (snd x)" and lowest: "as = [] \<longrightarrow> bs = []"
    and low: "0 \<le> low" "low < 2 ^ 63" "low \<le> high" "high < 2 ^ 63" and free: "\<forall>x \<in> set (as @ bs). \<not> overlaps low high (snd x)"
    and tree: "represents tree (range_entries (as @ bs))" "nodes tree = nodes (lo_tree s)"
    and fresh: "range_cells s p = None" "nodes (lo_tree s) z = None"
  obtains s' where "do {
        s2 \<leftarrow> link_range (last_of None as) (if as = [] then NULL else first_of bs None) p \<lparr>lo = low, hi = high, index = idx\<rparr> (s\<lparr>lo_tree := tree\<rparr>);
        (inserted, tree) \<leftarrow> tree_insert (long_of low) (Some p) (Some z) (lo_tree s2);
        Some (if inserted = None then Some Exit_program else None, s2\<lparr>lo_tree := tree\<rparr>)
      } = Some (None, s')"
    "tracks s' (as @ (p, \<lparr>lo = low, hi = high, index = idx\<rparr>) # bs)"
proof -
  let ?r = "\<lparr>lo = low, hi = high, index = idx\<rparr>" and ?s1 = "s\<lparr>lo_tree := tree\<rparr>"
  have lk: "linked (range_cells ?s1) None (as @ bs) None" "range_list ?s1 = first_of (as @ bs) None" "distinct (map fst (as @ bs))"
    and dom: "dom (range_cells s) = fst ` set (as @ bs)" and sep: "separated (as @ bs)" using t by (simp_all add: tracks_def)
  have p: "p \<notin> fst ` set (as @ bs)" using fresh(1) dom by blast
  then have pp: "p \<notin> fst ` set as" "p \<notin> fst ` set bs" by (simp_all add: image_Un)
  have new: "low \<notin> lo ` snd ` set as"
  proof
    assume "low \<in> lo ` snd ` set as"
    then obtain x where x: "x \<in> set as" "lo (snd x) = low" by auto
    then have "lo (snd x) \<le> hi (snd x)" using sep unfolding separated_def by auto
    then have "overlaps low high (snd x)" using x low(3) by (simp add: overlaps_def)
    then show False using free x(1) by simp
  qed
  obtain h' where h': "link_range (last_of None as) (first_of bs None) p ?r ?s1 =
      Some (?s1\<lparr>range_list := first_of (as @ (p, ?r) # bs) None, range_cells := h'\<rparr>)"
    "linked h' None (as @ (p, ?r) # bs) None" "dom h' = insert p (dom (range_cells ?s1))"
    by (rule link_range_linked [OF lk, of p ?r]) (use fresh(1) p in auto)
  have z: "nodes tree z = None" using fresh(2) tree(2) by simp
  obtain tree' where tree': "tree_insert (long_of low) (Some p) (Some z) tree = Some (Some True, tree')"
    "represents tree' (put (long_of low) (Some p) (range_entries (as @ bs)))"
    by (rule tree_insert_new [OF tree(1) entries_split(3) [OF sep as bs low(1,2) new] z])
  let ?s' = "?s1\<lparr>range_list := first_of (as @ (p, ?r) # bs) None, range_cells := h', lo_tree := tree'\<rparr>"
  have nx: "(if as = [] then NULL else first_of bs None) = first_of bs None" using lowest by auto
  have sep': "separated (as @ (p, ?r) # bs)"
  proof -
    have "hi (snd x) < low" if "x \<in> set as" for x using as free that low(3) by (force simp: overlaps_def)
    moreover have "high < lo (snd x)" if "x \<in> set bs" for x
    proof -
      have "lo (snd x) \<le> hi (snd x)" using sep that unfolding separated_def by simp
      then show ?thesis using bs free that by (force simp: overlaps_def)
    qed
    ultimately show ?thesis using sep low unfolding separated_def by (auto simp: sorted_wrt_append)
  qed
  have "tracks ?s' (as @ (p, ?r) # bs)"
    using h'(2,3) tree'(2) entries_split(2) [OF sep as bs low(1,2) new, of p high idx] lk(3) pp dom sep' by (simp add: tracks_def image_Un)
  moreover have "do {
        s2 \<leftarrow> link_range (last_of None as) (if as = [] then NULL else first_of bs None) p ?r ?s1;
        (inserted, tree) \<leftarrow> tree_insert (long_of low) (Some p) (Some z) (lo_tree s2);
        Some (if inserted = None then Some Exit_program else None, s2\<lparr>lo_tree := tree\<rparr>)
      } = Some (None, ?s')"
    unfolding nx h'(1) using tree'(1) by simp
  ultimately show thesis by (intro that)
qed

definition insert_range :: "range_node \<Rightarrow> range_node list \<Rightarrow> range_node list" where
  "insert_range x xs = takeWhile (\<lambda>y. lo (snd y) \<le> lo (snd x)) xs @ x # dropWhile (\<lambda>y. lo (snd y) \<le> lo (snd x)) xs"

lemma insert_range_split:
  "\<forall>y \<in> set as. lo (snd y) \<le> lo (snd x) \<Longrightarrow> \<forall>y \<in> set bs. lo (snd x) < lo (snd y) \<Longrightarrow> insert_range x (as @ bs) = as @ x # bs"
  by (cases bs) (auto simp: insert_range_def)

lemma tracks_tree: "tracks s xs \<Longrightarrow> represents tree (range_entries xs) \<Longrightarrow> tracks (s\<lparr>lo_tree := tree\<rparr>) xs"
  by (simp add: tracks_def)

text \<open>The checks against the other ranges.\<close>

lemma add_range_checked:
  assumes "tracks s xs" "xs = [] \<or> lo (snd (hd xs)) \<le> low" "dbg \<noteq> DBG_NONE"
    and "0 \<le> mem_heap_lo m" "mem_heap_hi m < 2 ^ 63" "0 \<le> low" "0 < uint sz" "low + uint sz \<le> 2 ^ 63"
    and "range_cells s p = None" "nodes (lo_tree s) z = None" and ok: "IS_ALIGNED low \<and> inside m low (low + uint sz - 1)"
  shows "\<exists>err s'. add_range dbg m (Some p) (Some z) low sz idx s = Some (err, s') \<and>
    (err = None \<longleftrightarrow> (\<forall>x \<in> set xs. \<not> overlaps low (low + uint sz - 1) (snd x))) \<and>
    tracks s' (if err = None then insert_range (p, \<lparr>lo = low, hi = low + uint sz - 1, index = idx\<rparr>) xs else xs)"
proof -
  let ?high = "low + uint sz - 1" and ?r = "\<lparr>lo = low, hi = low + uint sz - 1, index = idx\<rparr>"
  have sep: "separated xs" using assms(1) by (simp add: tracks_def)
  obtain as bs where ab: "xs = as @ bs" "\<forall>x \<in> set as. lo (snd x) \<le> low" "\<forall>x \<in> set bs. low < lo (snd x)" by (rule split_at [OF sep])
  have lowest: "as = [] \<longrightarrow> bs = []" using assms(2) ab(1,3) by (cases bs) auto
  obtain tree where tree: "represents tree (range_entries xs)" "nodes tree = nodes (lo_tree s)"
    and run: "add_range dbg m (Some p) (Some z) low sz idx s = (let s1 = s\<lparr>lo_tree := tree\<rparr>; high = ?high; next = (if as = [] then NULL else first_of bs None) in
       if as \<noteq> [] \<and> low \<le> hi (snd (last as)) then Some (Some Overlaps_previous, s1)
       else if next \<noteq> NULL \<and> high \<ge> lo (snd (hd bs)) then Some (Some Overlaps_next, s1)
       else case Some p of None \<Rightarrow> Some (Some Exit_program, s1)
         | Some q \<Rightarrow> do {
             s2 \<leftarrow> link_range (last_of None as) next q \<lparr>lo = low, hi = high, index = idx\<rparr> s1;
             (inserted, tree) \<leftarrow> tree_insert (long_of low) (Some p) (Some z) (lo_tree s2);
             Some (if inserted = None then Some Exit_program else None, s2\<lparr>lo_tree := tree\<rparr>)
           })"
    by (rule add_range_neighbours [OF assms(1) ab assms(4,5,7,8) conjunct1 [OF ok] conjunct2 [OF ok] assms(3), of "Some p" "Some z" idx])
  have nx: "(if as = [] then NULL else first_of bs None) \<noteq> NULL \<longleftrightarrow> bs \<noteq> []" using lowest by (cases bs) auto
  have hit: "(\<exists>x \<in> set xs. overlaps low ?high (snd x)) \<longleftrightarrow> (as \<noteq> [] \<and> low \<le> hi (snd (last as))) \<or> (bs \<noteq> [] \<and> ?high \<ge> lo (snd (hd bs)))"
    using neighbours_decide [of as bs low ?high] sep ab assms(7) by simp
  show ?thesis
  proof (cases "\<exists>x \<in> set xs. overlaps low ?high (snd x)")
    case True
    have "add_range dbg m (Some p) (Some z) low sz idx s = Some (Some Overlaps_previous, s\<lparr>lo_tree := tree\<rparr>) \<or>
        add_range dbg m (Some p) (Some z) low sz idx s = Some (Some Overlaps_next, s\<lparr>lo_tree := tree\<rparr>)"
    proof (cases "as \<noteq> [] \<and> low \<le> hi (snd (last as))")
      case a: True
      show ?thesis unfolding run Let_def if_P [OF a] by (intro disjI1 refl)
    next
      case a: False
      then have b: "bs \<noteq> [] \<and> ?high \<ge> lo (snd (hd bs))" using True hit by blast
      show ?thesis unfolding run Let_def nx if_not_P [OF a] if_P [OF b] by (intro disjI2 refl)
    qed
    then show ?thesis using True tracks_tree [OF assms(1) tree(1)] by auto
  next
    case False
    have free: "\<forall>x \<in> set (as @ bs). \<not> overlaps low ?high (snd x)" using False ab(1) by simp
    have b: "low < 2 ^ 63" "low \<le> ?high" "?high < 2 ^ 63" using assms(7,8) by simp_all
    obtain s' where s': "do {
        s2 \<leftarrow> link_range (last_of None as) (if as = [] then NULL else first_of bs None) p ?r (s\<lparr>lo_tree := tree\<rparr>);
        (inserted, tree) \<leftarrow> tree_insert (long_of low) (Some p) (Some z) (lo_tree s2);
        Some (if inserted = None then Some Exit_program else None, s2\<lparr>lo_tree := tree\<rparr>)
      } = Some (None, s')" "tracks s' (as @ (p, ?r) # bs)"
      by (rule add_range_linked [OF assms(1) [unfolded ab(1)] ab(2,3) lowest assms(6) b free tree(1) [unfolded ab(1)] tree(2) assms(9,10), of idx])
    have no: "(as \<noteq> [] \<and> low \<le> hi (snd (last as))) = False" "(bs \<noteq> [] \<and> ?high \<ge> lo (snd (hd bs))) = False" using False hit by blast+
    have "add_range dbg m (Some p) (Some z) low sz idx s = Some (None, s')"
      unfolding run Let_def nx no if_False option.case by (rule s'(1))
    then show ?thesis using s'(2) insert_range_split [of as "(p, ?r)" bs] ab False by auto
  qed
qed

text \<open>
  C27. \<open>add_range\<close> of a range that is not empty and, unless the set is empty, not below all ranges of the set. With checking on
  (\<open>debug_mode\<close> other than \<open>DBG_NONE\<close>) it is accepted exactly when it is aligned, lies in the heap and overlaps no range of
  the set; an accepted range takes its place in the list and the tree, and after a rejection the set is what it was. Under
  \<open>DBG_NONE\<close> overlaps are not looked for: it is accepted exactly when it is aligned and lies in the heap, and the set
  stays as it was in any case. (The two allocations of the record and of the tree node succeed, and the heap lies below \<open>2 ^ 63\<close>.)
\<close>

theorem add_range_decides:
  assumes "tracks s xs" "xs = [] \<or> lo (snd (hd xs)) \<le> low"
    and "0 \<le> mem_heap_lo m" "mem_heap_hi m < 2 ^ 63" "0 \<le> low" "0 < uint sz" "low + uint sz \<le> 2 ^ 63"
    and "range_cells s p = None" "nodes (lo_tree s) z = None"
  shows "\<exists>err s'. add_range dbg m (Some p) (Some z) low sz idx s = Some (err, s') \<and>
    (err = None \<longleftrightarrow> IS_ALIGNED low \<and> inside m low (low + uint sz - 1) \<and>
      (dbg = DBG_NONE \<or> (\<forall>x \<in> set xs. \<not> overlaps low (low + uint sz - 1) (snd x)))) \<and>
    tracks s' (if err = None \<and> dbg \<noteq> DBG_NONE then insert_range (p, \<lparr>lo = low, hi = low + uint sz - 1, index = idx\<rparr>) xs else xs) \<and>
    (dbg = DBG_NONE \<longrightarrow> s' = s)"
proof -
  have hi: "(low + uint sz - 1) mod 2 ^ 64 = low + uint sz - 1" using assms(5-7) by (intro mod_pos_pos_trivial) simp_all
  consider (bad) "\<not> (IS_ALIGNED low \<and> inside m low (low + uint sz - 1))"
    | (off) "IS_ALIGNED low \<and> inside m low (low + uint sz - 1)" "dbg = DBG_NONE"
    | (on) "IS_ALIGNED low \<and> inside m low (low + uint sz - 1)" "dbg \<noteq> DBG_NONE" by blast
  then show ?thesis
  proof cases
    case bad
    then have "add_range dbg m (Some p) (Some z) low sz idx s = Some (Some (if IS_ALIGNED low then Outside_heap else Not_aligned), s)"
      using hi assms(6) unfolding add_range_def Let_def inside_def by auto
    then show ?thesis using bad assms(1) by auto
  next
    case off
    then have "add_range dbg m (Some p) (Some z) low sz idx s = Some (None, s)"
      using hi assms(6) unfolding add_range_def Let_def inside_def by auto
    then show ?thesis using off assms(1) by simp
  next
    case on
    then show ?thesis using add_range_checked [OF assms(1,2) on(2) assms(3-9) on(1), of idx] by simp
  qed
qed

subsection \<open>Removing ranges\<close>

lemma unlink_is_bypass:
  assumes "linked h None (as @ (a, r) # bs) None" "distinct (map fst (as @ (a, r) # bs))"
  shows "do {
      h \<leftarrow> (if last_of None as \<noteq> NULL then set_next h (last_of None as) (first_of bs None) else Some h);
      (if first_of bs None \<noteq> NULL then set_prev h (first_of bs None) (last_of None as) else Some h)
    } = bypass h (Some a)"
proof -
  have a: "h a = Some \<lparr>node_next = first_of bs None, node_prev = last_of None as, node_data = r\<rparr>" using assms(1) by (simp add: linked_append)
  let ?X = "if last_of None as \<noteq> NULL then set_next h (last_of None as) (first_of bs None) else Some h"
  have same: "h' a = h a" if "?X = Some h'" for h'
    using that assms(2) by (cases as rule: rev_cases) (auto simp: set_next_def split: option.splits)
  have "bypass h (Some a) = do {
      h \<leftarrow> ?X;
      n \<leftarrow> Dll.load h (Some a);
      (if node_next n \<noteq> NULL then set_prev h (node_next n) (node_prev n) else Some h)
    }"
    by (simp add: bypass_def a)
  moreover have "Dll.load h' (Some a) = Some \<lparr>node_next = first_of bs None, node_prev = last_of None as, node_data = r\<rparr>" if "?X = Some h'" for h'
    using same [OF that] a by simp
  ultimately show ?thesis by (cases ?X) (simp_all del: not_None_eq load_Some split del: if_split cong: if_cong)
qed

lemma remove_entry:
  assumes "separated (as @ (a, r) # bs)"
  shows "lookup (long_of (lo r)) (range_entries (as @ (a, r) # bs)) = Some a"
    "delete (long_of (lo r)) (range_entries (as @ (a, r) # bs)) = range_entries (as @ bs)"
proof -
  have ne: "long_of (lo (snd x)) \<noteq> long_of (lo r)" if "x \<in> set as \<union> set bs" for x
  proof -
    have "hi (snd x) < lo r \<or> hi r < lo (snd x)" "lo (snd x) \<le> hi (snd x)" "lo r \<le> hi r"
      using assms that unfolding separated_def by (auto simp: sorted_wrt_append)
    then have "lo (snd x) \<noteq> lo r" by linarith
    moreover have "long_of (lo (snd x)) = lo (snd x)" "long_of (lo r) = lo r"
      using separated_bounds [OF assms, of x] separated_bounds [OF assms, of "(a, r)"] that by (auto intro: long_of_small)
    ultimately show ?thesis by simp
  qed
  have "map_of (range_entries as) (long_of (lo r)) = None" using ne by (force simp: map_of_eq_None_iff range_entries_def)
  then show "lookup (long_of (lo r)) (range_entries (as @ (a, r) # bs)) = Some a" by (simp add: lookup_def range_entries_def map_add_def)
  have "filter (\<lambda>e. fst e \<noteq> long_of (lo r)) (range_entries cs) = range_entries cs" if "set cs \<subseteq> set as \<union> set bs" for cs
    using ne that by (force simp: filter_id_conv range_entries_def)
  then show "delete (long_of (lo r)) (range_entries (as @ (a, r) # bs)) = range_entries (as @ bs)"
    by (simp add: delete_def range_entries_def)
qed

lemma remove_range_tracks:
  assumes "tracks s (as @ (a, r) # bs)"
  obtains s' where "remove_range (lo r) s = Some s'" "tracks s' (as @ bs)"
proof -
  let ?h = "range_cells s"
  have rep: "represents (lo_tree s) (range_entries (as @ (a, r) # bs))" and lk: "linked ?h None (as @ (a, r) # bs) None"
    and d: "distinct (map fst (as @ (a, r) # bs))" and dom: "dom ?h = fst ` set (as @ (a, r) # bs)" and sep: "separated (as @ (a, r) # bs)"
    and first: "range_list s = first_of (as @ (a, r) # bs) None"
    using assms by (simp_all add: tracks_def)
  obtain tree where tree: "tree_remove (long_of (lo r)) (lo_tree s) = Some (Some a, tree)" "represents tree (range_entries (as @ bs))"
    using tree_remove_spec [OF rep, of "long_of (lo r)"] remove_entry [OF sep] by metis
  obtain h2 where h2: "bypass ?h (Some a) = Some h2" "linked h2 None (as @ bs) None" "h2 a = ?h a" "dom h2 = dom ?h"
    using bypass_linked [OF lk d] by blast
  have a: "?h a = Some \<lparr>node_next = first_of bs None, node_prev = last_of None as, node_data = r\<rparr>" using lk by (simp add: linked_append)
  obtain h1 where h1: "(if last_of None as \<noteq> NULL then set_next ?h (last_of None as) (first_of bs None) else Some ?h) = Some h1"
    "(if first_of bs None \<noteq> NULL then set_prev h1 (first_of bs None) (last_of None as) else Some h1) = Some h2"
    using h2(1) unlink_is_bypass [OF lk d] by (auto simp: bind_eq_Some_conv)
  have first': "(if as = [] then first_of bs None else range_list s) = first_of (as @ bs) None" using first by (cases as) simp_all
  have p1: "(if last_of None as \<noteq> NULL then map_option (\<lambda>h. (h, range_list s)) (set_next ?h (last_of None as) (first_of bs None))
      else Some (?h, first_of bs None)) = Some (h1, first_of (as @ bs) None)"
    using h1(1) first' by (cases "as = []") (auto simp: last_of_def)
  let ?s = "s\<lparr>lo_tree := tree, range_list := first_of (as @ bs) None, range_cells := h2(a := None)\<rparr>"
  have f: "Dll.free_node h2 (Some a) = Some (h2(a := None))" using h2(3) a by (simp add: heap_simps)
  have "remove_range (lo r) s = Some ?s"
    by (simp add: remove_range_def tree(1) a p1 h1(2) f Let_def del: not_None_eq split del: if_split cong: if_cong)
  moreover have "tracks ?s (as @ bs)"
  proof -
    have na: "a \<notin> fst ` set as" "a \<notin> fst ` set bs" using d by auto
    have "linked (h2(a := None)) None (as @ bs) None" using h2(2) na linked_upd [of a "as @ bs"] by (simp add: image_Un)
    moreover have "dom (h2(a := None)) = fst ` set (as @ bs)" using h2(4) dom na by (simp add: image_Un)
    moreover have "separated (as @ bs)" using sep unfolding separated_def by (simp add: sorted_wrt_append)
    ultimately show ?thesis using tree(2) d by (simp add: tracks_def)
  qed
  ultimately show thesis by (rule that)
qed

lemma free_records_distinct:
  assumes "mset rs = mset (map (\<lambda>x. Some (fst x)) xs)" "distinct (map fst xs)" "dom h = fst ` set xs"
  shows "free_records rs h = Some Map.empty"
proof -
  have "free_records rs h = Some (h |` (- {a. Some a \<in> set rs}))" if "distinct rs" "NULL \<notin> set rs" "\<forall>a. Some a \<in> set rs \<longrightarrow> a \<in> dom h"
    using that
  proof (induction rs arbitrary: h)
    case (Cons p rs)
    then obtain a n where p: "p = Some a" "h a = Some n" by (cases p) auto
    have "free_records rs (h(a := None)) = Some ((h(a := None)) |` (- {a. Some a \<in> set rs}))"
      using Cons.prems p by (intro Cons.IH) auto
    moreover have "(h(a := None)) |` (- {a. Some a \<in> set rs}) = h |` (- {a. Some a \<in> set (p # rs)})"
      using p by (auto simp: restrict_map_def)
    ultimately show ?case using p by (simp add: heap_simps)
  qed (simp add: restrict_map_def)
  moreover have s: "set rs = (\<lambda>x. Some (fst x)) ` set xs" using arg_cong [OF assms(1), of set_mset] by simp
  moreover have "distinct rs"
    using mset_eq_imp_distinct_iff [OF assms(1)] assms(2) by (simp add: distinct_map inj_on_def)
  moreover have all: "Some b \<in> set rs \<longleftrightarrow> b \<in> dom h" for b using assms(3) s by (simp add: image_iff)
  then have "h |` (- {a. Some a \<in> set rs}) = Map.empty" by (auto simp: restrict_map_def domIff)
  moreover have "NULL \<notin> set rs" using s by auto
  ultimately show ?thesis using all by simp
qed

text \<open>Resetting and freeing a set frees all its ranges.\<close>

lemma reset_range_set_tracks:
  assumes "tracks s xs"
  obtains s' where "reset_range_set True s = Some s'" "tracks s' []" "free_range_set s = Some Map.empty"
proof -
  have rep: "represents (lo_tree s) (range_entries xs)" and d: "distinct (map fst xs)" "dom (range_cells s) = fst ` set xs"
    using assms by (simp_all add: tracks_def)
  obtain rs where rs: "tree_free (lo_tree s) = Some (rs, (lo_tree s)\<lparr>nodes := Map.empty\<rparr>)" "mset rs = mset (map snd (range_entries xs))"
    by (rule tree_free_spec [OF rep])
  have "map snd (range_entries xs) = map (\<lambda>x. Some (fst x)) xs" by (simp add: range_entries_def split_beta comp_def)
  then have free: "free_records rs (range_cells s) = Some Map.empty" using free_records_distinct [OF _ d] rs(2) by simp
  obtain t where t: "tree_new True = Some t" by (simp add: tree_new_def)
  then have "represents t []" by (rule new_represents)
  then have "tracks \<lparr>range_list = NULL, lo_tree = t, range_cells = Map.empty\<rparr> []"
    by (simp add: tracks_def range_entries_def separated_def)
  moreover have "reset_range_set True s = Some \<lparr>range_list = NULL, lo_tree = t, range_cells = Map.empty\<rparr>"
    using rs(1) free t by (simp add: reset_range_set_def)
  moreover have "free_range_set s = Some Map.empty" using rs(1) free by (simp add: free_range_set_def)
  ultimately show thesis by (intro that)
qed

subsection \<open>Witnesses and the lowest range\<close>

definition demo_range :: range_t where
  "demo_range = \<lparr>lo = 4096, hi = 4351, index = 0\<rparr>"

definition demo_ranges :: range_set_t where
  "demo_ranges = \<lparr>range_list = Some 1,
     lo_tree = \<lparr>root = Some 7, node_count = 1, comparison_count = 0, nodes = [7 \<mapsto> cell NULL NULL NULL (7, 4096, Some 1)]\<rparr>,
     range_cells = [1 \<mapsto> \<lparr>node_next = NULL, node_prev = NULL, node_data = demo_range\<rparr>]\<rparr>"

definition demo_heap :: memsys where
  "demo_heap = \<lparr>memsys.heap = 0, mem_brk = 65536, mem_max_addr = 2 ^ 40, bytes = \<lambda>_. 0\<rparr>"

lemma demo_tracks: "tracks demo_ranges [(1, demo_range)]"
proof -
  have "long_of 4096 = 4096" by (rule long_of_small) simp_all
  then have "range_entries [(1, demo_range)] = [(4096, Some 1)]" by (simp add: range_entries_def demo_range_def)
  moreover have "represents (lo_tree demo_ranges) [(4096, Some 1)]"
    by (rule representsI [of _ "Node Leaf (7, 4096, Some 1) Leaf"]) (simp_all add: holds_def demo_ranges_def entries_of_def)
  ultimately show ?thesis by (simp add: tracks_def separated_def) (simp add: demo_ranges_def demo_range_def)
qed

lemma demo_facts: "mem_heap_lo demo_heap = 0" "mem_heap_hi demo_heap = 65535" "range_cells demo_ranges 2 = None" "nodes (lo_tree demo_ranges) 8 = None"
  by (simp_all add: demo_heap_def mem_heap_lo_def mem_heap_hi_def demo_ranges_def)

theorem add_range_decides_witness:
  "(\<exists>s'. add_range DBG_CHEAP demo_heap (Some 2) (Some 8) 8192 16 1 demo_ranges = Some (None, s') \<and>
     tracks s' [(1, demo_range), (2, \<lparr>lo = 8192, hi = 8207, index = 1\<rparr>)]) \<and>
   (\<exists>err s'. add_range DBG_CHEAP demo_heap (Some 2) (Some 8) 4096 16 1 demo_ranges = Some (Some err, s') \<and> tracks s' [(1, demo_range)]) \<and>
   add_range DBG_NONE demo_heap (Some 2) (Some 8) 4096 16 1 demo_ranges = Some (None, demo_ranges)"
proof (intro conjI)
  note decides = add_range_decides [OF demo_tracks, of _ demo_heap 16 2 8]
  note ev = IS_ALIGNED_def ALIGNMENT_def inside_def demo_facts overlaps_def demo_range_def insert_range_def
  show "\<exists>s'. add_range DBG_CHEAP demo_heap (Some 2) (Some 8) 8192 16 1 demo_ranges = Some (None, s') \<and>
     tracks s' [(1, demo_range), (2, \<lparr>lo = 8192, hi = 8207, index = 1\<rparr>)]"
    using decides [of 8192 DBG_CHEAP 1] by (auto simp: ev)
  show "\<exists>err s'. add_range DBG_CHEAP demo_heap (Some 2) (Some 8) 4096 16 1 demo_ranges = Some (Some err, s') \<and> tracks s' [(1, demo_range)]"
    using decides [of 4096 DBG_CHEAP 1] by (auto simp: ev)
  show "add_range DBG_NONE demo_heap (Some 2) (Some 8) 4096 16 1 demo_ranges = Some (None, demo_ranges)"
    using decides [of 4096 DBG_NONE 1] by (auto simp: ev)
qed

text \<open>
  C40. A range below all others is accepted whatever it overlaps, because the next range is looked for
  through the previous one; the list then holds the new range only, although the tree has them all.
\<close>

theorem lowest_range_unchecked:
  assumes "tracks s xs" "xs \<noteq> []" "low < lo (snd (hd xs))" "dbg \<noteq> DBG_NONE"
    and "0 \<le> mem_heap_lo m" "mem_heap_hi m < 2 ^ 63" "0 < uint sz" "low + uint sz \<le> 2 ^ 63"
    and "IS_ALIGNED low" "inside m low (low + uint sz - 1)" "range_cells s p = None" "nodes (lo_tree s) z = None"
  shows "\<exists>s'. add_range dbg m (Some p) (Some z) low sz idx s = Some (None, s') \<and> range_list s' = Some p \<and>
    range_cells s' p = Some \<lparr>node_next = NULL, node_prev = NULL, node_data = \<lparr>lo = low, hi = low + uint sz - 1, index = idx\<rparr>\<rparr> \<and>
    represents (lo_tree s') (put low (Some p) (range_entries xs))"
proof -
  have sep: "separated xs" using assms(1) by (simp add: tracks_def)
  have above: "\<forall>x \<in> set xs. low < lo (snd x)"
    using sep assms(2,3) by (cases xs) (fastforce simp: separated_def)+
  let ?as = "[] :: range_node list"
  have none: "\<forall>x \<in> set ?as. lo (snd x) \<le> low" by simp
  have b: "0 \<le> low" "low < 2 ^ 63" using assms(5-8,10) unfolding inside_def by linarith+
  obtain tree where tree: "represents tree (range_entries xs)" "nodes tree = nodes (lo_tree s)"
    and run: "add_range dbg m (Some p) (Some z) low sz idx s = (let s1 = s\<lparr>lo_tree := tree\<rparr>; high = low + uint sz - 1; next = (if ?as = [] then NULL else first_of xs None) in
       if ?as \<noteq> [] \<and> low \<le> hi (snd (last ?as)) then Some (Some Overlaps_previous, s1)
       else if next \<noteq> NULL \<and> high \<ge> lo (snd (hd xs)) then Some (Some Overlaps_next, s1)
       else case Some p of None \<Rightarrow> Some (Some Exit_program, s1)
         | Some q \<Rightarrow> do {
             s2 \<leftarrow> link_range (last_of None ?as) next q \<lparr>lo = low, hi = high, index = idx\<rparr> s1;
             (inserted, tree) \<leftarrow> tree_insert (long_of low) (Some p) (Some z) (lo_tree s2);
             Some (if inserted = None then Some Exit_program else None, s2\<lparr>lo_tree := tree\<rparr>)
           })"
    by (rule add_range_neighbours [OF assms(1) append_Nil [symmetric] none above assms(5-10,4), of "Some p" "Some z" idx])
  have es: "long_of low \<notin> fst ` set (range_entries xs)"
    using entries_split(3) [of "[]" xs low] sep above b by simp
  have z: "nodes tree z = None" using tree(2) assms(12) by simp
  obtain tree' where t': "tree_insert (long_of low) (Some p) (Some z) tree = Some (Some True, tree')"
    "represents tree' (put (long_of low) (Some p) (range_entries xs))"
    by (rule tree_insert_new [OF tree(1) es z])
  show ?thesis
    using t' long_of_small [OF b] by (simp add: run link_range_def Let_def)
qed

theorem lowest_range_unchecked_witness:
  "overlaps 4080 (4080 + uint (256 :: u64) - 1) demo_range \<and>
   (\<exists>s'. add_range DBG_CHEAP demo_heap (Some 2) (Some 8) 4080 256 1 demo_ranges = Some (None, s') \<and> range_list s' = Some 2 \<and>
     range_cells s' 2 = Some \<lparr>node_next = NULL, node_prev = NULL, node_data = \<lparr>lo = 4080, hi = 4080 + uint (256 :: u64) - 1, index = 1\<rparr>\<rparr> \<and>
     represents (lo_tree s') (put 4080 (Some 2) (range_entries [(1, demo_range)])))"
proof
  show "overlaps 4080 (4080 + uint (256 :: u64) - 1) demo_range" by (simp add: overlaps_def demo_range_def)
qed (rule lowest_range_unchecked [OF demo_tracks]; simp add: demo_facts demo_range_def IS_ALIGNED_def ALIGNMENT_def inside_def)

end
