(* ===== verification/Mm.thy ===== *)
theory Mm
  imports Memlib
begin

unbundle bit_operations_syntax

text \<open>
  The allocator of the malloc lab (\<open>mm.c\<close>): blocks with a header word, a footer in free ones,
  and an explicit doubly linked free list threaded through the free blocks.

  A function that may touch memory outside the mapped region returns an \<open>option\<close>; \<open>NULL\<close> is
  the address 0. The three fields of \<open>Block\<close> are the words at offsets 0, 8 and 16. Size
  arithmetic is on 64-bit words and wraps; pointer arithmetic on a \<open>size_t*\<close> moves by 8 times the
  word quotient, as \<open>words\<close> spells out. The header word holds the size, with bit 0 set when
  the block is allocated and bit 1 when the block before it is.
\<close>

subsection \<open>State and access\<close>

record mm = memsys +
  free_block_pointer :: int

abbreviation (input) size_node :: "int \<Rightarrow> int" where
  "size_node b \<equiv> b"

abbreviation (input) next_node :: "int \<Rightarrow> int" where
  "next_node b \<equiv> b + 8"

abbreviation (input) prev_node :: "int \<Rightarrow> int" where
  "prev_node b \<equiv> b + 16"

text \<open>A word as a pointer, and a pointer as a word.\<close>

definition ptr_of :: "u64 \<Rightarrow> int" where
  "ptr_of w = uint w"

definition word_of_ptr :: "int \<Rightarrow> u64" where
  "word_of_ptr p = word_of_int p"

text \<open>\<open>(size_t* )p + n / sizeof(size_t)\<close>.\<close>

definition words :: "int \<Rightarrow> u64 \<Rightarrow> int" where
  "words p n = p + 8 * uint (n div 8)"

text \<open>\<open>* p \<and>= v\<close> for the three update operators.\<close>

definition update_word :: "(u64 \<Rightarrow> u64) \<Rightarrow> int \<Rightarrow> mm \<Rightarrow> mm option" where
  "update_word f p m = do {
     w \<leftarrow> load m p;
     store m p (f w)
   }"

definition block_size :: "u64 \<Rightarrow> u64" where
  "block_size w = w AND NOT 3"

definition align :: "u64 \<Rightarrow> u64" where
  "align x = 16 * ((x + 16 - 1) div 16)"

subsection \<open>The free list\<close>

definition remove_from_free_list :: "int \<Rightarrow> mm \<Rightarrow> mm option" where
  "remove_from_free_list b m = do {
     p \<leftarrow> load m (prev_node b);
     n \<leftarrow> load m (next_node b);
     m \<leftarrow> (if p \<noteq> 0 then store m (next_node (ptr_of p)) n
          else Some (m\<lparr>free_block_pointer := ptr_of n\<rparr>));
     n \<leftarrow> load m (next_node b);
     (if n \<noteq> 0 then do {
        p \<leftarrow> load m (prev_node b);
        store m (prev_node (ptr_of n)) p
      } else Some m)
   }"

definition add_to_free_list :: "int \<Rightarrow> mm \<Rightarrow> mm option" where
  "add_to_free_list b m = do {
     m \<leftarrow> store m (prev_node b) 0;
     m \<leftarrow> store m (next_node b) (word_of_ptr (free_block_pointer m));
     m \<leftarrow> (if free_block_pointer m \<noteq> 0 then store m (prev_node (free_block_pointer m)) (word_of_ptr b) else Some m);
     Some (m\<lparr>free_block_pointer := b\<rparr>)
   }"

subsection \<open>Initialisation\<close>

definition mm_init :: "mm \<Rightarrow> (bool \<times> mm) option" where
  "mm_init m =
     (let (heap_start, m) = mm_sbrk (4096 + 16) m
      in if heap_start = - 1 then Some (False, m)
         else do {
           let heap_end = mm_heap_hi m + 1;
           m \<leftarrow> store m heap_start 1;
           let free_block = heap_start + 8;
           m \<leftarrow> store m (size_node free_block) 4096;
           m \<leftarrow> store m (prev_node free_block) 0;
           m \<leftarrow> store m (next_node free_block) 0;
           m \<leftarrow> update_word (\<lambda>w. w XOR 2) (size_node free_block) m;
           let m = m\<lparr>free_block_pointer := free_block\<rparr>;
           m \<leftarrow> store m (heap_end - 16) 4096;
           m \<leftarrow> store m (heap_end - 8) 1;
           Some (True, m)
         })"

subsection \<open>Allocation\<close>

partial_function (option) search_loop :: "u64 \<Rightarrow> int \<Rightarrow> mm \<Rightarrow> int option" where
  "search_loop sz look m =
     (if look = 0 then Some 0
      else do {
        w \<leftarrow> load m (size_node look);
        (if block_size w \<ge> sz then Some look
         else do {
           n \<leftarrow> load m (next_node look);
           search_loop sz (ptr_of n) m
         })
      })"

definition search :: "u64 \<Rightarrow> mm \<Rightarrow> int option" where
  "search sz m = search_loop sz (free_block_pointer m) m"

text \<open>The header of an allocated block, which keeps bit 1 of the header it replaces.\<close>

definition set_header :: "int \<Rightarrow> u64 \<Rightarrow> mm \<Rightarrow> mm option" where
  "set_header b v m = do {
     w \<leftarrow> load m (size_node b);
     (if w AND 2 \<noteq> 0 then do {
        m \<leftarrow> store m (size_node b) v;
        update_word (\<lambda>w. w XOR 2) (size_node b) m
      } else store m (size_node b) v)
   }"

text \<open>\<open>malloc\<close> when \<open>search\<close> has found a block, and when it has not.\<close>

definition place :: "int \<Rightarrow> u64 \<Rightarrow> mm \<Rightarrow> (int \<times> mm) option" where
  "place block required m = do {
     w \<leftarrow> load m (size_node block);
     let current = block_size w;
     let remaining = current - required;
     (if remaining \<le> 32 \<or> current = required then do {
        m \<leftarrow> set_header block (current OR 1) m;
        m \<leftarrow> update_word (\<lambda>w. w XOR 2) (words block current) m;
        m \<leftarrow> remove_from_free_list block m;
        Some (block + 8, m)
      } else do {
        let extra = current - required;
        m \<leftarrow> set_header block extra m;
        m \<leftarrow> store m (words block extra - 8) extra;
        let alloc_header = words block extra;
        m \<leftarrow> store m alloc_header (required OR 1);
        m \<leftarrow> update_word (\<lambda>w. w XOR 2) (words block current) m;
        Some (alloc_header + 8, m)
      })
   }"

definition extend :: "u64 \<Rightarrow> mm \<Rightarrow> (int \<times> mm) option" where
  "extend required m =
     (let (new_block, m) = mm_sbrk required m
      in if new_block = - 1 then Some (0, m)
         else do {
           let heap_end = mm_heap_hi m + 1;
           m \<leftarrow> set_header (new_block - 8) (required OR 1) m;
           m \<leftarrow> store m (heap_end - 8) 3;
           Some (new_block, m)
         })"

definition malloc :: "u64 \<Rightarrow> mm \<Rightarrow> (int \<times> mm) option" where
  "malloc sz m =
     (if sz = 0 then Some (0, m)
      else do {
        let required = align (sz + 8);
        let required = (if required < 32 then 32 else required);
        block \<leftarrow> search required m;
        (if block \<noteq> 0 then place block required m else extend required m)
      })"

subsection \<open>Coalescing and freeing\<close>

definition coalesce :: "int \<Rightarrow> mm \<Rightarrow> mm option" where
  "coalesce block m = do {
     w \<leftarrow> load m (size_node block);
     let current = block_size w;
     let prev_free = (w AND 2 = 0);
     prev_footer \<leftarrow> load m (block - 8);
     let prev_size = block_size prev_footer;
     let prev_header = block - 8 * uint (prev_size div 8);
     (merged_size, merged_block, m) \<leftarrow>
       (if prev_free \<and> prev_header \<ge> mm_heap_lo m + 8 \<and> prev_header < mm_heap_hi m - 56
        then do {
          m \<leftarrow> remove_from_free_list prev_header m;
          w \<leftarrow> load m (size_node prev_header);
          Some (current + block_size w, prev_header, m)
        } else Some (current, block, m));
     let next_header = words block current;
     next_free \<leftarrow>
       (if next_header \<ge> mm_heap_lo m + 8 \<and> next_header < mm_heap_hi m - 56
        then map_option (\<lambda>w. w AND 1 = 0) (load m next_header) else Some False);
     (merged_size, m) \<leftarrow>
       (if next_free
        then do {
          m \<leftarrow> remove_from_free_list next_header m;
          w \<leftarrow> load m (size_node next_header);
          Some (merged_size + block_size w, m)
        } else Some (merged_size, m));
     (if merged_size \<noteq> current then do {
        m \<leftarrow> remove_from_free_list block m;
        m \<leftarrow> store m (size_node merged_block) merged_size;
        m \<leftarrow> update_word (\<lambda>w. w XOR 2) (size_node merged_block) m;
        m \<leftarrow> store m (words merged_block merged_size - 8) merged_size;
        add_to_free_list merged_block m
      } else Some m)
   }"

definition mm_free :: "int \<Rightarrow> mm \<Rightarrow> mm option" where
  "mm_free ptr m =
     (if ptr = 0 then Some m
      else do {
        let block = ptr - 8;
        m \<leftarrow> update_word (\<lambda>w. w AND NOT 1) (size_node block) m;
        w \<leftarrow> load m (size_node block);
        let sz = block_size w;
        m \<leftarrow> store m (words block sz - 8) sz;
        m \<leftarrow> update_word (\<lambda>w. w AND NOT 2) (words block sz) m;
        m \<leftarrow> add_to_free_list block m;
        coalesce block m
      })"

definition realloc :: "int \<Rightarrow> u64 \<Rightarrow> mm \<Rightarrow> (int \<times> mm) option" where
  "realloc oldptr sz m =
     (if oldptr = 0 then malloc sz m
      else if sz = 0 then map_option (Pair 0) (mm_free oldptr m)
      else do {
        (new, m) \<leftarrow> malloc sz m;
        m \<leftarrow> (if new \<noteq> 0 then do {
             w \<leftarrow> load m (size_node (oldptr - 8));
             let old_size = block_size w;
             (_, m) \<leftarrow> mm_memcpy m new oldptr (if sz > old_size then old_size else sz);
             Some m
           } else Some m);
        m \<leftarrow> mm_free oldptr m;
        Some (new, m)
      })"

definition calloc :: "u64 \<Rightarrow> u64 \<Rightarrow> mm \<Rightarrow> (int \<times> mm) option" where
  "calloc nmemb sz m = do {
     let sz = sz * nmemb;
     (ptr, m) \<leftarrow> malloc sz m;
     (if ptr \<noteq> 0 then mm_memset m ptr 0 sz else Some (ptr, m))
   }"

subsection \<open>The heap checker\<close>

definition in_heap :: "int \<Rightarrow> mm \<Rightarrow> bool" where
  "in_heap p m \<longleftrightarrow> p \<le> mm_heap_hi m \<and> p \<ge> mm_heap_lo m"

definition aligned :: "int \<Rightarrow> bool" where
  "aligned p \<longleftrightarrow> align (word_of_ptr p) = word_of_ptr p"

text \<open>
  What \<open>mm_checkheap\<close> prints when it is compiled with \<open>DEBUG\<close>; without, it only returns true.
  None stands for undefined behaviour, or for a run that does not end.
\<close>

datatype heap_error = Header_oob | Footer_oob | Not_in_free_list int

definition heap_low_bound :: "mm \<Rightarrow> int" where
  "heap_low_bound m = mm_heap_lo m + 8"

definition heap_high_bound :: "mm \<Rightarrow> int" where
  "heap_high_bound m = mm_heap_hi m - 7"

partial_function (option) check_free_list :: "int \<Rightarrow> mm \<Rightarrow> heap_error list option" where
  "check_free_list checker m =
     (if checker = 0 then Some []
      else do {
        w \<leftarrow> load m checker;
        let footer = words checker (block_size w) - 8;
        n \<leftarrow> load m (next_node checker);
        es \<leftarrow> check_free_list (ptr_of n) m;
        Some ((if checker < heap_low_bound m \<or> checker \<ge> heap_high_bound m then [Header_oob] else []) @
              (if footer < heap_low_bound m \<or> footer \<ge> heap_high_bound m then [Footer_oob] else []) @ es)
      })"

partial_function (option) in_free_list :: "int \<Rightarrow> int \<Rightarrow> mm \<Rightarrow> bool option" where
  "in_free_list b iter m =
     (if iter = 0 then Some False
      else if b = iter then Some True
      else do {
        n \<leftarrow> load m (next_node iter);
        in_free_list b (ptr_of n) m
      })"

partial_function (option) check_blocks :: "int \<Rightarrow> mm \<Rightarrow> heap_error list option" where
  "check_blocks b m =
     (if b < heap_high_bound m
      then do {
        w \<leftarrow> load m (size_node b);
        found \<leftarrow> (if w AND 1 = 0 then in_free_list b (free_block_pointer m) m else Some True);
        es \<leftarrow> check_blocks (words b (block_size w)) m;
        Some ((if found then [] else [Not_in_free_list b]) @ es)
      }
      else Some [])"

definition mm_checkheap :: "bool \<Rightarrow> mm \<Rightarrow> (heap_error list \<times> bool) option" where
  "mm_checkheap debug m =
     (if debug then do {
        es \<leftarrow> check_free_list (free_block_pointer m) m;
        fs \<leftarrow> check_blocks (heap_low_bound m) m;
        Some (es @ fs, True)
      } else Some ([], True))"

end
