(* ===== verification/Mm_Heap.thy ===== *)
theory Mm_Heap
  imports Mm
begin

unbundle bit_operations_syntax

text \<open>
  The shape of a heap in use: a sequence of blocks that tile it from behind the prologue to
  the epilogue, and the free list threaded through the free ones, both read off the map of
  the heap's aligned words. The lemmas say how one store changes that map and which stores a
  shape does not see.
\<close>

subsection \<open>The words of memory\<close>

definition wmap :: "'a memsys_scheme \<Rightarrow> int \<rightharpoonup> u64" where
  "wmap m a = (if a mod 8 = 0 then load m a else None)"

text \<open>What a store leaves alone besides the words.\<close>

definition same_frame :: "mm \<Rightarrow> mm \<Rightarrow> bool" where
  "same_frame m m' \<longleftrightarrow> heap m' = heap m \<and> mem_brk m' = mem_brk m \<and> mem_max_addr m' = mem_max_addr m \<and>
     free_block_pointer m' = free_block_pointer m"

lemma same_frame_refl [simp]: "same_frame m m"
  by (simp add: same_frame_def)

lemma mapped_frame: "same_frame m m' \<Longrightarrow> mapped m' = mapped m"
  by (simp add: same_frame_def mapped_def fun_eq_iff)

lemma load_wmap: "wmap m a = Some w \<Longrightarrow> load m a = Some w"
  by (cases "a mod 8 = 0") (simp_all add: wmap_def)

lemma store_wmap:
  assumes "a mod 8 = 0" "mapped m a 8"
  obtains m' where "store m a w = Some m'" "wmap m' = (wmap m)(a \<mapsto> w)" "same_frame m m'"
proof -
  obtain m' where m': "store m a w = Some m'" using store_total [OF assms(2)] by blast
  have "wmap m' x = ((wmap m)(a \<mapsto> w)) x" for x
  proof (cases "x = a \<or> x mod 8 \<noteq> 0")
    case True
    then show ?thesis using load_store_same [OF m'] assms(1) by (auto simp: wmap_def)
  next
    case False
    then have "x + 8 \<le> a \<or> a + 8 \<le> x" using assms(1) by presburger
    then show ?thesis using load_store_other [OF m'] False by (simp add: wmap_def)
  qed
  moreover have "same_frame m m'" using m' by (auto simp: same_frame_def store_def write_bytes_def split: if_splits)
  ultimately show ?thesis using that m' by blast
qed

lemma wmap_mapped: "wmap m a \<noteq> None \<longleftrightarrow> a mod 8 = 0 \<and> mapped m a 8"
  by (simp add: wmap_def load_def)

subsection \<open>Header words\<close>

definition hdr :: "int \<Rightarrow> bool \<Rightarrow> bool \<Rightarrow> u64" where
  "hdr s al p = word_of_int s OR (if al then 1 else 0) OR (if p then 2 else 0)"

lemma bit_size:
  assumes "s mod 16 = 0" "n < 4"
  shows "\<not> bit (word_of_int s :: u64) n"
proof -
  have "s = 16 * (s div 16)" using assms(1) by presburger
  then have "\<not> bit s n" using assms(2) bit_push_bit_iff [of 4 "s div 16" n]
    by (simp add: push_bit_eq_mult mult.commute)
  then show ?thesis by (simp add: bit_word_of_int_iff)
qed

lemma bit_hdr:
  "s mod 16 = 0 \<Longrightarrow> bit (hdr s al p) n \<longleftrightarrow> n < 64 \<and> (if n = 0 then al else if n = 1 then p else bit (word_of_int s :: u64) n)"
  using bit_size [of s 0] bit_size [of s 1]
  by (auto simp: hdr_def bit_simps dest: bit_imp_le_length)

lemma hdr_facts:
  assumes s: "s mod 16 = 0"
  shows "block_size (hdr s al p) = word_of_int s" "hdr s al p AND 2 = 0 \<longleftrightarrow> \<not> p" "hdr s al p AND 1 = 0 \<longleftrightarrow> \<not> al"
    "hdr s al p XOR 2 = hdr s al (\<not> p)" "hdr s al p AND NOT 1 = hdr s False p" "hdr s al p AND NOT 2 = hdr s al False"
    "word_of_int s = hdr s False False" "word_of_int s OR 1 = hdr s True False"
proof -
  have b: "\<not> bit (word_of_int s :: u64) 0" "\<not> bit (word_of_int s :: u64) 1"
    using bit_size [OF s, of 0] bit_size [OF s, of 1] by simp_all
  have one: "bit (1 :: u64) n \<longleftrightarrow> n = 0" "bit (2 :: u64) n \<longleftrightarrow> n = 1" "bit (3 :: u64) n \<longleftrightarrow> n = 0 \<or> n = 1" for n
  proof -
    have three: "(3 :: u64) = 1 OR 2" by simp
    show "bit (1 :: u64) n \<longleftrightarrow> n = 0" "bit (2 :: u64) n \<longleftrightarrow> n = 1" "bit (3 :: u64) n \<longleftrightarrow> n = 0 \<or> n = 1"
      unfolding three bit_or_iff by (auto simp: bit_1_iff bit_2_iff)
  qed
  have "bit (block_size w) n \<longleftrightarrow> bit w n \<and> n \<noteq> 0 \<and> n \<noteq> 1" for w n
    unfolding block_size_def bit_and_iff bit_not_iff one by (auto dest: bit_imp_le_length)
  then show "block_size (hdr s al p) = word_of_int s"
    using b by (intro bit_word_eqI) (auto simp: bit_hdr [OF s])
  show "hdr s al p AND 2 = 0 \<longleftrightarrow> \<not> p" "hdr s al p AND 1 = 0 \<longleftrightarrow> \<not> al"
    using and_exp_eq_0_iff_not_bit [of "hdr s al p" 1] and_exp_eq_0_iff_not_bit [of "hdr s al p" 0]
    by (simp_all add: bit_hdr [OF s])
  show "hdr s al p XOR 2 = hdr s al (\<not> p)" "hdr s al p AND NOT 1 = hdr s False p" "hdr s al p AND NOT 2 = hdr s al False"
    by (auto intro!: bit_word_eqI simp: bit_hdr [OF s] bit_simps one split: if_splits)
  show "word_of_int s = hdr s False False" "word_of_int s OR 1 = hdr s True False"
    by (simp_all add: hdr_def)
qed


lemma uint_size: "0 \<le> s \<Longrightarrow> s < 2 ^ 64 \<Longrightarrow> uint (word_of_int s :: u64) = s"
  by (simp add: uint_word_of_int)

lemma ptr_of_word [simp]: "0 \<le> p \<Longrightarrow> p < 2 ^ 64 \<Longrightarrow> ptr_of (word_of_ptr p) = p"
  by (simp add: ptr_of_def word_of_ptr_def uint_size)

lemma word_of_ptr_0: "0 \<le> p \<Longrightarrow> p < 2 ^ 64 \<Longrightarrow> word_of_ptr p = 0 \<longleftrightarrow> p = 0"
  by (metis ptr_of_word ptr_of_def uint_0_iff word_of_ptr_def word_of_int_0)

lemma words_size:
  assumes "0 \<le> s" "s < 2 ^ 64" "s mod 8 = 0"
  shows "words b (word_of_int s) = b + s"
proof -
  have "uint (word_of_int s div 8 :: u64) = s div 8" using assms by (simp add: uint_div uint_size)
  moreover have "8 * (s div 8) = s" using assms(3) by presburger
  ultimately show ?thesis by (simp add: words_def)
qed

subsection \<open>The sequence of blocks\<close>

text \<open>A block is its size and whether it is allocated; \<open>p\<close> says the same of the block before.\<close>

type_synonym blk = "int \<times> bool"

fun extent :: "blk list \<Rightarrow> int" where
  "extent [] = 0"
| "extent (b # bs) = fst b + extent bs"

fun last_al :: "bool \<Rightarrow> blk list \<Rightarrow> bool" where
  "last_al p [] = p"
| "last_al p (b # bs) = last_al (snd b) bs"

definition block_ok :: "(int \<rightharpoonup> u64) \<Rightarrow> int \<Rightarrow> bool \<Rightarrow> blk \<Rightarrow> bool" where
  "block_ok w a p b \<longleftrightarrow> 32 \<le> fst b \<and> fst b mod 16 = 0 \<and> w a = Some (hdr (fst b) (snd b) p) \<and>
     (snd b \<or> w (a + fst b - 8) = Some (word_of_int (fst b)))"

fun seg :: "(int \<rightharpoonup> u64) \<Rightarrow> int \<Rightarrow> bool \<Rightarrow> blk list \<Rightarrow> bool" where
  "seg w a p [] \<longleftrightarrow> True"
| "seg w a p (b # bs) \<longleftrightarrow> block_ok w a p b \<and> seg w (a + fst b) (snd b) bs"

text \<open>Up to and including the epilogue, a header of size 0.\<close>

fun blocks :: "(int \<rightharpoonup> u64) \<Rightarrow> int \<Rightarrow> bool \<Rightarrow> blk list \<Rightarrow> bool" where
  "blocks w a p [] \<longleftrightarrow> w a = Some (hdr 0 True p)"
| "blocks w a p (b # bs) \<longleftrightarrow> block_ok w a p b \<and> blocks w (a + fst b) (snd b) bs"

text \<open>The addresses of headers and footers, and the starts of the blocks.\<close>

fun meta :: "int \<Rightarrow> blk list \<Rightarrow> int set" where
  "meta a [] = {}"
| "meta a (b # bs) = insert a (if snd b then {} else {a + fst b - 8}) \<union> meta (a + fst b) bs"

fun starts :: "int \<Rightarrow> blk list \<Rightarrow> (int \<times> blk) list" where
  "starts a [] = []"
| "starts a (b # bs) = (a, b) # starts (a + fst b) bs"

lemma extent_append [simp]: "extent (xs @ ys) = extent xs + extent ys"
  by (induction xs) simp_all

lemma last_al_append [simp]: "last_al p (xs @ ys) = last_al (last_al p xs) ys"
  by (induction xs arbitrary: p) simp_all

lemma starts_append: "starts a (xs @ ys) = starts a xs @ starts (a + extent xs) ys"
  by (induction xs arbitrary: a) (simp_all add: algebra_simps)

lemma meta_append: "meta a (xs @ ys) = meta a xs \<union> meta (a + extent xs) ys"
  by (induction xs arbitrary: a) (simp_all add: algebra_simps)

lemma blocks_append: "blocks w a p (xs @ ys) \<longleftrightarrow> seg w a p xs \<and> blocks w (a + extent xs) (last_al p xs) ys"
  by (induction xs arbitrary: a p) (auto simp: algebra_simps)

lemma seg_append: "seg w a p (xs @ ys) \<longleftrightarrow> seg w a p xs \<and> seg w (a + extent xs) (last_al p xs) ys"
  by (induction xs arbitrary: a p) (auto simp: algebra_simps)

definition sizes_ok :: "blk list \<Rightarrow> bool" where
  "sizes_ok bs \<longleftrightarrow> (\<forall>b \<in> set bs. 32 \<le> fst b \<and> fst b mod 16 = 0)"

lemma sizes_ok_simps [simp]:
  "sizes_ok []" "sizes_ok (b # bs) \<longleftrightarrow> 32 \<le> fst b \<and> fst b mod 16 = 0 \<and> sizes_ok bs"
  "sizes_ok (xs @ ys) \<longleftrightarrow> sizes_ok xs \<and> sizes_ok ys"
  by (auto simp: sizes_ok_def)

lemma seg_sizes: "seg w a p bs \<Longrightarrow> sizes_ok bs"
  by (induction bs arbitrary: a p) (auto simp: block_ok_def)

lemma blocks_sizes: "blocks w a p bs \<Longrightarrow> sizes_ok bs"
  by (induction bs arbitrary: a p) (auto simp: block_ok_def)

lemma extent_bounds: "sizes_ok bs \<Longrightarrow> 0 \<le> extent bs \<and> extent bs mod 16 = 0"
proof (induction bs)
  case (Cons b bs)
  then have "0 \<le> extent bs" "extent bs mod 16 = 0" "32 \<le> fst b" "fst b mod 16 = 0" by auto
  then show ?case by simp presburger
qed simp

lemma meta_bounds: "sizes_ok bs \<Longrightarrow> x \<in> meta a bs \<Longrightarrow> a \<le> x \<and> x + 8 \<le> a + extent bs"
proof (induction bs arbitrary: a)
  case (Cons b bs)
  have "0 \<le> extent bs" using Cons.prems(1) extent_bounds [of bs] by simp
  then show ?case using Cons by (fastforce split: if_splits)
qed simp

lemma starts_split: "(f, b) \<in> set (starts a bs) \<longleftrightarrow> (\<exists>xs ys. bs = xs @ b # ys \<and> f = a + extent xs)"
proof
  show "(f, b) \<in> set (starts a bs) \<Longrightarrow> \<exists>xs ys. bs = xs @ b # ys \<and> f = a + extent xs"
  proof (induction bs arbitrary: a)
    case (Cons c bs)
    show ?case
    proof (cases "(f, b) = (a, c)")
      case True
      then show ?thesis by (intro exI [of _ "[]"] exI [of _ bs]) simp
    next
      case False
      then obtain xs ys where "bs = xs @ b # ys" "f = a + fst c + extent xs"
        using Cons.IH [of "a + fst c"] Cons.prems by auto
      then show ?thesis by (intro exI [of _ "c # xs"] exI [of _ ys]) simp
    qed
  qed simp
  show "\<exists>xs ys. bs = xs @ b # ys \<and> f = a + extent xs \<Longrightarrow> (f, b) \<in> set (starts a bs)"
    by (auto simp: starts_append)
qed

text \<open>Between its first and its last word a free block holds no header and no footer.\<close>

lemma interior_not_meta:
  assumes "sizes_ok (xs @ b # ys)" "a + extent xs < x" "x < a + extent xs + fst b - (if snd b then 0 else 8)"
  shows "x \<notin> meta a (xs @ b # ys)" "x \<noteq> a + extent (xs @ b # ys)"
proof -
  have t: "0 \<le> extent ys" using assms(1) extent_bounds [of ys] by simp
  have "x \<notin> meta a xs" using meta_bounds [of xs x a] assms by auto
  moreover have "x \<notin> meta (a + extent xs + fst b) ys" using meta_bounds [of ys x "a + extent xs + fst b"] assms by (auto split: if_splits)
  ultimately show "x \<notin> meta a (xs @ b # ys)" using assms by (auto simp: meta_append split: if_splits)
  show "x \<noteq> a + extent (xs @ b # ys)" using assms t by (auto split: if_splits)
qed

lemma block_ok_upd: "x \<noteq> a \<Longrightarrow> snd b \<or> x \<noteq> a + fst b - 8 \<Longrightarrow> block_ok (w(x \<mapsto> v)) a p b = block_ok w a p b"
  by (auto simp: block_ok_def)

lemma seg_upd: "x \<notin> meta a bs \<Longrightarrow> seg (w(x \<mapsto> v)) a p bs = seg w a p bs"
proof (induction bs arbitrary: a p)
  case (Cons b bs)
  then have "block_ok (w(x \<mapsto> v)) a p b = block_ok w a p b" by (intro block_ok_upd) (auto split: if_splits)
  moreover have "seg (w(x \<mapsto> v)) (a + fst b) (snd b) bs = seg w (a + fst b) (snd b) bs" using Cons.prems by (intro Cons.IH) simp
  ultimately show ?case by (simp only: seg.simps)
qed simp

lemma blocks_seg: "blocks w a p bs \<longleftrightarrow> seg w a p bs \<and> w (a + extent bs) = Some (hdr 0 True (last_al p bs))"
  using blocks_append [of w a p bs "[]"] by simp

lemma blocks_upd: "x \<notin> meta a bs \<Longrightarrow> x \<noteq> a + extent bs \<Longrightarrow> blocks (w(x \<mapsto> v)) a p bs = blocks w a p bs"
  by (simp add: blocks_seg seg_upd)

text \<open>The first header of the rest of the heap, and its bit for the block before.\<close>

definition first_hdr :: "bool \<Rightarrow> blk list \<Rightarrow> u64" where
  "first_hdr p ys = (case ys of [] \<Rightarrow> hdr 0 True p | b # _ \<Rightarrow> hdr (fst b) (snd b) p)"

lemma first_hdr_facts:
  assumes "sizes_ok ys"
  shows "first_hdr p ys XOR 2 = first_hdr (\<not> p) ys" "first_hdr p ys AND NOT 2 = first_hdr False ys"
    "first_hdr p ys AND 1 = 0 \<longleftrightarrow> (case ys of [] \<Rightarrow> False | b # _ \<Rightarrow> \<not> snd b)"
  unfolding first_hdr_def using assms
  by (cases ys; simp only: list.case hdr_facts(3,4,6) sizes_ok_simps mod_0 simp_thms)+

lemma blocks_first: "blocks w a p ys \<Longrightarrow> w a = Some (first_hdr p ys)"
  by (cases ys) (simp_all add: first_hdr_def block_ok_def)

lemma blocks_flag:
  assumes "blocks w a p ys"
  shows "blocks (w(a \<mapsto> first_hdr q ys)) a q ys"
proof (cases ys)
  case (Cons b bs)
  have sz: "sizes_ok (b # bs)" using blocks_sizes [OF assms] Cons by simp
  have "a \<notin> meta (a + fst b) bs" using meta_bounds [of bs a "a + fst b"] sz by auto
  moreover have "a \<noteq> a + fst b + extent bs" using extent_bounds [of bs] sz by auto
  ultimately have "blocks (w(a \<mapsto> v)) (a + fst b) (snd b) bs" for v
    using assms Cons by (simp add: blocks_upd)
  then show ?thesis using assms Cons sz by (auto simp: first_hdr_def block_ok_def)
qed (simp add: first_hdr_def)

subsection \<open>The free list\<close>

fun dll :: "(int \<rightharpoonup> u64) \<Rightarrow> int \<Rightarrow> int list \<Rightarrow> int \<Rightarrow> bool" where
  "dll w p [] n \<longleftrightarrow> True"
| "dll w p (x # xs) n \<longleftrightarrow> w (x + 16) = Some (word_of_ptr p) \<and> w (x + 8) = Some (word_of_ptr (hd (xs @ [n]))) \<and> dll w x xs n"

definition links :: "int list \<Rightarrow> int set" where
  "links xs = (\<Union>x \<in> set xs. {x + 8, x + 16})"

lemma links_simps [simp]: "links [] = {}" "links (x # xs) = {x + 8, x + 16} \<union> links xs" "links (xs @ ys) = links xs \<union> links ys"
  by (auto simp: links_def)

lemma dll_append: "dll w p (xs @ ys) n \<longleftrightarrow> dll w p xs (hd (ys @ [n])) \<and> dll w (last (p # xs)) ys n"
proof (induction xs arbitrary: p)
  case (Cons x xs)
  then show ?case by (cases xs; cases ys) auto
qed simp

lemma dll_upd: "y \<notin> links xs \<Longrightarrow> dll (w(y \<mapsto> v)) p xs n = dll w p xs n"
  by (induction xs arbitrary: p) auto

definition odd8 :: "int list \<Rightarrow> bool" where
  "odd8 xs \<longleftrightarrow> (\<forall>x \<in> set xs. x mod 16 = 8)"

lemma links_distinct:
  assumes "odd8 xs" "u mod 16 = 8" "u \<notin> set xs"
  shows "u + 8 \<notin> links xs" "u + 16 \<notin> links xs"
proof -
  have "u + 8 \<noteq> x + 8 \<and> u + 8 \<noteq> x + 16 \<and> u + 16 \<noteq> x + 8 \<and> u + 16 \<noteq> x + 16" if "x \<in> set xs" for x
  proof -
    have "x mod 16 = 8" "u \<noteq> x" using assms that by (auto simp: odd8_def)
    then show ?thesis using assms(2) by presburger
  qed
  then show "u + 8 \<notin> links xs" "u + 16 \<notin> links xs" by (auto simp: links_def)
qed

lemma dll_set_next:
  assumes "dll w p (us @ [u]) n" "odd8 (us @ [u])" "distinct (us @ [u])"
  shows "dll (w(u + 8 \<mapsto> word_of_ptr n')) p (us @ [u]) n'"
proof -
  have "u + 8 \<notin> links us" using assms by (intro links_distinct(1)) (auto simp: odd8_def)
  then show ?thesis using assms(1) by (simp add: dll_append dll_upd)
qed

lemma dll_set_prev:
  assumes "dll w p (v # vs) n" "odd8 (v # vs)" "distinct (v # vs)"
  shows "dll (w(v + 16 \<mapsto> word_of_ptr p')) p' (v # vs) n"
proof -
  have "v + 16 \<notin> links vs" using assms by (intro links_distinct(2)) (auto simp: odd8_def)
  then show ?thesis using assms(1) by (simp add: dll_upd)
qed

end
