(* ===== verification/Mm_Lists.thy ===== *)
theory Mm_Lists
  imports Mm_Heap
begin

unbundle bit_operations_syntax

text \<open>
  The allocator's primitive steps on the map of words: a state seen as its fixed bounds, the
  head of the free list and the words, and what each access, header update and free-list
  operation does to that view.
\<close>

subsection \<open>Views\<close>

definition view :: "mm \<Rightarrow> int \<Rightarrow> int \<Rightarrow> int \<Rightarrow> int \<Rightarrow> (int \<rightharpoonup> u64) \<Rightarrow> bool" where
  "view m lo brk mx f w \<longleftrightarrow>
     heap m = lo \<and> mem_brk m = brk \<and> mem_max_addr m = mx \<and> free_block_pointer m = f \<and> wmap m = w"

lemma view_load: "view m lo brk mx f w \<Longrightarrow> w a = Some v \<Longrightarrow> load m a = Some v"
  using load_wmap by (auto simp: view_def)

lemma view_store:
  assumes "view m lo brk mx f w" "w a \<noteq> None"
  obtains m' where "store m a v = Some m'" "view m' lo brk mx f (w(a \<mapsto> v))"
proof -
  have "a mod 8 = 0" "mapped m a 8" using assms wmap_mapped [of m a] by (auto simp: view_def)
  then obtain m' where "store m a v = Some m'" "wmap m' = (wmap m)(a \<mapsto> v)" "same_frame m m'"
    using store_wmap by metis
  then show ?thesis using that assms(1) by (auto simp: view_def same_frame_def)
qed

lemma view_update:
  assumes "view m lo brk mx f w" "w a = Some v"
  obtains m' where "update_word g a m = Some m'" "view m' lo brk mx f (w(a \<mapsto> g v))"
proof -
  obtain m' where "store m a (g v) = Some m'" "view m' lo brk mx f (w(a \<mapsto> g v))"
    using view_store [OF assms(1), of a] assms(2) by blast
  then show ?thesis using that view_load [OF assms] by (simp add: update_word_def)
qed

lemma wmap_head [simp]: "wmap (m\<lparr>free_block_pointer := g\<rparr>) = wmap m"
proof -
  have "load (m\<lparr>free_block_pointer := g\<rparr>) a = load m a" for a
    by (simp add: load_def mapped_def read_bytes_def)
  then show ?thesis by (simp add: wmap_def fun_eq_iff)
qed

lemma view_head: "view m lo brk mx f w \<Longrightarrow> view (m\<lparr>free_block_pointer := g\<rparr>) lo brk mx g w"
  by (simp add: view_def)

lemma view_head_eq: "view m lo brk mx f w \<Longrightarrow> free_block_pointer m = f"
  by (simp add: view_def)

text \<open>A header update keeps the bit for the block before.\<close>

lemma view_set_header:
  assumes "view m lo brk mx f w" "w b = Some (hdr s al p)" "s mod 16 = 0" "t mod 16 = 0"
  obtains m' where "set_header b (hdr t al' False) m = Some m'" "view m' lo brk mx f (w(b \<mapsto> hdr t al' p))"
proof (cases p)
  case True
  obtain m1 where m1: "store m b (hdr t al' False) = Some m1" "view m1 lo brk mx f (w(b \<mapsto> hdr t al' False))"
    using view_store [OF assms(1), of b] assms(2) by blast
  obtain m2 where "update_word (\<lambda>w. w XOR 2) b m1 = Some m2"
    "view m2 lo brk mx f ((w(b \<mapsto> hdr t al' False))(b \<mapsto> hdr t al' False XOR 2))"
    using view_update [OF m1(2), of b "hdr t al' False" "\<lambda>w. w XOR 2"] by auto
  then show ?thesis
    using that True m1(1) view_load [OF assms(1,2)] assms(3,4) by (simp add: set_header_def hdr_facts(2,4))
next
  case False
  obtain m1 where "store m b (hdr t al' False) = Some m1" "view m1 lo brk mx f (w(b \<mapsto> hdr t al' False))"
    using view_store [OF assms(1), of b] assms(2) by blast
  then show ?thesis
    using that False view_load [OF assms(1,2)] assms(3) by (simp add: set_header_def hdr_facts(2))
qed

subsection \<open>The free-list operations\<close>

text \<open>The addresses of a free list: distinct, 8 modulo 16, and pointers.\<close>

definition addrs :: "int list \<Rightarrow> bool" where
  "addrs fl \<longleftrightarrow> distinct fl \<and> odd8 fl \<and> (\<forall>x \<in> set fl. 0 < x \<and> x < 2 ^ 63)"

lemma addrs_append: "addrs (xs @ ys) \<longleftrightarrow> addrs xs \<and> addrs ys \<and> set xs \<inter> set ys = {}"
  by (auto simp: addrs_def odd8_def)

lemma addrs_Cons: "addrs (x # xs) \<longleftrightarrow> x mod 16 = 8 \<and> 0 < x \<and> x < 2 ^ 63 \<and> x \<notin> set xs \<and> addrs xs"
  by (auto simp: addrs_def odd8_def)

lemma addrs_ptr: "addrs fl \<Longrightarrow> x \<in> set fl \<Longrightarrow> ptr_of (word_of_ptr x) = x \<and> word_of_ptr x \<noteq> 0"
  using word_of_ptr_0 [of x] by (auto simp: addrs_def)

lemma word_of_ptr_zero [simp]: "word_of_ptr 0 = 0" "ptr_of 0 = 0"
  by (simp_all add: word_of_ptr_def ptr_of_def)

lemma addrs_hd:
  assumes "addrs fl"
  shows "ptr_of (word_of_ptr (hd (fl @ [0]))) = hd (fl @ [0])" "word_of_ptr (hd (fl @ [0])) = 0 \<longleftrightarrow> fl = []"
  using assms addrs_ptr [OF assms] by (cases fl; simp)+

lemma addrs_last:
  assumes "addrs fl"
  shows "ptr_of (word_of_ptr (last (0 # fl))) = last (0 # fl)" "word_of_ptr (last (0 # fl)) = 0 \<longleftrightarrow> fl = []"
  using assms addrs_ptr [OF assms, of "last fl"] by (cases "fl = []"; simp)+

lemma dll_mem: "dll w p (us @ b # vs) n \<Longrightarrow> w (b + 16) = Some (word_of_ptr (last (p # us))) \<and> w (b + 8) = Some (word_of_ptr (hd (vs @ [n])))"
  by (simp add: dll_append)

lemma view_remove:
  assumes v: "view m lo brk mx f w" and f: "f = hd (us @ b # vs @ [0])"
    and d: "dll w 0 (us @ b # vs) 0" and a: "addrs (us @ b # vs)"
  obtains m' w' where "remove_from_free_list b m = Some m'" "view m' lo brk mx (hd (us @ vs @ [0])) w'"
    "dll w' 0 (us @ vs) 0" "\<And>x. x \<notin> links (us @ vs) \<Longrightarrow> w' x = w x"
proof -
  let ?p = "last (0 # us)" and ?n = "hd (vs @ [0])"
  have au: "addrs us" "addrs vs" and disj: "set us \<inter> set vs = {}" "b \<notin> set us" "b \<notin> set vs" "b mod 16 = 8"
    using a by (auto simp: addrs_append addrs_Cons)
  have b: "w (b + 16) = Some (word_of_ptr ?p)" "w (b + 8) = Some (word_of_ptr ?n)" using dll_mem [OF d] by auto
  have dus: "dll w 0 us b" and dvs: "dll w b vs 0" using d by (simp_all add: dll_append)
  have odd: "odd8 us" "odd8 vs" using au by (auto simp: addrs_def)
  text \<open>The forward pointer of the predecessor, or the head of the list.\<close>
  obtain m1 w1 where m1: "view m1 lo brk mx (hd (us @ vs @ [0])) w1" "dll w1 0 us ?n" "dll w1 b vs 0"
    "\<And>x. x \<notin> links us \<Longrightarrow> w1 x = w x"
    and s1: "(if word_of_ptr ?p \<noteq> 0 then store m (?p + 8) (word_of_ptr ?n) else Some (m\<lparr>free_block_pointer := ?n\<rparr>)) = Some m1"
  proof (cases us rule: rev_cases)
    case Nil
    then show ?thesis using that [of "m\<lparr>free_block_pointer := ?n\<rparr>" w] view_head [OF v] dvs by simp
  next
    case (snoc us' u)
    have u8: "u + 8 \<in> links us" "w (u + 8) \<noteq> None" using dus snoc by (auto simp: dll_append)
    obtain m1 where m1: "store m (u + 8) (word_of_ptr ?n) = Some m1" "view m1 lo brk mx f (w(u + 8 \<mapsto> word_of_ptr ?n))"
      using view_store [OF v u8(2)] by blast
    have "dll (w(u + 8 \<mapsto> word_of_ptr ?n)) 0 us ?n"
      using dll_set_next [of w 0 us' u b] dus snoc odd au by (simp add: addrs_def)
    moreover have "u + 8 \<notin> links vs"
      using snoc disj odd by (intro links_distinct(1)) (auto simp: odd8_def)
    then have "dll (w(u + 8 \<mapsto> word_of_ptr ?n)) b vs 0" using dvs by (simp add: dll_upd)
    moreover have "f = hd (us @ vs @ [0])" using f snoc by (cases us') auto
    ultimately show ?thesis
      using that [OF m1(2) [unfolded \<open>f = hd (us @ vs @ [0])\<close>]] m1(1) u8(1) snoc addrs_last [OF au(1)] by auto
  qed
  have b1: "w1 (b + 8) = Some (word_of_ptr ?n)" "w1 (b + 16) = Some (word_of_ptr ?p)"
    using b m1(4) links_distinct [OF odd(1) disj(4) disj(2)] by auto
  text \<open>The backward pointer of the successor.\<close>
  obtain m2 w2 where m2: "view m2 lo brk mx (hd (us @ vs @ [0])) w2" "dll w2 0 us ?n" "dll w2 ?p vs 0"
    "\<And>x. x \<notin> links vs \<Longrightarrow> w2 x = w1 x"
    and s2: "(if word_of_ptr ?n \<noteq> 0 then store m1 (?n + 16) (word_of_ptr ?p) else Some m1) = Some m2"
  proof (cases vs)
    case Nil
    then show ?thesis using that [of m1 w1] m1 by simp
  next
    case (Cons v' vs')
    have v16: "v' + 16 \<in> links vs" "w1 (v' + 16) \<noteq> None" using m1(3) Cons by auto
    obtain m2 where m2: "store m1 (v' + 16) (word_of_ptr ?p) = Some m2"
      "view m2 lo brk mx (hd (us @ vs @ [0])) (w1(v' + 16 \<mapsto> word_of_ptr ?p))"
      using view_store [OF m1(1) v16(2)] by blast
    have "dll (w1(v' + 16 \<mapsto> word_of_ptr ?p)) ?p vs 0"
      using dll_set_prev [of w1 b v' vs' 0] m1(3) Cons odd au by (simp add: addrs_def)
    moreover have "v' + 16 \<notin> links us"
      using Cons disj odd by (intro links_distinct(2)) (auto simp: odd8_def)
    then have "dll (w1(v' + 16 \<mapsto> word_of_ptr ?p)) 0 us ?n" using m1(2) by (simp add: dll_upd)
    ultimately show ?thesis
      using that [OF m2(2)] m2(1) v16(1) Cons addrs_hd [OF au(2)] by auto
  qed
  have "remove_from_free_list b m = Some m2"
    using s1 s2 view_load [OF v b(1)] view_load [OF v b(2)] view_load [OF m1(1) b1(1)] view_load [OF m1(1) b1(2)]
      addrs_hd(1) [OF au(2)] addrs_last(1) [OF au(1)]
    by (simp add: remove_from_free_list_def split: if_splits)
  moreover have "dll w2 0 (us @ vs) 0" using m2(2,3) by (simp add: dll_append)
  moreover have "w2 x = w x" if "x \<notin> links (us @ vs)" for x using that m1(4) m2(4) by simp
  ultimately show ?thesis using that m2(1) by blast
qed

lemma view_add:
  assumes v: "view m lo brk mx (hd (fl @ [0])) w" and d: "dll w 0 fl 0" and a: "addrs (b # fl)"
    and w: "w (b + 8) \<noteq> None" "w (b + 16) \<noteq> None"
  obtains m' w' where "add_to_free_list b m = Some m'" "view m' lo brk mx b w'"
    "dll w' 0 (b # fl) 0" "\<And>x. x \<notin> links (b # fl) \<Longrightarrow> w' x = w x"
proof -
  let ?h = "hd (fl @ [0])"
  have afl: "addrs fl" "b \<notin> set fl" "b mod 16 = 8" using a by (auto simp: addrs_Cons)
  then have odd: "odd8 fl" by (simp add: addrs_def)
  obtain m1 where m1: "store m (b + 16) 0 = Some m1" "view m1 lo brk mx ?h (w(b + 16 \<mapsto> 0))"
    using view_store [OF v w(2)] by blast
  obtain m2 where m2: "store m1 (b + 8) (word_of_ptr ?h) = Some m2"
    "view m2 lo brk mx ?h (w(b + 16 \<mapsto> 0, b + 8 \<mapsto> word_of_ptr ?h))"
    using view_store [OF m1(2), of "b + 8"] w(1) by (metis fun_upd_apply option.distinct(1))
  let ?w2 = "w(b + 16 \<mapsto> 0, b + 8 \<mapsto> word_of_ptr ?h)"
  have d2: "dll ?w2 0 fl 0" using d links_distinct [OF odd afl(3) afl(2)] by (simp add: dll_upd)
  obtain m3 w3 where m3: "view m3 lo brk mx ?h w3" "dll w3 b fl 0" "\<And>x. x \<notin> links fl \<Longrightarrow> w3 x = ?w2 x"
    and s3: "(if ?h \<noteq> 0 then store m2 (?h + 16) (word_of_ptr b) else Some m2) = Some m3"
  proof (cases fl)
    case Nil
    then show ?thesis using that [of m2 ?w2] m2 by simp
  next
    case (Cons h fl')
    have h16: "h + 16 \<in> links fl" "?w2 (h + 16) \<noteq> None" using d2 Cons by auto
    obtain m3 where m3: "store m2 (h + 16) (word_of_ptr b) = Some m3" "view m3 lo brk mx ?h (?w2(h + 16 \<mapsto> word_of_ptr b))"
      using view_store [OF m2(2) h16(2)] by blast
    have "dll (?w2(h + 16 \<mapsto> word_of_ptr b)) b fl 0"
      using dll_set_prev [of ?w2 0 h fl' 0 b] d2 Cons odd afl(1) by (simp add: addrs_def)
    moreover have "h \<noteq> 0" using afl(1) Cons by (auto simp: addrs_Cons)
    ultimately show ?thesis using that [OF m3(2)] m3(1) h16(1) Cons by auto
  qed
  have "add_to_free_list b m = Some (m3\<lparr>free_block_pointer := b\<rparr>)"
    using m1(1) m2(1) s3 view_head_eq [OF m1(2)] view_head_eq [OF m2(2)]
    by (cases "?h = 0") (simp_all add: add_to_free_list_def)
  moreover have "b + 8 \<notin> links fl" "b + 16 \<notin> links fl" using links_distinct [OF odd afl(3) afl(2)] by auto
  then have "w3 (b + 16) = Some (word_of_ptr 0)" "w3 (b + 8) = Some (word_of_ptr ?h)" using m3(3) by simp_all
  then have "dll w3 0 (b # fl) 0" using m3(2) by simp
  moreover have "w3 x = w x" if "x \<notin> links (b # fl)" for x using that m3(3) by simp
  ultimately show ?thesis using that view_head [OF m3(1)] by blast
qed

end
