(* ===== verification/Mm_Ops.thy ===== *)
theory Mm_Ops
  imports Mm_Lists
begin

unbundle bit_operations_syntax

text \<open>
  The invariant of the allocator's heap, and the steps of \<open>malloc\<close> on it: \<open>search\<close> finds a block that
  is large enough, \<open>place\<close> takes it whole or splits it at its end, \<open>extend\<close> asks for more memory.
\<close>

subsection \<open>The invariant\<close>

definition free_starts :: "int \<Rightarrow> blk list \<Rightarrow> int set" where
  "free_starts a bs = {f. \<exists>s. (f, s, False) \<in> set (starts a bs)}"

definition shape :: "int \<Rightarrow> (int \<rightharpoonup> u64) \<Rightarrow> blk list \<Rightarrow> int list \<Rightarrow> bool" where
  "shape lo w bs fl \<longleftrightarrow> blocks w (lo + 8) True bs \<and> dll w 0 fl 0 \<and> distinct fl \<and> set fl = free_starts (lo + 8) bs"

definition bounds_ok :: "int \<Rightarrow> int \<Rightarrow> int \<Rightarrow> bool" where
  "bounds_ok lo brk mx \<longleftrightarrow> 0 \<le> lo \<and> lo mod 16 = 0 \<and> brk \<le> mx \<and> mx < 2 ^ 62"

definition heap_ok :: "mm \<Rightarrow> blk list \<Rightarrow> int list \<Rightarrow> bool" where
  "heap_ok m bs fl \<longleftrightarrow> bounds_ok (heap m) (mem_brk m) (mem_max_addr m) \<and>
     heap m + 16 + extent bs = mem_brk m \<and> free_block_pointer m = hd (fl @ [0]) \<and> shape (heap m) (wmap m) bs fl"

text \<open>No two neighbouring blocks are both free; \<open>p\<close> says whether the block before is allocated.\<close>

fun no_adjacent :: "bool \<Rightarrow> blk list \<Rightarrow> bool" where
  "no_adjacent p [] \<longleftrightarrow> True"
| "no_adjacent p (b # bs) \<longleftrightarrow> (p \<or> snd b) \<and> no_adjacent (snd b) bs"

lemma no_adjacent_append: "no_adjacent p (xs @ ys) \<longleftrightarrow> no_adjacent p xs \<and> no_adjacent (last_al p xs) ys"
  by (induction xs arbitrary: p) auto

lemma free_starts_append: "free_starts a (xs @ ys) = free_starts a xs \<union> free_starts (a + extent xs) ys"
  by (auto simp: free_starts_def starts_append)

lemma free_starts_simps [simp]:
  "free_starts a [] = {}" "free_starts a (b # bs) = (if snd b then {} else {a}) \<union> free_starts (a + fst b) bs"
  by (cases b; auto simp: free_starts_def)+

lemma free_starts_bounds:
  assumes "sizes_ok bs" "f \<in> free_starts a bs" "a mod 16 = 8"
  shows "a \<le> f \<and> f + 32 \<le> a + extent bs \<and> f mod 16 = 8"
proof -
  obtain s where "(f, s, False) \<in> set (starts a bs)" using assms(2) by (auto simp: free_starts_def)
  then obtain xs ys where bs: "bs = xs @ (s, False) # ys" "f = a + extent xs" by (auto simp: starts_split)
  have ok: "sizes_ok xs" "sizes_ok ys" "32 \<le> s" using assms(1) bs(1) by auto
  then have "0 \<le> extent xs" "extent xs mod 16 = 0" "0 \<le> extent ys" using extent_bounds by blast+
  then show ?thesis using bs ok(3) assms(3) by simp presburger
qed

lemma shape_addrs:
  assumes "shape lo w bs fl" "0 \<le> lo" "lo mod 16 = 0" "lo + 16 + extent bs < 2 ^ 62"
  shows "addrs fl"
proof -
  have ok: "sizes_ok bs" using assms(1) blocks_sizes by (auto simp: shape_def)
  have "(lo + 8) mod 16 = 8" using assms(3) by presburger
  then have "lo + 8 \<le> x \<and> x + 32 \<le> lo + 8 + extent bs \<and> x mod 16 = 8" if "x \<in> set fl" for x
    using free_starts_bounds [OF ok, of x "lo + 8"] that assms(1) by (simp add: shape_def)
  then show ?thesis using assms by (force simp: addrs_def odd8_def shape_def)
qed

text \<open>The links of a free list lie inside free blocks, where there is no header or footer.\<close>

lemma links_interior:
  assumes "sizes_ok bs" "x \<in> links fl" "set fl \<subseteq> free_starts a bs"
  shows "x \<notin> meta a bs" "x \<noteq> a + extent bs"
proof -
  obtain f where f: "f \<in> set fl" "x = f + 8 \<or> x = f + 16" using assms(2) by (auto simp: links_def)
  then obtain s where "(f, s, False) \<in> set (starts a bs)" using assms(3) by (auto simp: free_starts_def)
  then obtain xs ys where bs: "bs = xs @ (s, False) # ys" "f = a + extent xs" by (auto simp: starts_split)
  have "32 \<le> s" using assms(1) bs(1) by simp
  then show "x \<notin> meta a bs" "x \<noteq> a + extent bs"
    using interior_not_meta [of xs "(s, False)" ys a x] assms(1) bs f(2) by auto
qed

lemma seg_cong: "(\<And>x. x \<in> meta a xs \<Longrightarrow> w' x = w x) \<Longrightarrow> seg w' a p xs = seg w a p xs"
proof (induction xs arbitrary: a p)
  case (Cons b xs)
  have "w' a = w a" "snd b \<or> w' (a + fst b - 8) = w (a + fst b - 8)" using Cons.prems by (cases "snd b"; simp)+
  then have "block_ok w' a p b = block_ok w a p b" by (auto simp: block_ok_def)
  then show ?case using Cons by simp
qed simp

text \<open>Writing links keeps the blocks.\<close>

lemma blocks_links:
  assumes "blocks w a p bs" "set fl \<subseteq> free_starts a bs" "\<And>x. x \<notin> links fl \<Longrightarrow> w' x = w x"
  shows "blocks w' a p bs"
proof -
  have ok: "sizes_ok bs" using blocks_sizes [OF assms(1)] .
  have "x \<in> meta a bs \<Longrightarrow> w' x = w x" "w' (a + extent bs) = w (a + extent bs)" for x
    using links_interior [OF ok _ assms(2)] assms(3) by blast+
  then show ?thesis using assms(1) seg_cong [of a bs w' w p] by (simp add: blocks_seg)
qed

text \<open>The rest of the heap behind a block whose allocation has changed.\<close>

lemma blocks_retag:
  assumes "blocks w c p ys" "w' c = Some (first_hdr q ys)"
    "\<And>x. x \<in> insert (c + extent ys) (meta c ys) \<Longrightarrow> x \<noteq> c \<Longrightarrow> w' x = w x"
  shows "blocks w' c q ys"
proof -
  let ?w = "w(c \<mapsto> first_hdr q ys)"
  have "blocks ?w c q ys" by (rule blocks_flag [OF assms(1)])
  moreover have "w' x = ?w x" if "x \<in> insert (c + extent ys) (meta c ys)" for x
    using assms(2,3) that by (cases "x = c") auto
  ultimately show ?thesis using seg_cong [of c ys w' ?w q] by (simp add: blocks_seg)
qed

text \<open>Writing headers and footers keeps the list.\<close>

lemma dll_cong: "(\<And>x. x \<in> links xs \<Longrightarrow> w' x = w x) \<Longrightarrow> dll w' p xs n = dll w p xs n"
  by (induction xs arbitrary: p) auto

subsection \<open>Search\<close>

text \<open>First fit along the free list.\<close>

definition first_fit :: "u64 \<Rightarrow> (int \<rightharpoonup> u64) \<Rightarrow> int list \<Rightarrow> int" where
  "first_fit r w fl = (case find (\<lambda>f. r \<le> block_size (the (w f))) fl of None \<Rightarrow> 0 | Some f \<Rightarrow> f)"

lemma search_loop_spec:
  assumes "view m lo brk mx f w" "dll w p fl 0" "addrs fl" "\<forall>x \<in> set fl. w x \<noteq> None"
  shows "search_loop r (hd (fl @ [0])) m = Some (first_fit r w fl)"
  using assms(2-4)
proof (induction fl arbitrary: p)
  case Nil
  then show ?case by (simp add: search_loop.simps first_fit_def)
next
  case (Cons x fl)
  then obtain v where v: "w x = Some v" by auto
  have x: "x \<noteq> 0" "addrs fl" using Cons.prems(2) by (auto simp: addrs_Cons)
  have ih: "search_loop r (hd (fl @ [0])) m = Some (first_fit r w fl)" using Cons x by auto
  have n: "load m (x + 8) = Some (word_of_ptr (hd (fl @ [0])))" using Cons.prems(1) view_load [OF assms(1)] by auto
  show ?case
    using ih n v view_load [OF assms(1) v] x addrs_hd(1) [OF x(2)]
    by (simp add: search_loop.simps [of r x m] first_fit_def)
qed

subsection \<open>Placing a block\<close>

text \<open>Where the words of the shape are.\<close>

definition region :: "int \<Rightarrow> blk list \<Rightarrow> int list \<Rightarrow> int set" where
  "region a bs fl = insert (a + extent bs) (meta a bs \<union> links fl)"

lemma meta_first: "sizes_ok ys \<Longrightarrow> c \<in> insert (c + extent ys) (meta c ys)"
  by (cases ys) auto

lemma shape_size: "shape lo w bs fl \<Longrightarrow> sizes_ok bs"
  using blocks_sizes by (auto simp: shape_def)

lemma free_starts_split:
  assumes "sizes_ok (xs @ (s, al) # ys)" "a mod 16 = 8"
  shows "a + extent xs \<notin> free_starts a xs" "a + extent xs \<notin> free_starts (a + extent xs + s) ys"
    "(a + extent xs) mod 16 = 8" "(a + extent xs + s) mod 16 = 8"
proof -
  have ok: "sizes_ok xs" "sizes_ok ys" "32 \<le> s" "s mod 16 = 0" using assms(1) by auto
  have "extent xs mod 16 = 0" using extent_bounds [OF ok(1)] by blast
  then show c: "(a + extent xs) mod 16 = 8" "(a + extent xs + s) mod 16 = 8" using assms(2) ok(4) by presburger+
  show "a + extent xs \<notin> free_starts a xs" using free_starts_bounds [OF ok(1) _ assms(2)] by force
  show "a + extent xs \<notin> free_starts (a + extent xs + s) ys" using free_starts_bounds [OF ok(2) _ c(2)] ok(3) by force
qed

lemma sub_size:
  assumes "0 \<le> r" "r \<le> s" "s < 2 ^ 64"
  shows "word_of_int s - word_of_int r = (word_of_int (s - r) :: u64)" "word_of_int (s - r) \<le> (32 :: u64) \<longleftrightarrow> s - r \<le> 32"
    "(word_of_int s :: u64) = word_of_int r \<longleftrightarrow> s = r" "word_of_int r \<le> (word_of_int s :: u64)"
proof -
  have u: "uint (word_of_int s :: u64) = s" "uint (word_of_int r :: u64) = r" "uint (word_of_int (s - r) :: u64) = s - r"
    using assms uint_size [of s] uint_size [of r] uint_size [of "s - r"] by simp_all
  show "word_of_int s - word_of_int r = (word_of_int (s - r) :: u64)" by simp
  show "word_of_int (s - r) \<le> (32 :: u64) \<longleftrightarrow> s - r \<le> 32" unfolding word_le_def u(3) by simp
  show "(word_of_int s :: u64) = word_of_int r \<longleftrightarrow> s = r" using u by metis
  show "word_of_int r \<le> (word_of_int s :: u64)" using assms by (simp add: word_le_def u)
qed

text \<open>The whole of a block is used.\<close>

lemma place_whole:
  assumes v: "view m lo brk mx (hd (fl @ [0])) w" and sh: "shape lo w (xs @ (s, False) # ys) fl"
    and lo: "0 \<le> lo" "lo mod 16 = 0" "lo + 16 + extent (xs @ (s, False) # ys) < 2 ^ 62"
    and r: "0 \<le> r" "r \<le> s" "s - r \<le> 32"
  defines "b \<equiv> lo + 8 + extent xs"
  obtains m' w' where "place b (word_of_int r) m = Some (b + 8, m')"
    "view m' lo brk mx (hd (remove1 b fl @ [0])) w'" "shape lo w' (xs @ (s, True) # ys) (remove1 b fl)"
    "\<And>x. x \<notin> region (lo + 8) (xs @ (s, False) # ys) fl \<Longrightarrow> w' x = w x"
proof -
  let ?a = "lo + 8" and ?p = "last_al True xs"
  have ok: "sizes_ok (xs @ (s, False) # ys)" using shape_size [OF sh] .
  then have ok1: "sizes_ok xs" "sizes_ok ys" "32 \<le> s" "s mod 16 = 0" by auto
  have a8: "?a mod 16 = 8" using lo(2) by presburger
  note nfs = free_starts_split [OF ok a8, folded b_def]
  have ext: "0 \<le> extent xs" "0 \<le> extent ys" using extent_bounds ok1 by blast+
  have s64: "s < 2 ^ 64" "0 \<le> s" "s mod 8 = 0" using lo ext ok1 by (simp, simp, presburger)
  have adr: "addrs fl" using shape_addrs [OF sh lo] .
  have blk: "seg w ?a True xs" "block_ok w b ?p (s, False)" "blocks w (b + s) False ys"
    using sh by (simp_all add: shape_def blocks_append b_def add.assoc)
  have fs: "free_starts ?a (xs @ (s, False) # ys) = insert b (free_starts ?a xs \<union> free_starts (b + s) ys)"
    "free_starts ?a (xs @ (s, True) # ys) = free_starts ?a xs \<union> free_starts (b + s) ys"
    by (auto simp: free_starts_append b_def add.assoc)
  have "b \<in> set fl" using sh fs by (simp add: shape_def)
  then obtain us vs where fl: "fl = us @ b # vs" "b \<notin> set us" by (meson split_list_first)
  have rem: "remove1 b fl = us @ vs" using fl by (simp add: remove1_append)
  have wb: "w b = Some (hdr s False ?p)" and wn: "w (b + s) = Some (first_hdr False ys)"
    using blk(2) blocks_first [OF blk(3)] by (simp_all add: block_ok_def)
  obtain m1 where m1: "set_header b (hdr s True False) m = Some m1" "view m1 lo brk mx (hd (fl @ [0])) (w(b \<mapsto> hdr s True ?p))"
    using view_set_header [OF v wb ok1(4) ok1(4)] by blast
  have "b \<noteq> b + s" using ok1(3) by simp
  then have wn1: "(w(b \<mapsto> hdr s True ?p)) (b + s) = Some (first_hdr False ys)" using wn by simp
  let ?w2 = "w(b \<mapsto> hdr s True ?p, b + s \<mapsto> first_hdr True ys)"
  have flip: "first_hdr False ys XOR 2 = first_hdr True ys" using first_hdr_facts(1) [OF ok1(2), of False] by simp
  obtain m2 where m2: "update_word (\<lambda>w. w XOR 2) (b + s) m1 = Some m2" "view m2 lo brk mx (hd (fl @ [0])) ?w2"
    using view_update [OF m1(2) wn1, of "\<lambda>w. w XOR 2"] unfolding flip by blast
  have inreg: "b \<in> meta ?a (xs @ (s, False) # ys)"
    "b + s \<in> insert (?a + extent (xs @ (s, False) # ys)) (meta ?a (xs @ (s, False) # ys))"
    using meta_first [OF ok1(2), of "b + s"] by (auto simp: meta_append b_def add.assoc)
  have sub: "set fl \<subseteq> free_starts ?a (xs @ (s, False) # ys)" using sh by (simp add: shape_def)
  have "b \<notin> links fl" "b + s \<notin> links fl" using links_interior [OF ok _ sub] inreg by blast+
  then have d2: "dll ?w2 0 fl 0" using sh by (simp add: shape_def dll_upd)
  obtain m3 w3 where m3: "remove_from_free_list b m2 = Some m3" "view m3 lo brk mx (hd (us @ vs @ [0])) w3"
    "dll w3 0 (us @ vs) 0" "\<And>x. x \<notin> links (us @ vs) \<Longrightarrow> w3 x = ?w2 x"
    using view_remove [OF m2(2), of us b vs] d2 adr fl(1) by auto
  have "blocks ?w2 ?a True (xs @ (s, True) # ys)"
  proof -
    have "x < b" if "x \<in> meta ?a xs" for x using meta_bounds [OF ok1(1) that] b_def by simp
    then have "seg ?w2 ?a True xs" using blk(1) seg_cong [of ?a xs ?w2 w True] ok1(3) by fastforce
    moreover have "block_ok ?w2 b ?p (s, True)" using blk(2) ok1(3) by (simp add: block_ok_def)
    moreover have "b + s \<le> x" if "x \<in> insert (b + s + extent ys) (meta (b + s) ys)" for x
      using that meta_bounds [OF ok1(2), of x "b + s"] ext by auto
    then have "blocks ?w2 (b + s) True ys"
      using ok1(3) by (intro blocks_retag [OF blk(3)]) fastforce+
    ultimately show ?thesis by (simp add: blocks_append b_def add.assoc)
  qed
  moreover have fsn: "set (us @ vs) = free_starts ?a (xs @ (s, True) # ys)"
    using sh fl nfs fs adr by (auto simp: shape_def addrs_append addrs_Cons)
  ultimately have "blocks w3 ?a True (xs @ (s, True) # ys)" using blocks_links m3(4) by blast
  then have "shape lo w3 (xs @ (s, True) # ys) (remove1 b fl)"
    using m3(3) fsn adr fl rem by (simp add: shape_def addrs_def)
  moreover have "place b (word_of_int r) m = Some (b + 8, m3)"
    using m1(1) m2(1) m3(1) view_load [OF v wb] hdr_facts(1,8) [OF ok1(4)] sub_size [OF r(1,2) s64(1)] r(3)
      words_size [OF s64(2,1,3)]
    by (simp add: place_def)
  moreover have "w3 x = w x" if "x \<notin> region ?a (xs @ (s, False) # ys) fl" for x
  proof -
    have "x \<noteq> b" "x \<noteq> b + s" "x \<notin> links (us @ vs)" using that inreg fl by (auto simp: region_def)
    then show ?thesis using m3(4) by simp
  qed
  ultimately show ?thesis using that m3(2) rem by simp
qed

text \<open>The end of a block is used, its front stays free.\<close>

lemma place_split:
  assumes v: "view m lo brk mx (hd (fl @ [0])) w" and sh: "shape lo w (xs @ (s, False) # ys) fl"
    and lo: "0 \<le> lo" "lo mod 16 = 0" "lo + 16 + extent (xs @ (s, False) # ys) < 2 ^ 62"
    and r: "32 \<le> r" "r mod 16 = 0" "r \<le> s" "\<not> s - r \<le> 32"
  defines "b \<equiv> lo + 8 + extent xs"
  obtains m' w' where "place b (word_of_int r) m = Some (b + (s - r) + 8, m')"
    "view m' lo brk mx (hd (fl @ [0])) w'" "shape lo w' (xs @ (s - r, False) # (r, True) # ys) fl"
    "\<And>x. x \<notin> region (lo + 8) (xs @ (s, False) # ys) fl \<Longrightarrow>
       x \<notin> region (lo + 8) (xs @ (s - r, False) # (r, True) # ys) fl \<Longrightarrow> w' x = w x"
proof -
  let ?a = "lo + 8" and ?p = "last_al True xs" and ?e = "s - r"
  let ?new = "xs @ (?e, False) # (r, True) # ys"
  have ok: "sizes_ok (xs @ (s, False) # ys)" using shape_size [OF sh] .
  then have ok1: "sizes_ok xs" "sizes_ok ys" "32 \<le> s" "s mod 16 = 0" by auto
  have e: "32 \<le> ?e" "?e mod 16 = 0" using r ok1(4) by (simp, presburger)
  have a8: "?a mod 16 = 8" using lo(2) by presburger
  have ext: "0 \<le> extent xs" "0 \<le> extent ys" using extent_bounds ok1 by blast+
  have s64: "s < 2 ^ 64" "0 \<le> s" "s mod 8 = 0" "?e < 2 ^ 64" "?e mod 8 = 0"
    using lo ext ok1 r e by (simp, simp, presburger, simp, presburger)
  have blk: "seg w ?a True xs" "block_ok w b ?p (s, False)" "blocks w (b + s) False ys"
    using sh by (simp_all add: shape_def blocks_append b_def add.assoc)
  have fs: "free_starts ?a (xs @ (s, False) # ys) = free_starts ?a ?new"
    by (auto simp: free_starts_append b_def algebra_simps)
  have sub: "set fl = free_starts ?a (xs @ (s, False) # ys)" "set fl = free_starts ?a ?new"
    using sh fs by (simp_all add: shape_def)
  have wb: "w b = Some (hdr s False ?p)" and wn: "w (b + s) = Some (first_hdr False ys)"
    using blk(2) blocks_first [OF blk(3)] by (simp_all add: block_ok_def)
  have some: "w x \<noteq> None" if "x mod 8 = 0" "b \<le> x" "x \<le> b + s" for x
  proof -
    have "mapped m b 8" "mapped m (b + s) 8" using wb wn v wmap_mapped [of m b] wmap_mapped [of m "b + s"] by (auto simp: view_def)
    then have "mapped m x 8" using that by (simp add: mapped_def)
    then show ?thesis using v wmap_mapped [of m x] that(1) by (simp add: view_def)
  qed
  have b8: "b mod 8 = 0" "(b + ?e) mod 8 = 0" "(b + ?e - 8) mod 8 = 0"
  proof -
    have "extent xs mod 16 = 0" using extent_bounds [OF ok1(1)] by blast
    then show "b mod 8 = 0" using lo(2) unfolding b_def by presburger
    then show "(b + ?e) mod 8 = 0" "(b + ?e - 8) mod 8 = 0" using s64(5) by presburger+
  qed
  obtain m1 where m1: "set_header b (hdr ?e False False) m = Some m1" "view m1 lo brk mx (hd (fl @ [0])) (w(b \<mapsto> hdr ?e False ?p))"
    using view_set_header [OF v wb ok1(4) e(2)] by blast
  let ?w1 = "w(b \<mapsto> hdr ?e False ?p)"
  have "?w1 (b + ?e - 8) \<noteq> None" using some [OF b8(3)] e r by simp
  then obtain m2 where m2: "store m1 (b + ?e - 8) (word_of_int ?e) = Some m2"
    "view m2 lo brk mx (hd (fl @ [0])) (?w1(b + ?e - 8 \<mapsto> word_of_int ?e))"
    using view_store [OF m1(2)] by blast
  let ?w2 = "?w1(b + ?e - 8 \<mapsto> word_of_int ?e)"
  have "?w2 (b + ?e) \<noteq> None" using some [OF b8(2)] e r by simp
  then obtain m3 where m3: "store m2 (b + ?e) (hdr r True False) = Some m3"
    "view m3 lo brk mx (hd (fl @ [0])) (?w2(b + ?e \<mapsto> hdr r True False))"
    using view_store [OF m2(2)] by blast
  let ?w3 = "?w2(b + ?e \<mapsto> hdr r True False)"
  have wn3: "?w3 (b + s) = Some (first_hdr False ys)" using wn e r by simp
  have flip: "first_hdr False ys XOR 2 = first_hdr True ys" using first_hdr_facts(1) [OF ok1(2), of False] by simp
  let ?w4 = "?w3(b + s \<mapsto> first_hdr True ys)"
  obtain m4 where m4: "update_word (\<lambda>w. w XOR 2) (b + s) m3 = Some m4" "view m4 lo brk mx (hd (fl @ [0])) ?w4"
    using view_update [OF m3(2) wn3, of "\<lambda>w. w XOR 2"] unfolding flip by blast
  have w4: "?w4 x = w x" if "x \<noteq> b" "x \<noteq> b + ?e - 8" "x \<noteq> b + ?e" "x \<noteq> b + s" for x using that by simp
  have "blocks ?w4 ?a True ?new"
  proof -
    have "x < b" if "x \<in> meta ?a xs" for x using meta_bounds [OF ok1(1) that] b_def by simp
    then have "seg ?w4 ?a True xs" using blk(1) seg_cong [of ?a xs ?w4 w True] w4 e r by fastforce
    moreover have "block_ok ?w4 b ?p (?e, False)" using e r by (simp add: block_ok_def)
    moreover have "block_ok ?w4 (b + ?e) False (r, True)" using e r by (simp add: block_ok_def)
    moreover have "b + s \<le> x" if "x \<in> insert (b + s + extent ys) (meta (b + s) ys)" for x
      using that meta_bounds [OF ok1(2), of x "b + s"] ext by auto
    then have "blocks ?w4 (b + s) True ys"
      using e r by (intro blocks_retag [OF blk(3)]) (simp, fastforce)
    ultimately show ?thesis by (simp add: blocks_append b_def algebra_simps)
  qed
  moreover have inreg: "{b, b + ?e - 8, b + ?e, b + s} \<subseteq> insert (?a + extent ?new) (meta ?a ?new)"
    using meta_first [OF ok1(2), of "b + s"] by (auto simp: meta_append b_def algebra_simps)
  have okn: "sizes_ok ?new" using ok e r by auto
  have "x \<notin> links fl" if "x \<in> {b, b + ?e - 8, b + ?e, b + s}" for x
    using links_interior [OF okn, of x fl ?a] sub(2) inreg that by blast
  then have "dll ?w4 0 fl 0" using sh dll_cong [of fl ?w4 w 0 0] w4 by (fastforce simp: shape_def)
  ultimately have "shape lo ?w4 ?new fl" using sh sub by (simp add: shape_def)
  moreover have "place b (word_of_int r) m = Some (b + ?e + 8, m4)"
  proof -
    have s_r: "word_of_int s - word_of_int r = (word_of_int ?e :: u64)" "\<not> word_of_int ?e \<le> (32 :: u64)"
      "(word_of_int s :: u64) \<noteq> word_of_int r" using sub_size [of r s] r s64 by auto
    have rw: "words b (word_of_int ?e) = b + ?e" "words b (word_of_int s) = b + s"
      by (rule words_size; use s64 e in simp)+
    have h1: "set_header b (word_of_int ?e) m = Some m1" unfolding hdr_facts(7) [OF e(2)] by (fact m1(1))
    show ?thesis
      unfolding place_def Let_def
      by (simp only: view_load [OF v wb] bind.bind_lunit hdr_facts(1) [OF ok1(4)] s_r rw if_False simp_thms h1 m2(1)
          hdr_facts(8) [OF r(2)] m3(1) m4(1))
  qed
  moreover have "?w4 x = w x" if "x \<notin> region ?a (xs @ (s, False) # ys) fl" "x \<notin> region ?a ?new fl" for x
    using that inreg by (intro w4) (auto simp: region_def)
  ultimately show ?thesis using that m4(2) by blast
qed

end
