(* ===== verification/Mm_Malloc.thy ===== *)
theory Mm_Malloc
  imports Mm_Ops
begin

unbundle bit_operations_syntax

text \<open>
  \<open>mm_init\<close> and \<open>malloc\<close> on a whole heap: what the new sequence of blocks is, which block is
  handed out and what stays the same.
\<close>

subsection \<open>Allocated blocks\<close>

definition alloc :: "int \<Rightarrow> blk list \<Rightarrow> (int \<times> int) set" where
  "alloc a bs = {(f, s). (f, s, True) \<in> set (starts a bs)}"

lemma alloc_append: "alloc a (xs @ ys) = alloc a xs \<union> alloc (a + extent xs) ys"
  by (auto simp: alloc_def starts_append)

lemma alloc_simps [simp]:
  "alloc a [] = {}" "alloc a (b # bs) = (if snd b then {(a, fst b)} else {}) \<union> alloc (a + fst b) bs"
  by (cases b; auto simp: alloc_def)+

lemma starts_bounds: "sizes_ok bs \<Longrightarrow> (f, b) \<in> set (starts a bs) \<Longrightarrow> a \<le> f \<and> f + fst b \<le> a + extent bs"
proof (induction bs arbitrary: a)
  case (Cons c bs)
  have "0 \<le> extent bs" using Cons.prems(1) extent_bounds [of bs] by simp
  then show ?case using Cons.IH [of "a + fst c"] Cons.prems by auto
qed simp

lemma starts_disjoint:
  assumes "sizes_ok bs" "(f, b) \<in> set (starts a bs)" "(g, c) \<in> set (starts a bs)"
  shows "(f, b) = (g, c) \<or> f + fst b \<le> g \<or> g + fst c \<le> f"
  using assms
proof (induction bs arbitrary: a)
  case (Cons d bs)
  have ok: "sizes_ok bs" using Cons.prems(1) by simp
  have le: "a + fst d \<le> h" if "(h, e) \<in> set (starts (a + fst d) bs)" for h e
    using starts_bounds [OF ok that] by simp
  show ?case
    using Cons.IH [OF ok, of "a + fst d"] Cons.prems(2,3) le [of f b] le [of g c]
    by (cases "(f, b) = (a, d)"; cases "(g, c) = (a, d)") auto
qed simp

text \<open>No word of the shape lies in the payload of an allocated block.\<close>

lemma payload_not_region:
  assumes sh: "shape lo w bs fl" and f: "(f, t) \<in> alloc (lo + 8) bs" and x: "f + 8 \<le> x" "x < f + t"
  shows "x \<notin> region (lo + 8) bs fl"
proof -
  let ?a = "lo + 8"
  have ok: "sizes_ok bs" using shape_size [OF sh] .
  have fs: "(f, t, True) \<in> set (starts ?a bs)" using f by (simp add: alloc_def)
  then obtain xs ys where bs: "bs = xs @ (t, True) # ys" "f = ?a + extent xs" by (auto simp: starts_split)
  have "x \<notin> meta ?a bs" "x \<noteq> ?a + extent bs"
    using interior_not_meta [of xs "(t, True)" ys ?a x] ok bs x by auto
  moreover have "x \<notin> links fl"
  proof
    assume "x \<in> links fl"
    then obtain y where y: "y \<in> set fl" "x = y + 8 \<or> x = y + 16" by (auto simp: links_def)
    then obtain s where s: "(y, s, False) \<in> set (starts ?a bs)" using sh by (auto simp: shape_def free_starts_def)
    then have "32 \<le> s" using ok by (auto simp: starts_split)
    then show False using starts_disjoint [OF ok fs s] x y(2) by auto
  qed
  ultimately show ?thesis by (simp add: region_def)
qed

text \<open>The payload of every block that is allocated before and after is unchanged.\<close>

definition payload_kept :: "mm \<Rightarrow> blk list \<Rightarrow> mm \<Rightarrow> blk list \<Rightarrow> bool" where
  "payload_kept m bs m' bs' \<longleftrightarrow>
     (\<forall>f t x. (f, t) \<in> alloc (heap m + 8) bs \<inter> alloc (heap m + 8) bs' \<and> f + 8 \<le> x \<and> x < f + t \<longrightarrow> wmap m' x = wmap m x)"

lemma payload_keptI:
  assumes "shape (heap m) w bs fl" "shape (heap m) w' bs' fl'"
    "\<And>x. x \<notin> region (heap m + 8) bs fl \<Longrightarrow> x \<notin> region (heap m + 8) bs' fl' \<Longrightarrow> wmap m' x = wmap m x"
  shows "payload_kept m bs m' bs'"
  unfolding payload_kept_def using payload_not_region [OF assms(1)] payload_not_region [OF assms(2)] assms(3) by blast

subsection \<open>Extending the heap\<close>

lemma heap_ok_view:
  "heap_ok m bs fl \<longleftrightarrow> (\<exists>lo brk mx w. view m lo brk mx (hd (fl @ [0])) w \<and> bounds_ok lo brk mx \<and>
     lo + 16 + extent bs = brk \<and> shape lo w bs fl)"
  by (auto simp: heap_ok_def view_def)

lemma wmap_brk [simp]: "wmap (m\<lparr>mem_brk := g\<rparr>) = wmap m"
proof -
  have "load (m\<lparr>mem_brk := g\<rparr>) a = load m a" for a by (simp add: load_def mapped_def read_bytes_def)
  then show ?thesis by (simp add: wmap_def fun_eq_iff)
qed

lemma sint_size:
  assumes "0 \<le> r" "r < 2 ^ 64"
  shows "sint (word_of_int r :: u64) = (if r < 2 ^ 63 then r else r - 2 ^ 64)"
proof -
  have "take_bit 64 r = r" using assms by (simp add: take_bit_int_eq_self_iff)
  moreover have "r div 2 ^ 63 = (if r < 2 ^ 63 then 0 else 1)"
  proof (cases "r < 2 ^ 63")
    case False
    then have "r div 2 ^ 63 = 1" using assms by (intro int_div_pos_eq [of _ _ _ "r - 2 ^ 63"]) simp_all
    then show ?thesis using False by simp
  qed (use assms in simp)
  then have "bit r 63 \<longleftrightarrow> \<not> r < 2 ^ 63" by (simp add: bit_iff_odd)
  ultimately show ?thesis
    using signed_take_bit_eq_take_bit_minus [of 63 r] uint_size [OF assms] by (simp add: sint_uint)
qed

lemma extend_spec:
  assumes v: "view m lo brk mx (hd (fl @ [0])) w" and sh: "shape lo w bs fl" and bd: "bounds_ok lo brk mx"
    and brk: "lo + 16 + extent bs = brk" and r: "32 \<le> r" "r mod 16 = 0" "r < 2 ^ 64"
  shows "if brk + r > mx then extend (word_of_int r) m = Some (0, m)
    else \<exists>m' w'. extend (word_of_int r) m = Some (brk, m') \<and> view m' lo (brk + r) mx (hd (fl @ [0])) w' \<and>
      shape lo w' (bs @ [(r, True)]) fl \<and>
      (\<forall>x. x \<notin> region (lo + 8) bs fl \<and> x \<notin> region (lo + 8) (bs @ [(r, True)]) fl \<longrightarrow> w' x = w x)"
proof (cases "brk + r > mx")
  case True
  have "mm_sbrk (word_of_int r) m = (- 1, m)"
    using True v r bd sint_size [of r] by (auto simp: mm_sbrk_def view_def bounds_ok_def)
  then show ?thesis using True by (simp add: extend_def)
next
  case False
  let ?a = "lo + 8" and ?m = "m\<lparr>mem_brk := brk + r\<rparr>" and ?q = "last_al True bs"
  have ok: "sizes_ok bs" using shape_size [OF sh] .
  have r63: "r < 2 ^ 63" "0 \<le> brk" using False bd r brk extent_bounds [OF ok] by (auto simp: bounds_ok_def)
  have sbrk: "mm_sbrk (word_of_int r) m = (brk, ?m)"
    using False v r r63 sint_size [of r] by (auto simp: mm_sbrk_def view_def)
  have v': "view ?m lo (brk + r) mx (hd (fl @ [0])) w" using v by (simp add: view_def)
  have epi: "w (brk - 8) = Some (hdr 0 True ?q)"
  proof -
    have "brk - 8 = ?a + extent bs" using brk by simp
    then show ?thesis using sh by (simp only: shape_def blocks_seg)
  qed
  obtain m1 where m1: "set_header (brk - 8) (hdr r True False) ?m = Some m1"
    "view m1 lo (brk + r) mx (hd (fl @ [0])) (w(brk - 8 \<mapsto> hdr r True ?q))"
    using view_set_header [OF v' epi _ r(2)] by auto
  have "(brk + r - 8) mod 8 = 0"
  proof -
    have "extent bs mod 16 = 0" "lo mod 16 = 0" using extent_bounds [OF ok] bd by (auto simp: bounds_ok_def)
    then show ?thesis using brk r(2) by presburger
  qed
  moreover have "lo \<le> brk + r - 8" using extent_bounds [OF ok] brk r(1) by simp
  ultimately have "wmap m1 (brk + r - 8) \<noteq> None"
    using False wmap_mapped [of m1 "brk + r - 8"] m1(2) by (simp add: view_def mapped_def)
  then obtain m2 where m2: "store m1 (brk + r - 8) 3 = Some m2"
    "view m2 lo (brk + r) mx (hd (fl @ [0])) (w(brk - 8 \<mapsto> hdr r True ?q, brk + r - 8 \<mapsto> 3))"
    using view_store [OF m1(2), of "brk + r - 8"] m1(2) by (auto simp: view_def)
  let ?w = "w(brk - 8 \<mapsto> hdr r True ?q, brk + r - 8 \<mapsto> 3)" and ?new = "bs @ [(r, True)]"
  have "extend (word_of_int r) m = Some (brk, m2)"
  proof -
    have "mm_heap_hi ?m = brk + r - 1" using v' by (simp add: mm_heap_hi_def view_def)
    moreover have "brk \<noteq> - 1" using r63 by simp
    ultimately show ?thesis using sbrk m1(1) m2(1) hdr_facts(8) [OF r(2)] by (simp add: extend_def)
  qed
  moreover have "blocks ?w ?a True ?new"
  proof -
    have "x \<noteq> brk - 8 \<and> x \<noteq> brk + r - 8" if "x \<in> meta ?a bs" for x
      using meta_bounds [OF ok that] brk r(1) by auto
    then have "seg ?w ?a True bs" using sh seg_cong [of ?a bs ?w w True] by (auto simp: shape_def blocks_seg)
    moreover have "hdr 0 True True = 3" by (simp add: hdr_def)
    moreover have "?a + extent bs = brk - 8" using brk by simp
    ultimately show ?thesis using r by (simp add: blocks_append block_ok_def algebra_simps)
  qed
  moreover have inreg: "brk - 8 \<in> insert (?a + extent ?new) (meta ?a ?new)" "brk + r - 8 \<in> insert (?a + extent ?new) (meta ?a ?new)"
    using brk by (auto simp: meta_append algebra_simps)
  have sub: "set fl = free_starts ?a ?new" using sh by (simp add: shape_def free_starts_append)
  have "dll ?w 0 fl 0"
  proof -
    have "sizes_ok ?new" using ok r by simp
    then have "brk - 8 \<notin> links fl" "brk + r - 8 \<notin> links fl"
      using links_interior [of ?new _ fl ?a] sub inreg by blast+
    then show ?thesis using sh by (simp add: shape_def dll_upd)
  qed
  ultimately have "shape lo ?w ?new fl" using sh sub by (simp add: shape_def)
  moreover have "?w x = w x" if "x \<notin> region ?a ?new fl" for x using that inreg by (auto simp: region_def)
  ultimately show ?thesis using False m2(2) \<open>extend (word_of_int r) m = Some (brk, m2)\<close> by auto
qed

subsection \<open>malloc\<close>

text \<open>The block size of a request, without wrap-around.\<close>

definition required_size :: "int \<Rightarrow> int" where
  "required_size n = max 32 (16 * ((n + 23) div 16))"

lemma required_facts:
  assumes "0 \<le> n"
  shows "32 \<le> required_size n" "required_size n mod 16 = 0" "n + 8 \<le> required_size n"
  using assms by (auto simp: required_size_def max_def)

lemma mul_div_le: "16 * (x div 16) \<le> (x :: int)"
  by presburger

lemma align_uint:
  assumes "uint sz + 23 < 2 ^ 64"
  shows "align (sz + 8) = word_of_int (16 * ((uint sz + 23) div 16))" "0 \<le> 16 * ((uint sz + 23) div 16)"
    "16 * ((uint sz + 23) div 16) < 2 ^ 64"
proof -
  let ?q = "(uint sz + 23) div 16"
  show b: "16 * ?q < 2 ^ 64" using assms mul_div_le [of "uint sz + 23"] by linarith
  have "0 \<le> uint sz + 23" using uint_ge_0 [of sz] by linarith
  then show "0 \<le> 16 * ?q" by (simp add: pos_imp_zdiv_nonneg_iff)
  have "uint (sz + 23) = uint sz + 23" using assms uint_add_lem [of sz 23] by simp
  then have "(sz + 23) div 16 = word_of_int ?q" by (simp add: word_div_def)
  then show "align (sz + 8) = word_of_int (16 * ?q)" by (simp add: align_def add.commute)
qed

lemma align_size:
  assumes "uint sz + 23 < 2 ^ 64"
  shows "(let r = align (sz + 8) in if r < 32 then 32 else r) = word_of_int (required_size (uint sz))"
proof -
  let ?r = "16 * ((uint sz + 23) div 16)"
  have "uint (word_of_int ?r :: u64) = ?r" using align_uint(2,3) [OF assms] by (rule uint_size)
  then have "align (sz + 8) < 32 \<longleftrightarrow> ?r < 32" unfolding align_uint(1) [OF assms] word_less_def by simp
  then show ?thesis using align_uint(1) [OF assms] by (simp add: Let_def required_size_def max_def)
qed

text \<open>What \<open>malloc\<close> promises about the block \<open>(p - 8, s)\<close> it hands out.\<close>

definition handed_out :: "mm \<Rightarrow> blk list \<Rightarrow> int \<Rightarrow> mm \<Rightarrow> blk list \<Rightarrow> int \<Rightarrow> bool" where
  "handed_out m bs p m' bs' n \<longleftrightarrow>
     (\<exists>s. (p - 8, s) \<notin> alloc (heap m + 8) bs \<and> alloc (heap m + 8) bs' = insert (p - 8, s) (alloc (heap m + 8) bs) \<and>
        p mod 16 = 0 \<and> n + 8 \<le> s)"

lemma handed_out_alloc:
  assumes "alloc (heap m + 8) bs' = insert (p - 8, s) (alloc (heap m + 8) bs)" "(p - 8, s) \<notin> alloc (heap m + 8) bs"
    "p mod 16 = 0" "n + 8 \<le> s"
  shows "handed_out m bs p m' bs' n"
  unfolding handed_out_def by (rule exI [of _ s]) (use assms in simp)

text \<open>A free block is split at its lower end, so the last block of the heap stays as it is or is handed out.\<close>

definition end_kept :: "blk list \<Rightarrow> blk list \<Rightarrow> bool" where
  "end_kept bs bs' \<longleftrightarrow> snd (last bs') \<or> last bs' = last bs"

lemma no_adjacent_True: "no_adjacent p ys \<Longrightarrow> no_adjacent True ys"
  by (cases ys) auto

lemma place_heap:
  assumes ok: "heap_ok m bs fl" and f: "f \<in> set fl" and r: "32 \<le> r" "r mod 16 = 0" "r < 2 ^ 64"
    and fit: "word_of_int r \<le> block_size (the (wmap m f))" and n: "n + 8 \<le> r" and na: "no_adjacent True bs"
  shows "\<exists>p m' bs' fl'. place f (word_of_int r) m = Some (p, m') \<and> heap_ok m' bs' fl' \<and> no_adjacent True bs' \<and>
    handed_out m bs p m' bs' n \<and> payload_kept m bs m' bs' \<and> end_kept bs bs' \<and> heap m' = heap m \<and>
    mem_brk m' = mem_brk m \<and> mem_max_addr m' = mem_max_addr m \<and> p \<noteq> 0"
proof -
  let ?lo = "heap m" and ?a = "heap m + 8"
  obtain brk mx w where v: "view m ?lo brk mx (hd (fl @ [0])) w" and bd: "bounds_ok ?lo brk mx"
    and brk: "?lo + 16 + extent bs = brk" and sh: "shape ?lo w bs fl"
    using ok by (auto simp: heap_ok_view view_def)
  have w: "wmap m = w" using v by (simp add: view_def)
  obtain s where "(f, s, False) \<in> set (starts ?a bs)" using sh f by (auto simp: shape_def free_starts_def)
  then obtain xs ys where bs: "bs = xs @ (s, False) # ys" and fx: "f = ?lo + 8 + extent xs" by (auto simp: starts_split)
  have okb: "sizes_ok xs" "sizes_ok ys" "32 \<le> s" "s mod 16 = 0" using shape_size [OF sh] bs by auto
  have ext: "0 \<le> extent xs" "extent xs mod 16 = 0" "0 \<le> extent ys" using extent_bounds okb by blast+
  have lo: "0 \<le> ?lo" "?lo mod 16 = 0" "?lo + 16 + extent (xs @ (s, False) # ys) < 2 ^ 62"
    using bd brk bs by (auto simp: bounds_ok_def)
  have s64: "s < 2 ^ 64" "0 \<le> s" using lo ext okb by simp_all
  have "block_ok w f (last_al True xs) (s, False)" using sh bs fx by (simp add: shape_def blocks_append add.assoc)
  then have "block_size (the (wmap m f)) = word_of_int s" using w okb by (simp add: block_ok_def hdr_facts(1))
  then have rs: "r \<le> s" using fit r(1,3) s64 by (simp add: word_le_def uint_size)
  have f16: "(f + 8) mod 16 = 0" "f + 8 \<noteq> 0" using fx lo ext by (presburger, simp)
  have old: "alloc ?a bs = alloc ?a xs \<union> alloc (f + s) ys" using bs fx by (simp add: alloc_append add.assoc)
  have fresh: "(g, t) \<notin> alloc ?a bs" if "f \<le> g" "g < f + s" for g t
  proof
    assume "(g, t) \<in> alloc ?a bs"
    then have g: "(g, t, True) \<in> set (starts ?a bs)" by (simp add: alloc_def)
    have "(f, s, False) \<in> set (starts ?a bs)" using bs fx by (auto simp: starts_append)
    moreover have "32 \<le> t" using g shape_size [OF sh] by (auto simp: starts_split)
    ultimately show False using starts_disjoint [OF shape_size [OF sh] g] that by fastforce
  qed
  show ?thesis
  proof (cases "s - r \<le> 32")
    case True
    obtain m' w' where m': "place f (word_of_int r) m = Some (f + 8, m')" "view m' ?lo brk mx (hd (remove1 f fl @ [0])) w'"
      "shape ?lo w' (xs @ (s, True) # ys) (remove1 f fl)" "\<And>x. x \<notin> region ?a bs fl \<Longrightarrow> w' x = w x"
      using place_whole [OF v sh [unfolded bs] lo _ rs True, folded fx bs] r(1) by auto
    have "heap_ok m' (xs @ (s, True) # ys) (remove1 f fl)" using m' bd brk bs by (auto simp: heap_ok_view)
    moreover have "no_adjacent True (xs @ (s, True) # ys)" using na bs no_adjacent_True by (auto simp: no_adjacent_append)
    moreover have "alloc ?a (xs @ (s, True) # ys) = insert (f, s) (alloc ?a bs)"
      using old fx by (auto simp: alloc_append add.assoc)
    then have "handed_out m bs (f + 8) m' (xs @ (s, True) # ys) n"
      using fresh [of f s] okb f16 n rs by (intro handed_out_alloc [where s = s]) auto
    moreover have "payload_kept m bs m' (xs @ (s, True) # ys)"
      using m'(2,4) w by (intro payload_keptI [OF sh m'(3)]) (simp add: view_def)
    moreover have "heap m' = heap m" "mem_brk m' = mem_brk m" "mem_max_addr m' = mem_max_addr m" using m'(2) v by (simp_all add: view_def)
    moreover have "end_kept bs (xs @ (s, True) # ys)" by (simp add: end_kept_def bs)
    ultimately show ?thesis using m'(1) f16(2) by blast
  next
    case False
    let ?e = "s - r"
    let ?new = "xs @ (?e, False) # (r, True) # ys"
    obtain m' w' where m': "place f (word_of_int r) m = Some (f + ?e + 8, m')" "view m' ?lo brk mx (hd (fl @ [0])) w'"
      "shape ?lo w' ?new fl"
      "\<And>x. x \<notin> region ?a bs fl \<Longrightarrow> x \<notin> region ?a ?new fl \<Longrightarrow> w' x = w x"
      using place_split [OF v sh [unfolded bs] lo r(1,2) rs False, folded fx bs] by auto
    have "heap_ok m' ?new fl" using m' bd brk bs by (auto simp: heap_ok_view)
    moreover have "no_adjacent True ?new" using na bs no_adjacent_True by (auto simp: no_adjacent_append)
    moreover have "alloc ?a ?new = insert (f + ?e, r) (alloc ?a bs)"
      using old fx by (auto simp: alloc_append add.assoc)
    moreover have "(f + ?e + 8) mod 16 = 0" using f16 okb(4) r(2) by presburger
    ultimately have "handed_out m bs (f + ?e + 8) m' ?new n"
      using fresh [of "f + ?e" r] False r n by (intro handed_out_alloc [where s = r]) auto
    moreover have "payload_kept m bs m' ?new"
      using m'(2,4) w by (intro payload_keptI [OF sh m'(3)]) (simp add: view_def)
    moreover have "f + ?e + 8 \<noteq> 0" using fx lo ext rs by simp
    moreover have "heap m' = heap m" "mem_brk m' = mem_brk m" "mem_max_addr m' = mem_max_addr m" using m'(2) v by (simp_all add: view_def)
    moreover have "end_kept bs ?new" by (simp add: end_kept_def bs)
    ultimately show ?thesis using m'(1) \<open>heap_ok m' ?new fl\<close> \<open>no_adjacent True ?new\<close> by blast
  qed
qed

end
