(* ===== verification/Mm_Alloc.thy ===== *)
theory Mm_Alloc
  imports Mm_Malloc
begin

unbundle bit_operations_syntax

text \<open>
  \<open>malloc\<close> as a whole, and the heap \<open>mm_init\<close> makes. The contract of both says how the
  sequence of blocks changes; \<open>exhausted\<close> is the only reason for \<open>malloc\<close> to return \<open>NULL\<close>.
\<close>

subsection \<open>malloc\<close>

definition exhausted :: "mm \<Rightarrow> blk list \<Rightarrow> int \<Rightarrow> bool" where
  "exhausted m bs r \<longleftrightarrow> (\<forall>(f, s, al) \<in> set (starts (heap m + 8) bs). al \<or> s < r) \<and> mem_max_addr m < mem_brk m + r"

definition allocated :: "mm \<Rightarrow> blk list \<Rightarrow> int \<Rightarrow> mm \<Rightarrow> int \<Rightarrow> bool" where
  "allocated m bs n m' p \<longleftrightarrow> p \<noteq> 0 \<and> heap m' = heap m \<and> mem_max_addr m' = mem_max_addr m \<and>
     mem_brk m \<le> mem_brk m' \<and> mem_brk m' \<le> mem_brk m + required_size n \<and>
     (\<exists>bs' fl'. heap_ok m' bs' fl' \<and> no_adjacent True bs' \<and> handed_out m bs p m' bs' n \<and> payload_kept m bs m' bs' \<and>
        end_kept bs bs')"

lemma first_fit_cases:
  obtains (found) f where "first_fit r w fl = f" "f \<in> set fl" "r \<le> block_size (the (w f))"
  | (none) "first_fit r w fl = 0" "\<forall>f \<in> set fl. \<not> r \<le> block_size (the (w f))"
proof (cases "find (\<lambda>f. r \<le> block_size (the (w f))) fl")
  case None
  then have "\<forall>f \<in> set fl. \<not> r \<le> block_size (the (w f))" by (auto simp: find_None_iff)
  then show ?thesis using none None by (simp add: first_fit_def)
next
  case (Some f)
  then have "f \<in> set fl" "r \<le> block_size (the (w f))" by (auto simp: find_Some_iff)
  then show ?thesis using found [of f] Some by (simp add: first_fit_def)
qed

lemma free_block_size:
  assumes sh: "shape lo w bs fl" and f: "(f, s, al) \<in> set (starts (lo + 8) bs)"
  shows "\<exists>p. w f = Some (hdr s al p)" "32 \<le> s" "s mod 16 = 0" "s \<le> extent bs"
proof -
  obtain xs ys where bs: "bs = xs @ (s, al) # ys" "f = lo + 8 + extent xs" using f by (auto simp: starts_split)
  have ok: "sizes_ok xs" "sizes_ok ys" "32 \<le> s" "s mod 16 = 0" using shape_size [OF sh] bs by auto
  then show "32 \<le> s" "s mod 16 = 0" "s \<le> extent bs" using bs(1) extent_bounds [of xs] extent_bounds [of ys] by simp_all
  show "\<exists>p. w f = Some (hdr s al p)" using sh bs by (auto simp: shape_def blocks_append block_ok_def)
qed

lemma malloc_spec:
  assumes ok: "heap_ok m bs fl" and na: "no_adjacent True bs" and n: "sz \<noteq> 0" "uint sz + 23 < 2 ^ 64"
  shows "\<exists>p m'. malloc sz m = Some (p, m') \<and>
    (if exhausted m bs (required_size (uint sz)) then p = 0 \<and> m' = m else allocated m bs (uint sz) m' p)"
proof -
  let ?r = "required_size (uint sz)" and ?lo = "heap m" and ?a = "heap m + 8"
  obtain brk mx w where v: "view m ?lo brk mx (hd (fl @ [0])) w" and bd: "bounds_ok ?lo brk mx"
    and brk: "?lo + 16 + extent bs = brk" and sh: "shape ?lo w bs fl"
    using ok by (auto simp: heap_ok_view view_def)
  have mm: "mem_brk m = brk" "mem_max_addr m = mx" "wmap m = w" "free_block_pointer m = hd (fl @ [0])"
    using v by (simp_all add: view_def)
  have small: "0 \<le> ?lo" "?lo mod 16 = 0" "?lo + 16 + extent bs < 2 ^ 62" using bd brk by (auto simp: bounds_ok_def)
  have r: "32 \<le> ?r" "?r mod 16 = 0" "uint sz + 8 \<le> ?r" using required_facts [of "uint sz"] by simp_all
  have r64: "?r < 2 ^ 64" using align_uint(3) [OF n(2)] by (simp add: required_size_def)
  have inits: "\<forall>x \<in> set fl. w x \<noteq> None"
    using sh free_block_size(1) [OF sh] by (fastforce simp: shape_def free_starts_def)
  have search: "search (word_of_int ?r) m = Some (first_fit (word_of_int ?r) w fl)"
    using search_loop_spec [OF v _ shape_addrs [OF sh small] inits, of 0] sh mm(4) by (simp add: search_def shape_def)
  have fit: "word_of_int ?r \<le> block_size (the (w f)) \<longleftrightarrow> ?r \<le> s" if "(f, s, False) \<in> set (starts ?a bs)" for f s
  proof -
    have "0 \<le> s" "s < 2 ^ 64" "block_size (the (w f)) = word_of_int s"
      using free_block_size [OF sh that] small by (auto simp: hdr_facts(1))
    then show ?thesis using r r64 by (simp add: word_le_def uint_size)
  qed
  have mal: "malloc sz m = (let f = first_fit (word_of_int ?r) w fl in
      if f \<noteq> 0 then place f (word_of_int ?r) m else extend (word_of_int ?r) m)"
    using n(1) search align_size [OF n(2)] by (simp add: malloc_def Let_def)
  show ?thesis
  proof (cases rule: first_fit_cases [of "word_of_int ?r" w fl])
    case (found f)
    have "f \<noteq> 0" using found(2) shape_addrs [OF sh small] by (auto simp: addrs_def)
    moreover have "\<not> exhausted m bs ?r"
    proof -
      obtain s where s: "(f, s, False) \<in> set (starts ?a bs)" using found(2) sh by (auto simp: shape_def free_starts_def)
      then have "\<not> s < ?r" using fit [OF s] found(3) by simp
      then show ?thesis using s unfolding exhausted_def by fastforce
    qed
    ultimately show ?thesis
      using mal found(1) place_heap [OF ok found(2) r(1,2) r64 _ r(3) na] found(3) mm(3) r(1) unfolding allocated_def
      by (simp add: Let_def) fastforce
  next
    case none
    have big: "s < ?r" if "(f, s, False) \<in> set (starts ?a bs)" for f s
    proof -
      have "f \<in> set fl" using sh that by (auto simp: shape_def free_starts_def)
      then show ?thesis using none(2) fit [OF that] by auto
    qed
    then have "al \<or> s < ?r" if "(f, s, al) \<in> set (starts ?a bs)" for f s al using that by (cases al) auto
    then have ex: "exhausted m bs ?r \<longleftrightarrow> mx < brk + ?r" using mm unfolding exhausted_def by auto
    show ?thesis
    proof (cases "mx < brk + ?r")
      case True
      then show ?thesis using mal none(1) ex extend_spec [OF v sh bd brk r(1,2) r64] by (simp add: Let_def)
    next
      case False
      let ?new = "bs @ [(?r, True)]"
      obtain m' w' where m': "extend (word_of_int ?r) m = Some (brk, m')" "view m' ?lo (brk + ?r) mx (hd (fl @ [0])) w'"
        "shape ?lo w' ?new fl" "\<And>x. x \<notin> region ?a bs fl \<Longrightarrow> x \<notin> region ?a ?new fl \<Longrightarrow> w' x = w x"
        using False extend_spec [OF v sh bd brk r(1,2) r64] by auto
      have "heap_ok m' ?new fl" unfolding heap_ok_view using m' bd brk False
        by (intro exI [of _ ?lo] exI [of _ "brk + ?r"] exI [of _ mx] exI [of _ w']) (auto simp: bounds_ok_def)
      moreover have "no_adjacent True ?new" using na by (simp add: no_adjacent_append)
      moreover have "handed_out m bs brk m' ?new (uint sz)"
      proof (rule handed_out_alloc [OF _ _ _ r(3)])
        have a: "?a + extent bs = brk - 8" using brk by simp
        then show "alloc ?a ?new = insert (brk - 8, ?r) (alloc ?a bs)" by (auto simp: alloc_append)
        show "(brk - 8, ?r) \<notin> alloc ?a bs"
          using starts_bounds [OF shape_size [OF sh], of "brk - 8" "(?r, True)" ?a] a r(1) by (auto simp: alloc_def)
        have "extent bs mod 16 = 0" using extent_bounds [OF shape_size [OF sh]] by simp
        then show "brk mod 16 = 0" using brk small(2) by presburger
      qed
      moreover have "payload_kept m bs m' ?new"
        using m'(2,4) mm(3) by (intro payload_keptI [OF sh m'(3)]) (simp add: view_def)
      moreover have "brk \<noteq> 0" using brk small extent_bounds [OF shape_size [OF sh]] by simp
      moreover have "heap m' = ?lo" "mem_max_addr m' = mem_max_addr m" "mem_brk m' = mem_brk m + ?r"
        using m'(2) mm(1,2) by (simp_all add: view_def)
      moreover have "end_kept bs ?new" by (simp add: end_kept_def)
      ultimately have "allocated m bs (uint sz) m' brk" using r(1) unfolding allocated_def by auto
      then show ?thesis using mal none(1) ex False m'(1) by (simp add: Let_def)
    qed
  qed
qed

subsection \<open>mm_init\<close>

lemma mm_init_spec:
  assumes m: "mem_brk m = heap m" "0 \<le> heap m" "heap m mod 16 = 0" "mem_max_addr m < 2 ^ 62"
  shows "if mem_max_addr m < heap m + 4112 then mm_init m = Some (False, m)
    else \<exists>m'. mm_init m = Some (True, m') \<and> heap_ok m' [(4096, False)] [heap m + 8] \<and>
      heap m' = heap m \<and> mem_max_addr m' = mem_max_addr m"
proof (cases "mem_max_addr m < heap m + 4112")
  case True
  then show ?thesis using m by (simp add: mm_init_def mm_sbrk_def)
next
  case False
  let ?h = "heap m" and ?mx = "mem_max_addr m" and ?f0 = "free_block_pointer m"
  let ?m = "m\<lparr>mem_brk := ?h + 4112\<rparr>"
  have sbrk: "mm_sbrk (4096 + 16) m = (?h, ?m)" using False m by (simp add: mm_sbrk_def)
  have h8: "?h mod 8 = 0" using m(3) by presburger
  have mp: "wmap m x \<noteq> None" if "x mod 8 = 0" "?h \<le> x" "x \<le> ?h + 4104" for x
    using wmap_mapped [of m x] that False by (simp add: mapped_def)
  have st: "\<exists>m2. store m1 x u = Some m2 \<and> view m2 ?h (?h + 4112) ?mx f (w(x \<mapsto> u))"
    if "view m1 ?h (?h + 4112) ?mx f w" "w x \<noteq> None" for m1 f w x u
    using view_store [OF that, of u] by blast
  let ?w0 = "wmap m"
  have v0: "view ?m ?h (?h + 4112) ?mx ?f0 ?w0" by (simp add: view_def)
  have a8: "(?h + 8) mod 8 = 0" "(?h + 16) mod 8 = 0" "(?h + 24) mod 8 = 0" "(?h + 4096) mod 8 = 0" "(?h + 4104) mod 8 = 0"
    using h8 by presburger+
  have ne: "?w0 ?h \<noteq> None" "?w0 (?h + 8) \<noteq> None" "?w0 (?h + 16) \<noteq> None" "?w0 (?h + 24) \<noteq> None"
    "?w0 (?h + 4096) \<noteq> None" "?w0 (?h + 4104) \<noteq> None"
    using mp a8 h8 by simp_all
  obtain m1 where m1: "store ?m ?h 1 = Some m1" "view m1 ?h (?h + 4112) ?mx ?f0 (?w0(?h \<mapsto> 1))"
    using st [OF v0 ne(1)] by blast
  let ?w1 = "?w0(?h \<mapsto> 1)"
  obtain m2 where m2: "store m1 (?h + 8) 4096 = Some m2" "view m2 ?h (?h + 4112) ?mx ?f0 (?w1(?h + 8 \<mapsto> 4096))"
    using st [OF m1(2), of "?h + 8"] ne by auto
  let ?w2 = "?w1(?h + 8 \<mapsto> 4096)"
  obtain m3 where m3: "store m2 (?h + 24) 0 = Some m3" "view m3 ?h (?h + 4112) ?mx ?f0 (?w2(?h + 24 \<mapsto> 0))"
    using st [OF m2(2), of "?h + 24"] ne by auto
  let ?w3 = "?w2(?h + 24 \<mapsto> 0)"
  obtain m4 where m4: "store m3 (?h + 16) 0 = Some m4" "view m4 ?h (?h + 4112) ?mx ?f0 (?w3(?h + 16 \<mapsto> 0))"
    using st [OF m3(2), of "?h + 16"] ne by auto
  let ?w4 = "?w3(?h + 16 \<mapsto> 0)"
  have "?w4 (?h + 8) = Some 4096" by simp
  then obtain m5 where m5: "update_word (\<lambda>w. w XOR 2) (?h + 8) m4 = Some m5"
    "view m5 ?h (?h + 4112) ?mx ?f0 (?w4(?h + 8 \<mapsto> 4096 XOR 2))"
    using view_update [OF m4(2), of "?h + 8" 4096 "\<lambda>w. w XOR 2"] by blast
  let ?w5 = "?w4(?h + 8 \<mapsto> 4096 XOR 2)" and ?m5 = "m5\<lparr>free_block_pointer := ?h + 8\<rparr>"
  have v5: "view ?m5 ?h (?h + 4112) ?mx (?h + 8) ?w5" using view_head [OF m5(2)] .
  obtain m6 where m6: "store ?m5 (?h + 4096) 4096 = Some m6" "view m6 ?h (?h + 4112) ?mx (?h + 8) (?w5(?h + 4096 \<mapsto> 4096))"
    using st [OF v5, of "?h + 4096"] ne by auto
  let ?w6 = "?w5(?h + 4096 \<mapsto> 4096)"
  obtain m7 where m7: "store m6 (?h + 4104) 1 = Some m7" "view m7 ?h (?h + 4112) ?mx (?h + 8) (?w6(?h + 4104 \<mapsto> 1))"
    using st [OF m6(2), of "?h + 4104"] ne by auto
  let ?w7 = "?w6(?h + 4104 \<mapsto> 1)"
  have "mm_heap_hi ?m = ?h + 4111" by (simp add: mm_heap_hi_def)
  then have "mm_init m = Some (True, m7)"
    using sbrk m m1(1) m2(1) m3(1) m4(1) m5(1) m6(1) m7(1)
    by (simp add: mm_init_def Let_def add.commute [of _ "heap m"])
  moreover have h: "hdr 4096 False True = 4096 XOR 2" "hdr 0 True False = 1" by (simp_all add: hdr_def)
  have "shape ?h ?w7 [(4096, False)] [?h + 8]" by (simp add: shape_def block_ok_def h)
  then have "heap_ok m7 [(4096, False)] [?h + 8]"
    unfolding heap_ok_view using m7(2) m False
    by (intro exI [of _ ?h] exI [of _ "?h + 4112"] exI [of _ ?mx] exI [of _ ?w7]) (simp add: bounds_ok_def)
  ultimately show ?thesis using False m7(2) by (auto simp: view_def)
qed

end
