(* ===== verification/Mm_Free.thy ===== *)
theory Mm_Free
  imports Mm_Alloc
begin

unbundle bit_operations_syntax

text \<open>
  \<open>free\<close> on a well-formed heap: the block is tagged free and pushed on the free list
  (\<open>released\<close>), then \<open>coalesce\<close> merges it with the free blocks on both sides.
\<close>

subsection \<open>Shared facts\<close>

lemma remove_free:
  assumes v: "view m lo brk mx (hd (fl @ [0])) w" and d: "dll w 0 fl 0" and a: "addrs fl" and b: "b \<in> set fl"
  obtains m' w' where "remove_from_free_list b m = Some m'" "view m' lo brk mx (hd (remove1 b fl @ [0])) w'"
    "dll w' 0 (remove1 b fl) 0" "addrs (remove1 b fl)" "\<And>x. x \<notin> links fl \<Longrightarrow> w' x = w x"
proof -
  obtain us vs where fl: "fl = us @ b # vs" "b \<notin> set us" using b by (meson split_list_first)
  then have rem: "remove1 b fl = us @ vs" by (simp add: remove1_append)
  obtain m' w' where "remove_from_free_list b m = Some m'" "view m' lo brk mx (hd (us @ vs @ [0])) w'"
    "dll w' 0 (us @ vs) 0" "\<And>x. x \<notin> links (us @ vs) \<Longrightarrow> w' x = w x"
    using view_remove [of m lo brk mx "hd (fl @ [0])" w us b vs] v d a fl(1) by auto
  moreover have "addrs (us @ vs)" using a fl(1) by (auto simp: addrs_append addrs_Cons)
  ultimately show ?thesis using that rem fl(1) by simp
qed

lemma blocks_cong:
  assumes "\<And>x. x \<in> insert (a + extent bs) (meta a bs) \<Longrightarrow> w' x = w x"
  shows "blocks w' a p bs = blocks w a p bs"
  using seg_cong [of a bs w' w p] assms by (simp add: blocks_seg)

lemma payload_kept_trans:
  assumes "payload_kept m bs m1 bs1" "payload_kept m1 bs1 m2 bs2" "heap m1 = heap m"
    "alloc (heap m + 8) bs \<inter> alloc (heap m + 8) bs2 \<subseteq> alloc (heap m + 8) bs1"
  shows "payload_kept m bs m2 bs2"
  unfolding payload_kept_def
proof (intro allI impI)
  fix f t x
  assume x: "(f, t) \<in> alloc (heap m + 8) bs \<inter> alloc (heap m + 8) bs2 \<and> f + 8 \<le> x \<and> x < f + t"
  then have "(f, t) \<in> alloc (heap m + 8) bs1" using assms(4) by blast
  then have "wmap m2 x = wmap m1 x" "wmap m1 x = wmap m x"
    using x assms(1-3) unfolding payload_kept_def by auto
  then show "wmap m2 x = wmap m x" by simp
qed

lemma links_mono: "set xs \<subseteq> set ys \<Longrightarrow> links xs \<subseteq> links ys"
  by (auto simp: links_def)

subsection \<open>Releasing a block\<close>

definition released :: "int \<Rightarrow> mm \<Rightarrow> mm option" where
  "released block m = do {
     m \<leftarrow> update_word (\<lambda>w. w AND NOT 1) (size_node block) m;
     w \<leftarrow> load m (size_node block);
     let sz = block_size w;
     m \<leftarrow> store m (words block sz - 8) sz;
     m \<leftarrow> update_word (\<lambda>w. w AND NOT 2) (words block sz) m;
     add_to_free_list block m
   }"

lemma mm_free_released: "ptr \<noteq> 0 \<Longrightarrow> mm_free ptr m = do { m \<leftarrow> released (ptr - 8) m; coalesce (ptr - 8) m }"
  unfolding mm_free_def released_def Let_def by (simp add: bind_assoc)

text \<open>All words between two mapped ones.\<close>

lemma view_between:
  assumes "view m lo brk mx f w" "w b \<noteq> None" "w c \<noteq> None" "x mod 8 = 0" "b \<le> x" "x \<le> c"
  shows "w x \<noteq> None"
proof -
  have "mapped m b 8" "mapped m c 8" using assms(1-3) wmap_mapped [of m b] wmap_mapped [of m c] by (auto simp: view_def)
  then have "mapped m x 8" using assms(5,6) by (simp add: mapped_def)
  then show ?thesis using assms(1,4) wmap_mapped [of m x] by (simp add: view_def)
qed

lemma released_spec:
  assumes v: "view m lo brk mx (hd (fl @ [0])) w" and sh: "shape lo w (xs @ (s, True) # ys) fl"
    and lo: "0 \<le> lo" "lo mod 16 = 0" "lo + 16 + extent (xs @ (s, True) # ys) < 2 ^ 62"
  defines "b \<equiv> lo + 8 + extent xs"
  obtains m' w' where "released b m = Some m'" "view m' lo brk mx (hd ((b # fl) @ [0])) w'"
    "shape lo w' (xs @ (s, False) # ys) (b # fl)"
    "\<And>x. x \<notin> region (lo + 8) (xs @ (s, False) # ys) (b # fl) \<Longrightarrow> w' x = w x"
proof -
  let ?a = "lo + 8" and ?p = "last_al True xs" and ?new = "xs @ (s, False) # ys"
  have ok: "sizes_ok (xs @ (s, True) # ys)" using shape_size [OF sh] .
  then have ok1: "sizes_ok xs" "sizes_ok ys" "32 \<le> s" "s mod 16 = 0" and okn: "sizes_ok ?new" by auto
  have a8: "?a mod 16 = 8" using lo(2) by presburger
  note nfs = free_starts_split [OF ok a8, folded b_def]
  have ext: "0 \<le> extent xs" "0 \<le> extent ys" using extent_bounds ok1 by blast+
  have s64: "s < 2 ^ 64" "0 \<le> s" "s mod 8 = 0" using lo ext ok1 by (simp, simp, presburger)
  have adr: "addrs fl" using shape_addrs [OF sh lo] .
  have blk: "seg w ?a True xs" "block_ok w b ?p (s, True)" "blocks w (b + s) True ys"
    using sh by (simp_all add: shape_def blocks_append b_def add.assoc)
  have fs: "free_starts ?a ?new = insert b (free_starts ?a xs \<union> free_starts (b + s) ys)"
    "set fl = free_starts ?a xs \<union> free_starts (b + s) ys"
    using sh by (auto simp: shape_def free_starts_append b_def add.assoc)
  then have nb: "b \<notin> set fl" using nfs by blast
  have wb: "w b = Some (hdr s True ?p)" and wn: "w (b + s) = Some (first_hdr True ys)"
    using blk(2) blocks_first [OF blk(3)] by (simp_all add: block_ok_def)
  have b8: "x mod 8 = 0" if "x \<in> {b, b + 8, b + 16, b + s - 8}" for x
    using nfs(3) s64(3) that by auto presburger+
  have some: "w x \<noteq> None" if "x \<in> {b, b + 8, b + 16, b + s - 8}" for x
    using view_between [OF v _ _ b8 [OF that], of b "b + s"] that wb wn ok1(3) by auto
  obtain m1 where m1: "update_word (\<lambda>w. w AND NOT 1) b m = Some m1" "view m1 lo brk mx (hd (fl @ [0])) (w(b \<mapsto> hdr s False ?p))"
    using view_update [OF v wb, of "\<lambda>w. w AND NOT 1"] hdr_facts(5) [OF ok1(4)] by metis
  let ?w1 = "w(b \<mapsto> hdr s False ?p)"
  have l1: "load m1 b = Some (hdr s False ?p)" using view_load [OF m1(2)] by simp
  obtain m2 where m2: "store m1 (b + s - 8) (word_of_int s) = Some m2"
    "view m2 lo brk mx (hd (fl @ [0])) (?w1(b + s - 8 \<mapsto> word_of_int s))"
  proof -
    have "?w1 (b + s - 8) \<noteq> None" using some [of "b + s - 8"] ok1(3) by simp
    then show ?thesis using that view_store [OF m1(2)] by blast
  qed
  let ?w2 = "?w1(b + s - 8 \<mapsto> word_of_int s)" and ?w3 = "w(b \<mapsto> hdr s False ?p, b + s - 8 \<mapsto> word_of_int s, b + s \<mapsto> first_hdr False ys)"
  have "?w2 (b + s) = Some (first_hdr True ys)" using wn ok1(3) by simp
  then obtain m3 where m3: "update_word (\<lambda>w. w AND NOT 2) (b + s) m2 = Some m3" "view m3 lo brk mx (hd (fl @ [0])) ?w3"
    using view_update [OF m2(2), of "b + s" "first_hdr True ys" "\<lambda>w. w AND NOT 2"] first_hdr_facts(2) [OF ok1(2), of True] by metis
  have blocks3: "blocks ?w3 ?a True ?new"
  proof -
    have "x < b" if "x \<in> meta ?a xs" for x using meta_bounds [OF ok1(1) that] b_def by simp
    then have "seg ?w3 ?a True xs" using blk(1) seg_cong [of ?a xs ?w3 w True] ok1(3) by fastforce
    moreover have "block_ok ?w3 b ?p (s, False)" using ok1 by (simp add: block_ok_def)
    moreover have "b + s \<le> x" if "x \<in> insert (b + s + extent ys) (meta (b + s) ys)" for x
      using that meta_bounds [OF ok1(2), of x "b + s"] ext by auto
    then have "blocks ?w3 (b + s) False ys"
      using ok1(3) by (intro blocks_retag [OF blk(3)]) (simp, fastforce)
    ultimately show ?thesis by (simp add: blocks_append b_def add.assoc)
  qed
  have inreg: "{b, b + s - 8, b + s} \<subseteq> insert (?a + extent ?new) (meta ?a ?new)"
    using meta_first [OF ok1(2), of "b + s"] by (auto simp: meta_append b_def add.assoc)
  have sub: "set fl \<subseteq> free_starts ?a ?new" using fs by auto
  have "x \<notin> links fl" if "x \<in> {b, b + s - 8, b + s}" for x using links_interior [OF okn _ sub] inreg that by blast
  then have d3: "dll ?w3 0 fl 0" using sh by (simp add: shape_def dll_upd)
  have "b < 2 ^ 63" "0 < b" using lo ext ok1(3) by (simp_all add: b_def)
  then have adr3: "addrs (b # fl)" using adr nb nfs(3) by (simp add: addrs_Cons)
  have "?w3 (b + 8) \<noteq> None" "?w3 (b + 16) \<noteq> None" using some [of "b + 8"] some [of "b + 16"] by auto
  then obtain m4 w4 where m4: "add_to_free_list b m3 = Some m4" "view m4 lo brk mx b w4"
    "dll w4 0 (b # fl) 0" "\<And>x. x \<notin> links (b # fl) \<Longrightarrow> w4 x = ?w3 x"
    using view_add [OF m3(2) d3 adr3] by blast
  have fsn: "set (b # fl) = free_starts ?a ?new" using fs by auto
  then have "blocks w4 ?a True ?new" using blocks_links [OF blocks3 _ m4(4)] by blast
  then have "shape lo w4 ?new (b # fl)" using m4(3) fsn adr3 by (simp add: shape_def addrs_def)
  moreover have "released b m = Some m4"
    using m1(1) l1 m2(1) m3(1) m4(1) hdr_facts(1) [OF ok1(4)] words_size [OF s64(2,1,3)]
    by (simp add: released_def)
  moreover have "w4 x = w x" if "x \<notin> region ?a ?new (b # fl)" for x
  proof -
    have "x \<notin> {b, b + s - 8, b + s}" "x \<notin> links (b # fl)" using that inreg by (auto simp: region_def)
    then show ?thesis using m4(4) by simp
  qed
  ultimately show ?thesis using that m4(2) by simp
qed

subsection \<open>Coalescing\<close>

text \<open>A neighbour that takes part in the merge.\<close>

definition neighbour :: "blk list \<Rightarrow> bool" where
  "neighbour bs \<longleftrightarrow> bs = [] \<or> (\<exists>t. bs = [(t, False)])"

lemma neighbour_simps: "neighbour []" "neighbour [(t, al)] \<longleftrightarrow> \<not> al"
  by (auto simp: neighbour_def)

definition without :: "int \<Rightarrow> blk list \<Rightarrow> int list \<Rightarrow> int list" where
  "without x n fl = (if n = [] then fl else remove1 x fl)"

text \<open>One merge step: a free neighbour leaves the free list and its size is read.\<close>

lemma absorb:
  assumes v: "view m lo brk mx (hd (fl @ [0])) w" and d: "dll w 0 fl 0" and a: "addrs fl"
    and x: "x \<in> set fl" "w x = Some (hdr t False p)" "t mod 16 = 0" "x \<notin> links fl"
  obtains m' w' where "remove_from_free_list x m = Some m'" "load m' x = Some (hdr t False p)"
    "view m' lo brk mx (hd (remove1 x fl @ [0])) w'" "dll w' 0 (remove1 x fl) 0" "addrs (remove1 x fl)"
    "\<And>y. y \<notin> links fl \<Longrightarrow> w' y = w y"
proof -
  obtain m' w' where m': "remove_from_free_list x m = Some m'" "view m' lo brk mx (hd (remove1 x fl @ [0])) w'"
    "dll w' 0 (remove1 x fl) 0" "addrs (remove1 x fl)" "\<And>y. y \<notin> links fl \<Longrightarrow> w' y = w y"
    using remove_free [OF v d a x(1)] by blast
  have "load m' x = Some (hdr t False p)" using view_load [OF m'(2)] m'(5) x by simp
  then show ?thesis using that m' by blast
qed

lemma links_without: "links (without x n fl) \<subseteq> links fl"
  unfolding without_def using links_mono [OF set_remove1_subset] by simp

end
