(* ===== verification/Mm_Coalesce.thy ===== *)
theory Mm_Coalesce
  imports Mm_Free
begin

unbundle bit_operations_syntax

text \<open>
  \<open>coalesce\<close> in its three steps, and \<open>free\<close> as a whole. The bound \<open>mm_heap_hi - 56\<close> keeps
  \<open>coalesce\<close> from merging a last block of fewer than 64 bytes: \<open>free\<close> leaves no adjacent free blocks
  exactly when there is no such free block behind the one freed (\<open>end_ok\<close>).
\<close>

subsection \<open>The steps of coalesce\<close>

definition merge_prev :: "int \<Rightarrow> mm \<Rightarrow> (u64 \<times> u64 \<times> int \<times> mm) option" where
  "merge_prev block m = do {
     w \<leftarrow> load m (size_node block);
     let current = block_size w;
     let prev_free = (w AND 2 = 0);
     prev_footer \<leftarrow> load m (block - 8);
     let prev_size = block_size prev_footer;
     let prev_header = block - 8 * uint (prev_size div 8);
     (if prev_free \<and> prev_header \<ge> mm_heap_lo m + 8 \<and> prev_header < mm_heap_hi m - 56
      then do {
        m \<leftarrow> remove_from_free_list prev_header m;
        w \<leftarrow> load m (size_node prev_header);
        Some (current, current + block_size w, prev_header, m)
      } else Some (current, current, block, m))
   }"

definition merge_next :: "int \<Rightarrow> u64 \<Rightarrow> mm \<Rightarrow> (u64 \<times> mm) option" where
  "merge_next next_header merged_size m = do {
     next_free \<leftarrow>
       (if next_header \<ge> mm_heap_lo m + 8 \<and> next_header < mm_heap_hi m - 56
        then map_option (\<lambda>w. w AND 1 = 0) (load m next_header) else Some False);
     (if next_free
      then do {
        m \<leftarrow> remove_from_free_list next_header m;
        w \<leftarrow> load m (size_node next_header);
        Some (merged_size + block_size w, m)
      } else Some (merged_size, m))
   }"

definition finish_merge :: "int \<Rightarrow> u64 \<Rightarrow> u64 \<Rightarrow> int \<Rightarrow> mm \<Rightarrow> mm option" where
  "finish_merge block current merged_size merged_block m =
     (if merged_size \<noteq> current then do {
        m \<leftarrow> remove_from_free_list block m;
        m \<leftarrow> store m (size_node merged_block) merged_size;
        m \<leftarrow> update_word (\<lambda>w. w XOR 2) (size_node merged_block) m;
        m \<leftarrow> store m (words merged_block merged_size - 8) merged_size;
        add_to_free_list merged_block m
      } else Some m)"

lemma bind_if: "Option.bind (if c then x else y) f = (if c then Option.bind x f else Option.bind y f)"
  by simp

lemma coalesce_steps:
  "coalesce block m = do {
     (current, merged_size, merged_block, m) \<leftarrow> merge_prev block m;
     (merged_size, m) \<leftarrow> merge_next (words block current) merged_size m;
     finish_merge block current merged_size merged_block m
   }"
  unfolding coalesce_def merge_prev_def merge_next_def finish_merge_def Let_def
  by (simp add: bind_assoc bind_if split_def cong: if_cong)

text \<open>A state with its free list, and the blocks it is read on.\<close>

definition lists :: "mm \<Rightarrow> int \<Rightarrow> int \<Rightarrow> int \<Rightarrow> int list \<Rightarrow> (int \<rightharpoonup> u64) \<Rightarrow> bool" where
  "lists m lo brk mx fl w \<longleftrightarrow> view m lo brk mx (hd (fl @ [0])) w \<and> dll w 0 fl 0 \<and> addrs fl"

definition tiled :: "int \<Rightarrow> int \<Rightarrow> int list \<Rightarrow> (int \<rightharpoonup> u64) \<Rightarrow> blk list \<Rightarrow> bool" where
  "tiled lo brk fl w bs \<longleftrightarrow> blocks w (lo + 8) True bs \<and> set fl \<subseteq> free_starts (lo + 8) bs \<and>
     brk = lo + 16 + extent bs \<and> 0 \<le> lo \<and> lo mod 16 = 0 \<and> brk < 2 ^ 62"

lemma tiled_links: "tiled lo brk fl w bs \<Longrightarrow> (\<And>y. y \<notin> links fl \<Longrightarrow> w' y = w y) \<Longrightarrow> tiled lo brk fl w' bs"
  unfolding tiled_def using blocks_links by blast

lemma tiled_sub: "tiled lo brk fl w bs \<Longrightarrow> set fl' \<subseteq> set fl \<Longrightarrow> tiled lo brk fl' w bs"
  unfolding tiled_def by blast

lemma tiled_sizes: "tiled lo brk fl w bs \<Longrightarrow> sizes_ok bs"
  unfolding tiled_def using blocks_sizes by blast

text \<open>The block at a place in the sequence.\<close>

lemma tiled_block:
  assumes t: "tiled lo brk fl w (xs @ (s, al) # ys)"
  defines "b \<equiv> lo + 8 + extent xs"
  shows "w b = Some (hdr s al (last_al True xs))" "\<not> al \<Longrightarrow> w (b + s - 8) = Some (word_of_int s)" "b \<notin> links fl"
    "32 \<le> s" "s mod 16 = 0" "lo + 8 \<le> b" "b + s + 8 + extent ys = brk" "0 \<le> extent ys" "b mod 16 = 8"
    "words b (word_of_int s) = b + s" "0 \<le> s" "s < 2 ^ 62"
proof -
  let ?bs = "xs @ (s, al) # ys" and ?a = "lo + 8"
  have blk: "blocks w ?a True ?bs" and sub: "set fl \<subseteq> free_starts ?a ?bs" and lo: "brk = lo + 16 + extent ?bs" "0 \<le> lo"
    "lo mod 16 = 0" "brk < 2 ^ 62" using t by (auto simp: tiled_def)
  have ok: "sizes_ok ?bs" using blocks_sizes [OF blk] .
  have bo: "block_ok w b (last_al True xs) (s, al)" using blk by (simp add: blocks_append b_def)
  then show "w b = Some (hdr s al (last_al True xs))" "\<not> al \<Longrightarrow> w (b + s - 8) = Some (word_of_int s)"
    and s: "32 \<le> s" "s mod 16 = 0" by (auto simp: block_ok_def)
  have "b \<in> meta ?a ?bs" by (simp add: meta_append b_def)
  then show "b \<notin> links fl" using links_interior(1) [OF ok _ sub] by blast
  have e: "0 \<le> extent xs" "extent xs mod 16 = 0" "0 \<le> extent ys" using ok extent_bounds [of xs] extent_bounds [of ys] by simp_all
  then show le: "lo + 8 \<le> b" "b + s + 8 + extent ys = brk" "0 \<le> extent ys" using lo(1) by (simp_all add: b_def)
  show "b mod 16 = 8" using e(2) lo(3) unfolding b_def by presburger
  show "0 \<le> s" "s < 2 ^ 62" using s le lo by simp_all
  have "s mod 8 = 0" using s(2) by presburger
  then show "words b (word_of_int s) = b + s" using \<open>0 \<le> s\<close> \<open>s < 2 ^ 62\<close> by (intro words_size) simp_all
qed

subsection \<open>The block before\<close>

lemma merge_prev_spec:
  assumes l: "lists m lo brk mx fl w" and t: "tiled lo brk fl w (pre @ prevs @ (s, False) # rest)"
    and n: "neighbour prevs" "prevs = [] \<Longrightarrow> last_al True pre" "prevs \<noteq> [] \<Longrightarrow> lo + 8 + extent pre \<in> set fl"
  defines "c \<equiv> lo + 8 + extent pre"
  defines "fl1 \<equiv> without c prevs fl"
  obtains m1 w1 where
    "merge_prev (c + extent prevs) m = Some (word_of_int s, word_of_int (s + extent prevs), c, m1)"
    "lists m1 lo brk mx fl1 w1" "\<And>y. y \<notin> links fl \<Longrightarrow> w1 y = w y"
proof -
  let ?b = "c + extent prevs"
  have v: "view m lo brk mx (hd (fl @ [0])) w" and d: "dll w 0 fl 0" and a: "addrs fl" using l by (simp_all add: lists_def)
  have hi: "mm_heap_hi m = brk - 1" "mm_heap_lo m = lo" using v by (simp_all add: view_def mm_heap_hi_def mm_heap_lo_def)
  note tb = tiled_block [of lo brk fl w "pre @ prevs" s False rest, unfolded append_assoc, OF t]
  have bb: "lo + 8 + extent (pre @ prevs) = ?b" by (simp add: c_def)
  note tb = tb [unfolded bb]
  have lb: "load m ?b = Some (hdr s False (last_al True (pre @ prevs)))" using view_load [OF v tb(1)] .
  show ?thesis
  proof (cases "prevs = []")
    case True
    have al: "last_al True (pre @ prevs)" using n(2) True by simp
    have "mapped m (?b - 8) 8"
    proof -
      have "mapped m ?b 8" using tb(1) v wmap_mapped [of m ?b] by (simp add: view_def)
      then show ?thesis using tb(6) v by (simp add: mapped_def view_def)
    qed
    then obtain u where u: "load m (?b - 8) = Some u" using load_total by blast
    have "merge_prev ?b m = Some (word_of_int s, word_of_int s, ?b, m)"
      using lb u al hdr_facts(1,2) [OF tb(5)] by (simp add: merge_prev_def Let_def)
    then show ?thesis using that [of m w] l True by (simp add: fl1_def without_def)
  next
    case False
    then obtain t' where p: "prevs = [(t', False)]" using n(1) by (auto simp: neighbour_def)
    note tp = tiled_block [of lo brk fl w pre t' False "(s, False) # rest", folded c_def]
    note tp = tp [OF t [unfolded p append_Cons append_Nil]]
    have cfl: "c \<in> set fl" using n(3) False by (simp add: c_def)
    obtain m1 w1 where m1: "remove_from_free_list c m = Some m1" "load m1 c = Some (hdr t' False (last_al True pre))"
      "view m1 lo brk mx (hd (remove1 c fl @ [0])) w1" "dll w1 0 (remove1 c fl) 0" "addrs (remove1 c fl)"
      "\<And>y. y \<notin> links fl \<Longrightarrow> w1 y = w y"
      using absorb [OF v d a cfl tp(1) tp(5) tp(3)] by blast
    have b: "?b = c + t'" using p by simp
    have foot: "load m (?b - 8) = Some (hdr t' False False)" using view_load [OF v tp(2)] b hdr_facts(7) [OF tp(5)] by simp
    have bw: "?b - 8 * uint (word_of_int t' div 8 :: u64) = c" using tp(10) b by (simp add: words_def)
    have bounds: "c \<ge> lo + 8" "c < brk - 1 - 56"
      using tp(4,6,7) tb(4,8) b tp(8) by (simp_all)
    have "merge_prev ?b m = Some (word_of_int s, word_of_int s + word_of_int t', c, m1)"
    proof -
      have "\<not> last_al True (pre @ prevs)" using p by simp
      then have "hdr s False (last_al True (pre @ prevs)) AND 2 = 0" using hdr_facts(2) [OF tb(5)] by simp
      moreover have "lo + 8 \<le> c \<and> c < brk - 1 - 56" using bounds by simp
      ultimately show ?thesis
        unfolding merge_prev_def Let_def
        by (simp only: lb foot bw hi m1(1,2) hdr_facts(1) [OF tb(5)] hdr_facts(1) [OF tp(5)] bind.bind_lunit
            simp_thms if_True)
    qed
    moreover have "extent prevs = t'" "fl1 = remove1 c fl" using p by (simp_all add: fl1_def without_def)
    moreover have "word_of_int s + word_of_int t' = (word_of_int (s + t') :: u64)" by simp
    moreover have "lists m1 lo brk mx (remove1 c fl) w1" using m1 by (simp add: lists_def)
    ultimately show ?thesis using that m1(6) by metis
  qed
qed

subsection \<open>The block behind\<close>

text \<open>What lies behind a block that is not merged with what follows: nothing, an allocated block, or a small last one.\<close>

definition unmerged :: "blk list \<Rightarrow> bool" where
  "unmerged post \<longleftrightarrow> post = [] \<or> snd (hd post) \<or> (\<exists>u < 64. post = [(u, False)])"

lemma merge_next_spec:
  assumes l: "lists m lo brk mx fl w" and t: "tiled lo brk fl w (xs @ nexts @ post)"
    and n: "neighbour nexts" "nexts = [] \<Longrightarrow> unmerged post" "nexts \<noteq> [] \<Longrightarrow> lo + 8 + extent xs \<in> set fl"
    and big: "\<And>u. nexts = [(u, False)] \<Longrightarrow> post = [] \<Longrightarrow> 64 \<le> u"
  defines "c \<equiv> lo + 8 + extent xs"
  defines "fl1 \<equiv> without c nexts fl"
  obtains m1 w1 where
    "merge_next c ms m = Some (ms + word_of_int (extent nexts), m1)"
    "lists m1 lo brk mx fl1 w1" "\<And>y. y \<notin> links fl \<Longrightarrow> w1 y = w y"
proof -
  have v: "view m lo brk mx (hd (fl @ [0])) w" and d: "dll w 0 fl 0" and a: "addrs fl" using l by (simp_all add: lists_def)
  have hi: "mm_heap_hi m = brk - 1" "mm_heap_lo m = lo" using v by (simp_all add: view_def mm_heap_hi_def mm_heap_lo_def)
  have tot: "c + extent (nexts @ post) + 8 = brk" using t by (simp add: tiled_def c_def)
  show ?thesis
  proof (cases "nexts = []")
    case True
    have "c < brk - 1 - 56 \<Longrightarrow> map_option (\<lambda>w. w AND 1 = 0) (load m c) = Some False"
    proof -
      assume "c < brk - 1 - 56"
      moreover have "sizes_ok post" using tiled_sizes [OF t] by simp
      then have "u \<le> 48" if "u < 64" "post = [(u, False)]" for u using that by auto
      ultimately obtain u post' where p: "post = (u, True) # post'"
        using n(2) True tot by (cases post) (force simp: unmerged_def)+
      note tb = tiled_block [of lo brk fl w xs u True post', folded c_def, OF t [unfolded True p append_Nil]]
      then show ?thesis using view_load [OF v tb(1)] hdr_facts(3) [OF tb(5)] by simp
    qed
    then have "merge_next c ms m = Some (ms, m)"
      unfolding merge_next_def hi by (cases "lo + 8 \<le> c \<and> c < brk - 1 - 56") (simp_all only: bind.bind_lunit if_False if_True simp_thms)
    then show ?thesis using that [of m w] l True by (simp add: fl1_def without_def)
  next
    case False
    then obtain u where p: "nexts = [(u, False)]" using n(1) by (auto simp: neighbour_def)
    note tb = tiled_block [of lo brk fl w xs u False post, folded c_def]
    note tb = tb [OF t [unfolded p append_Cons append_Nil]]
    have cfl: "c \<in> set fl" using n(3) False by (simp add: c_def)
    obtain m1 w1 where m1: "remove_from_free_list c m = Some m1" "load m1 c = Some (hdr u False (last_al True xs))"
      "view m1 lo brk mx (hd (remove1 c fl @ [0])) w1" "dll w1 0 (remove1 c fl) 0" "addrs (remove1 c fl)"
      "\<And>y. y \<notin> links fl \<Longrightarrow> w1 y = w y"
      using absorb [OF v d a cfl tb(1) tb(5) tb(3)] by blast
    have "c < brk - 1 - 56"
    proof (cases "post = []")
      case True
      then show ?thesis using big [of u] p tb(7) by simp
    next
      case False
      have "sizes_ok post" using tiled_sizes [OF t] by simp
      then have "32 \<le> extent post" using False by (cases post) (auto dest: extent_bounds)
      then show ?thesis using tb(4,7) by simp
    qed
    then have "merge_next c ms m = Some (ms + word_of_int u, m1)"
      unfolding merge_next_def Let_def
      using hi tb(6) view_load [OF v tb(1)] m1(1,2) hdr_facts(1,3) [OF tb(5)] by simp
    then show ?thesis using that [of m1 w1] m1 p by (simp add: lists_def fl1_def without_def)
  qed
qed

subsection \<open>The merged block\<close>

text \<open>The addresses at both ends of a row of free blocks hold a header and a footer.\<close>

lemma row_ends:
  assumes "mids \<noteq> []" "\<forall>x \<in> set mids. \<not> snd x"
  shows "a + extent pre \<in> meta a (pre @ mids @ post)" "a + extent pre + extent mids - 8 \<in> meta a (pre @ mids @ post)"
proof -
  obtain x xs where "mids = x # xs" using assms(1) by (cases mids) auto
  then show "a + extent pre \<in> meta a (pre @ mids @ post)" by (simp add: meta_append)
  obtain ys y where y: "mids = ys @ [y]" using assms(1) by (cases mids rule: rev_cases) auto
  then have "\<not> snd y" using assms(2) by simp
  then show "a + extent pre + extent mids - 8 \<in> meta a (pre @ mids @ post)" using y by (simp add: meta_append algebra_simps)
qed

lemma finish_spec:
  assumes l: "lists m lo brk mx fl w" and t: "tiled lo brk fl w (pre @ mids @ post)"
    and mids: "mids \<noteq> []" "\<forall>x \<in> set mids. \<not> snd x" "last_al True pre"
    and b: "b \<in> set fl" "set (remove1 b fl) = free_starts (lo + 8) pre \<union> free_starts (lo + 8 + extent pre + extent mids) post"
    and cur: "word_of_int (extent mids) \<noteq> cur"
  defines "c \<equiv> lo + 8 + extent pre" and "M \<equiv> extent mids"
  obtains m' w' where "finish_merge b cur (word_of_int M) c m = Some m'"
    "lists m' lo brk mx (c # remove1 b fl) w'" "blocks w' (lo + 8) True (pre @ (M, False) # post)"
    "\<And>x. x \<notin> links fl \<Longrightarrow> x \<notin> {c, c + 8, c + 16, c + M - 8} \<Longrightarrow> w' x = w x"
proof -
  let ?fl = "remove1 b fl" and ?a = "lo + 8" and ?new = "pre @ (M, False) # post" and ?bs = "pre @ mids @ post"
  have v: "view m lo brk mx (hd (fl @ [0])) w" and d: "dll w 0 fl 0" and a: "addrs fl" using l by (simp_all add: lists_def)
  have blk: "blocks w ?a True ?bs" and sub: "set fl \<subseteq> free_starts ?a ?bs" and lo: "brk = lo + 16 + extent ?bs" "0 \<le> lo"
    "lo mod 16 = 0" "brk < 2 ^ 62" using t by (auto simp: tiled_def)
  have ok: "sizes_ok ?bs" using tiled_sizes [OF t] .
  then have oks: "sizes_ok pre" "sizes_ok mids" "sizes_ok post" by auto
  have ext: "0 \<le> extent pre" "extent pre mod 16 = 0" "0 \<le> extent post" "M mod 16 = 0"
    using extent_bounds oks by (auto simp: M_def)
  have M: "32 \<le> M" using mids(1) oks(2) extent_bounds [of "tl mids"] by (cases mids) (auto simp: M_def)
  have "lo + 16 + extent (pre @ (M, False) # post) = brk" using lo(1) by (simp add: M_def)
  have Mb: "0 \<le> M" "M < 2 ^ 64" "M mod 8 = 0" using M lo ext by (simp, simp add: M_def, presburger)
  have okn: "sizes_ok ?new" using oks M ext by simp
  have c8: "c mod 16 = 8" "0 < c" "c < 2 ^ 63" using ext lo M unfolding c_def M_def by (presburger, simp, simp)
  have wM: "words c (word_of_int M) = c + M" using words_size [OF Mb] .
  have ends: "c \<in> meta ?a ?bs" "c + M - 8 \<in> meta ?a ?bs" using row_ends [OF mids(1,2), of ?a pre post] by (simp_all add: c_def M_def)
  obtain m1 w1 where m1: "remove_from_free_list b m = Some m1" "view m1 lo brk mx (hd (?fl @ [0])) w1"
    "dll w1 0 ?fl 0" "addrs ?fl" "\<And>x. x \<notin> links fl \<Longrightarrow> w1 x = w x"
    using remove_free [OF v d a b(1)] by blast
  have fresh: "x \<notin> links fl" if "x \<in> insert (?a + extent ?bs) (meta ?a ?bs)" for x
    using links_interior [OF ok _ sub] that by blast
  have keep: "w1 x = w x" if "x \<in> insert (?a + extent ?bs) (meta ?a ?bs)" for x
    using m1(5) [OF fresh [OF that]] .
  have blk1: "blocks w1 ?a True ?bs" using blk blocks_cong [of ?a ?bs w1 w True] keep by simp
  then have "seg w1 ?a True pre" and seg: "seg w1 c True mids" and post: "blocks w1 (c + M) False post"
  proof -
    have "\<not> last_al True mids" using mids(1,2) by (cases mids rule: rev_cases) auto
    then show "seg w1 ?a True pre" "seg w1 c True mids" "blocks w1 (c + M) False post"
      using blk1 mids(3) by (simp_all add: blocks_append c_def M_def)
  qed
  obtain x xs where "mids = x # xs" using mids(1) by (cases mids) auto
  then have wc: "w1 c \<noteq> None" using seg by (auto simp: block_ok_def)
  have wend: "w1 (c + M) \<noteq> None" using blocks_first [OF post] by simp
  have some: "w1 x \<noteq> None" if "x \<in> {c + 8, c + 16, c + M - 8}" for x
  proof -
    have "x mod 8 = 0" using that c8(1) Mb(3) by auto presburger+
    then show ?thesis using view_between [OF m1(2) wc wend] that M by auto
  qed
  let ?h = "hdr M False True" and ?hz = "hdr M False False"
  obtain m2 where m2: "store m1 c ?hz = Some m2" "view m2 lo brk mx (hd (?fl @ [0])) (w1(c \<mapsto> ?hz))"
    using view_store [OF m1(2) wc] by blast
  obtain m3 where m3: "update_word (\<lambda>w. w XOR 2) c m2 = Some m3" "view m3 lo brk mx (hd (?fl @ [0])) (w1(c \<mapsto> ?h))"
    using view_update [OF m2(2), of c ?hz "\<lambda>w. w XOR 2"] hdr_facts(4) [OF ext(4)] by auto
  let ?w4 = "w1(c \<mapsto> ?h, c + M - 8 \<mapsto> word_of_int M)"
  have "(w1(c \<mapsto> ?h)) (c + M - 8) \<noteq> None" using some M by simp
  then obtain m4 where m4: "store m3 (c + M - 8) (word_of_int M) = Some m4" "view m4 lo brk mx (hd (?fl @ [0])) ?w4"
    using view_store [OF m3(2)] by blast
  have links_fl: "links ?fl \<subseteq> links fl" by (rule links_mono [OF set_remove1_subset])
  have "c \<notin> links ?fl" "c + M - 8 \<notin> links ?fl" using fresh ends links_fl by blast+
  then have d4: "dll ?w4 0 ?fl 0" using m1(3) by (simp add: dll_upd)
  have nc: "c \<notin> set ?fl"
  proof -
    have "?a mod 16 = 8" "(c + M) mod 16 = 8" using lo(3) c8(1) ext(4) by presburger+
    then have "c \<notin> free_starts ?a pre" "c \<notin> free_starts (c + M) post"
      using free_starts_bounds [OF oks(1), of c ?a] free_starts_bounds [OF oks(3), of c "c + M"] M by (auto simp: c_def)
    then show ?thesis using b(2) by (simp add: c_def M_def)
  qed
  then have ad: "addrs (c # ?fl)" using m1(4) c8 by (simp add: addrs_Cons)
  have "?w4 (c + 8) \<noteq> None" "?w4 (c + 16) \<noteq> None" using some by auto
  then obtain m5 w5 where m5: "add_to_free_list c m4 = Some m5" "view m5 lo brk mx c w5" "dll w5 0 (c # ?fl) 0"
    "\<And>x. x \<notin> links (c # ?fl) \<Longrightarrow> w5 x = ?w4 x"
    using view_add [OF m4(2) d4 ad] by blast
  have "blocks ?w4 ?a True ?new"
  proof -
    have "x < c" if "x \<in> meta ?a pre" for x using meta_bounds [OF oks(1) that] c_def by simp
    then have "seg ?w4 ?a True pre" using \<open>seg w1 ?a True pre\<close> seg_cong [of ?a pre ?w4 w1 True] M by fastforce
    moreover have "block_ok ?w4 c True (M, False)" using M ext by (simp add: block_ok_def)
    moreover have "c + M \<le> x" if "x \<in> insert (c + M + extent post) (meta (c + M) post)" for x
      using that meta_bounds [OF oks(3), of x "c + M"] ext by auto
    then have "blocks ?w4 (c + M) False post" using post blocks_cong [of "c + M" post ?w4 w1 False] M by fastforce
    ultimately show ?thesis using mids(3) by (simp add: blocks_append c_def add.assoc)
  qed
  moreover have "set (c # ?fl) = free_starts ?a ?new"
    using b(2) by (auto simp: free_starts_append c_def M_def add.assoc)
  ultimately have "blocks w5 ?a True ?new" using blocks_links m5(4) by blast
  moreover have "finish_merge b cur (word_of_int M) c m = Some m5"
    using cur m1(1) m2(1) m3(1) m4(1) m5(1) wM hdr_facts(7) [OF ext(4)] by (simp add: finish_merge_def M_def)
  moreover have "w5 x = w x" if "x \<notin> links fl" "x \<notin> {c, c + 8, c + 16, c + M - 8}" for x
    using that m5(4) [of x] m1(5) links_fl by auto
  moreover have "lists m5 lo brk mx (c # ?fl) w5" using m5(2,3) ad by (simp add: lists_def)
  ultimately show ?thesis using that by blast
qed

subsection \<open>coalesce\<close>

lemma set_without: "distinct fl \<Longrightarrow> set (without x n fl) = set fl - (if n = [] then {} else {x})"
  by (simp add: without_def)

lemma addrs_without: "addrs fl \<Longrightarrow> addrs (without x n fl)"
  using set_remove1_subset [of x fl] by (auto simp: without_def addrs_def odd8_def)

text \<open>The starts of the blocks that are left out of the free list.\<close>

lemma row_starts:
  assumes ok: "sizes_ok (pre @ prevs @ (s, False) # nexts @ post)" and n: "neighbour prevs" "neighbour nexts"
    and a: "a mod 16 = 8"
  defines "c \<equiv> a + extent pre" and "b \<equiv> a + extent pre + extent prevs"
  shows "free_starts a (pre @ prevs @ (s, False) # nexts @ post) =
      free_starts a pre \<union> (if prevs = [] then {} else {c}) \<union> {b} \<union> (if nexts = [] then {} else {b + s}) \<union>
      free_starts (b + s + extent nexts) post"
    "{c, b, b + s} \<inter> (free_starts a pre) = {}" "{c, b} \<inter> free_starts (b + s + extent nexts) post = {}"
    "nexts \<noteq> [] \<Longrightarrow> b + s \<notin> free_starts (b + s + extent nexts) post" "prevs \<noteq> [] \<Longrightarrow> c \<noteq> b" "b \<noteq> b + s" "c \<noteq> b + s"
proof -
  have oks: "sizes_ok pre" "sizes_ok prevs" "sizes_ok nexts" "sizes_ok post" "32 \<le> s" "s mod 16 = 0" using ok by auto
  have e: "0 \<le> extent prevs" "extent prevs mod 16 = 0" "0 \<le> extent nexts" "extent nexts mod 16 = 0" "extent pre mod 16 = 0"
    using oks extent_bounds by blast+
  have pos: "prevs \<noteq> [] \<Longrightarrow> 32 \<le> extent prevs" "nexts \<noteq> [] \<Longrightarrow> 32 \<le> extent nexts"
    using n oks by (auto simp: neighbour_def)
  show "free_starts a (pre @ prevs @ (s, False) # nexts @ post) =
      free_starts a pre \<union> (if prevs = [] then {} else {c}) \<union> {b} \<union> (if nexts = [] then {} else {b + s}) \<union>
      free_starts (b + s + extent nexts) post"
    using n by (auto simp: neighbour_def free_starts_append c_def b_def algebra_simps)
  have "(b + s + extent nexts) mod 16 = 8" using a e oks(6) unfolding b_def by presburger
  then have fs: "b + s + extent nexts \<le> x" if "x \<in> free_starts (b + s + extent nexts) post" for x
    using free_starts_bounds [OF oks(4) that] by simp
  have fp: "x < c" if "x \<in> free_starts a pre" for x using free_starts_bounds [OF oks(1) that a] by (simp add: c_def)
  have cb: "c \<le> b" "b < b + s" using e oks(5) by (simp_all add: c_def b_def)
  show "{c, b, b + s} \<inter> free_starts a pre = {}" using fp [of c] fp [of b] fp [of "b + s"] cb by auto
  show "{c, b} \<inter> free_starts (b + s + extent nexts) post = {}" using fs [of c] fs [of b] cb e(3) by auto
  show "nexts \<noteq> [] \<Longrightarrow> b + s \<notin> free_starts (b + s + extent nexts) post" using fs [of "b + s"] pos(2) by auto
  show "prevs \<noteq> [] \<Longrightarrow> c \<noteq> b" using pos(1) by (auto simp: c_def b_def)
  show "b \<noteq> b + s" "c \<noteq> b + s" using cb by auto
qed

lemma coalesce_spec:
  assumes v: "view m lo brk mx (hd (fl @ [0])) w" and sh: "shape lo w bs fl"
    and bs: "bs = pre @ prevs @ (s, False) # nexts @ post"
    and lo: "0 \<le> lo" "lo mod 16 = 0" "brk = lo + 16 + extent bs" "brk < 2 ^ 62"
    and n: "neighbour prevs" "neighbour nexts" "last_al True pre" "nexts = [] \<Longrightarrow> unmerged post"
    and big: "\<And>u. nexts = [(u, False)] \<Longrightarrow> post = [] \<Longrightarrow> 64 \<le> u"
  defines "c \<equiv> lo + 8 + extent pre" and "b \<equiv> lo + 8 + extent pre + extent prevs"
    and "M \<equiv> s + extent prevs + extent nexts"
  obtains m' w' fl' where "coalesce b m = Some m'" "view m' lo brk mx (hd (fl' @ [0])) w'"
    "shape lo w' (pre @ (M, False) # post) fl'"
    "\<And>x. x \<notin> region (lo + 8) bs fl \<Longrightarrow> x \<notin> region (lo + 8) (pre @ (M, False) # post) fl' \<Longrightarrow> w' x = w x"
proof -
  let ?a = "lo + 8" and ?mids = "prevs @ (s, False) # nexts" and ?new = "pre @ (M, False) # post"
  have adr: "addrs fl" using shape_addrs [OF sh lo(1,2)] lo(3,4) by simp
  then have dist: "distinct fl" by (simp add: addrs_def)
  have l: "lists m lo brk mx fl w" using v sh adr by (simp add: lists_def shape_def)
  have t: "tiled lo brk fl w (pre @ prevs @ (s, False) # nexts @ post)" using sh lo bs by (simp add: tiled_def shape_def)
  have ok: "sizes_ok (pre @ prevs @ (s, False) # nexts @ post)" using tiled_sizes [OF t] .
  have a8: "?a mod 16 = 8" using lo(2) by presburger
  note rs = row_starts [OF ok n(1,2) a8, folded c_def b_def]
  have fl: "set fl = free_starts ?a (pre @ prevs @ (s, False) # nexts @ post)" using sh bs by (simp add: shape_def)
  have wbs: "words b (word_of_int s) = b + s" and s: "32 \<le> s" "s < 2 ^ 62"
    using tiled_block(4,10,12) [of lo brk fl w "pre @ prevs" s False "nexts @ post"] t by (simp_all add: b_def add.assoc)
  have sz: "0 \<le> extent prevs" "0 \<le> extent nexts" "M < 2 ^ 62"
    using ok extent_bounds [of prevs] extent_bounds [of nexts] extent_bounds [of pre] extent_bounds [of post] lo bs
    by (simp_all add: M_def)
  have "prevs \<noteq> [] \<Longrightarrow> c \<in> set fl" using fl rs(1) by simp
  then obtain m1 w1 where m1: "merge_prev b m = Some (word_of_int s, word_of_int (s + extent prevs), c, m1)"
    "lists m1 lo brk mx (without c prevs fl) w1" "\<And>y. y \<notin> links fl \<Longrightarrow> w1 y = w y"
    using merge_prev_spec [OF l t n(1)] n(3) unfolding c_def b_def by metis
  let ?fl1 = "without c prevs fl"
  have s1: "set ?fl1 = set fl - (if prevs = [] then {} else {c})" using set_without [OF dist] .
  have t1: "tiled lo brk ?fl1 w1 ((pre @ prevs @ [(s, False)]) @ nexts @ post)"
    using tiled_sub [OF tiled_links [OF t m1(3)], of ?fl1] s1 by auto
  have c1: "lo + 8 + extent (pre @ prevs @ [(s, False)]) = b + s" by (simp add: b_def)
  have nf: "lo + 8 + extent (pre @ prevs @ [(s, False)]) \<in> set ?fl1" if "nexts \<noteq> []"
    unfolding c1 using that fl rs(1,7) s1 by auto
  obtain m2 w2 where mn: "merge_next (b + s) (word_of_int (s + extent prevs)) m1 =
      Some (word_of_int (s + extent prevs) + word_of_int (extent nexts), m2)"
    "lists m2 lo brk mx (without (b + s) nexts ?fl1) w2" "\<And>y. y \<notin> links ?fl1 \<Longrightarrow> w2 y = w1 y"
    by (rule merge_next_spec [OF m1(2) t1 n(2,4) nf big, unfolded c1, of "word_of_int (s + extent prevs)"]) (assumption | rule that)+
  have "word_of_int (s + extent prevs) + word_of_int (extent nexts) = (word_of_int M :: u64)" by (simp add: M_def)
  note m2 = mn [unfolded this]
  let ?fl2 = "without (b + s) nexts ?fl1"
  have dist2: "distinct ?fl1" "distinct ?fl2" using m1(2) m2(2) by (simp_all add: lists_def addrs_def)
  have s2: "set ?fl2 = set ?fl1 - (if nexts = [] then {} else {b + s})" using set_without [OF dist2(1)] .
  have sub: "links ?fl2 \<subseteq> links fl" "links ?fl1 \<subseteq> links fl" 
    using links_without [of c prevs fl] links_without [of "b + s" nexts ?fl1] by auto
  then have w2: "w2 y = w y" if "y \<notin> links fl" for y using that m1(3) [of y] m2(3) [of y] by auto
  have t2: "tiled lo brk ?fl2 w2 (pre @ prevs @ (s, False) # nexts @ post)"
    using tiled_sub [OF tiled_links [OF t w2], of ?fl2] s1 s2 by auto
  have co: "coalesce b m = finish_merge b (word_of_int s) (word_of_int M) c m2"
    using m1(1) m2(1) wbs by (simp add: coalesce_steps)
  have b2: "b \<in> set ?fl2" using fl rs(1,5,6) s1 s2 by auto
  have s3: "set (remove1 b ?fl2) = free_starts ?a pre \<union> free_starts (b + s + extent nexts) post"
  proof -
    let ?P = "if prevs = [] then {} else {c}" and ?N = "if nexts = [] then {} else {b + s}"
    let ?F = "free_starts ?a pre" and ?G = "free_starts (b + s + extent nexts) post"
    have "set (remove1 b ?fl2) = (?F \<union> ?P \<union> {b} \<union> ?N \<union> ?G) - ?P - ?N - {b}"
      unfolding set_remove1_eq [OF dist2(2)] s2 s1 fl rs(1) by (rule refl)
    moreover have "?P \<subseteq> {c}" "?P \<inter> (?F \<union> ?G) = {}" "?N \<inter> (?F \<union> ?G) = {}" "b \<notin> ?F \<union> ?G" using rs(2-4) by auto
    ultimately show ?thesis by blast
  qed
  show ?thesis
  proof (cases "prevs = [] \<and> nexts = []")
    case True
    have "coalesce b m = Some m2" using co True by (simp add: finish_merge_def M_def)
    moreover have "shape lo w2 ?new fl"
      using m2(2) t2 True fl dist by (simp add: shape_def lists_def tiled_def M_def without_def)
    moreover have "view m2 lo brk mx (hd (fl @ [0])) w2" using m2(2) True by (simp add: lists_def without_def)
    ultimately show ?thesis using that w2 by (simp add: region_def)
  next
    case False
    have ne: "s \<noteq> M"
    proof -
      have "32 \<le> extent prevs \<or> 32 \<le> extent nexts" using False n(1,2) ok by (auto simp: neighbour_def)
      then show ?thesis using sz by (auto simp: M_def)
    qed
    have M: "extent ?mids = M" by (simp add: M_def)
    have "0 \<le> M" using s sz by (simp add: M_def)
    then have "uint (word_of_int M :: u64) = M" "uint (word_of_int s :: u64) = s" using s sz(3) by (simp_all add: uint_size)
    then have cur: "(word_of_int M :: u64) \<noteq> word_of_int s" using ne by metis
    have mids: "?mids \<noteq> []" "\<forall>x \<in> set ?mids. \<not> snd x" using n(1,2) by (auto simp: neighbour_def)
    have end_c: "lo + 8 + extent pre + extent ?mids = b + s + extent nexts" by (simp add: b_def)
    have t3: "tiled lo brk ?fl2 w2 (pre @ ?mids @ post)" using t2 by simp
    have f3: "set (remove1 b ?fl2) = free_starts ?a pre \<union> free_starts (lo + 8 + extent pre + extent ?mids) post"
      using s3 by (simp only: end_c)
    have cur3: "word_of_int (extent ?mids) \<noteq> (word_of_int s :: u64)" using cur by (simp only: M not_False_eq_True)
    obtain m3 w3 where fin: "finish_merge b (word_of_int s) (word_of_int M) c m2 = Some m3"
      and m3: "lists m3 lo brk mx (c # remove1 b ?fl2) w3" "blocks w3 ?a True ?new"
        "\<And>x. x \<notin> links ?fl2 \<Longrightarrow> x \<notin> {c, c + 8, c + 16, c + M - 8} \<Longrightarrow> w3 x = w2 x"
      by (rule finish_spec [OF m2(2) t3 mids n(3) b2 f3 cur3, folded c_def, unfolded M]) (rule that)
    have co3: "coalesce b m = Some m3" using co fin by simp
    have "set (c # remove1 b ?fl2) = free_starts ?a ?new"
      using s3 by (auto simp: free_starts_append c_def b_def M_def algebra_simps)
    then have "shape lo w3 ?new (c # remove1 b ?fl2)" using m3(1,2) by (simp add: shape_def lists_def addrs_def)
    moreover have "w3 x = w x" if "x \<notin> region ?a bs fl" "x \<notin> region ?a ?new (c # remove1 b ?fl2)" for x
    proof -
      have "x \<notin> links fl" using that(1) by (simp add: region_def)
      moreover have "x \<notin> {c, c + 8, c + 16, c + M - 8}"
        using that(2) by (auto simp: region_def meta_append c_def algebra_simps)
      ultimately show ?thesis using m3(3) [of x] w2 [of x] sub(1) by auto
    qed
    moreover have "view m3 lo brk mx (hd ((c # remove1 b ?fl2) @ [0])) w3" using m3(1) by (simp add: lists_def)
    ultimately show ?thesis using that co3 by blast
  qed
qed

subsection \<open>free\<close>

lemma heap_ok_tiled: "heap_ok m bs fl \<Longrightarrow> tiled (heap m) (mem_brk m) fl (wmap m) bs"
  by (auto simp: heap_ok_def tiled_def shape_def bounds_ok_def)

text \<open>The neighbours of a block in a sequence without adjacent free blocks.\<close>

lemma split_before:
  assumes "no_adjacent True xs"
  obtains pre prevs where "xs = pre @ prevs" "neighbour prevs" "last_al True pre" "no_adjacent True pre"
proof (cases xs rule: rev_cases)
  case Nil
  then show ?thesis using that [of "[]" "[]"] by (simp add: neighbour_def)
next
  case (snoc pre x)
  then show ?thesis
    using that [of pre "[x]"] that [of xs "[]"] assms
    by (cases x; cases "snd x") (auto simp: neighbour_def no_adjacent_append)
qed

lemma split_behind:
  assumes "no_adjacent p ys"
  obtains nexts post where "ys = nexts @ post" "neighbour nexts" "no_adjacent False post"
proof (cases ys)
  case Nil
  then show ?thesis using that [of "[]" "[]"] by (simp add: neighbour_def)
next
  case (Cons y ys')
  then show ?thesis
    using that [of "[y]" ys'] that [of "[]" ys] assms by (cases y; cases "snd y") (auto simp: neighbour_def)
qed

lemma no_adjacent_False: "no_adjacent False ys \<Longrightarrow> ys = [] \<or> snd (hd ys)"
  by (cases ys) auto

lemma alloc_free: "neighbour xs \<Longrightarrow> alloc a xs = {}"
  by (auto simp: neighbour_def)

text \<open>The last block is not a free block that is too small for the bound of \<open>coalesce\<close>.\<close>

definition end_ok :: "blk list \<Rightarrow> bool" where
  "end_ok ys \<longleftrightarrow> (\<forall>u. ys = [(u, False)] \<longrightarrow> 64 \<le> u)"

definition freed_block :: "mm \<Rightarrow> blk list \<Rightarrow> int \<Rightarrow> int \<Rightarrow> mm \<Rightarrow> blk list \<Rightarrow> int list \<Rightarrow> bool" where
  "freed_block m bs p s m' bs' fl' \<longleftrightarrow> heap m' = heap m \<and> mem_max_addr m' = mem_max_addr m \<and> mem_brk m' = mem_brk m \<and>
     heap_ok m' bs' fl' \<and> alloc (heap m + 8) bs' = alloc (heap m + 8) bs - {(p - 8, s)} \<and> payload_kept m bs m' bs'"

definition freed :: "mm \<Rightarrow> blk list \<Rightarrow> int \<Rightarrow> int \<Rightarrow> mm \<Rightarrow> bool" where
  "freed m bs p s m' \<longleftrightarrow> heap m' = heap m \<and> mem_max_addr m' = mem_max_addr m \<and> mem_brk m' = mem_brk m \<and>
     (\<exists>bs' fl'. heap_ok m' bs' fl' \<and> no_adjacent True bs' \<and>
        alloc (heap m + 8) bs' = alloc (heap m + 8) bs - {(p - 8, s)} \<and> payload_kept m bs m' bs' \<and>
        (last bs' = last bs \<or> s \<le> fst (last bs')))"

lemma release_heap:
  assumes ok: "heap_ok m (xs @ (s, True) # ys) fl"
  defines "b \<equiv> heap m + 8 + extent xs"
  obtains m' where "released b m = Some m'" "heap_ok m' (xs @ (s, False) # ys) (b # fl)"
    "payload_kept m (xs @ (s, True) # ys) m' (xs @ (s, False) # ys)"
    "heap m' = heap m" "mem_brk m' = mem_brk m" "mem_max_addr m' = mem_max_addr m"
proof -
  let ?lo = "heap m" and ?bs = "xs @ (s, True) # ys" and ?mid = "xs @ (s, False) # ys"
  obtain brk mx w where v: "view m ?lo brk mx (hd (fl @ [0])) w" and bd: "bounds_ok ?lo brk mx"
    and brk: "?lo + 16 + extent ?bs = brk" and sh: "shape ?lo w ?bs fl"
    using ok by (auto simp: heap_ok_view view_def)
  have lo: "0 \<le> ?lo" "?lo mod 16 = 0" "?lo + 16 + extent ?bs < 2 ^ 62" using bd brk by (auto simp: bounds_ok_def)
  obtain m1 w1 where m1: "released b m = Some m1" "view m1 ?lo brk mx (hd ((b # fl) @ [0])) w1" "shape ?lo w1 ?mid (b # fl)"
    "\<And>x. x \<notin> region (?lo + 8) ?mid (b # fl) \<Longrightarrow> w1 x = w x"
    using released_spec [OF v sh lo] unfolding b_def by blast
  have "?lo + 16 + extent ?mid = brk" using brk by simp
  then have "heap_ok m1 ?mid (b # fl)" using m1(2,3) bd by (auto simp: heap_ok_view)
  moreover have "payload_kept m ?bs m1 ?mid"
    using m1(2,4) v by (intro payload_keptI [OF sh m1(3)]) (simp add: view_def)
  ultimately show ?thesis using that [OF m1(1)] m1(2) v by (simp add: view_def)
qed

lemma coalesce_heap:
  assumes ok: "heap_ok m (pre @ prevs @ (s, False) # nexts @ post) fl"
    and n: "neighbour prevs" "neighbour nexts" "last_al True pre" "nexts = [] \<Longrightarrow> unmerged post"
      "\<And>u. nexts = [(u, False)] \<Longrightarrow> post = [] \<Longrightarrow> 64 \<le> u"
  defines "M \<equiv> s + extent prevs + extent nexts"
  obtains m' fl' where "coalesce (heap m + 8 + extent pre + extent prevs) m = Some m'" "heap_ok m' (pre @ (M, False) # post) fl'"
    "payload_kept m (pre @ prevs @ (s, False) # nexts @ post) m' (pre @ (M, False) # post)"
    "heap m' = heap m" "mem_brk m' = mem_brk m" "mem_max_addr m' = mem_max_addr m"
proof -
  let ?lo = "heap m" and ?bs = "pre @ prevs @ (s, False) # nexts @ post" and ?new = "pre @ (M, False) # post"
  obtain brk mx w where v: "view m ?lo brk mx (hd (fl @ [0])) w" and bd: "bounds_ok ?lo brk mx"
    and brk: "brk = ?lo + 16 + extent ?bs" and sh: "shape ?lo w ?bs fl"
    using ok by (auto simp: heap_ok_view view_def)
  have lo: "0 \<le> ?lo" "?lo mod 16 = 0" "brk < 2 ^ 62" using bd by (auto simp: bounds_ok_def)
  obtain m1 w1 fl1 where m1: "coalesce (?lo + 8 + extent pre + extent prevs) m = Some m1"
    "view m1 ?lo brk mx (hd (fl1 @ [0])) w1" "shape ?lo w1 ?new fl1"
    "\<And>x. x \<notin> region (?lo + 8) ?bs fl \<Longrightarrow> x \<notin> region (?lo + 8) ?new fl1 \<Longrightarrow> w1 x = w x"
    by (rule coalesce_spec [OF v sh refl lo(1,2) brk lo(3) n, folded M_def]) (assumption | rule that)+
  have "?lo + 16 + extent ?new = brk" using brk by (simp add: M_def)
  then have "heap_ok m1 ?new fl1" using m1(2,3) bd by (auto simp: heap_ok_view)
  moreover have "payload_kept m ?bs m1 ?new"
    using m1(2,4) v by (intro payload_keptI [OF sh m1(3)]) (simp add: view_def)
  ultimately show ?thesis using that [OF m1(1)] m1(2) v by (simp add: view_def)
qed

lemma alloc_remove:
  assumes "sizes_ok (xs @ (s, True) # ys)"
  shows "alloc a (xs @ (s, False) # ys) = alloc a (xs @ (s, True) # ys) - {(a + extent xs, s)}"
proof -
  let ?b = "a + extent xs"
  have ok: "sizes_ok (xs @ (s, False) # ys)" "32 \<le> s" using assms by auto
  have "(?b, s) \<notin> alloc a (xs @ (s, False) # ys)"
  proof
    assume "(?b, s) \<in> alloc a (xs @ (s, False) # ys)"
    then have t: "(?b, s, True) \<in> set (starts a (xs @ (s, False) # ys))" by (simp add: alloc_def)
    have f: "(?b, s, False) \<in> set (starts a (xs @ (s, False) # ys))" by (auto simp: starts_append)
    show False using starts_disjoint [OF ok(1) t f] ok(2) by simp
  qed
  moreover have "alloc a (xs @ (s, True) # ys) = insert (?b, s) (alloc a (xs @ (s, False) # ys))"
    by (auto simp: alloc_append)
  ultimately show ?thesis by blast
qed

text \<open>The result of \<open>free\<close>, with the blocks it leaves.\<close>

lemma mm_free_blocks:
  assumes ok: "heap_ok m (pre @ prevs @ (s, True) # nexts @ post) fl"
    and n: "neighbour prevs" "neighbour nexts" "last_al True pre" "nexts = [] \<Longrightarrow> unmerged post"
      "\<And>u. nexts = [(u, False)] \<Longrightarrow> post = [] \<Longrightarrow> 64 \<le> u"
  defines "p \<equiv> heap m + 16 + extent pre + extent prevs" and "M \<equiv> s + extent prevs + extent nexts"
  obtains m' fl' where "mm_free p m = Some m'"
    "freed_block m (pre @ prevs @ (s, True) # nexts @ post) p s m' (pre @ (M, False) # post) fl'"
proof -
  let ?xs = "pre @ prevs" and ?ys = "nexts @ post" and ?a = "heap m + 8" and ?new = "pre @ (M, False) # post"
  let ?b = "heap m + 8 + extent ?xs"
  have ok': "heap_ok m (?xs @ (s, True) # ?ys) fl" using ok by simp
  have sz: "sizes_ok (?xs @ (s, True) # ?ys)" using ok' shape_size unfolding heap_ok_def by blast
  obtain m1 where m1: "released ?b m = Some m1" "heap_ok m1 (?xs @ (s, False) # ?ys) (?b # fl)"
    "payload_kept m (?xs @ (s, True) # ?ys) m1 (?xs @ (s, False) # ?ys)"
    "heap m1 = heap m" "mem_brk m1 = mem_brk m" "mem_max_addr m1 = mem_max_addr m"
    by (rule release_heap [OF ok'])
  have ok1: "heap_ok m1 (pre @ prevs @ (s, False) # nexts @ post) (?b # fl)" using m1(2) by simp
  obtain m2 fl2 where m2: "coalesce ?b m1 = Some m2" "heap_ok m2 ?new fl2"
    "payload_kept m1 (?xs @ (s, False) # ?ys) m2 ?new" "heap m2 = heap m" "mem_brk m2 = mem_brk m" "mem_max_addr m2 = mem_max_addr m"
    using coalesce_heap [OF ok1 n] m1(4-6) unfolding M_def by (simp add: add.assoc) blast
  have pb: "p - 8 = ?b" "p \<noteq> 0"
    using ok extent_bounds [of ?xs] sz by (auto simp: p_def heap_ok_def bounds_ok_def)
  then have "mm_free p m = Some m2" using mm_free_released [of p m] m1(1) m2(1) by (simp only: bind.bind_lunit not_False_eq_True)
  moreover have al: "alloc ?a ?new = alloc ?a (?xs @ (s, False) # ?ys)"
    using alloc_free [OF n(1)] alloc_free [OF n(2)] by (simp add: alloc_append M_def algebra_simps)
  have pk: "payload_kept m (?xs @ (s, True) # ?ys) m2 ?new"
    by (rule payload_kept_trans [OF m1(3) m2(3) m1(4)]) (use al in simp)
  have alf: "alloc ?a ?new = alloc ?a (?xs @ (s, True) # ?ys) - {(p - 8, s)}"
    unfolding pb(1) al using alloc_remove [OF sz, of ?a] by simp
  have "freed_block m (?xs @ (s, True) # ?ys) p s m2 ?new fl2"
    unfolding freed_block_def m2(4-6) by (intro conjI refl m2(2) alf pk)
  ultimately show thesis using that by simp
qed

text \<open>Whatever lies behind the block: the heap stays well formed, and merging fails only before a small last block.\<close>

lemma mm_free_total:
  assumes ok: "heap_ok m bs fl" and na: "no_adjacent True bs" and bs: "bs = xs @ (s, True) # ys" and p: "p = heap m + 16 + extent xs"
  obtains m' bs' fl' where "mm_free p m = Some m'" "freed_block m bs p s m' bs' fl'" "no_adjacent True bs' \<longleftrightarrow> end_ok ys"
    "end_ok ys \<longrightarrow> last bs' = last bs \<or> s \<le> fst (last bs')"
proof -
  have "no_adjacent True xs" "no_adjacent True ys" using na bs by (auto simp: no_adjacent_append)
  then obtain pre prevs nexts post where xs: "xs = pre @ prevs" "neighbour prevs" "last_al True pre" "no_adjacent True pre"
    and ys: "ys = nexts @ post" "neighbour nexts" "no_adjacent False post"
    using split_before [of xs] split_behind [of True ys] by metis
  have sz: "sizes_ok bs" using ok shape_size unfolding heap_ok_def by blast
  show thesis
  proof (cases "end_ok ys")
    case True
    let ?M = "s + extent prevs + extent nexts"
    have bs': "bs = pre @ prevs @ (s, True) # nexts @ post" using bs xs(1) ys(1) by simp
    have p': "p = heap m + 16 + extent pre + extent prevs" using p xs(1) by simp
    obtain m' fl' where m': "mm_free p m = Some m'" "freed_block m bs p s m' (pre @ (?M, False) # post) fl'"
      unfolding bs' p'
      by (rule mm_free_blocks [OF ok [unfolded bs'] xs(2) ys(2) xs(3)])
        (use no_adjacent_False [OF ys(3)] True ys(1) in \<open>auto simp: unmerged_def end_ok_def intro: that\<close>)
    have nad: "no_adjacent True (pre @ (?M, False) # post)" using xs(3,4) ys(3) by (simp add: no_adjacent_append)
    moreover have "last (pre @ (?M, False) # post) = last bs \<or> s \<le> fst (last (pre @ (?M, False) # post))"
      using extent_bounds [of prevs] extent_bounds [of nexts] sz bs' by auto
    ultimately show thesis using that [OF m'] True by simp
  next
    case False
    then obtain u where u: "ys = [(u, False)]" "u < 64" by (auto simp: end_ok_def)
    let ?M = "s + extent prevs + extent []"
    have bs': "bs = pre @ prevs @ (s, True) # [] @ [(u, False)]" using bs xs(1) u(1) by simp
    have p': "p = heap m + 16 + extent pre + extent prevs" using p xs(1) by simp
    obtain m' fl' where m': "mm_free p m = Some m'" "freed_block m bs p s m' (pre @ (?M, False) # [(u, False)]) fl'"
      unfolding bs' p'
      by (rule mm_free_blocks [OF ok [unfolded bs'] xs(2) _ xs(3)])
        (use u(2) in \<open>auto simp: unmerged_def neighbour_def intro: that\<close>)
    have "\<not> no_adjacent True (pre @ (?M, False) # [(u, False)])" by (simp add: no_adjacent_append)
    then show thesis using that [OF m'] False by simp
  qed
qed

lemma mm_free_spec:
  assumes ok: "heap_ok m bs fl" and na: "no_adjacent True bs" and bs: "bs = xs @ (s, True) # ys"
    and e: "end_ok ys" and p: "p = heap m + 16 + extent xs"
  shows "\<exists>m'. mm_free p m = Some m' \<and> freed m bs p s m'"
proof -
  obtain m' bs' fl' where m': "mm_free p m = Some m'" "freed_block m bs p s m' bs' fl'" "no_adjacent True bs' \<longleftrightarrow> end_ok ys"
    "end_ok ys \<longrightarrow> last bs' = last bs \<or> s \<le> fst (last bs')"
    by (rule mm_free_total [OF ok na bs p])
  then have "freed m bs p s m'" using e unfolding freed_def freed_block_def by blast
  then show ?thesis using m'(1) by blast
qed

subsection \<open>A small block at the end\<close>

text \<open>Behind the block freed, a free block of fewer than 64 bytes that ends the heap is not merged.\<close>

lemma mm_free_small_end:
  assumes ok: "heap_ok m (xs @ [(s, True), (u, False)]) fl" and u: "u < 64" and al: "last_al True xs"
  defines "b \<equiv> heap m + 8 + extent xs"
  shows "\<exists>m'. mm_free (b + 8) m = Some m' \<and> heap_ok m' (xs @ [(s, False), (u, False)]) (b # fl) \<and> heap m' = heap m"
proof -
  let ?mid = "xs @ [(s, False), (u, False)]"
  obtain m1 where m1: "released b m = Some m1" "heap_ok m1 ?mid (b # fl)" "heap m1 = heap m"
    unfolding b_def by (rule release_heap [OF ok])
  let ?lo = "heap m1" and ?brk = "mem_brk m1"
  have t: "tiled ?lo ?brk (b # fl) (wmap m1) (xs @ (s, False) # [(u, False)])" using heap_ok_tiled [OF m1(2)] by simp
  note tb = tiled_block [OF t, unfolded m1(3), folded b_def]
  have v: "view m1 ?lo ?brk (mem_max_addr m1) (hd ((b # fl) @ [0])) (wmap m1)"
    using m1(2) by (simp add: view_def heap_ok_def)
  have l: "load m1 b = Some (hdr s False True)" using view_load [OF v tb(1)] al by simp
  have "mapped m1 b 8" using tb(1) wmap_mapped [of m1 b] by simp
  then have "mapped m1 (b - 8) 8" using tb(6) m1(3) by (simp add: mapped_def)
  then obtain g where g: "load m1 (b - 8) = Some g" using load_total by blast
  have "merge_prev b m1 = Some (word_of_int s, word_of_int s, b, m1)"
    using l g hdr_facts(1,2) [OF tb(5)] by (simp add: merge_prev_def Let_def)
  moreover have "u mod 16 = 0" using tiled_sizes [OF t] by simp
  then have "u \<le> 48" using u by presburger
  then have "\<not> b + s < mm_heap_hi m1 - 56" using tb(7) by (simp add: mm_heap_hi_def)
  then have "merge_next (b + s) (word_of_int s) m1 = Some (word_of_int s, m1)" by (simp add: merge_next_def)
  ultimately have "coalesce b m1 = Some m1" using tb(10) by (simp add: coalesce_steps finish_merge_def)
  moreover have "b + 8 \<noteq> 0" "b + 8 - 8 = b" using tb(6) t m1(3) by (auto simp: tiled_def)
  ultimately have "mm_free (b + 8) m = Some m1" using mm_free_released [of "b + 8" m] m1(1) by (simp only: bind.bind_lunit not_False_eq_True)
  then show ?thesis using m1(2,3) by blast
qed

end
