(* ===== verification/Mm_Client.thy ===== *)
theory Mm_Client
  imports Mm_Coalesce
begin

unbundle bit_operations_syntax

text \<open>
  The allocator as a program that uses it sees it: a map \<open>L\<close> from the pointers the program holds to the
  sizes it asked for. \<open>sound m L\<close> says that the heap is well formed, without adjacent free blocks, and that its
  allocated blocks are exactly those held.
\<close>

text \<open>The blocks that are allocated are those the program holds.\<close>

definition holds :: "mm \<Rightarrow> blk list \<Rightarrow> (int \<rightharpoonup> int) \<Rightarrow> bool" where
  "holds m bs L \<longleftrightarrow> (\<forall>p n. L p = Some n \<longrightarrow> 0 < n \<and> p mod 16 = 0 \<and> (\<exists>s. (p - 8, s) \<in> alloc (heap m + 8) bs \<and> n + 8 \<le> s)) \<and>
     (\<forall>f s. (f, s) \<in> alloc (heap m + 8) bs \<longrightarrow> f + 8 \<in> dom L)"

definition sound :: "mm \<Rightarrow> (int \<rightharpoonup> int) \<Rightarrow> bool" where
  "sound m L \<longleftrightarrow> (\<exists>bs fl. heap_ok m bs fl \<and> no_adjacent True bs \<and> holds m bs L)"

lemma alloc_size: "sizes_ok bs \<Longrightarrow> (f, s) \<in> alloc a bs \<Longrightarrow> 32 \<le> s \<and> s mod 16 = 0"
  by (auto simp: alloc_def starts_split)

lemma alloc_unique:
  assumes "sizes_ok bs" "(f, s) \<in> alloc a bs" "(f, t) \<in> alloc a bs"
  shows "s = t"
proof -
  have "(f, s, True) \<in> set (starts a bs)" "(f, t, True) \<in> set (starts a bs)" using assms(2,3) by (simp_all add: alloc_def)
  moreover have "32 \<le> s" "32 \<le> t" using alloc_size assms by blast+
  ultimately show ?thesis using starts_disjoint [OF assms(1), of f "(s, True)" a f "(t, True)"] by simp
qed

lemma heap_ok_sizes: "heap_ok m bs fl \<Longrightarrow> sizes_ok bs"
  unfolding heap_ok_def using shape_size by blast

subsection \<open>Writes inside a block\<close>

lemma shape_cong:
  assumes "shape lo w bs fl" "\<And>x. x \<in> region (lo + 8) bs fl \<Longrightarrow> w' x = w x"
  shows "shape lo w' bs fl"
proof -
  have "blocks w' (lo + 8) True bs" "dll w' 0 fl 0"
    using assms blocks_cong [of "lo + 8" bs w' w True] dll_cong [of fl w' w 0 0] by (auto simp: shape_def region_def)
  then show ?thesis using assms(1) by (simp add: shape_def)
qed

lemma wmap_write:
  assumes "x + 8 \<le> a \<or> a + int (length vs) \<le> x"
  shows "wmap (write_bytes m a vs) x = wmap m x"
proof -
  have "read_bytes (write_bytes m a vs) x 8 = read_bytes m x 8" using assms by (intro read_write_other) auto
  then show ?thesis by (simp add: wmap_def load_def)
qed

lemma write_heap_ok:
  assumes ok: "heap_ok m bs fl" and f: "(f, s) \<in> alloc (heap m + 8) bs" and a: "f + 8 \<le> a" "a + int (length vs) \<le> f + s"
  shows "heap_ok (write_bytes m a vs) bs fl"
proof -
  let ?m = "write_bytes m a vs"
  have sh: "shape (heap m) (wmap m) bs fl" using ok by (simp add: heap_ok_def)
  obtain xs ys where bs: "bs = xs @ (s, True) # ys" "f = heap m + 8 + extent xs"
    using f by (auto simp: alloc_def starts_split)
  note tb = tiled_block [OF heap_ok_tiled [OF ok, unfolded bs(1)], folded bs(2)]
  have al: "f mod 8 = 0" "(f + s) mod 8 = 0" using tb(5,9) by presburger+
  have "wmap ?m x = wmap m x" if "x \<in> region (heap m + 8) bs fl" for x
  proof (cases "x mod 8 = 0")
    case True
    have "\<not> (f + 8 \<le> x \<and> x < f + s)" using payload_not_region [OF sh f] that by blast
    then have "x + 8 \<le> f + 8 \<or> f + s \<le> x" using al True by presburger
    then show ?thesis using a by (intro wmap_write) auto
  qed (simp add: wmap_def)
  then have "shape (heap m) (wmap ?m) bs fl" using shape_cong [OF sh] by blast
  then show ?thesis using ok by (simp add: heap_ok_def write_bytes_def)
qed

subsection \<open>Soundness\<close>

lemma held_block:
  assumes "holds m bs L" "L p = Some n"
  obtains s xs ys where "bs = xs @ (s, True) # ys" "p = heap m + 16 + extent xs" "n + 8 \<le> s" "(p - 8, s) \<in> alloc (heap m + 8) bs"
proof -
  obtain s where s: "(p - 8, s) \<in> alloc (heap m + 8) bs" "n + 8 \<le> s" using assms unfolding holds_def by blast
  then obtain xs ys where "bs = xs @ (s, True) # ys" "p - 8 = heap m + 8 + extent xs" by (auto simp: alloc_def starts_split)
  then show ?thesis using that [of xs s ys] s by simp
qed

lemma word_pos: "sz \<noteq> 0 \<Longrightarrow> 0 < uint sz"
  by (metis linorder_not_less order_antisym_conv uint_0_iff uint_ge_0)

text \<open>What the contracts of \<open>malloc\<close> and \<open>free\<close> say of the blocks held.\<close>

lemma allocated_holds:
  assumes h: "holds m bs L" and n: "0 < n" and al: "allocated m bs n m' p"
  obtains bs' fl' where "heap_ok m' bs' fl'" "no_adjacent True bs'" "holds m' bs' (L(p \<mapsto> n))" "end_kept bs bs'" "p \<notin> dom L"
proof -
  obtain bs' fl' s where ok': "heap_ok m' bs' fl'" "no_adjacent True bs'" "heap m' = heap m" "p mod 16 = 0" "n + 8 \<le> s"
    "alloc (heap m + 8) bs' = insert (p - 8, s) (alloc (heap m + 8) bs)" "end_kept bs bs'" "(p - 8, s) \<notin> alloc (heap m + 8) bs"
    using al unfolding allocated_def handed_out_def by (elim conjE exE) (rule that)
  have "holds m' bs' (L(p \<mapsto> n))"
    unfolding holds_def ok'(3,6)
  proof (intro conjI allI impI)
    fix q k
    assume q: "(L(p \<mapsto> n)) q = Some k"
    show "0 < k" "q mod 16 = 0" using q h ok'(4) n by (auto simp: holds_def split: if_splits)
    show "\<exists>s'. (q - 8, s') \<in> insert (p - 8, s) (alloc (heap m + 8) bs) \<and> k + 8 \<le> s'"
    proof (cases "q = p")
      case True
      then show ?thesis using q ok'(5) by auto
    next
      case False
      then show ?thesis using q h unfolding holds_def by auto
    qed
  next
    fix f t
    assume "(f, t) \<in> insert (p - 8, s) (alloc (heap m + 8) bs)"
    then show "f + 8 \<in> dom (L(p \<mapsto> n))" using h unfolding holds_def by auto
  qed
  moreover have "p \<notin> dom L"
  proof
    assume "p \<in> dom L"
    then obtain t where "(p - 8, t) \<in> alloc (heap m + 8) bs" using h unfolding holds_def by blast
    then show False using alloc_unique [OF heap_ok_sizes [OF ok'(1)], of "p - 8" t "heap m + 8" s] ok'(6,8) by auto
  qed
  ultimately show thesis using that ok'(1,2,7) by blast
qed

lemma freed_holds:
  assumes ok: "heap_ok m bs fl" and h: "holds m bs L" and b: "(p - 8, s) \<in> alloc (heap m + 8) bs" and fr: "freed m bs p s m'"
  obtains bs' fl' where "heap_ok m' bs' fl'" "no_adjacent True bs'" "holds m' bs' (L(p := None))"
    "last bs' = last bs \<or> s \<le> fst (last bs')"
proof -
  obtain bs' fl' where ok': "heap_ok m' bs' fl'" "no_adjacent True bs'" "heap m' = heap m"
    "alloc (heap m + 8) bs' = alloc (heap m + 8) bs - {(p - 8, s)}" "last bs' = last bs \<or> s \<le> fst (last bs')"
    using fr unfolding freed_def by blast
  have "holds m' bs' (L(p := None))"
    unfolding holds_def ok'(3,4)
  proof (intro conjI allI impI)
    fix q k
    assume "(L(p := None)) q = Some k"
    then have q: "q \<noteq> p" "L q = Some k" by (auto split: if_splits)
    then show "0 < k" "q mod 16 = 0" using h unfolding holds_def by blast+
    obtain t where "(q - 8, t) \<in> alloc (heap m + 8) bs" "k + 8 \<le> t" using q(2) h unfolding holds_def by blast
    then show "\<exists>t. (q - 8, t) \<in> alloc (heap m + 8) bs - {(p - 8, s)} \<and> k + 8 \<le> t" using q(1) by auto
  next
    fix f t
    assume f: "(f, t) \<in> alloc (heap m + 8) bs - {(p - 8, s)}"
    have "f \<noteq> p - 8" using alloc_unique [OF heap_ok_sizes [OF ok], of f t "heap m + 8" s] f b by auto
    then show "f + 8 \<in> dom (L(p := None))" using f h unfolding holds_def by auto
  qed
  then show thesis using that ok'(1,2,5) by blast
qed

lemma sound_disjoint:
  assumes sd: "sound m L" and p: "L p = Some n" "L q = Some k" "p \<noteq> q"
  shows "p + n \<le> q \<or> q + k \<le> p"
proof -
  obtain bs fl where ok: "heap_ok m bs fl" "holds m bs L" using sd by (auto simp: sound_def)
  obtain s t where s: "n + 8 \<le> s" "(p - 8, s) \<in> alloc (heap m + 8) bs" and t: "k + 8 \<le> t" "(q - 8, t) \<in> alloc (heap m + 8) bs"
    using held_block [OF ok(2) p(1)] held_block [OF ok(2) p(2)] by metis
  show ?thesis
    using starts_disjoint [OF heap_ok_sizes [OF ok(1)], of "p - 8" "(s, True)" "heap m + 8" "q - 8" "(t, True)"] s t p(3)
    by (auto simp: alloc_def)
qed

lemma sound_inside:
  assumes sd: "sound m L" and p: "L p = Some n"
  shows "heap m + 16 \<le> p \<and> p + n \<le> mem_brk m - 8 \<and> p mod 16 = 0 \<and> 0 < n"
proof -
  obtain bs fl where ok: "heap_ok m bs fl" "holds m bs L" using sd by (auto simp: sound_def)
  obtain s where s: "n + 8 \<le> s" "(p - 8, s) \<in> alloc (heap m + 8) bs" using held_block [OF ok(2) p] by metis
  have "heap m + 8 \<le> p - 8 \<and> p - 8 + s \<le> heap m + 8 + extent bs"
    using starts_bounds [OF heap_ok_sizes [OF ok(1)], of "p - 8" "(s, True)" "heap m + 8"] s by (simp add: alloc_def)
  moreover have "heap m + 16 + extent bs = mem_brk m" using ok(1) by (simp add: heap_ok_def)
  moreover have "p mod 16 = 0" "0 < n" using ok(2) p unfolding holds_def by blast+
  ultimately show ?thesis using s(1) by simp
qed

end
