(* ===== verification/Mm_Check.thy ===== *)
theory Mm_Check
  imports Mm_Client
begin

unbundle bit_operations_syntax

text \<open>
  The heap checker on a well-formed heap: its three loops end and find nothing to report. Also
  the bytes of a block as \<open>malloc\<close> and \<open>free\<close> leave them.
\<close>

subsection \<open>The loops of the checker\<close>

lemma in_free_list_spec:
  assumes v: "view m lo brk mx f w" and d: "dll w p fl 0" and a: "addrs fl"
  shows "in_free_list b (hd (fl @ [0])) m = Some (b \<in> set fl)"
  using d a
proof (induction fl arbitrary: p)
  case Nil
  then show ?case by (simp add: in_free_list.simps)
next
  case (Cons x fl)
  have x: "x \<noteq> 0" "addrs fl" using Cons.prems(2) by (auto simp: addrs_Cons)
  have n: "load m (x + 8) = Some (word_of_ptr (hd (fl @ [0])))" using Cons.prems(1) view_load [OF v] by auto
  have ih: "in_free_list b (hd (fl @ [0])) m = Some (b \<in> set fl)" using Cons x by auto
  show ?case using ih n x addrs_hd(1) [OF x(2)] by (simp add: in_free_list.simps [of b x m])
qed

text \<open>A header that the checker accepts.\<close>

definition listed_ok :: "int \<Rightarrow> int \<Rightarrow> (int \<rightharpoonup> u64) \<Rightarrow> int \<Rightarrow> bool" where
  "listed_ok lo brk w x \<longleftrightarrow> (\<exists>s p. w x = Some (hdr s False p) \<and> 32 \<le> s \<and> s mod 16 = 0 \<and> s < 2 ^ 62 \<and> lo + 8 \<le> x \<and> x + s + 8 \<le> brk)"

lemma check_free_list_spec:
  assumes v: "view m lo brk mx f w" and d: "dll w p fl 0" and a: "addrs fl" and l: "\<forall>x \<in> set fl. listed_ok lo brk w x"
  shows "check_free_list (hd (fl @ [0])) m = Some []"
  using d a l
proof (induction fl arbitrary: p)
  case Nil
  then show ?case by (simp add: check_free_list.simps)
next
  case (Cons x fl)
  have hb: "heap_low_bound m = lo + 8" "heap_high_bound m = brk - 8"
    using v by (simp_all add: view_def heap_low_bound_def heap_high_bound_def mm_heap_lo_def mm_heap_hi_def)
  have x: "x \<noteq> 0" "addrs fl" using Cons.prems(2) by (auto simp: addrs_Cons)
  have n: "load m (x + 8) = Some (word_of_ptr (hd (fl @ [0])))" using Cons.prems(1) view_load [OF v] by auto
  obtain s q where s: "w x = Some (hdr s False q)" "32 \<le> s" "s mod 16 = 0" "s < 2 ^ 62" "lo + 8 \<le> x" "x + s + 8 \<le> brk"
    using Cons.prems(3) by (auto simp: listed_ok_def)
  have "s mod 8 = 0" using s(3) by presburger
  then have ws: "words x (word_of_int s) = x + s" using s by (intro words_size) simp_all
  have ih: "check_free_list (hd (fl @ [0])) m = Some []" using Cons x by auto
  show ?case
    using ih n x addrs_hd(1) [OF x(2)] view_load [OF v s(1)] hdr_facts(1) [OF s(3)] ws s(2,5,6) hb
    by (simp add: check_free_list.simps [of x m])
qed

lemma check_blocks_spec:
  assumes v: "view m lo brk mx f w" and hd: "f = hd (fl @ [0])" and d: "dll w 0 fl 0" and a: "addrs fl"
    and b: "blocks w c p bs" "c + extent bs = brk - 8" "brk < 2 ^ 62" "0 \<le> c" and fs: "free_starts c bs \<subseteq> set fl"
  shows "check_blocks c m = Some []"
  using b fs
proof (induction bs arbitrary: c p)
  have hb: "heap_high_bound m = brk - 8" using v by (simp add: view_def heap_high_bound_def mm_heap_hi_def)
  case Nil
  then show ?case using hb by (simp add: check_blocks.simps)
next
  have hb: "heap_high_bound m = brk - 8" using v by (simp add: view_def heap_high_bound_def mm_heap_hi_def)
  case (Cons x bs)
  obtain s al where x: "x = (s, al)" by (cases x)
  have s: "32 \<le> s" "s mod 16 = 0" "w c = Some (hdr s al p)" "blocks w (c + s) al bs"
    using Cons.prems(1) x by (auto simp: block_ok_def)
  have "0 \<le> extent bs" using extent_bounds [OF blocks_sizes [OF s(4)]] by simp
  then have c: "c < brk - 8" "s < 2 ^ 62" using Cons.prems(2,3,4) s(1) x by auto
  have "s mod 8 = 0" using s(2) by presburger
  then have ws: "words c (word_of_int s) = c + s" using s c by (intro words_size) simp_all
  have ih: "check_blocks (c + s) m = Some []"
    using Cons.IH [OF s(4)] Cons.prems(2-5) x s(1) by auto
  have "\<not> al \<Longrightarrow> in_free_list c (free_block_pointer m) m = Some True"
    using in_free_list_spec [OF v d a, of c] Cons.prems(5) x v hd by (auto simp: view_def)
  then show ?case
    using ih c(1) hb view_load [OF v s(3)] hdr_facts(1,3) [OF s(2)] ws
    by (cases al) (simp_all add: check_blocks.simps [of c m])
qed

lemma heap_ok_checks:
  assumes ok: "heap_ok m bs fl"
  shows "mm_checkheap True m = Some ([], True)"
proof -
  let ?lo = "heap m" and ?brk = "mem_brk m" and ?w = "wmap m"
  have v: "view m ?lo ?brk (mem_max_addr m) (hd (fl @ [0])) ?w" using ok by (simp add: view_def heap_ok_def)
  have sh: "shape ?lo ?w bs fl" and bd: "bounds_ok ?lo ?brk (mem_max_addr m)" and brk: "?lo + 16 + extent bs = ?brk"
    using ok by (simp_all add: heap_ok_def)
  have lo: "0 \<le> ?lo" "?lo mod 16 = 0" "?lo + 16 + extent bs < 2 ^ 62" using bd brk by (auto simp: bounds_ok_def)
  have ad: "addrs fl" using shape_addrs [OF sh lo] .
  have d: "dll ?w 0 fl 0" and b: "blocks ?w (?lo + 8) True bs" and fl: "set fl = free_starts (?lo + 8) bs"
    using sh by (simp_all add: shape_def)
  have "listed_ok ?lo ?brk ?w x" if x: "x \<in> set fl" for x
  proof -
    obtain s where "(x, s, False) \<in> set (starts (?lo + 8) bs)" using x fl by (auto simp: free_starts_def)
    then obtain xs ys where bs: "bs = xs @ (s, False) # ys" "x = ?lo + 8 + extent xs" by (auto simp: starts_split)
    note t = tiled_block [OF heap_ok_tiled [OF ok, unfolded bs(1)], folded bs(2)]
    show ?thesis using t(1,4,5,6,7,8,12) unfolding listed_ok_def by (intro exI conjI) auto
  qed
  then have "check_free_list (free_block_pointer m) m = Some []"
    using check_free_list_spec [OF v d ad] v by (simp add: view_def)
  moreover have "check_blocks (heap_low_bound m) m = Some []"
    using check_blocks_spec [OF v refl d ad b] brk lo fl by (simp add: heap_low_bound_def mm_heap_lo_def)
  ultimately show ?thesis by (simp add: mm_checkheap_def)
qed

subsection \<open>The bytes of a block\<close>

lemma wmap_bytes:
  fixes m m' :: mm
  assumes "wmap m' a = wmap m a" "a mod 8 = 0" "mapped m a 8" "a \<le> x" "x < a + 8"
  shows "bytes m' x = bytes m x"
proof -
  have "load m' a = load m a" using assms(1,2) by (simp add: wmap_def)
  then have "word_of (read_bytes m' a 8) = word_of (read_bytes m a 8)"
    using assms(3) by (auto simp: load_def split: if_splits)
  then have "read_bytes m' a 8 = read_bytes m a 8"
    using bytes_of_word_of [of "read_bytes m' a 8"] bytes_of_word_of [of "read_bytes m a 8"] by simp
  moreover have "read_bytes k a 8 ! nat (x - a) = bytes k x" for k :: mm
  proof -
    have "nat (x - a) < 8" using assms(4,5) by linarith
    then have "[0..<8] ! nat (x - a) = nat (x - a)" by simp
    then show ?thesis using \<open>nat (x - a) < 8\<close> assms(4) by (simp add: read_bytes_def del: upt_Suc)
  qed
  ultimately show ?thesis by metis
qed

lemma payload_bytes:
  assumes ok: "heap_ok m bs fl" and k: "payload_kept m bs m' bs'"
    and f: "(f, s) \<in> alloc (heap m + 8) bs" "(f, s) \<in> alloc (heap m + 8) bs'" and x: "f + 8 \<le> x" "x < f + s"
  shows "bytes m' x = bytes m x"
proof -
  obtain xs ys where bs: "bs = xs @ (s, True) # ys" "f = heap m + 8 + extent xs"
    using f(1) by (auto simp: alloc_def starts_split)
  note t = tiled_block [OF heap_ok_tiled [OF ok, unfolded bs(1)], folded bs(2)]
  let ?a = "8 * (x div 8)"
  have al: "f mod 8 = 0" "s mod 8 = 0" using t(5,9) by presburger+
  have a: "?a \<le> x" "x < ?a + 8" by presburger+
  have fa: "f + 8 \<le> ?a" "?a + 8 \<le> f + s" using al x by presburger+
  have "wmap m' ?a = wmap m ?a" 
  proof -
    have "?a < f + s" using fa(2) by linarith
    then show ?thesis using k f fa(1) unfolding payload_kept_def by blast
  qed
  moreover have "mapped m ?a 8" using fa t(6,7,8) ok by (simp add: mapped_def heap_ok_def bounds_ok_def)
  ultimately show ?thesis using wmap_bytes [of m' ?a m x] a by simp
qed

lemma allocated_bytes:
  assumes ok: "heap_ok m bs fl" "holds m bs L" and al: "allocated m bs n m' p" and q: "L q = Some k" "q \<le> x" "x < q + k"
  shows "bytes m' x = bytes m x"
proof -
  obtain s where s: "k + 8 \<le> s" "(q - 8, s) \<in> alloc (heap m + 8) bs" using held_block [OF ok(2) q(1)] by metis
  obtain bs' where "alloc (heap m + 8) bs \<subseteq> alloc (heap m + 8) bs'" "payload_kept m bs m' bs'"
    using al unfolding allocated_def handed_out_def by blast
  then show ?thesis using payload_bytes [OF ok(1) _ s(2), of m' bs' x] s q(2,3) by auto
qed

lemma freed_bytes:
  assumes ok: "heap_ok m bs fl" "holds m bs L" and fr: "freed m bs p s m'" and q: "L q = Some k" "q \<noteq> p" "q \<le> x" "x < q + k"
  shows "bytes m' x = bytes m x"
proof -
  obtain t where t: "k + 8 \<le> t" "(q - 8, t) \<in> alloc (heap m + 8) bs" using held_block [OF ok(2) q(1)] by metis
  obtain bs' where "alloc (heap m + 8) bs' = alloc (heap m + 8) bs - {(p - 8, s)}" "payload_kept m bs m' bs'"
    using fr unfolding freed_def by blast
  then show ?thesis using payload_bytes [OF ok(1) _ t(2), of m' bs' x] t q(2-4) by auto
qed

end
