(* ===== verification/Mm_Roomy.thy ===== *)
theory Mm_Roomy
  imports Mm_Check
begin

unbundle bit_operations_syntax

text \<open>
  The allocator for a program whose requests are of at least 41 bytes, so that no block has fewer
  than 64: then the case in which \<open>coalesce\<close> misses a merge does not arise, and as long as the
  heap can grow every call of \<open>malloc\<close>, \<open>realloc\<close> and \<open>free\<close> succeeds.
\<close>

definition roomy :: "mm \<Rightarrow> (int \<rightharpoonup> int) \<Rightarrow> bool" where
  "roomy m L \<longleftrightarrow> (\<exists>bs fl. heap_ok m bs fl \<and> no_adjacent True bs \<and> holds m bs L \<and> (snd (last bs) \<or> 64 \<le> fst (last bs))) \<and>
     (\<forall>n \<in> ran L. 41 \<le> n)"

text \<open>The memory outside the blocks of a client.\<close>

definition keeps :: "mm \<Rightarrow> (int \<rightharpoonup> int) \<Rightarrow> mm \<Rightarrow> bool" where
  "keeps m L m' \<longleftrightarrow> heap m' = heap m \<and> mem_max_addr m' = mem_max_addr m \<and>
     (\<forall>q k x. L q = Some k \<and> q \<le> x \<and> x < q + k \<longrightarrow> bytes m' x = bytes m x)"

lemma keepsD: "keeps m (L(p := None)) m' \<Longrightarrow> L q = Some k \<Longrightarrow> q \<noteq> p \<Longrightarrow> q \<le> x \<Longrightarrow> x < q + k \<Longrightarrow> bytes m' x = bytes m x"
  unfolding keeps_def by (metis fun_upd_other)

lemma keeps_trans: "keeps m L m1 \<Longrightarrow> keeps m1 L' m2 \<Longrightarrow> K \<subseteq>\<^sub>m L \<Longrightarrow> K \<subseteq>\<^sub>m L' \<Longrightarrow> keeps m K m2"
  unfolding keeps_def by (metis domI map_le_def)

lemma roomy_sound: "roomy m L \<Longrightarrow> sound m L"
  unfolding roomy_def sound_def by blast

lemma roomy_start:
  assumes "mem_brk m = heap m" "0 \<le> heap m" "heap m mod 16 = 0" "mem_max_addr m < 2 ^ 62" "heap m + 4112 \<le> mem_max_addr m"
  obtains m' where "mm_init m = Some (True, m')" "roomy m' Map.empty" "heap m' = heap m" "mem_max_addr m' = mem_max_addr m"
    "mem_brk m' = heap m + 4112"
proof -
  obtain m' where m': "mm_init m = Some (True, m')" "heap_ok m' [(4096, False)] [heap m + 8]" "heap m' = heap m" "mem_max_addr m' = mem_max_addr m"
    using mm_init_spec [OF assms(1-4)] assms(5) by auto
  have "holds m' [(4096, False)] Map.empty" by (simp add: holds_def)
  then have "roomy m' Map.empty" unfolding roomy_def using m'(2) by (intro conjI exI [of _ "[(4096, False)]"] exI [of _ "[heap m + 8]"]) auto
  then show thesis using that m' by (auto simp: heap_ok_def)
qed

text \<open>The sizes of requests that are considered.\<close>

definition request_ok :: "u64 \<Rightarrow> bool" where
  "request_ok sz \<longleftrightarrow> 41 \<le> uint sz \<and> uint sz + 23 < 2 ^ 64"

lemma roomy_malloc_cases:
  assumes ro: "roomy m L" and sz: "request_ok sz"
  obtains (refused) "malloc sz m = Some (0, m)" "mem_max_addr m < mem_brk m + required_size (uint sz)"
  | (given) p m' where "malloc sz m = Some (p, m')" "p \<noteq> 0" "p \<notin> dom L" "roomy m' (L(p \<mapsto> uint sz))" "keeps m L m'"
      "mem_brk m \<le> mem_brk m'" "mem_brk m' \<le> mem_brk m + required_size (uint sz)"
proof -
  obtain bs fl where ok: "heap_ok m bs fl" "no_adjacent True bs" "holds m bs L" and e: "snd (last bs) \<or> 64 \<le> fst (last bs)"
    and L: "\<forall>n \<in> ran L. 41 \<le> n" using ro unfolding roomy_def by blast
  have n: "sz \<noteq> 0" "0 < uint sz" "41 \<le> uint sz" "uint sz + 23 < 2 ^ 64" using sz unfolding request_ok_def by force+
  show thesis
  proof (cases "exhausted m bs (required_size (uint sz))")
    case True
    then show thesis using refused malloc_spec [OF ok(1,2) n(1,4)] by (auto simp: exhausted_def)
  next
    case False
    then obtain p m' where m': "malloc sz m = Some (p, m')" "allocated m bs (uint sz) m' p"
      using malloc_spec [OF ok(1,2) n(1,4)] by auto
    obtain bs' fl' where b: "heap_ok m' bs' fl'" "no_adjacent True bs'" "holds m' bs' (L(p \<mapsto> uint sz))" "end_kept bs bs'" "p \<notin> dom L"
      by (rule allocated_holds [OF ok(3) n(2) m'(2)])
    have "roomy m' (L(p \<mapsto> uint sz))"
      unfolding roomy_def using b(1-4) e L n(3) by (auto simp: end_kept_def ran_def)
    moreover have "keeps m L m'" using allocated_bytes [OF ok(1,3) m'(2)] m'(2) unfolding keeps_def allocated_def by blast
    ultimately show thesis using given m' b(5) by (simp add: allocated_def)
  qed
qed

lemma roomy_malloc:
  assumes ro: "roomy m L" and sz: "41 \<le> uint sz" "uint sz + 23 < 2 ^ 64" and fits: "mem_brk m + required_size (uint sz) \<le> mem_max_addr m"
  obtains p m' where "malloc sz m = Some (p, m')" "p \<noteq> 0" "p \<notin> dom L" "roomy m' (L(p \<mapsto> uint sz))" "keeps m L m'"
    "mem_brk m \<le> mem_brk m'" "mem_brk m' \<le> mem_brk m + required_size (uint sz)"
proof -
  have "request_ok sz" using sz by (simp add: request_ok_def)
  then show thesis by (rule roomy_malloc_cases [OF ro]) (use fits that in auto)
qed

lemma roomy_free:
  assumes ro: "roomy m L" and p: "L p = Some n"
  obtains m' where "mm_free p m = Some m'" "roomy m' (L(p := None))" "keeps m (L(p := None)) m'" "mem_brk m' = mem_brk m"
proof -
  obtain bs fl where ok: "heap_ok m bs fl" "no_adjacent True bs" "holds m bs L" and e: "snd (last bs) \<or> 64 \<le> fst (last bs)"
    and L: "\<forall>n \<in> ran L. 41 \<le> n" using ro unfolding roomy_def by blast
  obtain s xs ys where b: "bs = xs @ (s, True) # ys" "p = heap m + 16 + extent xs" "n + 8 \<le> s" "(p - 8, s) \<in> alloc (heap m + 8) bs"
    using held_block [OF ok(3) p] by metis
  have "end_ok ys" using e b(1) by (auto simp: end_ok_def)
  then obtain m' where m': "mm_free p m = Some m'" "freed m bs p s m'" using mm_free_spec [OF ok(1,2) b(1) _ b(2)] by blast
  obtain bs' fl' where b': "heap_ok m' bs' fl'" "no_adjacent True bs'" "holds m' bs' (L(p := None))" "last bs' = last bs \<or> s \<le> fst (last bs')"
    by (rule freed_holds [OF ok(1,3) b(4) m'(2)])
  have "41 \<le> n" using L p by (auto simp: ran_def)
  moreover have "s mod 16 = 0" using alloc_size [OF heap_ok_sizes [OF ok(1)] b(4)] by simp
  ultimately have "64 \<le> s" using b(3) by presburger
  then have "roomy m' (L(p := None))"
    unfolding roomy_def using b' e L by (auto simp: ran_def)
  moreover have "keeps m (L(p := None)) m'"
    using freed_bytes [OF ok(1,3) m'(2)] m'(2) by (auto simp: keeps_def freed_def split: if_splits)
  ultimately show thesis using that m' by (simp add: freed_def)
qed

lemma roomy_put:
  assumes ro: "roomy m L" and p: "L p = Some n" and a: "p \<le> a" "a + int (length vs) \<le> p + n"
  shows "roomy (write_bytes m a vs) L" "keeps m (L(p := None)) (write_bytes m a vs)"
proof -
  obtain bs fl where ok: "heap_ok m bs fl" "no_adjacent True bs" "holds m bs L" and e: "snd (last bs) \<or> 64 \<le> fst (last bs)"
    and L: "\<forall>n \<in> ran L. 41 \<le> n" using ro unfolding roomy_def by blast
  obtain s where s: "n + 8 \<le> s" "(p - 8, s) \<in> alloc (heap m + 8) bs" using held_block [OF ok(3) p] by metis
  have "heap_ok (write_bytes m a vs) bs fl" using write_heap_ok [OF ok(1) s(2), of a vs] a s(1) by simp
  moreover have "holds (write_bytes m a vs) bs L" using ok(3) by (simp add: holds_def)
  ultimately show "roomy (write_bytes m a vs) L" using ok(2) e L unfolding roomy_def by blast
  have "bytes (write_bytes m a vs) x = bytes m x" if q: "L q = Some k" "q \<noteq> p" "q \<le> x" "x < q + k" for q k x
  proof -
    have "q + k \<le> p \<or> p + n \<le> q" using sound_disjoint [OF roomy_sound [OF ro] q(1) p q(2)] .
    then show ?thesis using q a by (auto simp: write_bytes_def overlay_def)
  qed
  then show "keeps m (L(p := None)) (write_bytes m a vs)" by (auto simp: keeps_def split: if_splits)
qed

text \<open>\<open>realloc\<close> hands out a new block with the contents of the old one, which it frees.\<close>

lemma slack_le:
  assumes "k \<le> s" "s mod 8 = 0"
  shows "k + slack k \<le> s"
proof -
  obtain c where c: "s = 8 * c" using assms(2) by (metis mod_0_imp_dvd dvdE)
  define d r where "d = k div 8" and "r = k mod 8"
  have k: "k = 8 * d + r" "r < 8" by (simp_all add: d_def r_def)
  show ?thesis
  proof (cases "r = 0")
    case False
    have "d < c" using assms(1) k(1) False unfolding c by linarith
    then show ?thesis using False k unfolding c slack_def by simp
  qed (use assms(1) k in \<open>simp add: slack_def\<close>)
qed

lemma roomy_block:
  assumes ro: "roomy m L" and p: "L p = Some n"
  obtains s h where "load m (p - 8) = Some h" "block_size h = word_of_int s" "0 \<le> s" "s < 2 ^ 64" "s mod 8 = 0" "n + 8 \<le> s"
    "heap m \<le> p" "p + s \<le> mem_max_addr m"
    "\<And>q k. L q = Some k \<Longrightarrow> q \<noteq> p \<Longrightarrow> p + s \<le> q \<or> q + k \<le> p"
proof -
  obtain bs fl where ok: "heap_ok m bs fl" "holds m bs L" using ro unfolding roomy_def by blast
  obtain s xs ys where b: "bs = xs @ (s, True) # ys" "p = heap m + 16 + extent xs" "n + 8 \<le> s" "(p - 8, s) \<in> alloc (heap m + 8) bs"
    using held_block [OF ok(2) p] by metis
  have v: "view m (heap m) (mem_brk m) (mem_max_addr m) (free_block_pointer m) (wmap m)" by (simp add: view_def)
  note t = tiled_block [OF heap_ok_tiled [OF ok(1), unfolded b(1)]]
  have e: "heap m + 8 + extent xs = p - 8" using b(2) by simp
  note t = t [unfolded e]
  have apart: "p + s \<le> q \<or> q + k \<le> p" if q: "L q = Some k" "q \<noteq> p" for q k
  proof -
    obtain u where u: "k + 8 \<le> u" "(q - 8, u) \<in> alloc (heap m + 8) bs" using held_block [OF ok(2) q(1)] by metis
    show ?thesis
      using starts_disjoint [OF heap_ok_sizes [OF ok(1)], of "p - 8" "(s, True)" "heap m + 8" "q - 8" "(u, True)"] u b(4) q(2)
      by (auto simp: alloc_def)
  qed
  show thesis
  proof (rule that [OF view_load [OF v t(1)] hdr_facts(1) [OF t(5)] t(11) _ _ b(3) _ _ apart])
    show "s < 2 ^ 64" "s mod 8 = 0" "heap m \<le> p" using t(12,5,6) by (simp, presburger, simp)
    show "p + s \<le> mem_max_addr m" using t(7,8) ok(1) by (simp add: heap_ok_def bounds_ok_def)
  qed
qed

lemma nth_read_bytes: "i < n \<Longrightarrow> read_bytes m a n ! i = bytes m (a + int i)"
  by (simp add: read_bytes_def)

lemma roomy_moved:
  assumes ro: "roomy m L" and p: "L p = Some n" and sz: "request_ok sz"
    and m1: "malloc sz m = Some (q, m1)" "q \<noteq> 0" "q \<notin> dom L" "roomy m1 (L(q \<mapsto> uint sz))" "keeps m L m1"
      "mem_brk m \<le> mem_brk m1" "mem_brk m1 \<le> mem_brk m + required_size (uint sz)"
  obtains m' where "realloc p sz m = Some (q, m')" "roomy m' ((L(p := None))(q \<mapsto> uint sz))" "keeps m (L(p := None)) m'"
    "mem_brk m \<le> mem_brk m'" "mem_brk m' \<le> mem_brk m + required_size (uint sz)"
    "\<And>i. 0 \<le> i \<Longrightarrow> i < n \<Longrightarrow> i < uint sz \<Longrightarrow> bytes m' (q + i) = bytes m (p + i)"
proof -
  let ?L = "L(q \<mapsto> uint sz)"
  have pq: "p \<noteq> q" and Lp: "?L p = Some n" using p m1(3) by auto
  obtain s h where h: "load m1 (p - 8) = Some h" "block_size h = word_of_int s" "0 \<le> s" "s < 2 ^ 64" "s mod 8 = 0" "n + 8 \<le> s"
    "heap m1 \<le> p" "p + s \<le> mem_max_addr m1" "\<And>q' k. ?L q' = Some k \<Longrightarrow> q' \<noteq> p \<Longrightarrow> p + s \<le> q' \<or> q' + k \<le> p"
    using roomy_block [OF m1(4) Lp] by metis
  let ?c = "if sz > block_size h then block_size h else sz" and ?k = "nat (min s (uint sz))"
  have k: "unat ?c = ?k"
  proof -
    have u: "uint (block_size h) = s" using h(2-4) uint_size [of s] by simp
    then have "uint ?c = min s (uint sz)" unfolding word_less_def by auto
    then show ?thesis by (simp only: unat_eq_nat_uint)
  qed
  have k_le: "int ?k \<le> s" "int ?k \<le> uint sz" using h(3) by simp_all
  let ?bs = "read_bytes m1 p ?k"
  have in_q: "heap m1 + 16 \<le> q \<and> q + uint sz \<le> mem_brk m1 - 8" using sound_inside [OF roomy_sound [OF m1(4)], of q "uint sz"] by simp
  have brk: "mem_brk m1 \<le> mem_max_addr m1" using m1(4) by (auto simp: roomy_def heap_ok_def bounds_ok_def)
  have cp: "memcpy_loop m1 q p ?k = Some (write_bytes m1 q ?bs)"
  proof (rule memcpy_loop_spec)
    show "mapped m1 q ?k" using in_q brk k_le by (simp add: mapped_def)
    have "?k + slack ?k \<le> nat s"
    proof (rule slack_le)
      show "?k \<le> nat s" by simp
      show "nat s mod 8 = 0" using h(3,5) by (simp add: nat_mod_distrib [of s 8, symmetric, simplified])
    qed
    then have "int (?k + slack ?k) \<le> s" using h(3) by linarith
    then show "mapped m1 p (?k + slack ?k)" using h(7,8) by (simp add: mapped_def)
    have "p + s \<le> q \<or> q + uint sz \<le> p" using h(9) [of q "uint sz"] pq by simp
    then show "q + int ?k \<le> p \<or> p + int ?k \<le> q" using k_le by linarith
  qed
  let ?m2 = "write_bytes m1 q ?bs"
  have m2: "roomy ?m2 ?L" "keeps m1 (?L(q := None)) ?m2"
    using roomy_put [OF m1(4), of q "uint sz" q ?bs] k_le by simp_all
  obtain m3 where m3: "mm_free p ?m2 = Some m3" "roomy m3 (?L(p := None))" "keeps ?m2 (?L(p := None)) m3" "mem_brk m3 = mem_brk ?m2"
    by (rule roomy_free [OF m2(1) Lp])
  have p0: "p \<noteq> 0"
  proof -
    have "0 \<le> heap m1 \<and> heap m1 + 16 \<le> p" using sound_inside [OF roomy_sound [OF m1(4)] Lp] m1(4) by (auto simp: roomy_def heap_ok_def bounds_ok_def)
    then show ?thesis by simp
  qed
  have "sz \<noteq> 0" using sz by (auto simp: request_ok_def)
  then have "realloc p sz m = Some (q, m3)"
    using m1(1,2) h(1) k cp m3(1) p0 by (simp add: realloc_def mm_memcpy_def Let_def del: uint_nat)
  moreover have "roomy m3 ((L(p := None))(q \<mapsto> uint sz))" using m3(2) pq by (simp add: fun_upd_twist)
  moreover have "keeps m (L(p := None)) m3"
  proof (rule keeps_trans [OF keeps_trans [OF m1(5) m2(2)] m3(3)])
    show "L \<subseteq>\<^sub>m L" by simp
    show "L \<subseteq>\<^sub>m ?L(q := None)" "L(p := None) \<subseteq>\<^sub>m L" "L(p := None) \<subseteq>\<^sub>m ?L(p := None)"
      using m1(3) by (auto simp: map_le_def)
  qed
  moreover have "bytes m3 (q + i) = bytes m (p + i)" if i: "0 \<le> i" "i < n" "i < uint sz" for i
  proof -
    have ik: "nat i < ?k" using i h(6) by simp
    have "bytes m3 (q + i) = bytes ?m2 (q + i)" using m3(3) i pq unfolding keeps_def by (metis fun_upd_apply le_add_same_cancel1 add_less_cancel_left)
    also have "\<dots> = ?bs ! nat i" using ik i by (simp add: write_bytes_def overlay_def del: nat_less_eq_zless)
    also have "\<dots> = bytes m1 (p + i)" using nth_read_bytes [OF ik] i(1) by simp
    also have "\<dots> = bytes m (p + i)" using m1(5) p i unfolding keeps_def by (metis le_add_same_cancel1 add_less_cancel_left)
    finally show ?thesis .
  qed
  ultimately show thesis using that m1(6,7) m3(4) by simp
qed

lemma roomy_nonzero: "roomy m L \<Longrightarrow> L p = Some n \<Longrightarrow> p \<noteq> 0"
  using sound_inside [OF roomy_sound, of m L p n] by (auto simp: roomy_def heap_ok_def bounds_ok_def)

lemma roomy_realloc_cases:
  assumes ro: "roomy m L" and p: "L p = Some n" and sz: "request_ok sz"
  obtains (refused) m' where "realloc p sz m = Some (0, m')" "roomy m' (L(p := None))" "keeps m (L(p := None)) m'"
      "mem_max_addr m < mem_brk m + required_size (uint sz)"
  | (moved) q m' where "realloc p sz m = Some (q, m')" "q \<noteq> 0" "q \<notin> dom L" "roomy m' ((L(p := None))(q \<mapsto> uint sz))"
      "keeps m (L(p := None)) m'" "mem_brk m \<le> mem_brk m'" "mem_brk m' \<le> mem_brk m + required_size (uint sz)"
      "\<And>i. 0 \<le> i \<Longrightarrow> i < n \<Longrightarrow> i < uint sz \<Longrightarrow> bytes m' (q + i) = bytes m (p + i)"
proof (cases rule: roomy_malloc_cases [OF ro sz])
  case 1
  obtain m' where "mm_free p m = Some m'" "roomy m' (L(p := None))" "keeps m (L(p := None)) m'" by (rule roomy_free [OF ro p])
  moreover have "sz \<noteq> 0" using sz by (auto simp: request_ok_def)
  ultimately show thesis using refused 1 roomy_nonzero [OF ro p] by (simp add: realloc_def)
next
  case (2 q m1)
  show thesis by (rule roomy_moved [OF ro p sz 2]) (use moved 2(2,3) in blast)
qed

lemma roomy_realloc:
  assumes ro: "roomy m L" and p: "L p = Some n" and sz: "41 \<le> uint sz" "uint sz + 23 < 2 ^ 64"
    and fits: "mem_brk m + required_size (uint sz) \<le> mem_max_addr m"
  obtains q m' where "realloc p sz m = Some (q, m')" "q \<noteq> 0" "q \<notin> dom L" "roomy m' ((L(p := None))(q \<mapsto> uint sz))" "keeps m (L(p := None)) m'"
    "mem_brk m \<le> mem_brk m'" "mem_brk m' \<le> mem_brk m + required_size (uint sz)"
    "\<And>i. 0 \<le> i \<Longrightarrow> i < n \<Longrightarrow> i < uint sz \<Longrightarrow> bytes m' (q + i) = bytes m (p + i)"
proof -
  have "request_ok sz" using sz by (simp add: request_ok_def)
  from ro p this show thesis
  proof (cases rule: roomy_realloc_cases)
    case refused
    then show thesis using fits by simp
  next
    case (moved q m')
    then show thesis by (rule that)
  qed
qed

subsection \<open>A client\<close>

text \<open>
  A program that uses the allocator: it starts from \<open>mem_init\<close> and \<open>mm_init\<close>, calls \<open>malloc\<close>, \<open>realloc\<close>
  and \<open>free\<close>, and writes any bytes inside the blocks it holds. Its requests are of at least 41 bytes, and not
  so large that their size wraps. \<open>client m L\<close> says that the memory \<open>m\<close> and the map \<open>L\<close> from the pointers
  held to the sizes asked for can arise so.
\<close>

inductive client :: "mm \<Rightarrow> (int \<rightharpoonup> int) \<Rightarrow> bool" where
  start: "0 \<le> addr \<Longrightarrow> addr mod 16 = 0 \<Longrightarrow> addr < 2 ^ 61 \<Longrightarrow> mem_init (Some addr) = Some m0 \<Longrightarrow>
    mm_init (memsys.extend m0 \<lparr>free_block_pointer = 0\<rparr>) = Some (True, m) \<Longrightarrow> client m Map.empty"
| request: "client m L \<Longrightarrow> request_ok sz \<Longrightarrow> malloc sz m = Some (p, m') \<Longrightarrow> p \<noteq> 0 \<Longrightarrow> client m' (L(p \<mapsto> uint sz))"
| refused: "client m L \<Longrightarrow> request_ok sz \<or> sz = 0 \<Longrightarrow> malloc sz m = Some (0, m') \<Longrightarrow> client m' L"
| release: "client m L \<Longrightarrow> L p = Some n \<Longrightarrow> mm_free p m = Some m' \<Longrightarrow> client m' (L(p := None))"
| resize: "client m L \<Longrightarrow> L p = Some n \<Longrightarrow> request_ok sz \<Longrightarrow> realloc p sz m = Some (q, m') \<Longrightarrow>
    client m' (if q = 0 then L(p := None) else (L(p := None))(q \<mapsto> uint sz))"
| put: "client m L \<Longrightarrow> L p = Some n \<Longrightarrow> p \<le> a \<Longrightarrow> a + int (length vs) \<le> p + n \<Longrightarrow> client (write_bytes m a vs) L"

lemma client_roomy: "client m L \<Longrightarrow> roomy m L"
proof (induction rule: client.induct)
  case (start addr m0 m)
  let ?m = "memsys.extend m0 \<lparr>free_block_pointer = 0\<rparr> :: mm"
  have f: "mem_brk ?m = addr" "heap ?m = addr" "mem_max_addr ?m = addr + 2 ^ 40"
    using start(4) by (auto simp: mem_init_def mem_reset_brk_def memsys.defs MAX_HEAP_SIZE_def)
  show ?case by (rule roomy_start [of ?m]) (use start f in simp_all)
next
  case (request m L sz p m')
  from request(5,2) show ?case by (cases rule: roomy_malloc_cases) (metis request(3,4) option.inject prod.inject)+
next
  case (refused m L sz m')
  show ?case
  proof (cases "sz = 0")
    case False
    then have "request_ok sz" using refused(2) by simp
    from refused(4) this show ?thesis by (cases rule: roomy_malloc_cases) (metis refused(3,4) option.inject prod.inject)+
  qed (use refused in \<open>simp add: malloc_def\<close>)
next
  case (release m L p n m')
  show ?case by (rule roomy_free [OF release(4,2)]) (metis release(3) option.inject)
next
  case (resize m L p n sz q m')
  from resize(5,2,3) show ?case
  proof (cases rule: roomy_realloc_cases)
    case (refused m1)
    then have "q = 0" "m' = m1" using resize(4) by simp_all
    then show ?thesis using refused(2) by metis
  next
    case (moved r m1)
    then have "q = r" "m' = m1" using resize(4) by simp_all
    then show ?thesis using moved(2,4) by metis
  qed
next
  case (put m L p n a vs)
  show ?case by (rule roomy_put(1)) (fact put)+
qed

lemmas client_sound = roomy_sound [OF client_roomy]

end
