(* ===== verification/Mm_Props.thy ===== *)
theory Mm_Props
  imports Mm_Roomy
begin

unbundle bit_operations_syntax

text \<open>
  The properties of the allocator, each with its witness. The witnesses run a small client on
  a heap at address 4096: \<open>mm_init\<close>, some \<open>malloc(56)\<close>, some \<open>free\<close>; those of the defects use \<open>malloc(24)\<close>.
\<close>

subsection \<open>Concrete heaps\<close>

definition fresh_mm :: mm where
  "fresh_mm = memsys.extend (the (mem_init (Some 4096))) \<lparr>free_block_pointer = 0\<rparr>"

definition demo0 :: mm where
  "demo0 = snd (the (mm_init fresh_mm))"

lemma fresh_mm_facts: "mem_brk fresh_mm = 4096" "heap fresh_mm = 4096" "mem_max_addr fresh_mm = 4096 + 2 ^ 40"
  by (simp_all add: fresh_mm_def mem_init_def mem_reset_brk_def memsys.defs MAX_HEAP_SIZE_def)

lemma demo0_heap: "mm_init fresh_mm = Some (True, demo0)" "heap_ok demo0 [(4096, False)] [4104]" "heap demo0 = 4096"
proof -
  obtain m where m: "mm_init fresh_mm = Some (True, m)" "heap_ok m [(4096, False)] [4104]" "heap m = 4096"
    using mm_init_spec [of fresh_mm] fresh_mm_facts by auto
  then have "demo0 = m" by (simp add: demo0_def)
  then show "mm_init fresh_mm = Some (True, demo0)" "heap_ok demo0 [(4096, False)] [4104]" "heap demo0 = 4096"
    using m by simp_all
qed

lemma demo0_client: "client demo0 Map.empty"
proof (rule client.start [of 4096 "the (mem_init (Some 4096))"])
  show "mem_init (Some 4096) = Some (the (mem_init (Some 4096)))" by (simp add: mem_init_def)
  show "mm_init (memsys.extend (the (mem_init (Some 4096))) \<lparr>free_block_pointer = 0\<rparr>) = Some (True, demo0)"
    using demo0_heap(1) by (simp add: fresh_mm_def)
qed simp_all

text \<open>\<open>malloc\<close> splits a large first block.\<close>

lemma malloc_front:
  assumes ok: "heap_ok m ((s, False) # ys) [heap m + 8]" and n: "sz \<noteq> 0" "uint sz + 23 < 2 ^ 64"
    and r: "required_size (uint sz) = r" and s: "r + 64 \<le> s"
  shows "\<exists>m'. malloc sz m = Some (heap m + s - r + 16, m') \<and> heap_ok m' ((s - r, False) # (r, True) # ys) [heap m + 8] \<and>
    heap m' = heap m"
proof -
  let ?lo = "heap m" and ?f = "heap m + 8" and ?r = "word_of_int r :: u64"
  obtain brk mx w where v: "view m ?lo brk mx (hd ([?f] @ [0])) w" and bd: "bounds_ok ?lo brk mx"
    and brk: "?lo + 16 + extent ((s, False) # ys) = brk" and sh: "shape ?lo w ((s, False) # ys) [?f]"
    using ok by (auto simp: heap_ok_view view_def)
  have lo: "0 \<le> ?lo" "?lo mod 16 = 0" "?lo + 16 + extent ([] @ (s, False) # ys) < 2 ^ 62" using bd brk by (auto simp: bounds_ok_def)
  have req: "32 \<le> r" "r mod 16 = 0" using r by (auto simp: required_size_def max_def)
  have mal: "malloc sz m = do { b \<leftarrow> search ?r m; (if b \<noteq> 0 then place b ?r m else extend ?r m) }"
  proof -
    have "(if align (sz + 8) < 32 then 32 else align (sz + 8)) = ?r" using align_size [OF n(2)] r by (simp add: Let_def)
    then show ?thesis unfolding malloc_def Let_def using n(1) by (simp only: if_False)
  qed
  have sz_s: "s < 2 ^ 62" "s mod 16 = 0" "\<exists>p. w ?f = Some (hdr s False p)"
  proof -
    have "sizes_ok ys" using shape_size [OF sh] by simp
    then show "s < 2 ^ 62" using lo(1,3) extent_bounds [of ys] by simp
    show "s mod 16 = 0" using shape_size [OF sh] by simp
    show "\<exists>p. w ?f = Some (hdr s False p)" using sh by (auto simp: shape_def block_ok_def)
  qed
  then obtain h where h: "w ?f = Some h" "block_size h = word_of_int s" using hdr_facts(1) by metis
  have "?r \<le> (word_of_int s :: u64)" using s sz_s(1) req(1) by (simp add: word_le_def uint_size)
  moreover have "?f \<noteq> 0" using lo(1) by simp
  ultimately have "search ?r m = Some ?f"
    using h view_load [OF v h(1)] v by (simp add: search_def search_loop.simps view_def)
  moreover obtain m' w' where m': "place ?f ?r m = Some (?f + (s - r) + 8, m')" "view m' ?lo brk mx ?f w'"
    "shape ?lo w' ((s - r, False) # (r, True) # ys) [?f]"
  proof (rule place_split [of m ?lo brk mx "[?f]" w "[]" s ys r])
    fix m' w'
    assume "place (?lo + 8 + extent []) (word_of_int r) m = Some (?lo + 8 + extent [] + (s - r) + 8, m')"
      "view m' ?lo brk mx (hd ([?f] @ [0])) w'" "shape ?lo w' ([] @ (s - r, False) # (r, True) # ys) [?f]"
    then show thesis using that by simp
  qed (use v sh lo s req in simp_all)
  moreover have "heap_ok m' ((s - r, False) # (r, True) # ys) [?f]"
    unfolding heap_ok_view using m'(2,3) bd brk
    by (intro exI [of _ ?lo] exI [of _ brk] exI [of _ mx] exI [of _ w']) simp
  ultimately show ?thesis using mal \<open>?f \<noteq> 0\<close> m'(2) by (simp add: view_def algebra_simps)
qed

text \<open>Three blocks taken from the end.\<close>

definition demo1 :: mm where "demo1 = snd (the (malloc 24 demo0))"
definition demo2 :: mm where "demo2 = snd (the (malloc 24 demo1))"
definition demo3 :: mm where "demo3 = snd (the (malloc 24 demo2))"

lemma demo1_heap: "malloc 24 demo0 = Some (8176, demo1)" "heap_ok demo1 [(4064, False), (32, True)] [4104]" "heap demo1 = 4096"
  using malloc_front [of demo0 4096 "[]" 24 32] demo0_heap by (auto simp: demo1_def required_size_def)

lemma demo2_heap: "malloc 24 demo1 = Some (8144, demo2)" "heap_ok demo2 [(4032, False), (32, True), (32, True)] [4104]" "heap demo2 = 4096"
  using malloc_front [of demo1 4064 "[(32, True)]" 24 32] demo1_heap by (auto simp: demo2_def required_size_def)

lemma demo3_heap: "malloc 24 demo2 = Some (8112, demo3)"
  "heap_ok demo3 [(4000, False), (32, True), (32, True), (32, True)] [4104]" "heap demo3 = 4096"
  using malloc_front [of demo2 4032 "[(32, True), (32, True)]" 24 32] demo2_heap by (auto simp: demo3_def required_size_def)

text \<open>A client: three larger blocks, and the last of them freed.\<close>

definition large1 :: mm where "large1 = snd (the (malloc 56 demo0))"
definition large2 :: mm where "large2 = snd (the (malloc 56 large1))"
definition large3 :: mm where "large3 = snd (the (malloc 56 large2))"
definition large4 :: mm where "large4 = the (mm_free 8144 large3)"

lemma large_heaps: "malloc 56 demo0 = Some (8144, large1)" "malloc 56 large1 = Some (8080, large2)" "malloc 56 large2 = Some (8016, large3)"
proof -
  have 1: "malloc 56 demo0 = Some (8144, large1) \<and> heap_ok large1 [(4032, False), (64, True)] [4104] \<and> heap large1 = 4096"
    using malloc_front [of demo0 4096 "[]" 56 64] demo0_heap by (auto simp: large1_def required_size_def)
  have 2: "malloc 56 large1 = Some (8080, large2) \<and> heap_ok large2 [(3968, False), (64, True), (64, True)] [4104] \<and> heap large2 = 4096"
    using malloc_front [of large1 4032 "[(64, True)]" 56 64] 1 by (auto simp: large2_def required_size_def)
  have "malloc 56 large2 = Some (8016, large3)"
    using malloc_front [of large2 3968 "[(64, True), (64, True)]" 56 64] 2 by (auto simp: large3_def required_size_def)
  then show "malloc 56 demo0 = Some (8144, large1)" "malloc 56 large1 = Some (8080, large2)" "malloc 56 large2 = Some (8016, large3)"
    using 1 2 by simp_all
qed

lemma large_clients:
  "client large1 [8144 \<mapsto> 56]" "client large2 [8144 \<mapsto> 56, 8080 \<mapsto> 56]" "client large3 [8144 \<mapsto> 56, 8080 \<mapsto> 56, 8016 \<mapsto> 56]"
proof -
  have ok: "request_ok 56" by (simp add: request_ok_def)
  show 1: "client large1 [8144 \<mapsto> 56]" using client.request [OF demo0_client ok large_heaps(1)] by simp
  show 2: "client large2 [8144 \<mapsto> 56, 8080 \<mapsto> 56]" using client.request [OF 1 ok large_heaps(2)] by simp
  show "client large3 [8144 \<mapsto> 56, 8080 \<mapsto> 56, 8016 \<mapsto> 56]" using client.request [OF 2 ok large_heaps(3)] by simp
qed

lemma large4_free: "mm_free 8144 large3 = Some large4"
proof -
  have "[8144 \<mapsto> 56, 8080 \<mapsto> 56, 8016 \<mapsto> (56 :: int)] 8144 = Some (56 :: int)" by simp
  then obtain m where "mm_free 8144 large3 = Some m" by (rule roomy_free [OF client_roomy [OF large_clients(3)]])
  then show ?thesis by (simp add: large4_def)
qed

subsection \<open>Initialisation, malloc and free\<close>

text \<open>
  C22. On a fresh heap at a 16-byte aligned address, \<open>mm_init\<close> fails when fewer than 4112 bytes
  can be had and leaves the memory alone; otherwise it makes a well-formed heap of one free block
  of 4096 bytes.
\<close>

theorem mm_init_result:
  assumes "mem_brk m = heap m" "0 \<le> heap m" "heap m mod 16 = 0" "mem_max_addr m < 2 ^ 62"
  shows "if mem_max_addr m < heap m + 4112 then mm_init m = Some (False, m)
    else \<exists>m'. mm_init m = Some (True, m') \<and> heap_ok m' [(4096, False)] [heap m + 8]"
  using mm_init_spec [OF assms] by (auto split: if_splits)

theorem mm_init_result_witness:
  "(\<exists>m'. mm_init fresh_mm = Some (True, m') \<and> heap_ok m' [(4096, False)] [4104]) \<and>
   mm_init (fresh_mm\<lparr>mem_max_addr := 4096\<rparr>) = Some (False, fresh_mm\<lparr>mem_max_addr := 4096\<rparr>)"
  using mm_init_result [of fresh_mm] mm_init_result [of "fresh_mm\<lparr>mem_max_addr := 4096\<rparr>"] fresh_mm_facts by simp

text \<open>
  C8. \<open>malloc\<close> on a well-formed heap returns \<open>NULL\<close> and changes nothing exactly when no free block
  is large enough and the heap cannot grow; otherwise it hands out a 16-byte aligned block with room
  for the request that was not allocated before, keeps every other allocated block and its contents,
  and leaves a well-formed heap without adjacent free blocks.
\<close>

theorem malloc_result:
  assumes "heap_ok m bs fl" "no_adjacent True bs" "sz \<noteq> 0" "uint sz + 23 < 2 ^ 64"
  shows "\<exists>p m'. malloc sz m = Some (p, m') \<and>
    (if exhausted m bs (required_size (uint sz)) then p = 0 \<and> m' = m else allocated m bs (uint sz) m' p)"
  by (rule malloc_spec [OF assms])

theorem malloc_result_witness:
  "(\<exists>p m'. malloc 24 demo0 = Some (p, m') \<and> allocated demo0 [(4096, False)] 24 m' p) \<and>
   (\<exists>m'. malloc (2 ^ 50) demo0 = Some (0, m') \<and> m' = demo0)"
proof -
  have brk: "mem_brk demo0 = 8208" "mem_max_addr demo0 = 4096 + 2 ^ 40"
    using demo0_heap(2,3) mm_init_spec [of fresh_mm] fresh_mm_facts demo0_heap(1) by (auto simp: heap_ok_def)
  have "\<not> exhausted demo0 [(4096, False)] (required_size 24)" "exhausted demo0 [(4096, False)] (required_size (2 ^ 50))"
    using brk by (simp_all add: exhausted_def required_size_def)
  then show ?thesis
    using malloc_result [OF demo0_heap(2), of 24] malloc_result [OF demo0_heap(2), of "2 ^ 50"] by simp
qed

text \<open>
  C9. \<open>free\<close> of an allocated block on a well-formed heap without adjacent free blocks succeeds, takes exactly
  that block out of the allocated ones, keeps the contents of the others and leaves a well-formed heap. It merges
  the block with its free neighbours, so that again no two free blocks are adjacent, in all cases but one: a free
  block of 32 or 48 bytes behind it that ends the heap (not \<open>end_ok\<close>) stays unmerged.
\<close>

theorem free_result:
  assumes "heap_ok m bs fl" "no_adjacent True bs" "bs = xs @ (s, True) # ys" "p = heap m + 16 + extent xs"
  shows "\<exists>m' bs' fl'. mm_free p m = Some m' \<and> heap_ok m' bs' fl' \<and> heap m' = heap m \<and> mem_brk m' = mem_brk m \<and>
    alloc (heap m + 8) bs' = alloc (heap m + 8) bs - {(p - 8, s)} \<and> payload_kept m bs m' bs' \<and>
    (no_adjacent True bs' \<longleftrightarrow> end_ok ys)"
  by (rule mm_free_total [OF assms]) (unfold freed_block_def, blast)

theorem free_result_witness:
  "\<exists>m' bs' fl'. mm_free 8144 demo2 = Some m' \<and> heap_ok m' bs' fl' \<and> no_adjacent True bs' \<and> alloc 4104 bs' = {(8168, 32)}"
proof -
  have "\<exists>m' bs' fl'. mm_free 8144 demo2 = Some m' \<and> heap_ok m' bs' fl' \<and> heap m' = heap demo2 \<and> mem_brk m' = mem_brk demo2 \<and>
    alloc (heap demo2 + 8) bs' = alloc (heap demo2 + 8) [(4032, False), (32, True), (32, True)] - {(8144 - 8, 32)} \<and>
    payload_kept demo2 [(4032, False), (32, True), (32, True)] m' bs' \<and> (no_adjacent True bs' \<longleftrightarrow> end_ok [(32, True)])"
    by (rule free_result [OF demo2_heap(2), where xs = "[(4032, False)]"]) (simp_all add: demo2_heap(3))
  moreover have "end_ok [(32, True)]" by (simp add: end_ok_def)
  moreover have "alloc 4104 [(4032, False), (32, True), (32, True)] - {(8136, 32)} = {(8168, 32)}"
    by (auto simp: alloc_def)
  ultimately show ?thesis by (auto simp: demo2_heap(3))
qed

subsection \<open>Clients\<close>

text \<open>
  C3. In every state that a client whose requests are all of at least 41 bytes can reach with \<open>malloc\<close>, \<open>realloc\<close>,
  \<open>free\<close> and writes inside its blocks, the heap is well formed, no two free blocks are adjacent, and the allocated
  blocks are exactly those the client holds, each as large as asked. (Smaller requests can make the allocator miss a merge,
  after which its heap is no longer sound.)
\<close>

theorem client_heap_sound:
  assumes "client m L"
  shows "sound m L"
  by (rule client_sound [OF assms])

theorem client_heap_sound_witness: "sound large3 [8144 \<mapsto> 56, 8080 \<mapsto> 56, 8016 \<mapsto> 56]"
  by (rule client_heap_sound [OF large_clients(3)])

text \<open>C14. Two blocks that a client holds, whose requests are all of at least 41 bytes, never overlap.\<close>

theorem live_blocks_disjoint:
  assumes "client m L" "L p = Some n" "L q = Some k" "p \<noteq> q"
  shows "p + n \<le> q \<or> q + k \<le> p"
  using sound_disjoint [OF client_sound [OF assms(1)] assms(2-4)] .

theorem live_blocks_disjoint_witness: "(8080 :: int) + 56 \<le> 8144 \<or> (8144 :: int) + 56 \<le> 8080"
  by (rule live_blocks_disjoint [OF large_clients(2)]) simp_all

text \<open>A block a client holds is 16-byte aligned and lies inside the heap, behind the prologue and before the epilogue.\<close>

lemma live_block_inside:
  assumes "client m L" "L p = Some n"
  shows "heap m + 16 \<le> p \<and> p + n \<le> mem_brk m - 8 \<and> p mod 16 = 0 \<and> 0 < n"
  by (rule sound_inside [OF client_sound [OF assms(1)] assms(2)])

text \<open>
  C15. When a client, whose requests are all of at least 41 bytes, calls \<open>malloc\<close> or \<open>realloc\<close>, no byte of a block that it
  holds (other than the one it gives to \<open>realloc\<close>) changes, and a block that \<open>realloc\<close> moves has the old contents, up to the
  smaller of the two sizes.
\<close>

theorem malloc_keeps_contents:
  assumes "client m L" "request_ok sz"
  shows "(\<exists>p m'. malloc sz m = Some (p, m') \<and> (\<forall>q k x. L q = Some k \<longrightarrow> q \<le> x \<longrightarrow> x < q + k \<longrightarrow> bytes m' x = bytes m x)) \<and>
    (\<forall>p n. L p = Some n \<longrightarrow> (\<exists>r m'. realloc p sz m = Some (r, m') \<and>
      (\<forall>q k x. L q = Some k \<longrightarrow> q \<noteq> p \<longrightarrow> q \<le> x \<longrightarrow> x < q + k \<longrightarrow> bytes m' x = bytes m x) \<and>
      (\<forall>i. r \<noteq> 0 \<longrightarrow> 0 \<le> i \<longrightarrow> i < n \<longrightarrow> i < uint sz \<longrightarrow> bytes m' (r + i) = bytes m (p + i))))"
proof (intro conjI allI impI)
  note ro = client_roomy [OF assms(1)]
  show "\<exists>p m'. malloc sz m = Some (p, m') \<and> (\<forall>q k x. L q = Some k \<longrightarrow> q \<le> x \<longrightarrow> x < q + k \<longrightarrow> bytes m' x = bytes m x)"
    by (cases rule: roomy_malloc_cases [OF ro assms(2)]) (auto simp: keeps_def)
  fix p n
  assume p: "L p = Some n"
  show "\<exists>r m'. realloc p sz m = Some (r, m') \<and>
      (\<forall>q k x. L q = Some k \<longrightarrow> q \<noteq> p \<longrightarrow> q \<le> x \<longrightarrow> x < q + k \<longrightarrow> bytes m' x = bytes m x) \<and>
      (\<forall>i. r \<noteq> 0 \<longrightarrow> 0 \<le> i \<longrightarrow> i < n \<longrightarrow> i < uint sz \<longrightarrow> bytes m' (r + i) = bytes m (p + i))"
    by (cases rule: roomy_realloc_cases [OF ro p assms(2)]) (blast dest: keepsD)+
qed

theorem malloc_keeps_contents_witness: "bytes large2 8150 = bytes large1 8150"
proof -
  have ok: "request_ok 56" by (simp add: request_ok_def)
  have "[8144 \<mapsto> (56 :: int)] 8144 = Some (56 :: int)" "8144 \<le> (8150 :: int)" "8150 < 8144 + (56 :: int)" by simp_all
  then show ?thesis
    using malloc_keeps_contents [OF large_clients(1) ok, THEN conjunct1] large_heaps(2) by (metis option.inject prod.inject)
qed

text \<open>
  C16. When a client, whose requests are all of at least 41 bytes, frees a block it holds, \<open>free\<close> succeeds and no byte of the other
  blocks it holds changes.
\<close>

theorem free_keeps_contents:
  assumes "client m L" "L p = Some n"
  shows "\<exists>m'. mm_free p m = Some m' \<and> client m' (L(p := None)) \<and>
    (\<forall>q k x. L q = Some k \<longrightarrow> q \<noteq> p \<longrightarrow> q \<le> x \<longrightarrow> x < q + k \<longrightarrow> bytes m' x = bytes m x)"
proof -
  obtain m' where m': "mm_free p m = Some m'" "keeps m (L(p := None)) m'" by (rule roomy_free [OF client_roomy [OF assms(1)] assms(2)])
  then show ?thesis using client.release [OF assms m'(1)] keepsD by blast
qed

theorem free_keeps_contents_witness: "bytes large4 8090 = bytes large3 8090"
proof -
  have "[8144 \<mapsto> 56, 8080 \<mapsto> 56, 8016 \<mapsto> (56 :: int)] 8144 = Some (56 :: int)"
    "[8144 \<mapsto> 56, 8080 \<mapsto> 56, 8016 \<mapsto> (56 :: int)] 8080 = Some (56 :: int)"
    "8080 \<noteq> (8144 :: int)" "8080 \<le> (8090 :: int)" "8090 < 8080 + (56 :: int)" by simp_all
  then show ?thesis
    using free_keeps_contents [OF large_clients(3), of 8144 56] large4_free by (metis option.inject)
qed

text \<open>The last of three small blocks is freed: nothing lies behind it.\<close>

definition demo4 :: mm where "demo4 = the (mm_free 8176 demo3)"

lemma demo4_free: "mm_free 8176 demo3 = Some demo4" "heap demo4 = 4096"
  "\<exists>fl. heap_ok demo4 [(4000, False), (32, True), (32, True), (32, False)] fl"
proof -
  let ?pre = "[(4000, False), (32, True), (32, True)]"
  have ok: "heap_ok demo3 (?pre @ [] @ (32, True) # [] @ []) [4104]" using demo3_heap(2) by simp
  have n: "neighbour []" "last_al True ?pre" "unmerged []" by (simp_all add: neighbour_simps unmerged_def)
  obtain m fl where m: "mm_free 8176 demo3 = Some m" "heap_ok m [(4000, False), (32, True), (32, True), (32, False)] fl" "heap m = 4096"
    by (rule mm_free_blocks [OF ok n(1,1,2,3)]) (use demo3_heap(3) that in \<open>auto simp: freed_block_def\<close>)
  then have "demo4 = m" by (simp add: demo4_def)
  then show "mm_free 8176 demo3 = Some demo4" "heap demo4 = 4096"
    "\<exists>fl. heap_ok demo4 [(4000, False), (32, True), (32, True), (32, False)] fl" using m by auto
qed

text \<open>
  C36. Freeing the block in front of a free block of 32 or 48 bytes that ends the heap does not merge the
  two: the bound \<open>mm_heap_hi() - 56\<close> of \<open>coalesce\<close> takes that block for the epilogue.
\<close>

theorem free_misses_small_end:
  assumes "heap_ok m (xs @ [(s, True), (u, False)]) fl" "u < 64" "last_al True xs" "p = heap m + 16 + extent xs"
  shows "\<exists>m'. mm_free p m = Some m' \<and> heap_ok m' (xs @ [(s, False), (u, False)]) ((p - 8) # fl)"
proof -
  have "p = heap m + 8 + extent xs + 8" "p - 8 = heap m + 8 + extent xs" using assms(4) by simp_all
  then show ?thesis using mm_free_small_end [OF assms(1-3)] by metis
qed

theorem free_misses_small_end_witness:
  "\<exists>m' fl. mm_free 8144 demo4 = Some m' \<and> heap_ok m' [(4000, False), (32, True), (32, False), (32, False)] fl"
proof -
  obtain fl where "heap_ok demo4 ([(4000, False), (32, True)] @ [(32, True), (32, False)]) fl" using demo4_free(3) by auto
  then show ?thesis using free_misses_small_end [of demo4 "[(4000, False), (32, True)]" 32 32 fl 8144] demo4_free(2) by auto
qed

subsection \<open>The checker, realloc and sizes that wrap\<close>

text \<open>
  C24. On every heap that a client can reach whose requests are all of at least 41 bytes, the debug build of \<open>mm_checkheap\<close> ends and
  reports nothing.
\<close>

theorem checkheap_clean:
  assumes "client m L"
  shows "mm_checkheap True m = Some ([], True)"
  using client_sound [OF assms] heap_ok_checks by (auto simp: sound_def)

theorem checkheap_clean_witness: "mm_checkheap True large3 = Some ([], True)"
  by (rule checkheap_clean [OF large_clients(3)])

text \<open>
  C37. When the heap is exhausted \<open>realloc\<close> returns \<open>NULL\<close> and still frees the old block, so the client
  loses it.
\<close>

theorem realloc_failure_frees:
  assumes "heap_ok m bs fl" "no_adjacent True bs" "bs = xs @ (s, True) # ys" "end_ok ys" "p = heap m + 16 + extent xs"
    "sz \<noteq> 0" "uint sz + 23 < 2 ^ 64" "exhausted m bs (required_size (uint sz))"
  shows "\<exists>m'. realloc p sz m = Some (0, m') \<and> freed m bs p s m'"
proof -
  have "malloc sz m = Some (0, m)" using malloc_spec [OF assms(1,2,6,7)] assms(8) by simp
  moreover have "sizes_ok xs" using heap_ok_sizes [OF assms(1)] assms(3) by simp
  then have "p \<noteq> 0" using assms(1,5) extent_bounds [of xs] by (auto simp: heap_ok_def bounds_ok_def)
  ultimately show ?thesis using mm_free_spec [OF assms(1-5)] assms(6) by (auto simp: realloc_def)
qed

theorem realloc_failure_frees_witness:
  "\<exists>m'. realloc 8176 (2 ^ 50) demo1 = Some (0, m') \<and> freed demo1 [(4064, False), (32, True)] 8176 32 m'"
proof -
  have "mem_max_addr demo0 = 4096 + 2 ^ 40"
    using mm_init_spec [of fresh_mm] fresh_mm_facts demo0_heap(1) by auto
  then have "mem_max_addr demo1 \<le> 4096 + 2 ^ 40"
    using malloc_spec [OF demo0_heap(2), of 24] demo1_heap(1) by (auto simp: allocated_def split: if_splits)
  moreover have "0 \<le> mem_brk demo1" using demo1_heap(2,3) by (simp add: heap_ok_def)
  ultimately have "exhausted demo1 [(4064, False), (32, True)] (required_size (uint (2 ^ 50 :: u64)))"
    by (simp add: exhausted_def required_size_def)
  then show ?thesis
    by (intro realloc_failure_frees [OF demo1_heap(2), where xs = "[(4064, False)]" and ys = "[]"])
      (simp_all add: end_ok_def demo1_heap(3))
qed

text \<open>
  C38. A request of at least \<open>2 ^ 64 - 23\<close> bytes is not refused: the size computation wraps and \<open>malloc\<close>
  answers it like a request for one byte.
\<close>

theorem malloc_wraps:
  assumes "2 ^ 64 - 23 \<le> uint sz"
  shows "malloc sz m = malloc 1 m"
proof -
  have le: "uint (sz + 23) \<le> 22"
  proof -
    have "uint sz < 2 ^ 64" using uint_lt2p [of sz] by simp
    then have "uint (sz + 23) = uint sz + 23 - 2 ^ 64" using assms uint_plus_if' [of sz 23] by simp
    then show ?thesis using \<open>uint sz < 2 ^ 64\<close> by simp
  qed
  have "uint ((sz + 23) div 16) = uint (sz + 23) div 16" by (simp add: uint_div)
  then have "uint ((sz + 23) div 16) \<in> {0, 1}" using le uint_ge_0 [of "sz + 23"] by auto
  then have "(sz + 23) div 16 = 0 \<or> (sz + 23) div 16 = 1" by (metis insertE singletonD uint_0_iff uint_1 word_uint_eq_iff)
  moreover have "align (sz + 8) = 16 * ((sz + 23) div 16)" by (simp add: align_def add.commute)
  moreover have "(16 :: u64) * 0 < 32" "(16 :: u64) * 1 < 32" by simp_all
  ultimately have "align (sz + 8) < 32" by metis
  moreover have "align (1 + 8) < 32" by (simp add: align_def)
  moreover have "sz \<noteq> 0" using assms by auto
  ultimately show ?thesis by (simp add: malloc_def)
qed

theorem malloc_wraps_witness: "malloc 0xFFFFFFFFFFFFFFF0 demo0 = malloc 1 demo0"
  by (rule malloc_wraps) simp

end
