(* ===== verification/Range_Chain.thy ===== *)
theory Range_Chain
  imports Range_Props
begin

text \<open>
  The range set when its owner adds only ranges that overlap none of those in it. A range below all others
  starts a new chain, since \<open>add_range\<close> does not link it to the old head; the tree still holds every
  range, each chain ascends, and so the set goes on accepting ranges that do not overlap.
\<close>

subsection \<open>Entries as sets\<close>

lemma represents_keys: "represents t es \<Longrightarrow> sorted_wrt (<) (map fst es)"
  by (auto simp: represents_def entries_of_def ordered_def sorted_wrt_map comp_def)

lemma entry_unique: "sorted_wrt (<) (map fst es) \<Longrightarrow> (k, r) \<in> set es \<Longrightarrow> (k, s) \<in> set es \<Longrightarrow> r = (s :: ptr)" for k :: int
  by (metis eq_key_imp_eq_value strict_sorted_iff)

lemma lookup_entry: "sorted_wrt (<) (map fst es) \<Longrightarrow> (k, r) \<in> set es \<Longrightarrow> lookup k es = r"
  by (simp add: lookup_def strict_sorted_iff)

lemma lookup_none: "k \<notin> fst ` set es \<Longrightarrow> lookup k es = NULL"
  using map_of_eq_None_iff [of es k] by (simp add: lookup_def)

lemma nearest_cases:
  assumes "sorted_wrt (<) (map fst es)"
  obtains "nearest k es = NULL" "\<forall>e \<in> set es. k < fst e"
  | k' r where "nearest k es = r" "(k', r) \<in> set es" "k' \<le> k" "\<forall>e \<in> set es. fst e \<le> k \<longrightarrow> fst e \<le> k'"
proof (cases "filter (\<lambda>e. fst e \<le> k) es" rule: rev_cases)
  case Nil
  then show ?thesis using that(1) by (auto simp: nearest_def filter_empty_conv not_le)
next
  case (snoc ys y)
  have "sorted_wrt (\<lambda>a b. fst a < fst b) (filter (\<lambda>e. fst e \<le> k) es)"
    using assms by (simp add: sorted_wrt_map sorted_wrt_filter)
  then have le: "\<forall>e \<in> set ys. fst e < fst y" using snoc by (simp add: sorted_wrt_append)
  have s: "set ys \<union> {y} = {e \<in> set es. fst e \<le> k}" using arg_cong [OF snoc, of set] by auto
  show ?thesis
  proof (rule that(2))
    show "nearest k es = snd y" using snoc by (simp add: nearest_def)
    show "(fst y, snd y) \<in> set es" "fst y \<le> k" using s by auto
    show "\<forall>e \<in> set es. fst e \<le> k \<longrightarrow> fst e \<le> fst y"
    proof (intro ballI impI)
      fix e assume "e \<in> set es" "fst e \<le> k"
      then have "e \<in> set ys \<union> {y}" using s by blast
      then show "fst e \<le> fst y" using le by auto
    qed
  qed
qed

lemma set_put: "k \<notin> fst ` set es \<Longrightarrow> set (put k r es) = insert (k, r) (set es)"
  by (force simp: put_def)

lemma set_delete: "set (delete k es) = {e \<in> set es. fst e \<noteq> k}"
  by (auto simp: delete_def)

subsection \<open>Chains\<close>

text \<open>The ranges in a set, by low address: how long each is, and the index of its block.\<close>

type_synonym range_map = "int \<rightharpoonup> int \<times> int"

definition stored :: "range_t heap \<Rightarrow> range_map \<Rightarrow> bool" where
  "stored h R \<longleftrightarrow>
     (\<forall>a c. h a = Some c \<longrightarrow> (let r = node_data c in R (lo r) = Some (hi r - lo r + 1, index r) \<and> 0 \<le> lo r \<and> lo r \<le> hi r \<and> hi r < 2 ^ 63)) \<and>
     (\<forall>p x. R p = Some x \<longrightarrow> (\<exists>a c. h a = Some c \<and> lo (node_data c) = p))"

definition chains :: "range_t heap \<Rightarrow> bool" where
  "chains h \<longleftrightarrow>
     (\<forall>a c b. h a = Some c \<and> node_next c = Some b \<longrightarrow>
        (\<exists>d. h b = Some d \<and> node_prev d = Some a \<and> lo (node_data c) < lo (node_data d))) \<and>
     (\<forall>a c b. h a = Some c \<and> node_prev c = Some b \<longrightarrow> (\<exists>d. h b = Some d \<and> node_next d = Some a))"

definition indexes :: "entries \<Rightarrow> range_t heap \<Rightarrow> bool" where
  "indexes es h \<longleftrightarrow> (\<forall>k r. (k, r) \<in> set es \<longleftrightarrow> (\<exists>a c. r = Some a \<and> h a = Some c \<and> k = lo (node_data c)))"

definition starts_at :: "ptr \<Rightarrow> range_t heap \<Rightarrow> bool" where
  "starts_at p h \<longleftrightarrow> (\<forall>a. p = Some a \<longrightarrow> (\<exists>c. h a = Some c \<and> node_prev c = NULL))"

definition chained :: "range_set_t \<Rightarrow> range_map \<Rightarrow> bool" where
  "chained s R \<longleftrightarrow> (\<exists>es. represents (lo_tree s) es \<and> indexes es (range_cells s)) \<and>
     stored (range_cells s) R \<and> chains (range_cells s) \<and> starts_at (range_list s) (range_cells s)"

lemma stored_cell:
  assumes "stored h R" "h a = Some c"
  shows "R (lo (node_data c)) = Some (hi (node_data c) - lo (node_data c) + 1, index (node_data c))"
    "0 \<le> lo (node_data c)" "lo (node_data c) \<le> hi (node_data c)" "hi (node_data c) < 2 ^ 63"
  using assms unfolding stored_def Let_def by blast+

lemma stored_range: "stored h R \<Longrightarrow> R p = Some x \<Longrightarrow> \<exists>a c. h a = Some c \<and> lo (node_data c) = p"
  unfolding stored_def by blast

lemma next_cell:
  "chains h \<Longrightarrow> h a = Some c \<Longrightarrow> node_next c = Some b \<Longrightarrow>
   \<exists>d. h b = Some d \<and> node_prev d = Some a \<and> lo (node_data c) < lo (node_data d)"
  unfolding chains_def by blast

lemma prev_cell: "chains h \<Longrightarrow> h a = Some c \<Longrightarrow> node_prev c = Some b \<Longrightarrow> \<exists>d. h b = Some d \<and> node_next d = Some a"
  unfolding chains_def by blast

lemma indexes_cell: "indexes es h \<Longrightarrow> h a = Some c \<Longrightarrow> (lo (node_data c), Some a) \<in> set es"
  unfolding indexes_def by blast

lemma indexes_entry: "indexes es h \<Longrightarrow> (k, r) \<in> set es \<Longrightarrow> \<exists>a c. r = Some a \<and> h a = Some c \<and> k = lo (node_data c)"
  unfolding indexes_def by blast

lemma indexes_finite:
  assumes "indexes es h"
  shows "finite (dom h)"
proof (rule finite_subset)
  show "dom h \<subseteq> (\<lambda>e. the (snd e)) ` set es" using indexes_cell [OF assms] by force
qed simp

lemma chained_finite: "chained s R \<Longrightarrow> finite (dom (range_cells s)) \<and> finite (dom (nodes (lo_tree s)))"
  unfolding chained_def using indexes_finite represents_finite by blast

subsection \<open>The data of the cells\<close>

definition same_data :: "range_t heap \<Rightarrow> range_t heap \<Rightarrow> bool" where
  "same_data h' h \<longleftrightarrow> (\<forall>b. map_option node_data (h' b) = map_option node_data (h b))"

lemma same_data_cell: "same_data h' h \<Longrightarrow> h' b = Some c \<Longrightarrow> \<exists>d. h b = Some d \<and> node_data d = node_data c"
  unfolding same_data_def by (metis map_option_eq_Some option.simps(9))

lemma same_data_sym: "same_data h' h \<Longrightarrow> same_data h h'"
  by (simp add: same_data_def)

lemma stored_cong:
  assumes "same_data h' h" "stored h R"
  shows "stored h' R"
  unfolding stored_def Let_def
proof (intro conjI allI impI)
  fix a c
  assume "h' a = Some c"
  then obtain d where d: "h a = Some d" "node_data d = node_data c" using same_data_cell [OF assms(1)] by blast
  show "R (lo (node_data c)) = Some (hi (node_data c) - lo (node_data c) + 1, index (node_data c))"
    "0 \<le> lo (node_data c)" "lo (node_data c) \<le> hi (node_data c)" "hi (node_data c) < 2 ^ 63"
    using stored_cell [OF assms(2) d(1)] d(2) by simp_all
next
  fix p x
  assume "R p = Some x"
  then obtain a c where c: "h a = Some c" "lo (node_data c) = p" using stored_range [OF assms(2)] by blast
  then obtain d where "h' a = Some d" "node_data d = node_data c" using same_data_cell [OF same_data_sym [OF assms(1)]] by blast
  then show "\<exists>a c. h' a = Some c \<and> lo (node_data c) = p" using c(2) by (intro exI [of _ a] exI [of _ d]) simp
qed

lemma indexes_cong:
  assumes "same_data h' h" "indexes es h"
  shows "indexes es h'"
proof -
  have "(\<exists>c. h' a = Some c \<and> k = lo (node_data c)) \<longleftrightarrow> (\<exists>c. h a = Some c \<and> k = lo (node_data c))" for a k
    using same_data_cell [OF assms(1), of a] same_data_cell [OF same_data_sym [OF assms(1)], of a] by metis
  then show ?thesis using assms(2) unfolding indexes_def by simp
qed

lemma stored_add:
  assumes "stored h R" "h a = None" "R (lo r) = None" "0 \<le> lo r" "lo r \<le> hi r" "hi r < 2 ^ 63" "node_data c = r"
  shows "stored (h(a \<mapsto> c)) (R(lo r \<mapsto> (hi r - lo r + 1, index r)))"
  unfolding stored_def Let_def
proof (intro conjI allI impI)
  fix b d
  assume b: "(h(a \<mapsto> c)) b = Some d"
  show "(R(lo r \<mapsto> (hi r - lo r + 1, index r))) (lo (node_data d)) = Some (hi (node_data d) - lo (node_data d) + 1, index (node_data d))"
    "0 \<le> lo (node_data d)" "lo (node_data d) \<le> hi (node_data d)" "hi (node_data d) < 2 ^ 63"
    using b assms stored_cell [OF assms(1), of b d] by (auto split: if_splits)
next
  fix p x
  assume "(R(lo r \<mapsto> (hi r - lo r + 1, index r))) p = Some x"
  then consider "p = lo r" | "R p = Some x" by (auto split: if_splits)
  then show "\<exists>b d. (h(a \<mapsto> c)) b = Some d \<and> lo (node_data d) = p"
  proof cases
    case 2
    then obtain b d where "h b = Some d" "lo (node_data d) = p" using stored_range [OF assms(1)] by blast
    then show ?thesis using assms(2) by (intro exI [of _ b] exI [of _ d]) auto
  qed (use assms(7) in auto)
qed

lemma stored_remove:
  assumes "stored h R" "h a = Some c" "\<And>b d. h b = Some d \<Longrightarrow> lo (node_data d) = lo (node_data c) \<Longrightarrow> b = a"
  shows "stored (h(a := None)) (R(lo (node_data c) := None))"
  unfolding stored_def Let_def
proof (intro conjI allI impI)
  fix b d
  assume b: "(h(a := None)) b = Some d"
  then have "b \<noteq> a" "h b = Some d" by (auto split: if_splits)
  then show "(R(lo (node_data c) := None)) (lo (node_data d)) = Some (hi (node_data d) - lo (node_data d) + 1, index (node_data d))"
    "0 \<le> lo (node_data d)" "lo (node_data d) \<le> hi (node_data d)" "hi (node_data d) < 2 ^ 63"
    using assms(3) [of b d] stored_cell [OF assms(1), of b d] by auto
next
  fix p x
  assume "(R(lo (node_data c) := None)) p = Some x"
  then have p: "p \<noteq> lo (node_data c)" "R p = Some x" by (auto split: if_splits)
  then obtain b d where "h b = Some d" "lo (node_data d) = p" using stored_range [OF assms(1)] by blast
  then show "\<exists>b d. (h(a := None)) b = Some d \<and> lo (node_data d) = p" using p(1) assms(2) by (intro exI [of _ b] exI [of _ d]) auto
qed

subsection \<open>Links\<close>

lemma link_chains:
  assumes ch: "chains h" and a: "h a = None" and data: "lo r = low"
    and pv: "\<And>q. pv = Some q \<Longrightarrow> \<exists>c. h q = Some c \<and> node_next c = nx \<and> lo (node_data c) < low"
    and nx: "\<And>n. nx = Some n \<Longrightarrow> pv \<noteq> NULL \<and> (\<exists>c. h n = Some c \<and> low < lo (node_data c))"
    and st: "starts_at (range_list s) h" and s: "range_cells s = h"
  obtains h' first where "link_range pv nx a r s = Some (s\<lparr>range_list := first, range_cells := h'\<rparr>)" "chains h'" "starts_at first h'"
    "same_data h' (h(a \<mapsto> \<lparr>node_next = nx, node_prev = pv, node_data = r\<rparr>))"
proof (cases pv)
  case None
  then have "nx = NULL" using nx by (cases nx) auto
  let ?h = "h(a \<mapsto> \<lparr>node_next = NULL, node_prev = NULL, node_data = r\<rparr>)"
  have "chains ?h"
    unfolding chains_def
  proof (intro conjI allI impI; elim conjE)
    fix b c n
    assume "?h b = Some c" "node_next c = Some n"
    then have b: "h b = Some c" "b \<noteq> a" by (auto split: if_splits)
    then show "\<exists>d. ?h n = Some d \<and> node_prev d = Some b \<and> lo (node_data c) < lo (node_data d)"
      using next_cell [OF ch b(1) \<open>node_next c = Some n\<close>] a by auto
  next
    fix b c n
    assume "?h b = Some c" "node_prev c = Some n"
    then have b: "h b = Some c" "b \<noteq> a" by (auto split: if_splits)
    then show "\<exists>d. ?h n = Some d \<and> node_next d = Some b"
      using prev_cell [OF ch b(1) \<open>node_prev c = Some n\<close>] a by auto
  qed
  moreover have "link_range pv nx a r s = Some (s\<lparr>range_list := Some a, range_cells := ?h\<rparr>)"
    using None \<open>nx = NULL\<close> s by (simp add: link_range_def Let_def)
  ultimately show thesis using that [of ?h "Some a"] None \<open>nx = NULL\<close> by (simp add: starts_at_def same_data_def)
next
  case (Some q)
  obtain c where c: "h q = Some c" "node_next c = nx" "lo (node_data c) < low" using pv [OF Some] by blast
  have qa: "q \<noteq> a" using c(1) a by auto
  let ?a = "\<lparr>node_next = nx, node_prev = Some q, node_data = r\<rparr>"
  let ?h1 = "h(a \<mapsto> ?a, q \<mapsto> c\<lparr>node_next := Some a\<rparr>)"
  have s1: "set_next (h(a \<mapsto> ?a)) (Some q) (Some a) = Some ?h1" using c(1) qa by (simp add: set_next_def)
  show thesis
  proof (cases nx)
    case None
    have "chains ?h1"
      unfolding chains_def
    proof (intro conjI allI impI; elim conjE)
      fix b d n
      assume b: "?h1 b = Some d" "node_next d = Some n"
      show "\<exists>e. ?h1 n = Some e \<and> node_prev e = Some b \<and> lo (node_data d) < lo (node_data e)"
      proof (cases "b = q")
        case True
        then show ?thesis using b c(3) qa data by auto
      next
        case False
        then have hb: "h b = Some d" using b None by (auto split: if_splits)
        obtain e where "h n = Some e" "node_prev e = Some b" "lo (node_data d) < lo (node_data e)" using next_cell [OF ch hb b(2)] by blast
        then show ?thesis using a c(1) by (cases "n = q") auto
      qed
    next
      fix b d n
      assume b: "?h1 b = Some d" "node_prev d = Some n"
      show "\<exists>e. ?h1 n = Some e \<and> node_next e = Some b"
      proof (cases "b = a")
        case True
        then show ?thesis using b qa by auto
      next
        case False
        then obtain d0 where hb: "h b = Some d0" "node_prev d0 = Some n" using b c(1) by (auto split: if_splits)
        obtain e where e: "h n = Some e" "node_next e = Some b" using prev_cell [OF ch hb] by blast
        then have "n \<noteq> q" "n \<noteq> a" using c(1,2) None a by auto
        then show ?thesis using e by auto
      qed
    qed
    moreover have "starts_at (range_list s) ?h1" using st a c(1) by (force simp: starts_at_def)
    moreover have "same_data ?h1 (h(a \<mapsto> ?a))" using c(1) qa by (simp add: same_data_def)
    moreover have "link_range pv nx a r s = Some (s\<lparr>range_list := range_list s, range_cells := ?h1\<rparr>)"
      using Some None s s1 by (simp add: link_range_def Let_def)
    ultimately show thesis using that [of ?h1 "range_list s"] Some by simp
  next
    case (Some n)
    obtain e where e: "h n = Some e" "low < lo (node_data e)" using nx [OF Some] by blast
    have ep: "node_prev e = Some q"
    proof -
      have "node_next c = Some n" using c(2) Some by simp
      then obtain d where "h n = Some d" "node_prev d = Some q" using next_cell [OF ch c(1)] by blast
      then show ?thesis using e(1) by simp
    qed
    have na: "n \<noteq> a" "n \<noteq> q"
    proof -
      show "n \<noteq> a" using e(1) a by (metis option.distinct(1))
      show "n \<noteq> q"
      proof
        assume "n = q"
        then have "e = c" using e(1) c(1) by simp
        then show False using e(2) c(3) by simp
      qed
    qed
    let ?h2 = "?h1(n \<mapsto> e\<lparr>node_prev := Some a\<rparr>)"
    have s2: "set_prev ?h1 (Some n) (Some a) = Some ?h2" using e(1) na by (simp add: set_prev_def)
    have "chains ?h2"
      unfolding chains_def
    proof (intro conjI allI impI; elim conjE)
      fix b d k
      assume b: "?h2 b = Some d" "node_next d = Some k"
      consider "b = q" | "b = a" | "b = n" | "b \<noteq> q" "b \<noteq> a" "b \<noteq> n" by blast
      then show "\<exists>f. ?h2 k = Some f \<and> node_prev f = Some b \<and> lo (node_data d) < lo (node_data f)"
      proof cases
        case 1
        then show ?thesis using b c(3) qa na data by auto
      next
        case 2
        then show ?thesis using b e(2) qa na data Some by auto
      next
        case 3
        then have d: "node_next e = Some k" "node_data d = node_data e" using b by auto
        obtain f where f: "h k = Some f" "node_prev f = Some n" "lo (node_data e) < lo (node_data f)" using next_cell [OF ch e(1) d(1)] by blast
        then have "k \<noteq> n" "k \<noteq> a" using a e(1) by auto
        then show ?thesis using f 3 d c na by (cases "k = q") auto
      next
        case 4
        then have hb: "h b = Some d" using b by simp
        obtain f where f: "h k = Some f" "node_prev f = Some b" "lo (node_data d) < lo (node_data f)" using next_cell [OF ch hb b(2)] by blast
        then have "k \<noteq> n" "k \<noteq> a" using a e(1) ep 4(1) by auto
        then show ?thesis using f 4 c na by (cases "k = q") auto
      qed
    next
      fix b d k
      assume b: "?h2 b = Some d" "node_prev d = Some k"
      consider "b = q" | "b = a" | "b = n" | "b \<noteq> q" "b \<noteq> a" "b \<noteq> n" by blast
      then show "\<exists>f. ?h2 k = Some f \<and> node_next f = Some b"
      proof cases
        case 1
        then have d: "node_prev c = Some k" using b na by auto
        obtain f where f: "h k = Some f" "node_next f = Some q" using prev_cell [OF ch c(1) d] by blast
        then have "k \<noteq> q" "k \<noteq> a" using a c Some na by auto
        then show ?thesis using f 1 e na by (cases "k = n") auto
      next
        case 2
        then show ?thesis using b qa na by auto
      next
        case 3
        then show ?thesis using b qa na Some by auto
      next
        case 4
        then have hb: "h b = Some d" using b by simp
        obtain f where f: "h k = Some f" "node_next f = Some b" using prev_cell [OF ch hb b(2)] by blast
        then have "k \<noteq> q" "k \<noteq> a" using a c Some 4 by auto
        then show ?thesis using f 4 e na by (cases "k = n") auto
      qed
    qed
    moreover have "starts_at (range_list s) ?h2"
      unfolding starts_at_def
    proof (intro allI impI)
      fix f
      assume "range_list s = Some f"
      then obtain d where d: "h f = Some d" "node_prev d = NULL" using st by (auto simp: starts_at_def)
      then have "f \<noteq> n" "f \<noteq> a" using e(1) ep a by auto
      then show "\<exists>c. ?h2 f = Some c \<and> node_prev c = NULL" using d c(1) by (cases "f = q") auto
    qed
    moreover have "same_data ?h2 (h(a \<mapsto> ?a))" using c(1) e(1) qa na by (simp add: same_data_def)
    moreover have "link_range pv nx a r s = Some (s\<lparr>range_list := range_list s, range_cells := ?h2\<rparr>)"
      using \<open>pv = Some q\<close> Some s s1 s2 by (simp add: link_range_def Let_def)
    ultimately show thesis using that [of ?h2 "range_list s"] \<open>pv = Some q\<close> by simp
  qed
qed

text \<open>The neighbours of a cell, linked to each other.\<close>

definition bridged :: "ptr \<Rightarrow> ptr \<Rightarrow> range_t heap \<Rightarrow> range_t heap" where
  "bridged pv nx h b =
     (if pv = Some b then map_option (\<lambda>c. c\<lparr>node_next := nx\<rparr>) (h b)
      else if nx = Some b then map_option (\<lambda>c. c\<lparr>node_prev := pv\<rparr>) (h b) else h b)"

lemma bridged_chains:
  assumes ch: "chains h" and c: "h a = Some c"
  defines "g \<equiv> (bridged (node_prev c) (node_next c) h)(a := None)"
  shows "chains g" "same_data g (h(a := None))" "node_prev c \<noteq> Some a" "node_next c \<noteq> Some a"
    "\<And>b. node_prev c = Some b \<Longrightarrow> node_next c \<noteq> Some b"
proof -
  have up: "\<exists>d. h b = Some d \<and> node_prev d = Some a \<and> lo (node_data c) < lo (node_data d)" if "node_next c = Some b" for b
    by (rule next_cell [OF ch c that])
  have down: "\<exists>d. h b = Some d \<and> node_next d = Some a \<and> lo (node_data d) < lo (node_data c)" if "node_prev c = Some b" for b
  proof -
    obtain d where d: "h b = Some d" "node_next d = Some a" using prev_cell [OF ch c] \<open>node_prev c = Some b\<close> by blast
    then show ?thesis using next_cell [OF ch d] c by auto
  qed
  show na: "node_prev c \<noteq> Some a" "node_next c \<noteq> Some a" using up [of a] down [of a] c by auto
  show pn: "node_next c \<noteq> Some b" if "node_prev c = Some b" for b using up [of b] down [OF that] by auto
  have same: "map_option node_data (bridged (node_prev c) (node_next c) h b) = map_option node_data (h b)" for b
    by (cases "h b") (simp_all add: bridged_def)
  then show "same_data g (h(a := None))" by (simp add: same_data_def g_def)
  have g: "\<exists>d0. h b = Some d0 \<and> node_data d0 = node_data d \<and> (node_prev c = Some b \<or> node_next d0 = node_next d) \<and>
      (node_next c = Some b \<or> node_prev d0 = node_prev d) \<and> b \<noteq> a" if "g b = Some d" for b d
    using that by (auto simp: g_def bridged_def split: if_splits)
  show "chains g"
    unfolding chains_def
  proof (intro conjI allI impI; elim conjE)
    fix b d k
    assume b: "g b = Some d" "node_next d = Some k"
    show "\<exists>f. g k = Some f \<and> node_prev f = Some b \<and> lo (node_data d) < lo (node_data f)"
    proof (cases "node_prev c = Some b")
      case True
      obtain d0 where d0: "h b = Some d0" "lo (node_data d0) < lo (node_data c)" using down [OF True] by blast
      then have d: "d = d0\<lparr>node_next := node_next c\<rparr>" using b True na by (auto simp: g_def bridged_def split: if_splits)
      then have k: "node_next c = Some k" using b(2) by simp
      then obtain f where f: "h k = Some f" "lo (node_data c) < lo (node_data f)" using up by blast
      have "g k = Some (f\<lparr>node_prev := Some b\<rparr>)" using f(1) k True na pn by (auto simp: g_def bridged_def)
      then show ?thesis using d d0(2) f(2) by simp
    next
      case False
      obtain d0 where d0: "h b = Some d0" "node_data d0 = node_data d" "node_next d0 = Some k" "b \<noteq> a" using g [OF b(1)] b(2) False by auto
      obtain f where f: "h k = Some f" "node_prev f = Some b" "lo (node_data d0) < lo (node_data f)" using next_cell [OF ch d0(1,3)] by blast
      have "k \<noteq> a" using f(1,2) c False by auto
      moreover have "node_next c \<noteq> Some k" using up [of k] f(1,2) d0(4) by auto
      ultimately show ?thesis using f d0(2) by (auto simp: g_def bridged_def)
    qed
  next
    fix b d k
    assume b: "g b = Some d" "node_prev d = Some k"
    show "\<exists>f. g k = Some f \<and> node_next f = Some b"
    proof (cases "node_next c = Some b")
      case True
      obtain d0 where d0: "h b = Some d0" using up [OF True] by blast
      have "node_prev c \<noteq> Some b" using pn True by auto
      then have d: "d = d0\<lparr>node_prev := node_prev c\<rparr>" using b d0 True na by (auto simp: g_def bridged_def split: if_splits)
      then have k: "node_prev c = Some k" using b(2) by simp
      then obtain f where f: "h k = Some f" using down by blast
      have "g k = Some (f\<lparr>node_next := Some b\<rparr>)" using f k True na by (auto simp: g_def bridged_def)
      then show ?thesis by simp
    next
      case False
      obtain d0 where d0: "h b = Some d0" "node_prev d0 = Some k" "b \<noteq> a" using g [OF b(1)] b(2) False by auto
      obtain f where f: "h k = Some f" "node_next f = Some b" using prev_cell [OF ch d0(1,2)] by blast
      have "k \<noteq> a" using f(1,2) c False by auto
      moreover have "node_prev c \<noteq> Some k" using down [of k] f(1,2) d0(3) by auto
      ultimately show ?thesis using f by (auto simp: g_def bridged_def)
    qed
  qed
qed

lemma unlink_chains:
  assumes ch: "chains h" and c: "h a = Some c" and st: "starts_at l h"
  obtains h1 first where
    "(if node_prev c \<noteq> NULL then map_option (\<lambda>h. (h, l)) (set_next h (node_prev c) (node_next c)) else Some (h, node_next c)) = Some (h1, first)"
    "(if node_next c \<noteq> NULL then set_prev h1 (node_next c) (node_prev c) else Some h1) = Some (bridged (node_prev c) (node_next c) h)"
    "starts_at first ((bridged (node_prev c) (node_next c) h)(a := None))"
proof -
  let ?pv = "node_prev c" and ?nx = "node_next c"
  let ?b = "bridged ?pv ?nx h"
  note bc = bridged_chains [OF ch c]
  have nx: "\<exists>d. h n = Some d \<and> node_prev d = Some a" if "?nx = Some n" for n using next_cell [OF ch c that] by blast
  show thesis
  proof (cases ?pv)
    case None
    have "(if ?nx \<noteq> NULL then set_prev h ?nx ?pv else Some h) = Some ?b"
      using None nx by (cases ?nx) (auto simp: bridged_def fun_eq_iff set_prev_def)
    moreover have "starts_at ?nx (?b(a := None))"
      using None nx bc(4) by (auto simp: starts_at_def bridged_def)
    ultimately show thesis using that [of h ?nx] None by simp
  next
    case (Some q)
    obtain d where d: "h q = Some d" using prev_cell [OF ch c Some] by blast
    let ?h1 = "h(q \<mapsto> d\<lparr>node_next := ?nx\<rparr>)"
    have "set_next h (Some q) ?nx = Some ?h1" using d by (simp add: set_next_def)
    moreover have "(if ?nx \<noteq> NULL then set_prev ?h1 ?nx ?pv else Some ?h1) = Some ?b"
    proof (cases ?nx)
      case None
      then show ?thesis using Some d by (auto simp: bridged_def fun_eq_iff)
    next
      case (Some n)
      obtain e where "h n = Some e" using nx [OF Some] by blast
      moreover have "n \<noteq> q" using bc(5) [OF \<open>?pv = Some q\<close>] Some by auto
      ultimately show ?thesis using Some \<open>?pv = Some q\<close> d by (auto simp: bridged_def fun_eq_iff set_prev_def)
    qed
    moreover have "starts_at l (?b(a := None))"
      unfolding starts_at_def
    proof (intro allI impI)
      fix f
      assume "l = Some f"
      then obtain e where e: "h f = Some e" "node_prev e = NULL" using st by (auto simp: starts_at_def)
      have "f \<noteq> a" using e c Some by auto
      moreover have "?nx \<noteq> Some f" using nx [of f] e by auto
      ultimately show "\<exists>x. (?b(a := None)) f = Some x \<and> node_prev x = NULL" using e by (auto simp: bridged_def)
    qed
    ultimately show thesis using that [of ?h1 l] Some by simp
  qed
qed

subsection \<open>Operations\<close>

definition apart :: "range_map \<Rightarrow> int \<Rightarrow> int \<Rightarrow> bool" where
  "apart R low n \<longleftrightarrow> (\<forall>p k i. R p = Some (k, i) \<longrightarrow> p + k \<le> low \<or> low + n \<le> p)"

lemma apart_cell:
  assumes "stored h R" "h a = Some c" "apart R low n" "0 < n"
  shows "lo (node_data c) \<noteq> low" "lo (node_data c) < low \<Longrightarrow> hi (node_data c) < low" "low < lo (node_data c) \<Longrightarrow> low + n \<le> lo (node_data c)"
proof -
  let ?r = "node_data c"
  have r: "R (lo ?r) = Some (hi ?r - lo ?r + 1, index ?r)" "lo ?r \<le> hi ?r" using stored_cell [OF assms(1,2)] by blast+
  then have "lo ?r + (hi ?r - lo ?r + 1) \<le> low \<or> low + n \<le> lo ?r" using assms(3) unfolding apart_def by blast
  then show "lo ?r \<noteq> low" "lo ?r < low \<Longrightarrow> hi ?r < low" "low < lo ?r \<Longrightarrow> low + n \<le> lo ?r" using r(2) assms(4) by auto
qed

text \<open>The neighbours the tree finds.\<close>

lemma nearest_neighbours:
  assumes ix: "indexes es h" and k: "sorted_wrt (<) (map fst es)" and st: "stored h R" and ch: "chains h" and ap: "apart R low n" "0 < n"
  obtains pv nx where "nearest low es = pv" "(if pv \<noteq> NULL then map_option node_next (Dll.load h pv) else Some NULL) = Some nx"
    "\<forall>q. pv = Some q \<longrightarrow> (\<exists>c. h q = Some c \<and> node_next c = nx \<and> lo (node_data c) < low \<and> hi (node_data c) < low)"
    "\<forall>b. nx = Some b \<longrightarrow> pv \<noteq> NULL \<and> (\<exists>c. h b = Some c \<and> low + n \<le> lo (node_data c))"
    "low \<notin> fst ` set es"
proof -
  have new: "low \<notin> fst ` set es"
  proof
    assume "low \<in> fst ` set es"
    then obtain r where "(low, r) \<in> set es" by force
    then obtain a c where "h a = Some c" "low = lo (node_data c)" using indexes_entry [OF ix] by blast
    then show False using apart_cell(1) [OF st _ ap] by blast
  qed
  show thesis
  proof (cases rule: nearest_cases [OF k, of low])
    case 1
    then show thesis using that [of NULL NULL] new by simp
  next
    case (2 k' r)
    obtain q c where q: "r = Some q" "h q = Some c" "k' = lo (node_data c)" using indexes_entry [OF ix 2(2)] by blast
    have lt: "lo (node_data c) < low" using apart_cell(1) [OF st q(2) ap] 2(3) q(3) by simp
    have up: "\<exists>d. h b = Some d \<and> low + n \<le> lo (node_data d)" if b: "node_next c = Some b" for b
    proof -
      obtain d where d: "h b = Some d" "lo (node_data c) < lo (node_data d)" using next_cell [OF ch q(2) b] by blast
      have "\<not> lo (node_data d) \<le> low" using indexes_cell [OF ix d(1)] 2(4) d(2) q(3) by force
      then show ?thesis using apart_cell(3) [OF st d(1) ap] d(1) by auto
    qed
    show thesis
      using that [of "Some q" "node_next c"] 2(1) q(1,2) lt up apart_cell(2) [OF st q(2) ap lt] new by simp
  qed
qed

lemma add_range_chained:
  assumes s: "chained s R" and ap: "apart R low (uint sz)" and sz: "0 < uint sz" and al: "IS_ALIGNED low"
    and ins: "mem_heap_lo m \<le> low" "low + uint sz - 1 \<le> mem_heap_hi m" "0 \<le> low" "low + uint sz \<le> 2 ^ 63"
    and dbg: "dbg \<noteq> DBG_NONE" and fresh: "range_cells s a = None" "nodes (lo_tree s) z = None"
  obtains s' where "add_range dbg m (Some a) (Some z) low sz i s = Some (None, s')" "chained s' (R(low \<mapsto> (uint sz, i)))"
proof -
  let ?h = "range_cells s" and ?r = "\<lparr>lo = low, hi = low + uint sz - 1, index = i\<rparr>"
  obtain es where es: "represents (lo_tree s) es" "indexes es ?h" and st: "stored ?h R" and ch: "chains ?h" and sa: "starts_at (range_list s) ?h"
    using s by (auto simp: chained_def)
  note k = represents_keys [OF es(1)]
  have long: "long_of low = low" using ins sz by (intro long_of_small) simp_all
  obtain pv nx where n: "nearest low es = pv" "(if pv \<noteq> NULL then map_option node_next (Dll.load ?h pv) else Some NULL) = Some nx"
    "\<forall>q. pv = Some q \<longrightarrow> (\<exists>c. ?h q = Some c \<and> node_next c = nx \<and> lo (node_data c) < low \<and> hi (node_data c) < low)"
    "\<forall>b. nx = Some b \<longrightarrow> pv \<noteq> NULL \<and> (\<exists>c. ?h b = Some c \<and> low + uint sz \<le> lo (node_data c))"
    "low \<notin> fst ` set es"
    by (rule nearest_neighbours [OF es(2) k st ch ap sz])
  obtain tree where tree: "tree_find_nearest low (lo_tree s) = Some (pv, tree)" "represents tree es" "nodes tree = nodes (lo_tree s)"
    using tree_find_nearest_spec [OF es(1), of low] n(1) by metis
  let ?s = "s\<lparr>lo_tree := tree\<rparr>"
  have h1: "and_range ?h pv (\<lambda>r. low \<le> hi r) = Some False"
  proof (cases pv)
    case (Some q)
    then show ?thesis using n(3) [rule_format, OF Some] by (auto simp: and_range_def)
  qed (simp add: and_range_def)
  have h2: "and_range ?h nx (\<lambda>r. lo r < low + uint sz) = Some False"
  proof (cases nx)
    case (Some b)
    then show ?thesis using n(4) [rule_format, OF Some] by (auto simp: and_range_def)
  qed (simp add: and_range_def)
  obtain h' first where h': "link_range pv nx a ?r ?s = Some (?s\<lparr>range_list := first, range_cells := h'\<rparr>)" "chains h'" "starts_at first h'"
    "same_data h' (?h(a \<mapsto> \<lparr>node_next = nx, node_prev = pv, node_data = ?r\<rparr>))"
  proof (rule link_chains [OF ch fresh(1), of ?r low pv nx ?s])
    show "\<exists>c. ?h q = Some c \<and> node_next c = nx \<and> lo (node_data c) < low" if "pv = Some q" for q using n(3) [rule_format, OF that] by blast
    show "pv \<noteq> NULL \<and> (\<exists>c. ?h b = Some c \<and> low < lo (node_data c))" if "nx = Some b" for b using n(4) [rule_format, OF that] sz by force
  qed (use sa in simp_all)
  obtain tree' where tree': "tree_insert low (Some a) (Some z) tree = Some (Some True, tree')" "represents tree' (put low (Some a) es)"
    using tree_insert_new [OF tree(2) n(5), of z] fresh(2) tree(3) by metis
  let ?s' = "s\<lparr>range_list := first, range_cells := h', lo_tree := tree'\<rparr>"
  have high: "(low + uint sz - 1) mod 2 ^ 64 = low + uint sz - 1" using ins sz by (intro mod_pos_pos_trivial) simp_all
  have "sz \<noteq> 0" using sz by auto
  then have "add_range dbg m (Some a) (Some z) low sz i s = Some (None, ?s')"
    using al ins sz dbg by (simp add: add_range_def high long tree(1) n(2) h1 h2 h'(1) tree'(1) Let_def del: not_None_eq split del: if_split cong: if_cong)
  moreover have "chained ?s' (R(low \<mapsto> (uint sz, i)))"
  proof -
    let ?h1 = "?h(a \<mapsto> \<lparr>node_next = nx, node_prev = pv, node_data = ?r\<rparr>)"
    have Rlow: "R (lo ?r) = None"
    proof (cases "R low")
      case (Some x)
      then obtain b c where "?h b = Some c" "lo (node_data c) = low" using stored_range [OF st] by blast
      then show ?thesis using apart_cell(1) [OF st _ ap sz] by blast
    qed simp
    have "stored ?h1 (R(lo ?r \<mapsto> (hi ?r - lo ?r + 1, index ?r)))"
      by (rule stored_add [OF st fresh(1) Rlow]) (use ins sz in simp_all)
    then have "stored h' (R(low \<mapsto> (uint sz, i)))" using stored_cong [OF h'(4)] by simp
    moreover have "indexes (put low (Some a) es) ?h1"
    proof -
      have "(\<exists>b c. r = Some b \<and> ?h1 b = Some c \<and> k = lo (node_data c)) \<longleftrightarrow> (k = low \<and> r = Some a) \<or> (k, r) \<in> set es" for k r
        using es(2) fresh(1) unfolding indexes_def by auto
      then show ?thesis unfolding indexes_def set_put [OF n(5)] by auto
    qed
    then have "indexes (put low (Some a) es) h'" by (rule indexes_cong [OF h'(4)])
    ultimately show ?thesis using tree'(2) h'(2,3) by (auto simp: chained_def)
  qed
  ultimately show thesis by (rule that)
qed

lemma remove_range_chained:
  assumes s: "chained s R" and p: "R p = Some x"
  obtains s' where "remove_range p s = Some s'" "chained s' (R(p := None))"
proof -
  let ?h = "range_cells s"
  obtain es where es: "represents (lo_tree s) es" "indexes es ?h" and st: "stored ?h R" and ch: "chains ?h" and sa: "starts_at (range_list s) ?h"
    using s by (auto simp: chained_def)
  note k = represents_keys [OF es(1)]
  obtain a c where c: "?h a = Some c" "lo (node_data c) = p" using stored_range [OF st p] by blast
  have e: "(p, Some a) \<in> set es" using indexes_cell [OF es(2) c(1)] c(2) by simp
  have only: "b = a" if "?h b = Some d" "lo (node_data d) = p" for b d
    using entry_unique [OF k e, of "Some b"] indexes_cell [OF es(2) that(1)] unfolding that(2) by blast
  have long: "long_of p = p" using stored_cell [OF st c(1)] c(2) by (intro long_of_small) simp_all
  obtain tree where tree: "tree_remove p (lo_tree s) = Some (Some a, tree)" "represents tree (delete p es)"
    using tree_remove_spec [OF es(1), of p] lookup_entry [OF k e] by metis
  let ?b = "bridged (node_prev c) (node_next c) ?h"
  note bc = bridged_chains [OF ch c(1)]
  obtain h1 first where u: "(if node_prev c \<noteq> NULL then map_option (\<lambda>h. (h, range_list s)) (set_next ?h (node_prev c) (node_next c)) else Some (?h, node_next c)) = Some (h1, first)"
    "(if node_next c \<noteq> NULL then set_prev h1 (node_next c) (node_prev c) else Some h1) = Some ?b"
    "starts_at first (?b(a := None))"
    by (rule unlink_chains [OF ch c(1) sa])
  have ba: "?b a = Some c" using bc(3,4) c(1) by (simp add: bridged_def)
  let ?s' = "s\<lparr>lo_tree := tree, range_list := first, range_cells := ?b(a := None)\<rparr>"
  have "remove_range p s = Some ?s'"
    by (simp add: remove_range_def long tree(1) c(1) u(1,2) free_node_Some [of ?b, OF ba] Let_def del: not_None_eq split del: if_split cong: if_cong)
  moreover have "chained ?s' (R(p := None))"
  proof -
    have "stored (?h(a := None)) (R(p := None))" using stored_remove [OF st c(1)] only c(2) by simp
    then have "stored (?b(a := None)) (R(p := None))" by (rule stored_cong [OF bc(2)])
    moreover have "indexes (delete p es) (?h(a := None))"
      unfolding indexes_def
    proof (intro allI)
      fix k r
      have "(k, r) \<in> set (delete p es) \<longleftrightarrow> (\<exists>b d. r = Some b \<and> ?h b = Some d \<and> k = lo (node_data d)) \<and> k \<noteq> p"
        using es(2) unfolding indexes_def set_delete by simp
      also have "\<dots> \<longleftrightarrow> (\<exists>b d. r = Some b \<and> (?h(a := None)) b = Some d \<and> k = lo (node_data d))"
      proof
        assume "(\<exists>b d. r = Some b \<and> ?h b = Some d \<and> k = lo (node_data d)) \<and> k \<noteq> p"
        then obtain b d where bd: "r = Some b" "?h b = Some d" "k = lo (node_data d)" "k \<noteq> p" by blast
        moreover have "b \<noteq> a" using bd c by auto
        ultimately show "\<exists>b d. r = Some b \<and> (?h(a := None)) b = Some d \<and> k = lo (node_data d)" by simp
      next
        assume "\<exists>b d. r = Some b \<and> (?h(a := None)) b = Some d \<and> k = lo (node_data d)"
        then obtain b d where "r = Some b" "?h b = Some d" "k = lo (node_data d)" "b \<noteq> a" by (auto split: if_splits)
        then show "(\<exists>b d. r = Some b \<and> ?h b = Some d \<and> k = lo (node_data d)) \<and> k \<noteq> p" using only by blast
      qed
      finally show "(k, r) \<in> set (delete p es) \<longleftrightarrow> (\<exists>b d. r = Some b \<and> (?h(a := None)) b = Some d \<and> k = lo (node_data d))" .
    qed
    then have "indexes (delete p es) (?b(a := None))" by (rule indexes_cong [OF bc(2)])
    ultimately show ?thesis using tree(2) bc(1) u(3) by (auto simp: chained_def)
  qed
  ultimately show thesis by (rule that)
qed

lemma remove_range_absent:
  assumes "chained s Map.empty"
  obtains s' where "remove_range p s = Some s'" "chained s' Map.empty"
proof -
  let ?h = "range_cells s"
  obtain es where es: "represents (lo_tree s) es" "indexes es ?h" and st: "stored ?h Map.empty"
    using assms by (auto simp: chained_def)
  have h: "?h = Map.empty"
  proof
    show "?h a = None" for a using stored_cell(1) [OF st, of a] by (cases "?h a") auto
  qed
  have "es = []"
  proof (cases es)
    case (Cons e es')
    then show ?thesis using indexes_entry [OF es(2), of "fst e" "snd e"] h by simp
  qed
  then obtain tree where "tree_remove (long_of p) (lo_tree s) = Some (NULL, tree)" "represents tree []"
    using tree_remove_spec [OF es(1), of "long_of p"] by (auto simp: lookup_def delete_def)
  moreover have "chained (s\<lparr>lo_tree := tree\<rparr>) Map.empty"
    using assms \<open>represents tree []\<close> es \<open>es = []\<close> by (auto simp: chained_def)
  ultimately show thesis using that by (simp add: remove_range_def)
qed

lemma new_chained: "new_range_set True = Some s \<Longrightarrow> chained s Map.empty"
  by (auto simp: new_range_set_def tree_new_def chained_def indexes_def stored_def chains_def starts_at_def
      intro!: exI [of _ "[]"] new_represents)

lemma reset_chained:
  assumes s: "chained s R"
  obtains s' where "reset_range_set True s = Some s'" "chained s' Map.empty" "free_range_set s = Some Map.empty"
proof -
  let ?h = "range_cells s"
  obtain es where es: "represents (lo_tree s) es" "indexes es ?h" using s by (auto simp: chained_def)
  note k = represents_keys [OF es(1)]
  let ?xs = "map (\<lambda>e. (the (snd e), undefined :: range_t)) es"
  have some: "\<exists>a c. snd e = Some a \<and> ?h a = Some c \<and> fst e = lo (node_data c)" if "e \<in> set es" for e
    using indexes_entry [OF es(2), of "fst e" "snd e"] that by simp
  obtain rs where rs: "tree_free (lo_tree s) = Some (rs, (lo_tree s)\<lparr>nodes := Map.empty\<rparr>)" "mset rs = mset (map snd es)"
    by (rule tree_free_spec [OF es(1)])
  have "map snd es = map (\<lambda>x. Some (fst x)) ?xs" using some by fastforce
  then have "mset rs = mset (map (\<lambda>x. Some (fst x)) ?xs)" using rs(2) by (simp only:)
  moreover have "distinct (map fst ?xs)"
  proof -
    have "inj_on (\<lambda>e. the (snd e)) (set es)"
    proof (rule inj_onI)
      fix e f assume ef: "e \<in> set es" "f \<in> set es" "the (snd e) = the (snd f)"
      then have "fst e = fst f" using some [OF ef(1)] some [OF ef(2)] by auto
      moreover have "snd e = snd f" using ef some [OF ef(1)] some [OF ef(2)] by auto
      ultimately show "e = f" by (rule prod_eqI)
    qed
    moreover have "distinct es" using k by (metis distinct_map strict_sorted_iff)
    ultimately show ?thesis by (simp add: distinct_map comp_def)
  qed
  moreover have "dom ?h = fst ` set ?xs"
  proof
    show "dom ?h \<subseteq> fst ` set ?xs" using indexes_cell [OF es(2)] by (force simp: image_iff)
    show "fst ` set ?xs \<subseteq> dom ?h" using some by fastforce
  qed
  ultimately have free: "free_records rs ?h = Some Map.empty" by (rule free_records_distinct)
  obtain t where t: "tree_new True = Some t" by (simp add: tree_new_def)
  then have "chained \<lparr>range_list = NULL, lo_tree = t, range_cells = Map.empty\<rparr> Map.empty"
    by (intro new_chained) (simp add: new_range_set_def)
  then show thesis using that rs(1) free t by (simp add: reset_range_set_def free_range_set_def)
qed

end
