(* ===== verification/Driver.thy ===== *)
theory Driver
  imports Mm Range_Set
begin

unbundle bit_operations_syntax

text \<open>
  The part of the malloc lab's driver (\<open>mdriver.c\<close>) that replays a trace of requests on the
  allocator of \<open>Mm\<close>: for correctness (\<open>eval_mm_valid\<close>), for space (\<open>eval_mm_util\<close>) and for time
  (\<open>eval_mm_speed\<close>), and the loop over the traces (\<open>run_tests\<close>).

  An \<open>env\<close> holds the globals that are fixed while the traces run and the functions of the C library
  the replay depends on. What \<open>malloc_error\<close> and \<open>app_error\<close> report is a \<open>driver_error\<close>; an array access
  out of bounds is undefined.
\<close>

subsection \<open>Traces\<close>

datatype op_type = ALLOC | FREE | REALLOC

record traceop_t =
  op_kind :: op_type
  op_index :: u64
  op_size :: u64

record trace_t =
  filename :: string
  data_bytes :: u64
  num_ids :: u32
  num_ops :: u32
  weight :: u32
  ops :: "traceop_t list"
  blocks :: "int list"
  block_sizes :: "u64 list"
  block_rand_base :: "u32 list"

definition elem_at :: "'a list \<Rightarrow> int \<Rightarrow> 'a option" where
  "elem_at xs i = (if 0 \<le> i \<and> i < int (length xs) then Some (xs ! nat i) else None)"

definition set_at :: "'a list \<Rightarrow> int \<Rightarrow> 'a \<Rightarrow> 'a list option" where
  "set_at xs i v = (if 0 \<le> i \<and> i < int (length xs) then Some (xs[nat i := v]) else None)"

text \<open>The \<open>long\<close> index of a request, assigned to an \<open>int\<close>.\<close>

definition int_index :: "traceop_t \<Rightarrow> int" where
  "int_index opn = sint (ucast (op_index opn) :: u32)"

text \<open>The requests the loops over \<open>i < num_ops\<close> read, one by one.\<close>

definition requests :: "trace_t \<Rightarrow> traceop_t option list" where
  "requests t = map (elem_at (ops t)) [0..sint (num_ops t) - 1]"

definition zero_first :: "int \<Rightarrow> 'a \<Rightarrow> 'a list \<Rightarrow> 'a list option" where
  "zero_first n z xs = (if 0 \<le> n \<and> n \<le> int (length xs) then Some (replicate (nat n) z @ drop (nat n) xs) else None)"

definition reinit_trace :: "trace_t \<Rightarrow> trace_t option" where
  "reinit_trace t = do {
     bs \<leftarrow> zero_first (sint (num_ids t)) 0 (blocks t);
     ss \<leftarrow> zero_first (sint (num_ids t)) 0 (block_sizes t);
     Some (t\<lparr>blocks := bs, block_sizes := ss\<rparr>)
   }"

subsection \<open>The driver's state\<close>

record 'r env =
  debug_mode :: debug_mode_t
  random_data :: "u8 list"
  random :: "'r \<Rightarrow> u64 \<times> 'r"
  range_malloc :: "range_t heap \<Rightarrow> ptr"
  node_malloc :: "(nat \<rightharpoonup> node_t) \<Rightarrow> ptr"
  tree_malloc_ok :: bool
  debug_build :: bool

record 'r driver =
  memory :: mm
  trace :: trace_t
  ranges :: range_set_t
  seed :: 'r

datatype driver_error = Init_failed | Malloc_failed | Realloc_failed | Realloc_not_null | Inconsistent_heap
  | Garbled int int int | Bad_range range_error

subsection \<open>Random data\<close>

definition RANDOM_DATA_LEN :: nat where "RANDOM_DATA_LEN = 65536"
definition MAXFILL :: u64 where "MAXFILL = 1024"

fun random_bytes :: "('r \<Rightarrow> u64 \<times> 'r) \<Rightarrow> nat \<Rightarrow> 'r \<Rightarrow> u8 list \<times> 'r" where
  "random_bytes next_random 0 s = ([], s)"
| "random_bytes next_random (Suc n) s =
     (let (v, s) = next_random s; (vs, s) = random_bytes next_random n s in (ucast v # vs, s))"

definition init_random_data :: "'r env \<Rightarrow> 'r \<Rightarrow> 'r env \<times> 'r" where
  "init_random_data env s =
     (if debug_mode env = DBG_NONE then (env, s)
      else let (vs, s) = random_bytes (random env) RANDOM_DATA_LEN s in (env\<lparr>random_data := vs\<rparr>, s))"

text \<open>How many bytes are filled at the start and at the end of a block, and where the end begins.\<close>

definition fill_extents :: "u64 \<Rightarrow> u64 \<times> u64 \<times> u64" where
  "fill_extents sz =
     (if sz > MAXFILL
      then if sz > 2 * MAXFILL then (MAXFILL, MAXFILL, sz - MAXFILL) else (MAXFILL, sz - MAXFILL, MAXFILL)
      else (sz, 0, 0))"

definition random_at :: "'r env \<Rightarrow> u32 \<Rightarrow> nat \<Rightarrow> u8" where
  "random_at env base i = random_data env ! unat ((scast base + of_nat i :: u64) mod of_nat RANDOM_DATA_LEN)"

fun fill :: "'r env \<Rightarrow> u32 \<Rightarrow> int \<Rightarrow> nat \<Rightarrow> mm \<Rightarrow> mm option" where
  "fill env base p 0 m = Some m"
| "fill env base p (Suc i) m = do {
     m \<leftarrow> fill env base p i m;
     mem_write m (p + int i) (ucast (random_at env base i)) 1
   }"

definition randomize_block :: "'r env \<Rightarrow> int \<Rightarrow> 'r driver \<Rightarrow> 'r driver option" where
  "randomize_block env idx d =
     (if debug_mode env = DBG_NONE then Some d
      else do {
        let (v, s) = random env (seed d);
        let base = ucast v;
        bases \<leftarrow> set_at (block_rand_base (trace d)) idx base;
        let d = d\<lparr>trace := (trace d)\<lparr>block_rand_base := bases\<rparr>, seed := s\<rparr>;
        block \<leftarrow> elem_at (blocks (trace d)) idx;
        sz \<leftarrow> elem_at (block_sizes (trace d)) idx;
        (if sz = 0 then Some d
         else do {
           let (fsize, fsize_end, behind) = fill_extents sz;
           m \<leftarrow> fill env base block (unat fsize) (memory d);
           m \<leftarrow> fill env base (block + uint behind) (unat fsize_end) m;
           Some (d\<lparr>memory := m\<rparr>)
         })
      })"

text \<open>The counters \<open>ngarbled\<close> and \<open>firstgarbled\<close> over the first bytes at \<open>p\<close>.\<close>

fun garbled :: "'r env \<Rightarrow> u32 \<Rightarrow> int \<Rightarrow> nat \<Rightarrow> mm \<Rightarrow> int \<times> int \<Rightarrow> (int \<times> int) option" where
  "garbled env base p 0 m g = Some g"
| "garbled env base p (Suc i) m g = do {
     (n, f) \<leftarrow> garbled env base p i m g;
     v \<leftarrow> mem_read m (p + int i) 1;
     Some (if v \<noteq> ucast (random_at env base i) then (n + 1, if f = - 1 then int i else f) else (n, f))
   }"

definition check_index :: "'r env \<Rightarrow> trace_t \<Rightarrow> mm \<Rightarrow> int \<Rightarrow> bool \<Rightarrow> driver_error option option" where
  "check_index env t m idx after_realloc =
     (if idx < 0 \<or> debug_mode env = DBG_NONE then Some None
      else do {
        block \<leftarrow> elem_at (blocks t) idx;
        sz \<leftarrow> elem_at (block_sizes t) idx;
        (if sz = 0 then Some None
         else do {
           let (fsize, fsize_end, behind) = fill_extents sz;
           let fsize_end = (if after_realloc then 0 else fsize_end);
           base \<leftarrow> elem_at (block_rand_base t) idx;
           g \<leftarrow> garbled env base block (unat fsize) m (0, - 1);
           (n, f) \<leftarrow> garbled env base (block + uint behind) (unat fsize_end) m g;
           Some (if n \<noteq> 0 then Some (Garbled idx n f) else None)
         })
      })"

subsection \<open>Correctness\<close>

text \<open>With \<open>DBG_EXPENSIVE\<close>, before each request: the heap checker, and every block on the range list.\<close>

partial_function (option) check_ranges :: "'r env \<Rightarrow> 'r driver \<Rightarrow> ptr \<Rightarrow> driver_error option option" where
  [code]: "check_ranges env d r =
     (if r = NULL then Some None
      else do {
        n \<leftarrow> Dll.load (range_cells (ranges d)) r;
        e \<leftarrow> check_index env (trace d) (memory d) (index (node_data n)) False;
        (if e \<noteq> None then Some e else check_ranges env d (node_next n))
      })"

definition check_all :: "'r env \<Rightarrow> 'r driver \<Rightarrow> driver_error option option" where
  "check_all env d =
     (if debug_mode env = DBG_EXPENSIVE
      then do {
        (_, ok) \<leftarrow> mm_checkheap (debug_build env) (memory d);
        (if \<not> ok then Some (Some Inconsistent_heap) else check_ranges env d (range_list (ranges d)))
      }
      else Some None)"

definition track_block :: "'r env \<Rightarrow> int \<Rightarrow> u64 \<Rightarrow> int \<Rightarrow> 'r driver \<Rightarrow> (driver_error option \<times> 'r driver) option" where
  "track_block env p sz idx d = do {
     (e, rs) \<leftarrow> add_range (debug_mode env) (memory d) (range_malloc env (range_cells (ranges d)))
       (node_malloc env (nodes (lo_tree (ranges d)))) p sz idx (ranges d);
     Some (map_option Bad_range e, d\<lparr>ranges := rs\<rparr>)
   }"

definition valid_alloc :: "'r env \<Rightarrow> int \<Rightarrow> u64 \<Rightarrow> 'r driver \<Rightarrow> (driver_error option \<times> 'r driver) option" where
  "valid_alloc env idx sz d = do {
     (p, m) \<leftarrow> malloc sz (memory d);
     let d = d\<lparr>memory := m\<rparr>;
     (if p = 0 then Some (Some Malloc_failed, d)
      else do {
        (e, d) \<leftarrow> track_block env p sz idx d;
        (if e \<noteq> None then Some (e, d)
         else do {
           bs \<leftarrow> set_at (blocks (trace d)) idx p;
           ss \<leftarrow> set_at (block_sizes (trace d)) idx sz;
           d \<leftarrow> randomize_block env idx (d\<lparr>trace := (trace d)\<lparr>blocks := bs, block_sizes := ss\<rparr>\<rparr>);
           Some (None, d)
         })
      })
   }"

text \<open>What follows a successful \<open>mm_realloc\<close>.\<close>

definition valid_moved :: "'r env \<Rightarrow> int \<Rightarrow> u64 \<Rightarrow> int \<Rightarrow> 'r driver \<Rightarrow> (driver_error option \<times> 'r driver) option" where
  "valid_moved env idx sz newp d = do {
     bs \<leftarrow> set_at (blocks (trace d)) idx newp;
     oldsz \<leftarrow> elem_at (block_sizes (trace d)) idx;
     ss \<leftarrow> (if sz < oldsz then set_at (block_sizes (trace d)) idx sz else Some (block_sizes (trace d)));
     let d = d\<lparr>trace := (trace d)\<lparr>blocks := bs, block_sizes := ss\<rparr>\<rparr>;
     e \<leftarrow> check_index env (trace d) (memory d) idx True;
     (if e \<noteq> None then Some (e, d)
      else do {
        ss \<leftarrow> set_at (block_sizes (trace d)) idx sz;
        d \<leftarrow> randomize_block env idx (d\<lparr>trace := (trace d)\<lparr>block_sizes := ss\<rparr>\<rparr>);
        Some (None, d)
      })
   }"

definition valid_realloc :: "'r env \<Rightarrow> int \<Rightarrow> u64 \<Rightarrow> 'r driver \<Rightarrow> (driver_error option \<times> 'r driver) option" where
  "valid_realloc env idx sz d = do {
     e \<leftarrow> check_index env (trace d) (memory d) idx False;
     (if e \<noteq> None then Some (e, d)
      else do {
        oldp \<leftarrow> elem_at (blocks (trace d)) idx;
        (newp, m) \<leftarrow> realloc oldp sz (memory d);
        let d = d\<lparr>memory := m\<rparr>;
        (if newp = 0 \<and> sz \<noteq> 0 then Some (Some Realloc_failed, d)
         else if newp \<noteq> 0 \<and> sz = 0 then Some (Some Realloc_not_null, d)
         else do {
           rs \<leftarrow> remove_range oldp (ranges d);
           let d = d\<lparr>ranges := rs\<rparr>;
           (e, d) \<leftarrow> (if sz > 0 then track_block env newp sz idx d else Some (None, d));
           (if e \<noteq> None then Some (e, d) else valid_moved env idx sz newp d)
         })
      })
   }"

definition valid_free :: "'r env \<Rightarrow> int \<Rightarrow> 'r driver \<Rightarrow> (driver_error option \<times> 'r driver) option" where
  "valid_free env idx d = do {
     e \<leftarrow> check_index env (trace d) (memory d) idx False;
     (if e \<noteq> None then Some (e, d)
      else do {
        (p, rs) \<leftarrow> (if idx = - 1 then Some (0, ranges d)
          else do {
            p \<leftarrow> elem_at (blocks (trace d)) idx;
            rs \<leftarrow> remove_range p (ranges d);
            Some (p, rs)
          });
        m \<leftarrow> mm_free p (memory d);
        Some (None, d\<lparr>ranges := rs, memory := m\<rparr>)
      })
   }"

definition valid_op :: "'r env \<Rightarrow> traceop_t \<Rightarrow> 'r driver \<Rightarrow> (driver_error option \<times> 'r driver) option" where
  "valid_op env opn d = do {
     e \<leftarrow> check_all env d;
     (if e \<noteq> None then Some (e, d)
      else case op_kind opn of
        ALLOC \<Rightarrow> valid_alloc env (int_index opn) (op_size opn) d
      | REALLOC \<Rightarrow> valid_realloc env (int_index opn) (op_size opn) d
      | FREE \<Rightarrow> valid_free env (int_index opn) d)
   }"

fun valid_ops :: "'r env \<Rightarrow> traceop_t option list \<Rightarrow> 'r driver \<Rightarrow> (driver_error option \<times> 'r driver) option" where
  "valid_ops env [] d = Some (None, d)"
| "valid_ops env (r # rs) d = do {
     opn \<leftarrow> r;
     (e, d) \<leftarrow> valid_op env opn d;
     (if e \<noteq> None then Some (e, d) else valid_ops env rs d)
   }"

definition eval_mm_valid :: "'r env \<Rightarrow> 'r driver \<Rightarrow> (driver_error option \<times> 'r driver) option" where
  "eval_mm_valid env d = do {
     let m = mem_reset_brk (memory d);
     t \<leftarrow> reinit_trace (trace d);
     rs \<leftarrow> reset_range_set (tree_malloc_ok env) (ranges d);
     (ok, m) \<leftarrow> mm_init m;
     let d = d\<lparr>memory := m, trace := t, ranges := rs\<rparr>;
     (if \<not> ok then Some (Some Init_failed, d) else valid_ops env (requests t) d)
   }"

subsection \<open>Space and time\<close>

text \<open>The sizes \<open>eval_mm_util\<close> adds up; an error ends the program.\<close>

record usage =
  total_size :: u64
  max_total_size :: u64
  max_heap_size :: u64

type_synonym replay = "mm \<times> trace_t"

definition util_alloc :: "int \<Rightarrow> u64 \<Rightarrow> replay \<Rightarrow> usage \<Rightarrow> (driver_error option \<times> replay \<times> usage) option" where
  "util_alloc idx sz = (\<lambda>(m, t) u. do {
     (p, m) \<leftarrow> malloc sz m;
     (if p = 0 then Some (Some Malloc_failed, (m, t), u)
      else do {
        bs \<leftarrow> set_at (blocks t) idx p;
        ss \<leftarrow> set_at (block_sizes t) idx sz;
        Some (None, (m, t\<lparr>blocks := bs, block_sizes := ss\<rparr>), u\<lparr>total_size := total_size u + sz\<rparr>)
      })
   })"

definition util_realloc :: "int \<Rightarrow> u64 \<Rightarrow> replay \<Rightarrow> usage \<Rightarrow> (driver_error option \<times> replay \<times> usage) option" where
  "util_realloc idx newsize = (\<lambda>(m, t) u. do {
     oldsize \<leftarrow> elem_at (block_sizes t) idx;
     oldp \<leftarrow> elem_at (blocks t) idx;
     (newp, m) \<leftarrow> realloc oldp newsize m;
     (if newp = 0 \<and> newsize \<noteq> 0 then Some (Some Realloc_failed, (m, t), u)
      else do {
        bs \<leftarrow> set_at (blocks t) idx newp;
        ss \<leftarrow> set_at (block_sizes t) idx newsize;
        Some (None, (m, t\<lparr>blocks := bs, block_sizes := ss\<rparr>), u\<lparr>total_size := total_size u + (newsize - oldsize)\<rparr>)
      })
   })"

definition util_free :: "int \<Rightarrow> replay \<Rightarrow> usage \<Rightarrow> (driver_error option \<times> replay \<times> usage) option" where
  "util_free idx = (\<lambda>(m, t) u. do {
     (sz, p) \<leftarrow> (if idx < 0 then Some (0, 0)
       else do {
         sz \<leftarrow> elem_at (block_sizes t) idx;
         p \<leftarrow> elem_at (blocks t) idx;
         Some (sz, p)
       });
     m \<leftarrow> mm_free p m;
     Some (None, (m, t), u\<lparr>total_size := total_size u - sz\<rparr>)
   })"

definition high_water :: "mm \<Rightarrow> usage \<Rightarrow> usage" where
  "high_water m u =
     (let u = u\<lparr>max_total_size := if total_size u > max_total_size u then total_size u else max_total_size u\<rparr>;
          heap_size = mem_heapsize m
      in u\<lparr>max_heap_size := if heap_size > max_heap_size u then heap_size else max_heap_size u\<rparr>)"

definition util_op :: "traceop_t \<Rightarrow> replay \<Rightarrow> usage \<Rightarrow> (driver_error option \<times> replay \<times> usage) option" where
  "util_op opn r u = do {
     (e, r, u) \<leftarrow> (case op_kind opn of
         ALLOC \<Rightarrow> util_alloc (int_index opn) (op_size opn) r u
       | REALLOC \<Rightarrow> util_realloc (int_index opn) (op_size opn) r u
       | FREE \<Rightarrow> util_free (int_index opn) r u);
     Some (e, r, if e = None then high_water (fst r) u else u)
   }"

fun util_ops :: "traceop_t option list \<Rightarrow> replay \<Rightarrow> usage \<Rightarrow> (driver_error option \<times> replay \<times> usage) option" where
  "util_ops [] r u = Some (None, r, u)"
| "util_ops (q # qs) r u = do {
     opn \<leftarrow> q;
     (e, r, u) \<leftarrow> util_op opn r u;
     (if e \<noteq> None then Some (e, r, u) else util_ops qs r u)
   }"

text \<open>The result of the C function is the quotient \<open>max_total_size / max_heap_size\<close>.\<close>

definition eval_mm_util :: "replay \<Rightarrow> (driver_error option \<times> replay \<times> usage) option" where
  "eval_mm_util = (\<lambda>(m, t). do {
     t \<leftarrow> reinit_trace t;
     (ok, m) \<leftarrow> mm_init (mem_reset_brk m);
     let u = \<lparr>total_size = 0, max_total_size = 0, max_heap_size = 0\<rparr>;
     (if \<not> ok then Some (Some Init_failed, (m, t), u) else util_ops (requests t) (m, t) u)
   })"

definition speed_op :: "traceop_t \<Rightarrow> replay \<Rightarrow> (driver_error option \<times> replay) option" where
  "speed_op opn = (\<lambda>(m, t).
     let idx = int_index opn; sz = op_size opn in
     case op_kind opn of
       ALLOC \<Rightarrow> do {
         (p, m) \<leftarrow> malloc sz m;
         (if p = 0 then Some (Some Malloc_failed, m, t)
          else do { bs \<leftarrow> set_at (blocks t) idx p; Some (None, m, t\<lparr>blocks := bs\<rparr>) })
       }
     | REALLOC \<Rightarrow> do {
         oldp \<leftarrow> elem_at (blocks t) idx;
         (newp, m) \<leftarrow> realloc oldp sz m;
         (if newp = 0 \<and> sz \<noteq> 0 then Some (Some Realloc_failed, m, t)
          else do { bs \<leftarrow> set_at (blocks t) idx newp; Some (None, m, t\<lparr>blocks := bs\<rparr>) })
       }
     | FREE \<Rightarrow> do {
         block \<leftarrow> (if idx < 0 then Some 0 else elem_at (blocks t) idx);
         m \<leftarrow> mm_free block m;
         Some (None, m, t)
       })"

fun speed_ops :: "traceop_t option list \<Rightarrow> replay \<Rightarrow> (driver_error option \<times> replay) option" where
  "speed_ops [] r = Some (None, r)"
| "speed_ops (q # qs) r = do {
     opn \<leftarrow> q;
     (e, r) \<leftarrow> speed_op opn r;
     (if e \<noteq> None then Some (e, r) else speed_ops qs r)
   }"

definition eval_mm_speed :: "replay \<Rightarrow> (driver_error option \<times> replay) option" where
  "eval_mm_speed = (\<lambda>(m, t). do {
     t \<leftarrow> reinit_trace t;
     (ok, m) \<leftarrow> mm_init (mem_reset_brk m);
     (if \<not> ok then Some (Some Init_failed, m, t) else speed_ops (requests t) (m, t))
   })"

subsection \<open>All traces\<close>

text \<open>
  One round of \<open>run_tests\<close> with no timeout: \<open>mmap\<close> is the result of the call in \<open>mem_init\<close>, \<open>head\<close>
  the stale \<open>free_block_pointer\<close>. The times that \<open>fsec\<close> measures are left out. An error beside the statistics is one
  that ends the program.
\<close>

record stats_t =
  valid :: bool
  util :: "(u64 \<times> u64) option"

text \<open>\<open>add_range\<close> ends the program when memory runs out.\<close>

definition fatal :: "driver_error option \<Rightarrow> driver_error option" where
  "fatal e = (if e = Some (Bad_range Exit_program) then e else None)"

definition test_valid :: "'r env \<Rightarrow> 'r driver \<Rightarrow> (driver_error option \<times> 'r driver) option" where
  "test_valid env d = do {
     (e, d) \<leftarrow> eval_mm_valid env d;
     (if e \<noteq> None then Some (e, d) else eval_mm_valid env d)
   }"

definition run_test :: "'r env \<Rightarrow> bool \<Rightarrow> int option \<times> trace_t \<Rightarrow> int \<times> 'r \<Rightarrow>
    (driver_error option \<times> stats_t \<times> int \<times> 'r) option" where
  "run_test env onetime = (\<lambda>(mmap, t) (head, s). do {
     m \<leftarrow> mem_init mmap;
     rs \<leftarrow> new_range_set (tree_malloc_ok env);
     (e, d) \<leftarrow> test_valid env
       \<lparr>memory = memsys.extend m \<lparr>free_block_pointer = head\<rparr>, trace = t, ranges = rs, seed = s\<rparr>;
     (if e \<noteq> None \<or> onetime
      then do {
        _ \<leftarrow> (if onetime \<or> fatal e \<noteq> None then Some Map.empty else free_range_set (ranges d));
        Some (fatal e, \<lparr>valid = (e = None), util = None\<rparr>, free_block_pointer (memory d), seed d)
      }
      else do {
        (e, (m, _), u) \<leftarrow> eval_mm_util (memory d, trace d);
        _ \<leftarrow> (if e = None then free_range_set (ranges d) else Some Map.empty);
        Some (e, \<lparr>valid = True, util = Some (max_total_size u, max_heap_size u)\<rparr>, free_block_pointer m, seed d)
      })
   })"

fun run_tests :: "'r env \<Rightarrow> bool \<Rightarrow> (int option \<times> trace_t) list \<Rightarrow> int \<times> 'r \<Rightarrow>
    (driver_error option \<times> stats_t list \<times> int \<times> 'r) option" where
  "run_tests env onetime [] s = Some (None, [], s)"
| "run_tests env onetime (x # xs) s = do {
     (e, st, s) \<leftarrow> run_test env onetime x s;
     (if e \<noteq> None then Some (e, [st], s)
      else if onetime then Some (None, [st], s)
      else do {
        (e, sts, s) \<leftarrow> run_tests env onetime xs s;
        Some (e, st # sts, s)
      })
   }"

end
