(* ===== verification/Driver_Data.thy ===== *)
theory Driver_Data
  imports Mm_Roomy Range_Chain Driver
begin

unbundle bit_operations_syntax

text \<open>
  The state of the driver between two requests: its tables, the range set and the heap describe the
  same blocks, and each block holds the random data written to it.
\<close>

subsection \<open>Filling and checking a block\<close>

lemma word_of_byte: "word_of [b] = (ucast b :: u64)"
  by simp

lemma fill_writes:
  "mapped m p n \<Longrightarrow> fill env base p n m = Some (write_bytes m p (map (random_at env base) [0..<n]))"
proof (induction n)
  case (Suc i)
  let ?vs = "map (random_at env base) [0..<i]" and ?b = "random_at env base i"
  have "mapped m p i" using Suc.prems by (rule mapped_mono) simp_all
  then have ih: "fill env base p i m = Some (write_bytes m p ?vs)" by (rule Suc.IH)
  have "mapped (write_bytes m p ?vs) (p + int i) (length [?b])"
    unfolding mapped_write using Suc.prems by (rule mapped_mono) simp_all
  then have "mem_write (write_bytes m p ?vs) (p + int i) (word_of [?b]) (length [?b]) =
      Some (write_bytes (write_bytes m p ?vs) (p + int i) [?b])" by (intro mem_write_bytes) simp_all
  then show ?case using ih write_bytes_append [of m p ?vs "[?b]"] by (simp add: word_of_byte del: word_of.simps)
qed simp

lemma garbled_none:
  "mapped m p (n + 7) \<Longrightarrow> \<forall>i < n. bytes m (p + int i) = random_at env base i \<Longrightarrow> garbled env base p n m g = Some g"
proof (induction n)
  case (Suc i)
  have ih: "garbled env base p i m g = Some g" using Suc.prems by (intro Suc.IH mapped_mono [OF Suc.prems(1)]) simp_all
  have "mapped m (p + int i) 8" by (rule mapped_mono [OF Suc.prems(1)]) simp_all
  then have "mem_read m (p + int i) 1 = Some (word_of (read_bytes m (p + int i) 1))" by (rule mem_read_bytes) simp
  moreover have "read_bytes m (p + int i) 1 = [random_at env base i]" using Suc.prems(2) by (simp add: read_bytes_def)
  ultimately show ?case using ih by (cases g) (simp add: word_of_byte del: word_of.simps)
qed simp

lemma lt_unat: "i < unat x \<longleftrightarrow> int i < uint (x :: u64)"
proof -
  have "int (unat x) = uint x" by simp
  then show ?thesis by linarith
qed

lemma fill_extents_facts:
  assumes "fill_extents sz = (f, e, b)"
  shows "unat f = min (unat sz) 1024" "uint b + int (unat e) \<le> uint sz" "e \<noteq> 0 \<Longrightarrow> int (unat f) \<le> uint b"
    "int (unat f) \<le> uint sz"
proof -
  have m: "unat MAXFILL = 1024" "uint MAXFILL = 1024" "uint (2 * MAXFILL) = 2048" "unat (2 * MAXFILL) = 2048" by (simp_all add: MAXFILL_def)
  have sub: "unat (sz - MAXFILL) = unat sz - 1024" "uint (sz - MAXFILL) = uint sz - 1024" if "MAXFILL < sz"
  proof -
    have le: "MAXFILL \<le> sz" "1024 < unat sz" using that m by (simp_all add: word_less_nat_alt word_le_nat_alt)
    then show eq: "unat (sz - MAXFILL) = unat sz - 1024" using m by (simp add: unat_sub)
    have "uint (sz - MAXFILL) = int (unat (sz - MAXFILL))" by simp
    then show "uint (sz - MAXFILL) = uint sz - 1024" using le(2) unfolding eq by simp
  qed
  consider "2 * MAXFILL < sz" "MAXFILL < sz" | "MAXFILL < sz" "\<not> 2 * MAXFILL < sz" | "\<not> MAXFILL < sz"
    using m(2,3) by (auto simp: word_less_def)
  then have fs: "unat f = min (unat sz) 1024 \<and> uint b + int (unat e) \<le> uint sz \<and> (e \<noteq> 0 \<longrightarrow> int (unat f) \<le> uint b)"
  proof cases
    case 1
    then have v: "f = MAXFILL" "e = MAXFILL" "b = sz - MAXFILL" using assms by (simp_all add: fill_extents_def)
    have lt: "1024 < unat sz" "2048 < unat sz" using 1 m by (simp_all add: word_less_nat_alt)
    have "2048 < uint sz" using 1(1) m(3) by (simp add: word_less_def)
    then show ?thesis using v m lt sub(2) [OF 1(2)] by simp
  next
    case 2
    then have v: "f = MAXFILL" "e = sz - MAXFILL" "b = MAXFILL" using assms by (simp_all add: fill_extents_def)
    have lt: "1024 < unat sz" using 2 m by (simp add: word_less_nat_alt)
    show ?thesis using v m lt sub(2) [OF 2(1)] by simp
  next
    case 3
    then have v: "f = sz" "e = 0" "b = 0" using assms by (simp_all add: fill_extents_def)
    have "unat sz \<le> 1024" using 3 m by (simp add: word_less_nat_alt)
    then show ?thesis using v by simp
  qed
  then show f: "unat f = min (unat sz) 1024" and "uint b + int (unat e) \<le> uint sz" and "e \<noteq> 0 \<Longrightarrow> int (unat f) \<le> uint b"
    by blast+
  have "unat f \<le> unat sz" unfolding f by (rule min.cobounded1)
  then have "int (unat f) \<le> int (unat sz)" by (simp only: of_nat_le_iff)
  then show "int (unat f) \<le> uint sz" by simp
qed

text \<open>A block of \<open>sz\<close> bytes at \<open>p\<close> holds the random data from \<open>base\<close> on, at its start and at its end.\<close>

definition holds_data :: "'r env \<Rightarrow> mm \<Rightarrow> int \<Rightarrow> u64 \<Rightarrow> u32 \<Rightarrow> bool" where
  "holds_data env m p sz base \<longleftrightarrow> (case fill_extents sz of (f, e, b) \<Rightarrow>
     (\<forall>i < unat f. bytes m (p + int i) = random_at env base i) \<and>
     (\<forall>i < unat e. bytes m (p + uint b + int i) = random_at env base i))"

lemma holds_data_cong:
  assumes "holds_data env m p sz base" "\<And>x. p \<le> x \<Longrightarrow> x < p + uint sz \<Longrightarrow> bytes m' x = bytes m x"
  shows "holds_data env m' p sz base"
proof -
  obtain f e b where fe: "fill_extents sz = (f, e, b)" by (cases "fill_extents sz")
  note ff = fill_extents_facts [OF fe]
  have b: "0 \<le> uint b" "0 \<le> uint f" by simp_all
  have "bytes m' (p + int i) = bytes m (p + int i)" if "i < unat f" for i
    using that ff(4) by (intro assms(2)) (simp_all add: lt_unat)
  moreover have "bytes m' (p + uint b + int i) = bytes m (p + uint b + int i)" if "i < unat e" for i
    using that ff(2) b by (intro assms(2)) (simp_all add: lt_unat)
  ultimately show ?thesis using assms(1) by (simp add: holds_data_def fe)
qed

lemma overlay_at: "i < length vs \<Longrightarrow> bytes (write_bytes m p vs) (p + int i) = vs ! i"
  by (simp add: write_bytes_def overlay_def)

lemma fill_block:
  fixes env :: "'r env" and base :: u32
  assumes "mapped m p (unat sz)" and fe: "fill_extents sz = (f, e, b)"
  defines "vs \<equiv> map (random_at env base)"
  defines "m1 \<equiv> write_bytes m p (vs [0..<unat f])"
  defines "m2 \<equiv> write_bytes m1 (p + uint b) (vs [0..<unat e])"
  shows "fill env base p (unat f) m = Some m1" "fill env base (p + uint b) (unat e) m1 = Some m2" "holds_data env m2 p sz base"
proof -
  note ff = fill_extents_facts [OF fe]
  have "mapped m p (unat f)" using ff(4) by (intro mapped_mono [OF assms(1)]) simp_all
  then show "fill env base p (unat f) m = Some m1" unfolding m1_def vs_def by (rule fill_writes)
  have "mapped m1 (p + uint b) (unat e)" unfolding m1_def mapped_write using ff(2) by (intro mapped_mono [OF assms(1)]) simp_all
  then show "fill env base (p + uint b) (unat e) m1 = Some m2" unfolding m2_def vs_def by (rule fill_writes)
  have "bytes m2 (p + int i) = random_at env base i" if "i < unat f" for i
  proof -
    have "bytes m2 (p + int i) = bytes m1 (p + int i)"
      using that ff(3) by (cases "e = 0") (auto simp: m2_def vs_def write_bytes_def overlay_def lt_unat)
    then show ?thesis using that overlay_at [of i "vs [0..<unat f]" m p] by (simp add: m1_def vs_def)
  qed
  moreover have "bytes m2 (p + uint b + int i) = random_at env base i" if "i < unat e" for i
    using that overlay_at [of i "vs [0..<unat e]" m1 "p + uint b"] by (simp add: m2_def vs_def)
  ultimately show "holds_data env m2 p sz base" by (simp add: holds_data_def fe)
qed

lemma check_index_passes:
  assumes t: "elem_at (blocks t) i = Some p" "elem_at (block_sizes t) i = Some sz" "elem_at (block_rand_base t) i = Some base"
    and m: "mapped m p (unat sz + 7)" and d: "debug_mode env \<noteq> DBG_NONE \<Longrightarrow> holds_data env m p sz base"
  shows "check_index env t m i re = Some None"
proof (cases "i < 0 \<or> debug_mode env = DBG_NONE")
  case False
  obtain f e b where fe: "fill_extents sz = (f, e, b)" by (cases "fill_extents sz")
  note ff = fill_extents_facts [OF fe]
  have h: "\<forall>i < unat f. bytes m (p + int i) = random_at env base i" "\<forall>i < unat e. bytes m (p + uint b + int i) = random_at env base i"
    using d False by (simp_all add: holds_data_def fe)
  have "garbled env base p (unat f) m g = Some g" for g
    using ff(4) h(1) by (intro garbled_none mapped_mono [OF m]) simp_all
  moreover have "garbled env base (p + uint b) (unat (if re then 0 else e)) m g = Some g" for g
  proof (rule garbled_none)
    have "uint b + int (unat (if re then 0 else e)) \<le> uint sz" 
    proof (cases re)
      case True
      then show ?thesis using ff(2) uint_ge_0 [of e] by (simp; linarith)
    qed (use ff(2) in simp)
    then show "mapped m (p + uint b) (unat (if re then 0 else e) + 7)" by (intro mapped_mono [OF m]) simp_all
    show "\<forall>k < unat (if re then 0 else e). bytes m (p + uint b + int k) = random_at env base k" using h(2) by simp
  qed
  ultimately show ?thesis using False t by (auto simp: check_index_def fe Let_def)
qed (auto simp: check_index_def)

text \<open>After \<open>realloc\<close> only the start is checked.\<close>

lemma check_index_prefix:
  assumes t: "elem_at (blocks t) i = Some p" "elem_at (block_sizes t) i = Some sz" "elem_at (block_rand_base t) i = Some base"
    and m: "mapped m p (unat sz + 7)"
    and d: "\<And>k. debug_mode env \<noteq> DBG_NONE \<Longrightarrow> k < unat sz \<Longrightarrow> k < 1024 \<Longrightarrow> bytes m (p + int k) = random_at env base k"
  shows "check_index env t m i True = Some None"
proof (cases "i < 0 \<or> debug_mode env = DBG_NONE")
  case False
  obtain f e b where fe: "fill_extents sz = (f, e, b)" by (cases "fill_extents sz")
  note ff = fill_extents_facts [OF fe]
  have "garbled env base p (unat f) m g = Some g" for g
  proof (rule garbled_none)
    show "mapped m p (unat f + 7)" using ff(4) by (intro mapped_mono [OF m]) simp_all
    show "\<forall>k < unat f. bytes m (p + int k) = random_at env base k" using ff(1) d False by simp
  qed
  then show ?thesis using False t by (auto simp: check_index_def fe Let_def)
qed (auto simp: check_index_def)

end
