(* ===== verification/Driver_Valid.thy ===== *)
theory Driver_Valid
  imports Driver_Data
begin

unbundle bit_operations_syntax

text \<open>
  \<open>eval_mm_valid\<close> on the allocator of \<open>Mm\<close>: each request of a well-formed trace of large requests is answered, passes every check
  and leaves the driver's tables in step with the heap.
\<close>

subsection \<open>The invariant\<close>

definition live_sizes :: "range_map \<Rightarrow> int \<rightharpoonup> int" where
  "live_sizes R p = map_option fst (R p)"

definition table_ok :: "trace_t \<Rightarrow> range_map \<Rightarrow> bool" where
  "table_ok t R \<longleftrightarrow> length (block_sizes t) = length (blocks t) \<and> length (block_rand_base t) = length (blocks t) \<and>
     (\<forall>p n i. R p = Some (n, i) \<longrightarrow>
        0 \<le> i \<and> i < int (length (blocks t)) \<and> blocks t ! nat i = p \<and> uint (block_sizes t ! nat i) = n)"

definition ranges_of :: "'r env \<Rightarrow> range_map \<Rightarrow> range_map" where
  "ranges_of env R = (if debug_mode env = DBG_NONE then Map.empty else R)"

definition data_ok :: "'r env \<Rightarrow> mm \<Rightarrow> trace_t \<Rightarrow> range_map \<Rightarrow> bool" where
  "data_ok env m t R \<longleftrightarrow> (debug_mode env \<noteq> DBG_NONE \<longrightarrow>
     (\<forall>p n i. R p = Some (n, i) \<longrightarrow> holds_data env m p (block_sizes t ! nat i) (block_rand_base t ! nat i)))"

definition tracked :: "'r env \<Rightarrow> 'r driver \<Rightarrow> range_map \<Rightarrow> bool" where
  "tracked env d R \<longleftrightarrow> table_ok (trace d) R \<and> roomy (memory d) (live_sizes R) \<and> chained (ranges d) (ranges_of env R) \<and>
     data_ok env (memory d) (trace d) R"

text \<open>The calls of \<open>malloc\<close> of the driver itself succeed.\<close>

definition env_ok :: "'r env \<Rightarrow> bool" where
  "env_ok env \<longleftrightarrow> tree_malloc_ok env \<and> (\<forall>h. finite (dom h) \<longrightarrow> (\<exists>a. range_malloc env h = Some a \<and> h a = None)) \<and>
     (\<forall>h. finite (dom h) \<longrightarrow> (\<exists>z. node_malloc env h = Some z \<and> h z = None))"

text \<open>What does not change, and how far the heap grows.\<close>

definition within :: "'r driver \<Rightarrow> int \<Rightarrow> 'r driver \<Rightarrow> bool" where
  "within d n d' \<longleftrightarrow> memsys.heap (memory d') = memsys.heap (memory d) \<and> mem_max_addr (memory d') = mem_max_addr (memory d) \<and>
     mem_brk (memory d') \<le> mem_brk (memory d) + n \<and> length (blocks (trace d')) = length (blocks (trace d)) \<and>
     ops (trace d') = ops (trace d) \<and> num_ops (trace d') = num_ops (trace d) \<and> num_ids (trace d') = num_ids (trace d)"

lemma within_refl [simp]: "0 \<le> n \<Longrightarrow> within d n d"
  by (simp add: within_def)

lemma within_trans: "within d n d1 \<Longrightarrow> within d1 k d2 \<Longrightarrow> within d (n + k) d2"
  by (simp add: within_def)

lemma live_sizes_simps: "live_sizes (R(p \<mapsto> (n, i))) = (live_sizes R)(p \<mapsto> n)" "live_sizes (R(p := None)) = (live_sizes R)(p := None)"
  "live_sizes Map.empty = Map.empty"
  by (auto simp: live_sizes_def fun_eq_iff)

lemma live_sizes_Some: "R p = Some (n, i) \<Longrightarrow> live_sizes R p = Some n"
  by (simp add: live_sizes_def)

lemma live_sizes_None: "p \<notin> dom (live_sizes R) \<Longrightarrow> R p = None"
  by (cases "R p") (auto simp: live_sizes_def)

lemma elem_at_nth: "0 \<le> i \<Longrightarrow> i < int (length xs) \<Longrightarrow> elem_at xs i = Some (xs ! nat i)"
  by (simp add: elem_at_def)

lemma set_at_upd: "0 \<le> i \<Longrightarrow> i < int (length xs) \<Longrightarrow> set_at xs i v = Some (xs[nat i := v])"
  by (simp add: set_at_def)

lemma table_entry:
  assumes "table_ok t R" "R p = Some (n, i)"
  shows "0 \<le> i" "i < int (length (blocks t))" "i < int (length (block_sizes t))" "i < int (length (block_rand_base t))"
    "elem_at (blocks t) i = Some p" "elem_at (block_sizes t) i = Some (block_sizes t ! nat i)" "uint (block_sizes t ! nat i) = n"
    "elem_at (block_rand_base t) i = Some (block_rand_base t ! nat i)"
  using assms unfolding table_ok_def by (auto simp: elem_at_nth)

lemma table_only: "table_ok t R \<Longrightarrow> R p = Some (n, i) \<Longrightarrow> R q = Some (k, i) \<Longrightarrow> p = q"
  unfolding table_ok_def by metis

lemma table_remove: "table_ok t R \<Longrightarrow> table_ok t (R(p := None))"
  unfolding table_ok_def by auto

lemma table_set:
  assumes "table_ok t R" "\<forall>p n. R p \<noteq> Some (n, i)" "0 \<le> i"
  shows "table_ok (t\<lparr>blocks := (blocks t)[nat i := q], block_sizes := (block_sizes t)[nat i := z]\<rparr>) R"
    "table_ok (t\<lparr>block_sizes := (block_sizes t)[nat i := z]\<rparr>) R"
proof -
  have "nat i \<noteq> nat j" if "R p = Some (n, j)" for p n j
    using that assms unfolding table_ok_def by (metis eq_nat_nat_iff)
  then show "table_ok (t\<lparr>blocks := (blocks t)[nat i := q], block_sizes := (block_sizes t)[nat i := z]\<rparr>) R"
    "table_ok (t\<lparr>block_sizes := (block_sizes t)[nat i := z]\<rparr>) R"
    using assms(1) unfolding table_ok_def by auto
qed

lemma data_set:
  assumes "data_ok env m t R" "table_ok t R" "\<forall>p n. R p \<noteq> Some (n, i)" "0 \<le> i"
    "block_sizes t' = (block_sizes t)[nat i := z]" "block_rand_base t' = block_rand_base t"
  shows "data_ok env m t' R"
proof -
  have "nat i \<noteq> nat j" if "R p = Some (n, j)" for p n j
    using that assms(2-4) unfolding table_ok_def by (metis eq_nat_nat_iff)
  then show ?thesis using assms(1,5,6) unfolding data_ok_def by auto
qed

lemma data_keeps:
  assumes "data_ok env m t R" "keeps m (live_sizes R) m'" "table_ok t R"
  shows "data_ok env m' t R"
  unfolding data_ok_def
proof (intro impI allI)
  fix p n i
  assume dbg: "debug_mode env \<noteq> DBG_NONE" and p: "R p = Some (n, i)"
  have "holds_data env m p (block_sizes t ! nat i) (block_rand_base t ! nat i)" using assms(1) dbg p by (simp add: data_ok_def)
  then show "holds_data env m' p (block_sizes t ! nat i) (block_rand_base t ! nat i)"
  proof (rule holds_data_cong)
    fix x
    assume "p \<le> x" "x < p + uint (block_sizes t ! nat i)"
    then have "x < p + n" using table_entry(7) [OF assms(3) p] by simp
    then show "bytes m' x = bytes m x" using assms(2) live_sizes_Some [of R p n i, OF p] \<open>p \<le> x\<close> unfolding keeps_def by blast
  qed
qed

text \<open>The memory around a block the client holds is mapped.\<close>

lemma roomy_mapped:
  assumes "roomy m L" "L p = Some (uint sz)"
  shows "mapped m p (unat sz + 7)" "mapped m p (unat sz)" "0 \<le> p" "p + uint sz < 2 ^ 62" "IS_ALIGNED p"
    "mem_heap_lo m \<le> p" "p + uint sz - 1 \<le> mem_heap_hi m"
proof -
  have in_p: "memsys.heap m + 16 \<le> p \<and> p + uint sz \<le> mem_brk m - 8 \<and> p mod 16 = 0 \<and> 0 < uint sz"
    by (rule sound_inside [OF roomy_sound [OF assms(1)] assms(2)])
  have b: "0 \<le> memsys.heap m" "mem_brk m \<le> mem_max_addr m" "mem_max_addr m < 2 ^ 62"
    using assms(1) by (auto simp: roomy_def heap_ok_def bounds_ok_def)
  show "mapped m p (unat sz + 7)" "mapped m p (unat sz)" using in_p b by (simp_all add: mapped_def)
  show "0 \<le> p" "p + uint sz < 2 ^ 62" "IS_ALIGNED p" using in_p b by (simp_all add: IS_ALIGNED_def ALIGNMENT_def)
  show "mem_heap_lo m \<le> p" "p + uint sz - 1 \<le> mem_heap_hi m" using in_p by (simp_all add: mem_heap_lo_def mem_heap_hi_def)
qed

lemma tracked_check:
  assumes "tracked env d R" "R p = Some (n, i)"
  shows "check_index env (trace d) (memory d) i False = Some None"
proof -
  have t: "table_ok (trace d) R" and ro: "roomy (memory d) (live_sizes R)" and da: "data_ok env (memory d) (trace d) R"
    using assms(1) by (simp_all add: tracked_def)
  note e = table_entry [OF t assms(2)]
  have "mapped (memory d) p (unat (block_sizes (trace d) ! nat i) + 7)"
    using roomy_mapped(1) [OF ro, of p "block_sizes (trace d) ! nat i"] live_sizes_Some [of R p n i, OF assms(2)] e(7) by simp
  then show ?thesis by (rule check_index_passes [OF e(5,6,8)]) (use da assms(2) in \<open>auto simp: data_ok_def\<close>)
qed

subsection \<open>A new block\<close>

lemma track_new:
  assumes env: "env_ok env" and ch: "chained (ranges d) (ranges_of env R)" and ro: "roomy (memory d) ((live_sizes R)(p \<mapsto> uint sz))"
    and p: "R p = None"
  obtains rs where "track_block env p sz i d = Some (None, d\<lparr>ranges := rs\<rparr>)" "chained rs (ranges_of env (R(p \<mapsto> (uint sz, i))))"
proof (cases "debug_mode env = DBG_NONE")
  case True
  let ?L = "(live_sizes R)(p \<mapsto> uint sz)"
  have Lp: "?L p = Some (uint sz)" by simp
  note b = roomy_mapped [OF ro Lp]
  have pos: "0 < uint sz" using sound_inside [OF roomy_sound [OF ro] Lp] by simp
  then have "(p + uint sz - 1) mod 2 ^ 64 = p + uint sz - 1" using b by (intro mod_pos_pos_trivial) simp_all
  moreover have "sz \<noteq> 0" using pos by auto
  ultimately have "add_range DBG_NONE (memory d) new node p sz i (ranges d) = Some (None, ranges d)" for new node
    using b pos by (simp add: add_range_def)
  then have "track_block env p sz i d = Some (None, d\<lparr>ranges := ranges d\<rparr>)" by (simp add: track_block_def True)
  then show thesis by (rule that) (use ch True in \<open>simp add: ranges_of_def\<close>)
next
  case False
  let ?L = "(live_sizes R)(p \<mapsto> uint sz)"
  have Lp: "?L p = Some (uint sz)" by simp
  note b = roomy_mapped [OF ro Lp]
  have pos: "0 < uint sz" using sound_inside [OF roomy_sound [OF ro] Lp] by simp
  have ap: "apart R p (uint sz)"
    unfolding apart_def
  proof (intro allI impI)
    fix q k j
    assume q: "R q = Some (k, j)"
    then have "?L q = Some k" "q \<noteq> p" using p live_sizes_Some [of R q k j, OF q] by auto
    then show "q + k \<le> p \<or> p + uint sz \<le> q" using sound_disjoint [OF roomy_sound [OF ro] _ Lp] by blast
  qed
  have ch': "chained (ranges d) R" using ch False by (simp add: ranges_of_def)
  obtain a where a: "range_malloc env (range_cells (ranges d)) = Some a" "range_cells (ranges d) a = None"
    using env chained_finite [OF ch'] unfolding env_ok_def by blast
  obtain z where z: "node_malloc env (nodes (lo_tree (ranges d))) = Some z" "nodes (lo_tree (ranges d)) z = None"
    using env chained_finite [OF ch'] unfolding env_ok_def by blast
  have le: "p + uint sz \<le> 2 ^ 63" using b(4) by simp
  obtain rs where rs: "add_range (debug_mode env) (memory d) (Some a) (Some z) p sz i (ranges d) = Some (None, rs)" "chained rs (R(p \<mapsto> (uint sz, i)))"
    by (rule add_range_chained [OF ch' ap pos b(5,6,7,3) le False a(2) z(2)])
  show thesis by (rule that [of rs]) (use rs a(1) z(1) False in \<open>simp_all add: track_block_def ranges_of_def\<close>)
qed

lemma settle_block:
  assumes t: "table_ok (trace d) R" and i: "\<forall>q n. R q \<noteq> Some (n, i)" "0 \<le> i" "i < int (length (blocks (trace d)))"
    and e: "blocks (trace d) ! nat i = p" "block_sizes (trace d) ! nat i = sz" and p: "R p = None"
    and ro: "roomy (memory d) ((live_sizes R)(p \<mapsto> uint sz))" and ch: "chained (ranges d) (ranges_of env (R(p \<mapsto> (uint sz, i))))"
    and da: "data_ok env (memory d) (trace d) R"
  obtains d' where "randomize_block env i d = Some d'" "tracked env d' (R(p \<mapsto> (uint sz, i)))" "within d 0 d'"
proof -
  let ?R = "R(p \<mapsto> (uint sz, i))"
  define L where "L = (live_sizes R)(p \<mapsto> uint sz)"
  note ro = ro [folded L_def]
  have t': "table_ok (trace d) ?R" using t i(2,3) e by (simp add: table_ok_def)
  have L: "live_sizes ?R = L" unfolding L_def by (rule live_sizes_simps)
  show thesis
  proof (cases "debug_mode env = DBG_NONE")
    case True
    have "tracked env d ?R" using t' ro ch True by (simp add: tracked_def L data_ok_def)
    then show thesis using that [of d] True by (simp add: randomize_block_def)
  next
    case False
    have Lp: "L p = Some (uint sz)" by (simp add: L_def)
    have len: "i < int (length (block_sizes (trace d)))" "i < int (length (block_rand_base (trace d)))" using t i(3) by (simp_all add: table_ok_def)
    obtain v s where r: "random env (seed d) = (v, s)" by (cases "random env (seed d)")
    let ?base = "ucast v :: u32"
    obtain f g b where fe: "fill_extents sz = (f, g, b)" by (cases "fill_extents sz")
    note ff = fill_extents_facts [OF fe]
    note fb = fill_block [OF roomy_mapped(2) [OF ro Lp] fe, of env ?base]
    define m1 where "m1 = write_bytes (memory d) p (map (random_at env ?base) [0..<unat f])"
    define m2 where "m2 = write_bytes m1 (p + uint b) (map (random_at env ?base) [0..<unat g])"
    note fb = fb [folded m1_def, folded m2_def]
    have m1: "roomy m1 L" "keeps (memory d) (L(p := None)) m1"
      using roomy_put [OF ro Lp, of p "map (random_at env ?base) [0..<unat f]"] ff(4) by (simp_all add: m1_def)
    have "p \<le> p + uint b" by simp
    then have m2: "roomy m2 L" "keeps m1 (L(p := None)) m2"
      using roomy_put [OF m1(1) Lp, of "p + uint b" "map (random_at env ?base) [0..<unat g]"] ff(2) by (simp_all add: m2_def)
    have k: "keeps (memory d) (live_sizes R) m2"
    proof (rule keeps_trans [OF m1(2) m2(2)])
      show "live_sizes R \<subseteq>\<^sub>m L(p := None)" "live_sizes R \<subseteq>\<^sub>m L(p := None)" using p by (simp_all add: map_le_def L_def live_sizes_def)
    qed
    let ?t = "(trace d)\<lparr>block_rand_base := (block_rand_base (trace d))[nat i := ?base]\<rparr>"
    let ?d = "d\<lparr>trace := ?t, seed := s, memory := m2\<rparr>"
    have "sz \<noteq> 0" using sound_inside [OF roomy_sound [OF ro] Lp] by auto
    then have "randomize_block env i d = Some ?d"
      using False r i(2,3) len e fe fb(1,2) by (simp add: randomize_block_def set_at_upd elem_at_nth Let_def)
    moreover have "data_ok env m2 ?t ?R"
      unfolding data_ok_def
    proof (intro impI allI)
      fix q n j
      assume q: "?R q = Some (n, j)"
      show "holds_data env m2 q (block_sizes ?t ! nat j) (block_rand_base ?t ! nat j)"
      proof (cases "q = p")
        case True
        then show ?thesis using q e(2) fb(3) len(2) i(2) by (auto simp: nat_less_iff)
      next
        case False
        then have "R q = Some (n, j)" using q by simp
        moreover have "nat i \<noteq> nat j" using i(1,2) table_entry(1) [OF t \<open>R q = Some (n, j)\<close>] \<open>R q = Some (n, j)\<close> by (metis eq_nat_nat_iff)
        ultimately show ?thesis using data_keeps [OF da k t] \<open>debug_mode env \<noteq> DBG_NONE\<close> by (simp add: data_ok_def)
      qed
    qed
    then have "tracked env ?d ?R" using t' m2(1) ch by (simp add: tracked_def L table_ok_def)
    moreover have "within d 0 ?d" by (simp add: within_def m2_def m1_def)
    ultimately show thesis by (rule that)
  qed
qed

subsection \<open>The requests\<close>

lemma valid_alloc_tracked:
  assumes env: "env_ok env" and tr: "tracked env d R" and i: "\<forall>p n. R p \<noteq> Some (n, i)" "0 \<le> i" "i < int (length (blocks (trace d)))"
    and sz: "41 \<le> uint sz" "uint sz + 23 < 2 ^ 64" and fits: "mem_brk (memory d) + required_size (uint sz) \<le> mem_max_addr (memory d)"
  obtains d' p where "valid_alloc env i sz d = Some (None, d')" "tracked env d' (R(p \<mapsto> (uint sz, i)))" "R p = None"
    "within d (required_size (uint sz)) d'"
proof -
  have t: "table_ok (trace d) R" and ro: "roomy (memory d) (live_sizes R)" and ch: "chained (ranges d) (ranges_of env R)"
    and da: "data_ok env (memory d) (trace d) R" using tr by (simp_all add: tracked_def)
  obtain p m1 where m1: "malloc sz (memory d) = Some (p, m1)" "p \<noteq> 0" "p \<notin> dom (live_sizes R)" "roomy m1 ((live_sizes R)(p \<mapsto> uint sz))"
    "keeps (memory d) (live_sizes R) m1" "mem_brk m1 \<le> mem_brk (memory d) + required_size (uint sz)"
    by (rule roomy_malloc [OF ro sz fits])
  have p: "R p = None" by (rule live_sizes_None [OF m1(3)])
  let ?d1 = "d\<lparr>memory := m1\<rparr>"
  have ch1: "chained (ranges ?d1) (ranges_of env R)" and ro1: "roomy (memory ?d1) ((live_sizes R)(p \<mapsto> uint sz))"
    using ch m1(4) by simp_all
  obtain rs where rs: "track_block env p sz i ?d1 = Some (None, ?d1\<lparr>ranges := rs\<rparr>)" "chained rs (ranges_of env (R(p \<mapsto> (uint sz, i))))"
    by (rule track_new [OF env ch1 ro1 p])
  let ?t = "(trace d)\<lparr>blocks := (blocks (trace d))[nat i := p], block_sizes := (block_sizes (trace d))[nat i := sz]\<rparr>"
  let ?d2 = "?d1\<lparr>ranges := rs, trace := ?t\<rparr>"
  have len: "length (block_sizes (trace d)) = length (blocks (trace d))" using t by (simp add: table_ok_def)
  have t2: "table_ok (trace ?d2) R" using table_set(1) [OF t i(1,2)] by simp
  have "data_ok env m1 ?t R" by (rule data_set [OF data_keeps [OF da m1(5) t] t i(1,2)]) simp_all
  then have da2: "data_ok env (memory ?d2) (trace ?d2) R" by simp
  have e: "i < int (length (blocks (trace ?d2)))" "blocks (trace ?d2) ! nat i = p" "block_sizes (trace ?d2) ! nat i = sz"
    using i(2,3) len by (auto simp: nat_less_iff)
  have ro2: "roomy (memory ?d2) ((live_sizes R)(p \<mapsto> uint sz))" and ch2: "chained (ranges ?d2) (ranges_of env (R(p \<mapsto> (uint sz, i))))"
    using m1(4) rs(2) by simp_all
  obtain d3 where d3: "randomize_block env i ?d2 = Some d3" "tracked env d3 (R(p \<mapsto> (uint sz, i)))" "within ?d2 0 d3"
    by (rule settle_block [OF t2 i(1,2) e p ro2 ch2 da2])
  have "valid_alloc env i sz d = Some (None, d3)"
    using m1(1,2) rs(1) d3(1) i(2,3) len by (simp add: valid_alloc_def set_at_upd Let_def)
  moreover have "within d (required_size (uint sz)) d3"
    using d3(3) m1(5,6) by (simp add: within_def keeps_def)
  ultimately show thesis using that d3(2) p by blast
qed

lemma remove_tracked:
  assumes ch: "chained rs (ranges_of env R)" and p: "R p = Some x"
  obtains rs' where "remove_range p rs = Some rs'" "chained rs' (ranges_of env (R(p := None)))"
proof (cases "debug_mode env = DBG_NONE")
  case True
  then have "chained rs Map.empty" using ch by (simp add: ranges_of_def)
  then obtain rs' where "remove_range p rs = Some rs'" "chained rs' Map.empty" by (rule remove_range_absent)
  then show thesis using that True by (simp add: ranges_of_def)
next
  case False
  then have "chained rs R" using ch by (simp add: ranges_of_def)
  then obtain rs' where "remove_range p rs = Some rs'" "chained rs' (R(p := None))" using remove_range_chained p by metis
  then show thesis using that False by (simp add: ranges_of_def)
qed

lemma valid_free_tracked:
  assumes tr: "tracked env d R" and p: "R p = Some (n, i)"
  obtains d' where "valid_free env i d = Some (None, d')" "tracked env d' (R(p := None))" "within d 0 d'"
proof -
  have t: "table_ok (trace d) R" and ro: "roomy (memory d) (live_sizes R)" and ch: "chained (ranges d) (ranges_of env R)"
    and da: "data_ok env (memory d) (trace d) R" using tr by (simp_all add: tracked_def)
  note e = table_entry [OF t p]
  obtain rs where rs: "remove_range p (ranges d) = Some rs" "chained rs (ranges_of env (R(p := None)))" by (rule remove_tracked [OF ch p])
  obtain m where m: "mm_free p (memory d) = Some m" "roomy m ((live_sizes R)(p := None))" "keeps (memory d) ((live_sizes R)(p := None)) m"
    "mem_brk m = mem_brk (memory d)"
    by (rule roomy_free [OF ro live_sizes_Some [of R p n i, OF p]])
  let ?R = "R(p := None)"
  have "data_ok env (memory d) (trace d) ?R" using da unfolding data_ok_def by auto
  then have "data_ok env m (trace d) ?R" using data_keeps m(3) table_remove [OF t] live_sizes_simps(2) [of R p] by metis
  then have "tracked env (d\<lparr>ranges := rs, memory := m\<rparr>) ?R"
    using table_remove [OF t] m(2) rs(2) by (simp add: tracked_def live_sizes_simps)
  moreover have "i \<noteq> - 1" using e(1) by simp
  then have "valid_free env i d = Some (None, d\<lparr>ranges := rs, memory := m\<rparr>)"
    using tracked_check [OF tr p] e(5) rs(1) m(1) by (simp add: valid_free_def)
  ultimately show thesis using that m(3,4) by (simp add: within_def keeps_def)
qed

lemma valid_free_null: "valid_free env (- 1) d = Some (None, d)"
  by (simp add: valid_free_def check_index_def mm_free_def)

lemma valid_moved_passes:
  assumes "set_at (blocks (trace d)) i newp = Some bs" "elem_at (block_sizes (trace d)) i = Some old"
    "(if sz < old then set_at (block_sizes (trace d)) i sz else Some (block_sizes (trace d))) = Some ss"
    "check_index env ((trace d)\<lparr>blocks := bs, block_sizes := ss\<rparr>) (memory d) i True = Some None"
    "set_at ss i sz = Some ss2" "randomize_block env i (d\<lparr>trace := (trace d)\<lparr>blocks := bs, block_sizes := ss2\<rparr>\<rparr>) = Some d'"
  shows "valid_moved env i sz newp d = Some (None, d')"
  using assms(4-6) by (simp add: valid_moved_def assms(1-3) Let_def)

lemma valid_realloc_tracked:
  assumes env: "env_ok env" and tr: "tracked env d R" and p: "R p = Some (n, i)"
    and sz: "41 \<le> uint sz" "uint sz + 23 < 2 ^ 64" and fits: "mem_brk (memory d) + required_size (uint sz) \<le> mem_max_addr (memory d)"
  obtains d' q where "valid_realloc env i sz d = Some (None, d')" "tracked env d' ((R(p := None))(q \<mapsto> (uint sz, i)))" "R q = None"
    "within d (required_size (uint sz)) d'"
proof -
  have t: "table_ok (trace d) R" and ro: "roomy (memory d) (live_sizes R)" and ch: "chained (ranges d) (ranges_of env R)"
    and da: "data_ok env (memory d) (trace d) R" using tr by (simp_all add: tracked_def)
  note e = table_entry [OF t p]
  let ?R = "R(p := None)" and ?old = "block_sizes (trace d) ! nat i" and ?base = "block_rand_base (trace d) ! nat i"
  obtain q m1 where m1: "realloc p sz (memory d) = Some (q, m1)" "q \<noteq> 0" "q \<notin> dom (live_sizes R)"
    "roomy m1 (((live_sizes R)(p := None))(q \<mapsto> uint sz))" "keeps (memory d) ((live_sizes R)(p := None)) m1"
    "mem_brk m1 \<le> mem_brk (memory d) + required_size (uint sz)"
    "\<And>k. 0 \<le> k \<Longrightarrow> k < n \<Longrightarrow> k < uint sz \<Longrightarrow> bytes m1 (q + k) = bytes (memory d) (p + k)"
    using roomy_realloc [OF ro live_sizes_Some [of R p n i, OF p] sz fits] by metis
  have Rq: "R q = None" by (rule live_sizes_None [OF m1(3)])
  then have q: "?R q = None" by simp
  obtain rs where rs: "remove_range p (ranges d) = Some rs" "chained rs (ranges_of env ?R)" by (rule remove_tracked [OF ch p])
  let ?d1 = "d\<lparr>memory := m1, ranges := rs\<rparr>"
  have ch1: "chained (ranges ?d1) (ranges_of env ?R)" and ro1: "roomy (memory ?d1) ((live_sizes ?R)(q \<mapsto> uint sz))"
    using rs(2) m1(4) by (simp_all add: live_sizes_simps)
  obtain rs2 where rs2: "track_block env q sz i ?d1 = Some (None, ?d1\<lparr>ranges := rs2\<rparr>)" "chained rs2 (ranges_of env (?R(q \<mapsto> (uint sz, i))))"
    by (rule track_new [OF env ch1 ro1 q])
  have i: "\<forall>r k. ?R r \<noteq> Some (k, i)" using table_only [OF t p] by auto
  have len: "length (block_sizes (trace d)) = length (blocks (trace d))" "length (block_rand_base (trace d)) = length (blocks (trace d))"
    using t by (simp_all add: table_ok_def)
  let ?bs = "(blocks (trace d))[nat i := q]"
  define ss where "ss = (block_sizes (trace d))[nat i := if sz < ?old then sz else ?old]"
  have ss: "(if sz < ?old then set_at (block_sizes (trace d)) i sz else Some (block_sizes (trace d))) = Some ss"
    using e(1,3) by (simp add: ss_def set_at_upd)
  let ?t1 = "(trace d)\<lparr>blocks := ?bs, block_sizes := ss\<rparr>"
  have nat_i: "nat i < length (blocks (trace d))" using e(1,2) by simp
  have check: "check_index env ?t1 m1 i True = Some None"
  proof (rule check_index_prefix)
    show "elem_at (blocks ?t1) i = Some q" "elem_at (block_sizes ?t1) i = Some (if sz < ?old then sz else ?old)"
      "elem_at (block_rand_base ?t1) i = Some ?base"
      using e(1,2) nat_i len by (simp_all add: elem_at_nth ss_def)
    have "(if sz < ?old then sz else ?old) \<le> sz" by auto
    then have le: "unat (if sz < ?old then sz else ?old) \<le> unat sz" by (simp only: word_le_nat_alt)
    have "mapped m1 q (unat sz + 7)" using roomy_mapped(1) [OF m1(4), of q sz] by simp
    then show "mapped m1 q (unat (if sz < ?old then sz else ?old) + 7)"
      by (rule mapped_mono) (use le in \<open>simp_all only: order_refl of_nat_add of_nat_le_iff add_le_cancel_left add_le_cancel_right\<close>)
    fix k
    assume k: "debug_mode env \<noteq> DBG_NONE" "k < unat (if sz < ?old then sz else ?old)" "k < 1024"
    have "k < unat sz" "k < unat ?old" using k(2) by (auto simp: word_less_nat_alt split: if_splits)
    then have kn: "int k < n" "int k < uint sz" using e(7) by (simp_all add: lt_unat)
    obtain f g b where fe: "fill_extents ?old = (f, g, b)" by (cases "fill_extents ?old")
    have "k < unat f" using fill_extents_facts(1) [OF fe] \<open>k < unat ?old\<close> k(3) by simp
    moreover have "holds_data env (memory d) p ?old ?base" using da k(1) p by (simp add: data_ok_def)
    ultimately have "bytes (memory d) (p + int k) = random_at env ?base k" by (simp add: holds_data_def fe)
    then show "bytes m1 (q + int k) = random_at env ?base k" using m1(7) [of "int k"] kn by simp
  qed
  let ?t = "(trace d)\<lparr>blocks := ?bs, block_sizes := (block_sizes (trace d))[nat i := sz]\<rparr>"
  let ?d2 = "?d1\<lparr>ranges := rs2, trace := ?t\<rparr>"
  have "table_ok ?t ?R" by (rule table_set(1) [OF table_remove [OF t] i e(1)])
  moreover have "trace ?d2 = ?t" by simp
  ultimately have t2: "table_ok (trace ?d2) ?R" by (simp only:)
  have da0: "data_ok env (memory d) (trace d) ?R" using da unfolding data_ok_def by auto
  have "keeps (memory d) (live_sizes ?R) m1" using m1(5) by (simp add: live_sizes_simps)
  then have "data_ok env m1 ?t ?R"
    by (intro data_set [OF data_keeps [OF da0 _ table_remove [OF t]] table_remove [OF t] i e(1)]) simp_all
  then have da2: "data_ok env (memory ?d2) (trace ?d2) ?R" by simp
  have e2: "i < int (length (blocks (trace ?d2)))" "blocks (trace ?d2) ! nat i = q" "block_sizes (trace ?d2) ! nat i = sz"
    using e(2) nat_i len by simp_all
  have ro2: "roomy (memory ?d2) ((live_sizes ?R)(q \<mapsto> uint sz))" and ch2: "chained (ranges ?d2) (ranges_of env (?R(q \<mapsto> (uint sz, i))))"
    using ro1 rs2(2) by simp_all
  obtain d3 where d3: "randomize_block env i ?d2 = Some d3" "tracked env d3 (?R(q \<mapsto> (uint sz, i)))" "within ?d2 0 d3"
    by (rule settle_block [OF t2 i e(1) e2 q ro2 ch2 da2])
  have "set_at ss i sz = Some ((block_sizes (trace d))[nat i := sz])" using e(1,3) by (simp add: ss_def set_at_upd)
  then have "valid_moved env i sz q (?d1\<lparr>ranges := rs2\<rparr>) = Some (None, d3)"
    by (rule valid_moved_passes [rotated 4]) (use e(1,2,6) ss check d3(1) in \<open>simp_all add: set_at_upd cong: if_cong split del: if_split\<close>)
  moreover have "sz \<noteq> 0" using sz(1) by auto
  moreover have "0 < sz" using \<open>sz \<noteq> 0\<close> by (simp add: word_neq_0_conv)
  ultimately have "valid_realloc env i sz d = Some (None, d3)"
    using tracked_check [OF tr p] e(5) m1(1,2) rs(1) rs2(1) by (simp add: valid_realloc_def Let_def)
  moreover have "within d (required_size (uint sz)) d3"
    using d3(3) m1(5,6) by (simp add: within_def keeps_def)
  ultimately show thesis using that d3(2) Rq by blast
qed

subsection \<open>The checks before a request\<close>

lemma check_ranges_pass:
  assumes ch: "chained (ranges d) R" and ok: "\<And>p n i. R p = Some (n, i) \<Longrightarrow> check_index env (trace d) (memory d) i False = Some None"
  shows "range_cells (ranges d) a = Some c \<Longrightarrow> check_ranges env d (Some a) = Some None"
proof (induction "card {b. \<exists>e. range_cells (ranges d) b = Some e \<and> lo (node_data c) < lo (node_data e)}" arbitrary: a c rule: less_induct)
  case less
  let ?h = "range_cells (ranges d)"
  let ?above = "\<lambda>c. {b. \<exists>e. ?h b = Some e \<and> lo (node_data c) < lo (node_data e)}"
  have st: "stored ?h R" and cs: "chains ?h" using ch by (auto simp: chained_def)
  have here: "check_index env (trace d) (memory d) (index (node_data c)) False = Some None"
    using ok stored_cell(1) [OF st less.prems] by blast
  have rest: "check_ranges env d (node_next c) = Some None"
  proof (cases "node_next c")
    case None
    then show ?thesis by (simp add: check_ranges.simps [of env d NULL])
  next
    case (Some b)
    obtain e where e: "?h b = Some e" "lo (node_data c) < lo (node_data e)" using next_cell [OF cs less.prems Some] by blast
    have "finite (?above c)" using chained_finite [OF ch] by (rule_tac finite_subset [of _ "dom ?h"]) auto
    moreover have "?above e \<subset> ?above c" using e by force
    ultimately have "card (?above e) < card (?above c)" by (rule psubset_card_mono)
    then show ?thesis using less.hyps [OF _ e(1)] Some by simp
  qed
  show ?case using less.prems here rest by (simp add: check_ranges.simps [of env d "Some a"])
qed

lemma check_all_passes:
  assumes "tracked env d R"
  shows "check_all env d = Some None"
proof (cases "debug_mode env = DBG_EXPENSIVE")
  case True
  have ch: "chained (ranges d) R" and ro: "roomy (memory d) (live_sizes R)" using assms True by (simp_all add: tracked_def ranges_of_def)
  have "mm_checkheap (debug_build env) (memory d) = Some ([], True)"
  proof (cases "debug_build env")
    case True
    obtain bs fl where "heap_ok (memory d) bs fl" using ro unfolding roomy_def by blast
    then show ?thesis using heap_ok_checks True by simp
  qed (simp add: mm_checkheap_def)
  moreover have "check_ranges env d (range_list (ranges d)) = Some None"
  proof (cases "range_list (ranges d)")
    case None
    then show ?thesis by (simp add: check_ranges.simps [of env d NULL])
  next
    case (Some a)
    then obtain c where "range_cells (ranges d) a = Some c" using ch by (auto simp: chained_def starts_at_def)
    then show ?thesis using Some check_ranges_pass [OF ch tracked_check [OF assms]] by simp
  qed
  ultimately show ?thesis using True by (simp add: check_all_def)
qed (simp add: check_all_def)

subsection \<open>Well-formed traces\<close>

text \<open>
  A trace is well formed if every request names a block as it needs: an \<open>ALLOC\<close> an index of the table that is free, a
  \<open>REALLOC\<close> or \<open>FREE\<close> one in use (\<open>J\<close> are the indexes in use). That no request asks for fewer than 41 bytes is a
  condition of its own: the allocator keeps its heap sound only then.
\<close>

fun well_formed :: "int \<Rightarrow> int set \<Rightarrow> traceop_t list \<Rightarrow> bool" where
  "well_formed N J [] \<longleftrightarrow> True"
| "well_formed N J (q # qs) \<longleftrightarrow> (let i = int_index q in case op_kind q of
     ALLOC \<Rightarrow> 0 \<le> i \<and> i < N \<and> i \<notin> J \<and> well_formed N (insert i J) qs
   | REALLOC \<Rightarrow> i \<in> J \<and> well_formed N J qs
   | FREE \<Rightarrow> if i = - 1 then well_formed N J qs else i \<in> J \<and> well_formed N (J - {i}) qs)"

definition large_requests :: "traceop_t list \<Rightarrow> bool" where
  "large_requests qs \<longleftrightarrow> (\<forall>q \<in> set qs. op_kind q \<noteq> FREE \<longrightarrow> 41 \<le> uint (op_size q))"

text \<open>The most bytes by which the heap can grow.\<close>

fun demand :: "traceop_t list \<Rightarrow> int" where
  "demand [] = 0"
| "demand (q # qs) = (if op_kind q = FREE then 0 else required_size (uint (op_size q))) + demand qs"

definition in_use :: "range_map \<Rightarrow> int set" where
  "in_use R = {i. \<exists>p n. R p = Some (n, i)}"

lemma large_requests_simps [simp]:
  "large_requests [] \<longleftrightarrow> True"
  "large_requests (q # qs) \<longleftrightarrow> (op_kind q \<noteq> FREE \<longrightarrow> 41 \<le> uint (op_size q)) \<and> large_requests qs"
  by (auto simp: large_requests_def)

lemma required_nonneg: "0 \<le> required_size (uint (sz :: u64))"
  using required_facts(1) [of "uint sz"] by simp

lemma demand_nonneg: "0 \<le> demand qs"
  by (induction qs) (use required_nonneg in \<open>auto intro: add_nonneg_nonneg\<close>)

lemma in_useI: "R p = Some (n, i) \<Longrightarrow> i \<in> in_use R"
  by (auto simp: in_use_def)

lemma in_useE:
  assumes "i \<in> in_use R"
  obtains p n where "R p = Some (n, i)"
  using assms by (auto simp: in_use_def)

lemma in_use_new:
  assumes "R p = None"
  shows "in_use (R(p \<mapsto> (n, i))) = insert i (in_use R)"
proof (intro equalityI subsetI)
  fix j
  assume "j \<in> in_use (R(p \<mapsto> (n, i)))"
  then show "j \<in> insert i (in_use R)" by (elim in_useE) (auto intro: in_useI split: if_splits)
next
  fix j
  assume "j \<in> insert i (in_use R)"
  then consider "j = i" | "j \<in> in_use R" by blast
  then show "j \<in> in_use (R(p \<mapsto> (n, i)))"
  proof cases
    case 2
    then obtain q k where "R q = Some (k, j)" by (rule in_useE)
    moreover have "q \<noteq> p" using assms calculation by auto
    ultimately show ?thesis by (intro in_useI [of _ q k]) simp
  qed (auto intro: in_useI [of _ p])
qed

lemma in_use_remove:
  assumes "table_ok t R" "R p = Some (n, i)"
  shows "in_use (R(p := None)) = in_use R - {i}"
proof (intro equalityI subsetI)
  fix j
  assume "j \<in> in_use (R(p := None))"
  then obtain q k where "q \<noteq> p" "R q = Some (k, j)" by (elim in_useE) (auto split: if_splits)
  moreover have "j \<noteq> i" using table_only [OF assms] calculation by blast
  ultimately show "j \<in> in_use R - {i}" by (auto intro: in_useI)
next
  fix j
  assume "j \<in> in_use R - {i}"
  then obtain q k where "R q = Some (k, j)" "j \<noteq> i" by (auto elim: in_useE)
  moreover have "q \<noteq> p" using assms(2) calculation by auto
  ultimately show "j \<in> in_use (R(p := None))" by (intro in_useI [of _ q k]) simp
qed

lemma roomy_brk: "roomy m L \<Longrightarrow> 0 \<le> mem_brk m"
  using extent_bounds(1) [OF heap_ok_sizes] unfolding roomy_def heap_ok_def bounds_ok_def by fastforce

text \<open>One request of a well-formed trace.\<close>

lemma valid_op_tracked:
  assumes env: "env_ok env" and tr: "tracked env d R" and wf: "well_formed (int (length (blocks (trace d)))) (in_use R) (q # qs)" and lg: "large_requests (q # qs)"
    and fits: "mem_brk (memory d) + demand (q # qs) \<le> mem_max_addr (memory d)" and mx: "mem_max_addr (memory d) < 2 ^ 62" "0 \<le> mem_brk (memory d)"
  obtains d' R' where "valid_op env q d = Some (None, d')" "tracked env d' R'"
    "well_formed (int (length (blocks (trace d)))) (in_use R') qs" "within d (demand [q]) d'"
proof -
  let ?i = "int_index q" and ?sz = "op_size q" and ?N = "int (length (blocks (trace d)))"
  note ca = check_all_passes [OF tr]
  have t: "table_ok (trace d) R" using tr by (simp add: tracked_def)
  have room: "mem_brk (memory d) + required_size (uint ?sz) \<le> mem_max_addr (memory d)" "uint ?sz + 23 < 2 ^ 64" if "op_kind q \<noteq> FREE"
  proof -
    show "mem_brk (memory d) + required_size (uint ?sz) \<le> mem_max_addr (memory d)"
      using fits that demand_nonneg [of qs] by simp
    then show "uint ?sz + 23 < 2 ^ 64" using required_facts(3) [of "uint ?sz"] mx by simp
  qed
  show thesis
  proof (cases "op_kind q")
    case ALLOC
    then have w: "0 \<le> ?i" "?i < ?N" "?i \<notin> in_use R" "41 \<le> uint ?sz" "well_formed ?N (insert ?i (in_use R)) qs" using wf lg by (simp_all add: Let_def)
    have f: "\<forall>p n. R p \<noteq> Some (n, ?i)" using w(3) by (simp add: in_use_def)
    obtain d' p where d': "valid_alloc env ?i ?sz d = Some (None, d')" "tracked env d' (R(p \<mapsto> (uint ?sz, ?i)))" "R p = None"
      "within d (required_size (uint ?sz)) d'"
      by (rule valid_alloc_tracked [OF env tr f w(1,2,4)]) (use room ALLOC in auto)
    show thesis
      by (rule that [OF _ d'(2)]) (use d' ca ALLOC w(5) in \<open>simp_all add: valid_op_def in_use_new\<close>)
  next
    case FREE
    show thesis
    proof (cases "?i = - 1")
      case True
      show thesis
        by (rule that [OF _ tr]) (use True FREE wf ca valid_free_null [of env d] in \<open>simp_all add: valid_op_def\<close>)
    next
      case False
      then have w: "?i \<in> in_use R" "well_formed ?N (in_use R - {?i}) qs" using wf FREE by (simp_all add: Let_def)
      then obtain p n where p: "R p = Some (n, ?i)" by (auto simp: in_use_def)
      obtain d' where d': "valid_free env ?i d = Some (None, d')" "tracked env d' (R(p := None))" "within d 0 d'"
        by (rule valid_free_tracked [OF tr p])
      show thesis
        by (rule that [OF _ d'(2)]) (use d' ca FREE w(2) in_use_remove [OF t p] in \<open>simp_all add: valid_op_def\<close>)
    qed
  next
    case REALLOC
    then have w: "?i \<in> in_use R" "41 \<le> uint ?sz" "well_formed ?N (in_use R) qs" using wf lg by (simp_all add: Let_def)
    then obtain p n where p: "R p = Some (n, ?i)" by (auto simp: in_use_def)
    obtain d' r where d': "valid_realloc env ?i ?sz d = Some (None, d')" "tracked env d' ((R(p := None))(r \<mapsto> (uint ?sz, ?i)))" "R r = None"
      "within d (required_size (uint ?sz)) d'"
      by (rule valid_realloc_tracked [OF env tr p w(2)]) (use room REALLOC in auto)
    have "in_use ((R(p := None))(r \<mapsto> (uint ?sz, ?i))) = in_use R"
      using in_use_new [of "R(p := None)" r] in_use_remove [OF t p] d'(3) w(1) by auto
    then show thesis
      by (intro that [OF _ d'(2)]) (use d' ca REALLOC w(3) in \<open>simp_all add: valid_op_def\<close>)
  qed
qed

lemma valid_ops_tracked:
  assumes "env_ok env" "tracked env d R" "well_formed (int (length (blocks (trace d)))) (in_use R) qs" "large_requests qs"
    "mem_brk (memory d) + demand qs \<le> mem_max_addr (memory d)" "mem_max_addr (memory d) < 2 ^ 62" "0 \<le> mem_brk (memory d)"
  shows "\<exists>d' R'. valid_ops env (map Some qs) d = Some (None, d') \<and> tracked env d' R' \<and> within d (demand qs) d'"
  using assms
proof (induction qs arbitrary: d R)
  case (Cons q qs)
  obtain d1 R1 where d1: "valid_op env q d = Some (None, d1)" "tracked env d1 R1"
    "well_formed (int (length (blocks (trace d)))) (in_use R1) qs" "within d (demand [q]) d1"
    by (rule valid_op_tracked [OF Cons.prems(1-7)])
  have "0 \<le> mem_brk (memory d1)" using d1(2) roomy_brk by (auto simp: tracked_def)
  then obtain d' R' where "valid_ops env (map Some qs) d1 = Some (None, d')" "tracked env d' R'" "within d1 (demand qs) d'"
    using Cons.IH [OF Cons.prems(1) d1(2)] d1(3,4) Cons.prems(4,5,6) by (auto simp: within_def)
  then show ?case using d1(1) within_trans [OF d1(4), of "demand qs" d'] by auto
qed auto

end
