(* ===== verification/Driver_Util.thy ===== *)
theory Driver_Util
  imports Driver_Valid
begin

unbundle bit_operations_syntax

text \<open>
  The space a trace needs: the sum \<open>eval_mm_util\<close> keeps is that of the blocks in use, which never
  exceeds the heap.
\<close>

subsection \<open>The sizes of the blocks and the size of the heap\<close>

lemma alloc_sum:
  "sizes_ok bs \<Longrightarrow> finite (alloc a bs) \<and> (\<Sum>x \<in> alloc a bs. snd x) \<le> extent bs"
proof (induction bs arbitrary: a)
  case (Cons b bs)
  have ok: "sizes_ok bs" "0 \<le> fst b" using Cons.prems by simp_all
  note ih = Cons.IH [OF ok(1), of "a + fst b"]
  have "(a, fst b) \<notin> alloc (a + fst b) bs"
    using starts_bounds [OF ok(1), of a "(fst b, True)" "a + fst b"] Cons.prems by (auto simp: alloc_def)
  then show ?case using ih ok(2) by auto
qed simp

definition live_total :: "range_map \<Rightarrow> int" where
  "live_total R = (\<Sum>p \<in> dom R. fst (the (R p)))"

lemma roomy_total:
  assumes ro: "roomy m (live_sizes R)"
  shows "finite (dom R)" "0 \<le> live_total R" "live_total R \<le> mem_brk m - memsys.heap m"
proof -
  let ?L = "live_sizes R"
  obtain bs fl where ok: "heap_ok m bs fl" and h: "Mm_Client.holds m bs ?L" using ro unfolding roomy_def by blast
  let ?A = "alloc (memsys.heap m + 8) bs"
  have dom: "dom ?L = dom R" by (auto simp: live_sizes_def)
  have sz: "sizes_ok bs" by (rule heap_ok_sizes [OF ok])
  note s = alloc_sum [OF sz, of "memsys.heap m + 8"]
  have inj: "inj_on (\<lambda>x. fst x + 8) ?A"
    using alloc_unique [OF sz] by (auto intro!: inj_onI)
  have im: "(\<lambda>x. fst x + 8) ` ?A = dom R"
  proof
    show "(\<lambda>x. fst x + 8) ` ?A \<subseteq> dom R" using h unfolding Mm_Client.holds_def dom [symmetric] by auto
    show "dom R \<subseteq> (\<lambda>x. fst x + 8) ` ?A"
    proof
      fix p
      assume "p \<in> dom R"
      then obtain n where "?L p = Some n" unfolding dom [symmetric] by blast
      then obtain t where "(p - 8, t) \<in> ?A" using h unfolding Mm_Client.holds_def by blast
      then show "p \<in> (\<lambda>x. fst x + 8) ` ?A" by force
    qed
  qed
  show "finite (dom R)" using s im finite_imageI by metis
  have part: "0 \<le> fst (the (R (fst x + 8))) \<and> fst (the (R (fst x + 8))) \<le> snd x" if "x \<in> ?A" for x
  proof -
    have "fst x + 8 \<in> dom R" using im that by blast
    then obtain k i where k: "R (fst x + 8) = Some (k, i)" by auto
    then have "?L (fst x + 8) = Some k" by (simp add: live_sizes_def)
    then obtain t where "0 < k" "(fst x + 8 - 8, t) \<in> ?A" "k + 8 \<le> t" using h unfolding Mm_Client.holds_def by blast
    moreover have "t = snd x" using alloc_unique [OF sz, of "fst x" t _ "snd x"] that \<open>(fst x + 8 - 8, t) \<in> ?A\<close> by simp
    ultimately show ?thesis using k by simp
  qed
  have eq: "live_total R = (\<Sum>x \<in> ?A. fst (the (R (fst x + 8))))"
    unfolding live_total_def im [symmetric] by (simp add: sum.reindex [OF inj] comp_def)
  show "0 \<le> live_total R" unfolding eq using part by (intro sum_nonneg) blast
  have "live_total R \<le> (\<Sum>x \<in> ?A. snd x)" unfolding eq using part by (intro sum_mono) blast
  also have "\<dots> \<le> extent bs" using s by blast
  finally show "live_total R \<le> mem_brk m - memsys.heap m" using ok by (simp add: heap_ok_def)
qed

lemma live_total_new: "finite (dom R) \<Longrightarrow> R p = None \<Longrightarrow> live_total (R(p \<mapsto> (n, i))) = live_total R + n"
proof -
  assume R: "finite (dom R)" "R p = None"
  then have "(\<Sum>q \<in> dom R. fst (the ((R(p \<mapsto> (n, i))) q))) = live_total R"
    unfolding live_total_def by (intro sum.cong) auto
  then show ?thesis using R by (simp add: live_total_def domIff)
qed

lemma live_total_remove:
  assumes "finite (dom R)" "R p = Some (n, i)"
  shows "live_total (R(p := None)) = live_total R - n"
proof -
  have "R = (R(p := None))(p \<mapsto> (n, i))" using assms(2) by auto
  moreover have "live_total ((R(p := None))(p \<mapsto> (n, i))) = live_total (R(p := None)) + n"
    using assms(1) by (intro live_total_new) simp_all
  ultimately show ?thesis by simp
qed

subsection \<open>The requests\<close>

text \<open>The sums so far: the sizes in use, and no peak above the peak of the heap.\<close>

definition measured :: "replay \<Rightarrow> usage \<Rightarrow> range_map \<Rightarrow> bool" where
  "measured = (\<lambda>(m, t) u R. table_ok t R \<and> roomy m (live_sizes R) \<and>
     total_size u = word_of_int (live_total R) \<and> max_total_size u \<le> max_heap_size u)"

definition heap_within :: "mm \<Rightarrow> int \<Rightarrow> mm \<Rightarrow> bool" where
  "heap_within m n m' \<longleftrightarrow> memsys.heap m' = memsys.heap m \<and> mem_max_addr m' = mem_max_addr m \<and> mem_brk m' \<le> mem_brk m + n"

lemma roomy_limits: "roomy m L \<Longrightarrow> 0 \<le> memsys.heap m \<and> mem_brk m \<le> mem_max_addr m \<and> mem_max_addr m < 2 ^ 62"
  by (auto simp: roomy_def heap_ok_def bounds_ok_def)

lemma high_water_measured:
  assumes "table_ok t R" "roomy m (live_sizes R)" "total_size u = word_of_int (live_total R)" "max_total_size u \<le> max_heap_size u"
  shows "measured (m, t) (high_water m u) R"
proof -
  note tot = roomy_total [OF assms(2)] and lim = roomy_limits [OF assms(2)]
  have "uint (total_size u) = live_total R" unfolding assms(3) using tot lim by (intro uint_size) simp_all
  moreover have "uint (mem_heapsize m) = mem_brk m - memsys.heap m"
    unfolding mem_heapsize_def using tot lim by (intro uint_size) simp_all
  ultimately have "total_size u \<le> mem_heapsize m" using tot(3) by (simp add: word_le_def)
  then show ?thesis using assms by (auto simp: measured_def high_water_def Let_def)
qed

lemma table_new:
  assumes "table_ok t R" "\<forall>q n. R q \<noteq> Some (n, i)" "0 \<le> i" "i < int (length (blocks t))"
  shows "table_ok (t\<lparr>blocks := (blocks t)[nat i := p], block_sizes := (block_sizes t)[nat i := sz]\<rparr>) (R(p \<mapsto> (uint sz, i)))"
proof -
  have "table_ok (t\<lparr>blocks := (blocks t)[nat i := p], block_sizes := (block_sizes t)[nat i := sz]\<rparr>) R"
    by (rule table_set(1) [OF assms(1-3)])
  then show ?thesis using assms by (auto simp: table_ok_def nat_less_iff)
qed

lemma util_op_measured:
  assumes me: "measured (m, t) u R" and wf: "well_formed (int (length (blocks t))) (in_use R) (q # qs)" and lg: "large_requests (q # qs)"
    and fits: "mem_brk m + demand (q # qs) \<le> mem_max_addr m"
  obtains m' t' u' R' where "util_op q (m, t) u = Some (None, (m', t'), u')" "measured (m', t') u' R'" "length (blocks t') = length (blocks t)"
    "well_formed (int (length (blocks t))) (in_use R') qs" "heap_within m (demand [q]) m'"
proof -
  let ?i = "int_index q" and ?sz = "op_size q" and ?N = "int (length (blocks t))"
  have t: "table_ok t R" and ro: "roomy m (live_sizes R)" and tot: "total_size u = word_of_int (live_total R)"
    and mx: "max_total_size u \<le> max_heap_size u" using me by (simp_all add: measured_def)
  note lim = roomy_limits [OF ro] and fin = roomy_total(1) [OF ro]
  have len: "length (block_sizes t) = length (blocks t)" using t by (simp add: table_ok_def)
  have room: "mem_brk m + required_size (uint ?sz) \<le> mem_max_addr m" "uint ?sz + 23 < 2 ^ 64" if "op_kind q \<noteq> FREE"
  proof -
    show "mem_brk m + required_size (uint ?sz) \<le> mem_max_addr m" using fits that demand_nonneg [of qs] by simp
    then show "uint ?sz + 23 < 2 ^ 64" using required_facts(3) [of "uint ?sz"] lim roomy_brk [OF ro] by simp
  qed
  let ?t = "\<lambda>p. t\<lparr>blocks := (blocks t)[nat ?i := p], block_sizes := (block_sizes t)[nat ?i := ?sz]\<rparr>"
  show thesis
  proof (cases "op_kind q")
    case ALLOC
    then have w: "0 \<le> ?i" "?i < ?N" "?i \<notin> in_use R" "41 \<le> uint ?sz" "well_formed ?N (insert ?i (in_use R)) qs" using wf lg by (simp_all add: Let_def)
    have f: "\<forall>p n. R p \<noteq> Some (n, ?i)" using w(3) by (simp add: in_use_def)
    obtain p m1 where m1: "malloc ?sz m = Some (p, m1)" "p \<noteq> 0" "p \<notin> dom (live_sizes R)" "roomy m1 ((live_sizes R)(p \<mapsto> uint ?sz))"
      "keeps m (live_sizes R) m1" "mem_brk m1 \<le> mem_brk m + required_size (uint ?sz)"
      by (rule roomy_malloc [OF ro w(4)]) (use room ALLOC in auto)
    have p: "R p = None" by (rule live_sizes_None [OF m1(3)])
    let ?R = "R(p \<mapsto> (uint ?sz, ?i))" and ?u = "u\<lparr>total_size := total_size u + ?sz\<rparr>"
    have "total_size ?u = word_of_int (live_total ?R)" by (simp add: tot live_total_new [of R p, OF fin p])
    then have "measured (m1, ?t p) (high_water m1 ?u) ?R"
      using high_water_measured [OF table_new [OF t f w(1,2), of ?sz p], of m1 ?u] m1(4) mx by (simp add: live_sizes_simps)
    then show thesis
      using that [of m1 "?t p" "high_water m1 ?u" ?R] m1 w len in_use_new [of R p, OF p] ALLOC
      by (simp add: util_op_def util_alloc_def set_at_upd heap_within_def keeps_def)
  next
    case FREE
    show thesis
    proof (cases "?i = - 1")
      case True
      have "total_size (u\<lparr>total_size := total_size u - 0\<rparr>) = word_of_int (live_total R)" using tot by simp
      then have "measured (m, t) (high_water m u) R" using high_water_measured [OF t ro tot mx] by simp
      then show thesis
        using that [of m t "high_water m u" R] True FREE wf
        by (simp add: util_op_def util_free_def mm_free_def heap_within_def Let_def)
    next
      case False
      then have w: "?i \<in> in_use R" "well_formed ?N (in_use R - {?i}) qs" using wf FREE by (simp_all add: Let_def)
      then obtain p n where p: "R p = Some (n, ?i)" by (auto elim: in_useE)
      note e = table_entry [OF t p]
      obtain m1 where m1: "mm_free p m = Some m1" "roomy m1 ((live_sizes R)(p := None))" "keeps m ((live_sizes R)(p := None)) m1"
        "mem_brk m1 = mem_brk m" by (rule roomy_free [OF ro live_sizes_Some [of R p n ?i, OF p]])
      let ?R = "R(p := None)" and ?u = "u\<lparr>total_size := total_size u - block_sizes t ! nat ?i\<rparr>"
      have "word_of_int n = block_sizes t ! nat ?i" using e(7) by (metis word_of_int_uint)
      then have "total_size ?u = word_of_int (live_total ?R)" by (simp add: tot live_total_remove [of R p, OF fin p])
      then have "measured (m1, t) (high_water m1 ?u) ?R"
        using high_water_measured [OF table_remove [OF t, of p], of m1 ?u] m1(2) mx by (simp add: live_sizes_simps)
      then show thesis
        using that [of m1 t "high_water m1 ?u" ?R] m1 w e(1,5,6) in_use_remove [of t R p, OF t p] FREE
        by (simp add: util_op_def util_free_def heap_within_def keeps_def)
    qed
  next
    case REALLOC
    then have w: "?i \<in> in_use R" "41 \<le> uint ?sz" "well_formed ?N (in_use R) qs" using wf lg by (simp_all add: Let_def)
    then obtain p n where p: "R p = Some (n, ?i)" by (auto elim: in_useE)
    note e = table_entry [OF t p]
    obtain r m1 where m1: "realloc p ?sz m = Some (r, m1)" "r \<noteq> 0" "r \<notin> dom (live_sizes R)"
      "roomy m1 (((live_sizes R)(p := None))(r \<mapsto> uint ?sz))" "keeps m ((live_sizes R)(p := None)) m1"
      "mem_brk m1 \<le> mem_brk m + required_size (uint ?sz)"
      using roomy_realloc [OF ro live_sizes_Some [of R p n ?i, OF p] w(2)] room REALLOC by (metis op_type.distinct(6))
    define Q where "Q = R(p := None)"
    let ?R = "Q(r \<mapsto> (uint ?sz, ?i))" and ?u = "u\<lparr>total_size := total_size u + (?sz - block_sizes t ! nat ?i)\<rparr>"
    have tQ: "table_ok t Q" and fin0: "finite (dom Q)" and r: "Q r = None" and f: "\<forall>s k. Q s \<noteq> Some (k, ?i)"
      using table_remove [OF t] fin live_sizes_None [OF m1(3)] table_only [OF t p] by (auto simp: Q_def)
    have Q: "live_total Q = live_total R - n" "in_use Q = in_use R - {?i}" "live_sizes Q = (live_sizes R)(p := None)"
      unfolding Q_def using live_total_remove [of R p, OF fin p] in_use_remove [of t R p, OF t p] live_sizes_simps(2) by blast+
    have "word_of_int n = block_sizes t ! nat ?i" using e(7) by (metis word_of_int_uint)
    then have "total_size ?u = word_of_int (live_total ?R)"
      unfolding live_total_new [of Q r, OF fin0 r] Q(1) by (simp add: tot)
    moreover have "roomy m1 (live_sizes ?R)" using m1(4) by (simp only: live_sizes_simps(1) Q(3))
    ultimately have "measured (m1, ?t r) (high_water m1 ?u) ?R"
      using mx by (intro high_water_measured [OF table_new [OF tQ f e(1,2)]]) simp_all
    moreover have "in_use ?R = in_use R" using in_use_new [of Q r, OF r] Q(2) w(1) by auto
    moreover have "?sz \<noteq> 0" using w(2) by auto
    ultimately show thesis
      using that [of m1 "?t r" "high_water m1 ?u" ?R] m1 w e(1,2,3,5,6) REALLOC
      by (simp add: util_op_def util_realloc_def set_at_upd heap_within_def keeps_def)
  qed
qed

lemma util_ops_measured:
  assumes "measured (m, t) u R" "well_formed (int (length (blocks t))) (in_use R) qs" "large_requests qs" "mem_brk m + demand qs \<le> mem_max_addr m"
  shows "\<exists>r u' R'. util_ops (map Some qs) (m, t) u = Some (None, r, u') \<and> measured r u' R'"
  using assms
proof (induction qs arbitrary: m t u R)
  case (Cons q qs)
  obtain m1 t1 u1 R1 where q: "util_op q (m, t) u = Some (None, (m1, t1), u1)" "measured (m1, t1) u1 R1" "length (blocks t1) = length (blocks t)"
    "well_formed (int (length (blocks t))) (in_use R1) qs" "heap_within m (demand [q]) m1"
    by (rule util_op_measured [OF Cons.prems])
  have "mem_brk m1 + demand qs \<le> mem_max_addr m1" using q(5) Cons.prems(4) by (simp add: heap_within_def)
  then show ?case using Cons.IH [OF q(2)] q Cons.prems(3) by simp
qed auto

end
