(* ===== verification/Driver_Props.thy ===== *)
theory Driver_Props
  imports Mm_Props Driver_Util
begin

unbundle bit_operations_syntax

text \<open>
  The driver and the allocator together: on well-formed traces \<open>run_tests\<close> finds nothing wrong with the
  allocator of \<open>Mm\<close>, and the space it measures is at most that of the heap.
\<close>

subsection \<open>Traces and memories the replay starts from\<close>

definition trace_ok :: "trace_t \<Rightarrow> bool" where
  "trace_ok t \<longleftrightarrow> sint (num_ids t) = int (length (blocks t)) \<and> length (block_sizes t) = length (blocks t) \<and>
     length (block_rand_base t) = length (blocks t) \<and> sint (num_ops t) = int (length (ops t)) \<and>
     well_formed (int (length (blocks t))) {} (ops t) \<and> large_requests (ops t)"

definition arena_ok :: "mm \<Rightarrow> int \<Rightarrow> bool" where
  "arena_ok m n \<longleftrightarrow> 0 \<le> memsys.heap m \<and> memsys.heap m mod 16 = 0 \<and> mem_max_addr m < 2 ^ 62 \<and> memsys.heap m + 4112 + n \<le> mem_max_addr m"

lemma requests_all: "sint (num_ops t) = int (length (ops t)) \<Longrightarrow> requests t = map Some (ops t)"
  unfolding requests_def by (intro nth_equalityI) (auto simp: elem_at_def)

lemma reinit_ok:
  assumes "trace_ok t"
  obtains t' where "reinit_trace t = Some t'" "trace_ok t'" "table_ok t' Map.empty" "ops t' = ops t" "length (blocks t') = length (blocks t)"
    "num_ops t' = num_ops t" "num_ids t' = num_ids t"
proof -
  let ?n = "length (blocks t)"
  let ?t = "t\<lparr>blocks := replicate ?n 0, block_sizes := replicate ?n 0\<rparr>"
  have "reinit_trace t = Some ?t" using assms by (simp add: reinit_trace_def zero_first_def trace_ok_def)
  moreover have "trace_ok ?t" "table_ok ?t Map.empty" using assms by (simp_all add: trace_ok_def table_ok_def)
  ultimately show thesis by (rule that) simp_all
qed

lemma arena_start:
  assumes "arena_ok m n" "0 \<le> n"
  obtains m' where "mm_init (mem_reset_brk m) = Some (True, m')" "roomy m' Map.empty" "memsys.heap m' = memsys.heap m"
    "mem_max_addr m' = mem_max_addr m" "mem_brk m' = memsys.heap m + 4112"
proof -
  have f: "memsys.heap (mem_reset_brk m) = memsys.heap m" "mem_max_addr (mem_reset_brk m) = mem_max_addr m"
    "mem_brk (mem_reset_brk m) = memsys.heap (mem_reset_brk m)" by (simp_all add: mem_reset_brk_def)
  show thesis
    by (rule roomy_start [OF f(3)]) (use assms f that in \<open>auto simp: arena_ok_def\<close>)
qed

lemma in_use_empty [simp]: "in_use Map.empty = {}"
  by (simp add: in_use_def)

subsection \<open>One replay\<close>

lemma eval_mm_valid_passes:
  assumes env: "env_ok env" and t: "trace_ok (trace d)" and ch: "chained (ranges d) R" and m: "arena_ok (memory d) (demand (ops (trace d)))"
  obtains d' R' where "eval_mm_valid env d = Some (None, d')" "tracked env d' R'" "trace_ok (trace d')" "ops (trace d') = ops (trace d)"
    "arena_ok (memory d') (demand (ops (trace d)))"
proof -
  obtain t1 where t1: "reinit_trace (trace d) = Some t1" "trace_ok t1" "table_ok t1 Map.empty" "ops t1 = ops (trace d)"
    "length (blocks t1) = length (blocks (trace d))" "num_ops t1 = num_ops (trace d)" "num_ids t1 = num_ids (trace d)"
    by (rule reinit_ok [OF t])
  obtain rs where rs: "reset_range_set True (ranges d) = Some rs" "chained rs Map.empty" by (rule reset_chained [OF ch])
  obtain m1 where m1: "mm_init (mem_reset_brk (memory d)) = Some (True, m1)" "roomy m1 Map.empty" "memsys.heap m1 = memsys.heap (memory d)"
    "mem_max_addr m1 = mem_max_addr (memory d)" "mem_brk m1 = memsys.heap (memory d) + 4112"
    by (rule arena_start [OF m demand_nonneg])
  let ?d = "d\<lparr>memory := m1, trace := t1, ranges := rs\<rparr>"
  have "ranges_of env Map.empty = Map.empty" by (simp add: ranges_of_def)
  then have tr: "tracked env ?d Map.empty"
    using t1(3) m1(2) rs(2) by (simp add: tracked_def live_sizes_simps data_ok_def)
  have wf: "well_formed (int (length (blocks (trace ?d)))) (in_use Map.empty) (ops t1)" "large_requests (ops t1)"
    using t1(2) by (simp_all add: trace_ok_def)
  have fits: "mem_brk (memory ?d) + demand (ops t1) \<le> mem_max_addr (memory ?d)" "mem_max_addr (memory ?d) < 2 ^ 62" "0 \<le> mem_brk (memory ?d)"
    using m m1(4,5) t1(4) by (simp_all add: arena_ok_def)
  obtain d' R' where d': "valid_ops env (map Some (ops t1)) ?d = Some (None, d')" "tracked env d' R'" "within ?d (demand (ops t1)) d'"
    using valid_ops_tracked [OF env tr wf fits] by blast
  have "requests t1 = map Some (ops t1)" using t1(2) by (intro requests_all) (simp add: trace_ok_def)
  then have "eval_mm_valid env d = Some (None, d')"
    using env t1(1) rs(1) m1(1) d'(1) by (simp add: eval_mm_valid_def env_ok_def Let_def)
  moreover have "trace_ok (trace d')"
    using d'(2,3) t1(2) by (simp add: tracked_def table_ok_def within_def trace_ok_def)
  moreover have "ops (trace d') = ops (trace d)" using d'(3) t1(4) by (simp add: within_def)
  moreover have "arena_ok (memory d') (demand (ops (trace d)))"
    using m d'(3) m1(3,4) by (simp add: within_def arena_ok_def)
  ultimately show thesis using that d'(2) by blast
qed

lemma tracked_chained: "tracked env d R \<Longrightarrow> chained (ranges d) (ranges_of env R)"
  by (simp add: tracked_def)

lemma eval_mm_util_passes:
  assumes t: "trace_ok t" and m: "arena_ok m (demand (ops t))"
  obtains r u where "eval_mm_util (m, t) = Some (None, r, u)" "max_total_size u \<le> max_heap_size u"
proof -
  obtain t1 where t1: "reinit_trace t = Some t1" "trace_ok t1" "table_ok t1 Map.empty" "ops t1 = ops t" "length (blocks t1) = length (blocks t)"
    by (rule reinit_ok [OF t])
  obtain m1 where m1: "mm_init (mem_reset_brk m) = Some (True, m1)" "roomy m1 Map.empty" "memsys.heap m1 = memsys.heap m"
    "mem_max_addr m1 = mem_max_addr m" "mem_brk m1 = memsys.heap m + 4112"
    by (rule arena_start [OF m demand_nonneg])
  let ?u = "\<lparr>total_size = 0, max_total_size = 0, max_heap_size = 0\<rparr>"
  have "measured (m1, t1) ?u Map.empty" using t1(3) m1(2) by (simp add: measured_def live_sizes_simps live_total_def)
  moreover have "well_formed (int (length (blocks t1))) (in_use Map.empty) (ops t1)" "large_requests (ops t1)" using t1(2) by (simp_all add: trace_ok_def)
  moreover have "mem_brk m1 + demand (ops t1) \<le> mem_max_addr m1" using m m1(4,5) t1(4) by (simp add: arena_ok_def)
  ultimately obtain r u R' where r: "util_ops (map Some (ops t1)) (m1, t1) ?u = Some (None, r, u)" "measured r u R'"
    using util_ops_measured by blast
  have "requests t1 = map Some (ops t1)" using t1(2) by (intro requests_all) (simp add: trace_ok_def)
  then have "eval_mm_util (m, t) = Some (None, r, u)" using t1(1) m1(1) r(1) by (simp add: eval_mm_util_def Let_def)
  then show thesis using that r(2) by (cases r) (simp add: measured_def)
qed

subsection \<open>The run that is timed\<close>

lemma speed_op_follows:
  assumes "util_op opn (m, t) u = Some (e, (m', t'), u')" "blocks s = blocks t"
  shows "\<exists>s'. speed_op opn (m, s) = Some (e, m', s') \<and> blocks s' = blocks t'"
  using assms
  by (cases "op_kind opn")
    (auto simp: util_op_def util_alloc_def util_realloc_def util_free_def speed_op_def Let_def split: Option.bind_splits if_splits)

lemma speed_ops_follow:
  assumes "util_ops qs (m, t) u = Some (e, (m', t'), u')" "blocks s = blocks t"
  shows "\<exists>s'. speed_ops qs (m, s) = Some (e, m', s') \<and> blocks s' = blocks t'"
  using assms
proof (induction qs arbitrary: m t u s)
  case (Cons q qs)
  obtain opn e1 m1 t1 u1 where q: "q = Some opn" "util_op opn (m, t) u = Some (e1, (m1, t1), u1)"
    "(if e1 \<noteq> None then Some (e1, (m1, t1), u1) else util_ops qs (m1, t1) u1) = Some (e, (m', t'), u')"
    using Cons.prems(1) by (auto simp: bind_eq_Some_conv)
  obtain s1 where s1: "speed_op opn (m, s) = Some (e1, m1, s1)" "blocks s1 = blocks t1"
    using speed_op_follows [OF q(2) Cons.prems(2)] by blast
  then show ?case using q Cons.IH [of m1 t1 u1 s1] by (auto split: if_splits)
qed simp

subsection \<open>All traces\<close>

lemma run_test_passes:
  assumes env: "env_ok env" and start: "0 \<le> start" "start mod 16 = 0" "start < 2 ^ 61" and t: "trace_ok t"
    and fits: "4112 + demand (ops t) \<le> 2 ^ 40"
  obtains a b head' s' where "run_test env False (Some start, t) (head, s) = Some (None, \<lparr>valid = True, util = Some (a, b)\<rparr>, head', s')" "a \<le> b"
proof -
  obtain m where m: "mem_init (Some start) = Some m" "memsys.heap m = start" "mem_max_addr m = start + 2 ^ 40"
    by (simp add: mem_init_def mem_reset_brk_def MAX_HEAP_SIZE_def)
  obtain rs where rs: "new_range_set True = Some rs" by (simp add: new_range_set_def tree_new_def)
  let ?d = "\<lparr>memory = memsys.extend m \<lparr>free_block_pointer = head\<rparr>, trace = t, ranges = rs, seed = s\<rparr>"
  have ch: "chained (ranges ?d) Map.empty" using new_chained [OF rs] by simp
  have ar: "arena_ok (memory ?d) (demand (ops (trace ?d)))" using m start fits by (simp add: arena_ok_def memsys.defs)
  have tok: "trace_ok (trace ?d)" using t by simp
  obtain d1 R1 where d1: "eval_mm_valid env ?d = Some (None, d1)" "tracked env d1 R1" "trace_ok (trace d1)" "ops (trace d1) = ops (trace ?d)"
    "arena_ok (memory d1) (demand (ops (trace ?d)))" by (rule eval_mm_valid_passes [OF env tok ch ar])
  have ar1: "arena_ok (memory d1) (demand (ops (trace d1)))" using d1(4,5) by simp
  obtain d2 R2 where d2: "eval_mm_valid env d1 = Some (None, d2)" "tracked env d2 R2" "trace_ok (trace d2)" "ops (trace d2) = ops (trace d1)"
    "arena_ok (memory d2) (demand (ops (trace d1)))" by (rule eval_mm_valid_passes [OF env d1(3) tracked_chained [OF d1(2)] ar1])
  have ar2: "arena_ok (memory d2) (demand (ops (trace d2)))" using d2(4,5) by simp
  obtain r u where u: "eval_mm_util (memory d2, trace d2) = Some (None, r, u)" "max_total_size u \<le> max_heap_size u"
    by (rule eval_mm_util_passes [OF d2(3) ar2])
  obtain m2 t2 where r: "r = (m2, t2)" by (cases r)
  have free: "free_range_set (ranges d2) = Some Map.empty" by (rule reset_chained [OF tracked_chained [OF d2(2)]])
  have "run_test env False (Some start, t) (head, s) =
      Some (None, \<lparr>valid = True, util = Some (max_total_size u, max_heap_size u)\<rparr>, free_block_pointer m2, seed d2)"
    using env m(1) rs d1(1) d2(1) u(1) free by (simp add: run_test_def test_valid_def env_ok_def r)
  then show thesis using that u(2) by blast
qed

lemma run_tests_pass:
  assumes env: "env_ok env"
    and xs: "\<forall>x \<in> set xs. \<exists>start t. x = (Some start, t) \<and> 0 \<le> start \<and> start mod 16 = 0 \<and> start < 2 ^ 61 \<and> trace_ok t \<and> 4112 + demand (ops t) \<le> 2 ^ 40"
  shows "\<exists>sts s'. run_tests env False xs s = Some (None, sts, s') \<and> length sts = length xs \<and>
    (\<forall>st \<in> set sts. valid st \<and> (\<exists>a b. util st = Some (a, b) \<and> a \<le> b))"
  using xs
proof (induction xs arbitrary: s)
  case (Cons x xs)
  obtain head r where s: "s = (head, r)" by (cases s)
  obtain start t where x: "x = (Some start, t)" "0 \<le> start" "start mod 16 = 0" "start < 2 ^ 61" "trace_ok t" "4112 + demand (ops t) \<le> 2 ^ 40"
    using Cons.prems by auto
  obtain a b h' r' where t: "run_test env False (Some start, t) (head, r) = Some (None, \<lparr>valid = True, util = Some (a, b)\<rparr>, h', r')" "a \<le> b"
    by (rule run_test_passes [OF env x(2-6)])
  obtain sts s' where "run_tests env False xs (h', r') = Some (None, sts, s')" "length sts = length xs"
    "\<forall>st \<in> set sts. valid st \<and> (\<exists>a b. util st = Some (a, b) \<and> a \<le> b)"
    using Cons.IH [of "(h', r')"] Cons.prems by auto
  then show ?case using t by (simp add: x(1) s)
qed simp

subsection \<open>A concrete driver\<close>

definition least_cell :: "range_t heap \<Rightarrow> nat" where
  "least_cell h = (LEAST a. h a = None)"

lemma least_cell: "finite (dom h) \<Longrightarrow> h (least_cell h) = None"
  using ex_new_if_finite [OF infinite_UNIV_nat, of "dom h"] unfolding least_cell_def
  by (auto simp: domIff intro: LeastI)

definition demo_env :: "unit env" where
  "demo_env = \<lparr>debug_mode = DBG_CHEAP, random_data = replicate RANDOM_DATA_LEN 7, random = (\<lambda>s. (42, s)),
     range_malloc = (\<lambda>h. Some (least_cell h)), node_malloc = (\<lambda>h. Some (least_free h)), tree_malloc_ok = True, debug_build = False\<rparr>"

definition demo_trace :: trace_t where
  "demo_trace = \<lparr>filename = ''demo.rep'', data_bytes = 0, num_ids = 2, num_ops = 5, weight = 1,
     ops = [\<lparr>op_kind = ALLOC, op_index = 0, op_size = 100\<rparr>, \<lparr>op_kind = ALLOC, op_index = 1, op_size = 3000\<rparr>,
       \<lparr>op_kind = REALLOC, op_index = 0, op_size = 200\<rparr>, \<lparr>op_kind = FREE, op_index = 1, op_size = 0\<rparr>,
       \<lparr>op_kind = FREE, op_index = - 1, op_size = 0\<rparr>],
     blocks = [0, 0], block_sizes = [0, 0], block_rand_base = [0, 0]\<rparr>"

lemma demo_env_ok: "env_ok demo_env"
  using least_cell least_free by (simp add: env_ok_def demo_env_def allocates_def)

lemma null_index: "ucast (- 1 :: u64) = (- 1 :: u32)"
  by (rule bit_word_eqI) (simp add: bit_simps)

lemma demo_trace_ok: "trace_ok demo_trace" "demand (ops demo_trace) = 3328"
  by (simp_all add: trace_ok_def demo_trace_def int_index_def required_size_def null_index)

lemma fresh_arena: "arena_ok fresh_mm (demand (ops demo_trace))"
  using fresh_mm_facts by (simp add: arena_ok_def demo_trace_ok)

subsection \<open>The properties\<close>

text \<open>
  C4. \<open>run_tests\<close> accepts the allocator: on traces whose requests are of at least 41 bytes, name blocks that
  are in use and together fit the heap, both correctness replays of every trace pass all checks in every
  debug mode (alignment, bounds, overlap, contents after each \<open>free\<close> and \<open>realloc\<close>), the space replay ends, the
  peak of the sizes in use never exceeds the peak of the heap, and nothing is undefined.
\<close>

theorem run_tests_accepts:
  assumes "env_ok env"
    and "\<forall>x \<in> set xs. \<exists>start t. x = (Some start, t) \<and> 0 \<le> start \<and> start mod 16 = 0 \<and> start < 2 ^ 61 \<and> trace_ok t \<and> 4112 + demand (ops t) \<le> 2 ^ 40"
  shows "\<exists>sts s'. run_tests env False xs s = Some (None, sts, s') \<and> length sts = length xs \<and>
    (\<forall>st \<in> set sts. valid st \<and> (\<exists>a b. util st = Some (a, b) \<and> a \<le> b))"
  by (rule run_tests_pass [OF assms])

theorem run_tests_accepts_witness:
  "\<exists>st s'. run_tests demo_env False [(Some 4096, demo_trace)] (0, ()) = Some (None, [st], s') \<and> valid st"
proof -
  obtain sts s' where "run_tests demo_env False [(Some 4096, demo_trace)] (0, ()) = Some (None, sts, s')" "length sts = 1" "\<forall>st \<in> set sts. valid st"
    using run_tests_accepts [OF demo_env_ok, of "[(Some 4096, demo_trace)]" "(0, ())"] demo_trace_ok by auto
  moreover obtain st where "sts = [st]" using \<open>length sts = 1\<close> by (auto simp: length_Suc_conv)
  ultimately show ?thesis by (intro exI [of _ st] exI [of _ s']) simp_all
qed

text \<open>
  C26. Between two requests the driver's tables, its range set and the heap describe the same blocks, each with
  the random data written to it, and every block in use was asked for with at least 41 bytes (\<open>tracked\<close>). If the rest of the
  trace is well formed for the indexes in use, asks for at least 41 bytes each time and fits the heap, the next request is
  accepted and leaves such a state, in which what remains of the trace is well formed and fits.
\<close>

theorem request_preserves_tables:
  assumes "env_ok env" "tracked env d R" "well_formed (int (length (blocks (trace d)))) (in_use R) (q # qs)"
    "large_requests (q # qs)" "mem_brk (memory d) + demand (q # qs) \<le> mem_max_addr (memory d)"
  shows "\<exists>d' R'. valid_op env q d = Some (None, d') \<and> tracked env d' R' \<and>
    well_formed (int (length (blocks (trace d')))) (in_use R') qs \<and> mem_brk (memory d') + demand qs \<le> mem_max_addr (memory d')"
proof -
  have ro: "roomy (memory d) (live_sizes R)" using assms(2) by (simp add: tracked_def)
  obtain d' R' where d': "valid_op env q d = Some (None, d')" "tracked env d' R'"
    "well_formed (int (length (blocks (trace d)))) (in_use R') qs" "within d (demand [q]) d'"
    using valid_op_tracked [OF assms] roomy_limits [OF ro] roomy_brk [OF ro] by blast
  have "mem_brk (memory d') + demand qs \<le> mem_max_addr (memory d')" using d'(4) assms(5) by (simp add: within_def)
  moreover have "length (blocks (trace d')) = length (blocks (trace d))" using d'(4) by (simp add: within_def)
  ultimately show ?thesis using d'(1-3) by auto
qed

theorem request_preserves_tables_witness:
  "\<exists>d d' R'. valid_op demo_env \<lparr>op_kind = ALLOC, op_index = 1, op_size = 3000\<rparr> d = Some (None, d') \<and> tracked demo_env d' R' \<and>
    length (blocks (trace d)) = 2"
proof -
  let ?t = "demo_trace\<lparr>ops := [], num_ops := 0\<rparr>" and ?q = "\<lparr>op_kind = ALLOC, op_index = 1, op_size = 3000\<rparr>"
  obtain rs where rs: "new_range_set True = Some rs" by (simp add: new_range_set_def tree_new_def)
  let ?d = "\<lparr>memory = fresh_mm, trace = ?t, ranges = rs, seed = ()\<rparr>"
  have t: "trace_ok (trace ?d)" "ops (trace ?d) = []" by (simp_all add: trace_ok_def demo_trace_def)
  have ch: "chained (ranges ?d) Map.empty" using new_chained [OF rs] by simp
  obtain m where m: "mm_init (mem_reset_brk fresh_mm) = Some (True, m)" "roomy m Map.empty" "mem_max_addr m = mem_max_addr fresh_mm"
    "mem_brk m = memsys.heap fresh_mm + 4112"
    by (rule arena_start [OF fresh_arena demand_nonneg])
  let ?e = "?d\<lparr>memory := m\<rparr>"
  have "tracked demo_env ?e Map.empty"
    using m(2) ch by (simp add: tracked_def live_sizes_simps ranges_of_def data_ok_def table_ok_def demo_trace_def)
  moreover have "well_formed (int (length (blocks (trace ?e)))) (in_use Map.empty) [?q]" "large_requests [?q]"
    by (simp_all add: demo_trace_def int_index_def)
  moreover have "mem_brk (memory ?e) + demand [?q] \<le> mem_max_addr (memory ?e)"
    using m(3,4) fresh_mm_facts by (simp add: required_size_def)
  ultimately obtain d' R' where "valid_op demo_env ?q ?e = Some (None, d')" "tracked demo_env d' R'"
    using request_preserves_tables [OF demo_env_ok] by blast
  moreover have "length (blocks (trace ?e)) = 2" by (simp add: demo_trace_def)
  ultimately show ?thesis by blast
qed

text \<open>
  C28. The run that is timed is the run that was measured: when \<open>eval_mm_util\<close> ends, \<open>eval_mm_speed\<close> ends with the
  same outcome, the same heap, byte for byte, and the same table of blocks.
\<close>

theorem speed_replays_util:
  assumes "eval_mm_util (m, t) = Some (e, (m', t'), u)"
  shows "\<exists>s. eval_mm_speed (m, t) = Some (e, m', s) \<and> blocks s = blocks t'"
proof -
  obtain t1 where t1: "reinit_trace t = Some t1" using assms by (auto simp: eval_mm_util_def bind_eq_Some_conv)
  obtain ok m1 where m1: "mm_init (mem_reset_brk m) = Some (ok, m1)" using assms by (auto simp: eval_mm_util_def bind_eq_Some_conv)
  show ?thesis
  proof (cases ok)
    case True
    then have "util_ops (requests t1) (m1, t1) \<lparr>total_size = 0, max_total_size = 0, max_heap_size = 0\<rparr> = Some (e, (m', t'), u)"
      using assms t1 m1 by (simp add: eval_mm_util_def Let_def)
    then show ?thesis using speed_ops_follow [of "requests t1" m1 t1 _ e m' t' u t1] True t1 m1 by (simp add: eval_mm_speed_def)
  next
    case False
    then show ?thesis using assms t1 m1 by (auto simp: eval_mm_util_def eval_mm_speed_def Let_def)
  qed
qed

theorem speed_replays_util_witness: "\<exists>m s. eval_mm_speed (fresh_mm, demo_trace) = Some (None, m, s)"
proof -
  obtain r u where r: "eval_mm_util (fresh_mm, demo_trace) = Some (None, r, u)"
    by (rule eval_mm_util_passes [OF demo_trace_ok(1) fresh_arena])
  obtain m t where "r = (m, t)" by (cases r)
  then show ?thesis using speed_replays_util [of fresh_mm demo_trace None m t u] r by blast
qed

end
