(* ===== verification/Driver_Read.thy ===== *)
theory Driver_Read
  imports Driver_Props
begin

text \<open>
  The trace files of the driver: \<open>read_trace\<close> of \<open>mdriver.c\<close> on the characters of a file, with the conversions of
  \<open>fscanf\<close> that it uses. What it returns has exactly the shape the replays rely on.

  A number that does not fit its type, a word that does not fit the buffer, a variable that is used before it has a value
  and a request beyond the array are undefined; so is a negative count, with which an array of no
  sensible size is asked for.
\<close>

subsection \<open>fscanf\<close>

definition is_space :: "char \<Rightarrow> bool" where
  "is_space c \<longleftrightarrow> c \<in> {CHR 0x20, CHR 0x09, CHR 0x0A, CHR 0x0B, CHR 0x0C, CHR 0x0D}"

definition is_digit :: "char \<Rightarrow> bool" where
  "is_digit c \<longleftrightarrow> 48 \<le> (of_char c :: nat) \<and> (of_char c :: nat) \<le> 57"

text \<open>\<open>%s\<close>; \<open>None\<close> is \<open>EOF\<close>.\<close>

definition scan_word :: "string \<Rightarrow> (string \<times> string) option" where
  "scan_word s = (let s = dropWhile is_space s in
     if s = [] then None else Some (takeWhile (\<lambda>c. \<not> is_space c) s, dropWhile (\<lambda>c. \<not> is_space c) s))"

definition digits_value :: "string \<Rightarrow> int" where
  "digits_value ds = foldl (\<lambda>n c. 10 * n + (int (of_char c) - 48)) 0 ds"

text \<open>The integer conversions: the number, if there is one, and what is left of the input.\<close>

definition scan_number :: "string \<Rightarrow> int option \<times> string" where
  "scan_number s =
     (let s = dropWhile is_space s;
          sign = (s \<noteq> [] \<and> (hd s = CHR ''-'' \<or> hd s = CHR ''+''));
          minus = (s \<noteq> [] \<and> hd s = CHR ''-'');
          s = (if sign then tl s else s);
          ds = takeWhile is_digit s;
          v = digits_value ds
      in (if ds = [] then None else Some (if minus then - v else v), dropWhile is_digit s))"

definition scan_int :: "string \<Rightarrow> (u32 \<times> string) option" where
  "scan_int s = (case scan_number s of
     (Some v, s) \<Rightarrow> if - (2 ^ 31) \<le> v \<and> v < 2 ^ 31 then Some (word_of_int v, s) else None
   | (None, s) \<Rightarrow> None)"

definition scan_long :: "string \<Rightarrow> (u64 \<times> string) option" where
  "scan_long s = (case scan_number s of
     (Some v, s) \<Rightarrow> if - (2 ^ 63) \<le> v \<and> v < 2 ^ 63 then Some (word_of_int v, s) else None
   | (None, s) \<Rightarrow> None)"

text \<open>\<open>%u\<close> and \<open>%lu\<close>: without a number the variable keeps its value.\<close>

definition scan_unsigned :: "'v \<Rightarrow> (int \<Rightarrow> 'v) \<Rightarrow> int \<Rightarrow> string \<Rightarrow> ('v \<times> string) option" where
  "scan_unsigned old conv limit s = (case scan_number s of
     (Some v, s) \<Rightarrow> if - limit < v \<and> v < limit then Some (conv v, s) else None
   | (None, s) \<Rightarrow> Some (old, s))"

definition scan_index :: "u32 \<Rightarrow> string \<Rightarrow> (u32 \<times> string) option" where
  "scan_index old s = scan_unsigned old word_of_int (2 ^ 32) s"

definition scan_size :: "u64 option \<Rightarrow> string \<Rightarrow> (u64 option \<times> string) option" where
  "scan_size old s = scan_unsigned old (\<lambda>v. Some (word_of_int v)) (2 ^ 64) s"

subsection \<open>read_trace\<close>

definition MAXLINE :: nat where "MAXLINE = 1024"

datatype read_error = No_memory nat | No_file | Bad_weight | Bad_type char | Assertion

text \<open>
  One request: its letter, the variables \<open>index\<close>, \<open>size\<close> and \<open>max_index\<close>, and the input. The \<open>size\<close> of a \<open>FREE\<close> is
  what the array held before.
\<close>

definition read_op :: "char \<Rightarrow> u64 \<Rightarrow> u32 \<times> u64 option \<times> u32 \<Rightarrow> string \<Rightarrow>
    (read_error + traceop_t \<times> (u32 \<times> u64 option \<times> u32) \<times> string) option" where
  "read_op c junk = (\<lambda>(idx, sz, max_index) s.
     if c = CHR ''a'' \<or> c = CHR ''r'' then do {
       (idx, s) \<leftarrow> scan_index idx s;
       (sz, s) \<leftarrow> scan_size sz s;
       v \<leftarrow> sz;
       Some (Inr (\<lparr>op_kind = if c = CHR ''a'' then ALLOC else REALLOC, op_index = scast idx, op_size = v\<rparr>,
         (idx, sz, if sint idx > sint max_index then idx else max_index), s))
     }
     else if c = CHR ''f'' then do {
       (idx, s) \<leftarrow> scan_index idx s;
       Some (Inr (\<lparr>op_kind = FREE, op_index = scast idx, op_size = junk\<rparr>, (idx, sz, max_index), s))
     }
     else Some (Inl (Bad_type c)))"

text \<open>The loop with \<open>n\<close> free places in the array; the result is the requests read and \<open>max_index\<close>.\<close>

fun read_ops :: "(nat \<Rightarrow> u64) \<Rightarrow> nat \<Rightarrow> u32 \<times> u64 option \<times> u32 \<Rightarrow> string \<Rightarrow> (read_error + traceop_t list \<times> u32) option" where
  "read_ops junk 0 vars s = (if scan_word s = None then Some (Inr ([], snd (snd vars))) else None)"
| "read_ops junk (Suc n) vars s = (case scan_word s of
     None \<Rightarrow> Some (Inr ([], snd (snd vars)))
   | Some (w, s) \<Rightarrow>
       if length w \<ge> MAXLINE then None
       else do {
         r \<leftarrow> read_op (hd w) (junk n) vars s;
         (case r of
            Inl e \<Rightarrow> Some (Inl e)
          | Inr (opn, vars, s) \<Rightarrow>
              if n = 0 then Some (Inr ([opn], snd (snd vars)))
              else do {
                rest \<leftarrow> read_ops junk n vars s;
                (case rest of Inl e \<Rightarrow> Some (Inl e) | Inr (qs, mx) \<Rightarrow> Some (Inr (opn # qs, mx)))
              })
       })"

text \<open>After the loop: the assertions, and the trace with its tables.\<close>

definition trace_read :: "string \<Rightarrow> u32 \<Rightarrow> u32 \<Rightarrow> u32 \<Rightarrow> u64 \<Rightarrow> read_error + traceop_t list \<times> u32 \<Rightarrow> read_error + trace_t" where
  "trace_read path iweight ids n bs r = (case r of
     Inl e \<Rightarrow> Inl e
   | Inr (qs, max_index) \<Rightarrow>
       if max_index \<noteq> ids - 1 then Inl Assertion
       else if sint n \<noteq> int (length qs) then Inl Assertion
       else let k = nat (sint ids) in
         Inr \<lparr>filename = path, data_bytes = bs, num_ids = ids, num_ops = n, weight = iweight,
           ops = qs, blocks = replicate k 0, block_sizes = replicate k 0, block_rand_base = replicate k 0\<rparr>)"

text \<open>
  \<open>files\<close> is the file system, \<open>malloc_ok k\<close> says whether the call with the message \<open>malloc k failed\<close> succeeds. The
  copies of the name, the weight and the count in the statistics are those of the trace.
\<close>

definition read_trace :: "(string \<Rightarrow> string option) \<Rightarrow> (nat \<Rightarrow> bool) \<Rightarrow> (nat \<Rightarrow> u64) \<Rightarrow> string \<Rightarrow> string \<Rightarrow>
    (read_error + trace_t) option" where
  "read_trace files malloc_ok junk tracedir name =
     (if \<not> malloc_ok 1 then Some (Inl (No_memory 1))
      else if length (tracedir @ name) \<ge> MAXLINE then None
      else case files (tracedir @ name) of
        None \<Rightarrow> Some (Inl No_file)
      | Some s \<Rightarrow> do {
          (iweight, s) \<leftarrow> scan_int s;
          (ids, s) \<leftarrow> scan_int s;
          (n, s) \<leftarrow> scan_int s;
          (bytes, s) \<leftarrow> scan_long s;
          (if iweight > 3 then Some (Inl Bad_weight)
           else if \<not> malloc_ok 2 then Some (Inl (No_memory 2))
           else if \<not> malloc_ok 3 then Some (Inl (No_memory 3))
           else if \<not> malloc_ok 4 then Some (Inl (No_memory 4))
           else if \<not> malloc_ok 5 then Some (Inl (No_memory 5))
           else if sint n < 0 \<or> sint ids < 0 then None
           else do {
             r \<leftarrow> read_ops junk (nat (sint n)) (0, None, 0) s;
             Some (trace_read (tracedir @ name) iweight ids n bytes r)
           })
        })"

subsection \<open>What is read\<close>

lemma read_op_index:
  assumes "read_op c junk (idx, sz, mx) s = Some (Inr (opn, (idx', sz', mx'), s'))"
  shows "sint mx \<le> sint mx'" "op_kind opn \<noteq> FREE \<Longrightarrow> int_index opn \<le> sint mx'"
proof -
  have "ucast (scast w :: u64) = (w :: u32)" for w
    by (rule bit_word_eqI) (simp add: bit_simps)
  then show "sint mx \<le> sint mx'" "op_kind opn \<noteq> FREE \<Longrightarrow> int_index opn \<le> sint mx'"
    using assms by (auto simp: read_op_def int_index_def bind_eq_Some_conv split: if_splits)
qed

lemma read_ops_indexes:
  assumes "read_ops junk n (idx, sz, mx) s = Some (Inr (qs, mx'))"
  shows "sint mx \<le> sint mx' \<and> (\<forall>q \<in> set qs. op_kind q \<noteq> FREE \<longrightarrow> int_index q \<le> sint mx')"
  using assms
proof (induction n arbitrary: idx sz mx s qs)
  case (Suc n)
  show ?case
  proof (cases "scan_word s")
    case (Some x)
    obtain w s1 where w: "scan_word s = Some (w, s1)" using Some by (cases x) auto
    obtain rr where rr: "read_op (hd w) (junk n) (idx, sz, mx) s1 = Some rr"
      using Suc.prems w by (cases "read_op (hd w) (junk n) (idx, sz, mx) s1") (auto split: if_splits)
    obtain opn idx1 sz1 mx1 s2 where o: "read_op (hd w) (junk n) (idx, sz, mx) s1 = Some (Inr (opn, (idx1, sz1, mx1), s2))"
    proof (cases rr)
      case (Inl e)
      then show thesis using Suc.prems w rr by (simp split: if_splits)
    next
      case (Inr y)
      then show thesis using that rr by (cases y) auto
    qed
    have r: "(if n = 0 then Some (Inr ([opn], mx1)) else do {
        rest \<leftarrow> read_ops junk n (idx1, sz1, mx1) s2;
        (case rest of Inl e \<Rightarrow> Some (Inl e) | Inr (qs, mx) \<Rightarrow> Some (Inr (opn # qs, mx)))
      }) = Some (Inr (qs, mx'))"
      using Suc.prems w o by (simp split: if_splits)
    note i = read_op_index [OF o]
    show ?thesis
    proof (cases "n = 0")
      case True
      then show ?thesis using r i by auto
    next
      case False
      obtain qs1 where q: "read_ops junk n (idx1, sz1, mx1) s2 = Some (Inr (qs1, mx'))" "qs = opn # qs1"
        using r False by (cases "read_ops junk n (idx1, sz1, mx1) s2") (auto split: sum.split_asm prod.split_asm)
      show ?thesis using Suc.IH [OF q(1)] i q(2) by force
    qed
  qed (use Suc.prems in simp)
qed (simp split: if_splits)

lemma read_trace_cases:
  assumes "read_trace files malloc_ok junk dir name = Some (Inr t)"
  obtains s where "read_ops junk (nat (sint (num_ops t))) (0, None, 0) s = Some (Inr (ops t, num_ids t - 1))"
    "0 \<le> sint (num_ids t)" "0 \<le> sint (num_ops t)" "sint (num_ops t) = int (length (ops t))" "weight t \<le> 3"
    "blocks t = replicate (nat (sint (num_ids t))) 0" "block_sizes t = replicate (nat (sint (num_ids t))) 0"
    "block_rand_base t = replicate (nat (sint (num_ids t))) 0"
proof -
  obtain s iw ids n bytes r where n: "0 \<le> sint n" "0 \<le> sint ids" "iw \<le> 3"
    and r: "read_ops junk (nat (sint n)) (0, None, 0) s = Some r" "trace_read (dir @ name) iw ids n bytes r = Inr t"
    using assms unfolding read_trace_def
    by (auto simp: bind_eq_Some_conv not_less linorder_not_less simp del: read_ops.simps split: if_split_asm option.split_asm)
  obtain qs where qs: "r = Inr (qs, ids - 1)" "sint n = int (length qs)"
    "t = \<lparr>filename = dir @ name, data_bytes = bytes, num_ids = ids, num_ops = n, weight = iw,
       ops = qs, blocks = replicate (nat (sint ids)) 0, block_sizes = replicate (nat (sint ids)) 0,
       block_rand_base = replicate (nat (sint ids)) 0\<rparr>"
    using r(2) by (auto simp: trace_read_def Let_def split: sum.split_asm if_split_asm)
  show thesis by (rule that) (use qs n r(1) in simp_all)
qed

lemma sint_pred:
  assumes "0 \<le> sint (w :: u32)" "0 \<le> sint (w - 1)"
  shows "sint (w - 1) < sint w"
proof -
  have "word_of_int (sint w) = w" by simp
  then have "sint w = 0 \<Longrightarrow> w = 0" by (metis of_int_0)
  moreover have "sint w \<noteq> 0 \<Longrightarrow> sint (w - 1) = sint w - 1"
    using assms(1) sint_lt [of w] by (simp add: sint_word_ariths signed_take_bit_int_eq_self)
  ultimately show ?thesis using assms by fastforce
qed

text \<open>
  C29. What \<open>read_trace\<close> returns has the shape that the replays rely on: its three tables have \<open>num_ids\<close> entries, it has
  exactly \<open>num_ops\<close> requests and every one of them is in the array, the index of every \<open>ALLOC\<close> and \<open>REALLOC\<close> is below
  \<open>num_ids\<close> as a signed number (\<open>read_trace\<close> does not exclude negative ones), and the weight is one of the four. So the
  hypothesis \<open>trace_ok\<close> of the replays is, on a trace that was read, only about the requests themselves: every index is not
  negative and in use or not as the request needs, and every size at least 41 bytes.
\<close>
theorem read_trace_typed:
  assumes "read_trace files malloc_ok junk tracedir name = Some (Inr t)"
  shows "int (length (blocks t)) = sint (num_ids t) \<and> length (block_sizes t) = length (blocks t) \<and>
    length (block_rand_base t) = length (blocks t) \<and> requests t = map Some (ops t) \<and> weight t \<le> 3 \<and>
    (\<forall>q \<in> set (ops t). op_kind q \<noteq> FREE \<longrightarrow> int_index q < sint (num_ids t)) \<and>
    (trace_ok t \<longleftrightarrow> well_formed (sint (num_ids t)) {} (ops t) \<and> large_requests (ops t))"
proof -
  obtain s where s: "read_ops junk (nat (sint (num_ops t))) (0, None, 0) s = Some (Inr (ops t, num_ids t - 1))"
    and t: "0 \<le> sint (num_ids t)" "0 \<le> sint (num_ops t)" "sint (num_ops t) = int (length (ops t))" "weight t \<le> 3"
    "blocks t = replicate (nat (sint (num_ids t))) 0" "block_sizes t = replicate (nat (sint (num_ids t))) 0"
    "block_rand_base t = replicate (nat (sint (num_ids t))) 0"
    by (rule read_trace_cases [OF assms])
  note i = read_ops_indexes [OF s]
  have "sint (num_ids t - 1) < sint (num_ids t)" using sint_pred t(1) i by simp
  then have "\<forall>q \<in> set (ops t). op_kind q \<noteq> FREE \<longrightarrow> int_index q < sint (num_ids t)" using i by fastforce
  then show ?thesis using t requests_all [OF t(3)] by (simp add: trace_ok_def)
qed

definition demo_file :: string where
  "demo_file = concat (map (\<lambda>l. l @ [CHR 0x0A]) [''1'', ''1'', ''2'', ''64'', ''a 0 64'', ''f 0''])"

definition demo_read :: "(read_error + trace_t) option" where
  "demo_read = read_trace (\<lambda>p. if p = ''traces/demo.rep'' then Some demo_file else None) (\<lambda>k. True) (\<lambda>k. 7) ''traces/'' ''demo.rep''"

definition demo_result :: trace_t where
  "demo_result = \<lparr>filename = ''traces/demo.rep'', data_bytes = 64, num_ids = 1, num_ops = 2, weight = 1,
     ops = [\<lparr>op_kind = ALLOC, op_index = 0, op_size = 64\<rparr>, \<lparr>op_kind = FREE, op_index = 0, op_size = 7\<rparr>],
     blocks = [0], block_sizes = [0], block_rand_base = [0]\<rparr>"

lemma demo_reads: "demo_read = Some (Inr demo_result)"
  by code_simp

theorem read_trace_typed_witness: "trace_ok demo_result \<and> requests demo_result = map Some (ops demo_result)"
proof -
  have w: "well_formed (sint (num_ids demo_result)) {} (ops demo_result)" "large_requests (ops demo_result)"
    by (simp_all add: demo_result_def int_index_def Let_def)
  show ?thesis using read_trace_typed [OF demo_reads [unfolded demo_read_def]] w by blast
qed

text \<open>An index that does not fit a signed int is read as a negative one and not rejected: here 4294967295 as - 1.\<close>

lemma negative_index_read:
  "map_option (map_sum id (\<lambda>t. map (\<lambda>q. (op_kind q, int_index q)) (ops t)))
     (read_trace (\<lambda>p. Some (concat (map (\<lambda>l. l @ [CHR 0x0A]) [''1'', ''1'', ''1'', ''64'', ''a 4294967295 64''])))
        (\<lambda>k. True) (\<lambda>k. 7) ''traces/'' ''bad.rep'') = Some (Inr [(ALLOC, - 1)])"
  by code_simp

end
