(* ===== verification/Shell.thy ===== *)
theory Shell
  imports Prelude "HOL-Library.Monad_Syntax"
begin

unbundle bit_operations_syntax

text \<open>
  The mini-shell (\<open>cmd.c\<close>, \<open>utils.c\<close>, \<open>main.c\<close> on the parse trees of \<open>parser.h\<close>).

  A process is the program of its system calls: each constructor of \<open>prog\<close> is a call of the C
  library with the rest of the process as a function of the result, so that \<open>fork\<close> continues
  twice, once with 0. A C function that returns a value takes the rest of its caller as its
  last argument. \<open>NULL\<close> strings are \<open>None\<close>; a word is the list of its parts and the empty list is
  the \<open>NULL\<close> word. What the calls do to a process is in \<open>Shell_Run\<close>. The Boolean type of
  \<open>parser.h\<close> is an enumeration, so the statuses that pass through it are kept. Allocation does
  not fail.
\<close>

subsection \<open>Parse trees\<close>

record word_part =
  str :: string
  expand :: bool

type_synonym word_t = "word_part list"

definition IO_REGULAR :: u32 where "IO_REGULAR = 0"
definition IO_OUT_APPEND :: u32 where "IO_OUT_APPEND = 1"
definition IO_ERR_APPEND :: u32 where "IO_ERR_APPEND = 2"

record simple_command_t =
  verb :: word_t
  params :: "word_t list"
  in_words :: "word_t list"
  out_words :: "word_t list"
  err_words :: "word_t list"
  io_flags :: u32

datatype operator_t =
  OP_NONE | OP_SEQUENTIAL | OP_PARALLEL | OP_CONDITIONAL_ZERO | OP_CONDITIONAL_NZERO | OP_PIPE | OP_DUMMY

text \<open>A node with the operator \<open>OP_NONE\<close> and a simple command is \<open>Simple\<close>.\<close>

datatype command_t = Simple simple_command_t | Compound operator_t command_t command_t

definition SHELL_EXIT :: int where "SHELL_EXIT = - 100"

text \<open>The pointer to a list of words is the pointer to its first word.\<close>

definition first_word :: "word_t list \<Rightarrow> word_t" where
  "first_word ws = (case ws of [] \<Rightarrow> [] | w # _ \<Rightarrow> w)"

subsection \<open>Words\<close>

type_synonym environ = "string \<rightharpoonup> string"

fun get_word_loop :: "environ \<Rightarrow> string option \<Rightarrow> word_t \<Rightarrow> string option" where
  "get_word_loop e acc [] = acc"
| "get_word_loop e acc (s # rest) =
     (let substring = (if expand s then (case e (str s) of None \<Rightarrow> [] | Some v \<Rightarrow> v) else str s)
      in get_word_loop e (Some (case_option [] id acc @ substring)) rest)"

definition get_word :: "environ \<Rightarrow> word_t \<Rightarrow> string option" where
  "get_word e w = get_word_loop e None w"

fun fill_argv :: "environ \<Rightarrow> string list \<Rightarrow> word_t list \<Rightarrow> string list option" where
  "fill_argv e argv [] = Some argv"
| "fill_argv e argv (w # ws) = do {
     s \<leftarrow> get_word e w;
     fill_argv e (argv @ [s]) ws
   }"

text \<open>\<open>None\<close> when \<open>DIE\<close> ends the process.\<close>

definition get_argv :: "environ \<Rightarrow> simple_command_t \<Rightarrow> string list option" where
  "get_argv e c = do {
     v \<leftarrow> get_word e (verb c);
     fill_argv e [v] (params c)
   }"

subsection \<open>Processes as programs of system calls\<close>

datatype open_mode = O_RDONLY | O_APPEND | O_TRUNC

datatype message =
    Parse_error int string
  | Execution_failed "string option"
  | Die
  | Prompt

datatype wstatus = Exited int | Signaled

datatype prog =
    Exit int
  | Undefined
  | Message message prog
  | Environ "environ \<Rightarrow> prog"
  | Setenv string string "int \<Rightarrow> prog"
  | Chdir "string option" "int \<Rightarrow> prog"
  | Fork "int \<Rightarrow> prog"
  | Waitpid int "wstatus \<Rightarrow> prog"
  | Pipe "(int \<times> int) option \<Rightarrow> prog"
  | Open string open_mode "int \<Rightarrow> prog"
  | Dup2 int int prog
  | Close int prog
  | Execvp "string list" prog

definition parse_error :: "string \<Rightarrow> int \<Rightarrow> prog \<Rightarrow> prog" where
  "parse_error s where k = Message (Parse_error where s) k"

subsection \<open>Built-in commands\<close>

definition shell_cd :: "word_t \<Rightarrow> (int \<Rightarrow> prog) \<Rightarrow> prog" where
  "shell_cd dir k = Environ (\<lambda>e. Chdir (get_word e dir) k)"

definition shell_exit :: prog where
  "shell_exit = Exit SHELL_EXIT"

text \<open>The redirections of a simple command, which \<open>parse_simple\<close> and the child of \<open>cd\<close> perform.\<close>

definition redirect_to :: "string option \<Rightarrow> open_mode \<Rightarrow> int \<Rightarrow> prog \<Rightarrow> prog" where
  "redirect_to f mode target k =
     (case f of None \<Rightarrow> k | Some f \<Rightarrow> Open f mode (\<lambda>fd. Dup2 fd target (Close fd k)))"

definition redirections :: "simple_command_t \<Rightarrow> prog \<Rightarrow> prog" where
  "redirections s k = Environ (\<lambda>e.
     let infile = get_word e (first_word (in_words s));
         outfile = get_word e (first_word (out_words s));
         errfile = get_word e (first_word (err_words s));
         out_mode = (if io_flags s = IO_OUT_APPEND then O_APPEND else O_TRUNC);
         err_mode = (if io_flags s = IO_ERR_APPEND then O_APPEND else O_TRUNC)
     in redirect_to infile O_RDONLY 0
          (if outfile \<noteq> None \<and> errfile \<noteq> None \<and> outfile = errfile
           then Open (the outfile) out_mode (\<lambda>fd. Dup2 fd 1 (Dup2 fd 2 (Close fd k)))
           else redirect_to outfile out_mode 1 (redirect_to errfile err_mode 2 k)))"

subsection \<open>Commands\<close>

definition parse_simple :: "simple_command_t \<Rightarrow> int \<Rightarrow> (int \<Rightarrow> prog) \<Rightarrow> prog" where
  "parse_simple s level k = Fork (\<lambda>child_pid.
     if child_pid < 0 then parse_error ''Fork failed'' level (k (- 1))
     else if child_pid = 0
     then redirections s (Environ (\<lambda>e.
            case get_argv e s of
              None \<Rightarrow> Message Die (Exit 1)
            | Some argv \<Rightarrow> Execvp argv (Message (Execution_failed (get_word e (verb s))) (Exit 1))))
     else Waitpid child_pid (\<lambda>status. k (case status of Exited n \<Rightarrow> n | Signaled \<Rightarrow> - 1)))"

text \<open>The arguments \<open>run1\<close> and \<open>run2\<close> are \<open>parse_command\<close> on the two commands.\<close>

definition run_in_parallel ::
  "((int \<Rightarrow> prog) \<Rightarrow> prog) \<Rightarrow> ((int \<Rightarrow> prog) \<Rightarrow> prog) \<Rightarrow> int \<Rightarrow> (int \<Rightarrow> prog) \<Rightarrow> prog" where
  "run_in_parallel run1 run2 level k = Fork (\<lambda>pid1.
     if pid1 < 0 then parse_error ''Fork failed'' level (k 0)
     else if pid1 = 0 then run1 Exit
     else Fork (\<lambda>pid2.
       if pid2 < 0 then parse_error ''Fork failed'' level (k 0)
       else if pid2 = 0 then run2 Exit
       else Waitpid pid1 (\<lambda>status1. Waitpid pid2 (\<lambda>status2.
         k (case status2 of Exited n \<Rightarrow> n | Signaled \<Rightarrow> 0)))))"

text \<open>When \<open>pipe\<close> fails the code goes on with an uninitialised array.\<close>

definition run_on_pipe ::
  "((int \<Rightarrow> prog) \<Rightarrow> prog) \<Rightarrow> ((int \<Rightarrow> prog) \<Rightarrow> prog) \<Rightarrow> int \<Rightarrow> (int \<Rightarrow> prog) \<Rightarrow> prog" where
  "run_on_pipe run1 run2 level k = Pipe (\<lambda>pipefd.
     case pipefd of
       None \<Rightarrow> parse_error ''Pipe failed'' level Undefined
     | Some (rd, wr) \<Rightarrow> Fork (\<lambda>pid1.
         if pid1 < 0 then parse_error ''Fork failed'' level (k 0)
         else if pid1 = 0 then Close rd (Dup2 wr 1 (Close wr (run1 Exit)))
         else Fork (\<lambda>pid2.
           if pid2 < 0 then parse_error ''Fork failed'' level (k 0)
           else if pid2 = 0 then Close wr (Dup2 rd 0 (Close rd (run2 Exit)))
           else Close rd (Close wr
             (Waitpid pid1 (\<lambda>status1. Waitpid pid2 (\<lambda>status2.
               k (case status2 of Exited n \<Rightarrow> n | Signaled \<Rightarrow> 0))))))))"

text \<open>The branch of \<open>parse_command\<close> for a simple command.\<close>

definition assignment :: "word_t \<Rightarrow> (int \<Rightarrow> prog) \<Rightarrow> prog" where
  "assignment v k =
     (case v of
        n # _ # rest \<Rightarrow> Environ (\<lambda>e. case get_word e rest of
          None \<Rightarrow> Undefined
        | Some val \<Rightarrow> Setenv (str n) val k)
      | _ \<Rightarrow> Undefined)"

definition change_dir :: "simple_command_t \<Rightarrow> int \<Rightarrow> (int \<Rightarrow> prog) \<Rightarrow> prog" where
  "change_dir s level k = Fork (\<lambda>pid.
     if pid < 0 then parse_error ''Fork failed'' level (k (- 1))
     else if pid = 0
     then redirections s (shell_cd (first_word (params s)) (\<lambda>rc.
            if rc = - 1 then parse_error ''Path not found'' level (Exit 0) else Exit 0))
     else Waitpid pid (\<lambda>_. shell_cd (first_word (params s)) k))"

definition simple :: "simple_command_t \<Rightarrow> int \<Rightarrow> (int \<Rightarrow> prog) \<Rightarrow> prog" where
  "simple s level k = Environ (\<lambda>e.
     case get_word e (verb s) of
       None \<Rightarrow> Undefined
     | Some word \<Rightarrow>
         if CHR ''='' \<in> set word then assignment (verb s) k
         else if str (hd (verb s)) = ''cd'' then change_dir s level k
         else if str (hd (verb s)) = ''exit'' \<or> str (hd (verb s)) = ''quit'' then shell_exit
         else parse_simple s level k)"

primrec parse_command :: "command_t \<Rightarrow> int \<Rightarrow> (int \<Rightarrow> prog) \<Rightarrow> prog" where
  "parse_command (Simple s) = (\<lambda>level k. simple s level k)"
| "parse_command (Compound op cmd1 cmd2) = (\<lambda>level k.
     case op of
       OP_SEQUENTIAL \<Rightarrow> parse_command cmd1 (level + 1) (\<lambda>_. parse_command cmd2 (level + 1) k)
     | OP_PARALLEL \<Rightarrow> run_in_parallel (parse_command cmd1 (level + 1)) (parse_command cmd2 (level + 1)) level k
     | OP_CONDITIONAL_NZERO \<Rightarrow> parse_command cmd1 (level + 1) (\<lambda>status.
         if status \<noteq> 0 then parse_command cmd2 (level + 1) k else k status)
     | OP_CONDITIONAL_ZERO \<Rightarrow> parse_command cmd1 (level + 1) (\<lambda>status.
         if status = 0 then parse_command cmd2 (level + 1) k else k status)
     | OP_PIPE \<Rightarrow> run_on_pipe (parse_command cmd1 (level + 1)) (parse_command cmd2 (level + 1)) level k
     | OP_NONE \<Rightarrow> Undefined
     | OP_DUMMY \<Rightarrow> k SHELL_EXIT)"

end
