(* ===== verification/Shell_Run.thy ===== *)
theory Shell_Run
  imports Shell
begin

text \<open>
  What the system calls do to a process, and a semantics of command trees without continuations, process
  numbers or descriptor juggling that says what the code does with them.

  \<open>run p c es st\<close>: the process \<open>p\<close> can run the program \<open>c\<close> to the end \<open>st\<close>, and \<open>es\<close> is what it and its
  descendants did, with each descendant's events inside \<open>Child\<close> at its \<open>fork\<close>. Processes share
  files and pipes only, whose contents are not part of the model: the results of the calls are
  any that the system may give, so the runs of a process do not depend on how it is interleaved
  with others, except that \<open>waitpid\<close> returns how the child ended.
\<close>

subsection \<open>Processes\<close>

datatype desc = Inherited int | File string open_mode | Pipe_read nat | Pipe_write nat

record process =
  env :: environ
  cwd :: "string list"
  fds :: "int \<rightharpoonup> desc"
  kids :: "int \<rightharpoonup> wstatus"

datatype event =
    Launch "string list" environ "string list" "int \<rightharpoonup> desc"
  | Child "event list"
  | Note message
  | Unopened string
  | Refused
  | Fault

definition child_of :: "process \<Rightarrow> process" where
  "child_of p = p\<lparr>kids := Map.empty\<rparr>"

definition fresh_fd :: "process \<Rightarrow> int \<Rightarrow> bool" where
  "fresh_fd p fd \<longleftrightarrow> 0 \<le> fd \<and> fds p fd = None"

text \<open>What \<open>WEXITSTATUS\<close> can be.\<close>

definition status_ok :: "wstatus \<Rightarrow> bool" where
  "status_ok st \<longleftrightarrow> (case st of Exited n \<Rightarrow> 0 \<le> n \<and> n < 256 | Signaled \<Rightarrow> True)"

inductive run :: "process \<Rightarrow> prog \<Rightarrow> event list \<Rightarrow> wstatus \<Rightarrow> bool" where
  run_exit: "run p (Exit n) [] (Exited (n mod 256))"
| run_undefined: "run p Undefined [Fault] st"
| run_message: "run p k es st \<Longrightarrow> run p (Message m k) (Note m # es) st"
| run_environ: "run p (k (env p)) es st \<Longrightarrow> run p (Environ k) es st"
| run_setenv: "n \<noteq> [] \<Longrightarrow> CHR ''='' \<notin> set n \<Longrightarrow> run (p\<lparr>env := (env p)(n \<mapsto> v)\<rparr>) (k 0) es st \<Longrightarrow> run p (Setenv n v k) es st"
| run_setenv_fail: "run p (k (- 1)) es st \<Longrightarrow> run p (Setenv n v k) es st"
| run_chdir: "run (p\<lparr>cwd := cwd p @ [d]\<rparr>) (k 0) es st \<Longrightarrow> run p (Chdir (Some d) k) es st"
| run_chdir_fail: "run p (k (- 1)) es st \<Longrightarrow> run p (Chdir d k) es st"
| run_fork: "run (child_of p) (k 0) es1 st1 \<Longrightarrow> 0 < pid \<Longrightarrow> kids p pid = None \<Longrightarrow>
    run (p\<lparr>kids := (kids p)(pid \<mapsto> st1)\<rparr>) (k pid) es2 st \<Longrightarrow> run p (Fork k) (Child es1 # es2) st"
| run_fork_fail: "run p (k (- 1)) es st \<Longrightarrow> run p (Fork k) (Refused # es) st"
| run_waitpid: "kids p pid = Some w \<Longrightarrow> run (p\<lparr>kids := (kids p)(pid := None)\<rparr>) (k w) es st \<Longrightarrow> run p (Waitpid pid k) es st"
| run_pipe: "fresh_fd p rd \<Longrightarrow> fresh_fd p wr \<Longrightarrow> rd \<noteq> wr \<Longrightarrow> Pipe_read i \<notin> ran (fds p) \<Longrightarrow> Pipe_write i \<notin> ran (fds p) \<Longrightarrow>
    run (p\<lparr>fds := (fds p)(rd \<mapsto> Pipe_read i, wr \<mapsto> Pipe_write i)\<rparr>) (k (Some (rd, wr))) es st \<Longrightarrow> run p (Pipe k) es st"
| run_pipe_fail: "run p (k None) es st \<Longrightarrow> run p (Pipe k) (Refused # es) st"
| run_open: "fresh_fd p fd \<Longrightarrow> run (p\<lparr>fds := (fds p)(fd \<mapsto> File f m)\<rparr>) (k fd) es st \<Longrightarrow> run p (Open f m k) es st"
| run_open_fail: "run p (k (- 1)) es st \<Longrightarrow> run p (Open f m k) (Unopened f # es) st"
| run_dup2: "run (p\<lparr>fds := (if fds p a = None then fds p else (fds p)(b := fds p a))\<rparr>) k es st \<Longrightarrow> run p (Dup2 a b k) es st"
| run_close: "run (p\<lparr>fds := (fds p)(a := None)\<rparr>) k es st \<Longrightarrow> run p (Close a k) es st"
| run_execvp: "status_ok st \<Longrightarrow> run p (Execvp argv k) [Launch argv (env p) (cwd p) (fds p)] st"
| run_execvp_fail: "run p k es st \<Longrightarrow> run p (Execvp argv k) es st"

inductive_cases run_cases:
  "run p (Exit n) es st" "run p Undefined es st" "run p (Message m k) es st" "run p (Environ k) es st"
  "run p (Setenv n v k) es st" "run p (Chdir d k) es st" "run p (Fork k) es st" "run p (Waitpid pid k) es st"
  "run p (Pipe k) es st" "run p (Open f m k) es st" "run p (Dup2 a b k) es st" "run p (Close a k) es st"
  "run p (Execvp argv k) es st"

lemma run_openE:
  assumes "run p (Open f m k) es st"
  obtains (opened) fd where "fresh_fd p fd" "run (p\<lparr>fds := (fds p)(fd \<mapsto> File f m)\<rparr>) (k fd) es st"
    | (failed) es' where "es = Unopened f # es'" "run p (k (- 1)) es' st"
  using assms by (rule run_cases(10))

lemma run_forkE:
  assumes "run p (Fork k) es st"
  obtains (forked) es1 st1 pid es2 where "es = Child es1 # es2" "run (child_of p) (k 0) es1 st1" "0 < pid" "kids p pid = None"
      "run (p\<lparr>kids := (kids p)(pid \<mapsto> st1)\<rparr>) (k pid) es2 st"
    | (refused) es' where "es = Refused # es'" "run p (k (- 1)) es' st"
  using assms by (rule run_cases(7))

lemma run_execvpE:
  assumes "run p (Execvp argv k) es st"
  obtains (launched) "es = [Launch argv (env p) (cwd p) (fds p)]" "status_ok st" | (failed) "run p k es st"
  using assms by (rule run_cases(13))

lemma run_pipeE:
  assumes "run p (Pipe k) es st"
  obtains (made) rd wr i where "fresh_fd p rd" "fresh_fd p wr" "rd \<noteq> wr" "Pipe_read i \<notin> ran (fds p)" "Pipe_write i \<notin> ran (fds p)"
      "run (p\<lparr>fds := (fds p)(rd \<mapsto> Pipe_read i, wr \<mapsto> Pipe_write i)\<rparr>) (k (Some (rd, wr))) es st"
    | (refused) es' where "es = Refused # es'" "run p (k None) es' st"
  using assms by (rule run_cases(9))

inductive_simps run_simps:
  "run p (Exit n) es st" "run p Undefined es st" "run p (Message m k) es st" "run p (Environ k) es st"
  "run p (Waitpid pid k) es st" "run p (Dup2 a b k) es st" "run p (Close a k) es st"

text \<open>No call was refused for lack of resources, and nothing undefined happened.\<close>

fun clean :: "event \<Rightarrow> bool" where
  "clean (Child es) = list_all clean es"
| "clean Refused = False"
| "clean Fault = False"
| "clean _ = True"

text \<open>The standard descriptors are open, and there are no negative ones.\<close>

definition std :: "process \<Rightarrow> bool" where
  "std p \<longleftrightarrow> {0, 1, 2} \<subseteq> dom (fds p) \<and> (\<forall>fd < 0. fds p fd = None)"

subsection \<open>The commands of the code\<close>

text \<open>
  What \<open>cmd.c\<close> makes of a command tree, without continuations, process numbers and descriptors that are opened only to be
  duplicated. What it should make of it is in \<open>Shell_Spec\<close>.

  A redirection opens its file or, when that fails, is ignored.
\<close>

definition redirected :: "string option \<Rightarrow> open_mode \<Rightarrow> int \<Rightarrow> (int \<rightharpoonup> desc) \<Rightarrow> (event list \<times> (int \<rightharpoonup> desc)) set" where
  "redirected f mode target d = (case f of None \<Rightarrow> {([], d)} | Some f \<Rightarrow> {([Unopened f], d), ([], d(target \<mapsto> File f mode))})"

definition redirection_results :: "environ \<Rightarrow> simple_command_t \<Rightarrow> (int \<rightharpoonup> desc) \<Rightarrow> (event list \<times> (int \<rightharpoonup> desc)) set" where
  "redirection_results e s d =
     (let infile = get_word e (first_word (in_words s));
          outfile = get_word e (first_word (out_words s));
          errfile = get_word e (first_word (err_words s));
          out_mode = (if io_flags s = IO_OUT_APPEND then O_APPEND else O_TRUNC);
          err_mode = (if io_flags s = IO_ERR_APPEND then O_APPEND else O_TRUNC)
      in (\<Union>(u1, d1) \<in> redirected infile O_RDONLY 0 d.
            if outfile \<noteq> None \<and> outfile = errfile
            then {(u1 @ [Unopened (the outfile)], d1), (u1, d1(1 \<mapsto> File (the outfile) out_mode, 2 \<mapsto> File (the outfile) out_mode))}
            else \<Union>(u2, d2) \<in> redirected outfile out_mode 1 d1. (\<lambda>(u3, d3). (u1 @ u2 @ u3, d3)) ` redirected errfile err_mode 2 d2))"

datatype outcome = Returns int process | Ends wstatus

definition code_of :: "int \<Rightarrow> wstatus \<Rightarrow> int" where
  "code_of d w = (case w of Exited n \<Rightarrow> n | Signaled \<Rightarrow> d)"

definition is_builtin :: "word_t \<Rightarrow> bool" where
  "is_builtin v \<longleftrightarrow> str (hd v) \<in> {''cd'', ''exit'', ''quit''}"

inductive eval :: "process \<Rightarrow> int \<Rightarrow> command_t \<Rightarrow> event list \<Rightarrow> outcome \<Rightarrow> bool"
  and subshell :: "process \<Rightarrow> int \<Rightarrow> command_t \<Rightarrow> event list \<Rightarrow> wstatus \<Rightarrow> bool" where
  eval_assign: "get_word (env p) (verb s) = Some w \<Longrightarrow> CHR ''='' \<in> set w \<Longrightarrow> verb s = n # x # rest \<Longrightarrow>
    get_word (env p) rest = Some v \<Longrightarrow> str n \<noteq> [] \<Longrightarrow> CHR ''='' \<notin> set (str n) \<Longrightarrow>
    eval p l (Simple s) [] (Returns 0 (p\<lparr>env := (env p)(str n \<mapsto> v)\<rparr>))"
| eval_assign_fail: "get_word (env p) (verb s) = Some w \<Longrightarrow> CHR ''='' \<in> set w \<Longrightarrow> eval p l (Simple s) [] (Returns (- 1) p)"
| eval_cd: "get_word (env p) (verb s) = Some w \<Longrightarrow> CHR ''='' \<notin> set w \<Longrightarrow> str (hd (verb s)) = ''cd'' \<Longrightarrow>
    get_word (env p) (first_word (params s)) = Some d \<Longrightarrow> (us, fd) \<in> redirection_results (env p) s (fds p) \<Longrightarrow>
    es \<in> {[], [Note (Parse_error l ''Path not found'')]} \<Longrightarrow>
    eval p l (Simple s) [Child (us @ es)] (Returns 0 (p\<lparr>cwd := cwd p @ [d]\<rparr>))"
| eval_cd_fail: "get_word (env p) (verb s) = Some w \<Longrightarrow> CHR ''='' \<notin> set w \<Longrightarrow> str (hd (verb s)) = ''cd'' \<Longrightarrow>
    (us, fd) \<in> redirection_results (env p) s (fds p) \<Longrightarrow> es \<in> {[], [Note (Parse_error l ''Path not found'')]} \<Longrightarrow>
    eval p l (Simple s) [Child (us @ es)] (Returns (- 1) p)"
| eval_exit: "get_word (env p) (verb s) = Some w \<Longrightarrow> CHR ''='' \<notin> set w \<Longrightarrow> str (hd (verb s)) \<in> {''exit'', ''quit''} \<Longrightarrow>
    eval p l (Simple s) [] (Ends (Exited 156))"
| eval_launch: "get_word (env p) (verb s) = Some w \<Longrightarrow> CHR ''='' \<notin> set w \<Longrightarrow> \<not> is_builtin (verb s) \<Longrightarrow>
    get_argv (env p) s = Some argv \<Longrightarrow> (us, d) \<in> redirection_results (env p) s (fds p) \<Longrightarrow> status_ok st \<Longrightarrow>
    eval p l (Simple s) [Child (us @ [Launch argv (env p) (cwd p) d])] (Returns (code_of (- 1) st) p)"
| eval_no_launch: "get_word (env p) (verb s) = Some w \<Longrightarrow> CHR ''='' \<notin> set w \<Longrightarrow> \<not> is_builtin (verb s) \<Longrightarrow>
    get_argv (env p) s = Some argv \<Longrightarrow> (us, d) \<in> redirection_results (env p) s (fds p) \<Longrightarrow>
    eval p l (Simple s) [Child (us @ [Note (Execution_failed (Some w))])] (Returns 1 p)"
| eval_die: "get_word (env p) (verb s) = Some w \<Longrightarrow> CHR ''='' \<notin> set w \<Longrightarrow> \<not> is_builtin (verb s) \<Longrightarrow>
    get_argv (env p) s = None \<Longrightarrow> (us, d) \<in> redirection_results (env p) s (fds p) \<Longrightarrow>
    eval p l (Simple s) [Child (us @ [Note Die])] (Returns 1 p)"
| eval_seq: "eval p (l + 1) c1 es1 (Returns r p1) \<Longrightarrow> eval p1 (l + 1) c2 es2 out \<Longrightarrow>
    eval p l (Compound OP_SEQUENTIAL c1 c2) (es1 @ es2) out"
| eval_and: "eval p (l + 1) c1 es1 (Returns 0 p1) \<Longrightarrow> eval p1 (l + 1) c2 es2 out \<Longrightarrow>
    eval p l (Compound OP_CONDITIONAL_ZERO c1 c2) (es1 @ es2) out"
| eval_and_stop: "eval p (l + 1) c1 es (Returns r p1) \<Longrightarrow> r \<noteq> 0 \<Longrightarrow>
    eval p l (Compound OP_CONDITIONAL_ZERO c1 c2) es (Returns r p1)"
| eval_or: "eval p (l + 1) c1 es1 (Returns r p1) \<Longrightarrow> r \<noteq> 0 \<Longrightarrow> eval p1 (l + 1) c2 es2 out \<Longrightarrow>
    eval p l (Compound OP_CONDITIONAL_NZERO c1 c2) (es1 @ es2) out"
| eval_or_stop: "eval p (l + 1) c1 es (Returns 0 p1) \<Longrightarrow> eval p l (Compound OP_CONDITIONAL_NZERO c1 c2) es (Returns 0 p1)"
| eval_ends: "eval p (l + 1) c1 es (Ends st) \<Longrightarrow> op \<in> {OP_SEQUENTIAL, OP_CONDITIONAL_ZERO, OP_CONDITIONAL_NZERO} \<Longrightarrow>
    eval p l (Compound op c1 c2) es (Ends st)"
| eval_parallel: "subshell p (l + 1) c1 es1 st1 \<Longrightarrow> subshell p (l + 1) c2 es2 st2 \<Longrightarrow>
    eval p l (Compound OP_PARALLEL c1 c2) [Child es1, Child es2] (Returns (code_of 0 st2) p)"
| eval_pipe: "Pipe_read i \<notin> ran (fds p) \<Longrightarrow> Pipe_write i \<notin> ran (fds p) \<Longrightarrow>
    subshell (p\<lparr>fds := (fds p)(1 \<mapsto> Pipe_write i)\<rparr>) (l + 1) c1 es1 st1 \<Longrightarrow>
    subshell (p\<lparr>fds := (fds p)(0 \<mapsto> Pipe_read i)\<rparr>) (l + 1) c2 es2 st2 \<Longrightarrow>
    eval p l (Compound OP_PIPE c1 c2) [Child es1, Child es2] (Returns (code_of 0 st2) p)"
| eval_dummy: "eval p l (Compound OP_DUMMY c1 c2) [] (Returns SHELL_EXIT p)"
| subshell_returns: "eval (child_of p) l c es (Returns r p') \<Longrightarrow> subshell p l c es (Exited (r mod 256))"
| subshell_ends: "eval (child_of p) l c es (Ends st) \<Longrightarrow> subshell p l c es st"

subsection \<open>Redirections\<close>

lemma std_upd: "std p \<Longrightarrow> t \<in> {0, 1, 2} \<Longrightarrow> std (p\<lparr>fds := (fds p)(t \<mapsto> x)\<rparr>)"
  by (auto simp: std_def)

lemma std_fresh: "std p \<Longrightarrow> fresh_fd p fd \<Longrightarrow> fd \<notin> {0, 1, 2} \<and> fds p fd = None"
  by (auto simp: std_def fresh_fd_def)

lemma std_neg: "std p \<Longrightarrow> fds p (- 1) = None"
  by (simp add: std_def)

lemma redirect_to_run:
  assumes r: "run p (redirect_to f mode t k) es st" and p: "std p" and t: "t \<in> {0, 1, 2}"
  obtains us d es' where "(us, d) \<in> redirected f mode t (fds p)" "es = us @ es'" "run (p\<lparr>fds := d\<rparr>) k es' st" "std (p\<lparr>fds := d\<rparr>)"
proof (cases f)
  case None
  then show ?thesis using r p that [of "[]" "fds p" es] by (simp add: redirect_to_def redirected_def)
next
  case (Some g)
  have "run p (Open g mode (\<lambda>fd. Dup2 fd t (Close fd k))) es st" using r Some by (simp add: redirect_to_def)
  then show ?thesis
  proof (cases rule: run_openE)
    case (opened fd)
    have fd: "fd \<noteq> t" "fds p fd = None" using std_fresh [OF p opened(1)] t by auto
    then have "(fds p)(fd \<mapsto> File g mode, t \<mapsto> File g mode, fd := None) = (fds p)(t \<mapsto> File g mode)" by auto
    then have "run (p\<lparr>fds := (fds p)(t \<mapsto> File g mode)\<rparr>) k es st" using opened(2) by (simp add: run_simps)
    then show ?thesis using Some std_upd [OF p t] that [of "[]" "(fds p)(t \<mapsto> File g mode)" es] by (simp add: redirected_def)
  next
    case (failed es')
    then have "run p k es' st" using std_neg [OF p] by (simp add: run_simps fun_upd_idem)
    then show ?thesis using Some p failed(1) that [of "[Unopened g]" "fds p" es'] by (simp add: redirected_def)
  qed
qed

lemma redirect_both_run:
  assumes r: "run p (Open g mode (\<lambda>fd. Dup2 fd 1 (Dup2 fd 2 (Close fd k)))) es st" and p: "std p"
  obtains us d es' where "(us, d) \<in> {([Unopened g], fds p), ([], (fds p)(1 \<mapsto> File g mode, 2 \<mapsto> File g mode))}" "es = us @ es'"
    "run (p\<lparr>fds := d\<rparr>) k es' st"
  using r
proof (cases rule: run_openE)
  case (opened fd)
  let ?d = "(fds p)(1 \<mapsto> File g mode, 2 \<mapsto> File g mode)"
  have fd: "fd \<noteq> 1" "fd \<noteq> 2" "fds p fd = None" using std_fresh [OF p opened(1)] by auto
  then have "(fds p)(fd \<mapsto> File g mode, 1 \<mapsto> File g mode, 2 \<mapsto> File g mode, fd := None) = ?d" by auto
  then have "run (p\<lparr>fds := ?d\<rparr>) k es st" using opened(2) fd by (simp add: run_simps)
  then show ?thesis using that [of "[]" ?d es] by simp
next
  case (failed es')
  then have "run p k es' st" using std_neg [OF p] by (simp add: run_simps fun_upd_idem)
  then show ?thesis using failed(1) that [of "[Unopened g]" "fds p" es'] by simp
qed

lemma redirections_run:
  assumes r: "run p (redirections s k) es st" and p: "std p"
  obtains us d es' where "(us, d) \<in> redirection_results (env p) s (fds p)" "es = us @ es'" "run (p\<lparr>fds := d\<rparr>) k es' st"
proof -
  let ?in = "get_word (env p) (first_word (in_words s))" and ?out = "get_word (env p) (first_word (out_words s))"
  let ?err = "get_word (env p) (first_word (err_words s))"
  let ?om = "if io_flags s = IO_OUT_APPEND then O_APPEND else O_TRUNC"
  let ?em = "if io_flags s = IO_ERR_APPEND then O_APPEND else O_TRUNC"
  let ?both = "?out \<noteq> None \<and> ?out = ?err"
  let ?k2 = "if ?both then Open (the ?out) ?om (\<lambda>fd. Dup2 fd 1 (Dup2 fd 2 (Close fd k)))
    else redirect_to ?out ?om 1 (redirect_to ?err ?em 2 k)"
  have "?out \<noteq> None \<and> ?err \<noteq> None \<and> ?out = ?err \<longleftrightarrow> ?both" by metis
  then have r0: "run p (redirect_to ?in O_RDONLY 0 ?k2) es st" using r by (simp add: redirections_def Let_def run_simps)
  have t: "0 \<in> {0, 1, 2 :: int}" "1 \<in> {0, 1, 2 :: int}" "2 \<in> {0, 1, 2 :: int}" by simp_all
  obtain u1 d1 es1 where d1: "(u1, d1) \<in> redirected ?in O_RDONLY 0 (fds p)" "es = u1 @ es1" "run (p\<lparr>fds := d1\<rparr>) ?k2 es1 st" "std (p\<lparr>fds := d1\<rparr>)"
    by (rule redirect_to_run [OF r0 p t(1)])
  have sel: "fds (p\<lparr>fds := d\<rparr>) = d" "p\<lparr>fds := d, fds := d'\<rparr> = p\<lparr>fds := d'\<rparr>" for d d' by simp_all
  show ?thesis
  proof (cases ?both)
    case True
    have op: "run (p\<lparr>fds := d1\<rparr>) (Open (the ?out) ?om (\<lambda>fd. Dup2 fd 1 (Dup2 fd 2 (Close fd k)))) es1 st"
      using d1(3) unfolding if_P [OF True] .
    obtain u2 d2 es2 where d2: "(u2, d2) \<in> {([Unopened (the ?out)], d1), ([], d1(1 \<mapsto> File (the ?out) ?om, 2 \<mapsto> File (the ?out) ?om))}"
      "es1 = u2 @ es2" "run (p\<lparr>fds := d2\<rparr>) k es2 st" by (rule redirect_both_run [OF op d1(4), unfolded sel])
    have "(u1 @ u2, d2) \<in> redirection_results (env p) s (fds p)"
      unfolding redirection_results_def Let_def
      by (rule UN_I [OF d1(1)]) (unfold prod.case if_P [OF True], use d2(1) in auto)
    then show ?thesis using that d1(2) d2(2,3) by simp
  next
    case False
    have r1: "run (p\<lparr>fds := d1\<rparr>) (redirect_to ?out ?om 1 (redirect_to ?err ?em 2 k)) es1 st"
      using d1(3) unfolding if_not_P [OF False] .
    obtain u2 d2 es2 where d2: "(u2, d2) \<in> redirected ?out ?om 1 d1" "es1 = u2 @ es2"
      "run (p\<lparr>fds := d2\<rparr>) (redirect_to ?err ?em 2 k) es2 st" "std (p\<lparr>fds := d2\<rparr>)"
      by (rule redirect_to_run [OF r1 d1(4) t(2), unfolded sel])
    obtain u3 d3 es3 where d3: "(u3, d3) \<in> redirected ?err ?em 2 d2" "es2 = u3 @ es3" "run (p\<lparr>fds := d3\<rparr>) k es3 st"
      by (rule redirect_to_run [OF d2(3,4) t(3), unfolded sel])
    have "(u1 @ u2 @ u3, d3) \<in> redirection_results (env p) s (fds p)"
      unfolding redirection_results_def Let_def
      by (rule UN_I [OF d1(1)], unfold prod.case if_not_P [OF False], rule UN_I [OF d2(1)], unfold prod.case)
        (rule image_eqI [OF _ d3(1)], simp)
    then show ?thesis using that d1(2) d2(2) d3(2,3) by simp
  qed
qed

subsection \<open>Simple commands\<close>

definition implements :: "process \<Rightarrow> int \<Rightarrow> command_t \<Rightarrow> (int \<Rightarrow> prog) \<Rightarrow> event list \<Rightarrow> wstatus \<Rightarrow> bool" where
  "implements p l c k es st \<longleftrightarrow>
     (\<exists>es1 es2 r p'. es = es1 @ es2 \<and> eval p l c es1 (Returns r p') \<and> fds p' = fds p \<and> run p' (k r) es2 st) \<or> eval p l c es (Ends st)"

lemma implements_returns: "eval p l c es1 (Returns r p') \<Longrightarrow> fds p' = fds p \<Longrightarrow> run p' (k r) es2 st \<Longrightarrow> implements p l c k (es1 @ es2) st"
  unfolding implements_def by blast

lemma std_child: "std (child_of p) \<longleftrightarrow> std p"
  by (simp add: std_def child_of_def)

lemma child_of_sel [simp]: "env (child_of p) = env p" "cwd (child_of p) = cwd p" "fds (child_of p) = fds p"
  by (simp_all add: child_of_def)

text \<open>A child that is waited for leaves no trace in its parent.\<close>

lemma fork_wait:
  assumes r: "run p (Fork f) es st" and c: "list_all clean es"
    and f: "\<And>pid. 0 < pid \<Longrightarrow> f pid = Waitpid pid k"
  obtains es1 es2 st1 where "es = Child es1 # es2" "run (child_of p) (f 0) es1 st1" "list_all clean es1" "run p (k st1) es2 st"
  using r
proof (cases rule: run_forkE)
  case (forked es1 st1 pid es2)
  have "run (p\<lparr>kids := (kids p)(pid \<mapsto> st1)\<rparr>) (Waitpid pid k) es2 st" using forked(5) f [OF forked(3)] by simp
  then have "run p (k st1) es2 st" using forked(4) by (simp add: run_simps fun_upd_idem)
  then show ?thesis using that [OF forked(1,2)] forked(1) c by simp
next
  case (refused es')
  then show ?thesis using c by simp
qed

lemma parse_simple_run:
  assumes r: "run p (parse_simple s l k) es st" and p: "std p" and c: "list_all clean es"
    and w: "get_word (env p) (verb s) = Some w" "CHR ''='' \<notin> set w" "\<not> is_builtin (verb s)"
  shows "implements p l (Simple s) k es st"
proof -
  let ?body = "Environ (\<lambda>e. case get_argv e s of None \<Rightarrow> Message Die (Exit 1)
    | Some argv \<Rightarrow> Execvp argv (Message (Execution_failed (get_word e (verb s))) (Exit 1)))"
  obtain es1 es2 st1 where es: "es = Child es1 # es2" "run (child_of p) (redirections s ?body) es1 st1"
    "run p (k (code_of (- 1) st1)) es2 st"
    by (rule fork_wait [OF r [unfolded parse_simple_def] c, of "\<lambda>st. k (code_of (- 1) st)"]) (simp_all add: code_of_def)
  obtain us d es' where d: "(us, d) \<in> redirection_results (env p) s (fds p)" "es1 = us @ es'" "run ((child_of p)\<lparr>fds := d\<rparr>) ?body es' st1"
    by (rule redirections_run [OF es(2)]) (use p std_child that in auto)
  show ?thesis
  proof (cases "get_argv (env p) s")
    case None
    then have "es' = [Note Die]" "st1 = Exited 1" using d(3) by (auto simp: run_simps)
    then show ?thesis
      using es d(2) implements_returns [OF eval_die [OF w None d(1)] refl, of k es2 st] by (simp add: code_of_def)
  next
    case (Some argv)
    then have "run ((child_of p)\<lparr>fds := d\<rparr>) (Execvp argv (Message (Execution_failed (Some w)) (Exit 1))) es' st1"
      using d(3) w(1) by (simp add: run_simps)
    then show ?thesis
    proof (cases rule: run_execvpE)
      case launched
      then show ?thesis
        using es d(2) implements_returns [OF eval_launch [OF w Some d(1) launched(2), of l] refl, of k es2 st] by simp
    next
      case failed
      then have "es' = [Note (Execution_failed (Some w))]" "st1 = Exited 1" by (auto simp: run_simps)
      then show ?thesis
        using es d(2) implements_returns [OF eval_no_launch [OF w Some d(1)] refl, of k es2 st] by (simp add: code_of_def)
    qed
  qed
qed

end
