(* ===== verification/Shell_Eval.thy ===== *)
theory Shell_Eval
  imports Shell_Run
begin

text \<open>
  \<open>parse_command\<close> does what \<open>eval\<close> of \<open>Shell_Run\<close> says: by induction on the command tree, every
  run of its program that is not refused a resource consists of an evaluation of the tree and of
  a run of the rest of the process in the state the evaluation returns.
\<close>

subsection \<open>Built-in commands\<close>

lemma run_setenvE:
  assumes "run p (Setenv n v k) es st"
  obtains (set) "n \<noteq> []" "CHR ''='' \<notin> set n" "run (p\<lparr>env := (env p)(n \<mapsto> v)\<rparr>) (k 0) es st"
    | (failed) "run p (k (- 1)) es st"
  using assms by (rule run_cases(5))

lemma run_chdirE:
  assumes "run p (Chdir d k) es st"
  obtains (changed) x where "d = Some x" "run (p\<lparr>cwd := cwd p @ [x]\<rparr>) (k 0) es st"
    | (failed) "run p (k (- 1)) es st"
  using assms by (rule run_cases(6))

lemma assignment_run:
  assumes r: "run p (assignment (verb s) k) es st" and c: "list_all clean es"
    and w: "get_word (env p) (verb s) = Some w" "CHR ''='' \<in> set w"
  shows "implements p l (Simple s) k es st"
proof -
  obtain n x rest v where v: "verb s = n # x # rest" "get_word (env p) rest = Some v" "run p (Setenv (str n) v k) es st"
    using r c unfolding assignment_def by (auto simp: run_simps split: list.splits option.splits)
  from v(3) show ?thesis
  proof (cases rule: run_setenvE)
    case set
    then show ?thesis using implements_returns [OF eval_assign [OF w v(1,2) set(1,2)], of k es st] by simp
  next
    case failed
    then show ?thesis using implements_returns [OF eval_assign_fail [OF w] refl, of k es st] by simp
  qed
qed

lemma change_dir_run:
  assumes r: "run p (change_dir s l k) es st" and p: "std p" and c: "list_all clean es"
    and w: "get_word (env p) (verb s) = Some w" "CHR ''='' \<notin> set w" "str (hd (verb s)) = ''cd''"
  shows "implements p l (Simple s) k es st"
proof -
  let ?err = "\<lambda>rc. if rc = - 1 then parse_error ''Path not found'' l (Exit 0) else Exit 0"
  obtain es1 es2 st1 where es: "es = Child es1 # es2"
    "run (child_of p) (redirections s (shell_cd (first_word (params s)) ?err)) es1 st1"
    "run p (shell_cd (first_word (params s)) k) es2 st"
    by (rule fork_wait [OF r [unfolded change_dir_def] c, of "\<lambda>_. shell_cd (first_word (params s)) k"]) simp_all
  obtain us d es' where d: "(us, d) \<in> redirection_results (env p) s (fds p)" "es1 = us @ es'"
    "run ((child_of p)\<lparr>fds := d\<rparr>) (shell_cd (first_word (params s)) ?err) es' st1"
    by (rule redirections_run [OF es(2)]) (use p std_child that in auto)
  from d(3) have es1: "es' \<in> {[], [Note (Parse_error l ''Path not found'')]}"
    by (auto simp: shell_cd_def run_simps parse_error_def elim!: run_chdirE)
  have "run p (Chdir (get_word (env p) (first_word (params s))) k) es2 st" using es(3) by (simp add: shell_cd_def run_simps)
  then show ?thesis
  proof (cases rule: run_chdirE)
    case (changed x)
    then show ?thesis using es(1) d(2) implements_returns [OF eval_cd [OF w changed(1) d(1) es1], of k es2 st] by simp
  next
    case failed
    then show ?thesis using es(1) d(2) implements_returns [OF eval_cd_fail [OF w d(1) es1] refl, of k es2 st] by simp
  qed
qed

lemma simple_run:
  assumes r: "run p (simple s l k) es st" and p: "std p" and c: "list_all clean es"
  shows "implements p l (Simple s) k es st"
proof (cases "get_word (env p) (verb s)")
  case None
  then show ?thesis using r c by (auto simp: simple_def run_simps)
next
  case (Some w)
  let ?v = "str (hd (verb s))"
  consider "CHR ''='' \<in> set w" | "CHR ''='' \<notin> set w" "?v = ''cd''" | "CHR ''='' \<notin> set w" "?v \<in> {''exit'', ''quit''}"
    | "CHR ''='' \<notin> set w" "\<not> is_builtin (verb s)"
    unfolding is_builtin_def by blast
  then show ?thesis
  proof cases
    case 1
    then show ?thesis using assignment_run [OF _ c Some 1] r Some by (simp add: simple_def run_simps)
  next
    case 2
    then show ?thesis using change_dir_run [OF _ p c Some 2] r Some by (simp add: simple_def run_simps)
  next
    case 3
    have "?v \<noteq> ''cd''" using 3(2) by auto
    then have "run p (Exit (- 100)) es st" using r Some 3 by (auto simp: simple_def run_simps shell_exit_def SHELL_EXIT_def)
    then have "es = []" "st = Exited 156" by (simp_all add: run_simps)
    then show ?thesis using eval_exit [OF Some 3] by (simp add: implements_def)
  next
    case 4
    then have "run p (parse_simple s l k) es st" using r Some by (simp add: simple_def run_simps is_builtin_def)
    then show ?thesis using parse_simple_run [OF _ p c Some 4] by simp
  qed
qed

subsection \<open>Subshells\<close>

text \<open>The induction hypothesis for a command.\<close>

definition implemented :: "command_t \<Rightarrow> bool" where
  "implemented c \<longleftrightarrow> (\<forall>p l k es st. run p (parse_command c l k) es st \<longrightarrow> std p \<longrightarrow> list_all clean es \<longrightarrow> implements p l c k es st)"

lemma implemented_subshell:
  assumes c: "implemented c" and r: "run (child_of p) (parse_command c l Exit) es st" and p: "std p" and cl: "list_all clean es"
  shows "subshell p l c es st"
proof -
  have "implements (child_of p) l c Exit es st" using assms unfolding implemented_def std_child [symmetric, of p] by blast
  then consider es1 es2 r p' where "es = es1 @ es2" "eval (child_of p) l c es1 (Returns r p')" "run p' (Exit r) es2 st"
    | "eval (child_of p) l c es (Ends st)" unfolding implements_def by blast
  then show ?thesis
  proof cases
    case (1 es1 es2 r p')
    then show ?thesis using subshell_returns [OF 1(2)] by (simp add: run_simps)
  next
    case 2
    then show ?thesis by (rule subshell_ends)
  qed
qed

text \<open>Two children and a parent that waits for both in the order of their creation.\<close>

lemma fork_two:
  assumes r: "run p (Fork f) es st" and c: "list_all clean es"
    and f: "\<And>pid1. 0 < pid1 \<Longrightarrow> f pid1 = Fork (g pid1)"
    and g: "\<And>pid1 pid2. 0 < pid1 \<Longrightarrow> 0 < pid2 \<Longrightarrow> g pid1 pid2 = h pid1 pid2" and g0: "\<And>pid1. g pid1 0 = second"
  obtains pid1 pid2 es1 st1 es2 st2 es3 where "es = Child es1 # Child es2 # es3" "list_all clean es1" "list_all clean es2"
    "run (child_of p) (f 0) es1 st1" "run (child_of p) second es2 st2" "kids p pid1 = None" "kids p pid2 = None" "pid1 \<noteq> pid2"
    "run (p\<lparr>kids := (kids p)(pid1 \<mapsto> st1, pid2 \<mapsto> st2)\<rparr>) (h pid1 pid2) es3 st"
  using r
proof (cases rule: run_forkE)
  case (forked es1 st1 pid1 es')
  let ?p = "p\<lparr>kids := (kids p)(pid1 \<mapsto> st1)\<rparr>"
  have r2: "run ?p (Fork (g pid1)) es' st" using forked(5) f [OF forked(3)] by simp
  from r2 show ?thesis
  proof (cases rule: run_forkE)
    case b: (forked es2 st2 pid2 es3)
    have "pid1 \<noteq> pid2" "kids p pid2 = None" using b(4) by (auto split: if_splits)
    moreover have "child_of ?p = child_of p" by (simp add: child_of_def)
    ultimately show ?thesis
      using that [of es1 es2 es3 st1 st2 pid1 pid2] forked b g [OF forked(3) b(3)] g0 c by (auto simp: fun_upd_twist)
  next
    case (refused es'')
    then show ?thesis using forked(1) c by simp
  qed
next
  case (refused es')
  then show ?thesis using c by simp
qed

lemma wait_two:
  assumes "run (p\<lparr>kids := (kids p)(a \<mapsto> w1, b \<mapsto> w2)\<rparr>) (Waitpid a (\<lambda>s1. Waitpid b (k s1))) es st"
    "kids p a = None" "kids p b = None" "a \<noteq> b"
  shows "run p (k w1 w2) es st"
proof -
  have "(kids p)(a \<mapsto> w1, b \<mapsto> w2, a := None, b := None) = kids p" using assms(2-4) by (auto simp: fun_eq_iff)
  then show ?thesis using assms(1,4) by (simp add: run_simps fun_upd_twist)
qed

lemma run_in_parallel_run:
  assumes i: "implemented c1" "implemented c2"
    and r: "run p (run_in_parallel (parse_command c1 (l + 1)) (parse_command c2 (l + 1)) l k) es st"
    and p: "std p" and c: "list_all clean es"
  shows "implements p l (Compound OP_PARALLEL c1 c2) k es st"
proof -
  let ?k = "\<lambda>s1 s2. k (code_of 0 s2)"
  let ?w = "\<lambda>pid1 pid2. Waitpid pid1 (\<lambda>s1. Waitpid pid2 (?k s1))"
  let ?g = "\<lambda>pid1 pid2. if pid2 < 0 then parse_error ''Fork failed'' l (k 0)
    else if pid2 = 0 then parse_command c2 (l + 1) Exit else ?w pid1 pid2"
  obtain pid1 pid2 es1 st1 es2 st2 es3 where f: "es = Child es1 # Child es2 # es3" "list_all clean es1" "list_all clean es2"
    "run (child_of p) (parse_command c1 (l + 1) Exit) es1 st1" "run (child_of p) (parse_command c2 (l + 1) Exit) es2 st2"
    "kids p pid1 = None" "kids p pid2 = None" "pid1 \<noteq> pid2"
    "run (p\<lparr>kids := (kids p)(pid1 \<mapsto> st1, pid2 \<mapsto> st2)\<rparr>) (Waitpid pid1 (\<lambda>s1. Waitpid pid2 (?k s1))) es3 st"
    by (rule fork_two [OF r [unfolded run_in_parallel_def, folded code_of_def] c, where h = ?w and g = ?g
          and second = "parse_command c2 (l + 1) Exit"]) simp_all
  have ev: "eval p l (Compound OP_PARALLEL c1 c2) [Child es1, Child es2] (Returns (code_of 0 st2) p)"
    by (rule eval_parallel [OF implemented_subshell [OF i(1) f(4) p f(2)] implemented_subshell [OF i(2) f(5) p f(3)]])
  have "run p (k (code_of 0 st2)) es3 st" by (rule wait_two [OF f(9,6,7,8)])
  then show ?thesis using implements_returns [OF ev refl, of k es3 st] f(1) by simp
qed

text \<open>The children of a pipe: each keeps one end, as its standard output or input.\<close>

lemma pipe_ends:
  assumes p: "std p" and f: "fresh_fd p rd" "fresh_fd p wr" "rd \<noteq> wr"
  shows "(fds p)(rd \<mapsto> a, wr \<mapsto> b, rd := None, 1 \<mapsto> b, wr := None) = (fds p)(1 \<mapsto> b)"
    "(fds p)(rd \<mapsto> a, wr \<mapsto> b, wr := None, 0 \<mapsto> a, rd := None) = (fds p)(0 \<mapsto> a)"
    "(fds p)(rd \<mapsto> a, wr \<mapsto> b, rd := None, wr := None) = fds p"
  using std_fresh [OF p f(1)] std_fresh [OF p f(2)] f(3) by (auto simp: fun_eq_iff)

lemma run_on_pipe_run:
  assumes i: "implemented c1" "implemented c2"
    and r: "run p (run_on_pipe (parse_command c1 (l + 1)) (parse_command c2 (l + 1)) l k) es st"
    and p: "std p" and c: "list_all clean es"
  shows "implements p l (Compound OP_PIPE c1 c2) k es st"
  using r unfolding run_on_pipe_def
proof (cases rule: run_pipeE)
  case (refused es')
  then show ?thesis using c by simp
next
  case (made rd wr n)
  let ?p = "p\<lparr>fds := (fds p)(rd \<mapsto> Pipe_read n, wr \<mapsto> Pipe_write n)\<rparr>"
  let ?w = "\<lambda>pid1 pid2. Close rd (Close wr (Waitpid pid1 (\<lambda>s1. Waitpid pid2 (\<lambda>s2. k (code_of 0 s2)))))"
  let ?run1 = "Close rd (Dup2 wr 1 (Close wr (parse_command c1 (l + 1) Exit)))"
  let ?run2 = "Close wr (Dup2 rd 0 (Close rd (parse_command c2 (l + 1) Exit)))"
  let ?g = "\<lambda>pid1 pid2. if pid2 < 0 then parse_error ''Fork failed'' l (k 0) else if pid2 = 0 then ?run2 else ?w pid1 pid2"
  let ?f = "\<lambda>pid1. if pid1 < 0 then parse_error ''Fork failed'' l (k 0) else if pid1 = 0 then ?run1 else Fork (?g pid1)"
  let ?p1 = "p\<lparr>fds := (fds p)(1 \<mapsto> Pipe_write n)\<rparr>" and ?p2 = "p\<lparr>fds := (fds p)(0 \<mapsto> Pipe_read n)\<rparr>"
  have r2: "run ?p (Fork ?f) es st" using made(6) [folded code_of_def] by simp
  obtain pid1 pid2 es1 st1 es2 st2 es3 where f: "es = Child es1 # Child es2 # es3" "list_all clean es1" "list_all clean es2"
    "run (child_of ?p) (?f 0) es1 st1" "run (child_of ?p) ?run2 es2 st2"
    "kids ?p pid1 = None" "kids ?p pid2 = None" "pid1 \<noteq> pid2"
    "run (?p\<lparr>kids := (kids ?p)(pid1 \<mapsto> st1, pid2 \<mapsto> st2)\<rparr>) (?w pid1 pid2) es3 st"
    by (rule fork_two [OF r2 c, where h = ?w and g = ?g and second = ?run2]) simp_all
  have eqs: "child_of ?p\<lparr>fds := (fds p)(1 \<mapsto> Pipe_write n)\<rparr> = child_of ?p1" "child_of ?p\<lparr>fds := (fds p)(0 \<mapsto> Pipe_read n)\<rparr> = child_of ?p2"
    by (simp_all add: child_of_def)
  have wr: "fds p rd = None" "fds p wr = None" "rd \<noteq> 1" "wr \<noteq> 0"
    using std_fresh [OF p made(1)] std_fresh [OF p made(2)] by auto
  have "run (child_of ?p1) (parse_command c1 (l + 1) Exit) es1 st1"
    using f(4) wr made(3) pipe_ends(1) [OF p made(1-3), of "Pipe_read n" "Pipe_write n"] eqs(1) by (simp add: run_simps)
  moreover have "run (child_of ?p2) (parse_command c2 (l + 1) Exit) es2 st2"
    using f(5) wr made(3) pipe_ends(2) [OF p made(1-3), of "Pipe_read n" "Pipe_write n"] eqs(2) by (simp add: run_simps)
  moreover have "std ?p1" "std ?p2" by (rule std_upd [OF p]; simp)+
  ultimately have "subshell ?p1 (l + 1) c1 es1 st1" "subshell ?p2 (l + 1) c2 es2 st2"
    using implemented_subshell [OF i(1)] implemented_subshell [OF i(2)] f(2,3) by blast+
  then have ev: "eval p l (Compound OP_PIPE c1 c2) [Child es1, Child es2] (Returns (code_of 0 st2) p)"
    by (rule eval_pipe [OF made(4,5)])
  have "p\<lparr>kids := (kids p)(pid1 \<mapsto> st1, pid2 \<mapsto> st2), fds := fds p\<rparr> = p\<lparr>kids := (kids p)(pid1 \<mapsto> st1, pid2 \<mapsto> st2)\<rparr>" by simp
  then have "run (p\<lparr>kids := (kids p)(pid1 \<mapsto> st1, pid2 \<mapsto> st2)\<rparr>)
      (Waitpid pid1 (\<lambda>s1. Waitpid pid2 (\<lambda>s2. k (code_of 0 s2)))) es3 st"
    using f(9) pipe_ends(3) [OF p made(1-3), of "Pipe_read n" "Pipe_write n"] by (simp add: run_simps)
  then have "run p (k (code_of 0 st2)) es3 st" using f(6-8) by (intro wait_two [of p pid1 st1 pid2 st2 "\<lambda>s1 s2. k (code_of 0 s2)"]) simp_all
  then show ?thesis using implements_returns [OF ev refl, of k es3 st] f(1) by simp
qed

subsection \<open>Command trees\<close>

text \<open>A command that is followed by another in the same process.\<close>

lemma implements_next:
  assumes i: "implemented c1" and r: "run p (parse_command c1 (l + 1) k1) es st" and p: "std p" and c: "list_all clean es"
    and ends: "\<And>es st. eval p (l + 1) c1 es (Ends st) \<Longrightarrow> eval p l c0 es (Ends st)"
    and go: "\<And>es1 es2 r p'. eval p (l + 1) c1 es1 (Returns r p') \<Longrightarrow> run p' (k1 r) es2 st \<Longrightarrow> std p' \<Longrightarrow> fds p' = fds p \<Longrightarrow>
      list_all clean es2 \<Longrightarrow> implements p l c0 k (es1 @ es2) st"
  shows "implements p l c0 k es st"
proof -
  have "implements p (l + 1) c1 k1 es st" using i r p c unfolding implemented_def by blast
  then consider es1 es2 r p' where "es = es1 @ es2" "eval p (l + 1) c1 es1 (Returns r p')" "fds p' = fds p" "run p' (k1 r) es2 st"
    | "eval p (l + 1) c1 es (Ends st)" unfolding implements_def by blast
  then show ?thesis
  proof cases
    case (1 es1 es2 r p')
    have "std p'" using p 1(3) by (simp add: std_def)
    then show ?thesis using go [OF 1(2,4) _ 1(3)] c 1(1) by simp
  next
    case 2
    then show ?thesis using ends by (simp add: implements_def)
  qed
qed

lemma implements_second:
  assumes i: "implemented c2" and r: "run p' (parse_command c2 (l + 1) k) es2 st" and p: "std p'" "fds p' = fds p"
    and c: "list_all clean es2"
    and ev: "\<And>es out. eval p' (l + 1) c2 es out \<Longrightarrow> eval p l c0 (es1 @ es) out"
  shows "implements p l c0 k (es1 @ es2) st"
proof -
  have "implements p' (l + 1) c2 k es2 st" using i r p(1) c unfolding implemented_def by blast
  then consider es3 es4 r q where "es2 = es3 @ es4" "eval p' (l + 1) c2 es3 (Returns r q)" "fds q = fds p'" "run q (k r) es4 st"
    | "eval p' (l + 1) c2 es2 (Ends st)" unfolding implements_def by blast
  then show ?thesis
  proof cases
    case (1 es3 es4 r q)
    have "implements p l c0 k ((es1 @ es3) @ es4) st"
      by (rule implements_returns [OF ev [OF 1(2)]]) (use 1(3,4) p(2) in simp_all)
    then show ?thesis using 1(1) by simp
  next
    case 2
    then show ?thesis using ev by (simp add: implements_def)
  qed
qed

lemma parse_command_implemented: "implemented c"
proof (induction c)
  case (Simple s)
  then show ?case using simple_run by (simp add: implemented_def)
next
  case (Compound op c1 c2)
  show ?case
    unfolding implemented_def
  proof (intro allI impI)
    fix p l k es st
    assume r: "run p (parse_command (Compound op c1 c2) l k) es st" and p: "std p" and c: "list_all clean es"
    have ends: "op \<in> {OP_SEQUENTIAL, OP_CONDITIONAL_ZERO, OP_CONDITIONAL_NZERO} \<Longrightarrow>
      eval p (l + 1) c1 es (Ends st) \<Longrightarrow> eval p l (Compound op c1 c2) es (Ends st)" for es st by (rule eval_ends)
    show "implements p l (Compound op c1 c2) k es st"
    proof (cases op)
      case OP_SEQUENTIAL
      show ?thesis
        using r OP_SEQUENTIAL ends
        by (intro implements_next [OF Compound.IH(1) _ p c, of l "\<lambda>_. parse_command c2 (l + 1) k"])
          (auto intro: implements_second [OF Compound.IH(2)] eval_seq)
    next
      case OP_CONDITIONAL_ZERO
      show ?thesis
        using r OP_CONDITIONAL_ZERO ends
        by (intro implements_next [OF Compound.IH(1) _ p c, of l "\<lambda>r. if r = 0 then parse_command c2 (l + 1) k else k r"])
          (auto intro: implements_second [OF Compound.IH(2)] eval_and implements_returns eval_and_stop split: if_splits)
    next
      case OP_CONDITIONAL_NZERO
      show ?thesis
        using r OP_CONDITIONAL_NZERO ends
        by (intro implements_next [OF Compound.IH(1) _ p c, of l "\<lambda>r. if r \<noteq> 0 then parse_command c2 (l + 1) k else k r"])
          (auto intro: implements_second [OF Compound.IH(2)] eval_or implements_returns eval_or_stop split: if_splits)
    next
      case OP_PARALLEL
      then show ?thesis using run_in_parallel_run [OF Compound.IH _ p c] r by simp
    next
      case OP_PIPE
      then show ?thesis using run_on_pipe_run [OF Compound.IH _ p c] r by simp
    next
      case OP_DUMMY
      then show ?thesis using implements_returns [OF eval_dummy refl, of p k es st l c1 c2] r by simp
    next
      case OP_NONE
      then show ?thesis using r c by (simp add: run_simps)
    qed
  qed
qed

end
