(* ===== verification/Shell_Main.thy ===== *)
theory Shell_Main
  imports Shell_Eval
begin

text \<open>
  The read loop of the shell (\<open>main.c\<close>). The input is the text the shell process reads through
  \<open>stdio\<close>; the parser is a function from a line to the root it stores, if any. A line is read
  in chunks of \<open>fgets\<close>; reading fails (\<open>None\<close>) where the code indexes a chunk at -1, which
  happens when a chunk starts with a NUL character.
\<close>

subsection \<open>Reading lines\<close>

definition CHUNK_SIZE :: nat where "CHUNK_SIZE = 1024"

abbreviation newline :: char where "newline \<equiv> CHR 0x0A"
abbreviation carriage_return :: char where "carriage_return \<equiv> CHR 0x0D"
abbreviation NUL :: char where "NUL \<equiv> CHR 0x00"

fun fgets_take :: "nat \<Rightarrow> string \<Rightarrow> string \<times> string" where
  "fgets_take 0 s = ([], s)"
| "fgets_take (Suc n) [] = ([], [])"
| "fgets_take (Suc n) (c # s) = (if c = newline then ([c], s) else let (a, b) = fgets_take n s in (c # a, b))"

definition fgets :: "nat \<Rightarrow> string \<Rightarrow> (string \<times> string) option" where
  "fgets n input = (if input = [] then None else Some (fgets_take (n - 1) input))"

definition c_string :: "string \<Rightarrow> string" where
  "c_string s = takeWhile (\<lambda>c. c \<noteq> NUL) s"

text \<open>The chunk without its end of line, and whether it had one.\<close>

definition chunk_line :: "string \<Rightarrow> (string \<times> bool) option" where
  "chunk_line chunk =
     (let cs = c_string chunk; chunk_length = length cs
      in if cs = [] then None
         else if cs ! (chunk_length - 1) = newline
         then if chunk_length > 1 \<and> cs ! (chunk_length - 2) = carriage_return
              then Some (take (chunk_length - 2) cs, True)
              else Some (take (chunk_length - 1) cs, True)
         else Some (cs, False))"

lemma fgets_take_spec:
  "fgets_take n s = (if newline \<in> set (take n s)
     then (takeWhile (\<lambda>c. c \<noteq> newline) s @ [newline], tl (dropWhile (\<lambda>c. c \<noteq> newline) s))
     else (take n s, drop n s))"
  by (induction n s rule: fgets_take.induct) auto

lemma fgets_shorter: "fgets CHUNK_SIZE input = Some (chunk, rest) \<Longrightarrow> length rest < length input"
  using length_dropWhile_le [of "\<lambda>c. c \<noteq> newline" "tl input"]
  by (cases input) (auto simp: fgets_def fgets_take_spec CHUNK_SIZE_def split: if_splits)

function read_line_loop :: "string option \<Rightarrow> string \<Rightarrow> (string option \<times> string) option" where
  "read_line_loop line input =
     (case fgets CHUNK_SIZE input of
        None \<Rightarrow> Some (line, input)
      | Some (chunk, rest) \<Rightarrow>
          (case chunk_line chunk of
             None \<Rightarrow> None
           | Some (s, endline) \<Rightarrow>
               if endline then Some (Some (case_option [] id line @ s), rest)
               else read_line_loop (Some (case_option [] id line @ s)) rest))"
  by pat_completeness auto
termination by (relation "measure (length \<circ> snd)") (auto simp: fgets_shorter)

declare read_line_loop.simps [simp del]

definition read_line :: "string \<Rightarrow> (string option \<times> string) option" where
  "read_line input = read_line_loop None input"

lemma read_line_loop_shorter:
  "read_line_loop line input = Some (r, rest) \<Longrightarrow> length rest \<le> length input \<and> (input \<noteq> [] \<longrightarrow> length rest < length input) \<and> (input = [] \<longrightarrow> r = line)"
proof (induction line input arbitrary: r rest rule: read_line_loop.induct)
  case (1 line input)
  show ?case
  proof (cases "fgets CHUNK_SIZE input")
    case None
    then show ?thesis using 1(2) by (auto simp: read_line_loop.simps [of line input] fgets_def split: if_splits)
  next
    case (Some c)
    then obtain chunk rest' where c: "fgets CHUNK_SIZE input = Some (chunk, rest')" by (cases c) auto
    then have l: "length rest' < length input" by (rule fgets_shorter)
    then have "input \<noteq> []" by auto
    note l = l this
    then obtain s e where s: "chunk_line chunk = Some (s, e)"
      using 1(2) c by (auto simp: read_line_loop.simps [of line input] split: option.splits)
    show ?thesis
      using 1(2) c s l 1(1) [OF c refl s refl]
      by (cases e) (fastforce simp: read_line_loop.simps [of line input])+
  qed
qed

lemma read_line_shorter: "read_line input = Some (Some l, rest) \<Longrightarrow> length rest < length input"
  using read_line_loop_shorter [of None input "Some l" rest] by (auto simp: read_line_def)

subsection \<open>The shell\<close>

function start_shell :: "(string \<Rightarrow> command_t option) \<Rightarrow> string \<Rightarrow> prog \<Rightarrow> prog" where
  "start_shell parse_line input k = Message Prompt
     (case read_line input of
        None \<Rightarrow> Undefined
      | Some (None, _) \<Rightarrow> k
      | Some (Some line, rest) \<Rightarrow>
          (case parse_line line of
             None \<Rightarrow> start_shell parse_line rest k
           | Some root \<Rightarrow> parse_command root 0 (\<lambda>ret.
               if ret = SHELL_EXIT then k else start_shell parse_line rest k)))"
  by pat_completeness auto
termination by (relation "measure (\<lambda>(_, input, _). length input)") (auto simp: read_line_shorter)

declare start_shell.simps [simp del]

definition main :: "(string \<Rightarrow> command_t option) \<Rightarrow> string \<Rightarrow> prog" where
  "main parse_line input = start_shell parse_line input (Exit 0)"

subsection \<open>The lines of a text\<close>

lemma length_tl_dropWhile: "s \<noteq> [] \<Longrightarrow> length (tl (dropWhile P s)) < length s"
proof -
  assume "s \<noteq> []"
  then have "0 < length s" by simp
  moreover have "length (tl (dropWhile P s)) = length (dropWhile P s) - 1" by (rule length_tl)
  ultimately show ?thesis using length_dropWhile_le [of P s] by linarith
qed

function lines_of :: "string \<Rightarrow> string list" where
  "lines_of [] = []"
| "lines_of (c # s) = takeWhile (\<lambda>x. x \<noteq> newline) (c # s) # lines_of (tl (dropWhile (\<lambda>x. x \<noteq> newline) (c # s)))"
  by pat_completeness auto
termination by (relation "measure length") (simp, simp only: in_measure, rule length_tl_dropWhile, simp)

definition plain :: "string \<Rightarrow> bool" where
  "plain s \<longleftrightarrow> NUL \<notin> set s \<and> carriage_return \<notin> set s"

lemma plain_take_drop: "plain s \<Longrightarrow> plain (take n s) \<and> plain (drop n s)"
  unfolding plain_def by (meson in_set_takeD in_set_dropD)

lemma c_string_plain: "plain s \<Longrightarrow> c_string s = s"
  by (auto simp: c_string_def plain_def takeWhile_eq_all_conv)

lemma chunk_line_end:
  assumes "plain s" "newline \<notin> set s"
  shows "chunk_line (s @ [newline]) = Some (s, True)"
proof -
  have c: "c_string (s @ [newline]) = s @ [newline]" using assms(1) by (intro c_string_plain) (simp add: plain_def)
  have "length (s @ [newline]) > 1 \<Longrightarrow> (s @ [newline]) ! (length (s @ [newline]) - 2) \<noteq> carriage_return"
  proof -
    assume "length (s @ [newline]) > 1"
    then have "(s @ [newline]) ! (length (s @ [newline]) - 2) = last s" by (cases s rule: rev_cases) (auto simp: nth_append)
    moreover have "last s \<in> set s" using \<open>length (s @ [newline]) > 1\<close> by (intro last_in_set) auto
    ultimately show ?thesis using assms(1) by (auto simp: plain_def)
  qed
  then show ?thesis unfolding chunk_line_def c Let_def by (auto simp: nth_append)
qed

lemma chunk_line_part:
  assumes "plain s" "newline \<notin> set s" "s \<noteq> []"
  shows "chunk_line s = Some (s, False)"
proof -
  have "s ! (length s - 1) \<in> set s" using assms(3) by (intro nth_mem) simp
  then have "s ! (length s - 1) \<noteq> newline" using assms(2) by auto
  then show ?thesis unfolding chunk_line_def c_string_plain [OF assms(1)] Let_def using assms(3) by simp
qed

lemma read_line_loop_plain:
  assumes "plain s" "s \<noteq> [] \<or> acc \<noteq> None"
  shows "read_line_loop acc s =
    Some (Some (case_option [] id acc @ takeWhile (\<lambda>c. c \<noteq> newline) s), tl (dropWhile (\<lambda>c. c \<noteq> newline) s))"
  using assms
proof (induction "length s" arbitrary: acc s rule: less_induct)
  case less
  let ?tw = "takeWhile (\<lambda>c. c \<noteq> newline)" and ?dw = "dropWhile (\<lambda>c. c \<noteq> newline)"
  show ?case
  proof (cases "s = []")
    case True
    then show ?thesis using less.prems by (auto simp: read_line_loop.simps [of _ "[]"] fgets_def)
  next
    case ne: False
    have f: "fgets CHUNK_SIZE s = Some (fgets_take 1023 s)" using ne by (simp add: fgets_def CHUNK_SIZE_def)
    show ?thesis
    proof (cases "newline \<in> set (take 1023 s)")
      case True
      have "plain (?tw s)" using less.prems(1) set_takeWhileD unfolding plain_def by fastforce
      moreover have "newline \<notin> set (?tw s)" using set_takeWhileD by fastforce
      ultimately have "chunk_line (?tw s @ [newline]) = Some (?tw s, True)" by (rule chunk_line_end)
      then show ?thesis using f True by (simp add: read_line_loop.simps [of acc s] fgets_take_spec)
    next
      case False
      have p: "plain (take 1023 s)" "plain (drop 1023 s)" using plain_take_drop [OF less.prems(1)] by simp_all
      have "chunk_line (take 1023 s) = Some (take 1023 s, False)" using chunk_line_part [OF p(1) False] ne by simp
      then have "read_line_loop acc s = read_line_loop (Some (case_option [] id acc @ take 1023 s)) (drop 1023 s)"
        using f False by (simp add: read_line_loop.simps [of acc s] fgets_take_spec)
      also have "\<dots> = Some (Some ((case_option [] id acc @ take 1023 s) @ ?tw (drop 1023 s)), tl (?dw (drop 1023 s)))"
        using less.hyps [of "drop 1023 s"] ne p(2) by (auto simp: length_drop)
      also have "?tw s = take 1023 s @ ?tw (drop 1023 s)"
        using takeWhile_append2 [of "take 1023 s" "\<lambda>c. c \<noteq> newline" "drop 1023 s"] False by auto
      moreover have "?dw s = ?dw (drop 1023 s)"
        using dropWhile_append2 [of "take 1023 s" "\<lambda>c. c \<noteq> newline" "drop 1023 s"] False by auto
      ultimately show ?thesis by simp
    qed
  qed
qed

lemma read_line_plain:
  assumes "plain s"
  shows "read_line s = (if s = [] then Some (None, [])
    else Some (Some (takeWhile (\<lambda>c. c \<noteq> newline) s), tl (dropWhile (\<lambda>c. c \<noteq> newline) s)))"
  using read_line_loop_plain [OF assms, of None]
  by (auto simp: read_line_def read_line_loop.simps [of None "[]"] fgets_def)

subsection \<open>Sessions\<close>

text \<open>
  The reference for the whole shell: the roots of the lines are evaluated one after the other in
  the same process until the input ends or a command ends the process.
\<close>

inductive session :: "process \<Rightarrow> command_t option list \<Rightarrow> event list \<Rightarrow> wstatus \<Rightarrow> bool" where
  session_eof: "session p [] [Note Prompt] (Exited 0)"
| session_none: "session p rs es st \<Longrightarrow> session p (None # rs) (Note Prompt # es) st"
| session_line: "eval p 0 c es1 (Returns r p') \<Longrightarrow> r \<noteq> SHELL_EXIT \<Longrightarrow> session p' rs es2 st \<Longrightarrow>
    session p (Some c # rs) (Note Prompt # es1 @ es2) st"
| session_stop: "eval p 0 c es (Returns SHELL_EXIT p') \<Longrightarrow> session p (Some c # rs) (Note Prompt # es) (Exited 0)"
| session_ends: "eval p 0 c es (Ends st) \<Longrightarrow> session p (Some c # rs) (Note Prompt # es) st"

lemma start_shell_session:
  assumes "run p (start_shell parse input (Exit 0)) es st" "std p" "list_all clean es" "plain input"
  shows "session p (map parse (lines_of input)) es st"
  using assms
proof (induction "length input" arbitrary: p input es rule: less_induct)
  case less
  let ?rest = "tl (dropWhile (\<lambda>c. c \<noteq> newline) input)" and ?line = "takeWhile (\<lambda>c. c \<noteq> newline) input"
  show ?case
  proof (cases input)
    case Nil
    then have "es = [Note Prompt]" "st = Exited 0"
      using less.prems(1) by (auto simp: start_shell.simps [of parse "[]"] read_line_plain plain_def run_simps)
    then show ?thesis using Nil session_eof by simp
  next
    case (Cons c s)
    have rest: "length ?rest < length input" "plain ?rest"
    proof -
      show "length ?rest < length input" using Cons by (intro length_tl_dropWhile) simp
      have "set (tl xs) \<subseteq> set xs" for xs :: string by (cases xs) auto
      moreover have "set (dropWhile (\<lambda>c. c \<noteq> newline) input) \<subseteq> set input" by (auto dest: set_dropWhileD)
      ultimately have "set ?rest \<subseteq> set input" by (rule subset_trans)
      then show "plain ?rest" using less.prems(4) by (auto simp: plain_def)
    qed
    have ih: "session p' (map parse (lines_of ?rest)) es' st"
      if "run p' (start_shell parse ?rest (Exit 0)) es' st" "std p'" "list_all clean es'" for p' es'
      using less.hyps [OF rest(1) that rest(2)] .
    have ls: "map parse (lines_of input) = parse ?line # map parse (lines_of ?rest)" using Cons by simp
    let ?k = "\<lambda>ret. if ret = SHELL_EXIT then Exit 0 else start_shell parse ?rest (Exit 0)"
    let ?go = "case parse ?line of None \<Rightarrow> start_shell parse ?rest (Exit 0) | Some root \<Rightarrow> parse_command root 0 ?k"
    have ne: "input \<noteq> []" using Cons by simp
    have "read_line input = Some (Some ?line, ?rest)" unfolding read_line_plain [OF less.prems(4)] if_not_P [OF ne] by (rule refl)
    then have "start_shell parse input (Exit 0) = Message Prompt ?go"
      by (subst start_shell.simps) (simp only: option.case prod.case)
    then have "run p (Message Prompt ?go) es st" using less.prems(1) by simp
    then obtain es' where es: "es = Note Prompt # es'" and r: "run p ?go es' st" by (rule run_cases(3))
    note es = es less.prems(3) [unfolded es list.pred_inject, THEN conjunct2]
    show ?thesis
    proof (cases "parse ?line")
      case None
      then show ?thesis using ih [OF _ less.prems(2) es(2)] r ls es(1) session_none by simp
    next
      case (Some root)
      then have "implements p 0 root ?k es' st"
        using r parse_command_implemented [of root] less.prems(2) es(2) by (simp add: implemented_def)
      then consider es1 es2 n p' where "es' = es1 @ es2" "eval p 0 root es1 (Returns n p')" "fds p' = fds p" "run p' (?k n) es2 st"
        | "eval p 0 root es' (Ends st)" unfolding implements_def by blast
      then show ?thesis
      proof cases
        case (1 es1 es2 n p')
        show ?thesis
        proof (cases "n = SHELL_EXIT")
          case True
          then have "es2 = []" "st = Exited 0" using 1(4) by (simp_all add: run_simps)
          then show ?thesis using session_stop 1(1,2) True es(1) ls Some by simp
        next
          case False
          have "std p'" using less.prems(2) 1(3) by (simp add: std_def)
          then have "session p' (map parse (lines_of ?rest)) es2 st" using ih [of p' es2] 1(1,4) False es(2) by simp
          then show ?thesis using session_line [OF 1(2) False] 1(1) es(1) ls Some by simp
        qed
      next
        case 2
        then show ?thesis using session_ends es(1) ls Some by simp
      qed
    qed
  qed
qed

end
