(* ===== verification/Shell_Spec.thy ===== *)
theory Shell_Spec
  imports Shell_Main
begin

unbundle bit_operations_syntax

text \<open>
  What the mini-shell should do with a command tree, as its README and the comments of \<open>parser.h\<close> say:
  \<open>documented\<close>, written without regard to the code. A built-in command is recognised on its expanded name, \<open>cd\<close> changes the
  directory only with exactly one argument, each append flag is tested on its own, and only \<open>exit\<close> and \<open>quit\<close> end the shell.
  The code (\<open>eval\<close>) departs from this in some cases; \<open>ordinary\<close> are the command trees without them. On these, every
  evaluation by the code in which every file of a redirection can be opened is a documented one.
\<close>

subsection \<open>The documented commands\<close>

text \<open>The parser makes \<open>=\<close> a part of its own: \<open>name=value\<close> is an assignment.\<close>

definition is_assignment :: "word_t \<Rightarrow> bool" where
  "is_assignment v \<longleftrightarrow> (case v of
     n # q # rest \<Rightarrow> \<not> expand n \<and> \<not> expand q \<and> str q = ''='' \<and> str n \<noteq> [] \<and> CHR ''='' \<notin> set (str n) \<and> rest \<noteq> []
   | _ \<Rightarrow> False)"

definition put_file :: "string option \<Rightarrow> open_mode \<Rightarrow> int \<Rightarrow> (int \<rightharpoonup> desc) \<Rightarrow> (int \<rightharpoonup> desc)" where
  "put_file f mode target d = (case f of None \<Rightarrow> d | Some f \<Rightarrow> d(target \<mapsto> File f mode))"

definition append_mode :: "u32 \<Rightarrow> u32 \<Rightarrow> open_mode" where
  "append_mode flags flag = (if flags AND flag \<noteq> 0 then O_APPEND else O_TRUNC)"

definition documented_fds :: "environ \<Rightarrow> simple_command_t \<Rightarrow> (int \<rightharpoonup> desc) \<Rightarrow> (int \<rightharpoonup> desc)" where
  "documented_fds e s d =
     put_file (get_word e (first_word (err_words s))) (append_mode (io_flags s) IO_ERR_APPEND) 2
       (put_file (get_word e (first_word (out_words s))) (append_mode (io_flags s) IO_OUT_APPEND) 1
         (put_file (get_word e (first_word (in_words s))) O_RDONLY 0 d))"

fun is_note :: "event \<Rightarrow> bool" where
  "is_note (Note m) = True"
| "is_note _ = False"

text \<open>
  \<open>documented_sub\<close> is a command in a process of its own, with its exit status. An assignment fails only for lack of memory. A
  failing \<open>cd\<close> may write a message.
\<close>

inductive documented :: "process \<Rightarrow> command_t \<Rightarrow> event list \<Rightarrow> outcome \<Rightarrow> bool"
  and documented_sub :: "process \<Rightarrow> command_t \<Rightarrow> event list \<Rightarrow> int \<Rightarrow> bool" where
  doc_assign: "is_assignment (verb s) \<Longrightarrow> get_word (env p) (tl (tl (verb s))) = Some v \<Longrightarrow>
    documented p (Simple s) [] (Returns 0 (p\<lparr>env := (env p)(str (hd (verb s)) \<mapsto> v)\<rparr>))"
| doc_assign_fail: "is_assignment (verb s) \<Longrightarrow> documented p (Simple s) [] (Returns (- 1) p)"
| doc_cd: "\<not> is_assignment (verb s) \<Longrightarrow> get_word (env p) (verb s) = Some ''cd'' \<Longrightarrow> params s = [x] \<Longrightarrow> get_word (env p) x = Some d \<Longrightarrow>
    list_all is_note es \<Longrightarrow> documented p (Simple s) [Child es] (Returns 0 (p\<lparr>cwd := cwd p @ [d]\<rparr>))"
| doc_cd_fail: "\<not> is_assignment (verb s) \<Longrightarrow> get_word (env p) (verb s) = Some ''cd'' \<Longrightarrow>
    list_all is_note es \<Longrightarrow> documented p (Simple s) [Child es] (Returns (- 1) p)"
| doc_exit: "\<not> is_assignment (verb s) \<Longrightarrow> get_word (env p) (verb s) = Some w \<Longrightarrow> w \<in> {''exit'', ''quit''} \<Longrightarrow>
    documented p (Simple s) [] (Ends (Exited (SHELL_EXIT mod 256)))"
| doc_launch: "\<not> is_assignment (verb s) \<Longrightarrow> get_word (env p) (verb s) = Some w \<Longrightarrow> w \<notin> {''cd'', ''exit'', ''quit''} \<Longrightarrow>
    get_argv (env p) s = Some argv \<Longrightarrow> status_ok st \<Longrightarrow>
    documented p (Simple s) [Child [Launch argv (env p) (cwd p) (documented_fds (env p) s (fds p))]] (Returns (code_of (- 1) st) p)"
| doc_no_launch: "\<not> is_assignment (verb s) \<Longrightarrow> get_word (env p) (verb s) = Some w \<Longrightarrow> w \<notin> {''cd'', ''exit'', ''quit''} \<Longrightarrow>
    documented p (Simple s) [Child [Note (Execution_failed (Some w))]] (Returns 1 p)"
| doc_sequential: "documented p c1 es1 (Returns r p1) \<Longrightarrow> documented p1 c2 es2 out \<Longrightarrow>
    documented p (Compound OP_SEQUENTIAL c1 c2) (es1 @ es2) out"
| doc_conditional_zero: "documented p c1 es1 (Returns 0 p1) \<Longrightarrow> documented p1 c2 es2 out \<Longrightarrow>
    documented p (Compound OP_CONDITIONAL_ZERO c1 c2) (es1 @ es2) out"
| doc_conditional_zero_stop: "documented p c1 es (Returns r p1) \<Longrightarrow> r \<noteq> 0 \<Longrightarrow>
    documented p (Compound OP_CONDITIONAL_ZERO c1 c2) es (Returns r p1)"
| doc_conditional_nzero: "documented p c1 es1 (Returns r p1) \<Longrightarrow> r \<noteq> 0 \<Longrightarrow> documented p1 c2 es2 out \<Longrightarrow>
    documented p (Compound OP_CONDITIONAL_NZERO c1 c2) (es1 @ es2) out"
| doc_conditional_nzero_stop: "documented p c1 es (Returns 0 p1) \<Longrightarrow> documented p (Compound OP_CONDITIONAL_NZERO c1 c2) es (Returns 0 p1)"
| doc_first_ends: "documented p c1 es (Ends st) \<Longrightarrow> op \<in> {OP_SEQUENTIAL, OP_CONDITIONAL_ZERO, OP_CONDITIONAL_NZERO} \<Longrightarrow>
    documented p (Compound op c1 c2) es (Ends st)"
| doc_parallel: "documented_sub p c1 es1 n1 \<Longrightarrow> documented_sub p c2 es2 n2 \<Longrightarrow>
    documented p (Compound OP_PARALLEL c1 c2) [Child es1, Child es2] (Returns n2 p)"
| doc_pipe: "Pipe_read i \<notin> ran (fds p) \<Longrightarrow> Pipe_write i \<notin> ran (fds p) \<Longrightarrow>
    documented_sub (p\<lparr>fds := (fds p)(1 \<mapsto> Pipe_write i)\<rparr>) c1 es1 n1 \<Longrightarrow>
    documented_sub (p\<lparr>fds := (fds p)(0 \<mapsto> Pipe_read i)\<rparr>) c2 es2 n2 \<Longrightarrow>
    documented p (Compound OP_PIPE c1 c2) [Child es1, Child es2] (Returns n2 p)"
| doc_sub_returns: "documented (child_of p) c es (Returns r p') \<Longrightarrow> documented_sub p c es (r mod 256)"
| doc_sub_ends: "documented (child_of p) c es (Ends (Exited n)) \<Longrightarrow> documented_sub p c es n"

text \<open>The lines of the input, one after the other, until the input ends or a command ends the shell.\<close>

inductive documented_session :: "process \<Rightarrow> command_t option list \<Rightarrow> event list \<Rightarrow> wstatus \<Rightarrow> bool" where
  doc_eof: "documented_session p [] [Note Prompt] (Exited 0)"
| doc_no_command: "documented_session p rs es st \<Longrightarrow> documented_session p (None # rs) (Note Prompt # es) st"
| doc_command: "documented p c es1 (Returns r p') \<Longrightarrow> documented_session p' rs es2 st \<Longrightarrow>
    documented_session p (Some c # rs) (Note Prompt # es1 @ es2) st"
| doc_close: "documented p c es (Ends st) \<Longrightarrow> documented_session p (Some c # rs) (Note Prompt # es) st"

subsection \<open>Ordinary commands\<close>

definition literal :: "word_t \<Rightarrow> bool" where
  "literal w \<longleftrightarrow> list_all (\<lambda>q. \<not> expand q) w"

definition text_of :: "word_t \<Rightarrow> string" where
  "text_of w = concat (map str w)"

definition builtins :: "string list" where
  "builtins = [''cd'', ''exit'', ''quit'']"

text \<open>A name without variables and \<open>=\<close>; the name of a built-in command is one part.\<close>

definition ordinary_name :: "word_t \<Rightarrow> bool" where
  "ordinary_name v \<longleftrightarrow> v \<noteq> [] \<and> literal v \<and> CHR ''='' \<notin> set (text_of v) \<and>
     (str (hd v) \<in> set builtins \<or> text_of v \<in> set builtins \<longrightarrow> length v = 1)"

text \<open>Not both append flags; when one is set, standard output and standard error do not go to one file.\<close>

definition ordinary_io :: "simple_command_t \<Rightarrow> bool" where
  "ordinary_io s \<longleftrightarrow> io_flags s = IO_REGULAR \<or> io_flags s \<in> {IO_OUT_APPEND, IO_ERR_APPEND} \<and>
     (let out = first_word (out_words s); err = first_word (err_words s)
      in out = [] \<or> err = [] \<or> literal out \<and> literal err \<and> text_of out \<noteq> text_of err)"

definition ordinary_simple :: "simple_command_t \<Rightarrow> bool" where
  "ordinary_simple s \<longleftrightarrow> [] \<notin> set (params s) \<and> ordinary_io s \<and>
     (is_assignment (verb s) \<or> ordinary_name (verb s) \<and> (text_of (verb s) = ''cd'' \<longrightarrow> length (params s) \<le> 1))"

primrec ordinary :: "command_t \<Rightarrow> bool" where
  "ordinary (Simple s) \<longleftrightarrow> ordinary_simple s"
| "ordinary (Compound op c1 c2) \<longleftrightarrow> op \<noteq> OP_NONE \<and> op \<noteq> OP_DUMMY \<and> ordinary c1 \<and> ordinary c2"

text \<open>Nothing undefined happens, and no \<open>fork\<close>, \<open>pipe\<close> or \<open>open\<close> fails.\<close>

fun smooth :: "event \<Rightarrow> bool" where
  "smooth (Child es) \<longleftrightarrow> list_all smooth es"
| "smooth (Unopened f) \<longleftrightarrow> False"
| "smooth Refused \<longleftrightarrow> False"
| "smooth Fault \<longleftrightarrow> False"
| "smooth _ \<longleftrightarrow> True"

lemma smooth_clean: "smooth e \<Longrightarrow> clean e"
  by (induction e rule: smooth.induct) (auto simp: list_all_iff)

lemma smooth_all_clean: "list_all smooth es \<Longrightarrow> list_all clean es"
  by (auto simp: list_all_iff smooth_clean)

subsection \<open>Words\<close>

lemma get_word_loop_literal: "literal w \<Longrightarrow> get_word_loop e acc w = (if w = [] then acc else Some (case_option [] id acc @ text_of w))"
  by (induction w arbitrary: acc) (auto simp: literal_def text_of_def Let_def)

lemma get_word_literal: "literal w \<Longrightarrow> get_word e w = (if w = [] then None else Some (text_of w))"
  by (simp add: get_word_def get_word_loop_literal)

lemma get_word_loop_prefix: "get_word_loop e (Some a) w = Some x \<Longrightarrow> set a \<subseteq> set x"
  by (induction w arbitrary: a) (force simp: Let_def)+

lemma get_word_loop_Some: "\<exists>x. get_word_loop e (Some a) w = Some x"
  by (induction w arbitrary: a) (simp_all add: Let_def)

lemma get_word_None: "get_word e w = None \<longleftrightarrow> w = []"
proof (cases w)
  case (Cons q rest)
  obtain x where "get_word_loop e (Some (if expand q then (case e (str q) of None \<Rightarrow> [] | Some v \<Rightarrow> v) else str q)) rest = Some x"
    using get_word_loop_Some by blast
  then show ?thesis using Cons by (simp add: get_word_def Let_def)
qed (simp add: get_word_def)

lemma assignment_word: "is_assignment v \<Longrightarrow> get_word e v = Some w \<Longrightarrow> CHR ''='' \<in> set w"
  by (auto simp: is_assignment_def get_word_def split: list.splits dest!: get_word_loop_prefix)

lemma ordinary_name_word:
  assumes "ordinary_name v"
  shows "get_word e v = Some (text_of v)" "CHR ''='' \<notin> set (text_of v)" "\<not> is_assignment v"
    "b \<in> set builtins \<Longrightarrow> str (hd v) = b \<longleftrightarrow> text_of v = b"
proof -
  have v: "v \<noteq> []" "literal v" "CHR ''='' \<notin> set (text_of v)"
    "str (hd v) \<in> set builtins \<or> text_of v \<in> set builtins \<Longrightarrow> length v = 1"
    using assms by (auto simp: ordinary_name_def)
  show w: "get_word e v = Some (text_of v)" "CHR ''='' \<notin> set (text_of v)" using v by (simp_all add: get_word_literal)
  then show "\<not> is_assignment v" using assignment_word [of v e] by blast
  have "length v = 1 \<Longrightarrow> text_of v = str (hd v)" by (auto simp: length_Suc_conv text_of_def)
  then show "str (hd v) = b \<longleftrightarrow> text_of v = b" if "b \<in> set builtins" using v(4) that by metis
qed

lemma fill_argv_Some: "[] \<notin> set ws \<Longrightarrow> fill_argv e argv ws \<noteq> None"
  by (induction ws arbitrary: argv) (auto simp: get_word_None bind_eq_None_conv)

lemma ordinary_argv: "ordinary_simple s \<Longrightarrow> ordinary_name (verb s) \<Longrightarrow> get_argv e s \<noteq> None"
  using fill_argv_Some [of "params s" e] ordinary_name_word(1) [of "verb s" e] by (simp add: ordinary_simple_def get_argv_def)

subsection \<open>Redirections\<close>

lemma redirected_smooth:
  "(us, d) \<in> redirected f m t d0 \<Longrightarrow> list_all smooth us \<Longrightarrow> us = [] \<and> d = put_file f m t d0"
  by (cases f) (auto simp: redirected_def put_file_def)

lemma ordinary_modes:
  assumes "ordinary_io s"
  shows "append_mode (io_flags s) IO_OUT_APPEND = (if io_flags s = IO_OUT_APPEND then O_APPEND else O_TRUNC)"
    "append_mode (io_flags s) IO_ERR_APPEND = (if io_flags s = IO_ERR_APPEND then O_APPEND else O_TRUNC)"
proof -
  have "io_flags s = 0 \<or> io_flags s = 1 \<or> io_flags s = 2"
    using assms by (auto simp: ordinary_io_def IO_REGULAR_def IO_OUT_APPEND_def IO_ERR_APPEND_def)
  then show "append_mode (io_flags s) IO_OUT_APPEND = (if io_flags s = IO_OUT_APPEND then O_APPEND else O_TRUNC)"
    "append_mode (io_flags s) IO_ERR_APPEND = (if io_flags s = IO_ERR_APPEND then O_APPEND else O_TRUNC)"
    by (auto simp: append_mode_def IO_OUT_APPEND_def IO_ERR_APPEND_def)
qed

text \<open>Only when no append flag is set can both outputs go to one file.\<close>

lemma ordinary_same_file:
  assumes "ordinary_io s" "get_word e (first_word (out_words s)) = Some f" "get_word e (first_word (err_words s)) = Some f"
  shows "io_flags s = IO_REGULAR"
proof (rule ccontr)
  let ?o = "first_word (out_words s)" and ?e = "first_word (err_words s)"
  assume "io_flags s \<noteq> IO_REGULAR"
  moreover have ne: "?o \<noteq> []" "?e \<noteq> []" using assms(2,3) get_word_None [of e ?o] get_word_None [of e ?e] by auto
  ultimately have l: "literal ?o" "literal ?e" "text_of ?o \<noteq> text_of ?e" using assms(1) by (auto simp: ordinary_io_def Let_def)
  show False using assms(2,3) l(3) ne unfolding get_word_literal [OF l(1)] get_word_literal [OF l(2)] by simp
qed

lemma redirections_documented:
  assumes io: "ordinary_io s" and r: "(us, d) \<in> redirection_results e s d0" and sm: "list_all smooth us"
  shows "us = []" "d = documented_fds e s d0"
proof -
  let ?in = "get_word e (first_word (in_words s))" and ?out = "get_word e (first_word (out_words s))"
  let ?err = "get_word e (first_word (err_words s))"
  let ?om = "append_mode (io_flags s) IO_OUT_APPEND" and ?em = "append_mode (io_flags s) IO_ERR_APPEND"
  obtain u1 d1 where d1: "(u1, d1) \<in> redirected ?in O_RDONLY 0 d0" and
    d: "(us, d) \<in> (if ?out \<noteq> None \<and> ?out = ?err
      then {(u1 @ [Unopened (the ?out)], d1), (u1, d1(1 \<mapsto> File (the ?out) ?om, 2 \<mapsto> File (the ?out) ?om))}
      else \<Union>(u2, d2) \<in> redirected ?out ?om 1 d1. (\<lambda>(u3, d3). (u1 @ u2 @ u3, d3)) ` redirected ?err ?em 2 d2)"
    using r unfolding redirection_results_def Let_def ordinary_modes [OF io, symmetric] by blast
  have "us = [] \<and> d = documented_fds e s d0"
  proof (cases "?out \<noteq> None \<and> ?out = ?err")
    case True
    then obtain f where f: "?out = Some f" "?err = Some f" by (metis not_None_eq)
    then have "?em = ?om" using ordinary_same_file [OF io f] by (simp add: append_mode_def IO_REGULAR_def)
    moreover have "us = u1" "d = d1(1 \<mapsto> File f ?om, 2 \<mapsto> File f ?om)" using d True f sm by auto
    ultimately show ?thesis
      using redirected_smooth [OF d1] sm f by (simp add: documented_fds_def put_file_def [of "Some f"])
  next
    case False
    then obtain u2 d2 u3 where d2: "(u2, d2) \<in> redirected ?out ?om 1 d1" "(u3, d) \<in> redirected ?err ?em 2 d2" "us = u1 @ u2 @ u3"
      using d unfolding if_not_P [OF False] by auto
    then show ?thesis using redirected_smooth [OF d1] redirected_smooth [OF d2(1)] redirected_smooth [OF d2(2)] sm
      by (simp add: documented_fds_def)
  qed
  then show "us = []" "d = documented_fds e s d0" by simp_all
qed

subsection \<open>The code does what is documented\<close>

text \<open>How an evaluation can end: a status is never \<open>SHELL_EXIT\<close>, and only \<open>exit\<close> and \<open>quit\<close> end the process.\<close>

definition as_documented :: "process \<Rightarrow> command_t \<Rightarrow> event list \<Rightarrow> outcome \<Rightarrow> bool" where
  "as_documented p c es out \<longleftrightarrow> documented p c es out \<and>
     (case out of Returns r p' \<Rightarrow> r \<noteq> SHELL_EXIT \<and> fds p' = fds p | Ends st \<Rightarrow> st = Exited (SHELL_EXIT mod 256))"

lemma as_documented_returns: "documented p c es (Returns r p') \<Longrightarrow> - 1 \<le> r \<Longrightarrow> fds p' = fds p \<Longrightarrow> as_documented p c es (Returns r p')"
  by (simp add: as_documented_def SHELL_EXIT_def)

lemma status_code: "status_ok st \<Longrightarrow> - 1 \<le> code_of (- 1) st"
  by (cases st) (auto simp: status_ok_def code_of_def)

lemma ordinary_verb:
  assumes "ordinary_simple s" "get_word e (verb s) = Some w" "CHR ''='' \<notin> set w"
  shows "ordinary_name (verb s)" "\<not> is_assignment (verb s)" "text_of (verb s) = w" "b \<in> set builtins \<Longrightarrow> str (hd (verb s)) = b \<longleftrightarrow> w = b"
proof -
  show a: "\<not> is_assignment (verb s)" using assignment_word assms(2,3) by blast
  then show n: "ordinary_name (verb s)" using assms(1) by (simp add: ordinary_simple_def)
  show "text_of (verb s) = w" using ordinary_name_word(1) [OF n, of e] assms(2) by simp
  then show "str (hd (verb s)) = b \<longleftrightarrow> w = b" if "b \<in> set builtins" using ordinary_name_word(4) [OF n that] by simp
qed

lemma ordinary_external:
  assumes "ordinary_simple s" "get_word e (verb s) = Some w" "CHR ''='' \<notin> set w" "\<not> is_builtin (verb s)"
  shows "w \<notin> {''cd'', ''exit'', ''quit''}"
  using ordinary_verb(4) [OF assms(1-3), of w] assms(4) by (auto simp: is_builtin_def builtins_def)

lemma ordinary_assignment:
  assumes "ordinary_simple s" "get_word e (verb s) = Some w" "CHR ''='' \<in> set w"
  shows "is_assignment (verb s)"
  using assms ordinary_name_word(1) [of "verb s" e] ordinary_name_word(2) [of "verb s"] by (auto simp: ordinary_simple_def)

lemma eval_documented:
  "eval p l c es out \<Longrightarrow> ordinary c \<Longrightarrow> list_all smooth es \<Longrightarrow> as_documented p c es out"
  "subshell p l c es st \<Longrightarrow> ordinary c \<Longrightarrow> list_all smooth es \<Longrightarrow> \<exists>n. st = Exited n \<and> 0 \<le> n \<and> documented_sub p c es n"
proof (induction rule: eval_subshell.inducts)
  case (eval_assign p s w n x rest v l)
  have "is_assignment (verb s)" using ordinary_assignment [OF _ eval_assign(1,2)] eval_assign.prems(1) by simp
  then have "documented p (Simple s) [] (Returns 0 (p\<lparr>env := (env p)(str (hd (verb s)) \<mapsto> v)\<rparr>))"
    by (rule doc_assign) (use eval_assign in simp)
  then show ?case using eval_assign.hyps by (intro as_documented_returns) simp_all
next
  case (eval_assign_fail p s w l)
  have "is_assignment (verb s)" using ordinary_assignment [OF _ eval_assign_fail(1,2)] eval_assign_fail.prems(1) by simp
  then show ?case by (intro as_documented_returns doc_assign_fail) simp_all
next
  case (eval_cd p s w d us fd es l)
  have o: "ordinary_simple s" using eval_cd.prems by simp
  note v = ordinary_verb [OF o eval_cd(1,2)]
  have w: "w = ''cd''" using v(4) [of "''cd''"] eval_cd(3) by (simp add: builtins_def)
  then have "length (params s) \<le> 1" using v(1-3) o by (auto simp: ordinary_simple_def)
  moreover have "params s \<noteq> []" using eval_cd(4) get_word_None [of "env p" "[]"] by (auto simp: first_word_def)
  ultimately obtain x where x: "params s = [x]" by (cases "params s") auto
  have us: "us = []" using redirections_documented(1) [of s us fd] o eval_cd by (auto simp: ordinary_simple_def)
  have "documented p (Simple s) [Child es] (Returns 0 (p\<lparr>cwd := cwd p @ [d]\<rparr>))"
    by (rule doc_cd [OF v(2) _ x]) (use eval_cd x w in \<open>auto simp: first_word_def\<close>)
  then show ?case unfolding us by (intro as_documented_returns) simp_all
next
  case (eval_cd_fail p s w us fd es l)
  have o: "ordinary_simple s" using eval_cd_fail.prems by simp
  note v = ordinary_verb [OF o eval_cd_fail(1,2)]
  have w: "w = ''cd''" using v(4) [of "''cd''"] eval_cd_fail(3) by (simp add: builtins_def)
  have us: "us = []" using redirections_documented(1) [of s us fd] o eval_cd_fail by (auto simp: ordinary_simple_def)
  have "documented p (Simple s) [Child es] (Returns (- 1) p)"
    by (rule doc_cd_fail [OF v(2)]) (use eval_cd_fail w in auto)
  then show ?case unfolding us by (intro as_documented_returns) simp_all
next
  case (eval_exit p s w l)
  have o: "ordinary_simple s" using eval_exit.prems by simp
  note v = ordinary_verb [OF o eval_exit(1,2)]
  have "w \<in> {''exit'', ''quit''}" using v(4) [of "''exit''"] v(4) [of "''quit''"] eval_exit(3) by (auto simp: builtins_def)
  then show ?case using doc_exit [OF v(2) eval_exit(1)] by (simp add: as_documented_def SHELL_EXIT_def)
next
  case (eval_launch p s w argv us d st l)
  have o: "ordinary_simple s" using eval_launch.prems by simp
  have "us = []" "d = documented_fds (env p) s (fds p)"
    using redirections_documented [of s us d] o eval_launch by (auto simp: ordinary_simple_def)
  then show ?case
    using doc_launch [OF ordinary_verb(2) [OF o eval_launch(1,2)] eval_launch(1) ordinary_external [OF o eval_launch(1-3)] eval_launch(4,6)]
    by (intro as_documented_returns status_code eval_launch(6)) simp_all
next
  case (eval_no_launch p s w argv us d l)
  have o: "ordinary_simple s" using eval_no_launch.prems by simp
  have "us = []" using redirections_documented(1) [of s us d] o eval_no_launch by (auto simp: ordinary_simple_def)
  then show ?case
    using doc_no_launch [OF ordinary_verb(2) [OF o eval_no_launch(1,2)] eval_no_launch(1) ordinary_external [OF o eval_no_launch(1-3)]]
    by (intro as_documented_returns) simp_all
next
  case (eval_die p s w us d l)
  have o: "ordinary_simple s" using eval_die.prems by simp
  show ?case using ordinary_argv [OF o ordinary_verb(1) [OF o eval_die(1,2)], of "env p"] eval_die(4) by simp
next
  case (eval_seq p l c1 es1 r p1 c2 es2 out)
  then show ?case by (auto simp: as_documented_def split: outcome.splits intro: doc_sequential)
next
  case (eval_and p l c1 es1 p1 c2 es2 out)
  then show ?case by (auto simp: as_documented_def split: outcome.splits intro: doc_conditional_zero)
next
  case (eval_and_stop p l c1 es r p1 c2)
  then show ?case by (auto simp: as_documented_def intro: doc_conditional_zero_stop)
next
  case (eval_or p l c1 es1 r p1 c2 es2 out)
  then show ?case by (auto simp: as_documented_def split: outcome.splits intro: doc_conditional_nzero)
next
  case (eval_or_stop p l c1 es p1 c2)
  then show ?case by (auto simp: as_documented_def intro: doc_conditional_nzero_stop)
next
  case (eval_ends p l c1 es st op c2)
  then show ?case by (auto simp: as_documented_def intro: doc_first_ends)
next
  case (eval_parallel p l c1 es1 st1 c2 es2 st2)
  then obtain n1 n2 where "documented_sub p c1 es1 n1" "documented_sub p c2 es2 n2" "st2 = Exited n2" "0 \<le> n2" by auto
  then show ?case using doc_parallel [of p c1 es1 n1 c2 es2 n2] by (intro as_documented_returns) (simp_all add: code_of_def)
next
  case (eval_pipe i p l c1 es1 st1 c2 es2 st2)
  then obtain n1 n2 where n: "documented_sub (p\<lparr>fds := (fds p)(1 \<mapsto> Pipe_write i)\<rparr>) c1 es1 n1"
    "documented_sub (p\<lparr>fds := (fds p)(0 \<mapsto> Pipe_read i)\<rparr>) c2 es2 n2" "st2 = Exited n2" "0 \<le> n2" by auto
  then show ?case using doc_pipe [OF eval_pipe(1,2) n(1,2)] by (intro as_documented_returns) (simp_all add: code_of_def)
next
  case (eval_dummy p l c1 c2)
  then show ?case by simp
next
  case (subshell_returns p l c es r p')
  then show ?case using doc_sub_returns [of p c es r p'] by (auto simp: as_documented_def)
next
  case (subshell_ends p l c es st)
  then show ?case using doc_sub_ends [of p c es "SHELL_EXIT mod 256"] by (auto simp: as_documented_def)
qed

lemma session_documented:
  "session p rs es st \<Longrightarrow> list_all smooth es \<Longrightarrow> \<forall>c. Some c \<in> set rs \<longrightarrow> ordinary c \<Longrightarrow> documented_session p rs es st"
proof (induction rule: session.induct)
  case (session_eof p)
  show ?case by (rule doc_eof)
next
  case (session_none p rs es st)
  then show ?case by (auto intro: doc_no_command)
next
  case (session_line p c es1 r p' rs es2 st)
  then have "documented p c es1 (Returns r p')" using eval_documented(1) [OF session_line(1)] by (simp add: as_documented_def)
  then show ?case using session_line by (auto intro: doc_command)
next
  case (session_stop p c es p' rs)
  then show ?case using eval_documented(1) [OF session_stop(1)] by (simp add: as_documented_def)
next
  case (session_ends p c es st rs)
  then show ?case using eval_documented(1) [OF session_ends(1)] by (auto simp: as_documented_def intro: doc_close)
qed

end
