(* ===== verification/Shell_Props.thy ===== *)
theory Shell_Props
  imports Shell_Spec
begin

unbundle bit_operations_syntax

text \<open>
  The properties of the shell: its sessions are the documented ones, the descriptors of the programs it
  launches are what the redirections and pipes say, and what the append flags do.
\<close>

subsection \<open>Launched programs\<close>

fun launches1 :: "event \<Rightarrow> (string list \<times> (int \<rightharpoonup> desc)) list" where
  "launches1 (Launch argv e c d) = [(argv, d)]"
| "launches1 (Child es) = concat (map launches1 es)"
| "launches1 _ = []"

definition launches :: "event list \<Rightarrow> (string list \<times> (int \<rightharpoonup> desc)) set" where
  "launches es = (\<Union>e \<in> set es. set (launches1 e))"

lemma launches_simps [simp]:
  "launches [] = {}" "launches (xs @ ys) = launches xs \<union> launches ys" "launches (Child es # es') = launches es \<union> launches es'"
  "launches (Note m # es) = launches es" "launches (Launch a e c d # es) = insert (a, d) (launches es)"
  "launches (Refused # es) = launches es" "launches (Fault # es) = launches es"
  "launches (Unopened f # es) = launches es"
  by (auto simp: launches_def)

text \<open>
  The descriptors \<open>d\<close> are those of the shell, \<open>d0\<close>, but for the standard ones, and these are the shell's, an end of a pipe
  or a file, each open for its direction.
\<close>

definition reads :: "desc \<Rightarrow> bool" where
  "reads x \<longleftrightarrow> (case x of Pipe_read i \<Rightarrow> True | File f m \<Rightarrow> m = O_RDONLY | _ \<Rightarrow> False)"

definition writes :: "desc \<Rightarrow> bool" where
  "writes x \<longleftrightarrow> (case x of Pipe_write i \<Rightarrow> True | File f m \<Rightarrow> m \<noteq> O_RDONLY | _ \<Rightarrow> False)"

definition wired :: "(int \<rightharpoonup> desc) \<Rightarrow> (int \<rightharpoonup> desc) \<Rightarrow> bool" where
  "wired d0 d \<longleftrightarrow> (\<forall>fd. fd \<notin> {0, 1, 2} \<longrightarrow> d fd = d0 fd) \<and>
     (d 0 = d0 0 \<or> (\<exists>x. d 0 = Some x \<and> reads x)) \<and> (\<forall>t \<in> {1, 2}. d t = d0 t \<or> (\<exists>x. d t = Some x \<and> writes x))"

lemma reads_iff: "reads x \<longleftrightarrow> (\<exists>i. x = Pipe_read i) \<or> (\<exists>f. x = File f O_RDONLY)"
  by (cases x) (auto simp: reads_def)

lemma writes_iff: "writes x \<longleftrightarrow> (\<exists>i. x = Pipe_write i) \<or> (\<exists>f m. x = File f m \<and> m \<noteq> O_RDONLY)"
  by (cases x) (auto simp: writes_def)

lemma wired_refl: "wired d d"
  by (simp add: wired_def)

lemma wired_in: "wired d0 d \<Longrightarrow> reads x \<Longrightarrow> wired d0 (d(0 \<mapsto> x))"
  by (auto simp: wired_def)

lemma wired_out: "wired d0 d \<Longrightarrow> writes x \<Longrightarrow> t \<in> {1, 2} \<Longrightarrow> wired d0 (d(t \<mapsto> x))"
  by (auto simp: wired_def)

lemma redirected_wired:
  assumes "(us, d') \<in> redirected f m t d" "wired d0 d" "t = 0 \<and> m = O_RDONLY \<or> t \<in> {1, 2} \<and> m \<noteq> O_RDONLY"
  shows "wired d0 d'"
  using assms wired_in [of d0 d "File (the f) m"] wired_out [of d0 d "File (the f) m" t]
  by (cases f) (auto simp: redirected_def reads_def writes_def)

lemma redirection_silent: "(us, d) \<in> redirection_results e s d0 \<Longrightarrow> launches us = {}"
  by (auto simp: redirection_results_def redirected_def Let_def split: if_splits option.splits)

lemma redirection_wired:
  assumes "(us, d') \<in> redirection_results e s d" "wired d0 d"
  shows "wired d0 d'"
proof -
  let ?in = "get_word e (first_word (in_words s))" and ?out = "get_word e (first_word (out_words s))"
  let ?err = "get_word e (first_word (err_words s))"
  let ?om = "if io_flags s = IO_OUT_APPEND then O_APPEND else O_TRUNC"
  let ?em = "if io_flags s = IO_ERR_APPEND then O_APPEND else O_TRUNC"
  have m: "?om \<noteq> O_RDONLY" "?em \<noteq> O_RDONLY" by simp_all
  have w: "writes (File f ?om)" for f by (simp add: writes_def)
  obtain u1 d1 where d1: "(u1, d1) \<in> redirected ?in O_RDONLY 0 d" and
    d: "(us, d') \<in> (if ?out \<noteq> None \<and> ?out = ?err
      then {(u1 @ [Unopened (the ?out)], d1), (u1, d1(1 \<mapsto> File (the ?out) ?om, 2 \<mapsto> File (the ?out) ?om))}
      else \<Union>(u2, d2) \<in> redirected ?out ?om 1 d1. (\<lambda>(u3, d3). (u1 @ u2 @ u3, d3)) ` redirected ?err ?em 2 d2)"
    using assms(1) unfolding redirection_results_def Let_def by blast
  have w1: "wired d0 d1" by (rule redirected_wired [OF d1 assms(2)]) simp
  show ?thesis
  proof (cases "?out \<noteq> None \<and> ?out = ?err")
    case True
    have "wired d0 (d1(1 \<mapsto> File (the ?out) ?om, 2 \<mapsto> File (the ?out) ?om))"
      by (intro wired_out w w1) simp_all
    then show ?thesis using d w1 unfolding if_P [OF True] by auto
  next
    case False
    then obtain u2 d2 u3 where d2: "(u2, d2) \<in> redirected ?out ?om 1 d1" "(u3, d') \<in> redirected ?err ?em 2 d2"
      using d unfolding if_not_P [OF False] by auto
    have "wired d0 d2" by (rule redirected_wired [OF d2(1) w1]) (use m(1) in simp)
    then show ?thesis by (rule redirected_wired [OF d2(2)]) (use m(2) in simp)
  qed
qed

text \<open>All programs that are launched are wired so.\<close>

definition all_wired :: "(int \<rightharpoonup> desc) \<Rightarrow> event list \<Rightarrow> bool" where
  "all_wired d0 es \<longleftrightarrow> (\<forall>(a, d) \<in> launches es. wired d0 d)"

lemma all_wired_simps [simp]:
  "all_wired d0 []" "all_wired d0 (xs @ ys) \<longleftrightarrow> all_wired d0 xs \<and> all_wired d0 ys"
  "all_wired d0 (Child es # es') \<longleftrightarrow> all_wired d0 es \<and> all_wired d0 es'"
  "all_wired d0 (Note m # es) \<longleftrightarrow> all_wired d0 es" "all_wired d0 (Launch a e c d # es) \<longleftrightarrow> wired d0 d \<and> all_wired d0 es"
  by (simp_all add: all_wired_def ball_Un)

lemma silent_wired: "(us, d) \<in> redirection_results e s d1 \<Longrightarrow> all_wired d0 us"
  by (simp add: all_wired_def redirection_silent)

lemma eval_launches:
  "eval p l c es out \<Longrightarrow> wired d0 (fds p) \<Longrightarrow>
     all_wired d0 es \<and> (case out of Returns r p' \<Rightarrow> fds p' = fds p | Ends _ \<Rightarrow> True)"
  "subshell p l c es st \<Longrightarrow> wired d0 (fds p) \<Longrightarrow> all_wired d0 es"
proof (induction rule: eval_subshell.inducts)
  case (eval_launch p s w argv us d st l)
  then show ?case using redirection_wired [OF eval_launch(5)] silent_wired [OF eval_launch(5)] by simp
next
  case (eval_pipe i p l c1 es1 st1 c2 es2 st2)
  have "wired d0 (fds (p\<lparr>fds := (fds p)(1 \<mapsto> Pipe_write i)\<rparr>))" "wired d0 (fds (p\<lparr>fds := (fds p)(0 \<mapsto> Pipe_read i)\<rparr>))"
    using wired_out [OF eval_pipe.prems, of "Pipe_write i" 1] wired_in [OF eval_pipe.prems, of "Pipe_read i"]
    by (simp_all add: reads_def writes_def)
  then show ?case using eval_pipe.IH eval_pipe.prems by (simp only: all_wired_simps outcome.case simp_thms)
qed (auto split: outcome.splits dest: silent_wired)

lemma session_launches:
  "session p rs es st \<Longrightarrow> wired d0 (fds p) \<Longrightarrow> all_wired d0 es"
proof (induction rule: session.induct)
  case (session_line p c es1 r p' rs es2 st)
  then have "fds p' = fds p" "all_wired d0 es1" using eval_launches(1) [OF session_line(1)] by auto
  then show ?case using session_line by simp
qed (auto dest: eval_launches(1))

subsection \<open>Sessions\<close>


text \<open>A shell with its three descriptors, and a parser that knows one word.\<close>

definition demo_process :: process where
  "demo_process = \<lparr>env = Map.empty, cwd = [], fds = [0 \<mapsto> Inherited 0, 1 \<mapsto> Inherited 1, 2 \<mapsto> Inherited 2], kids = Map.empty\<rparr>"

definition word_command :: "string \<Rightarrow> simple_command_t" where
  "word_command w = \<lparr>verb = [\<lparr>str = w, expand = False\<rparr>], params = [], in_words = [], out_words = [], err_words = [], io_flags = 0\<rparr>"


lemma demo_std: "std demo_process"
  by (simp add: std_def demo_process_def)

lemma word_command_words: "get_word e (verb (word_command w)) = Some w" "verb (word_command w) = [\<lparr>str = w, expand = False\<rparr>]"
  "params (word_command w) = []" "get_argv e (word_command w) = Some [w]"
  by (simp_all add: word_command_def get_word_def get_argv_def)

lemma word_no_redirection: "redirections (word_command w) k = Environ (\<lambda>e. k)"
  by (simp add: redirections_def word_command_def first_word_def get_word_def redirect_to_def Let_def)

text \<open>A program is launched and exits with a status.\<close>

lemma word_run:
  assumes "CHR ''='' \<notin> set w" "\<not> is_builtin [\<lparr>str = w, expand = False\<rparr>]" "kids p = Map.empty" "run p (k n) es st" "0 \<le> n \<and> n < 256"
  shows "run p (parse_command (Simple (word_command w)) l k) (Child [Launch [w] (env p) (cwd p) (fds p)] # es) st"
proof -
  have "run (child_of p) (redirections (word_command w) (Environ (\<lambda>e.
      case get_argv e (word_command w) of None \<Rightarrow> Message Die (Exit 1)
      | Some argv \<Rightarrow> Execvp argv (Message (Execution_failed (get_word e (verb (word_command w)))) (Exit 1)))))
      [Launch [w] (env p) (cwd p) (fds p)] (Exited n)"
    using run_execvp [of "Exited n" "child_of p" "[w]"] assms(5) by (simp add: word_no_redirection run_simps word_command_words status_ok_def)
  moreover have "run (p\<lparr>kids := (kids p)(1 \<mapsto> Exited n)\<rparr>) (Waitpid 1 (\<lambda>status. k (case status of Exited n \<Rightarrow> n | Signaled \<Rightarrow> - 1))) es st"
  proof -
    have "p\<lparr>kids := (kids p)(1 := None)\<rparr> = p" using assms(3) by (simp add: fun_upd_idem)
    then show ?thesis using assms(4) by (simp add: run_simps)
  qed
  ultimately have "run p (parse_simple (word_command w) l k) (Child [Launch [w] (env p) (cwd p) (fds p)] # es) st"
    unfolding parse_simple_def using assms(3) by (intro run_fork [of _ _ _ _ 1]) simp_all
  then show ?thesis
    using assms(1,2) word_command_words(1) [of "env p" w] by (simp add: simple_def run_simps word_command_words(2) is_builtin_def)
qed









subsection \<open>Descriptors of pipelines\<close>

text \<open>
  C17. In a run of the shell in which no \<open>fork\<close> or \<open>pipe\<close> is refused and nothing undefined happens, on a text without NUL and
  carriage return characters, every program that the shell or one of its subshells launches has exactly the descriptors of the
  shell, with the same meaning, but for the standard ones: its standard input is the shell's, the end of a pipe that is read or a file
  opened to be read, its standard output and standard error are the shell's, the end of a pipe that is written or a file opened to be
  written. So no other end of a pipe and no descriptor of a redirection's file leaks into it.
\<close>

theorem launched_descriptors:
  assumes "run p (main parse input) es st" "std p" "list_all clean es" "plain input" "(argv, d) \<in> launches es"
  shows "(\<forall>fd. fd \<notin> {0, 1, 2} \<longrightarrow> d fd = fds p fd) \<and>
    (d 0 = fds p 0 \<or> (\<exists>i. d 0 = Some (Pipe_read i)) \<or> (\<exists>f. d 0 = Some (File f O_RDONLY))) \<and>
    (\<forall>t \<in> {1, 2}. d t = fds p t \<or> (\<exists>i. d t = Some (Pipe_write i)) \<or> (\<exists>f m. d t = Some (File f m) \<and> m \<noteq> O_RDONLY))"
proof -
  have "session p (map parse (lines_of input)) es st" using start_shell_session assms(1-4) by (simp add: main_def)
  then have "all_wired (fds p) es" by (rule session_launches) (rule wired_refl)
  then have "\<forall>(a, d) \<in> launches es. wired (fds p) d" by (simp only: all_wired_def)
  from bspec [OF this assms(5)] have "wired (fds p) d" by (simp only: prod.case)
  then show ?thesis unfolding wired_def reads_iff writes_iff by metis
qed

definition pipe_events :: "event list" where
  "pipe_events =
     [Child [Child [Launch [''ls''] Map.empty [] ((fds demo_process)(1 \<mapsto> Pipe_write 0))]],
      Child [Child [Launch [''wc''] Map.empty [] ((fds demo_process)(0 \<mapsto> Pipe_read 0))]]]"

lemma pipe_demo_run:
  assumes k: "run demo_process (k 0) es st"
  shows "run demo_process (parse_command (Compound OP_PIPE (Simple (word_command ''ls'')) (Simple (word_command ''wc''))) 0 k)
    (pipe_events @ es) st"
proof -
  let ?f = "fds demo_process" and ?g = "(fds demo_process)(3 \<mapsto> Pipe_read 0, 4 \<mapsto> Pipe_write 0)"
  let ?p = "\<lambda>d ks. \<lparr>env = Map.empty, cwd = [], fds = d, kids = ks\<rparr>"
  have word: "run (?p d Map.empty) (parse_command (Simple (word_command w)) 1 Exit) [Child [Launch [w] Map.empty [] d]] (Exited 0)"
    if "w \<in> {''ls'', ''wc''}" for w d
    using that word_run [of w "?p d Map.empty" Exit 0 "[]" "Exited 0" 1] by (auto simp: is_builtin_def run_simps)
  have f: "?g(3 := None, 1 \<mapsto> Pipe_write 0, 4 := None) = ?f(1 \<mapsto> Pipe_write 0)" "?g(4 := None, 0 \<mapsto> Pipe_read 0, 3 := None) = ?f(0 \<mapsto> Pipe_read 0)"
    by (auto simp: demo_process_def fun_upd_def)
  have first: "run (?p ?g Map.empty) (Close 3 (Dup2 4 1 (Close 4 (parse_command (Simple (word_command ''ls'')) 1 Exit))))
      [Child [Launch [''ls''] Map.empty [] (?f(1 \<mapsto> Pipe_write 0))]] (Exited 0)"
    using word [of "''ls''" "?f(1 \<mapsto> Pipe_write 0)"] f(1) by (simp add: run_simps)
  have second: "run (?p ?g Map.empty) (Close 4 (Dup2 3 0 (Close 3 (parse_command (Simple (word_command ''wc'')) 1 Exit))))
      [Child [Launch [''wc''] Map.empty [] (?f(0 \<mapsto> Pipe_read 0))]] (Exited 0)"
    using word [of "''wc''" "?f(0 \<mapsto> Pipe_read 0)"] f(2) by (simp add: run_simps)
  let ?wait = "\<lambda>pid1 pid2. Close 3 (Close 4 (Waitpid pid1 (\<lambda>_. Waitpid pid2 (\<lambda>st. k (case st of Exited n \<Rightarrow> n | Signaled \<Rightarrow> 0)))))"
  have "?g(3 := None, 4 := None) = ?f" by (auto simp: demo_process_def fun_upd_def)
  then have wait: "run (?p ?g [1 \<mapsto> Exited 0, 2 \<mapsto> Exited 0]) (?wait 1 2) es st"
    using k by (simp add: run_simps) (simp add: demo_process_def)
  have "run (?p ?g [1 \<mapsto> Exited 0]) (Fork (\<lambda>pid2. if pid2 < 0 then parse_error ''Fork failed'' 0 (k 0)
      else if pid2 = 0 then Close 4 (Dup2 3 0 (Close 3 (parse_command (Simple (word_command ''wc'')) 1 Exit))) else ?wait 1 pid2))
      ([Child [Child [Launch [''wc''] Map.empty [] (?f(0 \<mapsto> Pipe_read 0))]]] @ es) st"
    unfolding append.simps using second wait by (intro run_fork [of _ _ _ _ 2]) (simp_all add: child_of_def)
  then have "run (?p ?g Map.empty) (Fork (\<lambda>pid1. if pid1 < 0 then parse_error ''Fork failed'' 0 (k 0)
      else if pid1 = 0 then Close 3 (Dup2 4 1 (Close 4 (parse_command (Simple (word_command ''ls'')) 1 Exit)))
      else Fork (\<lambda>pid2. if pid2 < 0 then parse_error ''Fork failed'' 0 (k 0)
      else if pid2 = 0 then Close 4 (Dup2 3 0 (Close 3 (parse_command (Simple (word_command ''wc'')) 1 Exit))) else ?wait pid1 pid2)))
      (pipe_events @ es) st"
    unfolding pipe_events_def append.simps using first by (intro run_fork [of _ _ _ _ 1]) (simp_all add: child_of_def)
  moreover have "?p d Map.empty = demo_process\<lparr>fds := d\<rparr>" for d by (simp add: demo_process_def)
  moreover have "Pipe_read i \<notin> ran ?f" "Pipe_write i \<notin> ran ?f" "fresh_fd demo_process 3" "fresh_fd demo_process 4" for i
    by (auto simp: demo_process_def fresh_fd_def ran_def split: if_splits)
  ultimately show ?thesis
    unfolding parse_command.simps operator_t.case run_on_pipe_def add_0_left
    by (intro run_pipe [of _ 3 4 0]) (simp_all only: option.case prod.case, simp_all)
qed

text \<open>The input \<open>ls | wc\<close> on one line.\<close>

definition pipe_parse :: "string \<Rightarrow> command_t option" where
  "pipe_parse line = (if line = ''ls | wc'' then Some (Compound OP_PIPE (Simple (word_command ''ls'')) (Simple (word_command ''wc''))) else None)"

lemma pipe_session_run:
  "run demo_process (main pipe_parse (''ls | wc'' @ [newline])) ([Note Prompt] @ pipe_events @ [Note Prompt]) (Exited 0)"
proof -
  have l: "read_line (''ls | wc'' @ [newline]) = Some (Some ''ls | wc'', [])" "read_line [] = Some (None, [])"
    by (simp_all add: read_line_plain plain_def)
  have "run demo_process (start_shell pipe_parse [] (Exit 0)) [Note Prompt] (Exited 0)"
    by (subst start_shell.simps) (simp add: l(2) run_simps)
  then have "run demo_process (parse_command (Compound OP_PIPE (Simple (word_command ''ls'')) (Simple (word_command ''wc''))) 0
      (\<lambda>ret. if ret = SHELL_EXIT then Exit 0 else start_shell pipe_parse [] (Exit 0))) (pipe_events @ [Note Prompt]) (Exited 0)"
    by (intro pipe_demo_run) (simp add: SHELL_EXIT_def)
  then show ?thesis
    unfolding main_def
    by (subst start_shell.simps) (simp only: l(1) option.case prod.case pipe_parse_def run_simps, simp)
qed

text \<open>The ends of the pipe were 3 and 4 in the shell; neither is open in the programs.\<close>

theorem launched_descriptors_witness:
  "\<exists>d1 d2. ([''ls''], d1) \<in> launches ([Note Prompt] @ pipe_events @ [Note Prompt]) \<and>
    ([''wc''], d2) \<in> launches ([Note Prompt] @ pipe_events @ [Note Prompt]) \<and>
    d1 1 = Some (Pipe_write 0) \<and> d2 0 = Some (Pipe_read 0) \<and> d1 3 = None \<and> d1 4 = None \<and> d2 3 = None \<and> d2 4 = None"
proof -
  let ?d1 = "(fds demo_process)(1 \<mapsto> Pipe_write 0)" and ?d2 = "(fds demo_process)(0 \<mapsto> Pipe_read 0)"
  let ?es = "[Note Prompt] @ pipe_events @ [Note Prompt]"
  have c: "list_all clean ?es" "plain (''ls | wc'' @ [newline])" by (simp_all add: pipe_events_def plain_def)
  have l: "([''ls''], ?d1) \<in> launches ?es" "([''wc''], ?d2) \<in> launches ?es" by (simp_all add: pipe_events_def)
  note wired = launched_descriptors [OF pipe_session_run demo_std c, THEN conjunct1]
  have "?d1 3 = None" "?d1 4 = None" using wired [OF l(1)] by (simp_all add: demo_process_def)
  moreover have "?d2 3 = None" "?d2 4 = None" using wired [OF l(2)] by (simp_all add: demo_process_def)
  ultimately show ?thesis using l by (intro exI [of _ ?d1] exI [of _ ?d2]) simp
qed

subsection \<open>Pipelines and append flags\<close>

inductive_cases eval_simpleE: "eval p l (Simple s) es out"
inductive_cases eval_pipeE: "eval p l (Compound OP_PIPE c1 c2) es out"
inductive_cases subshellE: "subshell p l c es st"

text \<open>An external command whose words are those of \<open>argv\<close>.\<close>

definition external :: "environ \<Rightarrow> simple_command_t \<Rightarrow> bool" where
  "external e s \<longleftrightarrow> (\<exists>w. get_word e (verb s) = Some w \<and> CHR ''='' \<notin> set w) \<and> \<not> is_builtin (verb s)"

lemma run_to_exit:
  assumes "run p (parse_command c l Exit) es st" "std p" "list_all clean es"
  obtains (returns) r p' where "eval p l c es (Returns r p')" | (ends) "eval p l c es (Ends st)"
proof -
  have "implements p l c Exit es st"
    using parse_command_implemented assms unfolding implemented_def by blast
  then show thesis unfolding implements_def by (auto simp: run_simps intro: that)
qed

lemma external_launches:
  assumes "eval p l (Simple s) es out" "external (env p) s"
  shows "launches es \<subseteq> {the (get_argv (env p) s)} \<times> snd ` redirection_results (env p) s (fds p)"
  using assms(1) by (cases rule: eval_simpleE)
    (use assms(2) in \<open>auto simp: external_def is_builtin_def redirection_silent intro: image_eqI [of _ snd "(us, d)" for us d]\<close>)

lemma subshell_external_launches:
  assumes "subshell p l (Simple s) es st" "external (env p) s"
  shows "launches es \<subseteq> {the (get_argv (env p) s)} \<times> snd ` redirection_results (env p) s (fds p)"
  using assms(1) by (cases rule: subshellE) (use external_launches [of "child_of p" l s es] assms(2) in auto)

lemma external_word: "CHR ''='' \<notin> set w \<Longrightarrow> w \<notin> {''cd'', ''exit'', ''quit''} \<Longrightarrow> external e (word_command w)"
  using word_command_words(1) [of e w] by (auto simp: external_def is_builtin_def word_command_words(2))

definition unredirected :: "simple_command_t \<Rightarrow> bool" where
  "unredirected s \<longleftrightarrow> in_words s = [] \<and> out_words s = [] \<and> err_words s = []"

lemma unredirected_results: "unredirected s \<Longrightarrow> redirection_results e s d = {([], d)}"
  by (simp add: unredirected_def redirection_results_def first_word_def get_word_def redirected_def)

text \<open>
  C23. In \<open>a | b\<close>, with external commands and no redirections, the only programs launched are those of \<open>a\<close>,
  with its standard output at the end of a fresh pipe that is written, and of \<open>b\<close>, with its standard
  input at the end of the same pipe that is read; the other descriptors of both are the shell's.
\<close>

theorem pipeline_wiring:
  assumes "run p (parse_command (Compound OP_PIPE (Simple a) (Simple b)) l Exit) es st" "std p" "list_all clean es"
    and "external (env p) a" "external (env p) b" "unredirected a" "unredirected b"
  shows "\<exists>i. Pipe_read i \<notin> ran (fds p) \<and> Pipe_write i \<notin> ran (fds p) \<and>
    launches es \<subseteq> {(the (get_argv (env p) a), (fds p)(1 \<mapsto> Pipe_write i)), (the (get_argv (env p) b), (fds p)(0 \<mapsto> Pipe_read i))}"
proof -
  obtain out where "eval p l (Compound OP_PIPE (Simple a) (Simple b)) es out"
    by (rule run_to_exit [OF assms(1-3)]) (rule that, assumption)+
  then obtain i es1 st1 es2 st2 where i: "Pipe_read i \<notin> ran (fds p)" "Pipe_write i \<notin> ran (fds p)" "es = [Child es1, Child es2]"
    and s: "subshell (p\<lparr>fds := (fds p)(1 \<mapsto> Pipe_write i)\<rparr>) (l + 1) (Simple a) es1 st1"
      "subshell (p\<lparr>fds := (fds p)(0 \<mapsto> Pipe_read i)\<rparr>) (l + 1) (Simple b) es2 st2"
    by (rule eval_pipeE) (auto intro: that)
  have "launches es1 \<subseteq> {(the (get_argv (env p) a), (fds p)(1 \<mapsto> Pipe_write i))}"
    using subshell_external_launches [OF s(1)] assms(4,6) by (simp add: unredirected_results)
  moreover have "launches es2 \<subseteq> {(the (get_argv (env p) b), (fds p)(0 \<mapsto> Pipe_read i))}"
    using subshell_external_launches [OF s(2)] assms(5,7) by (simp add: unredirected_results)
  ultimately show ?thesis unfolding i(3) by (intro exI [of _ i] conjI i(1,2)) auto
qed

lemma pipe_demo_exit:
  "run demo_process (parse_command (Compound OP_PIPE (Simple (word_command ''ls'')) (Simple (word_command ''wc''))) 0 Exit)
     pipe_events (Exited 0)"
  using pipe_demo_run [of Exit "[]" "Exited 0"] by (simp add: run_simps)

theorem pipeline_wiring_witness:
  "\<exists>i. Pipe_read i \<notin> ran (fds demo_process) \<and> Pipe_write i \<notin> ran (fds demo_process) \<and>
    launches pipe_events \<subseteq> {(the (get_argv (env demo_process) (word_command ''ls'')), (fds demo_process)(1 \<mapsto> Pipe_write i)),
      (the (get_argv (env demo_process) (word_command ''wc'')), (fds demo_process)(0 \<mapsto> Pipe_read i))}"
proof -
  have c: "list_all clean pipe_events" by (simp add: pipe_events_def)
  have e: "external (env demo_process) (word_command ''ls'')" "external (env demo_process) (word_command ''wc'')"
    by (simp_all add: external_word)
  have u: "unredirected (word_command w)" for w by (simp add: unredirected_def word_command_def)
  show ?thesis by (rule pipeline_wiring [OF pipe_demo_exit demo_std c e u u])
qed

definition truncates :: "int \<Rightarrow> (int \<rightharpoonup> desc) \<Rightarrow> (int \<rightharpoonup> desc) \<Rightarrow> bool" where
  "truncates t d0 d \<longleftrightarrow> d t = d0 t \<or> (\<exists>f. d t = Some (File f O_TRUNC))"

lemma redirected_truncates: "(us, d) \<in> redirected g O_TRUNC u d1 \<Longrightarrow> truncates t d0 d1 \<Longrightarrow> truncates t d0 d"
  by (cases g) (auto simp: redirected_def truncates_def)

lemma redirection_truncates:
  assumes "(us, d) \<in> redirection_results e s d0" "io_flags s = IO_OUT_APPEND OR IO_ERR_APPEND" "t \<in> {1, 2}"
  shows "truncates t d0 d"
proof -
  let ?in = "get_word e (first_word (in_words s))" and ?out = "get_word e (first_word (out_words s))"
  let ?err = "get_word e (first_word (err_words s))"
  have m: "(if io_flags s = IO_OUT_APPEND then O_APPEND else O_TRUNC) = O_TRUNC"
    "(if io_flags s = IO_ERR_APPEND then O_APPEND else O_TRUNC) = O_TRUNC"
    using assms(2) by (simp_all add: IO_OUT_APPEND_def IO_ERR_APPEND_def)
  obtain u1 d1 where d1: "(u1, d1) \<in> redirected ?in O_RDONLY 0 d0" and
    d: "d \<in> {d1, d1(1 \<mapsto> File (the ?out) O_TRUNC, 2 \<mapsto> File (the ?out) O_TRUNC)} \<or>
      (\<exists>u2 d2 u3. (u2, d2) \<in> redirected ?out O_TRUNC 1 d1 \<and> (u3, d) \<in> redirected ?err O_TRUNC 2 d2)"
    using assms(1) unfolding redirection_results_def Let_def m by (fastforce split: if_splits)
  have "truncates t d0 d1" using d1 assms(3) by (cases ?in) (auto simp: redirected_def truncates_def)
  then show ?thesis
    using d redirected_truncates [of _ _ ?out 1 d1 t d0] redirected_truncates [of _ _ ?err 2 _ t d0]
    by (elim disjE exE conjE) (auto simp: truncates_def)
qed

text \<open>
  C39. When both append flags of a command are set (\<open>>> a 2>> b\<close>), no program launched for it appends to
  either file: the flags are tested for equality, so an output descriptor that a redirection changed
  is a file opened with truncation.
\<close>

theorem both_append_truncates:
  assumes "run p (parse_command (Simple s) l Exit) es st" "std p" "list_all clean es"
    and "external (env p) s" "io_flags s = IO_OUT_APPEND OR IO_ERR_APPEND"
    and "(argv, d) \<in> launches es" "t \<in> {1, 2}"
  shows "d t = fds p t \<or> (\<exists>f. d t = Some (File f O_TRUNC))"
proof -
  obtain out where "eval p l (Simple s) es out"
    by (rule run_to_exit [OF assms(1-3)]) (rule that, assumption)+
  then obtain us where d: "(us, d) \<in> redirection_results (env p) s (fds p)" using external_launches assms(4,6) by fastforce
  show ?thesis using redirection_truncates [OF d assms(5,7)] by (simp only: truncates_def)
qed

definition append_command :: simple_command_t where
  "append_command = (word_command ''ls'')
     \<lparr>out_words := [[\<lparr>str = ''a'', expand = False\<rparr>]], err_words := [[\<lparr>str = ''b'', expand = False\<rparr>]], io_flags := 3\<rparr>"

definition append_fds :: "int \<rightharpoonup> desc" where
  "append_fds = (fds demo_process)(1 \<mapsto> File ''a'' O_TRUNC, 2 \<mapsto> File ''b'' O_TRUNC)"

lemma append_redirections:
  assumes "run (demo_process\<lparr>fds := append_fds\<rparr>) k es st"
  shows "run demo_process (redirections append_command k) es st"
proof -
  let ?f = "fds demo_process"
  have f: "?f(3 \<mapsto> File ''a'' O_TRUNC, 1 \<mapsto> File ''a'' O_TRUNC, 3 := None) = ?f(1 \<mapsto> File ''a'' O_TRUNC)"
    "?f(1 \<mapsto> File ''a'' O_TRUNC, 3 \<mapsto> File ''b'' O_TRUNC, 2 \<mapsto> File ''b'' O_TRUNC, 3 := None) = append_fds"
    by (auto simp: demo_process_def fun_upd_def append_fds_def)
  have fresh: "fresh_fd demo_process 3" "fresh_fd (demo_process\<lparr>fds := ?f(1 \<mapsto> x)\<rparr>) 3" for x
    by (simp_all add: fresh_fd_def demo_process_def)
  have "run (demo_process\<lparr>fds := ?f(1 \<mapsto> File ''a'' O_TRUNC)\<rparr>) (redirect_to (Some ''b'') O_TRUNC 2 k) es st"
    unfolding redirect_to_def option.case using assms f(2) by (intro run_open [OF fresh(2)]) (simp add: run_simps)
  then have "run demo_process (redirect_to (Some ''a'') O_TRUNC 1 (redirect_to (Some ''b'') O_TRUNC 2 k)) es st"
    unfolding redirect_to_def [of "Some ''a''"] option.case using f(1) by (intro run_open [OF fresh(1)]) (simp add: run_simps)
  moreover have "redirect_to None O_RDONLY 0 k' = k'" for k' by (simp add: redirect_to_def)
  ultimately show ?thesis
    by (simp add: redirections_def append_command_def word_command_def first_word_def get_word_def run_simps
        IO_OUT_APPEND_def IO_ERR_APPEND_def Let_def)
qed

definition append_events :: "event list" where
  "append_events = [Child [Launch [''ls''] Map.empty [] append_fds]]"

lemma append_words: "verb append_command = [\<lparr>str = ''ls'', expand = False\<rparr>]" "params append_command = []"
  "get_word e (verb append_command) = Some ''ls''" "get_argv e append_command = Some [''ls'']"
  by (simp_all add: append_command_def word_command_def get_word_def get_argv_def)

lemma append_run: "run demo_process (parse_command (Simple append_command) 0 Exit) append_events (Exited 0)"
proof -
  have c: "child_of demo_process = demo_process" by (simp add: child_of_def demo_process_def)
  have "run demo_process (redirections append_command (Environ (\<lambda>e. case get_argv e append_command of
      None \<Rightarrow> Message Die (Exit 1)
    | Some argv \<Rightarrow> Execvp argv (Message (Execution_failed (get_word e (verb append_command))) (Exit 1)))))
    [Launch [''ls''] Map.empty [] append_fds] (Exited 0)"
    using run_execvp [of "Exited 0" "demo_process\<lparr>fds := append_fds\<rparr>" "[''ls'']"]
    by (intro append_redirections) (simp add: run_simps append_words(4) demo_process_def status_ok_def)
  moreover have "run (demo_process\<lparr>kids := (kids demo_process)(1 \<mapsto> Exited 0)\<rparr>)
      (Waitpid 1 (\<lambda>status. Exit (case status of Exited n \<Rightarrow> n | Signaled \<Rightarrow> - 1))) [] (Exited 0)"
    by (simp add: run_simps)
  ultimately have "run demo_process (parse_simple append_command 0 Exit) append_events (Exited 0)"
    unfolding parse_simple_def append_events_def by (intro run_fork [of _ _ _ _ 1]) (simp_all add: c, simp add: demo_process_def)
  then show ?thesis
    using append_words(3) [of Map.empty] by (simp add: simple_def run_simps append_words(1) demo_process_def)
qed

theorem both_append_truncates_witness:
  "append_fds 1 = fds demo_process 1 \<or> (\<exists>f. append_fds 1 = Some (File f O_TRUNC))"
proof (rule both_append_truncates [OF append_run demo_std])
  show "list_all clean append_events" by (simp add: append_events_def)
  show "external (env demo_process) append_command"
    using append_words(3) [of "env demo_process"] by (simp add: external_def is_builtin_def append_words(1))
  show "io_flags append_command = IO_OUT_APPEND OR IO_ERR_APPEND"
    by (simp add: append_command_def IO_OUT_APPEND_def IO_ERR_APPEND_def)
  show "([''ls''], append_fds) \<in> launches append_events" by (simp add: append_events_def)
qed simp

end
