(* ===== verification/Spec2Isabelle.thy ===== *)
theory Spec2Isabelle
  imports Conc_List Sim_List Mlfq_Run Channel_Props Range_Props Driver_Read Shell_Props
begin

text \<open>
  Verification of five operating systems course projects in C: a scheduling simulator
  (\<open>src/simulatorlab-FreezeKickerz\<close>), message channels between threads
  (\<open>src/concurrency-project-FreezeKickerz\<close>), a memory allocator with the driver that tests it
  (\<open>src/assignment-2-malloclab-FreezeKickerz\<close>), a shell
  (\<open>src/mini-shell-project-FreezeKickerz\<close>) and a set of exercises
  (\<open>src/homework-1-FreezeKickerz\<close>, not modelled).

  Conventions. A C function is a definition of the same name over explicit state; undefined
  behaviour (a dereference of \<open>NULL\<close> or of freed memory, an access outside an array or outside
  the mapped region, an assertion that fails) and a loop that does not end are the value
  \<open>None\<close>, so that a theorem with a result \<open>Some\<close> says that the code is memory safe and ends.
  \<open>size_t\<close> and \<open>uint64_t\<close> are 64-bit words. What \<open>malloc\<close>, \<open>pthread_mutex_lock\<close> and the system
  calls return is an argument of the model, or every answer is allowed by a step relation.
  Errors that a function reports are values of its result.

  The scheduling simulator. \<open>Dll\<close> is the heap of linked cells of all list modules. \<open>Sim_List\<close> is
  \<open>linked_list.c\<close>, an ordered doubly linked list with a comparator, proved to be the list of
  (node, datum) pairs; \<open>Job\<close> is \<open>job.h\<close>; \<open>Simulator\<close> is \<open>simulator.c\<close>, the event queue, the clock and
  the run loop, with the callbacks as an argument; \<open>Scheduler\<close> is \<open>scheduler.c\<close> and the four policies
  \<open>schedulerFCFS.c\<close>, \<open>schedulerLCFS.c\<close>, \<open>schedulerSJF.c\<close>, \<open>schedulerMLFQ.c\<close>; \<open>Trace\<close> is \<open>trace.c\<close>, a whole run
  from the lines read to the lines written. \<open>Nonpreemptive\<close> states, as the locale \<open>np_policy\<close>, what a
  policy without preemption promises and proves once that the pointer program then computes the
  schedule \<open>np_spec\<close>; \<open>Policies\<close> interprets it for three of the policies and states the properties C5
  and C10. \<open>Mlfq_Spec\<close> is what the multi-level feedback queue of the code computes, on lists, with an induction rule whose
  cases are the events of a run; \<open>Mlfq\<close> proves that each branch of \<open>schedulerMLFQ.c\<close> does one such step on the
  wrappers, the level queues and the job store. \<open>Mlfq_Documented\<close> is the schedule that the README asks for, on one list of
  jobs in the order in which they entered their levels, and the proof that the two agree as long as no arrival
  preempts a job while another waits on its level. \<open>Mlfq_Run\<close> states the properties C11 and C13. A run
  is total: every line causes one arrival, and each quantum lowers the work that is left.

  The channels. \<open>Buffer\<close> is the ring buffer \<open>buffer.c\<close>, which interprets the interface
  \<open>bounded_fifo\<close> of \<open>Fifo\<close>, operations that are defined and do what those of a bounded list do (C32); \<open>Conc_List\<close> is the list of the selectors. \<open>Channel\<close> is
  \<open>channel.c\<close>, one definition per critical section; \<open>Channel_System\<close> is any number of threads that
  run the operations, as an interleaving of critical sections and of the actions outside
  them, with condition variables (spurious wakeups included), semaphores and lock failures.
  \<open>Channel_Fifo\<close>, \<open>Channel_Safe\<close>, \<open>Channel_Live\<close>, \<open>Channel_Select\<close> and \<open>Channel_Rendezvous\<close> prove the invariants of
  the reachable states by rule induction: order and completeness of the messages, definedness of every
  step, the balance of waiting threads and wakeups, the lifetime of the semaphores, the phases of a
  rendezvous. \<open>Channel_Props\<close> states the properties.

  The allocator. \<open>Memlib\<close> is \<open>memlib.c\<close>, the mapped region as bytes with the break; \<open>Mm\<close> is \<open>mm.c\<close>,
  with headers, footers and the free list as words in that region. \<open>Mm_Heap\<close> and \<open>Mm_Lists\<close> read the
  words as a sequence of blocks and a free list, \<open>Mm_Ops\<close> to \<open>Mm_Coalesce\<close> prove what each operation does to
  the sequence, in particular \<open>Mm_Coalesce\<close> that \<open>free\<close> merges in all cases but one: a free block of 32 or 48 bytes that ends
  the heap stays unmerged (C9, C36). \<open>Mm_Client\<close> says what it is to hold blocks, and \<open>Mm_Roomy\<close> that a client whose requests are
  of 41 bytes or more never meets that case: every operation keeps \<open>roomy\<close> and the contents of the other blocks, and
  \<open>realloc\<close> the contents it moves. With smaller requests a program can reach it by \<open>malloc\<close> and \<open>free\<close> alone, so the
  properties of clients (C3, C14, C15, C16, C24) are about such requests only. \<open>Mm_Check\<close> is the heap checker, and
  \<open>Mm_Props\<close> states the properties. \<open>Stree\<close> is the splay tree \<open>stree.c\<close> with its parent pointers;
  \<open>Stree_Heap\<close> and \<open>Stree_Splay\<close> prove rotations and splaying on a tree with a focus, \<open>Stree_Ops\<close> and
  \<open>Stree_Update\<close> the operations, and \<open>Stree_Props\<close> that any sequence of them is one on a
  sorted list of entries (the locale \<open>simulation\<close>). \<open>Range_Set\<close> is the part of \<open>mdriver.c\<close> that keeps
  the payloads an allocator has returned in that tree and in a list, to find overlaps; \<open>Range_Props\<close> says when
  it does.

  The driver. \<open>Driver\<close> is the rest of \<open>mdriver.c\<close> that runs: the replay of a trace for correctness, for space and for
  time on the model \<open>Mm\<close> of the allocator, with the random data written to the blocks and compared later, and the loop
  over the traces. \<open>Range_Chain\<close>
  is the range set when nothing overlaps: the tree holds every range, linked in ascending chains (\<open>chained\<close>). \<open>Driver_Data\<close> is
  filling and comparing, \<open>Driver_Valid\<close> the invariant \<open>tracked\<close>, that tables, range set and heap agree on the
  blocks and on their bytes, and that each request keeps it, if the trace is \<open>well_formed\<close> and of \<open>large_requests\<close>; \<open>Driver_Util\<close> the same for the sums of
  \<open>eval_mm_util\<close>. \<open>Driver_Props\<close> composes them over all traces. \<open>Driver_Read\<close> is \<open>read_trace\<close> on the characters of
  a file, and what it guarantees of a trace.

  The shell. \<open>Shell\<close> is \<open>cmd.c\<close> and \<open>utils.c\<close> over the trees of \<open>parser.h\<close>: a process is a program of system
  calls. \<open>Shell_Run\<close> gives the calls a meaning, with every answer the system may give, and says
  what the code makes of a command tree (\<open>eval\<close>); \<open>Shell_Eval\<close> proves it; \<open>Shell_Main\<close> is \<open>main.c\<close>, the reading of lines and the
  loop. \<open>Shell_Spec\<close> is what the README and \<open>parser.h\<close> say a command tree does (\<open>documented\<close>), and the proof that the code
  does it on \<open>ordinary\<close> trees, those without the cases in which the code departs from it. \<open>Shell_Props\<close> states the properties.

  Bounds. No fuel is used: loops on a data structure are recursive functions, or
  \<open>partial_function\<close>s whose results the lemmas give. The hypotheses on sizes are those of the code: an
  allocator's heap stays below its region of \<open>2 ^ 40\<close> bytes, addresses of ranges are
  below \<open>2 ^ 63\<close>, the number of jobs and the sum of their times fit in 64 bits. The traces of \<open>run_tests_accepts\<close> request at
  least 41 bytes each, because a smaller free block at the end of the heap breaks the merging (see the defects), and their
  \<open>demand\<close>, the sum of the block sizes, fits the region.

  Defects of the code are stated as theorems where they concern results: C38 and \<open>buffer_create_overflow\<close>
  (sizes that wrap), C35 (a send that succeeds without a receiver), C36 (free blocks that are not merged), C37
  (a failed \<open>realloc\<close> frees), C39 (append flags), C40 (overlaps that the driver misses), \<open>overtaken_MLFQ_3\<close> (a preempted job loses
  its turn), \<open>negative_index_read\<close> (a trace with the index - 1). C33 says which blocked operations still succeed on a channel that was closed.

  Not modelled. The command line of the simulator and the printing of the driver (input and output
  only); the options, the timeout, the measured times, the scores and the replays on the C library in \<open>mdriver.c\<close>; \<open>clock.c\<close> and \<open>fcyc.c\<close> (cycle counters and
  statistics of measured times); the parser of the shell (Bison and flex sources, a
  parameter of the model); the exercises of homework 1, which nothing else uses; test programs,
  stress programs and scripts. The
  contents of files and pipes, signals and the scheduling of processes are not part of the model of
  the shell; allocation failure inside the shell is not either.
\<close>

end
